(* ===== verification/Prelude.thy ===== *)
theory Prelude
  imports Main "HOL-Library.Word"
begin

unbundle bit_operations_syntax

text \<open>
  Shared vocabulary of the development: the machine types of the C++ sources, the result type
  that makes an out-of-bounds memory access visible, little-endian and big-endian readings of
  byte strings, and the list lemmas the component theories have in common.
\<close>

section \<open>Machine types\<close>

type_synonym byte = "8 word"
type_synonym u16 = "16 word"
type_synonym u32 = "32 word"
type_synonym u64 = "64 word"

text \<open>A \<^verbatim>\<open>std::string\<close> or a \<^verbatim>\<open>(const char*, length)\<close> pair is a list of bytes.\<close>

type_synonym bytes = "byte list"

named_theorems codec_simps \<open>encodings of fixed-width values\<close>
named_theorems order_simps \<open>comparison of identifiers, moved to numbers\<close>

section \<open>Undefined behaviour as a value\<close>

text \<open>
  \<open>Fault\<close> is the result of a computation that reads or writes outside an allocated object;
  \<open>Ret x\<close> is a normal return.
\<close>

datatype 'a res = Fault | Ret (the_ret: 'a)

primrec bind_res :: "'a res \<Rightarrow> ('a \<Rightarrow> 'b res) \<Rightarrow> 'b res" where
  "bind_res Fault f = Fault"
| "bind_res (Ret x) f = f x"

lemma bind_res_eq_Ret [simp]: "bind_res m f = Ret y \<longleftrightarrow> (\<exists>x. m = Ret x \<and> f x = Ret y)"
  by (cases m) auto

lemma bind_res_no_Fault [intro]: "m \<noteq> Fault \<Longrightarrow> (\<And>x. m = Ret x \<Longrightarrow> f x \<noteq> Fault) \<Longrightarrow> bind_res m f \<noteq> Fault"
  by (cases m) auto

lemma not_Fault_iff: "m \<noteq> Fault \<longleftrightarrow> (\<exists>x. m = Ret x)"
  by (cases m) auto

section \<open>Byte orders\<close>

text \<open>The bytes of a word as a little-endian machine stores them, and back.\<close>

fun le_bytes :: "nat \<Rightarrow> 'a::len word \<Rightarrow> bytes" where
  "le_bytes 0 w = []"
| "le_bytes (Suc n) w = ucast w # le_bytes n (drop_bit 8 w)"

fun le_word :: "bytes \<Rightarrow> 'a::len word" where
  "le_word [] = 0"
| "le_word (b # bs) = ucast b OR push_bit 8 (le_word bs)"

lemma length_le_bytes [simp]: "length (le_bytes n w) = n"
  by (induction n arbitrary: w) auto

lemma le_word_le_bytes_take: "le_word (le_bytes n w) = take_bit (8 * n) w"
proof (induction n arbitrary: w)
  case 0
  then show ?case by simp
next
  case (Suc n)
  show ?case
    by (rule bit_word_eqI) (auto simp: Suc bit_simps)
qed

lemma le_word_le_bytes [simp, codec_simps]:
  "LENGTH('a::len) \<le> 8 * n \<Longrightarrow> le_word (le_bytes n (w :: 'a word)) = w"
  by (simp add: le_word_le_bytes_take take_bit_word_eq_self)

lemma le_bytes_take:
  "8 * n \<le> m \<Longrightarrow> le_bytes n (take_bit m w) = le_bytes n w"
proof (induction n arbitrary: w m)
  case (Suc n)
  have "drop_bit 8 (take_bit m w) = take_bit (m - 8) (drop_bit 8 w)"
    by (rule drop_bit_take_bit)
  moreover have "ucast (take_bit m w) = (ucast w :: byte)"
    using Suc.prems by (intro bit_word_eqI) (auto simp: bit_simps dest: bit_imp_le_length)
  ultimately show ?case using Suc by simp
qed simp

lemma drop_push_word: "drop_bit 8 (push_bit 8 w) = take_bit (LENGTH('a) - 8) (w :: 'a::len word)"
  by (rule bit_word_eqI) (auto simp: bit_simps dest: bit_imp_le_length)

lemma le_bytes_le_word [simp, codec_simps]:
  "8 * length bs \<le> LENGTH('a::len) \<Longrightarrow> le_bytes (length bs) (le_word bs :: 'a word) = bs"
proof (induction bs)
  case Nil
  then show ?case by simp
next
  case (Cons b bs)
  have "ucast (ucast b OR push_bit 8 (le_word bs) :: 'a word) = b"
    using Cons.prems by (intro bit_word_eqI) (auto simp: bit_simps)
  moreover have "drop_bit 8 (ucast b OR push_bit 8 (le_word bs) :: 'a word) = drop_bit 8 (push_bit 8 (le_word bs))"
    by (rule bit_word_eqI) (auto simp: bit_simps dest: bit_imp_le_length)
  moreover have "le_bytes (length bs) (drop_bit 8 (push_bit 8 (le_word bs :: 'a word))) = bs"
    using Cons by (simp add: drop_push_word le_bytes_take)
  ultimately show ?case by simp
qed

text \<open>The number a byte string denotes when its first byte is the most significant one.\<close>

fun be_nat :: "bytes \<Rightarrow> nat" where
  "be_nat [] = 0"
| "be_nat (b # bs) = unat b * 256 ^ length bs + be_nat bs"

lemma unat_byte_less [simp]: "unat (b :: byte) < 256"
  using unsigned_less [of b, where ?'a = nat] by simp

lemma be_nat_less: "be_nat bs < 256 ^ length bs"
proof (induction bs)
  case Nil
  then show ?case by simp
next
  case (Cons b bs)
  have "unat b * 256 ^ length bs + be_nat bs < unat b * 256 ^ length bs + 256 ^ length bs"
    using Cons by simp
  also have "\<dots> = Suc (unat b) * 256 ^ length bs"
    by simp
  also have "\<dots> \<le> 256 * 256 ^ length bs"
    by (rule mult_right_mono) (use unat_byte_less [of b] in linarith, simp)
  finally show ?case by simp
qed

lemma digit_order:
  fixes p q m n c :: nat
  assumes "m < c" and "n < c"
  shows "p * c + m < q * c + n \<longleftrightarrow> p < q \<or> p = q \<and> m < n"
proof -
  have less: "x * c + k < y * c + l" if "x < y" "k < c" for x y k l :: nat
  proof -
    have "x * c + k < x * c + c" using that by simp
    also have "\<dots> = Suc x * c" by simp
    also have "\<dots> \<le> y * c" using that by (intro mult_right_mono) auto
    finally show ?thesis by simp
  qed
  consider "p < q" | "p = q" | "q < p" by linarith
  then show ?thesis
    by cases (use less [of p q m n] less [of q p n m] assms in auto)
qed

lemma be_nat_inject: "length xs = length ys \<Longrightarrow> be_nat xs = be_nat ys \<longleftrightarrow> xs = ys"
proof (induction xs ys rule: list_induct2)
  case Nil
  then show ?case by simp
next
  case (Cons x xs y ys)
  have "be_nat xs < 256 ^ length xs" "be_nat ys < 256 ^ length xs"
    using be_nat_less [of xs] be_nat_less [of ys] Cons by simp_all
  then have "unat x * 256 ^ length xs + be_nat xs = unat y * 256 ^ length xs + be_nat ys
      \<longleftrightarrow> unat x = unat y \<and> be_nat xs = be_nat ys"
    using digit_order [of "be_nat xs" "256 ^ length xs" "be_nat ys" "unat x" "unat y"]
      digit_order [of "be_nat ys" "256 ^ length xs" "be_nat xs" "unat y" "unat x"]
    by (metis nat_neq_iff)
  then show ?case using Cons by (simp add: word_unat_eq_iff)
qed

text \<open>
  Conversion of a signed \<^verbatim>\<open>char\<close> to \<^verbatim>\<open>unsigned int\<close> sign-extends; it keeps the order
  of the unsigned byte values.
\<close>

lemma int_mod_below: "- m \<le> a \<Longrightarrow> a < 0 \<Longrightarrow> a mod m = a + (m :: int)"
  using mod_pos_pos_trivial [of "a + m" m] by simp

lemma int_mod_above: "m \<le> a \<Longrightarrow> a < 2 * m \<Longrightarrow> a mod m = a - (m :: int)"
  using mod_pos_pos_trivial [of "a - m" m] by (simp add: minus_mod_self2)

lemma sint_byte: "sint (x :: byte) = (if uint x < 128 then uint x else uint x - 256)"
proof -
  have "sint x = (uint x + 128) mod 256 - 128"
    by (simp add: sint_uint signed_take_bit_eq_take_bit_shift take_bit_eq_mod)
  moreover have "0 \<le> uint x" "uint x < 256"
    using unsigned_less [of x, where ?'a = int] by simp_all
  ultimately show ?thesis
    by (cases "uint x < 128") (simp_all add: int_mod_above mod_pos_pos_trivial)
qed

lemma uint_scast_byte:
  "uint (scast (x :: byte) :: u32) = (if uint x < 128 then uint x else uint x + 4294967040)"
proof -
  have "uint (scast x :: u32) = sint x mod 4294967296"
    by (subst scast_eq) (simp only: uint_word_of_int, simp)
  moreover have "0 \<le> uint x" "uint x < 256"
    using unsigned_less [of x, where ?'a = int] by simp_all
  ultimately show ?thesis
    by (cases "uint x < 128") (simp_all add: sint_byte int_mod_below mod_pos_pos_trivial)
qed

lemma scast_byte_less [order_simps]: "(scast (x :: byte) :: u32) < scast y \<longleftrightarrow> x < y"
proof -
  have "0 \<le> uint x" "uint x < 256" "0 \<le> uint y" "uint y < 256"
    using unsigned_less [of x, where ?'a = int] unsigned_less [of y, where ?'a = int] by simp_all
  then show ?thesis
    by (auto simp: word_less_def uint_scast_byte)
qed

section \<open>Words as numbers\<close>

lemma unat_exp: "n < LENGTH('a) \<Longrightarrow> unat (2 ^ n :: 'a::len word) = 2 ^ n"
  using unat_of_nat [of "2 ^ n", where 'a = 'a] by (simp add: power_strict_increasing)

lemma unat_Suc_word: "unat (w :: 'a::len word) < x \<Longrightarrow> x < 2 ^ LENGTH('a) \<Longrightarrow> unat (w + 1) = Suc (unat w)"
  using unat_word_ariths(1) [of w 1] by (simp add: mod_less)

section \<open>Counting in lists\<close>

lemma count_update:
  assumes "i < length xs"
  shows "length (filter P (xs[i := y])) + (if P (xs ! i) then 1 else 0) = length (filter P xs) + (if P y then 1 else 0)"
proof -
  have "filter P xs = filter P (take i xs) @ filter P [xs ! i] @ filter P (drop (Suc i) xs)"
    by (subst id_take_nth_drop [OF assms]) (simp only: filter_append append_Cons append_Nil flip: filter_append)
  moreover have "filter P (xs[i := y]) = filter P (take i xs) @ filter P [y] @ filter P (drop (Suc i) xs)"
    using assms by (simp add: upd_conv_take_nth_drop)
  ultimately show ?thesis by simp
qed

end
