(* ===== verification/Dbid.thy ===== *)
theory Dbid
  imports Prelude
begin

unbundle bit_operations_syntax

text \<open>
  Ring identifiers (\<^verbatim>\<open>src/utils/dbid.h\<close>, \<^verbatim>\<open>src/utils/dbid.cc\<close>): the fixed-length
  \<^verbatim>\<open>DBID\<close>, its byte-wise comparison and the interval test \<^verbatim>\<open>between\<close> on the ring. The
  comparison is shown to be the order of the 160-bit numbers the identifiers denote, and
  \<^verbatim>\<open>between\<close> to be membership in a clockwise half-open interval modulo \<open>2 ^ 160\<close>.
  \<^verbatim>\<open>char\<close> is taken as signed, as GCC does on x86; the comparison proof shows that the order
  is that of the unsigned byte values all the same.
\<close>

section \<open>The identifier and its operations\<close>

definition DBID_LENGTH :: u32 where
  "DBID_LENGTH = 20"

record dbid =
  dbid_value :: bytes
  actual_size :: u32

text \<open>\<^verbatim>\<open>DBID::DBID()\<close>\<close>

definition DBID_default :: dbid where
  "DBID_default = \<lparr>dbid_value = replicate (unat DBID_LENGTH) 0, actual_size = 0\<rparr>"

text \<open>
  \<^verbatim>\<open>DBID::Init\<close>: a longer input is truncated, a shorter one padded with zeros. The pointer
  \<open>c\<close> must reach at least \<open>sz\<close> bytes, as every caller guarantees.
\<close>

definition DBID_Init :: "bytes \<Rightarrow> u32 \<Rightarrow> dbid" where
  "DBID_Init c sz =
     (let size' = (if sz > DBID_LENGTH then DBID_LENGTH else sz)
      in \<lparr>dbid_value = take (unat size') c
            @ (if size' < DBID_LENGTH then replicate (unat DBID_LENGTH - unat size') 0 else []),
          actual_size = size'\<rparr>)"

text \<open>\<^verbatim>\<open>DBID::DBID(const string &s)\<close>; the \<^verbatim>\<open>size_t\<close> length is narrowed to 32 bits.\<close>

definition DBID :: "bytes \<Rightarrow> dbid" where
  "DBID s = DBID_Init s (of_nat (length s))"

definition actual_data_str :: "dbid \<Rightarrow> bytes" where
  "actual_data_str d = take (unat (actual_size d)) (dbid_value d)"

text \<open>\<^verbatim>\<open>operator==\<close> is \<^verbatim>\<open>memcmp\<close> over the padded value.\<close>

definition dbid_eq :: "dbid \<Rightarrow> dbid \<Rightarrow> bool" where
  "dbid_eq a b \<longleftrightarrow> take (unat DBID_LENGTH) (dbid_value a) = take (unat DBID_LENGTH) (dbid_value b)"

text \<open>
  The loop of \<^verbatim>\<open>operator<\<close>: the first differing byte decides, each byte converted from
  \<^verbatim>\<open>char\<close> to \<^verbatim>\<open>unsigned int\<close>.
\<close>

fun bytes_less :: "bytes \<Rightarrow> bytes \<Rightarrow> bool" where
  "bytes_less (x # xs) (y # ys) =
     (if (scast x :: u32) > scast y then False
      else if (scast x :: u32) < scast y then True
      else bytes_less xs ys)"
| "bytes_less _ _ = False"

definition dbid_less :: "dbid \<Rightarrow> dbid \<Rightarrow> bool" where
  "dbid_less a b = bytes_less (take (unat DBID_LENGTH) (dbid_value a)) (take (unat DBID_LENGTH) (dbid_value b))"

text \<open>
  \<^verbatim>\<open>operator-\<close>: the first eight bytes of each value, read as a little-endian number. The
  first four terms are added as 32-bit \<^verbatim>\<open>int\<close>s, whose sum is sign-extended when it meets the
  first 64-bit term.
\<close>

definition dbid_top64 :: "dbid \<Rightarrow> u64" where
  "dbid_top64 d = (let v = (\<lambda>i. dbid_value d ! i)
     in scast ((ucast (v 0) :: u32) + push_bit 8 (ucast (v 1)) + push_bit 16 (ucast (v 2)) + push_bit 24 (ucast (v 3)))
      + push_bit 32 (ucast (v 4)) + push_bit 40 (ucast (v 5)) + push_bit 48 (ucast (v 6)) + push_bit 56 (ucast (v 7)))"

definition dbid_minus :: "dbid \<Rightarrow> dbid \<Rightarrow> u64" where
  "dbid_minus a b =
     (let thisid = dbid_top64 a; rhsid = dbid_top64 b
      in if rhsid > thisid then rhsid - thisid else thisid - rhsid)"

text \<open>\<^verbatim>\<open>between(const DBID*, const DBID*, const DBID*)\<close> and its overload on strings.\<close>

definition between :: "dbid \<Rightarrow> dbid \<Rightarrow> dbid \<Rightarrow> bool" where
  "between startID endID thisID =
     (if dbid_eq startID endID then True
      else if dbid_less endID startID then
        (if dbid_less startID thisID \<or> \<not> dbid_less endID thisID then True else False)
      else
        (if dbid_less startID thisID \<and> \<not> dbid_less endID thisID then True else False))"

definition between_keys :: "bytes \<Rightarrow> bytes \<Rightarrow> bytes \<Rightarrow> bool" where
  "between_keys startKey endKey thisKey = between (DBID startKey) (DBID endKey) (DBID thisKey)"

section \<open>Well-formedness\<close>

definition wf_dbid :: "dbid \<Rightarrow> bool" where
  "wf_dbid d \<longleftrightarrow> length (dbid_value d) = 20 \<and> unat (actual_size d) \<le> 20"

lemma wf_DBID_default: "wf_dbid DBID_default"
  by (simp add: wf_dbid_def DBID_default_def DBID_LENGTH_def)

lemma wf_DBID_Init: "unat n \<le> length c \<Longrightarrow> wf_dbid (DBID_Init c n)"
  by (auto simp: wf_dbid_def DBID_Init_def DBID_LENGTH_def Let_def word_less_nat_alt)

lemma wf_DBID [simp, intro]: "wf_dbid (DBID s)"
proof -
  have "unat (of_nat (length s) :: u32) \<le> length s"
    by (simp add: unat_of_nat)
  then show ?thesis by (simp add: DBID_def wf_DBID_Init)
qed

lemma DBID_value_short: "length s \<le> 20 \<Longrightarrow> dbid_value (DBID s) = s @ replicate (20 - length s) 0"
  by (auto simp: DBID_def DBID_Init_def DBID_LENGTH_def Let_def word_less_nat_alt unat_of_nat)

lemma actual_data_str_DBID: "length s \<le> 20 \<Longrightarrow> actual_data_str (DBID s) = s"
  by (auto simp: actual_data_str_def DBID_def DBID_Init_def DBID_LENGTH_def Let_def word_less_nat_alt unat_of_nat)

section \<open>The order is the order of 160-bit numbers\<close>

definition ring_size :: nat where
  "ring_size = 256 ^ 20"

definition dbid_num :: "dbid \<Rightarrow> nat" where
  "dbid_num d = be_nat (take (unat DBID_LENGTH) (dbid_value d))"

lemma bytes_less_be_nat:
  "length xs = length ys \<Longrightarrow> bytes_less xs ys \<longleftrightarrow> be_nat xs < be_nat ys"
proof (induction xs ys rule: list_induct2)
  case Nil
  then show ?case by simp
next
  case (Cons x xs y ys)
  have "be_nat xs < 256 ^ length xs" "be_nat ys < 256 ^ length xs"
    using be_nat_less [of xs] be_nat_less [of ys] Cons.hyps by simp_all
  then have "be_nat (x # xs) < be_nat (y # ys) \<longleftrightarrow> x < y \<or> x = y \<and> be_nat xs < be_nat ys"
    using Cons.hyps by (simp add: digit_order word_less_nat_alt word_unat_eq_iff)
  then show ?case using Cons.IH by (auto simp: order_simps)
qed

lemma dbid_num_less: "wf_dbid d \<Longrightarrow> dbid_num d < ring_size"
  using be_nat_less [of "dbid_value d"]
  by (simp add: dbid_num_def ring_size_def wf_dbid_def DBID_LENGTH_def)

lemma dbid_less_num [order_simps]:
  "wf_dbid a \<Longrightarrow> wf_dbid b \<Longrightarrow> dbid_less a b \<longleftrightarrow> dbid_num a < dbid_num b"
  by (simp add: dbid_less_def dbid_num_def wf_dbid_def bytes_less_be_nat DBID_LENGTH_def)

lemma dbid_eq_num [order_simps]:
  "wf_dbid a \<Longrightarrow> wf_dbid b \<Longrightarrow> dbid_eq a b \<longleftrightarrow> dbid_num a = dbid_num b"
  by (simp add: dbid_eq_def dbid_num_def wf_dbid_def be_nat_inject DBID_LENGTH_def)

section \<open>Intervals of the ring\<close>

text \<open>
  The reference meaning: \<open>t\<close> lies on the clockwise arc that starts just after \<open>s\<close> and ends
  at \<open>e\<close>; when both ends coincide the arc is the whole ring.
\<close>

definition ring_between :: "int \<Rightarrow> int \<Rightarrow> int \<Rightarrow> bool" where
  "ring_between s e t \<longleftrightarrow> s = e \<or> (t - s - 1) mod int ring_size < (e - s) mod int ring_size"

lemma ring_between_cases:
  assumes "0 \<le> s" "s < int ring_size" "0 \<le> e" "e < int ring_size" "0 \<le> t" "t < int ring_size"
  shows "ring_between s e t \<longleftrightarrow>
    s = e \<or> (if e < s then s < t \<or> t \<le> e else s < t \<and> t \<le> e)"
proof -
  let ?n = "int ring_size"
  have a: "(t - s - 1) mod ?n = (if s < t then t - s - 1 else t - s - 1 + ?n)"
    using assms by (auto simp: int_mod_below)
  have b: "(e - s) mod ?n = (if s \<le> e then e - s else e - s + ?n)"
    using assms by (auto simp: int_mod_below)
  show ?thesis
    unfolding ring_between_def a b using assms by auto
qed

lemma between_num:
  assumes "wf_dbid s" "wf_dbid e" "wf_dbid t"
  shows "between s e t \<longleftrightarrow> dbid_num s = dbid_num e \<or>
    (if dbid_num e < dbid_num s then dbid_num s < dbid_num t \<or> dbid_num t \<le> dbid_num e
     else dbid_num s < dbid_num t \<and> dbid_num t \<le> dbid_num e)"
  using assms by (auto simp: between_def order_simps)

section \<open>Properties\<close>

text \<open>
  The byte-wise comparison of identifiers is the order of the 160-bit numbers they
  denote (first byte most significant), although each byte is converted from a signed
  \<^verbatim>\<open>char\<close>; equality is equality of those numbers.
\<close>

theorem dbid_order_is_numeric:
  "(dbid_less (DBID s) (DBID t) \<longleftrightarrow> dbid_num (DBID s) < dbid_num (DBID t))
    \<and> (dbid_eq (DBID s) (DBID t) \<longleftrightarrow> dbid_num (DBID s) = dbid_num (DBID t))"
  by (simp_all add: order_simps)

text \<open>
  Property C28. \<^verbatim>\<open>between\<close> is membership in the clockwise ring interval: \<open>t\<close> is at a distance
  of at least one and at most \<open>e - s\<close> after \<open>s\<close> modulo \<open>2 ^ 160\<close>, and everything is between
  equal ends.
\<close>

theorem between_is_ring_interval:
  "between (DBID s) (DBID e) (DBID t) \<longleftrightarrow>
    dbid_num (DBID s) = dbid_num (DBID e) \<or>
    (int (dbid_num (DBID t)) - int (dbid_num (DBID s)) - 1) mod 2 ^ 160
      < (int (dbid_num (DBID e)) - int (dbid_num (DBID s))) mod 2 ^ 160"
proof -
  have n: "int ring_size = 2 ^ 160" by (simp add: ring_size_def)
  have b: "dbid_num (DBID x) < ring_size" for x by (simp add: dbid_num_less)
  have "between (DBID s) (DBID e) (DBID t) \<longleftrightarrow>
      ring_between (int (dbid_num (DBID s))) (int (dbid_num (DBID e))) (int (dbid_num (DBID t)))"
    using b by (subst ring_between_cases) (auto simp: between_num)
  then show ?thesis by (simp add: ring_between_def n)
qed

text \<open>
  Splitting a ring interval at an identifier inside it sends every key of the
  interval to exactly one of the two parts, and no other key to either.
\<close>

theorem between_split:
  assumes "wf_dbid s" and "wf_dbid e" and "wf_dbid m" and "wf_dbid t"
    and "between s e m" and "\<not> dbid_eq m e" and "\<not> dbid_eq s m"
  shows "(between s e t \<longleftrightarrow> between s m t \<or> between m e t) \<and> \<not> (between s m t \<and> between m e t)"
  using assms by (auto simp: between_num order_simps split: if_splits)

theorem between_split_witness:
  "between (DBID [1]) (DBID [9]) (DBID [7]) \<longleftrightarrow>
    between (DBID [1]) (DBID [5]) (DBID [7]) \<or> between (DBID [5]) (DBID [9]) (DBID [7])"
proof -
  have "between (DBID [1]) (DBID [9]) (DBID [5])" "\<not> dbid_eq (DBID [5]) (DBID [9])" "\<not> dbid_eq (DBID [1]) (DBID [5])"
    by code_simp+
  then show ?thesis using between_split [of "DBID [1]" "DBID [9]" "DBID [5]" "DBID [7]"] by simp
qed

end
