(* ===== verification/Posix_File.thy ===== *)
theory Posix_File
  imports Prelude
begin

text \<open>
  The operating-system file the stores write to, as the sources use it through
  \<^verbatim>\<open>pread64\<close>, \<^verbatim>\<open>pwrite64\<close> and \<^verbatim>\<open>writev\<close>: a byte array with a size limit. A write that
  would pass the limit is cut short there, and one that starts at or beyond it fails, so the
  error branches of the callers are reachable. Reads past the end are short.
\<close>

record os_file =
  fdata :: bytes
  fcap :: nat

definition write_at :: "bytes \<Rightarrow> nat \<Rightarrow> bytes \<Rightarrow> bytes" where
  "write_at d off w = take off (d @ replicate (off - length d) 0) @ w @ drop (off + length w) d"

definition pread :: "os_file \<Rightarrow> nat \<Rightarrow> nat \<Rightarrow> bytes" where
  "pread f n off = take n (drop off (fdata f))"

text \<open>The result is the number of bytes written, or \<open>-1\<close>.\<close>

definition pwrite :: "os_file \<Rightarrow> bytes \<Rightarrow> nat \<Rightarrow> int \<times> os_file" where
  "pwrite f bs off =
     (if bs = [] then (0, f)
      else if fcap f \<le> off then (- 1, f)
      else (let w = take (fcap f - off) bs
            in (int (length w), f\<lparr>fdata := write_at (fdata f) off w\<rparr>)))"

section \<open>Reading back what was written\<close>

lemma length_write_at [simp]: "length (write_at d off w) = max (length d) (off + length w)"
  by (auto simp: write_at_def)

lemma read_write_at_same: "take (length w) (drop off (write_at d off w)) = w"
  by (simp add: write_at_def)

lemma read_write_at_before:
  assumes "o' + n \<le> off" and "o' + n \<le> length d"
  shows "take n (drop o' (write_at d off w)) = take n (drop o' d)"
proof -
  have "take (o' + n) (write_at d off w) = take (o' + n) d"
    using assms by (simp add: write_at_def min_absorb1)
  then have "drop o' (take (o' + n) (write_at d off w)) = drop o' (take (o' + n) d)"
    by simp
  then show ?thesis by (simp add: drop_take)
qed

lemma read_write_at_sub:
  assumes "a + n \<le> length w"
  shows "take n (drop (off + a) (write_at d off w)) = take n (drop a w)"
proof -
  have "length (take off (d @ replicate (off - length d) 0)) = off"
    by simp
  then have "drop (off + a) (write_at d off w) = drop a w @ drop (off + length w) d"
    unfolding write_at_def using assms by (simp del: length_take take_append)
  then show ?thesis using assms by simp
qed

lemma pread_length: "length (pread f n off) = min n (length (fdata f) - off)"
  by (simp add: pread_def)

lemma pread_take: "m \<le> n \<Longrightarrow> pread f m off = take m (pread f n off)"
  by (simp add: pread_def min_absorb1)

lemma pread_sub: "pread f n off = r \<Longrightarrow> a + m \<le> length r \<Longrightarrow> pread f m (off + a) = take m (drop a r)"
proof -
  assume r: "pread f n off = r" and le: "a + m \<le> length r"
  then have "a + m \<le> n" by (auto simp: pread_def)
  then show ?thesis using r by (auto simp: pread_def drop_take add.commute min_def)
qed

lemma pwrite_full:
  assumes "pwrite f bs off = (int (length bs), f')"
  shows "pread f' (length bs) off = bs"
proof (cases "bs = []")
  case False
  with assms have "length (take (fcap f - off) bs) = length bs" "\<not> fcap f \<le> off"
    and f': "f' = f\<lparr>fdata := write_at (fdata f) off (take (fcap f - off) bs)\<rparr>"
    by (auto simp: pwrite_def Let_def split: if_splits)
  then have "take (fcap f - off) bs = bs" by simp
  with f' show ?thesis by (simp add: pread_def read_write_at_same)
qed (simp add: pread_def)

lemma pwrite_full_length:
  "pwrite f bs off = (int (length bs), f') \<Longrightarrow> bs \<noteq> [] \<Longrightarrow>
    length (fdata f') = max (length (fdata f)) (off + length bs)"
  by (auto simp: pwrite_def Let_def split: if_splits)

lemma pwrite_grows: "pwrite f bs off = (n, f') \<Longrightarrow> length (fdata f) \<le> length (fdata f')"
  by (auto simp: pwrite_def Let_def split: if_splits)

lemma pwrite_cap: "pwrite f bs off = (n, f') \<Longrightarrow> fcap f' = fcap f"
  by (auto simp: pwrite_def Let_def split: if_splits)

lemma pwrite_before:
  assumes "pwrite f bs off = (n, f')" and "o' + m \<le> off" and "o' + m \<le> length (fdata f)"
  shows "pread f' m o' = pread f m o'"
  using assms by (auto simp: pwrite_def pread_def Let_def read_write_at_before split: if_splits)

lemma pwrite_complete_iff:
  "fst (pwrite f bs off) = int (length bs) \<longleftrightarrow> bs = [] \<or> off + length bs \<le> fcap f"
  by (cases bs) (auto simp: pwrite_def Let_def)

end
