(* ===== verification/Flash.thy ===== *)
theory Flash
  imports Posix_File
begin

text \<open>
  The log on flash below a FAWN-DS store: \<^verbatim>\<open>src/fawnds/fawnds_flash.cc\<close> and the record
  header of \<^verbatim>\<open>src/fawnds/db_structures.h\<close>. A record is a packed 9-byte header, the key and
  the value; a delete log is a header and a key. The interface the store relies on is the
  locale \<open>log_store\<close>, interpreted at the end on the flash operations.
\<close>

section \<open>Record headers\<close>

record data_header =
  data_length :: u32
  key_length :: u32
  deleteLog :: bool

definition DATA_HEADER_SIZE :: nat where
  "DATA_HEADER_SIZE = 9"

text \<open>The bytes of the packed \<^verbatim>\<open>struct DataHeader\<close> in memory.\<close>

definition header_bytes :: "data_header \<Rightarrow> bytes" where
  "header_bytes h = le_bytes 4 (data_length h) @ le_bytes 4 (key_length h) @ [if deleteLog h then 1 else 0]"

definition header_of_bytes :: "bytes \<Rightarrow> data_header" where
  "header_of_bytes bs =
     \<lparr>data_length = le_word (take 4 bs), key_length = le_word (take 4 (drop 4 bs)), deleteLog = (bs ! 8 \<noteq> 0)\<rparr>"

lemma length_header_bytes [simp]: "length (header_bytes h) = DATA_HEADER_SIZE"
  by (simp add: header_bytes_def DATA_HEADER_SIZE_def)

lemma header_roundtrip [simp, codec_simps]: "header_of_bytes (header_bytes h) = h"
  by (cases h) (simp add: header_bytes_def header_of_bytes_def nth_append)

section \<open>The operations of FawnDS-Flash\<close>

definition Flash_Write :: "os_file \<Rightarrow> bytes \<Rightarrow> bytes \<Rightarrow> nat \<Rightarrow> bool \<times> os_file" where
  "Flash_Write f key data off =
     (let h = \<lparr>data_length = of_nat (length data), key_length = of_nat (length key), deleteLog = False\<rparr>;
          (n, f') = pwrite f (header_bytes h @ key @ data) off
      in if n \<noteq> int (DATA_HEADER_SIZE + length key + length data) then (False, f') else (True, f'))"

definition Flash_Delete :: "os_file \<Rightarrow> bytes \<Rightarrow> nat \<Rightarrow> bool \<times> os_file" where
  "Flash_Delete f key off =
     (let h = \<lparr>data_length = 0, key_length = of_nat (length key), deleteLog = True\<rparr>;
          (n, f1) = pwrite f (header_bytes h) off
      in if n \<noteq> int DATA_HEADER_SIZE then (False, f1)
         else (let (m, f2) = pwrite f1 key (off + DATA_HEADER_SIZE)
               in if m \<noteq> int (length key) then (False, f2) else (True, f2)))"

definition Flash_ReadIntoHeader :: "os_file \<Rightarrow> nat \<Rightarrow> (data_header \<times> bytes) option" where
  "Flash_ReadIntoHeader f off =
     (let hb = pread f DATA_HEADER_SIZE off
      in if length hb < DATA_HEADER_SIZE then None
         else (let h = header_of_bytes hb;
                   key_len = unat (key_length h);
                   kb = pread f key_len (off + DATA_HEADER_SIZE)
               in if length kb < key_len then None else Some (h, kb)))"

text \<open>
  \<^verbatim>\<open>Read\<close> compares \<open>length key\<close> bytes of the stored key with \<^verbatim>\<open>memcmp\<close>, without comparing
  the lengths: a stored key that is shorter is read past its end. The buffer \<open>data\<close> is an
  in-out parameter, and a record without data leaves it as it was. The data are read
  at the offset the \<^emph>\<open>requested\<close> key's length gives.
\<close>

definition Flash_Read :: "os_file \<Rightarrow> bytes \<Rightarrow> nat \<Rightarrow> bytes \<Rightarrow> (bool \<times> bytes) res" where
  "Flash_Read f key off data =
     (case Flash_ReadIntoHeader f off of
        None \<Rightarrow> Ret (False, data)
      | Some (h, inputkey) \<Rightarrow>
          if length inputkey < length key then Fault
          else if take (length key) inputkey \<noteq> key then Ret (False, data)
          else (let len = unat (data_length h)
                in if len = 0 then Ret (True, data)
                   else (let d = pread f len (off + length key + DATA_HEADER_SIZE)
                         in if length d \<noteq> len then Ret (False, data) else Ret (True, d))))"

section \<open>Logs of records\<close>

datatype log_record = Data (rkey: bytes) (rdata: bytes) | DeleteLog (rkey: bytes)

fun record_bytes :: "log_record \<Rightarrow> bytes" where
  "record_bytes (Data k v) =
     header_bytes \<lparr>data_length = of_nat (length v), key_length = of_nat (length k), deleteLog = False\<rparr> @ k @ v"
| "record_bytes (DeleteLog k) =
     header_bytes \<lparr>data_length = 0, key_length = of_nat (length k), deleteLog = True\<rparr> @ k"

fun record_size :: "log_record \<Rightarrow> nat" where
  "record_size (Data k v) = DATA_HEADER_SIZE + length k + length v"
| "record_size (DeleteLog k) = DATA_HEADER_SIZE + length k"

text \<open>The lengths fit the header's 32-bit fields.\<close>

fun record_ok :: "log_record \<Rightarrow> bool" where
  "record_ok (Data k v) \<longleftrightarrow> length k < 2 ^ 32 \<and> length v < 2 ^ 32"
| "record_ok (DeleteLog k) \<longleftrightarrow> length k < 2 ^ 32"

fun flash_append :: "os_file \<Rightarrow> log_record \<Rightarrow> nat \<Rightarrow> bool \<times> os_file" where
  "flash_append f (Data k v) off = Flash_Write f k v off"
| "flash_append f (DeleteLog k) off = Flash_Delete f k off"

definition stored :: "os_file \<Rightarrow> nat \<Rightarrow> log_record \<Rightarrow> bool" where
  "stored f off r \<longleftrightarrow> record_ok r \<and> pread f (record_size r) off = record_bytes r"

lemma length_record_bytes [simp]: "length (record_bytes r) = record_size r"
  by (cases r) simp_all

lemma record_size_pos [simp]: "0 < record_size r"
  by (cases r) (simp_all add: DATA_HEADER_SIZE_def)

subsection \<open>The interface of a log store\<close>

text \<open>
  What a client of the flash layer may rely on: a record that was appended can be read at its
  offset, an append never disturbs the records before its offset (whether it succeeds or
  not), and a stored record lies inside the file.
\<close>

locale log_store =
  fixes append_rec :: "'f \<Rightarrow> 'r \<Rightarrow> nat \<Rightarrow> bool \<times> 'f"
    and is_stored :: "'f \<Rightarrow> nat \<Rightarrow> 'r \<Rightarrow> bool"
    and rsize :: "'r \<Rightarrow> nat"
    and encodable :: "'r \<Rightarrow> bool"
    and flen :: "'f \<Rightarrow> nat"
  assumes append_stored: "append_rec f r off = (True, f') \<Longrightarrow> encodable r \<Longrightarrow> is_stored f' off r"
    and append_frame: "append_rec f r off = (b, f') \<Longrightarrow> is_stored f o' r' \<Longrightarrow> o' + rsize r' \<le> off \<Longrightarrow>
      is_stored f' o' r'"
    and append_flen: "append_rec f r off = (b, f') \<Longrightarrow> flen f \<le> flen f'"
    and stored_covers: "is_stored f off r \<Longrightarrow> off + rsize r \<le> flen f"
begin

text \<open>The records of a log with their offsets, from a start offset on.\<close>

fun rec_offsets :: "nat \<Rightarrow> 'r list \<Rightarrow> (nat \<times> 'r) list" where
  "rec_offsets off [] = []"
| "rec_offsets off (r # rs) = (off, r) # rec_offsets (off + rsize r) rs"

definition log_end :: "nat \<Rightarrow> 'r list \<Rightarrow> nat" where
  "log_end off rs = off + sum_list (map rsize rs)"

definition log_at :: "'f \<Rightarrow> nat \<Rightarrow> 'r list \<Rightarrow> bool" where
  "log_at f off rs \<longleftrightarrow> log_end off rs \<le> flen f \<and> (\<forall>(o', r) \<in> set (rec_offsets off rs). is_stored f o' r)"

lemma log_end_Nil [simp]: "log_end off [] = off"
  by (simp add: log_end_def)

lemma log_end_Cons [simp]: "log_end off (r # rs) = log_end (off + rsize r) rs"
  by (simp add: log_end_def)

lemma log_end_append: "log_end off (rs @ [r]) = log_end off rs + rsize r"
  by (simp add: log_end_def)

lemma rec_offsets_append [simp]: "rec_offsets off (rs @ [r]) = rec_offsets off rs @ [(log_end off rs, r)]"
  by (induction rs arbitrary: off) (auto simp: log_end_def add.assoc)

lemma rec_offsets_bounds:
  "(o', r) \<in> set (rec_offsets off rs) \<Longrightarrow> off \<le> o' \<and> o' + rsize r \<le> log_end off rs"
  by (induction rs arbitrary: off) (fastforce simp: log_end_def)+

lemma rec_offsets_distinct:
  assumes "\<And>r. 0 < rsize r"
  shows "(o', r) \<in> set (rec_offsets off rs) \<Longrightarrow> (o', r') \<in> set (rec_offsets off rs) \<Longrightarrow> r = r'"
proof (induction rs arbitrary: off)
  case Nil
  then show ?case by simp
next
  case (Cons a rs)
  have "off < o''" if "(o'', x) \<in> set (rec_offsets (off + rsize a) rs)" for o'' x
    using rec_offsets_bounds [OF that] assms [of a] by linarith
  then show ?case using Cons by fastforce
qed

lemma log_append_ok:
  assumes "log_at f off rs" and "append_rec f r (log_end off rs) = (True, f')" and "encodable r"
  shows "log_at f' off (rs @ [r])"
  using assms rec_offsets_bounds [of _ _ off rs]
  by (auto simp: log_at_def log_end_append append_stored intro: append_frame stored_covers)

lemma log_append_any:
  assumes "log_at f off rs" and "append_rec f r (log_end off rs) = (b, f')"
  shows "log_at f' off rs"
  using assms rec_offsets_bounds [of _ _ off rs] append_flen [OF assms(2)]
  by (fastforce simp: log_at_def intro: append_frame)

lemma log_at_stored: "log_at f off rs \<Longrightarrow> (o', r) \<in> set (rec_offsets off rs) \<Longrightarrow> is_stored f o' r"
  by (auto simp: log_at_def)

end

subsection \<open>The flash log provides the interface\<close>

lemma stored_within: "stored f off r \<Longrightarrow> off + record_size r \<le> length (fdata f)"
proof -
  assume s: "stored f off r"
  then have "length (pread f (record_size r) off) = record_size r"
    by (simp add: stored_def)
  then show ?thesis using record_size_pos [of r] unfolding pread_length by linarith
qed

lemma stored_frame:
  "stored f o' r \<Longrightarrow> pwrite f bs off = (n, f') \<Longrightarrow> o' + record_size r \<le> off \<Longrightarrow> stored f' o' r"
  using stored_within [of f o' r] by (auto simp: stored_def pwrite_before)

lemma Flash_Write_True:
  "Flash_Write f k v off = (True, f') \<Longrightarrow>
    pwrite f (record_bytes (Data k v)) off = (int (length (record_bytes (Data k v))), f')"
  by (auto simp: Flash_Write_def Let_def split: prod.splits if_splits)

lemma Flash_Write_pwrite:
  "Flash_Write f k v off = (b, f') \<Longrightarrow> \<exists>n. pwrite f (record_bytes (Data k v)) off = (n, f')"
  by (auto simp: Flash_Write_def Let_def split: prod.splits if_splits)

lemma Flash_Delete_pwrites:
  assumes "Flash_Delete f k off = (b, f')"
  obtains f1 n m where
    "pwrite f (header_bytes \<lparr>data_length = 0, key_length = of_nat (length k), deleteLog = True\<rparr>) off = (n, f1)"
    and "f' = f1 \<and> \<not> b \<or> n = int DATA_HEADER_SIZE \<and> pwrite f1 k (off + DATA_HEADER_SIZE) = (m, f') \<and> (b \<longleftrightarrow> m = int (length k))"
  using assms by (auto simp: Flash_Delete_def Let_def split: prod.splits if_splits)

lemma pread_append:
  "pread f (length a) off = a \<Longrightarrow> pread f (length b) (off + length a) = b \<Longrightarrow>
    pread f (length a + length b) off = a @ b"
  by (simp add: pread_def take_add add.commute)

lemma Flash_Delete_stored:
  assumes "Flash_Delete f k off = (True, f')" and "length k < 2 ^ 32"
  shows "stored f' off (DeleteLog k)"
proof -
  let ?h = "header_bytes \<lparr>data_length = 0, key_length = of_nat (length k), deleteLog = True\<rparr>"
  obtain f1 where w1: "pwrite f ?h off = (int (length ?h), f1)"
    and w2: "pwrite f1 k (off + DATA_HEADER_SIZE) = (int (length k), f')"
    using Flash_Delete_pwrites [OF assms(1)] by (metis length_header_bytes)
  have "?h \<noteq> []"
    by (metis DATA_HEADER_SIZE_def length_header_bytes list.size(3) zero_neq_numeral)
  then have "off + DATA_HEADER_SIZE \<le> length (fdata f1)"
    using pwrite_full_length [OF w1] by simp
  then have "pread f' (length ?h) off = ?h"
    using pwrite_full [OF w1] pwrite_before [OF w2, of off DATA_HEADER_SIZE] by simp
  then have "pread f' (length ?h + length k) off = ?h @ k"
    using pwrite_full [OF w2] by (intro pread_append) simp_all
  then show ?thesis using assms(2) by (simp add: stored_def)
qed

interpretation flash: log_store flash_append stored record_size record_ok "\<lambda>f. length (fdata f)"
proof (unfold_locales, goal_cases)
  case (1 f r off f')
  show ?case
  proof (cases r)
    case (Data k v)
    with 1 have w: "pwrite f (record_bytes r) off = (int (length (record_bytes r)), f')"
      using Flash_Write_True by simp
    show ?thesis using pwrite_full [OF w] 1 by (simp add: stored_def)
  qed (use 1 Flash_Delete_stored in auto)
next
  case (2 f r off b f' o' r')
  then show ?case
    by (cases r) (auto dest!: Flash_Write_pwrite elim!: Flash_Delete_pwrites intro: stored_frame)
next
  case (3 f r off b f')
  then show ?case
    by (cases r) (auto dest!: Flash_Write_pwrite elim!: Flash_Delete_pwrites dest: pwrite_grows
        intro: order_trans)
next
  case (4 f off r)
  then show ?case by (rule stored_within)
qed

section \<open>Reading stored records\<close>

fun record_header :: "log_record \<Rightarrow> data_header" where
  "record_header (Data k v) =
     \<lparr>data_length = of_nat (length v), key_length = of_nat (length k), deleteLog = False\<rparr>"
| "record_header (DeleteLog k) = \<lparr>data_length = 0, key_length = of_nat (length k), deleteLog = True\<rparr>"

lemma record_bytes_header: "\<exists>rest. record_bytes r = header_bytes (record_header r) @ rkey r @ rest"
  by (cases r) auto

lemma key_length_record_header: "record_ok r \<Longrightarrow> unat (key_length (record_header r)) = length (rkey r)"
  by (cases r) (simp_all add: unat_of_nat)

lemma header_advance:
  "record_ok r \<Longrightarrow>
    DATA_HEADER_SIZE + unat (key_length (record_header r)) + unat (data_length (record_header r)) = record_size r"
  by (cases r) (simp_all add: unat_of_nat)

lemma ReadIntoHeader_stored:
  assumes "stored f off r"
  shows "Flash_ReadIntoHeader f off = Some (record_header r, rkey r)"
proof -
  obtain rest where rest: "record_bytes r = header_bytes (record_header r) @ rkey r @ rest"
    using record_bytes_header by blast
  have full: "pread f (record_size r) off = header_bytes (record_header r) @ rkey r @ rest"
    using assms rest by (simp add: stored_def)
  have len: "DATA_HEADER_SIZE + length (rkey r) \<le> length (record_bytes r)"
    by (simp add: rest)
  have hb: "pread f DATA_HEADER_SIZE off = header_bytes (record_header r)"
    using pread_sub [OF full, of 0 DATA_HEADER_SIZE] by simp
  have kb: "pread f (length (rkey r)) (off + DATA_HEADER_SIZE) = rkey r"
    using pread_sub [OF full, of DATA_HEADER_SIZE "length (rkey r)"] by simp
  show ?thesis
    using assms by (simp add: Flash_ReadIntoHeader_def hb kb key_length_record_header stored_def)
qed

lemma Read_stored:
  assumes "stored f off (Data k v)" and "length k' = length k"
  shows "Flash_Read f k' off data = Ret (if k' = k then (True, if v = [] then data else v) else (False, data))"
proof -
  have full: "pread f (record_size (Data k v)) off = record_bytes (Data k v)"
    and ok: "length v < 2 ^ 32"
    using assms by (simp_all add: stored_def)
  have "pread f (length v) (off + (DATA_HEADER_SIZE + length k)) = v"
    using pread_sub [OF full, of "DATA_HEADER_SIZE + length k" "length v"] by simp
  then have rd: "pread f (length v) (off + length k + DATA_HEADER_SIZE) = v"
    by (simp add: ac_simps)
  have len: "unat (of_nat (length v) :: u32) = length v"
    using ok by (simp add: unat_of_nat)
  show ?thesis
    by (cases "k' = k")
      (simp_all add: Flash_Read_def Let_def rd len assms(2) ReadIntoHeader_stored [OF assms(1)] split: if_splits)
qed

end
