(* ===== verification/HashUtil.thy ===== *)
theory HashUtil
  imports Prelude
begin

text \<open>
  The hash functions of \<^verbatim>\<open>utils/hashutil.cc\<close> (repeated under another name space in
  \<^verbatim>\<open>utils/hashutilSilt.cc\<close>) and the hash family of \<^verbatim>\<open>fawnds/hash_functions.cc\<close>. A buffer is the
  memory from its first byte on, so that the word-sized reads behind the end of a key that the
  code makes on purpose are reads of the model too. The main results: the three alignment branches of
  \<^verbatim>\<open>BobHash\<close> compute one function of the key bytes alone, the shift form of FNV is the
  multiplication by its prime, and the mixing steps and integer hashes are injective.
\<close>

section \<open>Memory reads\<close>

text \<open>Byte \<open>i\<close> of \<open>mem\<close> is the byte at address \<open>buf + i\<close>.\<close>

type_synonym memory = "nat \<Rightarrow> byte"

definition u8_at :: "memory \<Rightarrow> nat \<Rightarrow> u32" where
  "u8_at mem p = ucast (mem p)"

definition s8_at :: "memory \<Rightarrow> nat \<Rightarrow> u32" where
  "s8_at mem p = scast (mem p)"

definition u16_at :: "memory \<Rightarrow> nat \<Rightarrow> u32" where
  "u16_at mem p = ucast (le_word [mem p, mem (p + 1)] :: u16)"

definition u32_at :: "memory \<Rightarrow> nat \<Rightarrow> u32" where
  "u32_at mem p = le_word [mem p, mem (p + 1), mem (p + 2), mem (p + 3)]"

text \<open>The memory of a buffer that holds \<open>s\<close> and is followed by the bytes of \<open>rest\<close>.\<close>

definition mem_of :: "bytes \<Rightarrow> memory \<Rightarrow> memory" where
  "mem_of s rest p = (if p < length s then s ! p else rest (p - length s))"

section \<open>Bob Jenkins' hash\<close>

type_synonym bob_state = "u32 \<times> u32 \<times> u32"

definition rot :: "u32 \<Rightarrow> nat \<Rightarrow> u32" where
  "rot x k = push_bit k x OR drop_bit (32 - k) x"

definition mix :: "bob_state \<Rightarrow> bob_state" where
  "mix st = (case st of (a, b, c) \<Rightarrow>
     let a = a - c; a = a XOR rot c 4; c = c + b;
         b = b - a; b = b XOR rot a 6; a = a + c;
         c = c - b; c = c XOR rot b 8; b = b + a;
         a = a - c; a = a XOR rot c 16; c = c + b;
         b = b - a; b = b XOR rot a 19; a = a + c;
         c = c - b; c = c XOR rot b 4; b = b + a
     in (a, b, c))"

definition final_mix :: "bob_state \<Rightarrow> bob_state" where
  "final_mix st = (case st of (a, b, c) \<Rightarrow>
     let c = c XOR b; c = c - rot b 14;
         a = a XOR c; a = a - rot c 11;
         b = b XOR a; b = b - rot a 25;
         c = c XOR b; c = c - rot b 16;
         a = a XOR c; a = a - rot c 4;
         b = b XOR a; b = b - rot a 14;
         c = c XOR b; c = c - rot b 24
     in (a, b, c))"

text \<open>The loop over all blocks but the last, for a pointer aligned to four bytes, to two, or to none.
  The result is the state, the pointer and the remaining length.\<close>

fun bob_loop32 :: "memory \<Rightarrow> nat \<Rightarrow> nat \<Rightarrow> bob_state \<Rightarrow> bob_state \<times> nat \<times> nat" where
  "bob_loop32 mem k len (a, b, c) =
    (if len > 12 then
       let a = a + u32_at mem k; b = b + u32_at mem (k + 4); c = c + u32_at mem (k + 8)
       in bob_loop32 mem (k + 12) (len - 12) (mix (a, b, c))
     else ((a, b, c), k, len))"

fun bob_loop16 :: "memory \<Rightarrow> nat \<Rightarrow> nat \<Rightarrow> bob_state \<Rightarrow> bob_state \<times> nat \<times> nat" where
  "bob_loop16 mem k len (a, b, c) =
    (if len > 12 then
       let a = a + (u16_at mem k + push_bit 16 (u16_at mem (k + 2)));
           b = b + (u16_at mem (k + 4) + push_bit 16 (u16_at mem (k + 6)));
           c = c + (u16_at mem (k + 8) + push_bit 16 (u16_at mem (k + 10)))
       in bob_loop16 mem (k + 12) (len - 12) (mix (a, b, c))
     else ((a, b, c), k, len))"

fun bob_loop8 :: "memory \<Rightarrow> nat \<Rightarrow> nat \<Rightarrow> bob_state \<Rightarrow> bob_state \<times> nat \<times> nat" where
  "bob_loop8 mem k len (a, b, c) =
    (if len > 12 then
       let a = a + u8_at mem k;
           a = a + push_bit 8 (u8_at mem (k + 1));
           a = a + push_bit 16 (u8_at mem (k + 2));
           a = a + push_bit 24 (u8_at mem (k + 3));
           b = b + u8_at mem (k + 4);
           b = b + push_bit 8 (u8_at mem (k + 5));
           b = b + push_bit 16 (u8_at mem (k + 6));
           b = b + push_bit 24 (u8_at mem (k + 7));
           c = c + u8_at mem (k + 8);
           c = c + push_bit 8 (u8_at mem (k + 9));
           c = c + push_bit 16 (u8_at mem (k + 10));
           c = c + push_bit 24 (u8_at mem (k + 11))
       in bob_loop8 mem (k + 12) (len - 12) (mix (a, b, c))
     else ((a, b, c), k, len))"

text \<open>
  The \<^verbatim>\<open>switch\<close> on the length of the last block. The result \<open>None\<close> is the early return of
  \<^verbatim>\<open>case 0\<close>.
\<close>

definition bob_tail32 :: "memory \<Rightarrow> nat \<Rightarrow> nat \<Rightarrow> bob_state \<Rightarrow> bob_state option" where
  "bob_tail32 mem k len st = (case st of (a, b, c) \<Rightarrow>
     let k0 = u32_at mem k; k1 = u32_at mem (k + 4); k2 = u32_at mem (k + 8)
     in if len = 12 then Some (a + k0, b + k1, c + k2)
        else if len = 11 then Some (a + k0, b + k1, c + (k2 AND 0xffffff))
        else if len = 10 then Some (a + k0, b + k1, c + (k2 AND 0xffff))
        else if len = 9 then Some (a + k0, b + k1, c + (k2 AND 0xff))
        else if len = 8 then Some (a + k0, b + k1, c)
        else if len = 7 then Some (a + k0, b + (k1 AND 0xffffff), c)
        else if len = 6 then Some (a + k0, b + (k1 AND 0xffff), c)
        else if len = 5 then Some (a + k0, b + (k1 AND 0xff), c)
        else if len = 4 then Some (a + k0, b, c)
        else if len = 3 then Some (a + (k0 AND 0xffffff), b, c)
        else if len = 2 then Some (a + (k0 AND 0xffff), b, c)
        else if len = 1 then Some (a + (k0 AND 0xff), b, c)
        else None)"

text \<open>The variant of that \<^verbatim>\<open>switch\<close> compiled under \<^verbatim>\<open>VALGRIND\<close>, with its fall-through cases.\<close>

definition bob_tail32_valgrind :: "memory \<Rightarrow> nat \<Rightarrow> nat \<Rightarrow> bob_state \<Rightarrow> bob_state option" where
  "bob_tail32_valgrind mem k len st = (case st of (a, b, c) \<Rightarrow>
     if len = 12 then Some (a + u32_at mem k, b + u32_at mem (k + 4), c + u32_at mem (k + 8))
     else if 8 \<le> len then
       let c = (if len \<ge> 11 then c + push_bit 16 (u8_at mem (k + 10)) else c);
           c = (if len \<ge> 10 then c + push_bit 8 (u8_at mem (k + 9)) else c);
           c = (if len \<ge> 9 then c + u8_at mem (k + 8) else c)
       in Some (a + u32_at mem k, b + u32_at mem (k + 4), c)
     else if 4 \<le> len then
       let b = (if len \<ge> 7 then b + push_bit 16 (u8_at mem (k + 6)) else b);
           b = (if len \<ge> 6 then b + push_bit 8 (u8_at mem (k + 5)) else b);
           b = (if len \<ge> 5 then b + u8_at mem (k + 4) else b)
       in Some (a + u32_at mem k, b, c)
     else if 1 \<le> len then
       let a = (if len \<ge> 3 then a + push_bit 16 (u8_at mem (k + 2)) else a);
           a = (if len \<ge> 2 then a + push_bit 8 (u8_at mem (k + 1)) else a);
           a = a + u8_at mem k
       in Some (a, b, c)
     else None)"

definition bob_tail16 :: "memory \<Rightarrow> nat \<Rightarrow> nat \<Rightarrow> bob_state \<Rightarrow> bob_state option" where
  "bob_tail16 mem k len st = (case st of (a, b, c) \<Rightarrow>
     let k01 = u16_at mem k + push_bit 16 (u16_at mem (k + 2));
         k23 = u16_at mem (k + 4) + push_bit 16 (u16_at mem (k + 6))
     in if len = 12 then
          Some (a + k01, b + k23, c + (u16_at mem (k + 8) + push_bit 16 (u16_at mem (k + 10))))
        else if len = 11 \<or> len = 10 then
          let c = (if len = 11 then c + push_bit 16 (u8_at mem (k + 10)) else c)
          in Some (a + k01, b + k23, c + u16_at mem (k + 8))
        else if len = 9 \<or> len = 8 then
          let c = (if len = 9 then c + u8_at mem (k + 8) else c)
          in Some (a + k01, b + k23, c)
        else if len = 7 \<or> len = 6 then
          let b = (if len = 7 then b + push_bit 16 (u8_at mem (k + 6)) else b)
          in Some (a + k01, b + u16_at mem (k + 4), c)
        else if len = 5 \<or> len = 4 then
          let b = (if len = 5 then b + u8_at mem (k + 4) else b)
          in Some (a + k01, b, c)
        else if len = 3 \<or> len = 2 then
          let a = (if len = 3 then a + push_bit 16 (u8_at mem (k + 2)) else a)
          in Some (a + u16_at mem k, b, c)
        else if len = 1 then Some (a + u8_at mem k, b, c)
        else None)"

definition bob_tail8 :: "memory \<Rightarrow> nat \<Rightarrow> nat \<Rightarrow> bob_state \<Rightarrow> bob_state option" where
  "bob_tail8 mem k len st = (case st of (a, b, c) \<Rightarrow>
     if len = 0 then None
     else
       let c = (if len \<ge> 12 then c + push_bit 24 (u8_at mem (k + 11)) else c);
           c = (if len \<ge> 11 then c + push_bit 16 (u8_at mem (k + 10)) else c);
           c = (if len \<ge> 10 then c + push_bit 8 (u8_at mem (k + 9)) else c);
           c = (if len \<ge> 9 then c + u8_at mem (k + 8) else c);
           b = (if len \<ge> 8 then b + push_bit 24 (u8_at mem (k + 7)) else b);
           b = (if len \<ge> 7 then b + push_bit 16 (u8_at mem (k + 6)) else b);
           b = (if len \<ge> 6 then b + push_bit 8 (u8_at mem (k + 5)) else b);
           b = (if len \<ge> 5 then b + u8_at mem (k + 4) else b);
           a = (if len \<ge> 4 then a + push_bit 24 (u8_at mem (k + 3)) else a);
           a = (if len \<ge> 3 then a + push_bit 16 (u8_at mem (k + 2)) else a);
           a = (if len \<ge> 2 then a + push_bit 8 (u8_at mem (k + 1)) else a);
           a = a + u8_at mem k
       in Some (a, b, c))"

text \<open>
  The choice by the address of the buffer, shared by the two \<^verbatim>\<open>BobHash\<close> functions of the source;
  they differ in the initial state and in what they return.
\<close>

definition bob_run :: "bool \<Rightarrow> u64 \<Rightarrow> memory \<Rightarrow> nat \<Rightarrow> bob_state \<Rightarrow> bob_state" where
  "bob_run valgrind buf mem len st =
    (let (st, tail) =
       (if buf AND 3 = 0 then
          let (st, k, n) = bob_loop32 mem 0 len st
          in (st, (if valgrind then bob_tail32_valgrind else bob_tail32) mem k n st)
        else if buf AND 1 = 0 then
          let (st, k, n) = bob_loop16 mem 0 len st in (st, bob_tail16 mem k n st)
        else
          let (st, k, n) = bob_loop8 mem 0 len st in (st, bob_tail8 mem k n st))
     in case tail of None \<Rightarrow> st | Some st' \<Rightarrow> final_mix st')"

definition BobHash :: "bool \<Rightarrow> u64 \<Rightarrow> memory \<Rightarrow> nat \<Rightarrow> u32 \<Rightarrow> u32" where
  "BobHash valgrind buf mem len seed =
    (let i = 0xdeadbeef + of_nat len + seed; (a, b, c) = bob_run valgrind buf mem len (i, i, i)
     in c)"

definition BobHash_idx :: "bool \<Rightarrow> u64 \<Rightarrow> memory \<Rightarrow> nat \<Rightarrow> u32 \<Rightarrow> u32 \<Rightarrow> u32 \<times> u32" where
  "BobHash_idx valgrind buf mem len idx1 idx2 =
    (let i = 0xdeadbeef + of_nat len + idx1;
         (a, b, c) = bob_run valgrind buf mem len (i, i, i + idx2)
     in (c, b))"

section \<open>Integer hashes\<close>

definition hashint_full_avalanche_1 :: "u32 \<Rightarrow> u32" where
  "hashint_full_avalanche_1 a =
    (let a = (a + 0x7ed55d16) + push_bit 12 a;
         a = (a XOR 0xc761c23c) XOR drop_bit 19 a;
         a = (a + 0x165667b1) + push_bit 5 a;
         a = (a + 0xd3a2646c) XOR push_bit 9 a;
         a = (a + 0xfd7046c5) + push_bit 3 a;
         a = (a XOR 0xb55a4f09) XOR drop_bit 16 a
     in a)"

definition hashint_full_avalanche_2 :: "u32 \<Rightarrow> u32" where
  "hashint_full_avalanche_2 a =
    (let a = a - push_bit 6 a;
         a = a XOR drop_bit 17 a;
         a = a - push_bit 9 a;
         a = a XOR push_bit 4 a;
         a = a - push_bit 3 a;
         a = a XOR push_bit 10 a;
         a = a XOR drop_bit 15 a
     in a)"

definition hashint_half_avalanche :: "u32 \<Rightarrow> u32" where
  "hashint_half_avalanche a =
    (let a = (a + 0x479ab41d) + push_bit 8 a;
         a = (a XOR 0xe4aa10ce) XOR drop_bit 5 a;
         a = (a + 0x9942f0a6) - push_bit 14 a;
         a = (a XOR 0x5aedd67d) XOR drop_bit 3 a;
         a = (a + 0x17bea992) + push_bit 7 a
     in a)"

section \<open>FNV, Murmur, SuperFastHash, NullHash\<close>

definition FNV1_32_INIT :: u32 where
  "FNV1_32_INIT = 0x811c9dc5"

definition FNV_32_PRIME :: u32 where
  "FNV_32_PRIME = 0x01000193"

text \<open>The two compile-time forms of the multiplication: \<open>plain\<close> is \<^verbatim>\<open>NO_FNV_GCC_OPTIMIZATION\<close>.\<close>

fun FNVHash_loop :: "bool \<Rightarrow> memory \<Rightarrow> nat \<Rightarrow> nat \<Rightarrow> u32 \<Rightarrow> u32" where
  "FNVHash_loop plain mem bp 0 hval = hval"
| "FNVHash_loop plain mem bp (Suc n) hval =
    (let hval = (if plain then hval * FNV_32_PRIME
                 else hval + (push_bit 1 hval + push_bit 4 hval + push_bit 7 hval + push_bit 8 hval + push_bit 24 hval));
         hval = hval XOR u8_at mem bp
     in FNVHash_loop plain mem (bp + 1) n hval)"

definition FNVHash :: "bool \<Rightarrow> memory \<Rightarrow> nat \<Rightarrow> u32" where
  "FNVHash plain mem len = FNVHash_loop plain mem 0 len FNV1_32_INIT"

definition murmur_m :: u32 where
  "murmur_m = 0x5bd1e995"

definition murmur_k :: "u32 \<Rightarrow> u32" where
  "murmur_k k = (let k = k * murmur_m; k = k XOR drop_bit 24 k in k * murmur_m)"

fun MurmurHash_loop :: "memory \<Rightarrow> nat \<Rightarrow> nat \<Rightarrow> u32 \<Rightarrow> u32 \<times> nat \<times> nat" where
  "MurmurHash_loop mem data len h =
    (if len \<ge> 4 then MurmurHash_loop mem (data + 4) (len - 4) ((h * murmur_m) XOR murmur_k (u32_at mem data))
     else (h, data, len))"

definition murmur_final :: "u32 \<Rightarrow> u32" where
  "murmur_final h = (let h = h XOR drop_bit 13 h; h = h * murmur_m in h XOR drop_bit 15 h)"

definition murmur_tail :: "memory \<Rightarrow> nat \<Rightarrow> nat \<Rightarrow> u32 \<Rightarrow> u32" where
  "murmur_tail mem data len h =
    (if len = 3 then (h XOR push_bit 16 (u8_at mem (data + 2)) XOR push_bit 8 (u8_at mem (data + 1)) XOR u8_at mem data) * murmur_m
     else if len = 2 then (h XOR push_bit 8 (u8_at mem (data + 1)) XOR u8_at mem data) * murmur_m
     else if len = 1 then (h XOR u8_at mem data) * murmur_m
     else h)"

definition MurmurHash :: "memory \<Rightarrow> nat \<Rightarrow> u32 \<Rightarrow> u32" where
  "MurmurHash mem len seed =
    (let (h, data, n) = MurmurHash_loop mem 0 len (seed XOR of_nat len)
     in murmur_final (murmur_tail mem data n h))"

fun SuperFastHash_loop :: "memory \<Rightarrow> nat \<Rightarrow> nat \<Rightarrow> u32 \<Rightarrow> u32 \<times> nat" where
  "SuperFastHash_loop mem data 0 hash = (hash, data)"
| "SuperFastHash_loop mem data (Suc n) hash =
    (let hash = hash + u16_at mem data;
         tmp = push_bit 11 (u16_at mem (data + 2)) XOR hash;
         hash = push_bit 16 hash XOR tmp;
         hash = hash + drop_bit 11 hash
     in SuperFastHash_loop mem (data + 4) n hash)"

text \<open>\<^verbatim>\<open>data\<close> is a signed \<^verbatim>\<open>char\<close> pointer here, so single bytes are sign-extended. \<open>null\<close> says that
  the pointer is null.\<close>

definition SuperFastHash_tail :: "memory \<Rightarrow> nat \<Rightarrow> nat \<Rightarrow> u32 \<Rightarrow> u32" where
  "SuperFastHash_tail mem data rem hash =
    (if rem = 3 then
       let hash = hash + u16_at mem data;
           hash = hash XOR push_bit 16 hash;
           hash = hash XOR push_bit 18 (s8_at mem (data + 2))
       in hash + drop_bit 11 hash
     else if rem = 2 then
       let hash = hash + u16_at mem data;
           hash = hash XOR push_bit 11 hash
       in hash + drop_bit 17 hash
     else if rem = 1 then
       let hash = hash + s8_at mem data;
           hash = hash XOR push_bit 10 hash
       in hash + drop_bit 1 hash
     else hash)"

definition SuperFastHash_final :: "u32 \<Rightarrow> u32" where
  "SuperFastHash_final hash =
    (let hash = hash XOR push_bit 3 hash;
         hash = hash + drop_bit 5 hash;
         hash = hash XOR push_bit 4 hash;
         hash = hash + drop_bit 17 hash;
         hash = hash XOR push_bit 25 hash;
         hash = hash + drop_bit 6 hash
     in hash)"

definition SuperFastHash :: "bool \<Rightarrow> memory \<Rightarrow> nat \<Rightarrow> u32" where
  "SuperFastHash null mem len =
    (if len = 0 \<or> null then 0
     else let (hash, data) = SuperFastHash_loop mem 0 (len div 4) (of_nat len)
          in SuperFastHash_final (SuperFastHash_tail mem data (len mod 4) hash))"

text \<open>
  \<^verbatim>\<open>length\<close> and \<^verbatim>\<open>shiftbytes\<close> are unsigned, so the guard computes \<open>length - shiftbytes\<close> modulo
  \<open>2 ^ 64\<close>; the index arithmetic may leave the buffer, which is \<open>Fault\<close>.
\<close>

definition char_at :: "bytes \<Rightarrow> u64 \<Rightarrow> u32 res" where
  "char_at buf i = (if unat i < length buf then Ret (scast (buf ! unat i)) else Fault)"

definition NullHash :: "bytes \<Rightarrow> u64 \<Rightarrow> u32 \<Rightarrow> u32 res" where
  "NullHash buf len shiftbytes =
    (let s = ucast shiftbytes
     in if len - s < 4 then Ret 0
        else bind_res (char_at buf (len - s - 4)) (\<lambda>d4.
             bind_res (char_at buf (len - s - 3)) (\<lambda>d3.
             bind_res (char_at buf (len - s - 2)) (\<lambda>d2.
             bind_res (char_at buf (len - s - 1)) (\<lambda>d1.
               Ret (push_bit 24 d4 + push_bit 16 d3 + push_bit 8 d2 + d1))))))"

section \<open>The hash family of the stores\<close>

definition h1 :: "u64 \<Rightarrow> memory \<Rightarrow> nat \<Rightarrow> u32" where
  "h1 buf mem len = BobHash False buf mem len 0xdeadbeef"

definition h2 :: "u64 \<Rightarrow> memory \<Rightarrow> nat \<Rightarrow> u32" where
  "h2 buf mem len = BobHash False buf mem len 0xc0ffee"

definition h3 :: "u64 \<Rightarrow> memory \<Rightarrow> nat \<Rightarrow> u32" where
  "h3 buf mem len = BobHash False buf mem len 0x101CA75"

definition nullhash1 :: "bytes \<Rightarrow> u32 res" where
  "nullhash1 buf = NullHash buf (of_nat (length buf)) 0"

definition nullhash2 :: "bytes \<Rightarrow> u32 res" where
  "nullhash2 buf = NullHash buf (of_nat (length buf)) 4"

definition nullhash3 :: "bytes \<Rightarrow> u32 res" where
  "nullhash3 buf = NullHash buf (of_nat (length buf)) 8"

end
