(* ===== verification/Open_Addressing.thy ===== *)
theory Open_Addressing
  imports Main
begin

text \<open>
  The abstract specification of a hash table with open addressing and lazy deletion, on which
  the FAWN-DS store is refined: a table is a function from slot numbers to slots, a key has a
  probe sequence, a search stops at the first slot that was never used. The invariant is that
  a live entry is never behind a never-used slot of its own probe sequence.
\<close>

datatype ('k, 'v) slot = Unused | Tombstone | Live 'k 'v

type_synonym ('k, 'v) table = "nat \<Rightarrow> ('k, 'v) slot"

fun oa_find :: "('k, 'v) table \<Rightarrow> 'k \<Rightarrow> nat list \<Rightarrow> nat option" where
  "oa_find t k [] = None"
| "oa_find t k (i # is) =
     (case t i of
        Unused \<Rightarrow> None
      | Tombstone \<Rightarrow> oa_find t k is
      | Live k' v \<Rightarrow> if k' = k then Some i else oa_find t k is)"

text \<open>The slot an insertion uses, and whether it is a slot without a live entry.\<close>

fun oa_place :: "('k, 'v) table \<Rightarrow> 'k \<Rightarrow> nat list \<Rightarrow> (nat \<times> bool) option" where
  "oa_place t k [] = None"
| "oa_place t k (i # is) =
     (case t i of
        Live k' v \<Rightarrow> if k' = k then Some (i, False) else oa_place t k is
      | _ \<Rightarrow> Some (i, True))"

fun slot_value :: "('k, 'v) slot \<Rightarrow> 'v option" where
  "slot_value (Live k v) = Some v"
| "slot_value _ = None"

definition oa_lookup :: "('k \<Rightarrow> nat list) \<Rightarrow> ('k, 'v) table \<Rightarrow> 'k \<Rightarrow> 'v option" where
  "oa_lookup P t k = Option.bind (oa_find t k (P k)) (\<lambda>i. slot_value (t i))"

definition oa_inv :: "('k \<Rightarrow> nat list) \<Rightarrow> ('k, 'v) table \<Rightarrow> bool" where
  "oa_inv P t \<longleftrightarrow> (\<forall>i k v. t i = Live k v \<longrightarrow>
     (\<exists>pre suf. P k = pre @ i # suf \<and> (\<forall>j \<in> set pre. t j \<noteq> Unused)))"

lemma oa_find_Some: "oa_find t k is = Some i \<Longrightarrow> i \<in> set is \<and> (\<exists>v. t i = Live k v)"
  by (induction "is") (auto split: slot.splits if_splits)

lemma oa_find_append:
  "\<forall>j \<in> set pre. t j \<noteq> Unused \<and> (\<forall>v. t j \<noteq> Live k v) \<Longrightarrow> oa_find t k (pre @ is) = oa_find t k is"
  by (induction pre) (auto split: slot.splits)

lemma oa_find_None_live:
  assumes "oa_find t k (pre @ i # suf) = None" and "\<forall>j \<in> set pre. t j \<noteq> Unused"
  shows "t i \<noteq> Live k v"
  using assms by (induction pre) (auto split: slot.splits if_splits)

lemma oa_place_Some:
  "oa_place t k is = Some (i, new) \<Longrightarrow>
    \<exists>pre suf. is = pre @ i # suf \<and> (\<forall>j \<in> set pre. \<exists>k' v. t j = Live k' v \<and> k' \<noteq> k)
      \<and> (if new then \<forall>k' v. t i \<noteq> Live k' v else \<exists>v. t i = Live k v)"
proof (induction "is")
  case Nil
  then show ?case by simp
next
  case (Cons a "is")
  show ?case
  proof (cases "\<exists>k' v. t a = Live k' v \<and> k' \<noteq> k")
    case True
    with Cons.prems have "oa_place t k is = Some (i, new)" by (auto split: slot.splits)
    from Cons.IH [OF this] obtain pre suf where "is = pre @ i # suf"
      "\<forall>j \<in> set pre. \<exists>k' v. t j = Live k' v \<and> k' \<noteq> k"
      "if new then \<forall>k' v. t i \<noteq> Live k' v else \<exists>v. t i = Live k v"
      by blast
    with True show ?thesis by (intro exI [of _ "a # pre"] exI [of _ suf]) auto
  next
    case False
    with Cons.prems have "i = a" "if new then \<forall>k' v. t i \<noteq> Live k' v else \<exists>v. t i = Live k v"
      by (auto split: slot.splits if_splits)
    then show ?thesis by (intro exI [of _ "[]"] exI [of _ "is"]) auto
  qed
qed

lemma oa_place_None: "oa_place t k is = None \<Longrightarrow> oa_find t k is = None"
  by (induction "is") (auto split: slot.splits if_splits)

text \<open>A key is found exactly when some slot of the table holds it.\<close>

lemma oa_lookup_None:
  assumes "oa_inv P t"
  shows "oa_lookup P t k = None \<longleftrightarrow> (\<forall>i v. t i \<noteq> Live k v)"
proof
  assume "oa_lookup P t k = None"
  then have none: "oa_find t k (P k) = None"
    by (auto simp: oa_lookup_def dest: oa_find_Some split: bind_splits)
  show "\<forall>i v. t i \<noteq> Live k v"
  proof (intro allI notI)
    fix i v
    assume "t i = Live k v"
    with assms obtain pre suf where "P k = pre @ i # suf" "\<forall>j \<in> set pre. t j \<noteq> Unused"
      unfolding oa_inv_def by blast
    with none oa_find_None_live \<open>t i = Live k v\<close> show False by metis
  qed
next
  assume "\<forall>i v. t i \<noteq> Live k v"
  then show "oa_lookup P t k = None"
    by (auto simp: oa_lookup_def dest: oa_find_Some split: bind_splits)
qed

text \<open>A change at a slot that does not hold \<open>k'\<close>, and does not make it unused, keeps the result for \<open>k'\<close>.\<close>

lemma oa_find_upd_other:
  assumes "s \<noteq> Unused" and "\<forall>v. s \<noteq> Live k' v" and "\<forall>v. t i \<noteq> Live k' v"
    and "t i \<noteq> Unused"
  shows "oa_find (t(i := s)) k' is = oa_find t k' is"
  using assms by (induction "is") (auto split: slot.splits)

lemma oa_find_upd_unused:
  assumes "oa_inv P t" and "s \<noteq> Unused" and "\<forall>v. s \<noteq> Live k' v" and "t i = Unused"
  shows "oa_find (t(i := s)) k' (P k') = oa_find t k' (P k')"
proof (cases "oa_find t k' (P k')")
  case None
  have none: "\<forall>j v. t j \<noteq> Live k' v"
    using oa_lookup_None [OF assms(1), of k'] None by (simp add: oa_lookup_def)
  then have "\<forall>j v. (t(i := s)) j \<noteq> Live k' v"
    using assms(3) by simp
  then show ?thesis using None oa_find_Some [of "t(i := s)" k' "P k'"] by (cases "oa_find (t(i := s)) k' (P k')") auto
next
  case (Some j)
  have "oa_find (t(i := s)) k' is = Some j" if "oa_find t k' is = Some j" for "is"
    using that assms by (induction "is") (auto split: slot.splits if_splits)
  with Some show ?thesis by simp
qed

theorem oa_insert:
  assumes inv: "oa_inv P t" and place: "oa_place t k (P k) = Some (i, new)"
  shows "oa_lookup P (t(i := Live k v)) = (oa_lookup P t)(k \<mapsto> v)"
    and "oa_inv P (t(i := Live k v))"
proof -
  obtain pre suf where P: "P k = pre @ i # suf"
    and pre: "\<forall>j \<in> set pre. \<exists>k' v. t j = Live k' v \<and> k' \<noteq> k"
    and i: "if new then \<forall>k' v. t i \<noteq> Live k' v else \<exists>v. t i = Live k v"
    using oa_place_Some [OF place] by blast
  have ti: "i \<notin> set pre" using pre i by (cases new) force+
  have find_k: "oa_find (t(i := Live k v)) k (P k) = Some i"
    unfolding P using pre ti by (subst oa_find_append) auto
  have other: "oa_find (t(i := Live k v)) k' (P k') = oa_find t k' (P k')" if "k' \<noteq> k" for k'
  proof (cases "t i = Unused")
    case True
    with inv that show ?thesis by (intro oa_find_upd_unused) auto
  next
    case False
    with i that show ?thesis by (intro oa_find_upd_other) (auto split: if_splits)
  qed
  show "oa_lookup P (t(i := Live k v)) = (oa_lookup P t)(k \<mapsto> v)"
  proof
    fix k'
    show "oa_lookup P (t(i := Live k v)) k' = ((oa_lookup P t)(k \<mapsto> v)) k'"
    proof (cases "k' = k")
      case False
      have "t i \<noteq> Live k' w" for w using i False by (cases new) auto
      with False show ?thesis
        by (auto simp: oa_lookup_def other dest: oa_find_Some split: bind_splits)
    qed (simp add: oa_lookup_def find_k)
  qed
  show "oa_inv P (t(i := Live k v))"
    unfolding oa_inv_def
  proof (intro allI impI)
    fix j k' w
    assume "(t(i := Live k v)) j = Live k' w"
    then consider "j = i" "k' = k" | "j \<noteq> i" "t j = Live k' w" by (auto split: if_splits)
    then show "\<exists>pre suf. P k' = pre @ j # suf \<and> (\<forall>l \<in> set pre. (t(i := Live k v)) l \<noteq> Unused)"
    proof cases
      case 1
      with P pre show ?thesis by fastforce
    next
      case 2
      with inv obtain pre' suf' where "P k' = pre' @ j # suf'" "\<forall>l \<in> set pre'. t l \<noteq> Unused"
        unfolding oa_inv_def by blast
      then show ?thesis by (intro exI [of _ pre'] exI [of _ suf']) auto
    qed
  qed
qed

text \<open>Marking a live slot of \<open>k\<close> as deleted touches no other key.\<close>

lemma oa_kill:
  assumes inv: "oa_inv P t" and ti: "t i = Live k v"
  shows "oa_inv P (t(i := Tombstone))"
    and "k' \<noteq> k \<Longrightarrow> oa_lookup P (t(i := Tombstone)) k' = oa_lookup P t k'"
proof -
  show "oa_inv P (t(i := Tombstone))"
    unfolding oa_inv_def
  proof (intro allI impI)
    fix j k' w
    assume "(t(i := Tombstone)) j = Live k' w"
    then have "t j = Live k' w" by (auto split: if_splits)
    with inv obtain pre suf where "P k' = pre @ j # suf" "\<forall>l \<in> set pre. t l \<noteq> Unused"
      unfolding oa_inv_def by blast
    then show "\<exists>pre suf. P k' = pre @ j # suf \<and> (\<forall>l \<in> set pre. (t(i := Tombstone)) l \<noteq> Unused)"
      by (intro exI [of _ pre] exI [of _ suf]) auto
  qed
  assume "k' \<noteq> k"
  then have "oa_find (t(i := Tombstone)) k' (P k') = oa_find t k' (P k')"
    using ti by (intro oa_find_upd_other) auto
  then show "oa_lookup P (t(i := Tombstone)) k' = oa_lookup P t k'"
    using ti \<open>k' \<noteq> k\<close> by (auto simp: oa_lookup_def dest: oa_find_Some split: bind_splits)
qed

lemma oa_lookup_empty: "oa_lookup P (\<lambda>_. Unused) = Map.empty"
  by (rule ext) (auto simp: oa_lookup_def dest: oa_find_Some split: bind_splits)

lemma oa_inv_empty: "oa_inv P (\<lambda>_. Unused)"
  by (simp add: oa_inv_def)

end
