(* ===== verification/FawnDS.thy ===== *)
theory FawnDS
  imports Flash Dbid HashUtil Open_Addressing
begin

unbundle bit_operations_syntax

text \<open>
  The FAWN data store \<^verbatim>\<open>FawnDS<FawnDS_Flash>\<close> of \<^verbatim>\<open>src/fawnds/fawnds.cc\<close>: an in-memory
  hash table of key fragments and log offsets over the flash log of theory \<^verbatim>\<open>Flash\<close>.
  This theory holds the state and the operations; their correctness is in
  \<^verbatim>\<open>FawnDS_Correct\<close>.
\<close>

section \<open>State\<close>

datatype key_type = TEXT_KEYS | RANDOM_KEYS

text \<open>
  \<^verbatim>\<open>struct DbHeader\<close>. File positions (\<^verbatim>\<open>off_t\<close>) are natural numbers; the two
  \<^verbatim>\<open>double\<close> parameters, which the store only copies, are kept as their 64-bit patterns.
\<close>

record db_header =
  magic_number :: u64
  hashtable_size :: u64
  number_elements :: u64
  deleted_elements :: u64
  max_deleted_ratio :: u64
  max_load_factor :: u64
  keyFormat :: key_type
  data_insertion_point :: nat
  data_start_point :: nat
  startID :: bytes
  endID :: bytes

record hash_entry =
  present_key :: u16
  entry_offset :: u32

record fawnds =
  header :: db_header
  hash_table :: "hash_entry list"
  datastore :: os_file

text \<open>
  \<^verbatim>\<open>Hashes::hashes\<close>, the global table of hash functions that all stores of a process share; a hash
  function may read outside the key, which is a \<open>Fault\<close>. The table starts with the three Bob hashes, of a
  key at address \<open>addr\<close> with the bytes \<open>rest\<close> behind it. The constructor of a store with random keys
  puts the null hashes there, for every store. The operations below take the table as an argument: its
  contents while they run.
\<close>

type_synonym hashfn = "bytes \<Rightarrow> u32 res"

definition Hashes_hashes :: "u64 \<Rightarrow> memory \<Rightarrow> hashfn list" where
  "Hashes_hashes addr rest =
     [\<lambda>key. Ret (h1 addr (mem_of key rest) (length key)),
      \<lambda>key. Ret (h2 addr (mem_of key rest) (length key)),
      \<lambda>key. Ret (h3 addr (mem_of key rest) (length key))]"

definition FawnDS_new :: "key_type \<Rightarrow> hashfn list \<Rightarrow> hashfn list" where
  "FawnDS_new kt hashes = (if kt = RANDOM_KEYS then [nullhash1, nullhash2, nullhash3] else hashes)"

definition KEYFRAGMASK :: u16 where "KEYFRAGMASK = 0x3FFF"
definition DELETEDBITMASK :: u16 where "DELETEDBITMASK = 0x8000"
definition VALIDBITMASK :: u16 where "VALIDBITMASK = 0x4000"
definition PROBES_BEFORE_REHASH :: nat where "PROBES_BEFORE_REHASH = 8"

definition entry_deleted :: "hash_entry \<Rightarrow> bool" where
  "entry_deleted e \<longleftrightarrow> present_key e AND DELETEDBITMASK \<noteq> 0"

definition entry_valid :: "hash_entry \<Rightarrow> bool" where
  "entry_valid e \<longleftrightarrow> present_key e AND VALIDBITMASK \<noteq> 0"

definition entry_exists :: "hash_entry \<Rightarrow> bool" where
  "entry_exists e \<longleftrightarrow> entry_valid e \<and> \<not> entry_deleted e"

definition verifykey :: "hash_entry \<Rightarrow> u16" where
  "verifykey e = present_key e AND KEYFRAGMASK"

section \<open>Hashing a key to slots\<close>

text \<open>\<^verbatim>\<open>FindNextHashSize\<close>: the next power of two, by smearing the top bit.\<close>

definition FindNextHashSize :: "u32 \<Rightarrow> u32" where
  "FindNextHashSize number =
     (let n0 = number - 1;
          n1 = drop_bit 1 n0 OR n0;
          n2 = drop_bit 2 n1 OR n1;
          n3 = drop_bit 4 n2 OR n2;
          n4 = drop_bit 8 n3 OR n3;
          n5 = drop_bit 16 n4 OR n4
      in n5 + 1)"

text \<open>
  \<^verbatim>\<open>keyfragment_from_key\<close>: the last two bytes, each promoted from \<^verbatim>\<open>char\<close> to \<^verbatim>\<open>int\<close>.
  The empty key would be read at \<^verbatim>\<open>key[0]\<close>.
\<close>

fun keyfragment_from_key :: "bytes \<Rightarrow> u16 res" where
  "keyfragment_from_key [] = Fault"
| "keyfragment_from_key [b] = Ret (ucast ((scast b :: u32) AND ucast KEYFRAGMASK))"
| "keyfragment_from_key key =
     Ret (ucast (push_bit 8 (scast (key ! (length key - 2)) :: u32) + scast (key ! (length key - 1))) AND KEYFRAGMASK)"

text \<open>
  The first slot of the run of eight that a hash function selects. Table sizes are at most
  \<open>2 ^ 31\<close> (a result of \<^verbatim>\<open>FindNextHashSize\<close>), so \<^verbatim>\<open>hash_index_start + 8\<close> does not wrap.
\<close>

definition hash_index_start :: "u64 \<Rightarrow> u32 \<Rightarrow> nat" where
  "hash_index_start sz indexkey =
     unat ((ucast ((ucast indexkey :: u64) AND (sz - 1)) :: u32) AND NOT (of_nat PROBES_BEFORE_REHASH - 1))"

section \<open>Searching the table\<close>

text \<open>
  The inner loops run over the slots \<open>i, i + 1, \<dots>\<close>, \<open>n\<close> of them; reading a slot outside
  the allocated table is a \<open>Fault\<close>. \<open>ProbeNext\<close> says that the loop ran out and the next hash
  function is tried.
\<close>

datatype 'a probe = ProbeHit 'a | ProbeMiss | ProbeNext

definition key_at :: "os_file \<Rightarrow> hash_entry \<Rightarrow> bytes \<Rightarrow> bool" where
  "key_at f e key =
     (case Flash_ReadIntoHeader f (unat (entry_offset e)) of
        None \<Rightarrow> False
      | Some (h, ckey) \<Rightarrow> length ckey = length key \<and> ckey = key)"

fun FindHashIndexInsert_probe ::
  "hash_entry list \<Rightarrow> os_file \<Rightarrow> bytes \<Rightarrow> nat \<Rightarrow> nat \<Rightarrow> (nat \<times> bool) probe res" where
  "FindHashIndexInsert_probe t f key i 0 = Ret ProbeNext"
| "FindHashIndexInsert_probe t f key i (Suc n) =
     (if length t \<le> i then Fault
      else if \<not> entry_exists (t ! i) then Ret (ProbeHit (i, True))
      else bind_res (keyfragment_from_key key) (\<lambda>kf.
        if verifykey (t ! i) = kf \<and> key_at f (t ! i) key then Ret (ProbeHit (i, False))
        else FindHashIndexInsert_probe t f key (Suc i) n))"

fun FindHashIndex_probe ::
  "hash_entry list \<Rightarrow> os_file \<Rightarrow> bytes \<Rightarrow> nat \<Rightarrow> nat \<Rightarrow> nat probe res" where
  "FindHashIndex_probe t f key i 0 = Ret ProbeNext"
| "FindHashIndex_probe t f key i (Suc n) =
     (if length t \<le> i then Fault
      else if \<not> entry_valid (t ! i) then Ret ProbeMiss
      else if entry_deleted (t ! i) then FindHashIndex_probe t f key (Suc i) n
      else bind_res (keyfragment_from_key key) (\<lambda>kf.
        if verifykey (t ! i) = kf \<and> key_at f (t ! i) key then Ret (ProbeHit i)
        else FindHashIndex_probe t f key (Suc i) n))"

text \<open>The outer loop over the hash functions; \<^verbatim>\<open>-1\<close> is \<open>None\<close>.\<close>

fun rehash :: "(nat \<Rightarrow> nat \<Rightarrow> 'a probe res) \<Rightarrow> u64 \<Rightarrow> bytes \<Rightarrow> hashfn list \<Rightarrow> 'a option res" where
  "rehash p sz key [] = Ret None"
| "rehash p sz key (h # hs) =
     bind_res (h key) (\<lambda>indexkey.
       bind_res (p (hash_index_start sz indexkey) PROBES_BEFORE_REHASH) (\<lambda>r.
         case r of
           ProbeHit x \<Rightarrow> Ret (Some x)
         | ProbeMiss \<Rightarrow> Ret None
         | ProbeNext \<Rightarrow> rehash p sz key hs))"

definition FindHashIndexInsert :: "hashfn list \<Rightarrow> fawnds \<Rightarrow> bytes \<Rightarrow> (nat \<times> bool) option res" where
  "FindHashIndexInsert hs ds key =
     rehash (FindHashIndexInsert_probe (hash_table ds) (datastore ds) key) (hashtable_size (header ds)) key hs"

definition FindHashIndex :: "hashfn list \<Rightarrow> fawnds \<Rightarrow> bytes \<Rightarrow> nat option res" where
  "FindHashIndex hs ds key =
     rehash (FindHashIndex_probe (hash_table ds) (datastore ds) key) (hashtable_size (header ds)) key hs"

section \<open>Insert, Delete, Get\<close>

text \<open>A null pointer argument is \<open>None\<close>; the result pairs the returned flag with the new state.\<close>

definition Insert :: "hashfn list \<Rightarrow> fawnds \<Rightarrow> bytes option \<Rightarrow> bytes option \<Rightarrow> (bool \<times> fawnds) res" where
  "Insert hs ds key data =
     (case (key, data) of
        (Some k, Some v) \<Rightarrow>
          if number_elements (header ds) = hashtable_size (header ds) then Ret (False, ds)
          else bind_res (FindHashIndexInsert hs ds k) (\<lambda>r.
            case r of
              None \<Rightarrow> Ret (False, ds)
            | Some (hash_index, newObj) \<Rightarrow>
                (let (ok, f') = Flash_Write (datastore ds) k v (data_insertion_point (header ds))
                 in if \<not> ok then Ret (False, ds\<lparr>datastore := f'\<rparr>)
                    else bind_res (keyfragment_from_key k) (\<lambda>kf.
                      let e = \<lparr>present_key = kf OR VALIDBITMASK,
                               entry_offset = of_nat (data_insertion_point (header ds))\<rparr>;
                          hd1 = (header ds)\<lparr>data_insertion_point :=
                                  data_insertion_point (header ds) + DATA_HEADER_SIZE + length k + length v\<rparr>;
                          hd2 = (if newObj then hd1\<lparr>number_elements := number_elements hd1 + 1\<rparr> else hd1)
                      in Ret (True, \<lparr>header = hd2, hash_table = (hash_table ds)[hash_index := e], datastore = f'\<rparr>))))
      | _ \<Rightarrow> Ret (False, ds))"

definition mark_deleted :: "nat \<Rightarrow> fawnds \<Rightarrow> fawnds" where
  "mark_deleted i ds =
     (let e = hash_table ds ! i
      in ds\<lparr>hash_table := (hash_table ds)[i := e\<lparr>present_key := present_key e OR DELETEDBITMASK\<rparr>]\<rparr>)"

lemma FindHashIndex_probe_hit:
  "FindHashIndex_probe t f key i n = Ret (ProbeHit j) \<Longrightarrow> j < length t \<and> entry_exists (t ! j)"
  by (induction n arbitrary: i) (auto simp: entry_exists_def split: if_splits)

lemma rehash_hit:
  "rehash p sz key hs = Ret (Some x) \<Longrightarrow> \<exists>i. p i PROBES_BEFORE_REHASH = Ret (ProbeHit x)"
proof (induction hs)
  case Nil
  then show ?case by simp
next
  case (Cons h hs)
  then obtain ik r where "h key = Ret ik" "p (hash_index_start sz ik) PROBES_BEFORE_REHASH = Ret r" by auto
  with Cons show ?case by (cases r) auto
qed

lemma FindHashIndex_hit:
  "FindHashIndex hs ds key = Ret (Some i) \<Longrightarrow> i < length (hash_table ds) \<and> entry_exists (hash_table ds ! i)"
  by (auto simp: FindHashIndex_def dest!: rehash_hit FindHashIndex_probe_hit)

lemma entry_deleted_mark [simp]: "entry_deleted (e\<lparr>present_key := present_key e OR DELETEDBITMASK\<rparr>)"
proof -
  have "bit ((present_key e OR 0x8000) AND 0x8000) 15"
    by (simp add: bit_simps)
  then have "(present_key e OR 0x8000) AND 0x8000 \<noteq> 0"
    by (metis bit_0_eq bot_apply bot_bool_def)
  then show ?thesis by (simp add: entry_deleted_def DELETEDBITMASK_def)
qed

lemma mark_deleted_fewer:
  assumes "FindHashIndex hs ds key = Ret (Some i)"
  shows "length (filter entry_exists (hash_table (mark_deleted i ds))) < length (filter entry_exists (hash_table ds))"
  using FindHashIndex_hit [OF assms] entry_deleted_mark [of "hash_table ds ! i"]
    count_update [of i "hash_table ds" entry_exists "(hash_table ds ! i)\<lparr>present_key := present_key (hash_table ds ! i) OR DELETEDBITMASK\<rparr>"]
  by (auto simp: mark_deleted_def Let_def entry_exists_def split: if_splits)

text \<open>
  The loop at the end of \<^verbatim>\<open>Delete\<close> that removes further entries of the key. Each round marks
  one more entry, so it ends.
\<close>

function Delete_stale :: "hashfn list \<Rightarrow> bytes \<Rightarrow> fawnds \<Rightarrow> fawnds res" where
  "Delete_stale hs key ds =
     (case FindHashIndex hs ds key of
        Fault \<Rightarrow> Fault
      | Ret r \<Rightarrow> (case r of None \<Rightarrow> Ret ds | Some i \<Rightarrow> Delete_stale hs key (mark_deleted i ds)))"
  by pat_completeness auto
termination
  by (relation "measure (\<lambda>(hs, key, ds). length (filter entry_exists (hash_table ds)))")
    (auto intro: mark_deleted_fewer)

declare Delete_stale.simps [simp del]

text \<open>\<^verbatim>\<open>Delete(key, key_len, writeLog)\<close> and the external \<^verbatim>\<open>Delete(key, key_len)\<close>.\<close>

definition Delete_log :: "hashfn list \<Rightarrow> fawnds \<Rightarrow> bytes option \<Rightarrow> bool \<Rightarrow> (bool \<times> fawnds) res" where
  "Delete_log hs ds key writeLog =
     (case key of
        None \<Rightarrow> Ret (False, ds)
      | Some k \<Rightarrow>
          bind_res (FindHashIndex hs ds k) (\<lambda>r.
            case r of
              None \<Rightarrow> Ret (False, ds)
            | Some hash_index \<Rightarrow>
                if writeLog \<and> \<not> entry_valid (hash_table ds ! hash_index) then Ret (False, ds)
                else
                  (let (ok, ds1) =
                     (if writeLog then
                        (let (ok, f') = Flash_Delete (datastore ds) k (data_insertion_point (header ds))
                         in if \<not> ok then (False, ds\<lparr>datastore := f'\<rparr>)
                            else (True, ds\<lparr>datastore := f', header := (header ds)\<lparr>data_insertion_point :=
                                   data_insertion_point (header ds) + DATA_HEADER_SIZE + length k\<rparr>\<rparr>))
                      else (True, ds))
                   in if \<not> ok then Ret (False, ds1)
                      else
                        (let ds2 = mark_deleted hash_index ds1;
                             ds3 = ds2\<lparr>header := (header ds2)\<lparr>deleted_elements := deleted_elements (header ds2) + 1\<rparr>\<rparr>
                         in bind_res (Delete_stale hs k ds3) (\<lambda>ds4. Ret (True, ds4))))))"

definition Delete :: "hashfn list \<Rightarrow> fawnds \<Rightarrow> bytes option \<Rightarrow> (bool \<times> fawnds) res" where
  "Delete hs ds key = Delete_log hs ds key True"

text \<open>
  \<^verbatim>\<open>Get\<close> probes like \<^verbatim>\<open>FindHashIndex\<close> but decides a match by \<^verbatim>\<open>datastore->Read\<close>; the
  string \<open>data\<close> is the caller's buffer.
\<close>

fun Get_probe ::
  "hash_entry list \<Rightarrow> os_file \<Rightarrow> bytes \<Rightarrow> bytes \<Rightarrow> nat \<Rightarrow> nat \<Rightarrow> bytes probe res" where
  "Get_probe t f key data i 0 = Ret ProbeNext"
| "Get_probe t f key data i (Suc n) =
     (if length t \<le> i then Fault
      else if \<not> entry_valid (t ! i) then Ret ProbeMiss
      else if entry_deleted (t ! i) then Get_probe t f key data (Suc i) n
      else bind_res (keyfragment_from_key key) (\<lambda>kf.
        if verifykey (t ! i) = kf then
          bind_res (Flash_Read f key (unat (entry_offset (t ! i))) data) (\<lambda>(found, d).
            if found then Ret (ProbeHit d) else Get_probe t f key data (Suc i) n)
        else Get_probe t f key data (Suc i) n))"

definition Get :: "hashfn list \<Rightarrow> fawnds \<Rightarrow> bytes option \<Rightarrow> bytes \<Rightarrow> (bool \<times> bytes) res" where
  "Get hs ds key data =
     (case key of
        None \<Rightarrow> Ret (False, data)
      | Some k \<Rightarrow>
          bind_res (rehash (Get_probe (hash_table ds) (datastore ds) k data) (hashtable_size (header ds)) k hs) (\<lambda>r.
            case r of None \<Rightarrow> Ret (False, data) | Some d \<Rightarrow> Ret (True, d)))"

section \<open>Creating a store\<close>

text \<open>
  \<^verbatim>\<open>header_size()\<close> rounds the 108 bytes of the packed header up to whole pages; the page
  size is what \<^verbatim>\<open>getpagesize()\<close> returns.
\<close>

definition DB_HEADER_SIZE :: nat where "DB_HEADER_SIZE = 108"
definition HASH_ENTRY_SIZE :: nat where "HASH_ENTRY_SIZE = 6"

definition header_size :: "nat \<Rightarrow> nat" where
  "header_size pagesize = (DB_HEADER_SIZE div pagesize + 1) * pagesize"

text \<open>
  \<^verbatim>\<open>Create_FawnDS_From_Fd\<close> on an open file with size limit \<open>cap\<close>. \<^verbatim>\<open>ftruncate\<close> and
  \<^verbatim>\<open>fill_file_with_zeros\<close> leave \<open>db_size\<close> zero bytes, or fail when the limit is too small;
  memory allocation is taken to succeed.
\<close>

definition Create_FawnDS_From_Fd ::
  "nat \<Rightarrow> nat \<Rightarrow> u64 \<Rightarrow> u64 \<Rightarrow> u64 \<Rightarrow> u64 \<Rightarrow> u64 \<Rightarrow> key_type \<Rightarrow> fawnds option" where
  "Create_FawnDS_From_Fd pagesize cap hash_table_size num_entries deleted_entries mdr mlf kt =
     (let numObjects = max hash_table_size ((num_entries - deleted_entries) * 2);
          max_entries = (ucast (FindNextHashSize (ucast numObjects)) :: u64);
          db_size = header_size pagesize + HASH_ENTRY_SIZE * unat max_entries
      in if cap < db_size then None
         else Some \<lparr>header = \<lparr>magic_number = 0, hashtable_size = max_entries, number_elements = 0,
                deleted_elements = 0, max_deleted_ratio = mdr, max_load_factor = mlf, keyFormat = kt,
                data_insertion_point = db_size, data_start_point = db_size,
                startID = replicate 20 0, endID = replicate 20 0\<rparr>,
              hash_table = replicate (unat max_entries) \<lparr>present_key = 0, entry_offset = 0\<rparr>,
              datastore = \<lparr>fdata = replicate db_size 0, fcap = cap\<rparr>\<rparr>)"

text \<open>
  \<^verbatim>\<open>Create_FawnDS\<close>: the requested size times \<^verbatim>\<open>EXCESS_BUCKET_FACTOR\<close> (the \<^verbatim>\<open>double\<close>
  1.1), cut to an integer; below \<open>2 ^ 49\<close> that is \<open>11 * n div 10\<close>.
\<close>

definition Create_FawnDS :: "nat \<Rightarrow> nat \<Rightarrow> u64 \<Rightarrow> u64 \<Rightarrow> u64 \<Rightarrow> key_type \<Rightarrow> fawnds option" where
  "Create_FawnDS pagesize cap hash_table_size mdr mlf kt =
     Create_FawnDS_From_Fd pagesize cap (11 * hash_table_size div 10) 0 0 mdr mlf kt"

end
