(* ===== verification/Kv_Store.thy ===== *)
theory Kv_Store
  imports Prelude
begin

text \<open>
  The contract of a key-value store, as the layers above the data stores use it: every
  operation returns, keeps the store's invariant, and changes the abstract map exactly when it
  reports success. The client's lemma, proved once here, is that a whole run of operations is
  the run of the reported effects on the map.
\<close>

datatype ('k, 'v) kv_op = Put (op_key: 'k) 'v | Remove (op_key: 'k)

text \<open>A run of operations on a store, with the flags they return.\<close>

fun run_ops ::
  "('s \<Rightarrow> 'k \<Rightarrow> 'v \<Rightarrow> (bool \<times> 's) res) \<Rightarrow> ('s \<Rightarrow> 'k \<Rightarrow> (bool \<times> 's) res) \<Rightarrow> 's \<Rightarrow> ('k, 'v) kv_op list \<Rightarrow>
    (bool list \<times> 's) res" where
  "run_ops ins del s [] = Ret ([], s)"
| "run_ops ins del s (x # xs) =
     bind_res (case x of Put k v \<Rightarrow> ins s k v | Remove k \<Rightarrow> del s k) (\<lambda>(b, s').
       bind_res (run_ops ins del s' xs) (\<lambda>(bs, s''). Ret (b # bs, s'')))"

text \<open>The effect of the operations that reported success on a map.\<close>

fun apply_ops :: "('k \<rightharpoonup> 'v) \<Rightarrow> ('k, 'v) kv_op list \<Rightarrow> bool list \<Rightarrow> ('k \<rightharpoonup> 'v)" where
  "apply_ops m (x # xs) (b # bs) =
     apply_ops (if b then (case x of Put k v \<Rightarrow> m(k \<mapsto> v) | Remove k \<Rightarrow> m(k := None)) else m) xs bs"
| "apply_ops m _ _ = m"

locale kv_store =
  fixes inv :: "'s \<Rightarrow> bool"
    and key_ok :: "'k \<Rightarrow> bool"
    and abs :: "'s \<Rightarrow> 'k \<rightharpoonup> 'v"
    and ins :: "'s \<Rightarrow> 'k \<Rightarrow> 'v \<Rightarrow> (bool \<times> 's) res"
    and del :: "'s \<Rightarrow> 'k \<Rightarrow> (bool \<times> 's) res"
  assumes ins_law: "inv s \<Longrightarrow> key_ok k \<Longrightarrow>
      \<exists>b s'. ins s k v = Ret (b, s') \<and> inv s' \<and> abs s' = (if b then (abs s)(k \<mapsto> v) else abs s)"
    and del_law: "inv s \<Longrightarrow> key_ok k \<Longrightarrow>
      \<exists>b s'. del s k = Ret (b, s') \<and> inv s' \<and> abs s' = (if b then (abs s)(k := None) else abs s)"
begin

lemma run_refines:
  assumes "inv s" and "\<forall>x \<in> set xs. key_ok (op_key x)"
  shows "\<exists>bs s'. run_ops ins del s xs = Ret (bs, s') \<and> inv s' \<and> length bs = length xs \<and>
    abs s' = apply_ops (abs s) xs bs"
  using assms
proof (induction xs arbitrary: s)
  case Nil
  then show ?case by simp
next
  case (Cons x xs)
  define m where "m b = (if b then (case x of Put k v \<Rightarrow> (abs s)(k \<mapsto> v) | Remove k \<Rightarrow> (abs s)(k := None)) else abs s)" for b
  obtain b s1 where s1: "(case x of Put k v \<Rightarrow> ins s k v | Remove k \<Rightarrow> del s k) = Ret (b, s1)"
    "inv s1" "abs s1 = m b"
    using ins_law [of s "op_key x"] del_law [of s "op_key x"] Cons.prems
    by (cases x) (fastforce simp: m_def)+
  obtain bs s2 where "run_ops ins del s1 xs = Ret (bs, s2)" "inv s2" "length bs = length xs"
    "abs s2 = apply_ops (abs s1) xs bs"
    using Cons.IH [OF s1(2)] Cons.prems by auto
  with s1 show ?case by (intro exI [of _ "b # bs"] exI [of _ s2]) (simp add: m_def)
qed

end

end
