(* ===== verification/FawnDS_Correct.thy ===== *)
theory FawnDS_Correct
  imports FawnDS Kv_Store
begin

unbundle bit_operations_syntax

text \<open>
  Correctness of the FAWN-DS operations: a store whose keys have one length refines a map.
  The hash table and the log are read together as a table of \<^verbatim>\<open>Open_Addressing\<close>; the
  searches of the code are the searches of that table, so \<^verbatim>\<open>Insert\<close>, \<^verbatim>\<open>Delete\<close> and
  \<^verbatim>\<open>Get\<close> are update, removal and lookup of the abstract map, and no slot outside the
  allocated table is touched.
\<close>

section \<open>Slot bits\<close>

lemma u16_bit_test: "(w :: u16) AND 2 ^ n \<noteq> 0 \<longleftrightarrow> bit w n"
  by (simp add: and_exp_eq_0_iff_not_bit)

lemma entry_valid_bit [simp]: "entry_valid e \<longleftrightarrow> bit (present_key e) 14"
  using u16_bit_test [of "present_key e" 14] by (simp add: entry_valid_def VALIDBITMASK_def)

lemma entry_deleted_bit [simp]: "entry_deleted e \<longleftrightarrow> bit (present_key e) 15"
  using u16_bit_test [of "present_key e" 15] by (simp add: entry_deleted_def DELETEDBITMASK_def)

lemma KEYFRAGMASK_mask: "KEYFRAGMASK = mask 14"
  by (simp add: KEYFRAGMASK_def mask_eq_exp_minus_1)

lemma keyfragment_masked: "keyfragment_from_key k = Ret kf \<Longrightarrow> kf AND KEYFRAGMASK = kf"
  by (cases k rule: keyfragment_from_key.cases)
    (auto simp: KEYFRAGMASK_mask intro!: bit_word_eqI simp: bit_simps)

lemma keyfragment_nonempty: "k \<noteq> [] \<Longrightarrow> \<exists>kf. keyfragment_from_key k = Ret kf"
  by (cases k rule: keyfragment_from_key.cases) auto

lemma bit_VALIDBITMASK: "bit VALIDBITMASK n \<longleftrightarrow> n = 14"
proof -
  have eq: "VALIDBITMASK = 2 ^ 14" by (simp add: VALIDBITMASK_def)
  show ?thesis by (subst eq, subst bit_exp_iff) auto
qed

lemma new_entry_bits:
  assumes "kf AND KEYFRAGMASK = kf"
  shows "bit (kf OR VALIDBITMASK) 14" "\<not> bit (kf OR VALIDBITMASK) 15" "(kf OR VALIDBITMASK) AND KEYFRAGMASK = kf"
proof -
  have kf: "bit kf n \<Longrightarrow> n < 14" for n
    using assms by (metis KEYFRAGMASK_mask bit_and_iff bit_mask_iff)
  show "bit (kf OR VALIDBITMASK) 14" "\<not> bit (kf OR VALIDBITMASK) 15"
    using kf [of 15] by (auto simp: bit_VALIDBITMASK bit_or_iff)
  show "(kf OR VALIDBITMASK) AND KEYFRAGMASK = kf"
    by (rule bit_word_eqI)
      (use kf in \<open>auto simp: bit_VALIDBITMASK KEYFRAGMASK_mask bit_or_iff bit_and_iff bit_mask_iff\<close>)
qed

section \<open>The probe sequence stays inside the table\<close>

text \<open>The hash functions stay inside keys of the length \<open>L\<close>.\<close>

definition hashes_ok :: "nat \<Rightarrow> hashfn list \<Rightarrow> bool" where
  "hashes_ok L hs \<longleftrightarrow> (\<forall>h \<in> set hs. \<forall>k. length k = L \<longrightarrow> h k \<noteq> Fault)"

abbreviation first_slot :: "u64 \<Rightarrow> hashfn \<Rightarrow> bytes \<Rightarrow> nat" where
  "first_slot sz h key \<equiv> hash_index_start sz (the_ret (h key))"

definition probe_seq :: "hashfn list \<Rightarrow> u64 \<Rightarrow> bytes \<Rightarrow> nat list" where
  "probe_seq hs sz key =
     concat (map (\<lambda>h. [first_slot sz h key ..< first_slot sz h key + PROBES_BEFORE_REHASH]) hs)"

lemma probe_seq_simps [simp]:
  "probe_seq [] sz key = []"
  "probe_seq (h # hs) sz key =
     [first_slot sz h key ..< first_slot sz h key + PROBES_BEFORE_REHASH] @ probe_seq hs sz key"
  by (simp_all add: probe_seq_def)

lemma and_not_mask_shift: "(x :: 'a::len word) AND NOT (mask n) = push_bit n (drop_bit n x)"
  by (rule bit_word_eqI) (auto simp: bit_simps)

lemma unat_and_neg_8: "unat ((x :: u32) AND - 8) = 8 * (unat x div 8)"
proof -
  have "x AND - 8 = x div 8 * 8"
    using and_not_mask_shift [of x 3] by (simp add: mask_eq_exp_minus_1 push_bit_eq_mult drop_bit_eq_div)
  moreover have "unat (x div 8 * 8) = (unat x div 8 * 8) mod 2 ^ 32"
    by (simp add: unat_word_ariths unat_div mod_mult_left_eq)
  moreover have "unat x div 8 * 8 < 2 ^ 32"
    using div_times_less_eq_dividend [of "unat x" 8] unsigned_less [of x, where ?'a = nat] by simp
  ultimately show ?thesis by simp
qed

lemma hash_index_start_bound:
  assumes "3 \<le> n" and "n \<le> 31"
  shows "hash_index_start (2 ^ n) ik + PROBES_BEFORE_REHASH \<le> 2 ^ n"
proof -
  define y where "y = ((ucast ik :: u64) AND (2 ^ n - 1))"
  have "y = take_bit n (ucast ik :: u64)"
    by (simp add: y_def take_bit_eq_mask mask_eq_exp_minus_1)
  then have "unat y < 2 ^ n"
    by (simp add: unsigned_take_bit_eq)
  then have m: "unat (ucast y :: u32) < 2 ^ n"
    by (metis order_le_less_trans unsigned_ucast_eq take_bit_nat_less_eq_self)
  obtain j where n: "n = j + 3" using assms(1) by (metis add.commute le_Suc_ex)
  have "unat (ucast y :: u32) div 8 < 2 ^ j"
    using m by (simp add: n power_add less_mult_imp_div_less)
  then have "8 * (unat (ucast y :: u32) div 8) + 8 \<le> 8 * 2 ^ j" by simp
  moreover have "hash_index_start (2 ^ n) ik = 8 * (unat (ucast y :: u32) div 8)"
    by (simp add: hash_index_start_def PROBES_BEFORE_REHASH_def unat_and_neg_8 y_def)
  ultimately show ?thesis
    by (simp add: PROBES_BEFORE_REHASH_def n power_add)
qed

section \<open>The searches are searches of the abstract table\<close>

definition slot_view :: "os_file \<Rightarrow> hash_entry \<Rightarrow> (bytes, bytes) slot" where
  "slot_view f e =
     (if \<not> entry_valid e then Unused
      else if entry_deleted e then Tombstone
      else (case Flash_ReadIntoHeader f (unat (entry_offset e)) of
              None \<Rightarrow> Tombstone
            | Some (h, k) \<Rightarrow> Live k (pread f (unat (data_length h)) (unat (entry_offset e) + DATA_HEADER_SIZE + length k))))"

definition view :: "hash_entry list \<Rightarrow> os_file \<Rightarrow> (bytes, bytes) table" where
  "view t f i = (if i < length t then slot_view f (t ! i) else Unused)"

text \<open>An entry that exists points to a data record whose key it describes.\<close>

definition entry_for :: "os_file \<Rightarrow> hash_entry \<Rightarrow> bytes \<Rightarrow> bytes \<Rightarrow> bool" where
  "entry_for f e k v \<longleftrightarrow> stored f (unat (entry_offset e)) (Data k v) \<and> keyfragment_from_key k = Ret (verifykey e)"

definition table_ok :: "nat \<Rightarrow> hash_entry list \<Rightarrow> os_file \<Rightarrow> bool" where
  "table_ok L t f \<longleftrightarrow> (\<forall>i < length t. entry_exists (t ! i) \<longrightarrow> (\<exists>k v. entry_for f (t ! i) k v \<and> length k = L))"

lemma pread_stored_data:
  assumes "stored f off (Data k v)"
  shows "pread f (unat (of_nat (length v) :: u32)) (off + DATA_HEADER_SIZE + length k) = v"
proof -
  have full: "pread f (record_size (Data k v)) off = record_bytes (Data k v)"
    and "length v < 2 ^ 32"
    using assms by (simp_all add: stored_def)
  then have "unat (of_nat (length v) :: u32) = length v" by (simp add: unat_of_nat)
  then show ?thesis
    using pread_sub [OF full, of "DATA_HEADER_SIZE + length k" "length v"] by (simp add: add.assoc)
qed

lemma slot_view_exists: "entry_exists e \<Longrightarrow> entry_for f e k v \<Longrightarrow> slot_view f e = Live k v"
  by (auto simp: slot_view_def entry_exists_def entry_for_def ReadIntoHeader_stored pread_stored_data)

lemma slot_view_cases:
  "slot_view f e = Unused \<longleftrightarrow> \<not> entry_valid e"
  "entry_valid e \<Longrightarrow> entry_deleted e \<Longrightarrow> slot_view f e = Tombstone"
  by (auto simp: slot_view_def split: option.splits)

lemma key_at_entry: "entry_for f e k v \<Longrightarrow> key_at f e key \<longleftrightarrow> key = k"
  by (auto simp: entry_for_def key_at_def ReadIntoHeader_stored)

text \<open>What an inner loop returns, as a search of the abstract table continues after it.\<close>

fun probe_cont :: "('a \<Rightarrow> 'b) \<Rightarrow> 'a probe \<Rightarrow> 'b option \<Rightarrow> 'b option" where
  "probe_cont g (ProbeHit x) c = Some (g x)"
| "probe_cont g ProbeMiss c = None"
| "probe_cont g ProbeNext c = c"

lemma slot_classify:
  assumes "table_ok L t f" and "i < length t"
  obtains (unused) "\<not> entry_valid (t ! i)" "view t f i = Unused"
  | (tomb) "entry_valid (t ! i)" "entry_deleted (t ! i)" "view t f i = Tombstone"
  | (live) k d where "entry_exists (t ! i)" "entry_for f (t ! i) k d" "length k = L" "view t f i = Live k d"
proof -
  have v: "view t f i = slot_view f (t ! i)" using assms by (simp add: view_def)
  consider "\<not> entry_valid (t ! i)" | "entry_valid (t ! i)" "entry_deleted (t ! i)"
    | "entry_exists (t ! i)"
    by (auto simp: entry_exists_def)
  then show thesis
  proof cases
    case 1
    then show thesis using unused v slot_view_cases(1) by metis
  next
    case 2
    then show thesis using tomb v slot_view_cases(2) by metis
  next
    case 3
    then obtain k d where "entry_for f (t ! i) k d" "length k = L"
      using assms unfolding table_ok_def by blast
    with 3 show thesis using live v slot_view_exists by metis
  qed
qed

lemma upt_Suc_Cons: "[i ..< i + Suc n] = i # [Suc i ..< Suc i + n]"
  by (simp add: upt_rec)

lemma entry_exists_not: "\<not> entry_valid e \<Longrightarrow> \<not> entry_exists e" "entry_deleted e \<Longrightarrow> \<not> entry_exists e"
  by (simp_all add: entry_exists_def)

lemma match_iff:
  "entry_for f e k d \<Longrightarrow> keyfragment_from_key key = Ret kf \<Longrightarrow> verifykey e = kf \<and> key_at f e key \<longleftrightarrow> key = k"
  by (auto simp: key_at_entry) (auto simp: entry_for_def)

lemma FindHashIndex_probe_eq:
  assumes ok: "table_ok L t f" and kf: "keyfragment_from_key key = Ret kf" and le: "i + n \<le> length t"
  shows "\<exists>r. FindHashIndex_probe t f key i n = Ret r \<and>
    (\<forall>rest. oa_find (view t f) key ([i ..< i + n] @ rest) = probe_cont (\<lambda>x. x) r (oa_find (view t f) key rest))"
  using le
proof (induction n arbitrary: i)
  case 0
  then show ?case by simp
next
  case (Suc n)
  then have i: "i < length t" "Suc i + n \<le> length t" by simp_all
  from Suc.IH [OF i(2)] obtain r where r: "FindHashIndex_probe t f key (Suc i) n = Ret r"
    "\<forall>rest. oa_find (view t f) key ([Suc i ..< Suc i + n] @ rest) = probe_cont (\<lambda>x. x) r (oa_find (view t f) key rest)"
    by blast
  from ok i(1) show ?case
  proof (cases rule: slot_classify)
    case unused
    with i show ?thesis unfolding upt_Suc_Cons by (intro exI [of _ ProbeMiss]) simp
  next
    case tomb
    with i r show ?thesis unfolding upt_Suc_Cons by (intro exI [of _ r]) simp
  next
    case (live k d)
    with i r kf match_iff [OF live(2) kf] show ?thesis unfolding upt_Suc_Cons
      by (cases "key = k")
        (auto simp: entry_exists_def intro: exI [of _ "ProbeHit i"] exI [of _ r])
  qed
qed

lemma FindHashIndexInsert_probe_eq:
  assumes ok: "table_ok L t f" and kf: "keyfragment_from_key key = Ret kf" and le: "i + n \<le> length t"
  shows "\<exists>r. FindHashIndexInsert_probe t f key i n = Ret r \<and>
    (\<forall>rest. oa_place (view t f) key ([i ..< i + n] @ rest) = probe_cont (\<lambda>x. x) r (oa_place (view t f) key rest))"
  using le
proof (induction n arbitrary: i)
  case 0
  then show ?case by simp
next
  case (Suc n)
  then have i: "i < length t" "Suc i + n \<le> length t" by simp_all
  from Suc.IH [OF i(2)] obtain r where r: "FindHashIndexInsert_probe t f key (Suc i) n = Ret r"
    "\<forall>rest. oa_place (view t f) key ([Suc i ..< Suc i + n] @ rest) = probe_cont (\<lambda>x. x) r (oa_place (view t f) key rest)"
    by blast
  from ok i(1) show ?case
  proof (cases rule: slot_classify)
    case unused
    with i entry_exists_not(1) show ?thesis unfolding upt_Suc_Cons
      by (intro exI [of _ "ProbeHit (i, True)"]) (simp del: entry_valid_bit)
  next
    case tomb
    with i entry_exists_not(2) show ?thesis unfolding upt_Suc_Cons
      by (intro exI [of _ "ProbeHit (i, True)"]) (simp del: entry_deleted_bit)
  next
    case (live k d)
    with i r kf match_iff [OF live(2) kf] show ?thesis unfolding upt_Suc_Cons
      by (cases "key = k") (auto intro: exI [of _ "ProbeHit (i, False)"] exI [of _ r])
  qed
qed

text \<open>The value \<^verbatim>\<open>Get\<close> leaves in the caller's buffer for a stored value.\<close>

definition buffer_after :: "bytes \<Rightarrow> bytes \<Rightarrow> bytes" where
  "buffer_after data v = (if v = [] then data else v)"

definition oa_get :: "(bytes, bytes) table \<Rightarrow> bytes \<Rightarrow> bytes \<Rightarrow> nat list \<Rightarrow> bytes option" where
  "oa_get t data key is = map_option (buffer_after data) (Option.bind (oa_find t key is) (\<lambda>i. slot_value (t i)))"

lemma oa_get_Nil [simp]: "oa_get t data key [] = None"
  by (simp add: oa_get_def)

lemma oa_get_Cons:
  "oa_get t data key (i # is) =
     (case t i of
        Unused \<Rightarrow> None
      | Tombstone \<Rightarrow> oa_get t data key is
      | Live k v \<Rightarrow> if k = key then Some (buffer_after data v) else oa_get t data key is)"
  by (simp add: oa_get_def split: slot.splits)

lemma Get_probe_eq:
  assumes ok: "table_ok (length key) t f" and kf: "keyfragment_from_key key = Ret kf" and le: "i + n \<le> length t"
  shows "\<exists>r. Get_probe t f key data i n = Ret r \<and>
    (\<forall>rest. oa_get (view t f) data key ([i ..< i + n] @ rest) = probe_cont (\<lambda>x. x) r (oa_get (view t f) data key rest))"
  using le
proof (induction n arbitrary: i)
  case 0
  then show ?case by simp
next
  case (Suc n)
  then have i: "i < length t" "Suc i + n \<le> length t" by simp_all
  from Suc.IH [OF i(2)] obtain r where r: "Get_probe t f key data (Suc i) n = Ret r"
    "\<forall>rest. oa_get (view t f) data key ([Suc i ..< Suc i + n] @ rest) = probe_cont (\<lambda>x. x) r (oa_get (view t f) data key rest)"
    by blast
  from ok i(1) show ?case
  proof (cases rule: slot_classify)
    case unused
    with i show ?thesis unfolding upt_Suc_Cons by (intro exI [of _ ProbeMiss]) (simp add: oa_get_Cons)
  next
    case tomb
    with i r show ?thesis unfolding upt_Suc_Cons by (intro exI [of _ r]) (simp add: oa_get_Cons)
  next
    case (live k d)
    have rd: "Flash_Read f key (unat (entry_offset (t ! i))) data =
        Ret (if key = k then (True, buffer_after data d) else (False, data))"
      using Read_stored [of f "unat (entry_offset (t ! i))" k d key data] live
      by (auto simp: entry_for_def buffer_after_def)
    have "key = k \<Longrightarrow> verifykey (t ! i) = kf" using live kf by (auto simp: entry_for_def)
    with live i r kf rd show ?thesis unfolding upt_Suc_Cons
      by (cases "key = k")
        (auto simp: oa_get_Cons entry_exists_def intro: exI [of _ "ProbeHit (buffer_after data d)"] exI [of _ r])
  qed
qed

lemma rehash_eq:
  assumes "S [] = None" and "hashes_ok (length key) hs"
    and "\<And>h. h \<in> set hs \<Longrightarrow> \<exists>r. p (first_slot sz h key) PROBES_BEFORE_REHASH = Ret r \<and>
      (\<forall>rest. S ([first_slot sz h key ..< first_slot sz h key + PROBES_BEFORE_REHASH] @ rest)
        = probe_cont (\<lambda>x. x) r (S rest))"
  shows "rehash p sz key hs = Ret (S (probe_seq hs sz key))"
  using assms(2,3)
proof (induction hs)
  case Nil
  then show ?case using assms(1) by simp
next
  case (Cons h hs)
  then have "h key \<noteq> Fault" by (simp add: hashes_ok_def)
  then obtain ik where h: "h key = Ret ik" by (auto simp: not_Fault_iff)
  from Cons obtain r where r: "p (first_slot sz h key) PROBES_BEFORE_REHASH = Ret r"
    "\<forall>rest. S ([first_slot sz h key ..< first_slot sz h key + PROBES_BEFORE_REHASH] @ rest)
        = probe_cont (\<lambda>x. x) r (S rest)"
    by (meson list.set_intros(1))
  have "rehash p sz key hs = Ret (S (probe_seq hs sz key))"
    using Cons by (simp add: hashes_ok_def)
  with r h show ?case by (cases r) simp_all
qed

section \<open>The representation invariant\<close>

text \<open>The table has a power-of-two number of slots, at least one run of probes.\<close>

definition geometry_ok :: "fawnds \<Rightarrow> bool" where
  "geometry_ok ds \<longleftrightarrow>
     (\<exists>n. 3 \<le> n \<and> n \<le> 31 \<and> hashtable_size (header ds) = 2 ^ n) \<and>
     length (hash_table ds) = unat (hashtable_size (header ds))"

text \<open>
  The log between the start and the insertion point is the record list \<open>rs\<close>, whose keys have
  length \<open>L\<close>; the device holds at most 4 GB, so that offsets fit the 32-bit field of an entry.
\<close>

definition log_ok :: "nat \<Rightarrow> fawnds \<Rightarrow> log_record list \<Rightarrow> bool" where
  "log_ok L ds rs \<longleftrightarrow>
     0 < L \<and> fcap (datastore ds) \<le> 2 ^ 32 \<and>
     flash.log_at (datastore ds) (data_start_point (header ds)) rs \<and>
     data_insertion_point (header ds) = flash.log_end (data_start_point (header ds)) rs \<and>
     (\<forall>r \<in> set rs. length (rkey r) = L)"

definition entry_in :: "nat \<Rightarrow> log_record list \<Rightarrow> hash_entry \<Rightarrow> bool" where
  "entry_in start rs e \<longleftrightarrow> (\<exists>k v. (unat (entry_offset e), Data k v) \<in> set (flash.rec_offsets start rs)
     \<and> keyfragment_from_key k = Ret (verifykey e))"

definition entries_ok :: "fawnds \<Rightarrow> log_record list \<Rightarrow> bool" where
  "entries_ok ds rs \<longleftrightarrow>
     (\<forall>e \<in> set (hash_table ds). entry_exists e \<longrightarrow> entry_in (data_start_point (header ds)) rs e)"

lemma entry_in_append: "entry_in start rs e \<Longrightarrow> entry_in start (rs @ [r]) e"
  by (auto simp: entry_in_def)

lemma update_all:
  "\<forall>e \<in> set t. Q e \<longrightarrow> P e \<Longrightarrow> (Q x \<Longrightarrow> P x) \<Longrightarrow> \<forall>e \<in> set (t[i := x]). Q e \<longrightarrow> P e"
  using set_update_subset_insert [of t i x] by blast

text \<open>The header's counters: entries in use plus deletions never exceed insertions.\<close>

definition counts_ok :: "fawnds \<Rightarrow> bool" where
  "counts_ok ds \<longleftrightarrow>
     length (filter entry_exists (hash_table ds)) + unat (deleted_elements (header ds)) \<le> unat (number_elements (header ds)) \<and>
     unat (number_elements (header ds)) \<le> unat (hashtable_size (header ds))"

abbreviation probes :: "hashfn list \<Rightarrow> fawnds \<Rightarrow> bytes \<Rightarrow> nat list" where
  "probes hs ds \<equiv> probe_seq hs (hashtable_size (header ds))"

abbreviation ds_view :: "fawnds \<Rightarrow> (bytes, bytes) table" where
  "ds_view ds \<equiv> view (hash_table ds) (datastore ds)"

definition fds_rep :: "nat \<Rightarrow> hashfn list \<Rightarrow> fawnds \<Rightarrow> log_record list \<Rightarrow> bool" where
  "fds_rep L hs ds rs \<longleftrightarrow>
     hashes_ok L hs \<and> geometry_ok ds \<and> log_ok L ds rs \<and> entries_ok ds rs \<and> counts_ok ds \<and> oa_inv (probes hs ds) (ds_view ds)"

text \<open>The invariant of a store and the map it represents.\<close>

definition fds_inv :: "nat \<Rightarrow> hashfn list \<Rightarrow> fawnds \<Rightarrow> bool" where
  "fds_inv L hs ds \<longleftrightarrow> (\<exists>rs. fds_rep L hs ds rs)"

definition fds_map :: "hashfn list \<Rightarrow> fawnds \<Rightarrow> bytes \<Rightarrow> bytes option" where
  "fds_map hs ds = oa_lookup (probes hs ds) (ds_view ds)"

lemma rep_hashes: "fds_rep L hs ds rs \<Longrightarrow> length k = L \<Longrightarrow> hashes_ok (length k) hs"
  by (simp add: fds_rep_def)

lemma rec_offsets_set: "(o', r) \<in> set (flash.rec_offsets off rs) \<Longrightarrow> r \<in> set rs"
  by (induction rs arbitrary: off) auto

lemma rep_table_ok:
  assumes "log_ok L ds rs" and "entries_ok ds rs"
  shows "table_ok L (hash_table ds) (datastore ds)"
  unfolding table_ok_def
proof (intro allI impI)
  fix i
  assume "i < length (hash_table ds)" and "entry_exists (hash_table ds ! i)"
  with assms(2) obtain k v where kv: "(unat (entry_offset (hash_table ds ! i)), Data k v)
      \<in> set (flash.rec_offsets (data_start_point (header ds)) rs)"
    "keyfragment_from_key k = Ret (verifykey (hash_table ds ! i))"
    unfolding entries_ok_def entry_in_def by (metis nth_mem)
  have "length k = L"
    using assms(1) rec_offsets_set [OF kv(1)] by (auto simp: log_ok_def)
  moreover have "stored (datastore ds) (unat (entry_offset (hash_table ds ! i))) (Data k v)"
    using assms(1) flash.log_at_stored [OF _ kv(1)] by (simp add: log_ok_def)
  ultimately show "\<exists>k v. entry_for (datastore ds) (hash_table ds ! i) k v \<and> length k = L"
    using kv(2) by (auto simp: entry_for_def)
qed

lemma geometry_start:
  assumes "geometry_ok ds"
  shows "hash_index_start (hashtable_size (header ds)) ik + PROBES_BEFORE_REHASH \<le> length (hash_table ds)"
proof -
  obtain n where n: "3 \<le> n" "n \<le> 31" "hashtable_size (header ds) = 2 ^ n"
    and len: "length (hash_table ds) = unat (hashtable_size (header ds))"
    using assms by (auto simp: geometry_ok_def)
  have "unat (2 ^ n :: u64) = 2 ^ n" using n by (simp add: unat_exp)
  then show ?thesis using hash_index_start_bound [OF n(1,2)] n(3) len by simp
qed

lemma FindHashIndex_eq:
  assumes "geometry_ok ds" and "table_ok L (hash_table ds) (datastore ds)" and "key \<noteq> []" and "hashes_ok (length key) hs"
  shows "FindHashIndex hs ds key = Ret (oa_find (ds_view ds) key (probes hs ds key))"
  unfolding FindHashIndex_def
  using keyfragment_nonempty [OF assms(3)] geometry_start [OF assms(1)] assms(4)
  by (intro rehash_eq) (auto intro: FindHashIndex_probe_eq [OF assms(2)])

lemma FindHashIndexInsert_eq:
  assumes "geometry_ok ds" and "table_ok L (hash_table ds) (datastore ds)" and "key \<noteq> []" and "hashes_ok (length key) hs"
  shows "FindHashIndexInsert hs ds key = Ret (oa_place (ds_view ds) key (probes hs ds key))"
  unfolding FindHashIndexInsert_def
  using keyfragment_nonempty [OF assms(3)] geometry_start [OF assms(1)] assms(4)
  by (intro rehash_eq) (auto intro: FindHashIndexInsert_probe_eq [OF assms(2)])

section \<open>Frame and update of the view\<close>

lemma entry_view:
  assumes "entries_ok ds rs" and "flash.log_at f (data_start_point (header ds)) rs"
    and "i < length (hash_table ds)" and "entry_exists (hash_table ds ! i)"
  shows "\<exists>k v. (unat (entry_offset (hash_table ds ! i)), Data k v)
        \<in> set (flash.rec_offsets (data_start_point (header ds)) rs)
      \<and> keyfragment_from_key k = Ret (verifykey (hash_table ds ! i))
      \<and> slot_view f (hash_table ds ! i) = Live k v"
proof -
  obtain k v where kv: "(unat (entry_offset (hash_table ds ! i)), Data k v)
      \<in> set (flash.rec_offsets (data_start_point (header ds)) rs)"
    "keyfragment_from_key k = Ret (verifykey (hash_table ds ! i))"
    using assms unfolding entries_ok_def entry_in_def by (metis nth_mem)
  have "entry_for f (hash_table ds ! i) k v"
    using kv flash.log_at_stored [OF assms(2) kv(1)] by (simp add: entry_for_def)
  with kv assms(4) slot_view_exists show ?thesis by blast
qed

text \<open>Two devices with the same log give the same view.\<close>

lemma view_frame:
  assumes "entries_ok ds rs" and "flash.log_at f (data_start_point (header ds)) rs"
    and "flash.log_at f' (data_start_point (header ds)) rs"
  shows "view (hash_table ds) f' = view (hash_table ds) f"
proof
  fix i
  show "view (hash_table ds) f' i = view (hash_table ds) f i"
  proof (cases "i < length (hash_table ds) \<and> entry_exists (hash_table ds ! i)")
    case True
    obtain k v k' v' where "(unat (entry_offset (hash_table ds ! i)), Data k v)
        \<in> set (flash.rec_offsets (data_start_point (header ds)) rs)"
      "slot_view f (hash_table ds ! i) = Live k v"
      "(unat (entry_offset (hash_table ds ! i)), Data k' v')
        \<in> set (flash.rec_offsets (data_start_point (header ds)) rs)"
      "slot_view f' (hash_table ds ! i) = Live k' v'"
      using entry_view [OF assms(1,2), of i] entry_view [OF assms(1,3), of i] True by blast
    moreover from this have "Data k v = Data k' v'"
      using flash.rec_offsets_distinct [OF record_size_pos] by blast
    ultimately show ?thesis using True by (simp add: view_def)
  qed (auto simp: view_def slot_view_def entry_exists_def)
qed

lemma probes_in_table:
  assumes "geometry_ok ds" and "i \<in> set (probes hs ds key)"
  shows "i < length (hash_table ds)"
proof -
  have "set (probe_seq hs' (hashtable_size (header ds)) key) \<subseteq> {..<length (hash_table ds)}" for hs'
    using geometry_start [OF assms(1)] by (induction hs') (auto intro: less_le_trans)
  with assms(2) show ?thesis by blast
qed

lemma view_live_exists:
  "view t f i = Live k v \<Longrightarrow> i < length t \<and> entry_exists (t ! i)"
  by (auto simp: view_def slot_view_def entry_exists_def split: if_splits)

lemma exists_view_live:
  "table_ok L t f \<Longrightarrow> i < length t \<Longrightarrow> entry_exists (t ! i) \<Longrightarrow> \<exists>k v. view t f i = Live k v"
  by (erule (1) slot_classify) (auto simp: entry_exists_def)

section \<open>Insert\<close>

lemma Flash_Write_bounds:
  assumes "Flash_Write f k v off = (True, f')" and "fcap f \<le> 2 ^ 32"
  shows "off < 2 ^ 32" and "record_ok (Data k v)" and "fcap f' = fcap f"
proof -
  have w: "pwrite f (record_bytes (Data k v)) off = (int (length (record_bytes (Data k v))), f')"
    using Flash_Write_True [OF assms(1)] .
  have "record_bytes (Data k v) \<noteq> []"
    using record_size_pos by (metis length_greater_0_conv length_record_bytes)
  then have "off + record_size (Data k v) \<le> fcap f"
    using pwrite_complete_iff [of f "record_bytes (Data k v)" off] w
    unfolding length_record_bytes by (simp only: fst_conv simp_thms)
  then have le: "off + record_size (Data k v) \<le> 2 ^ 32" using assms(2) by simp
  then show "off < 2 ^ 32" using record_size_pos [of "Data k v"] by linarith
  show "record_ok (Data k v)" using le by (simp add: DATA_HEADER_SIZE_def)
  show "fcap f' = fcap f" using pwrite_cap [OF w] .
qed

lemma Flash_Write_cap: "Flash_Write f k v off = (b, f') \<Longrightarrow> fcap f' = fcap f"
  by (auto dest!: Flash_Write_pwrite pwrite_cap)

lemma rep_new_file:
  assumes rep: "fds_rep L hs ds rs" and cap: "fcap f' = fcap (datastore ds)"
    and log: "flash.log_at f' (data_start_point (header ds)) rs"
  shows "fds_rep L hs (ds\<lparr>datastore := f'\<rparr>) rs" and "ds_view (ds\<lparr>datastore := f'\<rparr>) = ds_view ds"
proof -
  have "view (hash_table ds) f' = ds_view ds"
    using rep log by (intro view_frame) (auto simp: fds_rep_def log_ok_def)
  then show "ds_view (ds\<lparr>datastore := f'\<rparr>) = ds_view ds" by simp
  with rep log cap show "fds_rep L hs (ds\<lparr>datastore := f'\<rparr>) rs"
    by (auto simp: fds_rep_def geometry_ok_def log_ok_def entries_ok_def counts_ok_def)
qed

text \<open>The new entry and the store after a successful write, as \<^verbatim>\<open>Insert\<close> builds them.\<close>

definition inserted :: "fawnds \<Rightarrow> bytes \<Rightarrow> bytes \<Rightarrow> u16 \<Rightarrow> nat \<Rightarrow> bool \<Rightarrow> os_file \<Rightarrow> fawnds" where
  "inserted ds k v kf i new f' =
     \<lparr>header = (header ds)
        \<lparr>data_insertion_point := data_insertion_point (header ds) + DATA_HEADER_SIZE + length k + length v,
         number_elements := number_elements (header ds) + (if new then 1 else 0)\<rparr>,
      hash_table = (hash_table ds)[i := \<lparr>present_key = kf OR VALIDBITMASK,
                                        entry_offset = of_nat (data_insertion_point (header ds))\<rparr>],
      datastore = f'\<rparr>"

lemma Insert_cases:
  assumes "Insert hs ds (Some k) (Some v) = Ret (b, ds')"
  obtains (full) "\<not> b" "ds' = ds" "number_elements (header ds) = hashtable_size (header ds)"
  | (noslot) "\<not> b" "ds' = ds" "FindHashIndexInsert hs ds k = Ret None"
  | (nowrite) f' where "\<not> b" "ds' = ds\<lparr>datastore := f'\<rparr>"
      "Flash_Write (datastore ds) k v (data_insertion_point (header ds)) = (False, f')"
  | (written) i new f' kf where b "FindHashIndexInsert hs ds k = Ret (Some (i, new))"
      "number_elements (header ds) \<noteq> hashtable_size (header ds)"
      "Flash_Write (datastore ds) k v (data_insertion_point (header ds)) = (True, f')"
      "keyfragment_from_key k = Ret kf" "ds' = inserted ds k v kf i new f'"
proof (cases "number_elements (header ds) = hashtable_size (header ds)")
  case True
  with assms full show thesis by (simp add: Insert_def)
next
  case False
  then obtain r where r: "FindHashIndexInsert hs ds k = Ret r"
    using assms by (auto simp: Insert_def)
  obtain ok f' where w: "Flash_Write (datastore ds) k v (data_insertion_point (header ds)) = (ok, f')"
    by fastforce
  show thesis
  proof (cases r)
    case None
    with assms False r noslot show thesis by (simp add: Insert_def)
  next
    case (Some p)
    obtain i new where p: "p = (i, new)" by fastforce
    show thesis
    proof (cases ok)
      case True
      with assms False r w Some p obtain kf where "keyfragment_from_key k = Ret kf"
        by (auto simp: Insert_def)
      with assms False r w Some p True show thesis
        by (intro written [of i new f' kf]) (auto simp: Insert_def inserted_def Let_def)
    next
      case False
      with assms \<open>number_elements (header ds) \<noteq> hashtable_size (header ds)\<close> r w Some p show thesis
        by (intro nowrite [of f']) (auto simp: Insert_def)
    qed
  qed
qed

lemma view_update: "i < length t \<Longrightarrow> view (t[i := e]) f = (view t f)(i := slot_view f e)"
  by (rule ext) (simp add: view_def nth_list_update)

lemma new_entry:
  assumes "keyfragment_from_key k = Ret kf"
  shows "entry_exists \<lparr>present_key = kf OR VALIDBITMASK, entry_offset = off\<rparr>"
    and "verifykey \<lparr>present_key = kf OR VALIDBITMASK, entry_offset = off\<rparr> = kf"
  using new_entry_bits [OF keyfragment_masked [OF assms(1)]]
  by (simp_all add: entry_exists_def verifykey_def)

lemma place_slot:
  assumes "fds_rep L hs ds rs" and "oa_place (ds_view ds) k (probes hs ds k) = Some (i, new)"
  shows "i < length (hash_table ds)" and "entry_exists (hash_table ds ! i) \<longleftrightarrow> \<not> new"
proof -
  have ok: "table_ok L (hash_table ds) (datastore ds)" and geo: "geometry_ok ds"
    using assms(1) rep_table_ok by (auto simp: fds_rep_def)
  have p: "i \<in> set (probes hs ds k)" "if new then \<forall>k' v. ds_view ds i \<noteq> Live k' v else \<exists>v. ds_view ds i = Live k v"
    using oa_place_Some [OF assms(2)] by auto
  show i: "i < length (hash_table ds)" using probes_in_table [OF geo p(1)] .
  show "entry_exists (hash_table ds ! i) \<longleftrightarrow> \<not> new"
    using p(2) exists_view_live [OF ok i] view_live_exists [of "hash_table ds" "datastore ds" i]
    by (cases new) auto
qed

lemma inserted_view:
  assumes rep: "fds_rep L hs ds rs" and place: "oa_place (ds_view ds) k (probes hs ds k) = Some (i, new)"
    and w: "Flash_Write (datastore ds) k v (data_insertion_point (header ds)) = (True, f')"
    and kf: "keyfragment_from_key k = Ret kf"
  shows "flash.log_at f' (data_start_point (header ds)) (rs @ [Data k v])"
    and "ds_view (inserted ds k v kf i new f') = (ds_view ds)(i := Live k v)"
proof -
  let ?start = "data_start_point (header ds)" and ?off = "data_insertion_point (header ds)"
  let ?e = "\<lparr>present_key = kf OR VALIDBITMASK, entry_offset = of_nat ?off\<rparr> :: hash_entry"
  have log: "flash.log_at (datastore ds) ?start rs" and off: "?off = flash.log_end ?start rs"
    and cap: "fcap (datastore ds) \<le> 2 ^ 32" and ent: "entries_ok ds rs"
    using rep by (auto simp: fds_rep_def log_ok_def)
  note b = Flash_Write_bounds [OF w cap]
  have app: "flash_append (datastore ds) (Data k v) (flash.log_end ?start rs) = (True, f')"
    using w off by simp
  show log': "flash.log_at f' ?start (rs @ [Data k v])"
    using flash.log_append_ok [OF log app b(2)] .
  have "stored f' ?off (Data k v)"
    using flash.log_at_stored [OF log', of ?off "Data k v"] off by simp
  then have "entry_for f' ?e k v"
    using b(1) new_entry [OF kf, of "of_nat ?off"] kf by (simp add: entry_for_def unat_of_nat)
  then have "slot_view f' ?e = Live k v"
    using slot_view_exists new_entry(1) [OF kf] by blast
  moreover have "view (hash_table ds) f' = ds_view ds"
    using view_frame [OF ent log flash.log_append_any [OF log app]] .
  ultimately show "ds_view (inserted ds k v kf i new f') = (ds_view ds)(i := Live k v)"
    using place_slot(1) [OF rep place] by (simp add: inserted_def view_update)
qed

lemma inserted_rep:
  assumes rep: "fds_rep L hs ds rs" and L: "length k = L"
    and place: "oa_place (ds_view ds) k (probes hs ds k) = Some (i, new)"
    and w: "Flash_Write (datastore ds) k v (data_insertion_point (header ds)) = (True, f')"
    and nfull: "number_elements (header ds) \<noteq> hashtable_size (header ds)"
    and kf: "keyfragment_from_key k = Ret kf"
  shows "fds_rep L hs (inserted ds k v kf i new f') (rs @ [Data k v])"
proof -
  let ?ds = "inserted ds k v kf i new f'"
  let ?off = "data_insertion_point (header ds)"
  have r: "geometry_ok ds" "log_ok L ds rs" "entries_ok ds rs" "counts_ok ds" "oa_inv (probes hs ds) (ds_view ds)"
    using rep by (auto simp: fds_rep_def)
  have cap: "fcap (datastore ds) \<le> 2 ^ 32" using r(2) by (simp add: log_ok_def)
  note b = Flash_Write_bounds [OF w cap]
  note i = place_slot [OF rep place]
  have "geometry_ok ?ds" using r(1) by (simp add: geometry_ok_def inserted_def)
  moreover have "log_ok L ?ds (rs @ [Data k v])"
    using r(2) L b(3) inserted_view(1) [OF rep place w kf]
    by (auto simp: log_ok_def inserted_def flash.log_end_append)
  moreover have "entries_ok ?ds (rs @ [Data k v])"
  proof -
    have "entry_in (data_start_point (header ds)) (rs @ [Data k v])
        \<lparr>present_key = kf OR VALIDBITMASK, entry_offset = of_nat ?off\<rparr>"
      using r(2) new_entry(2) [OF kf] b(1) kf by (auto simp: entry_in_def log_ok_def unat_of_nat)
    then show ?thesis
      using r(3) unfolding entries_ok_def inserted_def fawnds.simps db_header.simps
      by (intro update_all) (auto intro: entry_in_append)
  qed
  moreover have "counts_ok ?ds"
  proof -
    have lt: "unat (number_elements (header ds)) < unat (hashtable_size (header ds))"
      using r(4) nfull by (metis counts_ok_def le_neq_implies_less word_unat_eq_iff)
    then have "unat (number_elements (header ds) + 1) = Suc (unat (number_elements (header ds)))"
      using unsigned_less [of "hashtable_size (header ds)", where ?'a = nat] by (rule unat_Suc_word)
    with lt r(4) count_update [OF i(1), of entry_exists "\<lparr>present_key = kf OR VALIDBITMASK, entry_offset = of_nat ?off\<rparr>"]
      i(2) new_entry(1) [OF kf, of "of_nat ?off"]
    show ?thesis by (cases new) (auto simp: counts_ok_def inserted_def)
  qed
  moreover have "oa_inv (probes hs ?ds) (ds_view ?ds)"
    using oa_insert(2) [OF r(5) place] inserted_view(2) [OF rep place w kf] by (simp add: inserted_def)
  ultimately show ?thesis using rep by (simp add: fds_rep_def)
qed

text \<open>A call of \<^verbatim>\<open>Insert\<close> on a well-formed store returns; what it reports is what it did.\<close>

lemma Insert_refines:
  assumes rep: "fds_rep L hs ds rs" and L: "length k = L"
  shows "\<exists>b ds'. Insert hs ds (Some k) (Some v) = Ret (b, ds') \<and>
    fds_map hs ds' = (if b then (fds_map hs ds)(k \<mapsto> v) else fds_map hs ds) \<and>
    fds_rep L hs ds' (if b then rs @ [Data k v] else rs)"
proof -
  have r: "geometry_ok ds" "log_ok L ds rs" "entries_ok ds rs" "oa_inv (probes hs ds) (ds_view ds)"
    using rep by (auto simp: fds_rep_def)
  have k: "k \<noteq> []" using r(2) L by (auto simp: log_ok_def)
  note find = FindHashIndexInsert_eq [OF r(1) rep_table_ok [OF r(2,3)] k rep_hashes [OF rep L]]
  obtain kf where kf: "keyfragment_from_key k = Ret kf" using keyfragment_nonempty [OF k] by blast
  have "Insert hs ds (Some k) (Some v) \<noteq> Fault"
    using find kf by (auto simp: Insert_def Let_def split: option.splits prod.splits)
  then obtain b ds' where ins: "Insert hs ds (Some k) (Some v) = Ret (b, ds')"
    by (metis not_Fault_iff surj_pair)
  then show ?thesis
  proof (cases rule: Insert_cases)
    case (nowrite f')
    have "flash.log_at f' (data_start_point (header ds)) rs"
      using r(2) nowrite(3) flash.log_append_any [of "datastore ds" _ rs "Data k v" False f']
      by (simp add: log_ok_def)
    note new = rep_new_file [OF rep Flash_Write_cap [OF nowrite(3)] this]
    then have "fds_map hs ds' = fds_map hs ds" using nowrite(2) by (simp add: fds_map_def)
    with new ins nowrite show ?thesis by auto
  next
    case (written i new f' kf)
    then have place: "oa_place (ds_view ds) k (probes hs ds k) = Some (i, new)"
      using find by simp
    have "fds_map hs ds' = (fds_map hs ds)(k \<mapsto> v)"
      using oa_insert(1) [OF r(4) place] inserted_view(2) [OF rep place written(4,5)] written(6)
      by (simp add: fds_map_def inserted_def)
    with ins written inserted_rep [OF rep L place written(4,3,5)] show ?thesis by auto
  qed (use ins rep in auto)
qed

section \<open>Get\<close>

lemma Get_refines:
  assumes rep: "fds_rep L hs ds rs" and L: "length k = L"
  shows "Get hs ds (Some k) data =
    Ret (case fds_map hs ds k of None \<Rightarrow> (False, data) | Some v \<Rightarrow> (True, buffer_after data v))"
proof -
  have r: "geometry_ok ds" "log_ok L ds rs" "entries_ok ds rs"
    using rep by (auto simp: fds_rep_def)
  have k: "k \<noteq> []" using r(2) L by (auto simp: log_ok_def)
  have ok: "table_ok (length k) (hash_table ds) (datastore ds)" using rep_table_ok [OF r(2,3)] L by simp
  have "rehash (Get_probe (hash_table ds) (datastore ds) k data) (hashtable_size (header ds)) k hs
      = Ret (oa_get (ds_view ds) data k (probes hs ds k))"
    using keyfragment_nonempty [OF k] geometry_start [OF r(1)] rep_hashes [OF rep L]
    by (intro rehash_eq) (auto intro: Get_probe_eq [OF ok])
  moreover have "oa_get (ds_view ds) data k (probes hs ds k) = map_option (buffer_after data) (fds_map hs ds k)"
    by (simp add: oa_get_def fds_map_def oa_lookup_def)
  ultimately show ?thesis by (simp add: Get_def split: option.splits)
qed

section \<open>Delete\<close>

lemma marked_entry:
  fixes e :: hash_entry
  defines "e' \<equiv> e\<lparr>present_key := present_key e OR DELETEDBITMASK\<rparr>"
  shows "entry_valid e \<Longrightarrow> slot_view f e' = Tombstone" and "\<not> entry_exists e'"
proof -
  have d: "entry_deleted e'" using entry_deleted_mark [of e] by (simp add: e'_def)
  then show "\<not> entry_exists e'" by (simp add: entry_exists_def)
  assume "entry_valid e"
  then have "entry_valid e'" by (simp add: e'_def bit_or_iff)
  with d slot_view_cases(2) show "slot_view f e' = Tombstone" by blast
qed

lemma mark_deleted_simps [simp]:
  "header (mark_deleted i ds) = header ds" "datastore (mark_deleted i ds) = datastore ds"
  by (simp_all add: mark_deleted_def Let_def)

text \<open>Marking an entry in use: the view, the parts of the invariant and the count of entries.\<close>

lemma mark_deleted_view:
  assumes "i < length (hash_table ds)" and "entry_exists (hash_table ds ! i)"
  shows "view (hash_table (mark_deleted i ds)) f = (view (hash_table ds) f)(i := Tombstone)"
  using assms marked_entry(1) [of "hash_table ds ! i" f]
  by (simp add: mark_deleted_def Let_def view_update entry_exists_def)

lemma mark_deleted_parts:
  assumes "i < length (hash_table ds)" and "entry_exists (hash_table ds ! i)"
  shows "geometry_ok ds \<Longrightarrow> geometry_ok (mark_deleted i ds)"
    and "log_ok L ds rs \<Longrightarrow> log_ok L (mark_deleted i ds) rs"
    and "entries_ok ds rs \<Longrightarrow> entries_ok (mark_deleted i ds) rs"
    and "Suc (length (filter entry_exists (hash_table (mark_deleted i ds)))) = length (filter entry_exists (hash_table ds))"
proof -
  let ?e = "(hash_table ds ! i)\<lparr>present_key := present_key (hash_table ds ! i) OR DELETEDBITMASK\<rparr>"
  have t: "hash_table (mark_deleted i ds) = (hash_table ds)[i := ?e]"
    by (simp add: mark_deleted_def Let_def)
  show "geometry_ok ds \<Longrightarrow> geometry_ok (mark_deleted i ds)" by (simp add: geometry_ok_def t)
  show "log_ok L ds rs \<Longrightarrow> log_ok L (mark_deleted i ds) rs" by (simp add: log_ok_def)
  show "entries_ok ds rs \<Longrightarrow> entries_ok (mark_deleted i ds) rs"
    unfolding entries_ok_def t mark_deleted_simps using marked_entry(2) by (intro update_all) auto
  show "Suc (length (filter entry_exists (hash_table (mark_deleted i ds)))) = length (filter entry_exists (hash_table ds))"
    using count_update [OF assms(1), of entry_exists ?e] assms(2) marked_entry(2) [of "hash_table ds ! i"]
    by (simp add: t)
qed

lemma find_slot:
  assumes "FindHashIndex hs ds k = Ret (Some i)" and "geometry_ok ds"
    and "table_ok L (hash_table ds) (datastore ds)" and "k \<noteq> []" and "hashes_ok (length k) hs"
  shows "i < length (hash_table ds)" "entry_exists (hash_table ds ! i)" "\<exists>v. ds_view ds i = Live k v"
  using FindHashIndex_hit [OF assms(1)] assms(1) FindHashIndex_eq [OF assms(2-5)] oa_find_Some [of "ds_view ds" k]
  by auto

text \<open>The loop that removes stale entries ends in a store without the key.\<close>

lemma Delete_stale_refines:
  assumes "fds_rep L hs ds rs" and "length k = L"
  shows "\<exists>ds'. Delete_stale hs k ds = Ret ds' \<and> fds_rep L hs ds' rs \<and> header ds' = header ds \<and>
    fds_map hs ds' = (fds_map hs ds)(k := None)"
  using assms
proof (induction hs k ds rule: Delete_stale.induct)
  case (1 hs k ds)
  have r: "geometry_ok ds" "log_ok L ds rs" "entries_ok ds rs" "counts_ok ds" "oa_inv (probes hs ds) (ds_view ds)"
    using "1.prems" by (auto simp: fds_rep_def)
  have k: "k \<noteq> []" using r(2) "1.prems" by (auto simp: log_ok_def)
  note tok = rep_table_ok [OF r(2,3)] and hok = rep_hashes [OF "1.prems"]
  show ?case
  proof (cases "oa_find (ds_view ds) k (probes hs ds k)")
    case None
    then have "fds_map hs ds k = None" by (simp add: fds_map_def oa_lookup_def)
    moreover have "Delete_stale hs k ds = Ret ds"
      using FindHashIndex_eq [OF r(1) tok k hok] None by (simp add: Delete_stale.simps [of hs k ds])
    ultimately show ?thesis using "1.prems" by auto
  next
    case (Some i)
    then have find: "FindHashIndex hs ds k = Ret (Some i)" using FindHashIndex_eq [OF r(1) tok k hok] by simp
    note s = find_slot [OF find r(1) tok k hok]
    obtain v where v: "ds_view ds i = Live k v" using s(3) by blast
    note m = mark_deleted_parts [OF s(1,2)] and mv = mark_deleted_view [OF s(1,2)]
    have rep': "fds_rep L hs (mark_deleted i ds) rs"
      using m r oa_kill(1) [OF r(5) v] "1.prems"(1) by (simp add: fds_rep_def counts_ok_def mv)
    have others: "(fds_map hs (mark_deleted i ds))(k := None) = (fds_map hs ds)(k := None)"
      using oa_kill(2) [OF r(5) v] by (auto simp: fds_map_def mv fun_eq_iff)
    from "1.IH" [OF find refl rep'] "1.prems" others find show ?thesis
      by (auto simp: Delete_stale.simps [of hs k ds])
  qed
qed

lemma Flash_Delete_cap: "Flash_Delete f k off = (b, f') \<Longrightarrow> fcap f' = fcap f"
  by (erule Flash_Delete_pwrites) (auto dest!: pwrite_cap)

lemma Flash_Delete_ok:
  assumes "Flash_Delete f k off = (True, f')" and "fcap f \<le> 2 ^ 32"
  shows "record_ok (DeleteLog k)"
proof -
  obtain f1 n where "pwrite f1 k (off + DATA_HEADER_SIZE) = (int (length k), f')"
    and "fcap f1 = fcap f"
    using Flash_Delete_pwrites [OF assms(1)] pwrite_cap by metis
  then have "k = [] \<or> off + DATA_HEADER_SIZE + length k \<le> fcap f"
    using pwrite_complete_iff [of f1 k "off + DATA_HEADER_SIZE"] by simp
  with assms(2) show ?thesis by (auto simp: DATA_HEADER_SIZE_def)
qed

text \<open>The store after the delete log was written.\<close>

lemma rep_logged_delete:
  assumes rep: "fds_rep L hs ds rs" and L: "length k = L"
    and w: "Flash_Delete (datastore ds) k (data_insertion_point (header ds)) = (True, f')"
  defines "ds1 \<equiv> ds\<lparr>datastore := f', header := (header ds)\<lparr>data_insertion_point :=
             data_insertion_point (header ds) + DATA_HEADER_SIZE + length k\<rparr>\<rparr>"
  shows "fds_rep L hs ds1 (rs @ [DeleteLog k])" and "ds_view ds1 = ds_view ds"
proof -
  let ?start = "data_start_point (header ds)"
  have log: "flash.log_at (datastore ds) ?start rs" and off: "data_insertion_point (header ds) = flash.log_end ?start rs"
    and cap: "fcap (datastore ds) \<le> 2 ^ 32" and ent: "entries_ok ds rs"
    using rep by (auto simp: fds_rep_def log_ok_def)
  have app: "flash_append (datastore ds) (DeleteLog k) (flash.log_end ?start rs) = (True, f')"
    using w off by simp
  have log': "flash.log_at f' ?start (rs @ [DeleteLog k])"
    using flash.log_append_ok [OF log app] Flash_Delete_ok [OF w cap] by blast
  show v: "ds_view ds1 = ds_view ds"
    using view_frame [OF ent log flash.log_append_any [OF log app]] by (simp add: ds1_def)
  show "fds_rep L hs ds1 (rs @ [DeleteLog k])"
    using rep L v log' Flash_Delete_cap [OF w]
    by (auto simp: fds_rep_def ds1_def geometry_ok_def log_ok_def counts_ok_def entries_ok_def
        flash.log_end_append entry_in_append)
qed

text \<open>Marking the entry found first, with the count of deletions.\<close>

definition delete_found :: "nat \<Rightarrow> fawnds \<Rightarrow> fawnds" where
  "delete_found i ds = (mark_deleted i ds)\<lparr>header := (header ds)\<lparr>deleted_elements := deleted_elements (header ds) + 1\<rparr>\<rparr>"

lemma delete_found_rep:
  assumes rep: "fds_rep L hs ds rs" and v: "ds_view ds i = Live k v"
  shows "fds_rep L hs (delete_found i ds) rs"
    and "(fds_map hs (delete_found i ds))(k := None) = (fds_map hs ds)(k := None)"
proof -
  have r: "geometry_ok ds" "log_ok L ds rs" "entries_ok ds rs" "counts_ok ds" "oa_inv (probes hs ds) (ds_view ds)"
    using rep by (auto simp: fds_rep_def)
  have s: "i < length (hash_table ds)" "entry_exists (hash_table ds ! i)"
    using view_live_exists [OF v] by auto
  note m = mark_deleted_parts [OF s] and mv = mark_deleted_view [OF s]
  have "unat (deleted_elements (header ds)) < unat (number_elements (header ds))"
    using r(4) m(4) by (auto simp: counts_ok_def)
  then have d: "unat (deleted_elements (header ds) + 1) = Suc (unat (deleted_elements (header ds)))"
    using unsigned_less [of "number_elements (header ds)", where ?'a = nat] by (rule unat_Suc_word)
  show "fds_rep L hs (delete_found i ds) rs"
    using m(1) [OF r(1)] m(2) [OF r(2)] m(3) [OF r(3)] m(4) r(4) oa_kill(1) [OF r(5) v] d rep
    by (simp add: fds_rep_def delete_found_def geometry_ok_def log_ok_def entries_ok_def counts_ok_def mv)
  show "(fds_map hs (delete_found i ds))(k := None) = (fds_map hs ds)(k := None)"
    using oa_kill(2) [OF r(5) v] by (auto simp: fds_map_def delete_found_def mv fun_eq_iff)
qed

lemma delete_found_done:
  assumes rep: "fds_rep L hs ds rs" and v: "ds_view ds i = Live k v" and L: "length k = L"
  shows "\<exists>ds'. Delete_stale hs k (delete_found i ds) = Ret ds' \<and> fds_rep L hs ds' rs \<and>
    fds_map hs ds' = (fds_map hs ds)(k := None)"
  using Delete_stale_refines [OF delete_found_rep(1) [OF rep v] L] delete_found_rep(2) [OF rep v] by auto

lemma Delete_log_refines:
  assumes rep: "fds_rep L hs ds rs" and L: "length k = L"
  shows "\<exists>b ds'. Delete_log hs ds (Some k) wl = Ret (b, ds') \<and>
    fds_map hs ds' = (if b then (fds_map hs ds)(k := None) else fds_map hs ds) \<and>
    fds_rep L hs ds' (if b \<and> wl then rs @ [DeleteLog k] else rs) \<and>
    (b \<longrightarrow> fds_map hs ds k \<noteq> None) \<and> (fds_map hs ds k \<noteq> None \<and> \<not> wl \<longrightarrow> b)"
proof -
  have r: "geometry_ok ds" "log_ok L ds rs" "entries_ok ds rs"
    using rep by (auto simp: fds_rep_def)
  have k: "k \<noteq> []" using r(2) L by (auto simp: log_ok_def)
  note tok = rep_table_ok [OF r(2,3)] and hok = rep_hashes [OF rep L]
  note find = FindHashIndex_eq [OF r(1) tok k hok]
  show ?thesis
  proof (cases "oa_find (ds_view ds) k (probes hs ds k)")
    case None
    then show ?thesis using rep find by (auto simp: Delete_log_def fds_map_def oa_lookup_def)
  next
    case (Some i)
    then have fi: "FindHashIndex hs ds k = Ret (Some i)" using find by simp
    note s = find_slot [OF fi r(1) tok k hok]
    obtain v where v: "ds_view ds i = Live k v" using s(3) by blast
    have some: "fds_map hs ds k \<noteq> None" using Some v by (simp add: fds_map_def oa_lookup_def)
    have valid: "entry_valid (hash_table ds ! i)" using s(2) by (simp add: entry_exists_def)
    show ?thesis
    proof (cases wl)
      case False
      obtain ds' where "Delete_stale hs k (delete_found i ds) = Ret ds'" "fds_rep L hs ds' rs"
        "fds_map hs ds' = (fds_map hs ds)(k := None)"
        using delete_found_done [OF rep v L] by blast
      with False fi some show ?thesis by (auto simp: Delete_log_def delete_found_def Let_def)
    next
      case True
      obtain ok f' where w: "Flash_Delete (datastore ds) k (data_insertion_point (header ds)) = (ok, f')"
        by fastforce
      show ?thesis
      proof (cases ok)
        case False
        have "flash.log_at f' (data_start_point (header ds)) rs"
          using r(2) w flash.log_append_any [of "datastore ds" _ rs "DeleteLog k" ok f'] by (simp add: log_ok_def)
        from rep_new_file [OF rep Flash_Delete_cap [OF w] this] show ?thesis
          using True False fi w valid by (auto simp: Delete_log_def fds_map_def)
      next
        case ok: True
        define ds1 where "ds1 = ds\<lparr>datastore := f', header := (header ds)\<lparr>data_insertion_point :=
             data_insertion_point (header ds) + DATA_HEADER_SIZE + length k\<rparr>\<rparr>"
        have rep1: "fds_rep L hs ds1 (rs @ [DeleteLog k])" and v1: "ds_view ds1 = ds_view ds"
          using rep_logged_delete [OF rep L] w ok by (auto simp: ds1_def)
        have m1: "fds_map hs ds1 = fds_map hs ds" using v1 by (simp add: fds_map_def ds1_def)
        obtain ds' where "Delete_stale hs k (delete_found i ds1) = Ret ds'"
          "fds_rep L hs ds' (rs @ [DeleteLog k])" "fds_map hs ds' = (fds_map hs ds1)(k := None)"
          using delete_found_done [OF rep1 _ L, of i v] v v1 by auto
        with True ok fi some valid w m1 show ?thesis
          by (auto simp: Delete_log_def delete_found_def Let_def ds1_def)
      qed
    qed
  qed
qed

section \<open>Creating a store\<close>

lemma smear_step:
  assumes "\<And>i. bit x i \<longleftrightarrow> (\<exists>d < m. bit y (i + d))"
  shows "bit (drop_bit m x OR x) i \<longleftrightarrow> (\<exists>d < 2 * m. bit y (i + d))"
proof -
  have "bit (drop_bit m x OR x) i \<longleftrightarrow> (\<exists>d < m. bit y (i + m + d)) \<or> (\<exists>d < m. bit y (i + d))"
    by (simp add: bit_or_iff bit_drop_bit_eq assms ac_simps)
  also have "\<dots> \<longleftrightarrow> (\<exists>d < 2 * m. bit y (i + d))"
  proof
    assume "\<exists>d < 2 * m. bit y (i + d)"
    then obtain d where d: "d < 2 * m" "bit y (i + d)" by blast
    show "(\<exists>d < m. bit y (i + m + d)) \<or> (\<exists>d < m. bit y (i + d))"
    proof (cases "d < m")
      case False
      with d show ?thesis by (intro disjI1 exI [of _ "d - m"]) auto
    qed (use d in blast)
  next
    assume "(\<exists>d < m. bit y (i + m + d)) \<or> (\<exists>d < m. bit y (i + d))"
    then show "\<exists>d < 2 * m. bit y (i + d)"
    proof
      assume "\<exists>d < m. bit y (i + m + d)"
      then obtain d where "d < m" "bit y (i + m + d)" by blast
      then show ?thesis by (intro exI [of _ "m + d"]) (auto simp: ac_simps)
    next
      assume "\<exists>d < m. bit y (i + d)"
      then obtain d where "d < m" "bit y (i + d)" by blast
      then show ?thesis by (intro exI [of _ d]) auto
    qed
  qed
  finally show ?thesis .
qed

lemma FindNextHashSize_bits:
  fixes number :: u32
  defines "n0 \<equiv> number - 1"
  shows "\<exists>n5. FindNextHashSize number = n5 + 1 \<and> (\<forall>i. bit n5 i \<longleftrightarrow> (\<exists>j \<ge> i. bit n0 j))"
proof -
  define n1 where "n1 = drop_bit 1 n0 OR n0"
  define n2 where "n2 = drop_bit 2 n1 OR n1"
  define n3 where "n3 = drop_bit 4 n2 OR n2"
  define n4 where "n4 = drop_bit 8 n3 OR n3"
  define n5 where "n5 = drop_bit 16 n4 OR n4"
  note step = smear_step [of _ _ n0]
  have "bit n0 i \<longleftrightarrow> (\<exists>d < 1. bit n0 (i + d))" for i by simp
  from step [OF this] have "bit n1 i \<longleftrightarrow> (\<exists>d < 2. bit n0 (i + d))" for i by (simp add: n1_def)
  from step [OF this] have "bit n2 i \<longleftrightarrow> (\<exists>d < 4. bit n0 (i + d))" for i by (simp add: n2_def)
  from step [OF this] have "bit n3 i \<longleftrightarrow> (\<exists>d < 8. bit n0 (i + d))" for i by (simp add: n3_def)
  from step [OF this] have "bit n4 i \<longleftrightarrow> (\<exists>d < 16. bit n0 (i + d))" for i by (simp add: n4_def)
  from step [OF this] have b5: "bit n5 i \<longleftrightarrow> (\<exists>d < 32. bit n0 (i + d))" for i by (simp add: n5_def)
  have "(\<exists>d < 32. bit n0 (i + d)) \<longleftrightarrow> (\<exists>j \<ge> i. bit n0 j)" for i
  proof
    assume "\<exists>j \<ge> i. bit n0 j"
    then obtain j where "i \<le> j" "bit n0 j" by blast
    moreover from this have "j < 32" using bit_imp_le_length [of n0 j] by simp
    ultimately show "\<exists>d < 32. bit n0 (i + d)" by (intro exI [of _ "j - i"]) auto
  qed (use le_add1 in blast)
  with b5 show ?thesis
    by (intro exI [of _ n5]) (simp add: FindNextHashSize_def Let_def n0_def n1_def n2_def n3_def n4_def n5_def)
qed

lemma FindNextHashSize_pow2:
  assumes "1 \<le> unat number" and "unat number \<le> 2 ^ 31"
  shows "\<exists>k \<le> 31. FindNextHashSize number = 2 ^ k \<and> unat number \<le> 2 ^ k \<and> 2 ^ k < 2 * unat number"
proof -
  define N where "N = unat number"
  define k where "k = (LEAST k. N \<le> 2 ^ k)"
  have k: "N \<le> 2 ^ k" unfolding k_def by (rule LeastI [of _ 31]) (use assms N_def in simp)
  have k31: "k \<le> 31" unfolding k_def by (rule Least_le) (use assms N_def in simp)
  have low: "0 < k \<Longrightarrow> 2 ^ (k - 1) < N"
    using not_less_Least [of "k - 1" "\<lambda>k. N \<le> 2 ^ k"] by (simp add: k_def)
  have n0: "unat (number - 1) = N - 1"
    using assms by (simp add: N_def unat_minus_one word_unat_eq_iff)
  have bits: "bit (number - 1) j \<longleftrightarrow> bit (N - 1) j" for j
    unfolding n0 [symmetric] by (simp add: bit_unsigned_iff)
  have "(\<exists>j \<ge> i. bit (number - 1) j) \<longleftrightarrow> i < k" for i
  proof
    assume "\<exists>j \<ge> i. bit (number - 1) j"
    then obtain j where j: "i \<le> j" "bit (N - 1) j" using bits by blast
    then have "2 ^ j \<le> N - 1" by (metis bit_nat_def div_less even_zero not_le_imp_less bit_iff_odd)
    with k assms N_def have "(2 :: nat) ^ j < 2 ^ k" by linarith
    with j show "i < k" by simp
  next
    assume "i < k"
    then have "0 < k" by simp
    have "N - 1 < 2 ^ k" "2 ^ (k - 1) \<le> N - 1" using k low [OF \<open>0 < k\<close>] assms N_def by linarith+
    then have "(N - 1) div 2 ^ (k - 1) = 1"
      using \<open>0 < k\<close> by (intro div_nat_eqI) (auto simp: power_eq_if)
    then have "bit (N - 1) (k - 1)" by (simp add: bit_iff_odd)
    then have "bit (number - 1) (k - 1)" using bits by blast
    with \<open>i < k\<close> show "\<exists>j \<ge> i. bit (number - 1) j" by (intro exI [of _ "k - 1"]) auto
  qed
  then obtain n5 where "FindNextHashSize number = n5 + 1" "\<forall>i. bit n5 i \<longleftrightarrow> i < k"
    using FindNextHashSize_bits [of number] by auto
  moreover from this have "n5 = mask k" using k31 by (intro bit_word_eqI) (auto simp: bit_mask_iff)
  ultimately have "FindNextHashSize number = 2 ^ k" by (simp add: mask_eq_exp_minus_1)
  moreover have "2 ^ k < 2 * N"
    using low assms N_def by (cases k) auto
  ultimately show ?thesis using k k31 N_def by blast
qed

lemma empty_store_rep:
  assumes "3 \<le> n" and "n \<le> 31" and "0 < L" and "fcap f \<le> 2 ^ 32" and "start \<le> length (fdata f)"
    and "hashtable_size h = 2 ^ n" and "number_elements h = 0" and "deleted_elements h = 0"
    and "data_start_point h = start" and "data_insertion_point h = start" and "hashes_ok L hs"
  defines "ds \<equiv> \<lparr>header = h, hash_table = replicate (2 ^ n) \<lparr>present_key = 0, entry_offset = 0\<rparr>, datastore = f\<rparr>"
  shows "fds_rep L hs ds []" and "fds_map hs ds = Map.empty"
proof -
  have v: "ds_view ds = (\<lambda>_. Unused)"
    by (rule ext) (simp add: ds_def view_def slot_view_def)
  then show "fds_map hs ds = Map.empty" by (simp add: fds_map_def oa_lookup_empty)
  have "unat (2 ^ n :: u64) = 2 ^ n" using assms(2) by (simp add: unat_exp)
  then show "fds_rep L hs ds []"
    using assms v by (auto simp: fds_rep_def geometry_ok_def log_ok_def flash.log_at_def entries_ok_def
        counts_ok_def entry_exists_def oa_inv_empty)
qed

lemma Create_From_Fd_rep:
  assumes "Create_FawnDS_From_Fd ps cap hts ne de mdr mlf kt = Some ds"
    and "4 < max (unat hts) (unat ((ne - de) * 2))" and "max (unat hts) (unat ((ne - de) * 2)) \<le> 2 ^ 31"
    and "cap \<le> 2 ^ 32" and "0 < L" and "hashes_ok L hs"
  shows "fds_rep L hs ds []" and "fds_map hs ds = Map.empty"
    and "max (unat hts) (unat ((ne - de) * 2)) \<le> unat (hashtable_size (header ds))"
proof -
  let ?N = "max hts ((ne - de) * 2)"
  have N: "unat ?N = max (unat hts) (unat ((ne - de) * 2))"
    by (simp add: max_def word_le_nat_alt)
  have "unat (ucast ?N :: u32) = unat ?N"
    using assms(3) N by (simp add: unsigned_ucast_eq take_bit_nat_eq_self)
  then obtain k where k: "k \<le> 31" "FindNextHashSize (ucast ?N) = 2 ^ k" "unat ?N \<le> 2 ^ k"
    using FindNextHashSize_pow2 [of "ucast ?N"] assms(2,3) N by auto
  have "(2 :: nat) ^ 2 < 2 ^ k" using less_le_trans [OF assms(2)] k(3) unfolding N by simp
  then have "3 \<le> k" using power_less_imp_less_exp [of "2 :: nat" 2 k] by simp
  have u: "(ucast (2 ^ k :: u32) :: u64) = 2 ^ k" "unat (2 ^ k :: u64) = 2 ^ k"
    using k(1) by (simp_all add: unat_exp word_unat_eq_iff [where 'a = 64] unsigned_ucast_eq take_bit_nat_eq_self)
  note ds = assms(1) [unfolded Create_FawnDS_From_Fd_def Let_def k(2) u]
  show "fds_rep L hs ds []" "fds_map hs ds = Map.empty"
    using ds assms(4-6) \<open>3 \<le> k\<close> k(1) by (auto split: if_splits
      intro!: empty_store_rep [where start = "header_size ps + HASH_ENTRY_SIZE * 2 ^ k"])
  show "max (unat hts) (unat ((ne - de) * 2)) \<le> unat (hashtable_size (header ds))"
    using ds u(2) k(3) N by (auto split: if_splits)
qed

section \<open>The contract of a key-value store\<close>

interpretation fawnds: kv_store "fds_inv L hs" "\<lambda>k. length k = L" "fds_map hs"
  "\<lambda>ds k v. Insert hs ds (Some k) (Some v)" "\<lambda>ds k. Delete hs ds (Some k)" for L hs
proof (unfold_locales, goal_cases)
  case (1 ds k v)
  then obtain rs where "fds_rep L hs ds rs" by (auto simp: fds_inv_def)
  from Insert_refines [OF this 1(2), of v] show ?case unfolding fds_inv_def by blast
next
  case (2 ds k)
  then obtain rs where "fds_rep L hs ds rs" by (auto simp: fds_inv_def)
  from Delete_log_refines [OF this 2(2), of True] show ?case unfolding fds_inv_def Delete_def by blast
qed

section \<open>When the operations succeed\<close>

lemma Flash_Write_iff:
  "fst (Flash_Write f k v off) \<longleftrightarrow> off + DATA_HEADER_SIZE + length k + length v \<le> fcap f"
proof -
  have ne: "record_bytes (Data k v) \<noteq> []"
    using record_size_pos by (metis length_greater_0_conv length_record_bytes)
  have "fst (Flash_Write f k v off) \<longleftrightarrow> fst (pwrite f (record_bytes (Data k v)) off) = int (record_size (Data k v))"
    by (auto simp: Flash_Write_def Let_def split: prod.splits)
  also have "\<dots> \<longleftrightarrow> off + record_size (Data k v) \<le> fcap f"
    using pwrite_complete_iff [of f "record_bytes (Data k v)" off] ne unfolding length_record_bytes by blast
  finally show ?thesis by (simp add: add.assoc)
qed

lemma Insert_flag:
  assumes "Insert hs ds (Some k) (Some v) = Ret (b, ds')"
  shows "b \<longleftrightarrow> number_elements (header ds) \<noteq> hashtable_size (header ds) \<and>
    FindHashIndexInsert hs ds k \<noteq> Ret None \<and>
    data_insertion_point (header ds) + DATA_HEADER_SIZE + length k + length v \<le> fcap (datastore ds)"
  using assms Flash_Write_iff [of "datastore ds" k v "data_insertion_point (header ds)"]
  by (cases rule: Insert_cases) auto

end
