(* ===== verification/HashUtil_Props.thy ===== *)
theory HashUtil_Props
  imports HashUtil
begin

text \<open>
  Laws of the hash functions: the reads of different widths agree, so the branches of
  \<^verbatim>\<open>BobHash\<close> do; every loop looks at the bytes of the key only; the mixing steps are injective.
\<close>

section \<open>Reads of different widths\<close>

lemma add_disjoint: "(\<And>n. n < LENGTH('a) \<Longrightarrow> \<not> (bit x n \<and> bit y n)) \<Longrightarrow> x + y = x OR (y :: 'a::len word)"
  by (rule disjunctive_add_eq_or, rule bit_word_eqI) (auto simp: bit_simps)

lemma bit_byte_high: "bit (b :: byte) n \<Longrightarrow> n < 8"
  using bit_imp_le_length [of b n] by simp

lemma u16_at_u8: "u16_at mem p = u8_at mem p + push_bit 8 (u8_at mem (p + 1))"
proof -
  have "u8_at mem p + push_bit 8 (u8_at mem (p + 1)) = u8_at mem p OR push_bit 8 (u8_at mem (p + 1))"
    by (rule add_disjoint) (auto simp: u8_at_def bit_simps dest: bit_byte_high)
  also have "\<dots> = u16_at mem p"
    by (rule bit_word_eqI) (auto simp: u16_at_def u8_at_def bit_simps dest: bit_byte_high)
  finally show ?thesis by simp
qed

lemma u32_at_u16: "u32_at mem p = u16_at mem p + push_bit 16 (u16_at mem (p + 2))"
proof -
  have "u16_at mem p + push_bit 16 (u16_at mem (p + 2)) = u16_at mem p OR push_bit 16 (u16_at mem (p + 2))"
    by (rule add_disjoint) (auto simp: u16_at_def bit_simps dest: bit_byte_high)
  also have "\<dots> = u32_at mem p"
    by (rule bit_word_eqI) (auto simp: u32_at_def u16_at_def bit_simps numeral_3_eq_3 dest: bit_byte_high)
  finally show ?thesis by simp
qed

lemma mask_bits: "(0xff :: u32) = mask 8" "(0xffff :: u32) = mask 16" "(0xffffff :: u32) = mask 24"
  by (simp_all add: mask_eq_exp_minus_1)

lemma u32_at_mask8: "u32_at mem p AND 0xff = u8_at mem p"
  unfolding mask_bits
  by (rule bit_word_eqI) (auto simp: u32_at_def u8_at_def bit_simps dest: bit_byte_high)

lemma u32_at_mask16: "u32_at mem p AND 0xffff = u16_at mem p"
  unfolding mask_bits
  by (rule bit_word_eqI) (auto simp: u32_at_def u16_at_def bit_simps dest: bit_byte_high)

lemma u32_at_mask24: "u32_at mem p AND 0xffffff = u16_at mem p + push_bit 16 (u8_at mem (p + 2))"
proof -
  have "u16_at mem p + push_bit 16 (u8_at mem (p + 2)) = u16_at mem p OR push_bit 16 (u8_at mem (p + 2))"
    by (rule add_disjoint) (auto simp: u16_at_def u8_at_def bit_simps dest: bit_byte_high)
  also have "\<dots> = u32_at mem p AND 0xffffff"
    unfolding mask_bits
    by (rule bit_word_eqI)
      (auto simp: u32_at_def u16_at_def u8_at_def bit_simps numeral_3_eq_3 dest: bit_byte_high)
  finally show ?thesis by simp
qed

lemmas u32_at_masked = u32_at_mask8 u32_at_mask16 u32_at_mask24

lemma u32_at_u8:
  "u32_at mem p = u8_at mem p + push_bit 8 (u8_at mem (p + 1)) + push_bit 16 (u8_at mem (p + 2)) + push_bit 24 (u8_at mem (p + 3))"
  by (simp add: u32_at_u16 u16_at_u8 push_bit_add numeral_3_eq_3)

section \<open>The branches of BobHash agree\<close>

lemma bob_loop16_eq: "bob_loop16 mem k len st = bob_loop32 mem k len st"
proof (induction mem k len st rule: bob_loop32.induct)
  case (1 mem k len a b c)
  then show ?case
    by (simp only: bob_loop16.simps bob_loop32.simps u32_at_u16 Let_def add.assoc) simp
qed

lemma bob_loop8_eq: "bob_loop8 mem k len st = bob_loop32 mem k len st"
proof (induction mem k len st rule: bob_loop32.induct)
  case (1 mem k len a b c)
  then show ?case
    by (simp only: bob_loop8.simps bob_loop32.simps u32_at_u8 Let_def add.assoc) simp
qed

lemma upto12: "len \<le> (12 :: nat) \<Longrightarrow> len = 0 \<or> len = 1 \<or> len = 2 \<or> len = 3 \<or> len = 4 \<or> len = 5 \<or> len = 6 \<or> len = 7
   \<or> len = 8 \<or> len = 9 \<or> len = 10 \<or> len = 11 \<or> len = 12"
  by presburger

lemma bob_tail16_eq: "len \<le> 12 \<Longrightarrow> bob_tail16 mem k len st = bob_tail32 mem k len st"
  unfolding bob_tail16_def bob_tail32_def Let_def u32_at_masked
  unfolding u32_at_u16
  by (drule upto12, cases st, elim disjE) (simp_all add: ac_simps)

lemma bob_tail8_eq: "len \<le> 12 \<Longrightarrow> bob_tail8 mem k len st = bob_tail32 mem k len st"
  unfolding bob_tail8_def bob_tail32_def Let_def u32_at_masked
  unfolding u32_at_u8 u16_at_u8
  by (drule upto12, cases st, elim disjE) (simp_all add: ac_simps)

lemma bob_tail32_valgrind_eq: "len \<le> 12 \<Longrightarrow> bob_tail32_valgrind mem k len st = bob_tail32 mem k len st"
  unfolding bob_tail32_valgrind_def bob_tail32_def Let_def u32_at_masked
  unfolding u32_at_u8 u16_at_u8
  by (drule upto12, cases st, elim disjE) (simp_all add: ac_simps)

lemma bob_loop32_rest: "bob_loop32 mem k len st = (st', k', n) \<Longrightarrow> n \<le> 12"
  by (induction mem k len st rule: bob_loop32.induct) (auto simp: Let_def split: if_splits)

lemma bob_run_branch: "bob_run v buf mem len st = bob_run False 0 mem len st"
proof -
  obtain st' k n where l: "bob_loop32 mem 0 len st = (st', k, n)"
    by (cases "bob_loop32 mem 0 len st") auto
  then show ?thesis
    using bob_loop32_rest [OF l]
    by (simp add: bob_run_def bob_loop16_eq bob_loop8_eq bob_tail16_eq bob_tail8_eq bob_tail32_valgrind_eq)
qed

lemma u_at_cong:
  "mem p = mem' p \<Longrightarrow> u8_at mem p = u8_at mem' p"
  "mem p = mem' p \<Longrightarrow> s8_at mem p = s8_at mem' p"
  "mem p = mem' p \<Longrightarrow> mem (p + 1) = mem' (p + 1) \<Longrightarrow> u16_at mem p = u16_at mem' p"
  by (simp_all add: u8_at_def s8_at_def u16_at_def)

lemma bob_loop8_cong:
  "(\<And>i. i < k + len \<Longrightarrow> mem i = mem' i) \<Longrightarrow>
    bob_loop8 mem k len st = bob_loop8 mem' k len st"
proof (induction mem k len st rule: bob_loop8.induct)
  case (1 mem k len a b c)
  have "u8_at mem (k + j) = u8_at mem' (k + j)" if "12 < len" "j < 12" for j
    using that 1(2) [of "k + j"] by (simp add: u8_at_def)
  from this [of 0] this [of 1] this [of 2] this [of 3] this [of 4] this [of 5] this [of 6]
    this [of 7] this [of 8] this [of 9] this [of 10] this [of 11]
  show ?case
    using 1 by (simp add: Let_def)
qed

lemma bob_loop8_span: "bob_loop8 mem k len st = (st', k', n) \<Longrightarrow> k' + n = k + len"
  by (induction mem k len st rule: bob_loop8.induct) (auto simp: Let_def split: if_splits)

lemma bob_tail8_cong:
  "(\<And>i. i < k + n \<Longrightarrow> mem i = mem' i) \<Longrightarrow> bob_tail8 mem k n st = bob_tail8 mem' k n st"
  by (simp add: bob_tail8_def u8_at_def cong: if_cong)

section \<open>Mixing is injective\<close>

text \<open>One line of the macros \<^verbatim>\<open>mix\<close> and \<^verbatim>\<open>final\<close>, with the roles of the three words rotated.\<close>

fun mix_round :: "nat \<Rightarrow> bob_state \<Rightarrow> bob_state" where
  "mix_round k (x, y, z) = (y, z + y, (x - z) XOR rot z k)"

fun final_round :: "nat \<Rightarrow> bob_state \<Rightarrow> bob_state" where
  "final_round k (x, y, z) = (y, (z XOR y) - rot y k, x)"

lemma mix_rounds:
  "mix st = mix_round 4 (mix_round 19 (mix_round 16 (mix_round 8 (mix_round 6 (mix_round 4 st)))))"
  by (cases st) (simp add: mix_def Let_def)

lemma final_rounds:
  "final_mix (a, b, c) = (case final_round 24 (final_round 14 (final_round 4 (final_round 16 (final_round 25 (final_round 11 (final_round 14 (a, b, c))))))) of (x, y, z) \<Rightarrow> (z, x, y))"
  by (simp add: final_mix_def Let_def)

lemma inj_xor_drop:
  assumes "0 < n"
  shows "inj (\<lambda>x :: 'a::len word. x XOR drop_bit n x)"
proof (rule injI)
  fix x y :: "'a word"
  assume e: "x XOR drop_bit n x = y XOR drop_bit n y"
  have b: "bit x i = bit y i" if "LENGTH('a) - d \<le> i" for d i
    using that
  proof (induction d arbitrary: i)
    case 0
    then show ?case by (auto dest: bit_imp_le_length)
  next
    case (Suc d)
    have "bit x (n + i) = bit y (n + i)" using Suc.prems assms by (intro Suc.IH) linarith
    moreover have "bit (x XOR drop_bit n x) i = bit (y XOR drop_bit n y) i" using e by simp
    ultimately show ?case by (auto simp: bit_simps)
  qed
  show "x = y" by (rule bit_word_eqI) (rule b [where d = "LENGTH('a)"], simp)
qed

lemma uint_take_bit_plus:
  "uint (take_bit n (a + c)) = take_bit (min n LENGTH('a)) (uint a + uint (c :: 'a::len word))"
  by (simp add: unsigned_take_bit_eq uint_word_ariths(1) flip: take_bit_eq_mod)

lemma take_bit_plus_cong: "take_bit n a = take_bit n b \<Longrightarrow> take_bit n (a + c) = take_bit n (b + c :: 'a::len word)"
proof -
  assume e: "take_bit n a = take_bit n b"
  let ?m = "min n LENGTH('a)"
  have t: "take_bit ?m (uint w) = uint (take_bit n w)" for w :: "'a word"
    by (cases "n \<le> LENGTH('a)") (simp_all add: min_def unsigned_take_bit_eq take_bit_word_eq_self take_bit_int_eq_self)
  have "take_bit ?m (uint w + uint c) = take_bit ?m (uint (take_bit n w) + uint (take_bit n c))" for w :: "'a word"
    using take_bit_add [of ?m "uint w" "uint c"] by (simp only: t)
  then show ?thesis
    by (simp only: word_uint_eq_iff uint_take_bit_plus e)
qed

lemma take_bit_plus_cancel: "take_bit n (a + c) = take_bit n (b + c :: 'a::len word) \<Longrightarrow> take_bit n a = take_bit n b"
  using take_bit_plus_cong [of n "a + c" "b + c" "- c"] by simp

lemma take_bit_Suc_iff: "take_bit (Suc n) a = take_bit (Suc n) (b :: 'a::len word) \<longleftrightarrow> take_bit n a = take_bit n b \<and> (bit a n = bit b n)"
proof
  assume e: "take_bit (Suc n) a = take_bit (Suc n) b"
  have "bit (take_bit (Suc n) a) i = bit (take_bit (Suc n) b) i" for i
    by (simp only: e)
  then have "bit a i = bit b i" if "i < Suc n" for i
    using that by (metis bit_take_bit_iff)
  then show "take_bit n a = take_bit n b \<and> (bit a n = bit b n)"
    by (auto intro!: bit_word_eqI simp: bit_take_bit_iff)
next
  assume e: "take_bit n a = take_bit n b \<and> (bit a n = bit b n)"
  then have "bit (take_bit n a) i = bit (take_bit n b) i" for i
    by simp
  then have "bit a i = bit b i" if "i < n" for i
    using that by (metis bit_take_bit_iff)
  then show "take_bit (Suc n) a = take_bit (Suc n) b"
    using e by (intro bit_word_eqI) (auto simp: bit_take_bit_iff less_Suc_eq)
qed

lemma inj_add_xor_push:
  assumes "0 < n"
  shows "inj (\<lambda>x :: 'a::len word. (x + c) XOR push_bit n x)"
proof (rule injI)
  fix x y :: "'a word"
  assume e: "(x + c) XOR push_bit n x = (y + c) XOR push_bit n y"
  have "take_bit i x = take_bit i y" for i
  proof (induction i)
    case 0
    then show ?case by simp
  next
    case (Suc i)
    have "bit ((x + c) XOR push_bit n x) i = bit ((y + c) XOR push_bit n y) i" using e by simp
    moreover have "bit (push_bit n x) i = bit (push_bit n y) i"
    proof (cases "n \<le> i")
      case True
      then have "bit (take_bit i x) (i - n) = bit (take_bit i y) (i - n)" using Suc by simp
      then show ?thesis using assms True by (auto simp: bit_simps dest: bit_imp_le_length)
    qed (simp add: bit_simps)
    ultimately have "bit (x + c) i = bit (y + c) i" by (auto simp: bit_xor_iff)
    then have "take_bit (Suc i) (x + c) = take_bit (Suc i) (y + c)"
      using take_bit_plus_cong [OF Suc] by (simp add: take_bit_Suc_iff)
    then show ?case by (rule take_bit_plus_cancel)
  qed
  from this [of "LENGTH('a)"] show "x = y" by simp
qed

lemma inj_mult_plus: "c * i = (1 :: 'a::len word) \<Longrightarrow> inj (\<lambda>x. x * c + d)"
  by (rule injI) (metis add_right_cancel mult.assoc mult.right_neutral)

lemma xor_right_cancel: "a XOR r = b XOR r \<longleftrightarrow> a = (b :: 'a::len word)"
proof
  assume "a XOR r = b XOR r"
  then have "(a XOR r) XOR r = (b XOR r) XOR r" by simp
  then show "a = b" by (simp add: xor.assoc)
qed simp

lemma inj_mix_round: "inj (mix_round k)"
  by (rule injI) (auto elim!: mix_round.elims simp: xor_right_cancel)

lemma inj_final_round: "inj (final_round k)"
  by (rule injI) (auto elim!: final_round.elims simp: xor_right_cancel)

lemma inj_mix: "inj mix"
proof -
  have eq: "mix = mix_round 4 \<circ> mix_round 19 \<circ> mix_round 16 \<circ> mix_round 8 \<circ> mix_round 6 \<circ> mix_round 4"
    by (rule ext) (simp only: mix_rounds comp_apply)
  show ?thesis unfolding eq by (intro inj_compose inj_mix_round)
qed

lemma inj_final_mix: "inj final_mix"
proof -
  have eq: "final_mix = (\<lambda>(x, y, z). (z, x, y)) \<circ> final_round 24 \<circ> final_round 14 \<circ> final_round 4
      \<circ> final_round 16 \<circ> final_round 25 \<circ> final_round 11 \<circ> final_round 14"
    by (rule ext) (auto simp only: final_rounds comp_apply split_paired_all)
  have p: "inj (\<lambda>(x :: u32, y :: u32, z :: u32). (z, x, y))"
    by (rule injI) auto
  show ?thesis unfolding eq by (intro inj_compose inj_final_round p)
qed

lemma inj_add_push:
  assumes "(1 + 2 ^ n) * i = (1 :: u32)"
  shows "inj (\<lambda>x :: u32. (x + d) + push_bit n x)"
  using inj_mult_plus [OF assms, of d] by (simp add: push_bit_eq_mult algebra_simps)

lemma inj_sub_push:
  assumes "(1 - 2 ^ n) * i = (1 :: u32)"
  shows "inj (\<lambda>x :: u32. (x + d) - push_bit n x)"
  using inj_mult_plus [OF assms, of d] by (simp add: push_bit_eq_mult algebra_simps)

lemma inj_xor_xor_drop:
  assumes "0 < n"
  shows "inj (\<lambda>x :: 'a::len word. (x XOR c) XOR drop_bit n x)"
proof (rule injI)
  fix x y :: "'a word"
  assume "(x XOR c) XOR drop_bit n x = (y XOR c) XOR drop_bit n y"
  then have "(x XOR drop_bit n x) XOR c = (y XOR drop_bit n y) XOR c"
    by (simp only: xor.assoc xor.commute [of c])
  then show "x = y"
    using inj_xor_drop [OF assms] by (auto simp: xor_right_cancel dest: injD)
qed

lemma inj_full_avalanche_1: "inj hashint_full_avalanche_1"
proof -
  have eq: "hashint_full_avalanche_1 = (\<lambda>a. (a XOR 0xb55a4f09) XOR drop_bit 16 a) \<circ> (\<lambda>a. (a + 0xfd7046c5) + push_bit 3 a)
      \<circ> (\<lambda>a. (a + 0xd3a2646c) XOR push_bit 9 a) \<circ> (\<lambda>a. (a + 0x165667b1) + push_bit 5 a)
      \<circ> (\<lambda>a. (a XOR 0xc761c23c) XOR drop_bit 19 a) \<circ> (\<lambda>a. (a + 0x7ed55d16) + push_bit 12 a)"
    by (rule ext) (simp only: hashint_full_avalanche_1_def Let_def comp_apply)
  have m: "inj (\<lambda>a :: u32. (a + 0xfd7046c5) + push_bit 3 a)" "inj (\<lambda>a :: u32. (a + 0x165667b1) + push_bit 5 a)"
    "inj (\<lambda>a :: u32. (a + 0x7ed55d16) + push_bit 12 a)"
    by (rule inj_add_push [where i = 954437177] inj_add_push [where i = 1041204193] inj_add_push [where i = 16773121], simp)+
  show ?thesis
    unfolding eq by (intro inj_compose inj_xor_xor_drop inj_add_xor_push m; simp)
qed

lemma inj_full_avalanche_2: "inj hashint_full_avalanche_2"
proof -
  have eq: "hashint_full_avalanche_2 = (\<lambda>a. a XOR drop_bit 15 a) \<circ> (\<lambda>a. (a + 0) XOR push_bit 10 a)
      \<circ> (\<lambda>a. (a + 0) - push_bit 3 a) \<circ> (\<lambda>a. (a + 0) XOR push_bit 4 a) \<circ> (\<lambda>a. (a + 0) - push_bit 9 a)
      \<circ> (\<lambda>a. a XOR drop_bit 17 a) \<circ> (\<lambda>a. (a + 0) - push_bit 6 a)"
    by (rule ext) (simp only: hashint_full_avalanche_2_def Let_def comp_apply add_0_right)
  have m: "inj (\<lambda>a :: u32. (a + 0) - push_bit 3 a)" "inj (\<lambda>a :: u32. (a + 0) - push_bit 9 a)"
    "inj (\<lambda>a :: u32. (a + 0) - push_bit 6 a)"
    by (rule inj_sub_push [where i = 1227133513] inj_sub_push [where i = 134480385] inj_sub_push [where i = 1090785345], simp)+
  show ?thesis
    unfolding eq by (intro inj_compose inj_xor_drop inj_add_xor_push m; simp)
qed

lemma inj_half_avalanche: "inj hashint_half_avalanche"
proof -
  have eq: "hashint_half_avalanche = (\<lambda>a. (a + 0x17bea992) + push_bit 7 a) \<circ> (\<lambda>a. (a XOR 0x5aedd67d) XOR drop_bit 3 a)
      \<circ> (\<lambda>a. (a + 0x9942f0a6) - push_bit 14 a) \<circ> (\<lambda>a. (a XOR 0xe4aa10ce) XOR drop_bit 5 a)
      \<circ> (\<lambda>a. (a + 0x479ab41d) + push_bit 8 a)"
    by (rule ext) (simp only: hashint_half_avalanche_def Let_def comp_apply)
  have m: "inj (\<lambda>a :: u32. (a + 0x17bea992) + push_bit 7 a)" "inj (\<lambda>a :: u32. (a + 0x479ab41d) + push_bit 8 a)"
    by (rule inj_add_push [where i = 266354561] inj_add_push [where i = 4278255361], simp)+
  have m': "inj (\<lambda>a :: u32. (a + 0x9942f0a6) - push_bit 14 a)"
    by (rule inj_sub_push [where i = 268451841]) simp
  show ?thesis
    unfolding eq by (intro inj_compose inj_xor_xor_drop m m'; simp)
qed

lemma inj_murmur_mult: "inj (\<lambda>x. x * murmur_m)"
  using inj_mult_plus [of murmur_m 3852147133 0] by (simp add: murmur_m_def)

lemma inj_murmur_k: "inj murmur_k"
proof -
  have eq: "murmur_k = (\<lambda>x. x * murmur_m) \<circ> (\<lambda>x. x XOR drop_bit 24 x) \<circ> (\<lambda>x. x * murmur_m)"
    by (rule ext) (simp add: murmur_k_def Let_def)
  show ?thesis
    unfolding eq by (intro inj_compose inj_murmur_mult inj_xor_drop; simp)
qed

lemma inj_murmur_final: "inj murmur_final"
proof -
  have eq: "murmur_final = (\<lambda>x. x XOR drop_bit 15 x) \<circ> (\<lambda>x. x * murmur_m) \<circ> (\<lambda>x. x XOR drop_bit 13 x)"
    by (rule ext) (simp add: murmur_final_def Let_def)
  show ?thesis
    unfolding eq by (intro inj_compose inj_murmur_mult inj_xor_drop; simp)
qed

section \<open>Loops read the key only\<close>

lemma fnv_shift_prime:
  "hval + (push_bit 1 hval + push_bit 4 hval + push_bit 7 hval + push_bit 8 hval + push_bit 24 hval) = hval * FNV_32_PRIME"
  by (simp add: push_bit_eq_mult FNV_32_PRIME_def algebra_simps)

lemma fnv_loop_prime: "FNVHash_loop plain mem bp n hval = FNVHash_loop True mem bp n hval"
  by (induction n arbitrary: bp hval) (simp_all only: FNVHash_loop.simps fnv_shift_prime Let_def if_cancel if_True)

lemma fnv_loop_cong:
  "(\<And>i. i < bp + n \<Longrightarrow> mem i = mem' i) \<Longrightarrow> FNVHash_loop plain mem bp n hval = FNVHash_loop plain mem' bp n hval"
  by (induction n arbitrary: bp hval) (simp_all add: u8_at_def)

lemma murmur_loop_cong:
  "(\<And>i. i < data + len \<Longrightarrow> mem i = mem' i) \<Longrightarrow> MurmurHash_loop mem data len h = MurmurHash_loop mem' data len h"
  by (induction mem data len h rule: MurmurHash_loop.induct) (simp add: u32_at_def)

lemma murmur_loop_span: "MurmurHash_loop mem data len h = (h', d, n) \<Longrightarrow> d + n = data + len \<and> n < 4"
  by (induction mem data len h rule: MurmurHash_loop.induct) (auto split: if_splits)

lemma superfast_loop_cong:
  "(\<And>i. i < data + 4 * n \<Longrightarrow> mem i = mem' i) \<Longrightarrow> SuperFastHash_loop mem data n h = SuperFastHash_loop mem' data n h"
  by (induction n arbitrary: data h) (simp_all add: u16_at_def)

lemma superfast_loop_span: "snd (SuperFastHash_loop mem data n h) = data + 4 * n"
  by (induction n arbitrary: data h) (simp_all add: Let_def)

section \<open>Properties\<close>

lemma inj_bij_finite: "inj f \<Longrightarrow> bij f" for f :: "'a::finite \<Rightarrow> 'a"
  by (simp add: bij_def finite_UNIV_inj_surj)

lemma bob_run_cong:
  assumes "\<And>i. i < len \<Longrightarrow> mem i = mem' i"
  shows "bob_run v buf mem len st = bob_run v' buf' mem' len st"
proof -
  have odd: "bob_run v b m len st = bob_run False 1 m len st" for v b m
    by (metis bob_run_branch)
  obtain st' k n where l: "bob_loop8 mem 0 len st = (st', k, n)"
    by (cases "bob_loop8 mem 0 len st") auto
  have "bob_loop8 mem' 0 len st = (st', k, n)"
    using l bob_loop8_cong [of 0 len mem mem' st] assms by simp
  moreover have "bob_tail8 mem k n st' = bob_tail8 mem' k n st'"
    using bob_loop8_span [OF l] assms by (intro bob_tail8_cong) simp
  ultimately have "bob_run False 1 mem len st = bob_run False 1 mem' len st"
    using l by (simp add: bob_run_def)
  then show ?thesis by (metis odd)
qed

lemma murmur_cong:
  assumes "\<And>i. i < len \<Longrightarrow> mem i = mem' i"
  shows "MurmurHash mem len seed = MurmurHash mem' len seed"
proof -
  obtain h d n where l: "MurmurHash_loop mem 0 len (seed XOR of_nat len) = (h, d, n)"
    by (cases "MurmurHash_loop mem 0 len (seed XOR of_nat len)") auto
  have l': "MurmurHash_loop mem' 0 len (seed XOR of_nat len) = (h, d, n)"
    using l murmur_loop_cong [of 0 len mem mem'] assms by simp
  have "mem (d + j) = mem' (d + j)" if "j < n" for j
    using murmur_loop_span [OF l] that assms by simp
  from this [of 0] this [of 1] this [of 2] have "murmur_tail mem d n h = murmur_tail mem' d n h"
    by (auto simp: murmur_tail_def u8_at_def)
  then show ?thesis by (simp add: MurmurHash_def l l' del: MurmurHash_loop.simps)
qed

lemma superfast_cong:
  assumes "\<And>i. i < len \<Longrightarrow> mem i = mem' i"
  shows "SuperFastHash null mem len = SuperFastHash null mem' len"
proof -
  obtain h d where l: "SuperFastHash_loop mem 0 (len div 4) (of_nat len) = (h, d)"
    by (cases "SuperFastHash_loop mem 0 (len div 4) (of_nat len)") auto
  have l': "SuperFastHash_loop mem' 0 (len div 4) (of_nat len) = (h, d)"
    using l superfast_loop_cong [of 0 "len div 4" mem mem'] assms by simp
  have d: "d = 4 * (len div 4)"
    using superfast_loop_span [of mem 0 "len div 4" "of_nat len"] l by simp
  have "mem (d + j) = mem' (d + j)" if "j < len mod 4" for j
    using that assms d by (intro assms) presburger
  from this [of 0] this [of 1] this [of 2] have "SuperFastHash_tail mem d (len mod 4) h = SuperFastHash_tail mem' d (len mod 4) h"
    by (auto simp: SuperFastHash_tail_def u16_at_def s8_at_def)
  then show ?thesis by (simp add: SuperFastHash_def l l')
qed

text \<open>
  Property C25. The Bob Jenkins hash of a key is a function of the key bytes and the seed alone: the address of the
  buffer, which selects between the 32-bit, the 16-bit and the byte-wise loop, the compile-time
  variant of the last block, and the bytes behind the buffer that the aligned branch reads and
  masks out have no influence, for the one-value and for the two-value function.
\<close>

theorem BobHash_depends_on_bytes:
  "BobHash v buf (mem_of s rest) (length s) seed = BobHash v' buf' (mem_of s rest') (length s) seed
   \<and> BobHash_idx v buf (mem_of s rest) (length s) i j = BobHash_idx v' buf' (mem_of s rest') (length s) i j"
  using bob_run_cong [of "length s" "mem_of s rest" "mem_of s rest'" v buf _ v' buf']
  by (simp add: BobHash_def BobHash_idx_def mem_of_def)

text \<open>
  The FNV, Murmur and SuperFast hashes read only the buffer: memories that agree on its \<open>len\<close>
  bytes give the same hash value; and the shift-and-add form of FNV equals the multiplication by
  the FNV prime.
\<close>

theorem hashes_read_the_buffer:
  assumes "\<And>i. i < len \<Longrightarrow> mem i = mem' i"
  shows "FNVHash plain mem len = FNVHash plain' mem' len \<and> MurmurHash mem len seed = MurmurHash mem' len seed
    \<and> SuperFastHash null mem len = SuperFastHash null mem' len"
proof -
  have "FNVHash plain mem len = FNVHash True mem len" "FNVHash plain' mem' len = FNVHash True mem' len"
    unfolding FNVHash_def by (rule fnv_loop_prime)+
  moreover have "FNVHash True mem len = FNVHash True mem' len"
    using assms unfolding FNVHash_def by (intro fnv_loop_cong) simp
  ultimately show ?thesis
    using murmur_cong [of len mem mem'] superfast_cong [of len mem mem'] assms by simp
qed

theorem hashes_read_the_buffer_witness:
  "FNVHash True (mem_of [1, 2, 3, 4, 5] (\<lambda>_. 0)) 5 = FNVHash False (mem_of [1, 2, 3, 4, 5] (\<lambda>_. 9)) 5
   \<and> MurmurHash (mem_of [1, 2, 3, 4, 5] (\<lambda>_. 0)) 5 7 = MurmurHash (mem_of [1, 2, 3, 4, 5] (\<lambda>_. 9)) 5 7
   \<and> SuperFastHash False (mem_of [1, 2, 3, 4, 5] (\<lambda>_. 0)) 5 = SuperFastHash False (mem_of [1, 2, 3, 4, 5] (\<lambda>_. 9)) 5"
  by (rule hashes_read_the_buffer) (simp add: mem_of_def)

text \<open>
  No mixing step loses information: the three integer hashes are bijections of the
  32-bit words, and \<^verbatim>\<open>mix\<close> and \<^verbatim>\<open>final\<close> are bijections of the three-word state.
\<close>

theorem integer_hashes_bijective:
  "bij hashint_full_avalanche_1 \<and> bij hashint_full_avalanche_2 \<and> bij hashint_half_avalanche \<and> bij mix \<and> bij final_mix"
  by (intro conjI inj_bij_finite inj_full_avalanche_1 inj_full_avalanche_2 inj_half_avalanche inj_mix inj_final_mix)

text \<open>
  For a fixed seed, MurmurHash does not collide on four-byte keys.
\<close>

theorem MurmurHash_word_keys_distinct:
  assumes "length s = 4" and "length t = 4" and "s \<noteq> t"
  shows "MurmurHash (mem_of s rest) 4 seed \<noteq> MurmurHash (mem_of t rest') 4 seed"
proof
  have four: "\<exists>a b c d. u = [a, b, c, d]" if "length u = 4" for u :: bytes
    using that by (auto simp: numeral_eq_Suc length_Suc_conv)
  have hash: "MurmurHash (mem_of u r) 4 seed = murmur_final ((seed XOR 4) * murmur_m XOR murmur_k (le_word u))"
    if "length u = 4" for u r
    using four [OF that] by (auto simp: MurmurHash_def murmur_tail_def u32_at_def mem_of_def)
  assume "MurmurHash (mem_of s rest) 4 seed = MurmurHash (mem_of t rest') 4 seed"
  then have "le_word s = (le_word t :: u32)"
    using assms inj_murmur_k inj_murmur_final
    by (simp add: hash inj_eq xor.commute [of _ "murmur_k _"] xor_right_cancel)
  then have "le_bytes 4 (le_word s :: u32) = le_bytes 4 (le_word t :: u32)" by simp
  then show False
    using assms le_bytes_le_word [of s, where 'a = 32] le_bytes_le_word [of t, where 'a = 32] by simp
qed

theorem MurmurHash_word_keys_distinct_witness:
  "MurmurHash (mem_of [1, 2, 3, 4] (\<lambda>_. 0)) 4 7 \<noteq> MurmurHash (mem_of [1, 2, 3, 5] (\<lambda>_. 0)) 4 7"
  by (rule MurmurHash_word_keys_distinct) simp_all

text \<open>
  The null hash is defined on every key that is long enough for its shift, but its guard
  subtracts unsigned values: for a key shorter than the shift the difference wraps around and the
  function reads in front of the buffer.
\<close>

theorem NullHash_guard_wraps:
  assumes "length buf < 2 ^ 64" and "unat s \<le> 8"
  shows "NullHash buf (of_nat (length buf)) s \<noteq> Fault \<longleftrightarrow> unat s \<le> length buf"
proof -
  let ?l = "of_nat (length buf) :: u64" and ?s = "ucast s :: u64"
  have l: "unat ?l = length buf" using assms by (simp add: unat_of_nat)
  have s: "unat ?s = unat s" using assms by (simp add: unsigned_ucast_eq take_bit_nat_eq_self)
  show ?thesis
  proof (cases "unat s \<le> length buf")
    case True
    have d: "unat (?l - ?s) = length buf - unat s"
      using True l s by (simp add: unat_sub word_le_nat_alt)
    have "char_at buf (?l - ?s - j) \<noteq> Fault" if "\<not> ?l - ?s < 4" "j \<in> {1, 2, 3, 4}" for j
    proof -
      have "4 \<le> length buf - unat s" "unat j \<le> 4" "0 < unat j" using that d by (auto simp: word_less_nat_alt)
      then have "unat (?l - ?s - j) < length buf"
        using d by (simp add: unat_sub word_le_nat_alt)
      then show ?thesis by (simp add: char_at_def)
    qed
    then show ?thesis using True by (simp add: NullHash_def Let_def not_Fault_iff) (metis not_Fault_iff)
  next
    case False
    have "?l < ?s" using False l s by (simp add: word_less_nat_alt)
    then have d: "unat (?l - ?s) = 2 ^ 64 + length buf - unat s"
      using False l s by (simp add: unat_sub_if_size word_size word_le_nat_alt)
    then have "\<not> ?l - ?s < 4" using assms False by (simp add: word_less_nat_alt)
    moreover have "unat (?l - ?s - 4) = 2 ^ 64 + length buf - unat s - 4"
      using d assms False by (simp add: unat_sub word_le_nat_alt)
    then have "char_at buf (?l - ?s - 4) = Fault" using assms False by (simp add: char_at_def)
    ultimately show ?thesis using False by (simp add: NullHash_def)
  qed
qed

theorem NullHash_guard_wraps_witness:
  "(nullhash2 [1, 2, 3, 4, 5, 6, 7, 8] \<noteq> Fault \<longleftrightarrow> unat (4 :: u32) \<le> length [1, 2, 3, 4, 5, 6, 7, 8 :: byte])
   \<and> (nullhash2 [1, 2, 3] \<noteq> Fault \<longleftrightarrow> unat (4 :: u32) \<le> length [1, 2, 3 :: byte]) \<and> nullhash2 [1, 2, 3] = Fault"
  using NullHash_guard_wraps [of "[1, 2, 3, 4, 5, 6, 7, 8]" 4] NullHash_guard_wraps [of "[1, 2, 3]" 4]
  by (simp add: nullhash2_def)

end
