(* ===== verification/FawnDS_Props.thy ===== *)
theory FawnDS_Props
  imports FawnDS_Correct HashUtil_Props
begin

text \<open>
  The properties of the FAWN data store: its operations implement a map, for whole runs and
  one by one, its counters cannot underflow, and three places where the code departs from
  what its callers expect. The witnesses use a store with eight slots and keys of two bytes.
\<close>

section \<open>A concrete store\<close>

definition demo_hash :: hashfn where
  "demo_hash k = Ret (of_nat (length k))"

definition demo_ds :: fawnds where
  "demo_ds = the (Create_FawnDS 1 1000 8 0 0 TEXT_KEYS)"

lemma demo_create: "Create_FawnDS 1 1000 8 0 0 TEXT_KEYS = Some demo_ds"
  by (simp add: demo_ds_def Create_FawnDS_def Create_FawnDS_From_Fd_def FindNextHashSize_def
      header_size_def DB_HEADER_SIZE_def HASH_ENTRY_SIZE_def Let_def)

lemma Create_rep:
  assumes "Create_FawnDS ps cap n mdr mlf kt = Some ds"
    and "5 \<le> unat n" and "unat n \<le> 1952257861" and "cap \<le> 2 ^ 32" and "0 < L" and "hashes_ok L hs"
  shows "fds_rep L hs ds []" and "fds_map hs ds = Map.empty"
    and "11 * unat n div 10 \<le> unat (hashtable_size (header ds))"
proof -
  have u: "unat (11 * n div 10) = 11 * unat n div 10"
    using assms(3) by (simp add: unat_div unat_word_ariths)
  have N: "max (unat (11 * n div 10)) (unat ((0 - 0) * 2 :: u64)) = 11 * unat n div 10"
    using u by simp
  have le: "4 < 11 * unat n div 10" "11 * unat n div 10 \<le> 2 ^ 31" using assms(2,3) by auto
  note c = Create_From_Fd_rep [OF assms(1) [unfolded Create_FawnDS_def] _ _ assms(4-6), unfolded N]
  show "fds_rep L hs ds []" using c(1) le by blast
  show "fds_map hs ds = Map.empty" using c(2) le by blast
  show "11 * unat n div 10 \<le> unat (hashtable_size (header ds))" using c(3) le by blast
qed

lemma demo_inv: "hashes_ok 2 hs \<Longrightarrow> fds_inv 2 hs demo_ds"
  using Create_rep(1) [OF demo_create, of 2 hs] by (auto simp: fds_inv_def)

text \<open>The hash functions of the program: the Bob hashes stay inside every key, the null hashes inside those of eight
  bytes and more.\<close>

lemma hashes_ok_demo [simp]: "hashes_ok L [demo_hash]"
  by (simp add: hashes_ok_def demo_hash_def)

lemma hashes_ok_Hashes [simp]: "hashes_ok L (Hashes_hashes addr rest)"
  by (simp add: hashes_ok_def Hashes_hashes_def)

lemma hashes_ok_new:
  assumes "hashes_ok L hs" and "kt = RANDOM_KEYS \<longrightarrow> 8 \<le> L \<and> L < 2 ^ 32"
  shows "hashes_ok L (FawnDS_new kt hs)"
proof (cases kt)
  case RANDOM_KEYS
  have "NullHash k (of_nat (length k)) s \<noteq> Fault" if "length k = L" "s \<in> {0, 4, 8}" for k s
    using that RANDOM_KEYS assms(2) NullHash_guard_wraps [of k s] by auto
  then show ?thesis
    using RANDOM_KEYS by (simp add: hashes_ok_def FawnDS_new_def nullhash1_def nullhash2_def nullhash3_def)
qed (use assms in \<open>simp add: FawnDS_new_def\<close>)

lemma Get_map:
  assumes "fds_inv L hs ds" and "length k = L"
  shows "Get hs ds (Some k) data =
    Ret (case fds_map hs ds k of None \<Rightarrow> (False, data) | Some v \<Rightarrow> (True, if v = [] then data else v))"
  using assms Get_refines unfolding fds_inv_def buffer_after_def by blast

definition demo_ops :: "(bytes, bytes) kv_op list" where
  "demo_ops = [Put [1, 2] [7, 8], Put [1, 3] [9], Remove [1, 2]]"

section \<open>A store is a map\<close>



text \<open>
  Property C4. \<^verbatim>\<open>Insert\<close> keeps the store well formed and updates the represented map at the
  key exactly when it returns true. It returns true exactly when the element counter has not
  reached the table size, the probe sequence has a slot for the key, and the record fits
  the device.
\<close>

theorem Insert_updates_map:
  assumes "fds_inv L hs ds" and "length k = L"
  shows "\<exists>b ds'. Insert hs ds (Some k) (Some v) = Ret (b, ds') \<and> fds_inv L hs ds' \<and>
    fds_map hs ds' = (if b then (fds_map hs ds)(k \<mapsto> v) else fds_map hs ds) \<and>
    (b \<longleftrightarrow> number_elements (header ds) \<noteq> hashtable_size (header ds) \<and>
      FindHashIndexInsert hs ds k \<noteq> Ret None \<and>
      data_insertion_point (header ds) + DATA_HEADER_SIZE + length k + length v \<le> fcap (datastore ds))"
proof -
  obtain rs where "fds_rep L hs ds rs" using assms(1) by (auto simp: fds_inv_def)
  from Insert_refines [OF this assms(2)] obtain b ds' where ins: "Insert hs ds (Some k) (Some v) = Ret (b, ds')"
    "fds_map hs ds' = (if b then (fds_map hs ds)(k \<mapsto> v) else fds_map hs ds)" "fds_inv L hs ds'"
    unfolding fds_inv_def by blast
  with Insert_flag [OF ins(1)] show ?thesis by blast
qed

theorem Insert_updates_map_witness:
  "\<exists>b ds'. Insert [demo_hash] demo_ds (Some [1, 2]) (Some [7]) = Ret (b, ds') \<and> fds_inv 2 [demo_hash] ds' \<and>
    fds_map [demo_hash] ds' = (if b then (fds_map [demo_hash] demo_ds)([1, 2] \<mapsto> [7]) else fds_map [demo_hash] demo_ds)"
  using Insert_updates_map [OF demo_inv [OF hashes_ok_demo], of "[1, 2]" "[7]"] by auto

text \<open>
  Property C5. \<^verbatim>\<open>Delete\<close> keeps the store well formed, removes the key from the represented
  map exactly when it returns true (also when stale entries of the key are left in the
  table), and never reports the deletion of a key that was not there.
\<close>

theorem Delete_removes_key:
  assumes "fds_inv L hs ds" and "length k = L"
  shows "\<exists>b ds'. Delete hs ds (Some k) = Ret (b, ds') \<and> fds_inv L hs ds' \<and>
    fds_map hs ds' = (if b then (fds_map hs ds)(k := None) else fds_map hs ds) \<and>
    (b \<longrightarrow> fds_map hs ds k \<noteq> None)"
proof -
  obtain rs where "fds_rep L hs ds rs" using assms(1) by (auto simp: fds_inv_def)
  from Delete_log_refines [OF this assms(2), of True] show ?thesis
    unfolding fds_inv_def Delete_def by blast
qed

theorem Delete_removes_key_witness:
  "\<exists>b ds'. Delete [demo_hash] demo_ds (Some [1, 2]) = Ret (b, ds') \<and> fds_inv 2 [demo_hash] ds' \<and>
    fds_map [demo_hash] ds' =
      (if b then (fds_map [demo_hash] demo_ds)([1, 2] := None) else fds_map [demo_hash] demo_ds)"
  using Delete_removes_key [OF demo_inv [OF hashes_ok_demo], of "[1, 2]"] by auto

text \<open>
  Property C6. On a well-formed store, in which all keys have one length \<open>L\<close> and the hash functions stay
  inside keys of that length, \<^verbatim>\<open>Get\<close> of a key of length \<open>L\<close> is the lookup of the represented map, and
  returns without a read outside the table or a stored key. (For keys of other lengths it is neither:
  \<open>Get_prefix_false_hit\<close> and \<open>Get_longer_key_overread\<close>.)
\<close>

theorem Get_looks_up:
  assumes "fds_inv L hs ds" and "length k = L"
  shows "Get hs ds (Some k) data =
    Ret (case fds_map hs ds k of None \<Rightarrow> (False, data) | Some v \<Rightarrow> (True, if v = [] then data else v))"
  using Get_map [OF assms] .

theorem Get_looks_up_witness:
  "Get [demo_hash] demo_ds (Some [1, 2]) [5] =
    Ret (case fds_map [demo_hash] demo_ds [1, 2] of None \<Rightarrow> (False, [5]) | Some v \<Rightarrow> (True, if v = [] then [5] else v))"
  using Get_looks_up [OF demo_inv [OF hashes_ok_demo], of "[1, 2]" "[5]"] by simp

text \<open>
  The element counters of a well-formed store are consistent: the 64-bit
  difference \<^verbatim>\<open>number_elements - deleted_elements\<close>, from which \<^verbatim>\<open>Rewrite\<close> sizes the new
  table, does not wrap around and is at least the number of entries in use.
\<close>

theorem live_count_no_underflow:
  assumes "fds_inv L hs ds"
  shows "unat (number_elements (header ds) - deleted_elements (header ds))
      = unat (number_elements (header ds)) - unat (deleted_elements (header ds))
    \<and> length (filter entry_exists (hash_table ds)) \<le> unat (number_elements (header ds) - deleted_elements (header ds))
    \<and> number_elements (header ds) \<le> hashtable_size (header ds)"
proof -
  have "length (filter entry_exists (hash_table ds)) + unat (deleted_elements (header ds)) \<le> unat (number_elements (header ds))"
    "unat (number_elements (header ds)) \<le> unat (hashtable_size (header ds))"
    using assms by (auto simp: fds_inv_def fds_rep_def counts_ok_def)
  moreover from this have "unat (number_elements (header ds) - deleted_elements (header ds))
      = unat (number_elements (header ds)) - unat (deleted_elements (header ds))"
    by (intro unat_sub) (simp add: word_le_nat_alt)
  ultimately show ?thesis by (simp add: word_le_nat_alt)
qed

theorem live_count_no_underflow_witness:
  "length (filter entry_exists (hash_table demo_ds))
    \<le> unat (number_elements (header demo_ds) - deleted_elements (header demo_ds))"
  using live_count_no_underflow [OF demo_inv [OF hashes_ok_demo]] by simp

text \<open>
  \<^verbatim>\<open>FindNextHashSize\<close> returns the least power of two that is not below its
  argument, for every argument up to \<open>2 ^ 31\<close>.
\<close>

theorem FindNextHashSize_least_power:
  assumes "1 \<le> unat number" and "unat number \<le> 2 ^ 31"
  shows "\<exists>k \<le> 31. FindNextHashSize number = 2 ^ k \<and> unat number \<le> 2 ^ k \<and> 2 ^ k < 2 * unat number"
  using FindNextHashSize_pow2 [OF assms] .

theorem FindNextHashSize_least_power_witness:
  "\<exists>k \<le> 31. FindNextHashSize 1000 = 2 ^ k \<and> (1000 :: nat) \<le> 2 ^ k \<and> (2 :: nat) ^ k < 2000"
  using FindNextHashSize_least_power [of 1000] by simp

section \<open>Where the code departs from a map\<close>

text \<open>
  The lookup of a key that was never inserted can succeed: with keys of
  different lengths, \<^verbatim>\<open>FawnDS_Flash::Read\<close> accepts a stored key that merely begins with the
  requested one, and returns bytes of that key as the value.
\<close>

theorem Get_prefix_false_hit:
  "bind_res (Insert [demo_hash] demo_ds (Some [1, 2, 1, 2]) (Some [7, 8])) (\<lambda>(ok, ds).
     bind_res (Get [demo_hash] ds (Some [1, 2]) []) (\<lambda>r. Ret (ok, r))) = Ret (True, True, [1, 2])"
  by code_simp

text \<open>
  The opposite case is an out-of-bounds read: looking up a key that is longer
  than the stored key of the same fragment compares past the end of the stored key.
\<close>

theorem Get_longer_key_overread:
  "bind_res (Insert [demo_hash] demo_ds (Some [1, 2]) (Some [7, 8])) (\<lambda>(ok, ds).
     Get [demo_hash] ds (Some [1, 2, 1, 2]) []) = Fault"
  by code_simp

text \<open>
  A store created for fewer than four keys has a table smaller than one run of
  probes, and a search that misses every slot of that table reads beyond it: with two keys in
  a table of two slots, the lookup of a third key does.
\<close>

definition tiny_ds :: fawnds where
  "tiny_ds = the (Create_FawnDS 1 1000 2 0 0 TEXT_KEYS)"

theorem tiny_table_out_of_bounds:
  "run_ops (\<lambda>ds k v. Insert [demo_hash] ds (Some k) (Some v)) (\<lambda>ds k. Delete [demo_hash] ds (Some k)) tiny_ds
     [Put [1, 2] [7], Put [1, 3] [8]] \<noteq> Fault
   \<and> bind_res (run_ops (\<lambda>ds k v. Insert [demo_hash] ds (Some k) (Some v)) (\<lambda>ds k. Delete [demo_hash] ds (Some k)) tiny_ds
     [Put [1, 2] [7], Put [1, 3] [8]]) (\<lambda>(bs, ds). Get [demo_hash] ds (Some [1, 4]) []) = Fault"
  by code_simp

text \<open>
  In a store with random keys the insertion of a key of fewer than four bytes reads outside the key as soon as the
  first run of probes is full: the second null hash subtracts four from the length without a sign.
\<close>

theorem short_random_key_overread:
  assumes "length k < 4" and "number_elements (header ds) \<noteq> hashtable_size (header ds)"
    and "FindHashIndexInsert_probe (hash_table ds) (datastore ds) k 0 PROBES_BEFORE_REHASH = Ret ProbeNext"
  shows "Insert (FawnDS_new RANDOM_KEYS hs) ds (Some k) (Some v) = Fault"
proof -
  have "nullhash1 k = Ret 0"
    using assms(1) by (simp add: nullhash1_def NullHash_def word_less_nat_alt unat_of_nat)
  moreover have "nullhash2 k = Fault"
    using NullHash_guard_wraps [of k 4] assms(1) by (simp add: nullhash2_def)
  moreover have "hash_index_start sz 0 = 0" for sz by (simp add: hash_index_start_def)
  ultimately show ?thesis
    using assms(2,3) by (simp add: Insert_def FindHashIndexInsert_def FawnDS_new_def)
qed

text \<open>
  The constructor of a store with random keys changes the hash functions of every other store of the process: a key
  that was found before is missed when the slot that the first null hash selects is unused.
\<close>

theorem new_store_switches_hashes:
  assumes "fds_inv L hs ds" and "length k = L" and "fds_map hs ds k = Some v"
    and "nullhash1 k = Ret ik" and "\<not> entry_valid (hash_table ds ! hash_index_start (hashtable_size (header ds)) ik)"
  shows "fst (the_ret (Get hs ds (Some k) data)) \<and> Get (FawnDS_new RANDOM_KEYS hs) ds (Some k) data = Ret (False, data)"
proof -
  let ?i = "hash_index_start (hashtable_size (header ds)) ik"
  have "?i < length (hash_table ds)"
    using assms(1) geometry_start [of ds ik] by (auto simp: fds_inv_def fds_rep_def PROBES_BEFORE_REHASH_def)
  then have "Get_probe (hash_table ds) (datastore ds) k data ?i (Suc 7) = Ret ProbeMiss"
    unfolding Get_probe.simps using assms(5) by simp
  then have "Get (FawnDS_new RANDOM_KEYS hs) ds (Some k) data = Ret (False, data)"
    using assms(4) by (simp add: Get_def FawnDS_new_def PROBES_BEFORE_REHASH_def)
  moreover have "fst (the_ret (Get hs ds (Some k) data))" by (simp add: Get_map [OF assms(1,2)] assms(3))
  ultimately show ?thesis by blast
qed

end
