(* ===== verification/FawnDS_Disk.thy ===== *)
theory FawnDS_Disk
  imports FawnDS_Correct Dbid
begin

text \<open>
  The part of \<^verbatim>\<open>fawnds/fawnds.cc\<close> that keeps the header and the hash table on disk: the range of a store,
  \<^verbatim>\<open>WriteHashtableToFile\<close>, \<^verbatim>\<open>ReadHashtableFromFile\<close> and opening an existing file. A store that wrote its
  table is the same store after it is opened again.
\<close>

section \<open>The bytes of the header and of the table\<close>

text \<open>The packed \<^verbatim>\<open>struct DbHeader\<close>; \<^verbatim>\<open>keyType\<close> is a four-byte enumeration, \<^verbatim>\<open>off_t\<close> has eight bytes.\<close>

definition key_type_word :: "key_type \<Rightarrow> u32" where
  "key_type_word kt = (case kt of TEXT_KEYS \<Rightarrow> 0 | RANDOM_KEYS \<Rightarrow> 1)"

definition dbheader_bytes :: "db_header \<Rightarrow> bytes" where
  "dbheader_bytes h =
     le_bytes 8 (magic_number h) @ le_bytes 8 (hashtable_size h) @ le_bytes 8 (number_elements h)
   @ le_bytes 8 (deleted_elements h) @ le_bytes 8 (max_deleted_ratio h) @ le_bytes 8 (max_load_factor h)
   @ le_bytes 4 (key_type_word (keyFormat h))
   @ le_bytes 8 (of_nat (data_insertion_point h) :: u64) @ le_bytes 8 (of_nat (data_start_point h) :: u64)
   @ startID h @ endID h"

definition field :: "nat \<Rightarrow> nat \<Rightarrow> bytes \<Rightarrow> bytes" where
  "field off n bs = take n (drop off bs)"

definition dbheader_of_bytes :: "bytes \<Rightarrow> db_header" where
  "dbheader_of_bytes bs =
    \<lparr>magic_number = le_word (field 0 8 bs), hashtable_size = le_word (field 8 8 bs), number_elements = le_word (field 16 8 bs),
     deleted_elements = le_word (field 24 8 bs), max_deleted_ratio = le_word (field 32 8 bs),
     max_load_factor = le_word (field 40 8 bs),
     keyFormat = (if (le_word (field 48 4 bs) :: u32) = 0 then TEXT_KEYS else RANDOM_KEYS),
     data_insertion_point = unat (le_word (field 52 8 bs) :: u64), data_start_point = unat (le_word (field 60 8 bs) :: u64),
     startID = field 68 20 bs, endID = field 88 20 bs\<rparr>"

definition entry_bytes :: "hash_entry \<Rightarrow> bytes" where
  "entry_bytes e = le_bytes 2 (present_key e) @ le_bytes 4 (entry_offset e)"

definition entry_of_bytes :: "bytes \<Rightarrow> hash_entry" where
  "entry_of_bytes bs = \<lparr>present_key = le_word (take 2 bs), entry_offset = le_word (take 4 (drop 2 bs))\<rparr>"

definition table_bytes :: "hash_entry list \<Rightarrow> bytes" where
  "table_bytes t = concat (map entry_bytes t)"

definition table_of_bytes :: "nat \<Rightarrow> bytes \<Rightarrow> hash_entry list" where
  "table_of_bytes n bs = map (\<lambda>i. entry_of_bytes (drop (HASH_ENTRY_SIZE * i) bs)) [0..<n]"

section \<open>Writing\<close>

definition WriteOnlyHeaderToFile :: "fawnds \<Rightarrow> bool \<times> fawnds" where
  "WriteOnlyHeaderToFile ds =
    (let (n, f) = pwrite (datastore ds) (dbheader_bytes (header ds)) 0
     in (n = int DB_HEADER_SIZE, ds\<lparr>datastore := f\<rparr>))"

text \<open>The loop of \<^verbatim>\<open>WriteHashtableToFile\<close> always writes from the start of the table, also after a short
  write, and a failed write ends it like a complete one.\<close>

function write_table :: "os_file \<Rightarrow> bytes \<Rightarrow> nat \<Rightarrow> nat \<Rightarrow> os_file" where
  "write_table f buf len off =
    (case pwrite f (take len buf) off of
       (n, f') \<Rightarrow> if 0 < n then write_table f' buf (len - nat n) (off + nat n) else f')"
  by pat_completeness auto
termination
  by (relation "measure (\<lambda>(f, buf, len, off). len)") (auto simp: pwrite_def Let_def split: if_splits)

declare write_table.simps [simp del]

definition WriteHashtableToFile :: "nat \<Rightarrow> fawnds \<Rightarrow> bool \<times> fawnds" where
  "WriteHashtableToFile pagesize ds =
    (case WriteOnlyHeaderToFile ds of
       (False, ds) \<Rightarrow> (False, ds)
     | (True, ds) \<Rightarrow>
         (True, ds\<lparr>datastore := write_table (datastore ds) (table_bytes (hash_table ds))
            (HASH_ENTRY_SIZE * unat (hashtable_size (header ds))) (header_size pagesize)\<rparr>))"

text \<open>The range a store is responsible for.\<close>

definition setStartID :: "fawnds \<Rightarrow> dbid \<Rightarrow> bool \<times> fawnds" where
  "setStartID ds sid = WriteOnlyHeaderToFile (ds\<lparr>header := (header ds)\<lparr>startID := take (unat DBID_LENGTH) (dbid_value sid)\<rparr>\<rparr>)"

definition setEndID :: "fawnds \<Rightarrow> dbid \<Rightarrow> bool \<times> fawnds" where
  "setEndID ds eid = WriteOnlyHeaderToFile (ds\<lparr>header := (header ds)\<lparr>endID := take (unat DBID_LENGTH) (dbid_value eid)\<rparr>\<rparr>)"

definition getStartID :: "fawnds \<Rightarrow> dbid" where
  "getStartID ds = DBID_Init (startID (header ds)) DBID_LENGTH"

definition getEndID :: "fawnds \<Rightarrow> dbid" where
  "getEndID ds = DBID_Init (endID (header ds)) DBID_LENGTH"

section \<open>Reading\<close>

text \<open>The loop of \<^verbatim>\<open>ReadHashtableFromFile\<close> advances its destination in table entries by the number of
  bytes it has read, so a second chunk would land outside the table.\<close>

function read_table :: "os_file \<Rightarrow> bytes \<Rightarrow> nat \<Rightarrow> nat \<Rightarrow> nat \<Rightarrow> bytes res" where
  "read_table f buf len off h_off =
    (let d = pread f len off
     in if d = [] then Ret buf
        else if length buf < HASH_ENTRY_SIZE * h_off + length d then Fault
        else read_table f (take (HASH_ENTRY_SIZE * h_off) buf @ d @ drop (HASH_ENTRY_SIZE * h_off + length d) buf)
               (len - length d) (off + length d) (h_off + length d))"
  by pat_completeness auto
termination
  by (relation "measure (\<lambda>(f, buf, len, off, h_off). len)") (auto simp: pread_def)

declare read_table.simps [simp del]

text \<open>\<open>garbage\<close> is what \<^verbatim>\<open>malloc\<close> leaves in the table; memory allocation is taken to succeed.\<close>

definition ReadHashtableFromFile :: "nat \<Rightarrow> bytes \<Rightarrow> os_file \<Rightarrow> fawnds option res" where
  "ReadHashtableFromFile pagesize garbage f =
    (let hb = pread f DB_HEADER_SIZE 0
     in if length hb \<noteq> DB_HEADER_SIZE then Ret None
        else
          (let h = dbheader_of_bytes hb;
               n = unat (hashtable_size h);
               buf = take (HASH_ENTRY_SIZE * n) (garbage @ replicate (HASH_ENTRY_SIZE * n) 0)
           in bind_res (read_table f buf (HASH_ENTRY_SIZE * n) (header_size pagesize) 0) (\<lambda>tb.
                Ret (Some \<lparr>header = h, hash_table = table_of_bytes n tb, datastore = f\<rparr>))))"

text \<open>
  \<^verbatim>\<open>Open_FawnDS\<close> on the file of that name; \<open>None\<close> is a file that cannot be opened. The key type only goes
  to the constructor: the result pairs the global table of hash functions with the store.
\<close>

definition Open_FawnDS :: "nat \<Rightarrow> bytes \<Rightarrow> key_type \<Rightarrow> hashfn list \<Rightarrow> os_file option \<Rightarrow> (hashfn list \<times> fawnds option) res" where
  "Open_FawnDS pagesize garbage kt hashes fo =
    (let hashes' = FawnDS_new kt hashes
     in case fo of
          None \<Rightarrow> Ret (hashes', None)
        | Some f \<Rightarrow>
            if length (fdata f) < DB_HEADER_SIZE then Ret (hashes', None)
            else bind_res (ReadHashtableFromFile pagesize garbage f) (\<lambda>r. Ret (hashes', r)))"

section \<open>Round trips of the encodings\<close>

lemma length_dbheader_bytes:
  "length (startID h) = 20 \<Longrightarrow> length (endID h) = 20 \<Longrightarrow> length (dbheader_bytes h) = DB_HEADER_SIZE"
  by (simp add: dbheader_bytes_def DB_HEADER_SIZE_def)

lemma dbheader_roundtrip:
  assumes "length (startID h) = 20" and "length (endID h) = 20"
    and "data_insertion_point h < 2 ^ 64" and "data_start_point h < 2 ^ 64"
  shows "dbheader_of_bytes (dbheader_bytes h) = h"
proof -
  have o: "unat (of_nat (data_insertion_point h) :: u64) = data_insertion_point h"
    "unat (of_nat (data_start_point h) :: u64) = data_start_point h"
    using assms(3,4) by (simp_all add: unat_of_nat)
  have k: "(if key_type_word (keyFormat h) = 0 then TEXT_KEYS else RANDOM_KEYS) = keyFormat h"
    by (cases "keyFormat h") (simp_all add: key_type_word_def)
  show ?thesis
    unfolding dbheader_bytes_def dbheader_of_bytes_def field_def using assms(1,2) o k by (cases h) simp
qed

lemma length_entry_bytes [simp]: "length (entry_bytes e) = HASH_ENTRY_SIZE"
  by (simp add: entry_bytes_def HASH_ENTRY_SIZE_def)

lemma entry_roundtrip: "entry_of_bytes (entry_bytes e @ rest) = e"
  by (cases e) (simp add: entry_bytes_def entry_of_bytes_def)

lemma length_table_bytes [simp]: "length (table_bytes t) = HASH_ENTRY_SIZE * length t"
  by (induction t) (simp_all add: table_bytes_def)

lemma drop_table_bytes: "drop (HASH_ENTRY_SIZE * i) (table_bytes t) = table_bytes (drop i t)"
  by (induction t arbitrary: i) (auto simp: table_bytes_def drop_Cons split: nat.split)

lemma table_roundtrip: "table_of_bytes (length t) (table_bytes t) = t"
proof (rule nth_equalityI)
  show "length (table_of_bytes (length t) (table_bytes t)) = length t" by (simp add: table_of_bytes_def)
next
  fix i assume "i < length (table_of_bytes (length t) (table_bytes t))"
  then have i: "i < length t" by (simp add: table_of_bytes_def)
  then have "drop i t = t ! i # drop (Suc i) t" by (simp add: Cons_nth_drop_Suc)
  then have "table_bytes (drop i t) = entry_bytes (t ! i) @ table_bytes (drop (Suc i) t)" by (simp add: table_bytes_def)
  then show "table_of_bytes (length t) (table_bytes t) ! i = t ! i"
    using i by (simp add: table_of_bytes_def drop_table_bytes entry_roundtrip)
qed

section \<open>Writing and reading back\<close>

lemma read_write_at_after:
  assumes "off + length w \<le> o'" and "off \<le> length d"
  shows "take n (drop o' (write_at d off w)) = take n (drop o' d)"
proof -
  have "write_at d off w = take off d @ w @ drop (off + length w) d" using assms(2) by (simp add: write_at_def)
  moreover have "length (take off d) = off" using assms(2) by simp
  ultimately have "drop o' (write_at d off w) = drop (o' - (off + length w)) (drop (off + length w) d)"
    using assms(1) by (simp del: length_take drop_drop)
  then show ?thesis using assms(1) by simp
qed

lemma pwrite_inside:
  assumes "bs \<noteq> []" and "off + length bs \<le> fcap f"
  shows "pwrite f bs off = (int (length bs), f\<lparr>fdata := write_at (fdata f) off bs\<rparr>)"
  using assms by (cases bs) (auto simp: pwrite_def Let_def)

lemma write_table_inside:
  assumes "off + length buf \<le> fcap f" and "buf \<noteq> []"
  shows "write_table f buf (length buf) off = f\<lparr>fdata := write_at (fdata f) off buf\<rparr>"
proof -
  have "write_table f' buf 0 off' = f'" for f' off' by (subst write_table.simps) (simp add: pwrite_def)
  then show ?thesis using assms by (subst write_table.simps) (simp add: pwrite_inside)
qed

lemma read_table_inside:
  assumes "off + length buf \<le> length (fdata f)" and "buf \<noteq> []"
  shows "read_table f buf (length buf) off 0 = Ret (pread f (length buf) off)"
proof -
  have l: "length (pread f (length buf) off) = length buf" using assms(1) by (simp add: pread_length)
  have z: "read_table f b 0 off' h = Ret b" for b off' h by (subst read_table.simps) (simp add: pread_def)
  show ?thesis using assms(2) l by (subst read_table.simps) (auto simp: Let_def z simp del: length_greater_0_conv)
qed

text \<open>The header and the table lie before the log, inside the file.\<close>

definition disk_ok :: "nat \<Rightarrow> fawnds \<Rightarrow> bool" where
  "disk_ok ps ds \<longleftrightarrow> 0 < ps \<and> header_size ps + HASH_ENTRY_SIZE * length (hash_table ds) \<le> data_start_point (header ds)
    \<and> length (hash_table ds) = unat (hashtable_size (header ds)) \<and> hash_table ds \<noteq> []
    \<and> data_start_point (header ds) \<le> data_insertion_point (header ds)
    \<and> data_insertion_point (header ds) \<le> length (fdata (datastore ds))
    \<and> length (fdata (datastore ds)) \<le> fcap (datastore ds) \<and> fcap (datastore ds) \<le> 2 ^ 32
    \<and> length (startID (header ds)) = 20 \<and> length (endID (header ds)) = 20"

lemma header_size_covers: "0 < ps \<Longrightarrow> DB_HEADER_SIZE < header_size ps"
  using dividend_less_div_times [of ps DB_HEADER_SIZE] by (simp add: header_size_def)

text \<open>The file after \<^verbatim>\<open>WriteHashtableToFile\<close>: the header and the table are there, the log is untouched.\<close>

lemma WriteHashtable_file:
  assumes "disk_ok ps ds"
  obtains f where "WriteHashtableToFile ps ds = (True, ds\<lparr>datastore := f\<rparr>)" "fcap f = fcap (datastore ds)"
    "length (fdata f) = length (fdata (datastore ds))"
    "pread f DB_HEADER_SIZE 0 = dbheader_bytes (header ds)"
    "pread f (HASH_ENTRY_SIZE * length (hash_table ds)) (header_size ps) = table_bytes (hash_table ds)"
    "\<And>n off. data_start_point (header ds) \<le> off \<Longrightarrow> pread f n off = pread (datastore ds) n off"
proof -
  let ?f = "datastore ds" and ?hb = "dbheader_bytes (header ds)" and ?tb = "table_bytes (hash_table ds)"
  have d: "0 < ps" "header_size ps + HASH_ENTRY_SIZE * length (hash_table ds) \<le> data_start_point (header ds)"
    "length (hash_table ds) = unat (hashtable_size (header ds))" "hash_table ds \<noteq> []"
    "data_start_point (header ds) \<le> length (fdata ?f)" "length (fdata ?f) \<le> fcap ?f"
    "length (startID (header ds)) = 20" "length (endID (header ds)) = 20"
    using assms unfolding disk_ok_def by auto
  have hl: "length ?hb = DB_HEADER_SIZE" using d(7,8) by (rule length_dbheader_bytes)
  have hs: "DB_HEADER_SIZE < header_size ps" by (rule header_size_covers [OF d(1)])
  have ne: "?hb \<noteq> []" "?tb \<noteq> []" using hl d(4) by (auto simp: DB_HEADER_SIZE_def HASH_ENTRY_SIZE_def simp flip: length_greater_0_conv)
  define f1 where "f1 = ?f\<lparr>fdata := write_at (fdata ?f) 0 ?hb\<rparr>"
  define f where "f = f1\<lparr>fdata := write_at (fdata f1) (header_size ps) ?tb\<rparr>"
  have l1: "length (fdata f1) = length (fdata ?f)" "fcap f1 = fcap ?f" using d(2,5) hl hs by (simp_all add: f1_def)
  have w1: "WriteOnlyHeaderToFile ds = (True, ds\<lparr>datastore := f1\<rparr>)"
    using pwrite_inside [OF ne(1), of 0 ?f] d(2,5,6) hl hs by (simp add: WriteOnlyHeaderToFile_def f1_def)
  have "write_table f1 ?tb (length ?tb) (header_size ps) = f"
    unfolding f_def by (rule write_table_inside) (use d(2,5,6) l1 ne(2) in simp_all)
  then have w: "WriteHashtableToFile ps ds = (True, ds\<lparr>datastore := f\<rparr>)"
    using w1 d(3) by (simp add: WriteHashtableToFile_def)
  have lf: "length (fdata f) = length (fdata ?f)" "fcap f = fcap ?f" using d(2,5) l1 by (simp_all add: f_def)
  have r1: "pread f DB_HEADER_SIZE 0 = ?hb"
  proof -
    have "pread f DB_HEADER_SIZE 0 = pread f1 DB_HEADER_SIZE 0"
      using hs l1 d(2,5) read_write_at_before [of 0 DB_HEADER_SIZE "header_size ps" "fdata f1" ?tb] by (simp add: f_def pread_def)
    then show ?thesis using read_write_at_same [of ?hb 0 "fdata ?f"] hl by (simp add: f1_def pread_def)
  qed
  have r2: "pread f (HASH_ENTRY_SIZE * length (hash_table ds)) (header_size ps) = ?tb"
    using read_write_at_same [of ?tb "header_size ps" "fdata f1"] by (simp add: f_def pread_def)
  have r3: "pread f n off = pread ?f n off" if "data_start_point (header ds) \<le> off" for n off
  proof -
    have "pread f n off = pread f1 n off"
      using that d(2,5) l1 by (simp add: f_def pread_def read_write_at_after)
    also have "\<dots> = pread ?f n off"
      using that d(2) hl hs by (simp add: f1_def pread_def read_write_at_after)
    finally show ?thesis .
  qed
  show thesis by (rule that [OF w lf(2,1) r1 r2 r3])
qed

lemma Open_after_write:
  assumes "disk_ok ps ds" and "WriteHashtableToFile ps ds = (b, ds')"
  shows "b" "Open_FawnDS ps garbage kt hs (Some (datastore ds')) = Ret (FawnDS_new kt hs, Some ds')"
proof -
  obtain f where f: "WriteHashtableToFile ps ds = (True, ds\<lparr>datastore := f\<rparr>)"
    "length (fdata f) = length (fdata (datastore ds))"
    "pread f DB_HEADER_SIZE 0 = dbheader_bytes (header ds)"
    "pread f (HASH_ENTRY_SIZE * length (hash_table ds)) (header_size ps) = table_bytes (hash_table ds)"
    by (rule WriteHashtable_file [OF assms(1)])
  have ds': "b" "ds' = ds\<lparr>datastore := f\<rparr>" using f(1) assms(2) by simp_all
  show "b" by (rule ds'(1))
  let ?n = "HASH_ENTRY_SIZE * length (hash_table ds)"
  let ?buf = "take ?n (garbage @ replicate ?n 0)"
  have d: "0 < ps" "header_size ps + ?n \<le> length (fdata f)" "length (hash_table ds) = unat (hashtable_size (header ds))"
    "hash_table ds \<noteq> []" "length (startID (header ds)) = 20" "length (endID (header ds)) = 20"
    "data_insertion_point (header ds) \<le> 2 ^ 32" "data_start_point (header ds) \<le> 2 ^ 32"
    using assms(1) f(2) unfolding disk_ok_def by auto
  have small: "data_insertion_point (header ds) < 2 ^ 64" "data_start_point (header ds) < 2 ^ 64"
    using d(7,8) by (auto elim!: order_le_less_trans)
  have h: "dbheader_of_bytes (dbheader_bytes (header ds)) = header ds"
    by (rule dbheader_roundtrip [OF d(5,6) small])
  have hs: "DB_HEADER_SIZE < header_size ps" by (rule header_size_covers [OF d(1)])
  have buf: "length ?buf = ?n" "?buf \<noteq> []" using d(4) by (auto simp: HASH_ENTRY_SIZE_def)
  have "read_table f ?buf ?n (header_size ps) 0 = Ret (table_bytes (hash_table ds))"
    using read_table_inside [of "header_size ps" ?buf f] buf d(2) f(4) by simp
  then show "Open_FawnDS ps garbage kt hs (Some (datastore ds')) = Ret (FawnDS_new kt hs, Some ds')"
    using f(3) h d(2) hs length_dbheader_bytes [OF d(5,6)] table_roundtrip [of "hash_table ds"]
    by (simp add: Open_FawnDS_def ReadHashtableFromFile_def ds'(2) d(3) [symmetric] Let_def)
qed

section \<open>The layout of the file is kept by every operation\<close>

definition disk_shape :: "nat \<Rightarrow> fawnds \<Rightarrow> bool" where
  "disk_shape ps ds \<longleftrightarrow> 0 < ps \<and> header_size ps + HASH_ENTRY_SIZE * length (hash_table ds) \<le> data_start_point (header ds)
    \<and> length (fdata (datastore ds)) \<le> fcap (datastore ds)
    \<and> length (startID (header ds)) = 20 \<and> length (endID (header ds)) = 20"

text \<open>What the operations leave alone: the range, the start of the log, the size of the table and the limit of the
  file, which the file does not outgrow.\<close>

definition same_layout :: "fawnds \<Rightarrow> fawnds \<Rightarrow> bool" where
  "same_layout ds ds' \<longleftrightarrow> startID (header ds') = startID (header ds) \<and> endID (header ds') = endID (header ds)
    \<and> data_start_point (header ds') = data_start_point (header ds)
    \<and> length (hash_table ds') = length (hash_table ds) \<and> fcap (datastore ds') = fcap (datastore ds)
    \<and> (length (fdata (datastore ds)) \<le> fcap (datastore ds) \<longrightarrow> length (fdata (datastore ds')) \<le> fcap (datastore ds))"

lemma same_layout_shape: "same_layout ds ds' \<Longrightarrow> disk_shape ps ds \<Longrightarrow> disk_shape ps ds'"
  by (auto simp: same_layout_def disk_shape_def)

lemma same_layout_refl [simp]: "same_layout ds ds"
  by (simp add: same_layout_def)

lemma same_layout_trans: "same_layout a b \<Longrightarrow> same_layout b c \<Longrightarrow> same_layout a c"
  by (auto simp: same_layout_def)

lemma same_layout_mark [simp]: "same_layout ds (mark_deleted i ds)"
  by (simp add: same_layout_def) (simp add: mark_deleted_def Let_def)

lemma shape_disk_ok:
  assumes "fds_inv L hs ds" and "disk_shape ps ds"
  shows "disk_ok ps ds"
proof -
  obtain rs where rs: "geometry_ok ds" "log_ok L ds rs" using assms(1) by (auto simp: fds_inv_def fds_rep_def)
  have "hash_table ds \<noteq> []" using rs(1) by (auto simp: geometry_ok_def unat_exp)
  then show ?thesis
    using rs assms(2) by (auto simp: disk_ok_def disk_shape_def geometry_ok_def log_ok_def flash.log_at_def flash.log_end_def)
qed

lemma pwrite_limit: "pwrite f bs off = (n, f') \<Longrightarrow> length (fdata f) \<le> fcap f \<Longrightarrow> length (fdata f') \<le> fcap f"
  by (auto simp: pwrite_def Let_def split: if_splits)

lemma Flash_Write_layout:
  assumes "Flash_Write (datastore ds) k v off = (b, f')"
  shows "same_layout ds (ds\<lparr>datastore := f'\<rparr>)"
proof -
  obtain n where "pwrite (datastore ds) (record_bytes (Data k v)) off = (n, f')" using Flash_Write_pwrite [OF assms] by blast
  then show ?thesis using pwrite_cap pwrite_limit by (auto simp: same_layout_def)
qed

lemma Flash_Delete_layout:
  assumes "Flash_Delete (datastore ds) k off = (b, f')"
  shows "same_layout ds (ds\<lparr>datastore := f'\<rparr>)"
proof -
  obtain f1 n m h where p: "pwrite (datastore ds) h off = (n, f1)" and q: "f' = f1 \<or> pwrite f1 k (off + DATA_HEADER_SIZE) = (m, f')"
    using Flash_Delete_pwrites [OF assms] by metis
  show ?thesis
    using q pwrite_cap [OF p] pwrite_limit [OF p] pwrite_cap [of f1 k] pwrite_limit [of f1 k] by (auto simp: same_layout_def)
qed

lemma Insert_layout:
  assumes "Insert hs ds (Some k) (Some v) = Ret (b, ds')"
  shows "same_layout ds ds'"
  using assms
proof (cases rule: Insert_cases)
  case (written i new f' kf)
  from Flash_Write_layout [OF written(4)] written(6) show ?thesis by (simp add: same_layout_def inserted_def)
qed (auto intro: Flash_Write_layout)

lemma Delete_stale_layout: "Delete_stale hs k ds = Ret ds' \<Longrightarrow> same_layout ds ds'"
proof (induction hs k ds arbitrary: ds' rule: Delete_stale.induct)
  case (1 hs k ds)
  obtain r where r: "FindHashIndex hs ds k = Ret r"
    using "1.prems" by (cases "FindHashIndex hs ds k") (simp_all add: Delete_stale.simps [of hs k ds])
  show ?case
  proof (cases r)
    case None
    with "1.prems" r show ?thesis by (simp add: Delete_stale.simps [of hs k ds])
  next
    case (Some i)
    with "1.prems" r have "Delete_stale hs k (mark_deleted i ds) = Ret ds'" by (simp add: Delete_stale.simps [of hs k ds])
    from "1.IH" [OF r Some this] show ?thesis by (rule same_layout_trans [OF same_layout_mark])
  qed
qed

lemma Delete_layout:
  assumes "Delete_log hs ds (Some k) wl = Ret (b, ds')"
  shows "same_layout ds ds'"
proof -
  obtain r where r: "FindHashIndex hs ds k = Ret r" using assms by (auto simp: Delete_log_def)
  obtain ok f' where w: "Flash_Delete (datastore ds) k (data_insertion_point (header ds)) = (ok, f')" by fastforce
  define ds1 where "ds1 = (if wl then ds\<lparr>datastore := f', header := (header ds)\<lparr>data_insertion_point :=
    data_insertion_point (header ds) + DATA_HEADER_SIZE + length k\<rparr>\<rparr> else ds)"
  have l1: "same_layout ds ds1" using Flash_Delete_layout [OF w] by (simp add: ds1_def same_layout_def)
  have l2: "same_layout ds1 (delete_found i ds1)" for i
    using same_layout_mark [of ds1 i] by (simp add: delete_found_def same_layout_def)
  show ?thesis
  proof (cases "r = None \<or> wl \<and> \<not> entry_valid (hash_table ds ! the r) \<or> wl \<and> \<not> ok")
    case True
    then show ?thesis
      using assms r w Flash_Delete_layout [OF w] by (cases r) (auto simp: Delete_log_def simp del: entry_valid_bit split: if_splits)
  next
    case False
    then obtain i where i: "r = Some i" by auto
    have "bind_res (Delete_stale hs k (delete_found i ds1)) (\<lambda>ds4. Ret (True, ds4)) = Ret (b, ds')"
      using assms r w i False by (auto simp: Delete_log_def ds1_def delete_found_def Let_def split: if_splits)
    then have "Delete_stale hs k (delete_found i ds1) = Ret ds'" by auto
    from same_layout_trans [OF l1 same_layout_trans [OF l2 Delete_stale_layout [OF this]]] show ?thesis .
  qed
qed

text \<open>The store on disk satisfies the same contract as the store in memory, with the layout in its invariant.\<close>

definition disk_inv :: "nat \<Rightarrow> nat \<Rightarrow> hashfn list \<Rightarrow> fawnds \<Rightarrow> bool" where
  "disk_inv ps L hs ds \<longleftrightarrow> fds_inv L hs ds \<and> disk_shape ps ds"

interpretation fawnds_disk: kv_store "disk_inv ps L hs" "\<lambda>k. length k = L" "fds_map hs"
  "\<lambda>ds k v. Insert hs ds (Some k) (Some v)" "\<lambda>ds k. Delete hs ds (Some k)" for ps L hs
proof (unfold_locales, goal_cases)
  case (1 ds k v)
  then show ?case
    using fawnds.ins_law [of L hs ds k v] Insert_layout [of hs ds k v] same_layout_shape unfolding disk_inv_def by blast
next
  case (2 ds k)
  then show ?case
    using fawnds.del_law [of L hs ds k] Delete_layout [of hs ds k True] same_layout_shape
    unfolding disk_inv_def Delete_def by blast
qed

text \<open>A change of the file before the start of the log keeps the store.\<close>

lemma rep_same_log:
  assumes rep: "fds_rep L hs ds rs" and "fcap f = fcap (datastore ds)" and "length (fdata f) = length (fdata (datastore ds))"
    and "\<And>n off. data_start_point (header ds) \<le> off \<Longrightarrow> pread f n off = pread (datastore ds) n off"
  shows "fds_rep L hs (ds\<lparr>datastore := f\<rparr>) rs" "ds_view (ds\<lparr>datastore := f\<rparr>) = ds_view ds"
proof -
  have "flash.log_at f (data_start_point (header ds)) rs"
    using rep assms(3,4) unfolding fds_rep_def log_ok_def flash.log_at_def stored_def
    using flash.rec_offsets_bounds [of _ _ "data_start_point (header ds)" rs] by fastforce
  from rep_new_file [OF rep assms(2) this]
  show "fds_rep L hs (ds\<lparr>datastore := f\<rparr>) rs" "ds_view (ds\<lparr>datastore := f\<rparr>) = ds_view ds" by simp_all
qed

lemma disk_same_log:
  assumes "disk_inv ps L hs ds" and "fcap f = fcap (datastore ds)" and "length (fdata f) = length (fdata (datastore ds))"
    and "\<And>n off. data_start_point (header ds) \<le> off \<Longrightarrow> pread f n off = pread (datastore ds) n off"
  shows "disk_inv ps L hs (ds\<lparr>datastore := f\<rparr>)" "fds_map hs (ds\<lparr>datastore := f\<rparr>) = fds_map hs ds"
proof -
  obtain rs where "fds_rep L hs ds rs" using assms(1) by (auto simp: disk_inv_def fds_inv_def)
  note k = rep_same_log [OF this assms(2-4)]
  show "disk_inv ps L hs (ds\<lparr>datastore := f\<rparr>)"
    using assms(1-3) k(1) by (auto simp: disk_inv_def fds_inv_def disk_shape_def)
  show "fds_map hs (ds\<lparr>datastore := f\<rparr>) = fds_map hs ds" using k(2) by (simp add: fds_map_def)
qed

text \<open>Writing the table keeps the invariant and the map.\<close>

lemma WriteHashtable_inv:
  assumes "disk_inv ps L hs ds"
  obtains ds' where "WriteHashtableToFile ps ds = (True, ds')" "disk_inv ps L hs ds'" "fds_map hs ds' = fds_map hs ds"
    "header ds' = header ds" "Open_FawnDS ps garbage kt hs (Some (datastore ds')) = Ret (FawnDS_new kt hs, Some ds')"
proof -
  have ok: "disk_ok ps ds" using assms shape_disk_ok unfolding disk_inv_def by blast
  obtain f where f: "WriteHashtableToFile ps ds = (True, ds\<lparr>datastore := f\<rparr>)" "fcap f = fcap (datastore ds)"
    "length (fdata f) = length (fdata (datastore ds))"
    "\<And>n off. data_start_point (header ds) \<le> off \<Longrightarrow> pread f n off = pread (datastore ds) n off"
    using WriteHashtable_file [OF ok] by metis
  show thesis
    by (rule that [OF f(1) disk_same_log [OF assms f(2-4)] _ Open_after_write(2) [OF ok f(1)]]) simp_all
qed

text \<open>Setting the range of a store.\<close>

lemma WriteOnlyHeader_inv:
  assumes "disk_inv ps L hs ds"
  obtains ds' where "WriteOnlyHeaderToFile ds = (True, ds')" "disk_inv ps L hs ds'" "fds_map hs ds' = fds_map hs ds"
    "header ds' = header ds"
proof -
  let ?hb = "dbheader_bytes (header ds)" and ?f = "datastore ds"
  have ok: "disk_ok ps ds" using assms shape_disk_ok unfolding disk_inv_def by blast
  then have d: "0 < ps" "header_size ps \<le> data_start_point (header ds)" "data_start_point (header ds) \<le> length (fdata ?f)"
    "length (fdata ?f) \<le> fcap ?f" "length (startID (header ds)) = 20" "length (endID (header ds)) = 20"
    unfolding disk_ok_def by auto
  have hl: "length ?hb = DB_HEADER_SIZE" using d(5,6) by (rule length_dbheader_bytes)
  have hs: "DB_HEADER_SIZE < header_size ps" by (rule header_size_covers [OF d(1)])
  have ne: "?hb \<noteq> []" using hl by (auto simp: DB_HEADER_SIZE_def simp flip: length_greater_0_conv)
  define f1 where "f1 = ?f\<lparr>fdata := write_at (fdata ?f) 0 ?hb\<rparr>"
  have w: "WriteOnlyHeaderToFile ds = (True, ds\<lparr>datastore := f1\<rparr>)"
    using pwrite_inside [OF ne, of 0 ?f] d hl hs by (simp add: WriteOnlyHeaderToFile_def f1_def)
  have c: "fcap f1 = fcap ?f" "length (fdata f1) = length (fdata ?f)" using d hl hs by (simp_all add: f1_def)
  have r: "pread f1 n off = pread ?f n off" if "data_start_point (header ds) \<le> off" for n off
    using that d hl hs by (simp add: f1_def pread_def read_write_at_after)
  show thesis by (rule that [OF w disk_same_log [OF assms c r]]) simp_all
qed

lemma disk_inv_range:
  assumes "disk_inv ps L hs ds" and "length s = 20" and "length e = 20"
  shows "disk_inv ps L hs (ds\<lparr>header := (header ds)\<lparr>startID := s, endID := e\<rparr>\<rparr>)"
    "fds_map hs (ds\<lparr>header := (header ds)\<lparr>startID := s, endID := e\<rparr>\<rparr>) = fds_map hs ds"
  using assms by (auto simp: disk_inv_def fds_inv_def fds_rep_def disk_shape_def geometry_ok_def log_ok_def entries_ok_def
      counts_ok_def fds_map_def)

lemma setStartID_inv:
  assumes "disk_inv ps L hs ds" and "wf_dbid sid"
  obtains ds' where "setStartID ds sid = (True, ds')" "disk_inv ps L hs ds'" "fds_map hs ds' = fds_map hs ds"
    "header ds' = (header ds)\<lparr>startID := dbid_value sid\<rparr>"
proof -
  have v: "take (unat DBID_LENGTH) (dbid_value sid) = dbid_value sid" "length (dbid_value sid) = 20"
    using assms(2) by (simp_all add: wf_dbid_def DBID_LENGTH_def)
  have e: "length (endID (header ds)) = 20" using assms(1) by (simp add: disk_inv_def disk_shape_def)
  let ?ds = "ds\<lparr>header := (header ds)\<lparr>startID := dbid_value sid\<rparr>\<rparr>"
  have h: "?ds = ds\<lparr>header := (header ds)\<lparr>startID := dbid_value sid, endID := endID (header ds)\<rparr>\<rparr>" by simp
  have i: "disk_inv ps L hs ?ds" "fds_map hs ?ds = fds_map hs ds" using disk_inv_range [OF assms(1) v(2) e] unfolding h by auto
  obtain ds' where w: "WriteOnlyHeaderToFile ?ds = (True, ds')" "disk_inv ps L hs ds'" "fds_map hs ds' = fds_map hs ?ds"
    "header ds' = header ?ds"
    by (rule WriteOnlyHeader_inv [OF i(1)])
  show thesis by (rule that [of ds']) (use w i(2) v(1) in \<open>simp_all add: setStartID_def\<close>)
qed

lemma setEndID_inv:
  assumes "disk_inv ps L hs ds" and "wf_dbid eid"
  obtains ds' where "setEndID ds eid = (True, ds')" "disk_inv ps L hs ds'" "fds_map hs ds' = fds_map hs ds"
    "header ds' = (header ds)\<lparr>endID := dbid_value eid\<rparr>"
proof -
  have v: "take (unat DBID_LENGTH) (dbid_value eid) = dbid_value eid" "length (dbid_value eid) = 20"
    using assms(2) by (simp_all add: wf_dbid_def DBID_LENGTH_def)
  have s: "length (startID (header ds)) = 20" using assms(1) by (simp add: disk_inv_def disk_shape_def)
  let ?ds = "ds\<lparr>header := (header ds)\<lparr>endID := dbid_value eid\<rparr>\<rparr>"
  have h: "?ds = ds\<lparr>header := (header ds)\<lparr>startID := startID (header ds), endID := dbid_value eid\<rparr>\<rparr>" by simp
  have i: "disk_inv ps L hs ?ds" "fds_map hs ?ds = fds_map hs ds" using disk_inv_range [OF assms(1) s v(2)] unfolding h by auto
  obtain ds' where w: "WriteOnlyHeaderToFile ?ds = (True, ds')" "disk_inv ps L hs ds'" "fds_map hs ds' = fds_map hs ?ds"
    "header ds' = header ?ds"
    by (rule WriteOnlyHeader_inv [OF i(1)])
  show thesis by (rule that [of ds']) (use w i(2) v(1) in \<open>simp_all add: setEndID_def\<close>)
qed

lemma Create_disk_inv:
  assumes "Create_FawnDS_From_Fd ps cap hts ne de mdr mlf kt = Some ds" and "0 < ps" and "fds_inv L hs ds"
  shows "disk_inv ps L hs ds"
  using assms by (auto simp: disk_inv_def disk_shape_def Create_FawnDS_From_Fd_def Let_def split: if_splits)

end
