(* ===== verification/FawnDS_Move.thy ===== *)
theory FawnDS_Move
  imports FawnDS_Disk
begin

text \<open>
  The operations of \<^verbatim>\<open>fawnds/fawnds.cc\<close> that move the contents of a store into another one by scanning
  its log: the streaming split that a precopy uses, \<^verbatim>\<open>Split\<close>, \<^verbatim>\<open>Merge\<close> and \<^verbatim>\<open>Rewrite\<close>.
\<close>

section \<open>Streaming a split\<close>

record split_cursor =
  currSplit :: nat
  precopyIP :: bytes

definition split_init :: "fawnds \<Rightarrow> bytes \<Rightarrow> split_cursor" where
  "split_init ds destinationIP = \<lparr>currSplit = data_start_point (header ds), precopyIP = destinationIP\<rparr>"

text \<open>The output parameters of \<^verbatim>\<open>split_next\<close>; \<open>ret_key\<close> is the caller's array.\<close>

record split_out =
  ret_key :: bytes
  ret_key_length :: u32
  ret_data :: bytes
  ret_valid :: bool
  ret_remove :: bool

definition copy_key :: "bytes \<Rightarrow> bytes \<Rightarrow> bytes res" where
  "copy_key buf key = (if length buf < length key then Fault else Ret (key @ drop (length key) buf))"

definition split_next ::
  "fawnds \<Rightarrow> split_cursor \<Rightarrow> dbid \<Rightarrow> dbid \<Rightarrow> split_out \<Rightarrow> (bool \<times> split_cursor \<times> split_out) res" where
  "split_next ds cur startKey endKey out0 =
    (let out1 = out0\<lparr>ret_remove := False\<rparr>
     in if data_insertion_point (header ds) \<le> currSplit cur then Ret (False, cur, out1)
        else case Flash_ReadIntoHeader (datastore ds) (currSplit cur) of
          None \<Rightarrow> Ret (False, cur, out1)
        | Some (data_header, key) \<Rightarrow>
            bind_res
              (if deleteLog data_header then Ret (True, out1\<lparr>ret_remove := True\<rparr>)
               else bind_res (Flash_Read (datastore ds) key (currSplit cur) (ret_data out1)) (\<lambda>(ok, d). Ret (ok, out1\<lparr>ret_data := d\<rparr>)))
              (\<lambda>(ok, out2).
                if \<not> ok then Ret (False, cur, out2)
                else
                  (let cur' = cur\<lparr>currSplit := currSplit cur + DATA_HEADER_SIZE + unat (key_length data_header) + unat (data_length data_header)\<rparr>
                   in if between startKey endKey (DBID key) then
                        bind_res (copy_key (ret_key out2) key) (\<lambda>rk.
                          Ret (True, cur', out2\<lparr>ret_valid := True, ret_key := rk, ret_key_length := of_nat (length key)\<rparr>))
                      else Ret (True, cur', out2\<lparr>ret_valid := False\<rparr>))))"

section \<open>Scanning a log that grows\<close>

text \<open>A scan of the log of \<open>src\<close> from \<open>cur\<close> up to \<open>ending\<close>, as both \<^verbatim>\<open>SplitMergeHelper\<close> and \<^verbatim>\<open>Rewrite\<close> do it
  (\<^verbatim>\<open>current_offset\<close> has moved on before the record is handled). \<open>act\<close> handles one record and is false where the
  code returns.\<close>

function scan_log ::
  "('o \<Rightarrow> nat \<Rightarrow> data_header \<times> bytes \<Rightarrow> (bool \<times> 'o) res) \<Rightarrow> fawnds \<Rightarrow> nat \<Rightarrow> nat \<Rightarrow> 'o \<Rightarrow> (bool \<times> nat \<times> 'o) res" where
  "scan_log act src ending cur other =
    (if cur < ending then
       case Flash_ReadIntoHeader (datastore src) cur of
         None \<Rightarrow> Ret (False, cur, other)
       | Some (h, key) \<Rightarrow>
           bind_res (act other cur (h, key)) (\<lambda>(ok, other').
             let cur' = cur + DATA_HEADER_SIZE + unat (key_length h) + unat (data_length h)
             in if ok then scan_log act src ending cur' other' else Ret (False, cur', other'))
     else Ret (True, cur, other))"
  by pat_completeness auto
termination
  by (relation "measure (\<lambda>(act, src, ending, cur, other). ending - cur)") (auto simp: DATA_HEADER_SIZE_def)

declare scan_log.simps [simp del]

text \<open>
  The loop of both operations. Between two passes the lock of the source store is free, so other threads may append to
  it: \<open>snaps\<close> lists the states in which the scanning thread finds the store each time it takes the lock, and
  the pass reads the store as it was then. The result is \<open>None\<close> when the list ends before the scan has caught
  up; otherwise it tells whether the scan succeeded and whether the lock is still held. \<open>checkpoint\<close> writes the
  table of the destination, once.
\<close>

fun catch_up ::
  "('o \<Rightarrow> bool \<times> 'o) \<Rightarrow> (fawnds \<Rightarrow> bool \<Rightarrow> 'o \<Rightarrow> nat \<Rightarrow> data_header \<times> bytes \<Rightarrow> (bool \<times> 'o) res) \<Rightarrow> bool \<Rightarrow> nat \<Rightarrow>
    'o \<Rightarrow> fawnds list \<Rightarrow> (bool \<times> bool \<times> 'o) option res" where
  "catch_up checkpoint act checkpointed cur other [] = Ret None"
| "catch_up checkpoint act checkpointed cur other (src # snaps) =
    (let ending = data_insertion_point (header src)
     in if ending \<le> cur then Ret (Some (cur = ending, True, other))
        else bind_res (scan_log (act src checkpointed) src ending cur other) (\<lambda>(ok, cur', other').
          if \<not> ok then Ret (Some (False, False, other'))
          else if checkpointed then catch_up checkpoint act True cur' other' snaps
          else case checkpoint other' of
            (False, other'') \<Rightarrow> Ret (Some (False, False, other''))
          | (True, other'') \<Rightarrow> catch_up checkpoint act True cur' other'' snaps))"

section \<open>Split and Merge\<close>

text \<open>The destination, and the keys whose insertion failed: the code prints a message for them and goes on.\<close>

record move_state =
  other_db :: fawnds
  insert_errors :: "bytes list"

definition move_insert :: "hashfn list \<Rightarrow> move_state \<Rightarrow> bytes \<Rightarrow> bytes \<Rightarrow> (bool \<times> move_state) res" where
  "move_insert hs st key data =
     bind_res (Insert hs (other_db st) (Some key) (Some data)) (\<lambda>(b, o').
       Ret (True, \<lparr>other_db = o', insert_errors = (if b then insert_errors st else insert_errors st @ [key])\<rparr>))"

definition SplitMerge_record ::
  "hashfn list \<Rightarrow> bool \<Rightarrow> dbid \<Rightarrow> dbid \<Rightarrow> fawnds \<Rightarrow> bool \<Rightarrow> move_state \<Rightarrow> nat \<Rightarrow> data_header \<times> bytes \<Rightarrow> (bool \<times> move_state) res" where
  "SplitMerge_record hs merge startKey endKey src checkpointed st old_offset = (\<lambda>(data_header, key).
     if deleteLog data_header then
       bind_res (Delete_log hs (other_db st) (Some key) checkpointed) (\<lambda>(ok, o'). Ret (ok, st\<lparr>other_db := o'\<rparr>))
     else
       (let inRange = between startKey endKey (DBID key)
        in bind_res (Flash_Read (datastore src) key old_offset []) (\<lambda>(_, data).
             if inRange then move_insert hs st key data
             else if merge then move_insert hs st key data
             else Ret (True, st))))"

definition SplitMergeHelper ::
  "hashfn list \<Rightarrow> nat \<Rightarrow> fawnds \<Rightarrow> fawnds \<Rightarrow> bool \<Rightarrow> fawnds list \<Rightarrow> (bool \<times> bool \<times> move_state) option res" where
  "SplitMergeHelper hs ps src other merge snaps =
     catch_up (\<lambda>st. case WriteHashtableToFile ps (other_db st) of (ok, o') \<Rightarrow> (ok, st\<lparr>other_db := o'\<rparr>))
       (SplitMerge_record hs merge (getStartID other) (getEndID other)) False (data_start_point (header src))
       \<lparr>other_db = other, insert_errors = []\<rparr> snaps"

definition Merge :: "hashfn list \<Rightarrow> nat \<Rightarrow> fawnds \<Rightarrow> fawnds \<Rightarrow> fawnds list \<Rightarrow> (bool \<times> bool \<times> move_state) option res" where
  "Merge hs ps ds other snaps = SplitMergeHelper hs ps other ds True snaps"

definition Split :: "hashfn list \<Rightarrow> nat \<Rightarrow> fawnds \<Rightarrow> fawnds \<Rightarrow> fawnds list \<Rightarrow> (bool \<times> bool \<times> move_state) option res" where
  "Split hs ps ds other snaps = SplitMergeHelper hs ps ds other False snaps"

section \<open>Rewrite\<close>

definition Rewrite_record ::
  "hashfn list \<Rightarrow> dbid \<Rightarrow> dbid \<Rightarrow> fawnds \<Rightarrow> bool \<Rightarrow> fawnds \<Rightarrow> nat \<Rightarrow> data_header \<times> bytes \<Rightarrow> (bool \<times> fawnds) res" where
  "Rewrite_record hs startKey endKey src checkpointed new_db old_offset = (\<lambda>(data_header, key).
     if \<not> between startKey endKey (DBID key) then Ret (True, new_db)
     else bind_res (FindHashIndex hs src key) (\<lambda>hi.
       case hi of
         None \<Rightarrow> Ret (True, new_db)
       | Some hash_index \<Rightarrow>
           if \<not> entry_exists (hash_table src ! hash_index) then Ret (True, new_db)
           else bind_res (if deleteLog data_header then Delete_log hs new_db (Some key) checkpointed else Ret (True, new_db)) (\<lambda>(ok, new_db').
             if \<not> ok then Ret (False, new_db')
             else if unat (entry_offset (hash_table src ! hash_index)) \<noteq> old_offset then Ret (True, new_db')
             else bind_res (Flash_Read (datastore src) key old_offset []) (\<lambda>(found, data).
               if \<not> found then Ret (False, new_db') else Insert hs new_db' (Some key) (Some data)))))"

text \<open>\<open>hs\<close> is the table of hash functions after the constructor of the new store, which has the key type of the old
  one. \<open>cap\<close> is the size limit of the new file; the result tells whether the lock is held and what is returned, with
  \<open>None\<close> for the null pointer.\<close>

definition Rewrite :: "hashfn list \<Rightarrow> nat \<Rightarrow> nat \<Rightarrow> fawnds \<Rightarrow> fawnds list \<Rightarrow> (bool \<times> fawnds option) option res" where
  "Rewrite hs ps cap ds snaps =
    (case Create_FawnDS_From_Fd ps cap (hashtable_size (header ds)) (number_elements (header ds)) (deleted_elements (header ds))
        (max_deleted_ratio (header ds)) (max_load_factor (header ds)) (keyFormat (header ds)) of
       None \<Rightarrow> Ret (Some (False, None))
     | Some new_db \<Rightarrow>
         bind_res (catch_up (WriteHashtableToFile ps) (Rewrite_record hs (getStartID ds) (getEndID ds)) False
             (data_start_point (header ds)) new_db snaps) (\<lambda>r.
           Ret (map_option (\<lambda>(ok, held, new_db'). (held, if ok then Some new_db' else None)) r)))"

definition deleteFile :: "(bytes \<rightharpoonup> os_file) \<Rightarrow> bytes \<Rightarrow> bool \<times> (bytes \<rightharpoonup> os_file)" where
  "deleteFile dir filename = (case dir filename of None \<Rightarrow> (False, dir) | Some _ \<Rightarrow> (True, dir(filename := None)))"

text \<open>\<^verbatim>\<open>RenameAndClean\<close> moves the rewritten file over the old one: the directory, and the name of the new store.\<close>

definition RenameAndClean :: "(bytes \<rightharpoonup> os_file) \<Rightarrow> bytes \<Rightarrow> bytes \<Rightarrow> bool \<times> (bytes \<rightharpoonup> os_file) \<times> bytes" where
  "RenameAndClean dir filename old_filename =
    (case dir old_filename of
       None \<Rightarrow> (False, dir, filename)
     | Some _ \<Rightarrow>
         (let dir1 = dir(old_filename := None)
          in case dir1 filename of
               None \<Rightarrow> (False, dir1, filename)
             | Some f \<Rightarrow> (True, dir1(filename := None, old_filename \<mapsto> f), old_filename)))"

section \<open>A pass is a run over the records of the log\<close>

fun run_recs :: "('o \<Rightarrow> nat \<Rightarrow> data_header \<times> bytes \<Rightarrow> (bool \<times> 'o) res) \<Rightarrow> 'o \<Rightarrow> (nat \<times> log_record) list \<Rightarrow> (bool \<times> 'o) res" where
  "run_recs act other [] = Ret (True, other)"
| "run_recs act other ((off, r) # rs) =
    bind_res (act other off (record_header r, rkey r)) (\<lambda>(ok, other').
      if ok then run_recs act other' rs else Ret (False, other'))"

lemma scan_log_run:
  assumes "\<And>o' r. (o', r) \<in> set (flash.rec_offsets off rs) \<Longrightarrow> stored (datastore src) o' r"
    and "run_recs act other (flash.rec_offsets off rs) = Ret (ok, other')"
  shows "\<exists>c. scan_log act src (flash.log_end off rs) off other = Ret (ok, c, other') \<and> (ok \<longrightarrow> c = flash.log_end off rs)"
  using assms
proof (induction rs arbitrary: off other)
  case Nil
  then show ?case by (simp add: scan_log.simps [of act src off off])
next
  case (Cons r rs)
  have st: "stored (datastore src) off r" using Cons.prems(1) by simp
  have adv: "off + DATA_HEADER_SIZE + unat (key_length (record_header r)) + unat (data_length (record_header r)) = off + record_size r"
    using header_advance [of r] st by (simp add: stored_def add.assoc)
  have lt: "off < flash.log_end (off + record_size r) rs" using record_size_pos [of r] by (simp add: flash.log_end_def)
  obtain ok1 o1 where a: "act other off (record_header r, rkey r) = Ret (ok1, o1)" using Cons.prems(2) by auto
  have step: "scan_log act src (flash.log_end off (r # rs)) off other =
      (if ok1 then scan_log act src (flash.log_end (off + record_size r) rs) (off + record_size r) o1
       else Ret (False, off + record_size r, o1))"
    using lt a by (simp add: scan_log.simps [of act src _ off] ReadIntoHeader_stored [OF st] Let_def adv)
  show ?case
  proof (cases ok1)
    case True
    then have "run_recs act o1 (flash.rec_offsets (off + record_size r) rs) = Ret (ok, other')" using Cons.prems(2) a by simp
    from Cons.IH [OF _ this] Cons.prems(1) step True show ?thesis by simp
  qed (use Cons.prems(2) a step in simp)
qed

end
