(* ===== verification/FawnDS_Move_Correct.thy ===== *)
theory FawnDS_Move_Correct
  imports FawnDS_Move
begin

text \<open>
  Moving a store is replaying its log: \<^verbatim>\<open>Merge\<close> and \<^verbatim>\<open>Split\<close> refine an abstract run of operations on the map
  of the destination, \<^verbatim>\<open>Rewrite\<close> inserts exactly the live records of the range.
\<close>

section \<open>The abstract run\<close>

text \<open>The operations that a log stands for; a split leaves out the values of other ranges, not their deletions.\<close>

fun move_op :: "bool \<Rightarrow> (bytes \<Rightarrow> bool) \<Rightarrow> log_record \<Rightarrow> (bytes, bytes) kv_op list" where
  "move_op merge rng (Data k v) = (if rng k \<or> merge then [Put k v] else [])"
| "move_op merge rng (DeleteLog k) = [Remove k]"

definition move_ops :: "bool \<Rightarrow> (bytes \<Rightarrow> bool) \<Rightarrow> log_record list \<Rightarrow> (bytes, bytes) kv_op list" where
  "move_ops merge rng rs = concat (map (move_op merge rng) rs)"

text \<open>
  \<open>moves m ops errs ok m'\<close>: the operations turn the map \<open>m\<close> into \<open>m'\<close>; the values of the keys \<open>errs\<close> are lost
  on the way, and the run ends, with \<open>ok\<close> false, at a deletion that was refused.
\<close>

inductive moves :: "('k \<rightharpoonup> 'v) \<Rightarrow> ('k, 'v) kv_op list \<Rightarrow> 'k list \<Rightarrow> bool \<Rightarrow> ('k \<rightharpoonup> 'v) \<Rightarrow> bool" where
  moves_Nil: "moves m [] [] True m"
| moves_put: "moves (m(k \<mapsto> v)) xs errs ok m' \<Longrightarrow> moves m (Put k v # xs) errs ok m'"
| moves_lost: "moves m xs errs ok m' \<Longrightarrow> moves m (Put k v # xs) (k # errs) ok m'"
| moves_remove: "m k \<noteq> None \<Longrightarrow> moves (m(k := None)) xs errs ok m' \<Longrightarrow> moves m (Remove k # xs) errs ok m'"
| moves_refused: "moves m (Remove k # xs) [] False m"

inductive_cases moves_NilE: "moves m [] errs ok m'"
inductive_cases moves_RemoveE: "moves m (Remove k # xs) errs ok m'"
inductive_cases moves_PutE: "moves m (Put k v # xs) errs ok m'"

lemma moves_append:
  assumes "moves m xs errs True m1" and "moves m1 ys errs' ok m'"
  shows "moves m (xs @ ys) (errs @ errs') ok m'"
  using assms by (induction m xs errs True m1 rule: moves.induct) (auto intro: moves.intros)

lemma moves_stopped:
  assumes "moves m xs errs False m'"
  shows "moves m (xs @ ys) errs False m'"
  using assms by (induction m xs errs False m' rule: moves.induct) (auto intro: moves.intros)

text \<open>A key that was not lost has the value of its last operation.\<close>

fun replay :: "('k, 'v) kv_op list \<Rightarrow> ('k \<rightharpoonup> 'v) \<Rightarrow> ('k \<rightharpoonup> 'v)" where
  "replay [] m = m"
| "replay (Put k v # xs) m = replay xs (m(k \<mapsto> v))"
| "replay (Remove k # xs) m = replay xs (m(k := None))"

lemma replay_cong: "m k = m1 k \<Longrightarrow> replay xs m k = replay xs m1 k"
proof (induction xs arbitrary: m m1)
  case (Cons x xs)
  show ?case by (cases x) (simp_all add: Cons.prems Cons.IH [of "m(_ := _)" "m1(_ := _)"])
qed simp

lemma replay_untouched: "k \<notin> op_key ` set xs \<Longrightarrow> replay xs m k = m k"
proof (induction xs arbitrary: m)
  case (Cons x xs)
  then show ?case by (cases x) auto
qed simp

lemma replay_touched: "k \<in> op_key ` set xs \<Longrightarrow> replay xs m k = replay xs m1 k"
proof (induction xs arbitrary: m m1)
  case (Cons x xs)
  show ?case
  proof (cases "k \<in> op_key ` set xs")
    case True
    show ?thesis by (cases x) (simp_all only: replay.simps Cons.IH [OF True, of "m(_ := _)" "m1(_ := _)"])
  next
    case False
    then have "op_key x = k" using Cons.prems by auto
    then show ?thesis by (cases x) (auto intro: replay_cong)
  qed
qed simp

lemma moves_replay:
  assumes "moves m xs errs True m'" and "k \<notin> set errs"
  shows "m' k = replay xs m k"
  using assms
proof (induction m xs errs True m' rule: moves.induct)
  case (moves_lost m xs errs m' k' v)
  then have "m' k = replay xs m k" "k' \<noteq> k" by auto
  then show ?case using replay_cong [of "m(k' \<mapsto> v)" k m xs] by simp
qed simp_all

text \<open>Without the key in the map, a removal of it stops the run.\<close>

lemma moves_foreign_remove:
  assumes "moves m xs errs ok m'" and "Remove k \<in> set xs" and "\<forall>v. Put k v \<notin> set xs" and "m k = None"
  shows "\<not> ok"
  using assms
proof (induction rule: moves.induct)
  case (moves_remove m k' xs errs ok m')
  then show ?case by (cases "k = k'") auto
qed (auto split: if_splits)

section \<open>Split and Merge\<close>

text \<open>The source's log as the scan meets it: \<open>grows start old snaps rs\<close> when the log holds \<open>old\<close>, each state of the
  list extends the one before, and the scan finds nothing new when the log is \<open>rs\<close>.\<close>

fun grows :: "nat \<Rightarrow> nat \<Rightarrow> log_record list \<Rightarrow> fawnds list \<Rightarrow> log_record list \<Rightarrow> bool" where
  "grows L start old [] rs \<longleftrightarrow> False"
| "grows L start old (src # snaps) rs \<longleftrightarrow>
    (\<exists>new. flash.log_at (datastore src) start (old @ new)
       \<and> data_insertion_point (header src) = flash.log_end start (old @ new)
       \<and> (\<forall>r \<in> set new. length (rkey r) = L)
       \<and> (if new = [] then rs = old else grows L start (old @ new) snaps rs))"

lemma log_end_append2: "flash.log_end off (xs @ ys) = flash.log_end (flash.log_end off xs) ys"
  by (simp add: flash.log_end_def)

lemma rec_offsets_append2:
  "flash.rec_offsets off (xs @ ys) = flash.rec_offsets off xs @ flash.rec_offsets (flash.log_end off xs) ys"
  by (induction xs arbitrary: off) (simp_all add: flash.log_end_def add.assoc)

definition in_range :: "dbid \<Rightarrow> dbid \<Rightarrow> bytes \<Rightarrow> bool" where
  "in_range s e k = between s e (DBID k)"

lemma SplitMerge_record_refines:
  assumes "disk_inv ps L hs (other_db st)" and "stored (datastore src) off r" and "length (rkey r) = L"
  shows "\<exists>ok st' errs. SplitMerge_record hs merge s e src ck st off (record_header r, rkey r) = Ret (ok, st')
    \<and> disk_inv ps L hs (other_db st') \<and> insert_errors st' = insert_errors st @ errs
    \<and> moves (fds_map hs (other_db st)) (move_op merge (in_range s e) r) errs ok (fds_map hs (other_db st'))"
proof (cases r)
  case (DeleteLog k)
  have inv: "fds_inv L hs (other_db st)" "disk_shape ps (other_db st)" using assms(1) by (auto simp: disk_inv_def)
  then obtain rs where rs: "fds_rep L hs (other_db st) rs" by (auto simp: fds_inv_def)
  have "length k = L" using assms(3) DeleteLog by simp
  from Delete_log_refines [OF rs this, of ck] obtain b d where
    d: "Delete_log hs (other_db st) (Some k) ck = Ret (b, d)"
    "fds_map hs d = (if b then (fds_map hs (other_db st))(k := None) else fds_map hs (other_db st))"
    "fds_inv L hs d" "b \<longrightarrow> fds_map hs (other_db st) k \<noteq> None" by (auto simp: fds_inv_def)
  have "disk_inv ps L hs d" using d(3) same_layout_shape [OF Delete_layout [OF d(1)] inv(2)] by (simp add: disk_inv_def)
  moreover have "moves (fds_map hs (other_db st)) [Remove k] [] b (fds_map hs d)"
    using d(2,4) by (cases b) (auto intro: moves.intros)
  ultimately show ?thesis using d(1) DeleteLog by (auto simp: SplitMerge_record_def)
next
  case (Data k v)
  have rd: "Flash_Read (datastore src) k off [] = Ret (True, v)"
    using Read_stored [of "datastore src" off k v k "[]"] assms(2) Data by auto
  obtain b d where ins: "Insert hs (other_db st) (Some k) (Some v) = Ret (b, d)" "disk_inv ps L hs d"
    "fds_map hs d = (if b then (fds_map hs (other_db st))(k \<mapsto> v) else fds_map hs (other_db st))"
    using fawnds_disk.ins_law [OF assms(1), of k v] assms(3) Data by auto
  have "moves (fds_map hs (other_db st)) [Put k v] (if b then [] else [k]) True (fds_map hs d)"
    using ins(3) by (cases b) (auto intro: moves.intros)
  then show ?thesis
    using Data rd ins assms(1) moves_Nil [of "fds_map hs (other_db st)"]
    by (cases "in_range s e k \<or> merge")
      (auto simp: SplitMerge_record_def move_insert_def in_range_def split: if_splits)
qed

lemma SplitMerge_pass:
  assumes "disk_inv ps L hs (other_db st)"
    and "\<forall>(o', r) \<in> set recs. stored (datastore src) o' r \<and> length (rkey r) = L"
  shows "\<exists>ok st' errs. run_recs (SplitMerge_record hs merge s e src ck) st recs = Ret (ok, st')
    \<and> disk_inv ps L hs (other_db st') \<and> insert_errors st' = insert_errors st @ errs
    \<and> moves (fds_map hs (other_db st)) (move_ops merge (in_range s e) (map snd recs)) errs ok (fds_map hs (other_db st'))"
  using assms
proof (induction recs arbitrary: st)
  case Nil
  then show ?case using moves_Nil by (auto simp: move_ops_def)
next
  case (Cons x recs)
  obtain off r where x: "x = (off, r)" by fastforce
  let ?op = "move_op merge (in_range s e)"
  obtain ok st1 errs where 1: "SplitMerge_record hs merge s e src ck st off (record_header r, rkey r) = Ret (ok, st1)"
    "disk_inv ps L hs (other_db st1)" "insert_errors st1 = insert_errors st @ errs"
    "moves (fds_map hs (other_db st)) (?op r) errs ok (fds_map hs (other_db st1))"
    using SplitMerge_record_refines [OF Cons.prems(1), of src off r merge s e ck] Cons.prems(2) x by auto
  show ?case
  proof (cases ok)
    case False
    then show ?thesis using 1 x moves_stopped by (fastforce simp: move_ops_def)
  next
    case True
    obtain ok2 st2 errs2 where 2: "run_recs (SplitMerge_record hs merge s e src ck) st1 recs = Ret (ok2, st2)"
      "disk_inv ps L hs (other_db st2)" "insert_errors st2 = insert_errors st1 @ errs2"
      "moves (fds_map hs (other_db st1)) (move_ops merge (in_range s e) (map snd recs)) errs2 ok2 (fds_map hs (other_db st2))"
      using Cons.IH [OF 1(2)] Cons.prems(2) by auto
    show ?thesis
      using True 1(1,3) 2 x moves_append [of "fds_map hs (other_db st)" "?op r" errs "fds_map hs (other_db st1)"] 1(4)
      by (auto simp: move_ops_def)
  qed
qed

lemma snd_rec_offsets: "map snd (flash.rec_offsets off rs) = rs"
  by (induction rs arbitrary: off) simp_all

abbreviation checkpoint_move :: "nat \<Rightarrow> move_state \<Rightarrow> bool \<times> move_state" where
  "checkpoint_move ps st \<equiv> (case WriteHashtableToFile ps (other_db st) of (ok, o') \<Rightarrow> (ok, st\<lparr>other_db := o'\<rparr>))"

lemma SplitMerge_catches_up:
  assumes "grows L start old snaps rs" and "disk_inv ps L hs (other_db st)"
  shows "\<exists>new ok st' errs. rs = old @ new
    \<and> catch_up (checkpoint_move ps) (SplitMerge_record hs merge s e) ck (flash.log_end start old) st snaps = Ret (Some (ok, ok, st'))
    \<and> disk_inv ps L hs (other_db st') \<and> insert_errors st' = insert_errors st @ errs
    \<and> moves (fds_map hs (other_db st)) (move_ops merge (in_range s e) new) errs ok (fds_map hs (other_db st'))"
  using assms
proof (induction L start old snaps rs arbitrary: st ck rule: grows.induct)
  case (1 L start old rs)
  then show ?case by simp
next
  case (2 L start old src snaps rs)
  let ?off = "flash.log_end start old"
  obtain new where new: "flash.log_at (datastore src) start (old @ new)"
    "data_insertion_point (header src) = flash.log_end ?off new" "\<forall>r \<in> set new. length (rkey r) = L"
    "if new = [] then rs = old else grows L start (old @ new) snaps rs"
    using "2.prems"(1) by (auto simp: log_end_append2)
  show ?case
  proof (cases "new = []")
    case True
    then show ?thesis using new(2,4) "2.prems"(2) moves_Nil by (auto simp: move_ops_def)
  next
    case False
    have lt: "\<not> flash.log_end ?off new \<le> ?off"
      using False record_size_pos by (cases new) (simp_all add: flash.log_end_def)
    have st: "stored (datastore src) o' r \<and> length (rkey r) = L" if "(o', r) \<in> set (flash.rec_offsets ?off new)" for o' r
      using that new(1,3) rec_offsets_set [OF that] flash.log_at_stored [of "datastore src" start "old @ new" o' r]
      by (auto simp: rec_offsets_append2)
    then have all: "\<forall>(o', r) \<in> set (flash.rec_offsets ?off new). stored (datastore src) o' r \<and> length (rkey r) = L" by auto
    obtain ok st1 errs where 1: "run_recs (SplitMerge_record hs merge s e src ck) st (flash.rec_offsets ?off new) = Ret (ok, st1)"
      "disk_inv ps L hs (other_db st1)" "insert_errors st1 = insert_errors st @ errs"
      "moves (fds_map hs (other_db st)) (move_ops merge (in_range s e) new) errs ok (fds_map hs (other_db st1))"
      using SplitMerge_pass [OF "2.prems"(2) all, of merge s e ck] by (auto simp: snd_rec_offsets)
    obtain c where c: "scan_log (SplitMerge_record hs merge s e src ck) src (flash.log_end ?off new) ?off st = Ret (ok, c, st1)"
      "ok \<longrightarrow> c = flash.log_end ?off new"
      using scan_log_run [OF _ 1(1)] st by blast
    obtain o2 where o2: "WriteHashtableToFile ps (other_db st1) = (True, o2)" "disk_inv ps L hs o2"
      "fds_map hs o2 = fds_map hs (other_db st1)"
      by (rule WriteHashtable_inv [OF 1(2)])
    define st2 where "st2 = (if ck then st1 else st1\<lparr>other_db := o2\<rparr>)"
    have s2: "disk_inv ps L hs (other_db st2)" "insert_errors st2 = insert_errors st1" "fds_map hs (other_db st2) = fds_map hs (other_db st1)"
      using o2 1(2) by (simp_all add: st2_def)
    have run: "catch_up (checkpoint_move ps) (SplitMerge_record hs merge s e) ck ?off st (src # snaps) =
        (if ok then catch_up (checkpoint_move ps) (SplitMerge_record hs merge s e) True (flash.log_end start (old @ new)) st2 snaps
         else Ret (Some (False, False, st1)))"
      using lt c o2(1) by (simp add: new(2) Let_def st2_def log_end_append2)
    have g: "grows L start (old @ new) snaps rs" using new(4) False by simp
    obtain new2 ok2 st3 errs2 where 3: "rs = (old @ new) @ new2"
      "catch_up (checkpoint_move ps) (SplitMerge_record hs merge s e) True (flash.log_end start (old @ new)) st2 snaps = Ret (Some (ok2, ok2, st3))"
      "disk_inv ps L hs (other_db st3)" "insert_errors st3 = insert_errors st2 @ errs2"
      "moves (fds_map hs (other_db st2)) (move_ops merge (in_range s e) new2) errs2 ok2 (fds_map hs (other_db st3))"
      using "2.IH" [OF False g s2(1), of True] new(1-3) by (auto simp: log_end_append2)
    have ops: "move_ops merge (in_range s e) (new @ new2) = move_ops merge (in_range s e) new @ move_ops merge (in_range s e) new2"
      by (simp add: move_ops_def)
    show ?thesis
    proof (cases ok)
      case True
      have "moves (fds_map hs (other_db st)) (move_ops merge (in_range s e) (new @ new2)) (errs @ errs2) ok2 (fds_map hs (other_db st3))"
        using moves_append 1(4) 3(5) s2(3) True unfolding ops by auto
      then show ?thesis using run True 3 s2(2) 1(3)
        by (intro exI [of _ "new @ new2"] exI [of _ ok2] exI [of _ st3] exI [of _ "errs @ errs2"]) simp
    next
      case not_ok: False
      then have "moves (fds_map hs (other_db st)) (move_ops merge (in_range s e) (new @ new2)) errs False (fds_map hs (other_db st1))"
        using moves_stopped 1(4) unfolding ops by auto
      then show ?thesis using run not_ok 1 3(1)
        by (intro exI [of _ "new @ new2"] exI [of _ False] exI [of _ st1] exI [of _ errs]) simp
    qed
  qed
qed

section \<open>Rewrite\<close>

text \<open>The record a live key's entry points to.\<close>

definition live_at :: "hashfn list \<Rightarrow> fawnds \<Rightarrow> nat \<Rightarrow> bytes \<Rightarrow> bool" where
  "live_at hs src off k =
     (case FindHashIndex hs src k of
        Ret (Some i) \<Rightarrow> unat (entry_offset (hash_table src ! i)) = off
      | _ \<Rightarrow> False)"

text \<open>The pairs that \<^verbatim>\<open>Rewrite\<close> copies, in the order of the log.\<close>

fun live_pairs :: "hashfn list \<Rightarrow> fawnds \<Rightarrow> (nat \<times> log_record) list \<Rightarrow> (bytes \<times> bytes) list" where
  "live_pairs hs src [] = []"
| "live_pairs hs src ((off, Data k v) # recs) =
    (if in_range (getStartID src) (getEndID src) k \<and> live_at hs src off k then [(k, v)] else []) @ live_pairs hs src recs"
| "live_pairs hs src ((off, DeleteLog k) # recs) = live_pairs hs src recs"

lemma live_pairs_mem:
  "(k, v) \<in> set (live_pairs hs src recs) \<longleftrightarrow>
    (\<exists>off. (off, Data k v) \<in> set recs \<and> in_range (getStartID src) (getEndID src) k \<and> live_at hs src off k)"
  by (induction hs src recs rule: live_pairs.induct) auto

fun run_puts :: "hashfn list \<Rightarrow> fawnds \<Rightarrow> (bytes \<times> bytes) list \<Rightarrow> (bool \<times> fawnds) res" where
  "run_puts hs ds [] = Ret (True, ds)"
| "run_puts hs ds ((k, v) # kvs) =
    bind_res (Insert hs ds (Some k) (Some v)) (\<lambda>(ok, ds'). if ok then run_puts hs ds' kvs else Ret (False, ds'))"

lemma run_puts_single: "run_puts hs ds [(k, v)] = Insert hs ds (Some k) (Some v)"
  by (cases "Insert hs ds (Some k) (Some v)") auto

lemma run_puts_append1:
  "run_puts hs ds (xs @ ys) = bind_res (run_puts hs ds xs) (\<lambda>(ok, ds'). if ok then run_puts hs ds' ys else Ret (False, ds'))"
proof (induction xs arbitrary: ds)
  case (Cons x xs)
  obtain k v where x: "x = (k, v)" by fastforce
  show ?case
  proof (cases "Insert hs ds (Some k) (Some v)")
    case (Ret p)
    then show ?thesis using Cons.IH x by (cases p) simp
  qed (simp add: x)
qed simp

lemma rep_FindHashIndex:
  assumes "fds_rep L hs src rs" and "length k = L"
  shows "FindHashIndex hs src k = Ret (oa_find (ds_view src) k (probes hs src k))"
proof -
  have r: "geometry_ok src" "log_ok L src rs" "entries_ok src rs" using assms(1) by (auto simp: fds_rep_def)
  have "k \<noteq> []" using r(2) assms(2) by (auto simp: log_ok_def)
  then show ?thesis by (rule FindHashIndex_eq [OF r(1) rep_table_ok [OF r(2,3)] _ rep_hashes [OF assms]])
qed

text \<open>A live key is found at an entry that points to a record with its value.\<close>

lemma live_entry:
  assumes "fds_rep L hs src rs" and "oa_find (ds_view src) k (probes hs src k) = Some i"
  obtains v where "fds_map hs src k = Some v" "entry_exists (hash_table src ! i)"
    "(unat (entry_offset (hash_table src ! i)), Data k v) \<in> set (flash.rec_offsets (data_start_point (header src)) rs)"
proof -
  have r: "log_ok L src rs" "entries_ok src rs" using assms(1) by (auto simp: fds_rep_def)
  obtain v where v: "ds_view src i = Live k v" using oa_find_Some [OF assms(2)] by blast
  have i: "i < length (hash_table src)" "entry_exists (hash_table src ! i)" using view_live_exists [OF v] by auto
  obtain k' v' where "(unat (entry_offset (hash_table src ! i)), Data k' v') \<in> set (flash.rec_offsets (data_start_point (header src)) rs)"
    "slot_view (datastore src) (hash_table src ! i) = Live k' v'"
    using entry_view [OF r(2) _ i, of "datastore src"] r(1) by (auto simp: log_ok_def)
  moreover have "slot_view (datastore src) (hash_table src ! i) = Live k v" using v i(1) by (simp add: view_def)
  moreover have "fds_map hs src k = Some v" using assms(2) v by (simp add: fds_map_def oa_lookup_def)
  ultimately show thesis using that i(2) by auto
qed

lemma rep_rec_key:
  assumes "fds_rep L hs src rs" and "(off, r) \<in> set (flash.rec_offsets (data_start_point (header src)) rs)"
  shows "length (rkey r) = L" "stored (datastore src) off r"
  using assms rec_offsets_set [OF assms(2)] flash.log_at_stored [OF _ assms(2)] by (auto simp: fds_rep_def log_ok_def)

lemma live_pairs_map:
  assumes "fds_rep L hs src rs"
  shows "(k, v) \<in> set (live_pairs hs src (flash.rec_offsets (data_start_point (header src)) rs)) \<longleftrightarrow>
    in_range (getStartID src) (getEndID src) k \<and> fds_map hs src k = Some v"
proof
  assume "(k, v) \<in> set (live_pairs hs src (flash.rec_offsets (data_start_point (header src)) rs))"
  then obtain off where o: "(off, Data k v) \<in> set (flash.rec_offsets (data_start_point (header src)) rs)"
    "in_range (getStartID src) (getEndID src) k" "live_at hs src off k"
    by (auto simp: live_pairs_mem)
  have "length k = L" using rep_rec_key(1) [OF assms o(1)] by simp
  then obtain i where i: "oa_find (ds_view src) k (probes hs src k) = Some i" "unat (entry_offset (hash_table src ! i)) = off"
    using o(3) rep_FindHashIndex [OF assms] by (auto simp: live_at_def split: option.splits)
  obtain v' where "fds_map hs src k = Some v'" "(off, Data k v') \<in> set (flash.rec_offsets (data_start_point (header src)) rs)"
    using live_entry [OF assms i(1)] i(2) by metis
  moreover have "Data k v' = Data k v" using flash.rec_offsets_distinct [OF record_size_pos] o(1) calculation(2) by blast
  ultimately show "in_range (getStartID src) (getEndID src) k \<and> fds_map hs src k = Some v" using o(2) by simp
next
  assume a: "in_range (getStartID src) (getEndID src) k \<and> fds_map hs src k = Some v"
  then obtain i where i: "oa_find (ds_view src) k (probes hs src k) = Some i"
    by (cases "oa_find (ds_view src) k (probes hs src k)") (auto simp: fds_map_def oa_lookup_def)
  have m: "(unat (entry_offset (hash_table src ! i)), Data k v) \<in> set (flash.rec_offsets (data_start_point (header src)) rs)"
    using live_entry [OF assms i] a by (metis option.inject)
  have "live_at hs src (unat (entry_offset (hash_table src ! i))) k"
    using rep_rec_key(1) [OF assms m] i rep_FindHashIndex [OF assms] by (simp add: live_at_def)
  then show "(k, v) \<in> set (live_pairs hs src (flash.rec_offsets (data_start_point (header src)) rs))"
    using a m by (auto simp: live_pairs_mem)
qed

lemma Rewrite_record_data:
  assumes "fds_rep L hs src rs" and "(off, Data k v) \<in> set (flash.rec_offsets (data_start_point (header src)) rs)"
  shows "Rewrite_record hs (getStartID src) (getEndID src) src ck new off (record_header (Data k v), k) =
    run_puts hs new (if in_range (getStartID src) (getEndID src) k \<and> live_at hs src off k then [(k, v)] else [])"
proof -
  have s: "length k = L" "stored (datastore src) off (Data k v)" using rep_rec_key [OF assms] by auto
  have rd: "Flash_Read (datastore src) k off [] = Ret (True, v)"
    using Read_stored [OF s(2), of k "[]"] by auto
  note find = rep_FindHashIndex [OF assms(1) s(1)]
  show ?thesis
  proof (cases "oa_find (ds_view src) k (probes hs src k)")
    case None
    then show ?thesis using find by (simp add: Rewrite_record_def live_at_def)
  next
    case (Some i)
    then have "entry_exists (hash_table src ! i)" using live_entry [OF assms(1) Some] by metis
    then show ?thesis
      using Some find rd by (simp add: Rewrite_record_def live_at_def in_range_def run_puts_single del: run_puts.simps(2))
  qed
qed

lemma Rewrite_record_delete:
  assumes "fds_rep L hs src rs" and "(off, DeleteLog k) \<in> set (flash.rec_offsets (data_start_point (header src)) rs)"
    and "in_range (getStartID src) (getEndID src) k \<longrightarrow> fds_map hs src k = None"
  shows "Rewrite_record hs (getStartID src) (getEndID src) src ck new off (record_header (DeleteLog k), k) = Ret (True, new)"
proof (cases "in_range (getStartID src) (getEndID src) k")
  case True
  have "length k = L" using rep_rec_key(1) [OF assms(1,2)] by simp
  note find = rep_FindHashIndex [OF assms(1) this]
  have "oa_find (ds_view src) k (probes hs src k) = None"
    using True assms(3) live_entry [OF assms(1), of k] by (cases "oa_find (ds_view src) k (probes hs src k)") (auto elim: live_entry)
  then show ?thesis using find by (simp add: Rewrite_record_def)
qed (simp add: Rewrite_record_def in_range_def)

text \<open>Where no key of the range was deleted and inserted again, a pass inserts the live pairs.\<close>

lemma Rewrite_pass:
  assumes "fds_rep L hs src rs" and "set recs \<subseteq> set (flash.rec_offsets (data_start_point (header src)) rs)"
    and "\<forall>k. DeleteLog k \<in> set rs \<and> in_range (getStartID src) (getEndID src) k \<longrightarrow> fds_map hs src k = None"
  shows "run_recs (Rewrite_record hs (getStartID src) (getEndID src) src ck) new recs = run_puts hs new (live_pairs hs src recs)"
  using assms(2)
proof (induction recs arbitrary: new)
  case (Cons x recs)
  obtain off r where x: "x = (off, r)" by fastforce
  then have m: "(off, r) \<in> set (flash.rec_offsets (data_start_point (header src)) rs)" using Cons.prems by simp
  show ?case
  proof (cases r)
    case (Data k v)
    let ?one = "if in_range (getStartID src) (getEndID src) k \<and> live_at hs src off k then [(k, v)] else []"
    have IH: "run_recs (Rewrite_record hs (getStartID src) (getEndID src) src ck) n recs = run_puts hs n (live_pairs hs src recs)" for n
      using Cons.IH Cons.prems by simp
    note d = Rewrite_record_data [OF assms(1) m [unfolded Data], of ck new]
    show ?thesis
    proof (cases "run_puts hs new ?one")
      case Fault
      then show ?thesis using x Data d by (simp only: run_recs.simps live_pairs.simps run_puts_append1 bind_res.simps log_record.sel)
    next
      case (Ret p)
      then show ?thesis using x Data d IH
        by (cases p) (simp only: run_recs.simps live_pairs.simps run_puts_append1 bind_res.simps log_record.sel prod.case)
    qed
  next
    case (DeleteLog k)
    then have "DeleteLog k \<in> set rs" using rec_offsets_set [OF m] by simp
    then show ?thesis
      using x DeleteLog Cons.IH Cons.prems Rewrite_record_delete [OF assms(1) m [unfolded DeleteLog], of ck new] assms(3) by simp
  qed
qed simp

lemma run_puts_ops:
  assumes "run_ops (\<lambda>ds k v. Insert hs ds (Some k) (Some v)) del ds (map (\<lambda>(k, v). Put k v) kvs) = Ret (bs, ds1)"
  shows "\<exists>ds2. run_puts hs ds kvs = Ret (list_all (\<lambda>b. b) bs, ds2) \<and> (list_all (\<lambda>b. b) bs \<longrightarrow> ds2 = ds1)"
  using assms
proof (induction kvs arbitrary: ds bs)
  case (Cons x kvs)
  obtain k v where x: "x = (k, v)" by fastforce
  obtain b d where i: "Insert hs ds (Some k) (Some v) = Ret (b, d)"
    using Cons.prems x by (cases "Insert hs ds (Some k) (Some v)") auto
  then obtain cs where c: "run_ops (\<lambda>ds k v. Insert hs ds (Some k) (Some v)) del d (map (\<lambda>(k, v). Put k v) kvs) = Ret (cs, ds1)"
    "bs = b # cs"
    using Cons.prems x by auto
  show ?case using Cons.IH [OF c(1)] i c(2) x by (cases b) auto
qed simp

lemma run_puts_layout: "run_puts hs ds kvs = Ret (b, ds') \<Longrightarrow> same_layout ds ds'"
proof (induction kvs arbitrary: ds)
  case (Cons x kvs)
  obtain k v where x: "x = (k, v)" by fastforce
  obtain c d where i: "Insert hs ds (Some k) (Some v) = Ret (c, d)"
    using Cons.prems x by (cases "Insert hs ds (Some k) (Some v)") auto
  show ?case using Cons.IH [of d] Cons.prems i x Insert_layout [OF i] same_layout_trans by (cases c) auto
qed simp

lemma apply_puts:
  assumes "list_all (\<lambda>b. b) bs" and "length bs = length kvs" and "\<forall>(k, v) \<in> set kvs. g k = Some v"
  shows "apply_ops m (map (\<lambda>(k, v). Put k v) kvs) bs = (\<lambda>k. if k \<in> fst ` set kvs then g k else m k)"
  using assms
proof (induction kvs arbitrary: m bs)
  case (Cons x kvs)
  obtain k v where x: "x = (k, v)" by fastforce
  obtain cs where cs: "bs = True # cs" "list_all (\<lambda>b. b) cs" "length cs = length kvs" using Cons.prems by (cases bs) auto
  have "apply_ops (m(k \<mapsto> v)) (map (\<lambda>(k, v). Put k v) kvs) cs = (\<lambda>j. if j \<in> fst ` set kvs then g j else (m(k \<mapsto> v)) j)"
    by (rule Cons.IH [OF cs(2,3)]) (use Cons.prems(3) in simp)
  then have "apply_ops m (map (\<lambda>(k, v). Put k v) (x # kvs)) bs = (\<lambda>j. if j \<in> fst ` set kvs then g j else (m(k \<mapsto> v)) j)"
    using cs(1) x by (simp del: fun_upd_apply)
  then show ?case using Cons.prems(3) x by (auto simp: fun_eq_iff)
qed simp

text \<open>Rewriting a store that nobody writes to meanwhile.\<close>

lemma Rewrite_catch_up:
  assumes rep: "fds_rep L hs src rs" and new0: "disk_inv ps L hs new0"
    and dels: "\<forall>k. DeleteLog k \<in> set rs \<and> in_range (getStartID src) (getEndID src) k \<longrightarrow> fds_map hs src k = None"
    and run: "run_puts hs new0 (live_pairs hs src (flash.rec_offsets (data_start_point (header src)) rs)) = Ret (ok, new1)"
    and new1: "ok \<Longrightarrow> disk_inv ps L hs new1"
  shows "\<exists>new2. catch_up (WriteHashtableToFile ps) (Rewrite_record hs (getStartID src) (getEndID src)) False
      (data_start_point (header src)) new0 [src, src] = Ret (Some (ok, ok, new2))
    \<and> (ok \<longrightarrow> disk_inv ps L hs new2 \<and> fds_map hs new2 = fds_map hs new1 \<and> header new2 = header new1)"
proof (cases "rs = []")
  case True
  have "data_insertion_point (header src) = data_start_point (header src)"
    using rep True by (simp add: fds_rep_def log_ok_def)
  then show ?thesis using True run new1 by simp
next
  case False
  let ?s = "data_start_point (header src)"
  have e: "data_insertion_point (header src) = flash.log_end ?s rs" using rep by (simp add: fds_rep_def log_ok_def)
  have lt: "\<not> flash.log_end ?s rs \<le> ?s" using False record_size_pos by (cases rs) (simp_all add: flash.log_end_def)
  have "run_recs (Rewrite_record hs (getStartID src) (getEndID src) src False) new0 (flash.rec_offsets ?s rs) = Ret (ok, new1)"
    using Rewrite_pass [OF rep order_refl dels] run by simp
  then obtain c where c: "scan_log (Rewrite_record hs (getStartID src) (getEndID src) src False) src (flash.log_end ?s rs) ?s new0
      = Ret (ok, c, new1)" "ok \<longrightarrow> c = flash.log_end ?s rs"
    using scan_log_run [OF rep_rec_key(2) [OF rep]] by metis
  show ?thesis
  proof (cases ok)
    case True
    obtain new2 where "WriteHashtableToFile ps new1 = (True, new2)" "disk_inv ps L hs new2" "fds_map hs new2 = fds_map hs new1"
      "header new2 = header new1"
      by (rule WriteHashtable_inv [OF new1 [OF True]])
    then show ?thesis using True c lt by (simp add: e Let_def)
  qed (use c lt in \<open>simp add: e Let_def\<close>)
qed

section \<open>The log of a store\<close>

text \<open>A store that only \<^verbatim>\<open>Insert\<close> and \<^verbatim>\<open>Delete\<close> have changed holds what its log replays to.\<close>

definition log_ops :: "log_record list \<Rightarrow> (bytes, bytes) kv_op list" where
  "log_ops rs = map (\<lambda>r. case r of Data k v \<Rightarrow> Put k v | DeleteLog k \<Rightarrow> Remove k) rs"

definition logged :: "nat \<Rightarrow> hashfn list \<Rightarrow> fawnds \<Rightarrow> log_record list \<Rightarrow> bool" where
  "logged L hs ds rs \<longleftrightarrow> fds_rep L hs ds rs \<and> fds_map hs ds = replay (log_ops rs) Map.empty"

lemma replay_append: "replay (xs @ ys) m = replay ys (replay xs m)"
proof (induction xs arbitrary: m)
  case (Cons x xs)
  then show ?case by (cases x) (simp_all del: fun_upd_apply)
qed simp

definition op_record :: "(bytes, bytes) kv_op \<Rightarrow> log_record" where
  "op_record x = (case x of Put k v \<Rightarrow> Data k v | Remove k \<Rightarrow> DeleteLog k)"

lemma logged_step:
  assumes "logged L hs ds rs" and "length (op_key x) = L"
  shows "\<exists>b ds'. (case x of Put k v \<Rightarrow> Insert hs ds (Some k) (Some v) | Remove k \<Rightarrow> Delete hs ds (Some k)) = Ret (b, ds')
    \<and> logged L hs ds' (if b then rs @ [op_record x] else rs)
    \<and> fds_map hs ds' = (if b then replay [x] (fds_map hs ds) else fds_map hs ds)"
proof (cases x)
  case (Put k v)
  have "length k = L" using assms(2) Put by simp
  from Insert_refines [OF _ this, of hs ds rs v] assms(1) obtain b ds' where "Insert hs ds (Some k) (Some v) = Ret (b, ds')"
    "fds_map hs ds' = (if b then (fds_map hs ds)(k \<mapsto> v) else fds_map hs ds)" "fds_rep L hs ds' (if b then rs @ [Data k v] else rs)"
    by (auto simp: logged_def)
  then show ?thesis using assms(1) Put by (auto simp: logged_def log_ops_def op_record_def replay_append)
next
  case (Remove k)
  have "length k = L" using assms(2) Remove by simp
  from Delete_log_refines [OF _ this, of hs ds rs True] assms(1) obtain b ds' where "Delete hs ds (Some k) = Ret (b, ds')"
    "fds_map hs ds' = (if b then (fds_map hs ds)(k := None) else fds_map hs ds)" "fds_rep L hs ds' (if b then rs @ [DeleteLog k] else rs)"
    by (auto simp: logged_def Delete_def)
  then show ?thesis using assms(1) Remove by (auto simp: logged_def log_ops_def op_record_def replay_append)
qed

text \<open>The log after a run: the records of the operations that succeeded.\<close>

fun run_records :: "(bytes, bytes) kv_op list \<Rightarrow> bool list \<Rightarrow> log_record list" where
  "run_records (x # xs) (b # bs) = (if b then [op_record x] else []) @ run_records xs bs"
| "run_records _ _ = []"

lemma logged_run:
  assumes "logged L hs ds rs" and "\<forall>x \<in> set ops. length (op_key x) = L"
    and "run_ops (\<lambda>ds k v. Insert hs ds (Some k) (Some v)) (\<lambda>ds k. Delete hs ds (Some k)) ds ops = Ret (bs, ds')"
  shows "logged L hs ds' (rs @ run_records ops bs)"
  using assms
proof (induction ops arbitrary: ds rs bs)
  case (Cons x ops)
  obtain b d where s: "(case x of Put k v \<Rightarrow> Insert hs ds (Some k) (Some v) | Remove k \<Rightarrow> Delete hs ds (Some k)) = Ret (b, d)"
    "logged L hs d (if b then rs @ [op_record x] else rs)"
    using logged_step [OF Cons.prems(1), of x] Cons.prems(2) by auto
  obtain cs where c: "run_ops (\<lambda>ds k v. Insert hs ds (Some k) (Some v)) (\<lambda>ds k. Delete hs ds (Some k)) d ops = Ret (cs, ds')"
    "bs = b # cs"
    using Cons.prems(3) s(1) by auto
  from Cons.IH [OF s(2) _ c(1)] Cons.prems(2) c(2) show ?case by (cases b) auto
qed simp

lemma merge_ops: "move_ops True R rs = log_ops rs"
  by (induction rs) (auto simp: move_ops_def log_ops_def split: log_record.splits)

lemma log_ops_keys: "op_key ` set (log_ops rs) = rkey ` set rs"
proof (induction rs)
  case (Cons r rs)
  then show ?case by (cases r) (simp_all add: log_ops_def)
qed (simp add: log_ops_def)

lemma split_ops_mem:
  "DeleteLog k \<in> set rs \<Longrightarrow> Remove k \<in> set (move_ops m R rs)"
  "\<not> R k \<Longrightarrow> Put k v \<notin> set (move_ops False R rs)"
proof -
  have "Remove k \<in> set (move_op m R (DeleteLog k))" by simp
  then show "DeleteLog k \<in> set rs \<Longrightarrow> Remove k \<in> set (move_ops m R rs)" unfolding move_ops_def by force
  assume k: "\<not> R k"
  have "Put k v \<notin> set (move_op False R r)" for r using k by (cases r) auto
  then show "Put k v \<notin> set (move_ops False R rs)" by (auto simp: move_ops_def)
qed

end
