(* ===== verification/FawnDS_Move_Props.thy ===== *)
theory FawnDS_Move_Props
  imports FawnDS_Move_Correct FawnDS_Props
begin

text \<open>
  The properties of the operations that write a store to disk and that move its contents: a store survives being
  closed, \<^verbatim>\<open>Merge\<close> replays the other store's log, \<^verbatim>\<open>Rewrite\<close> keeps what is live, and two situations in which a
  deletion in the log makes the operation fail.
\<close>

section \<open>Concrete stores\<close>

definition demo_run :: "(bytes, bytes) kv_op list \<Rightarrow> fawnds" where
  "demo_run ops = snd (the_ret (run_ops (\<lambda>ds k v. Insert [demo_hash] ds (Some k) (Some v)) (\<lambda>ds k. Delete [demo_hash] ds (Some k)) demo_ds ops))"

lemma demo_logged: "logged 2 [demo_hash] demo_ds []"
  using Create_rep(1,2) [OF demo_create _ _ _ _ hashes_ok_demo, of 2] by (simp add: logged_def log_ops_def)

lemma demo_disk: "disk_inv 1 2 [demo_hash] demo_ds"
  using Create_disk_inv [OF demo_create [unfolded Create_FawnDS_def]] demo_inv by simp

lemma demo_run_disk:
  assumes "\<forall>x \<in> set ops. length (op_key x) = 2"
  shows "disk_inv 1 2 [demo_hash] (demo_run ops)"
  using fawnds_disk.run_refines [OF demo_disk assms] by (auto simp: demo_run_def)

lemma demo_run_rep:
  assumes "run_ops (\<lambda>ds k v. Insert [demo_hash] ds (Some k) (Some v)) (\<lambda>ds k. Delete [demo_hash] ds (Some k)) demo_ds ops = Ret (bs, ds)"
    and "\<forall>x \<in> set ops. length (op_key x) = 2"
  shows "fds_rep 2 [demo_hash] (demo_run ops) (run_records ops bs)"
  using logged_run [OF demo_logged assms(2,1)] assms(1) by (simp add: demo_run_def logged_def)

text \<open>A store that nobody writes to, seen twice.\<close>

lemma rep_grows:
  assumes "fds_rep L hs src rs"
  shows "grows L (data_start_point (header src)) [] [src, src] rs"
proof -
  have l: "flash.log_at (datastore src) (data_start_point (header src)) rs"
    "data_insertion_point (header src) = flash.log_end (data_start_point (header src)) rs" "\<forall>r \<in> set rs. length (rkey r) = L"
    using assms by (auto simp: fds_rep_def log_ok_def)
  have "grows L (data_start_point (header src)) rs [src] rs"
    unfolding grows.simps by (rule exI [of _ "[]"]) (use l in simp)
  then show ?thesis unfolding grows.simps(2) [of L _ "[]" src "[src]"] by (intro exI [of _ rs]) (use l in simp)
qed

section \<open>Closing and opening a store\<close>



section \<open>Merge\<close>

text \<open>
  Property C10. \<^verbatim>\<open>Merge\<close> of a store whose log grows while it is scanned and that the scan catches up with: it
  returns, holding the lock exactly when it succeeds; the destination stays well formed; and its map is changed by
  the operations in the source's log, in order, up to the first deletion that is refused. Where it succeeds, every
  key whose insertion was not reported as failed has the value the source's log gives it, and the keys that the log
  does not mention keep theirs.
\<close>

theorem Merge_replays_log:
  assumes "disk_inv ps L hs ds" and "grows L (data_start_point (header other)) [] snaps rs"
  shows "\<exists>ok st. Merge hs ps ds other snaps = Ret (Some (ok, ok, st)) \<and> disk_inv ps L hs (other_db st)
    \<and> moves (fds_map hs ds) (log_ops rs) (insert_errors st) ok (fds_map hs (other_db st))
    \<and> (ok \<longrightarrow> (\<forall>k. k \<notin> set (insert_errors st) \<longrightarrow>
          fds_map hs (other_db st) k = (if k \<in> rkey ` set rs then replay (log_ops rs) Map.empty k else fds_map hs ds k)))"
proof -
  let ?st0 = "\<lparr>other_db = ds, insert_errors = []\<rparr>"
  obtain ok st where c: "Merge hs ps ds other snaps = Ret (Some (ok, ok, st))" "disk_inv ps L hs (other_db st)"
    "moves (fds_map hs ds) (log_ops rs) (insert_errors st) ok (fds_map hs (other_db st))"
    using SplitMerge_catches_up [OF assms(2), of ps hs ?st0 True "getStartID ds" "getEndID ds" False] assms(1)
    by (auto simp: Merge_def SplitMergeHelper_def merge_ops)
  have "fds_map hs (other_db st) k = (if k \<in> rkey ` set rs then replay (log_ops rs) Map.empty k else fds_map hs ds k)"
    if "ok" "k \<notin> set (insert_errors st)" for k
    using moves_replay [of "fds_map hs ds" "log_ops rs" "insert_errors st" "fds_map hs (other_db st)" k] that c(3)
      replay_touched [of k "log_ops rs" "fds_map hs ds" Map.empty] replay_untouched [of k "log_ops rs" "fds_map hs ds"]
    by (auto simp: log_ops_keys)
  then show ?thesis using c by auto
qed

definition demo_source :: fawnds where
  "demo_source = demo_run [Put [1, 2] [7, 8], Put [1, 3] [9]]"

definition demo_target :: fawnds where
  "demo_target = demo_run [Put [1, 3] [1], Put [4, 4] [5]]"

lemma demo_source_rep: "fds_rep 2 [demo_hash] demo_source [Data [1, 2] [7, 8], Data [1, 3] [9]]"
proof -
  have "run_ops (\<lambda>ds k v. Insert [demo_hash] ds (Some k) (Some v)) (\<lambda>ds k. Delete [demo_hash] ds (Some k)) demo_ds
      [Put [1, 2] [7, 8], Put [1, 3] [9]] = Ret ([True, True], demo_source)"
    by code_simp
  from demo_run_rep [OF this] show ?thesis by (simp add: demo_source_def op_record_def)
qed

lemma demo_target_disk: "disk_inv 1 2 [demo_hash] demo_target"
  unfolding demo_target_def by (rule demo_run_disk) simp

theorem Merge_replays_log_witness:
  "\<exists>ok st. Merge [demo_hash] 1 demo_target demo_source [demo_source, demo_source] = Ret (Some (ok, ok, st))
    \<and> disk_inv 1 2 [demo_hash] (other_db st)
    \<and> moves (fds_map [demo_hash] demo_target) (log_ops [Data [1, 2] [7, 8], Data [1, 3] [9]]) (insert_errors st) ok
        (fds_map [demo_hash] (other_db st))"
  using Merge_replays_log [OF demo_target_disk rep_grows [OF demo_source_rep]] by blast

section \<open>Split\<close>

text \<open>
  Property C34. \<^verbatim>\<open>Split\<close> fails whenever the log holds the deletion of a key that lies outside the range of the new
  store: the code applies every delete record to the new store before it looks at the range, and the deletion of a
  key that is not there is an error.
\<close>

theorem Split_fails_on_foreign_delete:
  assumes "disk_inv ps L hs other" and "grows L (data_start_point (header ds)) [] snaps rs"
    and "DeleteLog k \<in> set rs" and "\<not> in_range (getStartID other) (getEndID other) k" and "fds_map hs other k = None"
  shows "\<exists>st. Split hs ps ds other snaps = Ret (Some (False, False, st))"
proof -
  let ?st0 = "\<lparr>other_db = other, insert_errors = []\<rparr>" and ?R = "in_range (getStartID other) (getEndID other)"
  obtain ok st where c: "Split hs ps ds other snaps = Ret (Some (ok, ok, st))"
    "moves (fds_map hs other) (move_ops False ?R rs) (insert_errors st) ok (fds_map hs (other_db st))"
    using SplitMerge_catches_up [OF assms(2), of ps hs ?st0 False "getStartID other" "getEndID other" False] assms(1)
    by (auto simp: Split_def SplitMergeHelper_def)
  have "\<not> ok"
    using moves_foreign_remove [OF c(2) split_ops_mem(1) [OF assms(3)] _ assms(5)] split_ops_mem(2) [of ?R k _ rs] assms(4) by blast
  then show ?thesis using c(1) by simp
qed

text \<open>A fresh store for the range from \<open>0200\<dots>\<close> to \<open>0300\<dots>\<close>.\<close>

definition demo_ranged :: fawnds where
  "demo_ranged = snd (setEndID (snd (setStartID demo_ds (DBID [2, 0]))) (DBID [3, 0]))"

lemma demo_ranged_disk:
  "disk_inv 1 2 [demo_hash] demo_ranged" "fds_map [demo_hash] demo_ranged = Map.empty"
  "startID (header demo_ranged) = dbid_value (DBID [2, 0])" "endID (header demo_ranged) = dbid_value (DBID [3, 0])"
proof -
  obtain d1 where d1: "setStartID demo_ds (DBID [2, 0]) = (True, d1)" "disk_inv 1 2 [demo_hash] d1"
    "fds_map [demo_hash] d1 = fds_map [demo_hash] demo_ds" "header d1 = (header demo_ds)\<lparr>startID := dbid_value (DBID [2, 0])\<rparr>"
    by (rule setStartID_inv [OF demo_disk wf_DBID])
  obtain d2 where d2: "setEndID d1 (DBID [3, 0]) = (True, d2)" "disk_inv 1 2 [demo_hash] d2"
    "fds_map [demo_hash] d2 = fds_map [demo_hash] d1" "header d2 = (header d1)\<lparr>endID := dbid_value (DBID [3, 0])\<rparr>"
    by (rule setEndID_inv [OF d1(2) wf_DBID])
  have "demo_ranged = d2" using d1(1) d2(1) by (simp add: demo_ranged_def)
  then show "disk_inv 1 2 [demo_hash] demo_ranged" "fds_map [demo_hash] demo_ranged = Map.empty"
    "startID (header demo_ranged) = dbid_value (DBID [2, 0])" "endID (header demo_ranged) = dbid_value (DBID [3, 0])"
    using d1 d2 Create_rep(2) [OF demo_create _ _ _ _ hashes_ok_demo, of 2] by simp_all
qed

theorem Split_fails_on_foreign_delete_witness:
  "\<exists>st. Split [demo_hash] 1 (demo_run demo_ops) demo_ranged [demo_run demo_ops, demo_run demo_ops] = Ret (Some (False, False, st))"
proof (rule Split_fails_on_foreign_delete [OF demo_ranged_disk(1) rep_grows])
  have "run_ops (\<lambda>ds k v. Insert [demo_hash] ds (Some k) (Some v)) (\<lambda>ds k. Delete [demo_hash] ds (Some k)) demo_ds demo_ops
      = Ret ([True, True, True], demo_run demo_ops)"
    by code_simp
  from demo_run_rep [OF this] show "fds_rep 2 [demo_hash] (demo_run demo_ops) [Data [1, 2] [7, 8], Data [1, 3] [9], DeleteLog [1, 2]]"
    by (simp add: demo_ops_def op_record_def)
  show "DeleteLog [1, 2] \<in> set [Data [1, 2] [7, 8], Data [1, 3] [9], DeleteLog [1, 2]]" by simp
  have "\<not> in_range (DBID_Init (dbid_value (DBID [2, 0])) DBID_LENGTH) (DBID_Init (dbid_value (DBID [3, 0])) DBID_LENGTH) [1, 2]"
    by code_simp
  then show "\<not> in_range (getStartID demo_ranged) (getEndID demo_ranged) [1, 2]"
    by (simp add: getStartID_def getEndID_def demo_ranged_disk)
  show "fds_map [demo_hash] demo_ranged [1, 2] = None" by (simp add: demo_ranged_disk)
qed

section \<open>Rewrite\<close>

lemma fresh_store:
  assumes "fds_rep L hs ds rs" and "0 < ps" and "cap \<le> 2 ^ 32" and "unat (hashtable_size (header ds)) \<le> 2 ^ 30"
    and "Create_FawnDS_From_Fd ps cap (hashtable_size (header ds)) (number_elements (header ds)) (deleted_elements (header ds))
        (max_deleted_ratio (header ds)) (max_load_factor (header ds)) (keyFormat (header ds)) = Some new0"
  shows "disk_inv ps L hs new0" "fds_map hs new0 = Map.empty"
proof -
  have r: "geometry_ok ds" "log_ok L ds rs" "counts_ok ds" using assms(1) by (auto simp: fds_rep_def)
  obtain n where n: "3 \<le> n" "n \<le> 31" "hashtable_size (header ds) = 2 ^ n" using r(1) by (auto simp: geometry_ok_def)
  have "(2 :: nat) ^ 3 \<le> 2 ^ n" using n(1) by (rule power_increasing) simp
  then have h: "8 \<le> unat (hashtable_size (header ds))" using n by (simp add: unat_exp)
  have d: "unat (deleted_elements (header ds)) \<le> unat (number_elements (header ds))"
    "unat (number_elements (header ds)) \<le> 2 ^ 30"
    using r(3) assms(4) by (auto simp: counts_ok_def)
  have "unat (number_elements (header ds) - deleted_elements (header ds)) =
      unat (number_elements (header ds)) - unat (deleted_elements (header ds))"
    using d(1) by (simp add: unat_sub word_le_nat_alt)
  then have "unat (number_elements (header ds) - deleted_elements (header ds)) \<le> 2 ^ 30" using d(2) by simp
  then have m: "unat ((number_elements (header ds) - deleted_elements (header ds)) * 2) \<le> 2 ^ 31"
    using unat_mult_lem [of "number_elements (header ds) - deleted_elements (header ds)" 2] by simp
  have L: "0 < L" and hok: "hashes_ok L hs" using r(2) assms(1) by (auto simp: log_ok_def disk_inv_def fds_inv_def fds_rep_def)
  have "4 < max (unat (hashtable_size (header ds))) (unat ((number_elements (header ds) - deleted_elements (header ds)) * 2))"
    "max (unat (hashtable_size (header ds))) (unat ((number_elements (header ds) - deleted_elements (header ds)) * 2)) \<le> 2 ^ 31"
    using h m assms(4) by auto
  note c = Create_From_Fd_rep [OF assms(5) this assms(3) L hok]
  then show "disk_inv ps L hs new0" using Create_disk_inv [OF assms(5,2)] unfolding fds_inv_def by blast
  show "fds_map hs new0 = Map.empty" by (rule c)
qed

text \<open>
  Property C11. \<^verbatim>\<open>Rewrite\<close> of a store that nobody writes to, in which no key of its range has been deleted and inserted
  again: it inserts the live pairs of the range into a fresh store, and returns that store exactly when all these
  insertions succeed. The new store's map is that of the old one, cut to the range. The range itself is not copied:
  the new store is responsible for every key.
\<close>

theorem Rewrite_keeps_live_range:
  assumes "fds_rep L hs ds rs" and "0 < ps" and "cap \<le> 2 ^ 32" and "unat (hashtable_size (header ds)) \<le> 2 ^ 30"
    and "Create_FawnDS_From_Fd ps cap (hashtable_size (header ds)) (number_elements (header ds)) (deleted_elements (header ds))
        (max_deleted_ratio (header ds)) (max_load_factor (header ds)) (keyFormat (header ds)) = Some new0"
    and "\<forall>k. DeleteLog k \<in> set rs \<and> in_range (getStartID ds) (getEndID ds) k \<longrightarrow> fds_map hs ds k = None"
  shows "\<exists>bs new1. run_ops (\<lambda>ds k v. Insert hs ds (Some k) (Some v)) (\<lambda>ds k. Delete hs ds (Some k)) new0
        (map (\<lambda>(k, v). Put k v) (live_pairs hs ds (flash.rec_offsets (data_start_point (header ds)) rs))) = Ret (bs, new1)
    \<and> (if list_all (\<lambda>b. b) bs
       then \<exists>new2. Rewrite hs ps cap ds [ds, ds] = Ret (Some (True, Some new2)) \<and> disk_inv ps L hs new2
         \<and> fds_map hs new2 = (\<lambda>k. if in_range (getStartID ds) (getEndID ds) k then fds_map hs ds k else None)
         \<and> (\<forall>k. in_range (getStartID new2) (getEndID new2) k)
       else Rewrite hs ps cap ds [ds, ds] = Ret (Some (False, None)))"
proof -
  let ?puts = "map (\<lambda>(k, v). Put k v) (live_pairs hs ds (flash.rec_offsets (data_start_point (header ds)) rs))"
  let ?ins = "\<lambda>ds k v. Insert hs ds (Some k) (Some v)" and ?del = "\<lambda>ds k. Delete hs ds (Some k)"
  let ?R = "in_range (getStartID ds) (getEndID ds)"
  have new: "disk_inv ps L hs new0" "fds_map hs new0 = Map.empty" using fresh_store [OF assms(1-5)] by auto
  have keys: "\<forall>x \<in> set ?puts. length (op_key x) = L"
    using rep_rec_key(1) [OF assms(1)] by (fastforce simp: live_pairs_mem)
  obtain bs new1 where run: "run_ops ?ins ?del new0 ?puts = Ret (bs, new1)" "disk_inv ps L hs new1" "length bs = length ?puts"
    "fds_map hs new1 = apply_ops Map.empty ?puts bs"
    using fawnds_disk.run_refines [OF new(1) keys] new(2) by auto
  obtain new2 where p: "run_puts hs new0 (live_pairs hs ds (flash.rec_offsets (data_start_point (header ds)) rs)) = Ret (list_all (\<lambda>b. b) bs, new2)"
    "list_all (\<lambda>b. b) bs \<longrightarrow> new2 = new1"
    using run_puts_ops [OF run(1)] by blast
  obtain new3 where c: "catch_up (WriteHashtableToFile ps) (Rewrite_record hs (getStartID ds) (getEndID ds)) False
      (data_start_point (header ds)) new0 [ds, ds] = Ret (Some (list_all (\<lambda>b. b) bs, list_all (\<lambda>b. b) bs, new3))"
    "list_all (\<lambda>b. b) bs \<longrightarrow> disk_inv ps L hs new3 \<and> fds_map hs new3 = fds_map hs new2 \<and> header new3 = header new2"
    using Rewrite_catch_up [OF assms(1) new(1) assms(6) p(1)] p(2) run(2) by auto
  have m: "fds_map hs new1 = (\<lambda>k. if ?R k then fds_map hs ds k else None)" if "list_all (\<lambda>b. b) bs"
  proof -
    let ?l = "live_pairs hs ds (flash.rec_offsets (data_start_point (header ds)) rs)"
    have "\<forall>(k, v) \<in> set ?l. fds_map hs ds k = Some v" using live_pairs_map [OF assms(1)] by blast
    moreover have "length bs = length ?l" using run(3) by simp
    ultimately have "fds_map hs new1 = (\<lambda>k. if k \<in> fst ` set ?l then fds_map hs ds k else None)"
      unfolding run(4) using apply_puts [OF that] by blast
    moreover have "k \<in> fst ` A \<longleftrightarrow> (\<exists>v. (k, v) \<in> A)" for k :: bytes and A :: "(bytes \<times> bytes) set" by force
    then have "k \<in> fst ` set ?l \<longleftrightarrow> ?R k \<and> fds_map hs ds k \<noteq> None" for k
      by (simp add: live_pairs_map [OF assms(1)])
    ultimately show ?thesis by auto
  qed
  have z: "startID (header new0) = endID (header new0)"
    using assms(5) by (auto simp: Create_FawnDS_From_Fd_def Let_def split: if_splits)
  have "in_range (getStartID new3) (getEndID new3) k" if "list_all (\<lambda>b. b) bs" for k
  proof -
    have "startID (header new3) = endID (header new3)"
      using that c(2) z run_puts_layout [OF p(1)] by (simp add: same_layout_def)
    then show ?thesis by (simp add: in_range_def getStartID_def getEndID_def between_def dbid_eq_def)
  qed
  note all = m this
  show ?thesis
    by (intro exI conjI, rule run(1)) (use c p(2) all assms(5) in \<open>auto simp: Rewrite_def\<close>)
qed

definition demo_fresh :: fawnds where
  "demo_fresh = the (Create_FawnDS_From_Fd 1 1000 (hashtable_size (header demo_source)) (number_elements (header demo_source))
     (deleted_elements (header demo_source)) (max_deleted_ratio (header demo_source)) (max_load_factor (header demo_source))
     (keyFormat (header demo_source)))"

theorem Rewrite_keeps_live_range_witness:
  "\<exists>bs new1. run_ops (\<lambda>ds k v. Insert [demo_hash] ds (Some k) (Some v)) (\<lambda>ds k. Delete [demo_hash] ds (Some k)) demo_fresh
        (map (\<lambda>(k, v). Put k v) (live_pairs [demo_hash] demo_source
          (flash.rec_offsets (data_start_point (header demo_source)) [Data [1, 2] [7, 8], Data [1, 3] [9]]))) = Ret (bs, new1)
    \<and> (if list_all (\<lambda>b. b) bs
       then \<exists>new2. Rewrite [demo_hash] 1 1000 demo_source [demo_source, demo_source] = Ret (Some (True, Some new2))
         \<and> disk_inv 1 2 [demo_hash] new2
         \<and> fds_map [demo_hash] new2 = (\<lambda>k. if in_range (getStartID demo_source) (getEndID demo_source) k
              then fds_map [demo_hash] demo_source k else None)
         \<and> (\<forall>k. in_range (getStartID new2) (getEndID new2) k)
       else Rewrite [demo_hash] 1 1000 demo_source [demo_source, demo_source] = Ret (Some (False, None)))"
proof (rule Rewrite_keeps_live_range [OF demo_source_rep])
  have "hashtable_size (header demo_source) = 8" by code_simp
  then show "unat (hashtable_size (header demo_source)) \<le> 2 ^ 30" by simp
  show "Create_FawnDS_From_Fd 1 1000 (hashtable_size (header demo_source)) (number_elements (header demo_source))
     (deleted_elements (header demo_source)) (max_deleted_ratio (header demo_source)) (max_load_factor (header demo_source))
     (keyFormat (header demo_source)) = Some demo_fresh"
    by code_simp
qed simp_all

text \<open>
  A store in which a key was inserted, deleted and inserted again cannot be rewritten: the code looks the
  key of a delete record up in the old store, finds the later insertion there and tries to delete the key from the new
  store, which does not hold it yet.
\<close>

theorem Rewrite_fails_after_reinsert:
  "Rewrite [demo_hash] 1 1000 (demo_run [Put [1, 2] [7], Remove [1, 2], Put [1, 2] [8]])
     [demo_run [Put [1, 2] [7], Remove [1, 2], Put [1, 2] [8]], demo_run [Put [1, 2] [7], Remove [1, 2], Put [1, 2] [8]]]
   = Ret (Some (False, None))
   \<and> Get [demo_hash] (demo_run [Put [1, 2] [7], Remove [1, 2], Put [1, 2] [8]]) (Some [1, 2]) [] = Ret (True, [8])"
  by code_simp

end
