(* ===== verification/Net_Id.thy ===== *)
theory Net_Id
  imports Prelude
begin

text \<open>
  Textual node identifiers \<^verbatim>\<open>"ip:port"\<close> (\<^verbatim>\<open>utils/print.cc\<close>): how they are built with
  \<^verbatim>\<open>sprintf\<close> and taken apart again with \<^verbatim>\<open>find\<close>, \<^verbatim>\<open>substr\<close> and \<^verbatim>\<open>strtol\<close>.
\<close>

section \<open>Decimal numbers\<close>

definition digit :: "nat \<Rightarrow> byte" where
  "digit n = of_nat (48 + n)"

fun dec_nat :: "nat \<Rightarrow> bytes" where
  "dec_nat n = (if n < 10 then [digit n] else dec_nat (n div 10) @ [digit (n mod 10)])"

declare dec_nat.simps [simp del]

text \<open>What \<^verbatim>\<open>sprintf(s, "%d", i)\<close> writes, without the terminating null byte.\<close>

definition dec_int :: "int \<Rightarrow> bytes" where
  "dec_int i = (if i < 0 then 45 # dec_nat (nat (- i)) else dec_nat (nat i))"

definition is_digit :: "byte \<Rightarrow> bool" where
  "is_digit b \<longleftrightarrow> 48 \<le> b \<and> b \<le> 57"

text \<open>\<^verbatim>\<open>strtol(s, NULL, 10)\<close>: leading white space, an optional sign, then the longest run of digits,
  clamped to the range of \<^verbatim>\<open>long\<close>.\<close>

definition is_space :: "byte \<Rightarrow> bool" where
  "is_space b \<longleftrightarrow> b = 32 \<or> 9 \<le> b \<and> b \<le> 13"

definition digits_value :: "bytes \<Rightarrow> nat" where
  "digits_value ds = foldl (\<lambda>v d. 10 * v + (unat d - 48)) 0 ds"

definition strtol10 :: "bytes \<Rightarrow> int" where
  "strtol10 s =
    (let s = dropWhile is_space s;
         (neg, s) = (case s of c # cs \<Rightarrow> if c = 45 then (True, cs) else if c = 43 then (False, cs) else (False, s) | [] \<Rightarrow> (False, s));
         v = int (digits_value (takeWhile is_digit s));
         v = (if neg then - v else v)
     in max (- (2 ^ 63)) (min (2 ^ 63 - 1) v))"

section \<open>Node identifiers\<close>

definition getID :: "bytes \<Rightarrow> 32 word \<Rightarrow> bytes" where
  "getID ip port = ip @ [58] @ dec_int (sint port)"

text \<open>The number of bytes \<^verbatim>\<open>getID\<close> writes into its buffer \<^verbatim>\<open>char sport[7]\<close>, the null byte included.\<close>

definition sport_written :: "32 word \<Rightarrow> nat" where
  "sport_written port = length (dec_int (sint port)) + 1"

definition getIP :: "bytes \<Rightarrow> bytes" where
  "getIP i = takeWhile (\<lambda>c. c \<noteq> 58) i"

definition getPort :: "bytes \<Rightarrow> 32 word" where
  "getPort i =
    (let p = (if 58 \<in> set i then drop (length (takeWhile (\<lambda>c. c \<noteq> 58) i) + 1) i else i)
     in word_of_int (strtol10 p))"

section \<open>Laws\<close>

lemma unat_digit: "n < 10 \<Longrightarrow> unat (digit n) = 48 + n"
  unfolding digit_def unat_of_nat by (simp add: take_bit_nat_eq_self)

lemma is_digit_digit: "n < 10 \<Longrightarrow> is_digit (digit n)"
  using unat_digit [of n] by (simp add: is_digit_def word_le_nat_alt)

lemma dec_nat_digits: "b \<in> set (dec_nat n) \<Longrightarrow> is_digit b"
proof (induction n rule: dec_nat.induct)
  case (1 n)
  from 1(2) show ?case
    by (subst (asm) dec_nat.simps) (use 1(1) in \<open>auto simp: is_digit_digit split: if_splits\<close>)
qed

lemma digits_value_dec_nat [simp]: "digits_value (dec_nat n) = n"
proof (induction n rule: dec_nat.induct)
  case (1 n)
  then show ?case
    by (subst dec_nat.simps) (simp add: digits_value_def unat_digit)
qed

lemma dec_nat_nonempty: "dec_nat n \<noteq> []"
  by (subst dec_nat.simps) simp

lemma takeWhile_dec_nat: "takeWhile is_digit (dec_nat n) = dec_nat n"
  using dec_nat_digits by (simp add: takeWhile_eq_all_conv)

lemma dec_nat_head: "\<exists>c cs. dec_nat n = c # cs \<and> is_digit c"
  using dec_nat_nonempty [of n] dec_nat_digits [of _ n] by (cases "dec_nat n") auto

lemma not_is_digit: "is_digit c \<Longrightarrow> c \<noteq> 45 \<and> c \<noteq> 43 \<and> c \<noteq> 58 \<and> \<not> is_space c"
  by (auto simp: is_digit_def is_space_def word_le_nat_alt)

lemma strtol10_dec_int:
  assumes "- (2 ^ 63) \<le> i" and "i < 2 ^ 63"
  shows "strtol10 (dec_int i) = i"
proof (cases "i < 0")
  case True
  then show ?thesis
    using assms by (simp add: strtol10_def dec_int_def takeWhile_dec_nat is_space_def)
next
  case False
  obtain c cs where c: "dec_nat (nat i) = c # cs" "is_digit c"
    using dec_nat_head [of "nat i"] by blast
  then have "dropWhile is_space (dec_nat (nat i)) = dec_nat (nat i)"
    using not_is_digit by simp
  moreover have "digits_value (takeWhile is_digit (dec_nat (nat i))) = nat i"
    by (simp add: takeWhile_dec_nat)
  ultimately show ?thesis
    using assms False c not_is_digit [of c] by (simp add: strtol10_def dec_int_def)
qed

lemma dec_int_no_colon: "58 \<notin> set (dec_int i)"
  using dec_nat_digits [of 58] not_is_digit [of 58] by (auto simp: dec_int_def)

lemma sint_32_range: "- (2 ^ 31) \<le> sint (p :: 32 word)" "sint p < 2 ^ 31"
  using sint_ge [of p] sint_lt [of p] by simp_all

lemma dec_nat_length: "0 < k \<Longrightarrow> length (dec_nat n) \<le> k \<longleftrightarrow> n < 10 ^ k"
proof (induction n arbitrary: k rule: dec_nat.induct)
  case (1 n)
  show ?case
  proof (cases "n < 10")
    case True
    have "n < 10 ^ k" using True 1(2) by (metis less_le_trans less_one not_le power_increasing power_one_right one_le_numeral leD nat_neq_iff Suc_leI One_nat_def)
    then show ?thesis using True 1(2) by (subst dec_nat.simps) simp
  next
    case False
    then obtain j where k: "k = Suc j" using 1(2) by (cases k) auto
    show ?thesis
    proof (cases j)
      case 0
      then show ?thesis using False k dec_nat_nonempty [of "n div 10"] by (subst dec_nat.simps) simp
    next
      case (Suc i)
      have "length (dec_nat (n div 10)) \<le> j \<longleftrightarrow> n div 10 < 10 ^ j"
        using 1(1) [OF False] Suc by simp
      moreover have "n div 10 < 10 ^ j \<longleftrightarrow> n < 10 ^ k"
        using k by (simp add: div_less_iff_less_mult mult.commute)
      ultimately show ?thesis using False k by (subst dec_nat.simps) simp
    qed
  qed
qed

lemma getID_parts:
  assumes "58 \<notin> set ip"
  shows "getIP (getID ip port) = ip \<and> getPort (getID ip port) = port"
proof
  show "getIP (getID ip port) = ip"
    using assms by (auto simp: getIP_def getID_def takeWhile_append takeWhile_eq_all_conv)
  have "takeWhile (\<lambda>c. c \<noteq> 58) (getID ip port) = ip"
    using assms by (auto simp: getID_def takeWhile_append takeWhile_eq_all_conv)
  then have "getPort (getID ip port) = word_of_int (strtol10 (dec_int (sint port)))"
    by (simp add: getPort_def getID_def)
  then show "getPort (getID ip port) = port"
    using sint_32_range [of port] by (simp add: strtol10_dec_int)
qed

text \<open>
  \<^verbatim>\<open>getIP\<close> and \<^verbatim>\<open>getPort\<close> take a node identifier apart into the address and the port it was
  built from, for every address without a colon and every 32-bit port.
\<close>

theorem getID_roundtrip:
  assumes "58 \<notin> set ip"
  shows "getIP (getID ip port) = ip \<and> getPort (getID ip port) = port"
  by (rule getID_parts [OF assms])

theorem getID_roundtrip_witness:
  "getIP (getID [49, 46, 50] 4000) = [49, 46, 50] \<and> getPort (getID [49, 46, 50] 4000) = 4000"
  by (rule getID_roundtrip) simp

text \<open>
  \<^verbatim>\<open>getID\<close> stays inside its seven-byte buffer exactly for ports from -99999 to 999999; every valid
  TCP port is in that range, an arbitrary \<^verbatim>\<open>int32_t\<close> from a message is not.
\<close>

theorem getID_buffer_bound: "sport_written port \<le> 7 \<longleftrightarrow> - 99999 \<le> sint port \<and> sint port \<le> 999999"
proof (cases "sint port < 0")
  case True
  then have "sport_written port \<le> 7 \<longleftrightarrow> length (dec_nat (nat (- sint port))) \<le> 5"
    by (simp add: sport_written_def dec_int_def)
  then show ?thesis using True dec_nat_length [of 5 "nat (- sint port)"] by auto
next
  case False
  then have "sport_written port \<le> 7 \<longleftrightarrow> length (dec_nat (nat (sint port))) \<le> 6"
    by (simp add: sport_written_def dec_int_def)
  then show ?thesis using False dec_nat_length [of 6 "nat (sint port)"] by auto
qed

end
