(* ===== verification/Ring_Nodes.thy ===== *)
theory Ring_Nodes
  imports Dbid Net_Id "HOL-Library.List_Lexorder"
begin

text \<open>
  Physical nodes, virtual nodes and replica groups (\<^verbatim>\<open>fawnkv/node.cpp\<close>, \<^verbatim>\<open>virtualnode.cpp\<close>,
  \<^verbatim>\<open>nodehandle.cpp\<close>) and the searches over the list of virtual nodes that
  \<^verbatim>\<open>fawnkv/ring.cpp\<close> and \<^verbatim>\<open>fawnkv/Manager.cpp\<close> both contain. A pointer to a \<^verbatim>\<open>Node\<close> is an
  index into a heap of nodes, so that the code's pointer comparisons and its comparisons by
  address and port stay apart.
\<close>

section \<open>Nodes\<close>

datatype health_status = ALIVE | ARRHYTHMIA | DEAD

type_synonym node_ref = nat

record node =
  valid :: bool
  IP :: bytes
  port :: "32 word"
  vnodes :: "dbid list"
  cardiacState :: health_status
  beatsMissed :: "32 word"

definition Node_new :: "bytes \<Rightarrow> 32 word \<Rightarrow> node" where
  "Node_new ip p = \<lparr>valid = True, IP = ip, port = p, vnodes = [], cardiacState = ALIVE, beatsMissed = 0\<rparr>"

text \<open>\<^verbatim>\<open>Node::addVnode\<close> keeps its list ascending and refuses a second copy.\<close>

fun insert_vid :: "dbid \<Rightarrow> dbid list \<Rightarrow> dbid list" where
  "insert_vid vid [] = [vid]"
| "insert_vid vid (i # is) =
    (if dbid_less vid i then vid # i # is
     else if dbid_eq i vid then i # is
     else i # insert_vid vid is)"

definition addVnode :: "node \<Rightarrow> dbid \<Rightarrow> node" where
  "addVnode nd vid = nd\<lparr>vnodes := insert_vid vid (vnodes nd)\<rparr>"

definition setAlive :: "node \<Rightarrow> node" where
  "setAlive nd = nd\<lparr>beatsMissed := 0, cardiacState := ALIVE\<rparr>"

definition setDead :: "node \<Rightarrow> node" where
  "setDead nd = nd\<lparr>cardiacState := DEAD\<rparr>"

definition increment_beats_missed :: "node \<Rightarrow> node" where
  "increment_beats_missed nd = nd\<lparr>beatsMissed := beatsMissed nd + 1\<rparr>"

definition node_eq :: "node \<Rightarrow> node \<Rightarrow> bool" where
  "node_eq a b \<longleftrightarrow> IP a = IP b \<and> port a = port b"

text \<open>\<^verbatim>\<open>operator<\<close>: addresses compare as strings of unsigned bytes, ports as signed integers.\<close>

definition node_less :: "node \<Rightarrow> node \<Rightarrow> bool" where
  "node_less a b =
    (if IP a < IP b then True
     else if IP a = IP b then sint (port a) < sint (port b)
     else False)"

section \<open>The table of nodes\<close>

text \<open>\<^verbatim>\<open>createNode\<close> of both classes: \<^verbatim>\<open>ip_node_map\<close> finds the node for an identifier, or a new one is
  allocated and entered.\<close>

record node_table =
  heap :: "node list"
  ip_node_map :: "bytes \<rightharpoonup> node_ref"

definition createNode :: "'a node_table_scheme \<Rightarrow> bytes \<Rightarrow> 32 word \<Rightarrow> node_ref \<times> 'a node_table_scheme" where
  "createNode t ip p =
    (let nid = getID ip p
     in case ip_node_map t nid of
          None \<Rightarrow> (length (heap t), t\<lparr>heap := heap t @ [Node_new ip p], ip_node_map := (ip_node_map t)(nid \<mapsto> length (heap t))\<rparr>)
        | Some r \<Rightarrow> (r, t))"

definition node_id :: "node \<Rightarrow> bytes" where
  "node_id nd = getID (IP nd) (port nd)"

section \<open>Virtual nodes and searches over the ring\<close>

record virtual_node =
  vn_n :: node_ref
  vn_id :: dbid

text \<open>The constructor copies the identifier with \<^verbatim>\<open>DBID(a->data(), a->size())\<close>, where \<^verbatim>\<open>size()\<close> is the
  full length.\<close>

definition VirtualNode :: "node_ref \<Rightarrow> dbid \<Rightarrow> virtual_node" where
  "VirtualNode nde a = \<lparr>vn_n = nde, vn_id = DBID_Init (dbid_value a) DBID_LENGTH\<rparr>"

text \<open>The loop for the first virtual node at or after a key, with the index of the iterator.\<close>

fun owner_scan :: "dbid \<Rightarrow> virtual_node list \<Rightarrow> nat \<Rightarrow> nat option" where
  "owner_scan k [] i = None"
| "owner_scan k (v # vs) i =
    (if dbid_less k (vn_id v) \<or> dbid_eq k (vn_id v) then Some i else owner_scan k vs (i + 1))"

definition owner_index :: "virtual_node list \<Rightarrow> dbid \<Rightarrow> nat" where
  "owner_index nl k = (case owner_scan k nl 0 of Some i \<Rightarrow> i | None \<Rightarrow> 0)"

definition range_key :: "virtual_node list \<Rightarrow> dbid \<Rightarrow> dbid option" where
  "range_key nl k = (if nl = [] then None else Some (vn_id (nl ! owner_index nl k)))"

fun pred_scan :: "virtual_node list \<Rightarrow> dbid \<Rightarrow> virtual_node list \<Rightarrow> bool \<Rightarrow> virtual_node option \<Rightarrow> virtual_node option" where
  "pred_scan nl x [] begin_p pred = pred"
| "pred_scan nl x (v # vs) begin_p pred =
    (if dbid_less (vn_id v) x then pred_scan nl x vs False (Some v)
     else if begin_p then Some (last nl) else pred)"

definition getPredecessor :: "virtual_node list \<Rightarrow> dbid \<Rightarrow> virtual_node option" where
  "getPredecessor nl x = pred_scan nl x nl True None"

definition next_index :: "'a list \<Rightarrow> nat \<Rightarrow> nat" where
  "next_index nl i = (if i + 1 = length nl then 0 else i + 1)"

fun succ_eq_scan :: "virtual_node list \<Rightarrow> dbid \<Rightarrow> virtual_node list \<Rightarrow> nat \<Rightarrow> virtual_node option" where
  "succ_eq_scan nl x [] i = None"
| "succ_eq_scan nl x (v # vs) i =
    (if dbid_eq (vn_id v) x then Some (nl ! next_index nl i) else succ_eq_scan nl x vs (i + 1))"

fun succ_between_scan :: "virtual_node list \<Rightarrow> dbid \<Rightarrow> virtual_node list \<Rightarrow> nat \<Rightarrow> virtual_node option" where
  "succ_between_scan nl x [] i = None"
| "succ_between_scan nl x (v # vs) i =
    (if between (vn_id v) (vn_id (nl ! next_index nl i)) x then Some (nl ! next_index nl i)
     else succ_between_scan nl x vs (i + 1))"

definition getSuccessor :: "virtual_node list \<Rightarrow> dbid \<Rightarrow> virtual_node option" where
  "getSuccessor nl x =
    (case succ_eq_scan nl x nl 0 of
       Some s \<Rightarrow> Some s
     | None \<Rightarrow> succ_between_scan nl x nl 0)"

text \<open>\<^verbatim>\<open>Manager::addNodetoRing\<close>, \<^verbatim>\<open>removeNodefromRing\<close> and \<^verbatim>\<open>removeVirtualNodefromRing\<close> on the list.\<close>

fun insert_vn :: "virtual_node \<Rightarrow> virtual_node list \<Rightarrow> virtual_node list" where
  "insert_vn n [] = [n]"
| "insert_vn n (v # vs) =
    (if dbid_less (vn_id n) (vn_id v) then n # v # vs
     else if dbid_eq (vn_id v) (vn_id n) then v # vs
     else v # insert_vn n vs)"

definition remove_node_vns :: "node list \<Rightarrow> node_ref \<Rightarrow> virtual_node list \<Rightarrow> virtual_node list" where
  "remove_node_vns h n nl = filter (\<lambda>v. \<not> node_eq (h ! vn_n v) (h ! n)) nl"

fun remove_vn :: "dbid \<Rightarrow> virtual_node list \<Rightarrow> virtual_node list" where
  "remove_vn i [] = []"
| "remove_vn i (v # vs) = (if dbid_eq (vn_id v) i then vs else v # remove_vn i vs)"

section \<open>Replica groups\<close>

record node_handle =
  nh_owner :: node_ref
  replicaGroup :: "node_ref list"

text \<open>
  The clockwise search of \<^verbatim>\<open>getReplicaGroup\<close>: \<open>left\<close> is \<^verbatim>\<open>num_items - num_examined\<close>, \<open>i\<close> the iterator.
  The owner is skipped by pointer, other nodes by address and port.
\<close>

fun replica_scan :: "node list \<Rightarrow> virtual_node list \<Rightarrow> node_ref \<Rightarrow> u32 \<Rightarrow> nat \<Rightarrow> nat \<Rightarrow> node_ref list \<Rightarrow> node_ref list" where
  "replica_scan h nl owner r 0 i replicas = replicas"
| "replica_scan h nl owner r (Suc left) i replicas =
    (if length replicas < unat r then
       let n = vn_n (nl ! i);
           replicas = (if n \<noteq> owner \<and> \<not> (\<exists>q \<in> set replicas. node_eq (h ! n) (h ! q)) then replicas @ [n] else replicas)
       in replica_scan h nl owner r left (next_index nl i) replicas
     else replicas)"

definition replica_group :: "node list \<Rightarrow> virtual_node list \<Rightarrow> u32 \<Rightarrow> dbid \<Rightarrow> node_handle option" where
  "replica_group h nl r k =
    (if nl = [] then None
     else
       let i = owner_index nl k;
           owner = vn_n (nl ! i);
           replicas = replica_scan h nl owner r (length nl - 1) (next_index nl i) [owner]
       in Some \<lparr>nh_owner = owner, replicaGroup = tl replicas\<rparr>)"

text \<open>The loop of \<^verbatim>\<open>retrievePutTarget\<close>; the result is the target and the number of skipped nodes.\<close>

function put_scan :: "node list \<Rightarrow> node_ref list \<Rightarrow> node_ref \<Rightarrow> nat \<Rightarrow> node_ref \<times> nat" where
  "put_scan h g target i =
    (if \<not> valid (h ! target) \<and> i < length g then put_scan h g (g ! i) (i + 1) else (target, i))"
  by pat_completeness auto
termination by (relation "measure (\<lambda>(h, g, t, i). length g - i)") auto

definition retrievePutTarget :: "node list \<Rightarrow> node_handle \<Rightarrow> node_ref option \<times> nat" where
  "retrievePutTarget h nh =
    (let g = replicaGroup nh; (target, i) = put_scan h g (nh_owner nh) 0
     in (if i \<noteq> 0 \<and> i = length g then None else Some target, i))"

text \<open>The downward loops of \<^verbatim>\<open>retrieveGetTarget\<close>; \<open>i\<close> counts one more than the code's index, which runs
  to \<open>-1\<close>.\<close>

fun get_scan :: "node list \<Rightarrow> node_ref list \<Rightarrow> node_ref \<Rightarrow> nat \<Rightarrow> node_ref" where
  "get_scan h g target 0 = target"
| "get_scan h g target (Suc i) = (if \<not> valid (h ! target) then get_scan h g (g ! i) i else target)"

text \<open>\<^verbatim>\<open>replicaGroup.back()\<close> of an empty group is undefined: \<open>Fault\<close>.\<close>

definition retrieveGetTarget :: "node list \<Rightarrow> node_handle \<Rightarrow> bool \<Rightarrow> node_ref res" where
  "retrieveGetTarget h nh interimTail =
    (let g = replicaGroup nh
     in if interimTail \<and> g = [] then Fault
        else if interimTail \<and> \<not> valid (h ! last g) then
          (if length g \<ge> 2 then Ret (get_scan h g (g ! (length g - 2)) (length g - 1))
           else if valid (h ! (g ! 0)) then Ret (g ! 0) else Ret (nh_owner nh))
        else if length g > 0 then Ret (get_scan h g (last g) (length g))
        else Ret (nh_owner nh))"

end
