(* ===== verification/Ring_Laws.thy ===== *)
theory Ring_Laws
  imports Ring_Nodes
begin

text \<open>
  What the ring searches compute on an ascending list of virtual nodes: the owner of a key is the
  unique virtual node whose arc contains it, predecessor and successor are its neighbours on the
  ring, and a replica group is the first distinct nodes met clockwise from the owner.
\<close>

section \<open>Ascending rings\<close>

definition ring_sorted :: "virtual_node list \<Rightarrow> bool" where
  "ring_sorted nl \<longleftrightarrow> (\<forall>v \<in> set nl. wf_dbid (vn_id v)) \<and> sorted_wrt (\<lambda>a b. dbid_num (vn_id a) < dbid_num (vn_id b)) nl"

definition prev_index :: "'a list \<Rightarrow> nat \<Rightarrow> nat" where
  "prev_index nl i = (if i = 0 then length nl - 1 else i - 1)"

abbreviation vnum :: "virtual_node \<Rightarrow> nat" where
  "vnum v \<equiv> dbid_num (vn_id v)"

lemma ring_sorted_wf [simp]: "ring_sorted nl \<Longrightarrow> i < length nl \<Longrightarrow> wf_dbid (vn_id (nl ! i))"
  by (simp add: ring_sorted_def)

lemma ring_sorted_less: "ring_sorted nl \<Longrightarrow> i < j \<Longrightarrow> j < length nl \<Longrightarrow> vnum (nl ! i) < vnum (nl ! j)"
  unfolding ring_sorted_def by (metis (lifting) sorted_wrt_nth_less)

lemma ring_sorted_le: "ring_sorted nl \<Longrightarrow> i \<le> j \<Longrightarrow> j < length nl \<Longrightarrow> vnum (nl ! i) \<le> vnum (nl ! j)"
  using ring_sorted_less [of nl i j] by (cases "i = j") auto

lemma ring_sorted_inj: "ring_sorted nl \<Longrightarrow> i < length nl \<Longrightarrow> j < length nl \<Longrightarrow> vnum (nl ! i) = vnum (nl ! j) \<longleftrightarrow> i = j"
  using ring_sorted_less [of nl i j] ring_sorted_less [of nl j i] by (cases i j rule: linorder_cases) auto

lemma ring_sorted_code:
  "ring_sorted nl \<longleftrightarrow> (\<forall>v \<in> set nl. wf_dbid (vn_id v)) \<and> sorted_wrt (\<lambda>a b. dbid_less (vn_id a) (vn_id b)) nl"
proof -
  have "sorted_wrt (\<lambda>a b. vnum a < vnum b) nl = sorted_wrt (\<lambda>a b. dbid_less (vn_id a) (vn_id b)) nl"
    if "\<forall>v \<in> set nl. wf_dbid (vn_id v)"
    using that by (intro iffI; elim sorted_wrt_mono_rel [rotated]) (auto simp: order_simps)
  then show ?thesis by (auto simp: ring_sorted_def)
qed

lemma wf_VirtualNode [simp]: "wf_dbid a \<Longrightarrow> wf_dbid (vn_id (VirtualNode n a))"
  by (simp add: VirtualNode_def wf_DBID_Init wf_dbid_def [of a] DBID_LENGTH_def)

lemma dbid_num_VirtualNode [simp]: "wf_dbid a \<Longrightarrow> vnum (VirtualNode n a) = dbid_num a"
  by (simp add: VirtualNode_def dbid_num_def DBID_Init_def DBID_LENGTH_def wf_dbid_def)

lemma vn_n_VirtualNode [simp]: "vn_n (VirtualNode n a) = n"
  by (simp add: VirtualNode_def)

lemma owner_scan_Some:
  assumes "\<forall>v \<in> set vs. wf_dbid (vn_id v)" and "wf_dbid k" and "owner_scan k vs i = Some j"
  shows "\<exists>m. j = i + m \<and> m < length vs \<and> dbid_num k \<le> vnum (vs ! m) \<and> (\<forall>l < m. vnum (vs ! l) < dbid_num k)"
  using assms
proof (induction vs arbitrary: i)
  case Nil
  then show ?case by simp
next
  case (Cons v vs)
  have hit: "dbid_less k (vn_id v) \<or> dbid_eq k (vn_id v) \<longleftrightarrow> dbid_num k \<le> vnum v"
    using Cons.prems by (auto simp: order_simps)
  show ?case
  proof (cases "dbid_num k \<le> vnum v")
    case True
    then show ?thesis using hit Cons.prems by (intro exI [of _ 0]) auto
  next
    case False
    then obtain m where m: "j = i + 1 + m" "m < length vs" "dbid_num k \<le> vnum (vs ! m)" "\<forall>l < m. vnum (vs ! l) < dbid_num k"
      using hit Cons.IH [of "i + 1"] Cons.prems by auto
    then have "vnum ((v # vs) ! l) < dbid_num k" if "l < Suc m" for l
      using that False by (cases l) auto
    with m show ?thesis by (intro exI [of _ "Suc m"]) simp
  qed
qed

lemma owner_scan_None:
  assumes "\<forall>v \<in> set vs. wf_dbid (vn_id v)" and "wf_dbid k"
  shows "owner_scan k vs i = None \<longleftrightarrow> (\<forall>v \<in> set vs. vnum v < dbid_num k)"
  using assms by (induction vs arbitrary: i) (auto simp: order_simps)

lemma owner_index_less: "nl \<noteq> [] \<Longrightarrow> owner_index nl k < length nl"
proof -
  have "owner_scan k vs i = Some j \<Longrightarrow> j < i + length vs" for vs i j
    by (induction vs arbitrary: i) (auto split: if_splits, fastforce)
  from this [of nl 0] show "nl \<noteq> [] \<Longrightarrow> owner_index nl k < length nl"
    by (auto simp: owner_index_def split: option.splits)
qed

text \<open>The owner: the first identifier not below the key, or the first of all when the key is above every identifier.\<close>

lemma owner_index_cases:
  assumes "ring_sorted nl" and "nl \<noteq> []" and "wf_dbid k"
  obtains (inside) "dbid_num k \<le> vnum (nl ! owner_index nl k)" "\<And>l. l < owner_index nl k \<Longrightarrow> vnum (nl ! l) < dbid_num k"
  | (above) "owner_index nl k = 0" "\<And>l. l < length nl \<Longrightarrow> vnum (nl ! l) < dbid_num k"
proof -
  have wf: "\<forall>v \<in> set nl. wf_dbid (vn_id v)" using assms by (simp add: ring_sorted_def)
  show thesis
  proof (cases "owner_scan k nl 0")
    case None
    then show thesis using owner_scan_None [OF wf assms(3)] by (intro above) (auto simp: owner_index_def)
  next
    case (Some i)
    then show thesis using owner_scan_Some [OF wf assms(3), of 0 i] by (intro inside) (auto simp: owner_index_def)
  qed
qed

lemma owner_index_iff:
  assumes "ring_sorted nl" and "wf_dbid k" and "j < length nl"
  shows "between (vn_id (nl ! prev_index nl j)) (vn_id (nl ! j)) k \<longleftrightarrow> j = owner_index nl k"
proof -
  let ?o = "owner_index nl k" and ?last = "length nl - 1"
  have ne: "nl \<noteq> []" using assms(3) by auto
  have p: "prev_index nl j < length nl" using assms(3) by (auto simp: prev_index_def)
  have o: "?o < length nl" by (rule owner_index_less [OF ne])
  note num = between_num [OF ring_sorted_wf [OF assms(1) p] ring_sorted_wf [OF assms(1,3)] assms(2)]
  note le = ring_sorted_le [OF assms(1)] and less = ring_sorted_less [OF assms(1)]
  show ?thesis
  proof (cases "j = 0")
    case True
    consider "?last = 0" | "0 < ?last" by blast
    then show ?thesis
    proof cases
      case 1
      then show ?thesis using num o True by (auto simp: prev_index_def)
    next
      case 2
      then have eq: "between (vn_id (nl ! prev_index nl j)) (vn_id (nl ! j)) k \<longleftrightarrow>
          vnum (nl ! ?last) < dbid_num k \<or> dbid_num k \<le> vnum (nl ! 0)"
        using num True less [of 0 ?last] ne by (auto simp: prev_index_def)
      show ?thesis
      proof (rule owner_index_cases [OF assms(1) ne assms(2)])
        assume a: "dbid_num k \<le> vnum (nl ! ?o)" "\<And>l. l < ?o \<Longrightarrow> vnum (nl ! l) < dbid_num k"
        have "vnum (nl ! ?o) \<le> vnum (nl ! ?last)" using o by (intro le) auto
        then show ?thesis using eq a(1) a(2) [of 0] True by (cases "?o = 0") auto
      next
        assume "?o = 0" "\<And>l. l < length nl \<Longrightarrow> vnum (nl ! l) < dbid_num k"
        then show ?thesis using eq True ne by auto
      qed
    qed
  next
    case False
    then have eq: "between (vn_id (nl ! prev_index nl j)) (vn_id (nl ! j)) k \<longleftrightarrow>
        vnum (nl ! (j - 1)) < dbid_num k \<and> dbid_num k \<le> vnum (nl ! j)"
      using num less [of "j - 1" j] assms(3) by (auto simp: prev_index_def)
    show ?thesis
    proof (rule owner_index_cases [OF assms(1) ne assms(2)])
      assume a: "dbid_num k \<le> vnum (nl ! ?o)" "\<And>l. l < ?o \<Longrightarrow> vnum (nl ! l) < dbid_num k"
      consider "j < ?o" | "j = ?o" | "?o \<le> j - 1" by linarith
      then show ?thesis
      proof cases
        case 3
        then have "vnum (nl ! ?o) \<le> vnum (nl ! (j - 1))" using assms(3) by (intro le) auto
        then show ?thesis using eq a(1) False 3 by auto
      qed (use eq a(1) a(2) [of j] a(2) [of "j - 1"] False assms(3) in auto)
    next
      assume "?o = 0" "\<And>l. l < length nl \<Longrightarrow> vnum (nl ! l) < dbid_num k"
      then show ?thesis using eq False assms(3) by fastforce
    qed
  qed
qed

section \<open>Neighbours\<close>

lemma pred_scan_eq:
  assumes "\<forall>v \<in> set vs. wf_dbid (vn_id v)" and "wf_dbid x"
  shows "pred_scan nl x vs b p =
    (if takeWhile (\<lambda>v. vnum v < dbid_num x) vs = [] then (if vs \<noteq> [] \<and> b then Some (last nl) else p)
     else Some (last (takeWhile (\<lambda>v. vnum v < dbid_num x) vs)))"
  using assms by (induction vs arbitrary: b p) (auto simp: order_simps)

lemma takeWhile_below_owner:
  assumes "ring_sorted nl" and "nl \<noteq> []" and "wf_dbid x"
  shows "takeWhile (\<lambda>v. vnum v < dbid_num x) nl =
    (if dbid_num x \<le> vnum (nl ! owner_index nl x) then take (owner_index nl x) nl else nl)"
proof (rule owner_index_cases [OF assms])
  assume "dbid_num x \<le> vnum (nl ! owner_index nl x)" "\<And>l. l < owner_index nl x \<Longrightarrow> vnum (nl ! l) < dbid_num x"
  then show ?thesis
    using owner_index_less [OF assms(2), of x] by (subst takeWhile_eq_take_P_nth [of "owner_index nl x"]) auto
next
  assume a: "owner_index nl x = 0" "\<And>l. l < length nl \<Longrightarrow> vnum (nl ! l) < dbid_num x"
  then have tw: "takeWhile (\<lambda>v. vnum v < dbid_num x) nl = nl"
    by (auto simp: takeWhile_eq_all_conv in_set_conv_nth)
  have "\<not> dbid_num x \<le> vnum (nl ! owner_index nl x)" using a(1) a(2) [of 0] assms(2) by simp
  then show ?thesis by (simp only: tw if_False)
qed

lemma getPredecessor_eq:
  assumes "ring_sorted nl" and "nl \<noteq> []" and "wf_dbid x"
  shows "getPredecessor nl x = Some (nl ! prev_index nl (owner_index nl x))"
proof -
  let ?o = "owner_index nl x"
  have wf: "\<forall>v \<in> set nl. wf_dbid (vn_id v)" using assms(1) by (simp add: ring_sorted_def)
  have l: "last nl = nl ! (length nl - 1)" using assms(2) by (rule last_conv_nth)
  show ?thesis
  proof (cases "dbid_num x \<le> vnum (nl ! ?o)")
    case True
    then show ?thesis
      using owner_index_less [OF assms(2), of x] assms(2) l
      by (auto simp: getPredecessor_def pred_scan_eq [OF wf assms(3)] takeWhile_below_owner [OF assms] prev_index_def last_conv_nth)
  next
    case False
    then have "?o = 0" by (metis owner_index_cases [OF assms])
    then show ?thesis
      using False assms(2) l by (simp add: getPredecessor_def pred_scan_eq [OF wf assms(3)] takeWhile_below_owner [OF assms] prev_index_def)
  qed
qed

lemma succ_eq_scan_None: "succ_eq_scan nl x vs i = None \<longleftrightarrow> (\<forall>v \<in> set vs. \<not> dbid_eq (vn_id v) x)"
  by (induction vs arbitrary: i) auto

lemma succ_eq_scan_hit:
  assumes "j < length vs" and "dbid_eq (vn_id (vs ! j)) x" and "\<forall>l < j. \<not> dbid_eq (vn_id (vs ! l)) x"
  shows "succ_eq_scan nl x vs i = Some (nl ! next_index nl (i + j))"
  using assms
proof (induction vs arbitrary: i j)
  case (Cons v vs)
  then show ?case
  proof (cases j)
    case (Suc m)
    have "\<not> dbid_eq (vn_id v) x" using Cons.prems(3) Suc by force
    moreover have "succ_eq_scan nl x vs (i + 1) = Some (nl ! next_index nl (i + 1 + m))"
      using Cons.prems Suc by (intro Cons.IH) auto
    ultimately show ?thesis using Suc by simp
  qed simp
qed simp

lemma succ_between_scan_hit:
  assumes "j < length vs" and "\<And>l. l < length vs \<Longrightarrow> between (vn_id (vs ! l)) (vn_id (nl ! next_index nl (i + l))) x \<longleftrightarrow> l = j"
  shows "succ_between_scan nl x vs i = Some (nl ! next_index nl (i + j))"
  using assms
proof (induction vs arbitrary: i j)
  case (Cons v vs)
  show ?case
  proof (cases j)
    case 0
    then show ?thesis using Cons.prems(2) [of 0] by simp
  next
    case (Suc m)
    have "\<not> between (vn_id v) (vn_id (nl ! next_index nl i)) x" using Cons.prems(2) [of 0] Suc by simp
    moreover have "succ_between_scan nl x vs (i + 1) = Some (nl ! next_index nl (i + 1 + m))"
      using Cons.prems(1) Cons.prems(2) [of "Suc l" for l] Suc by (intro Cons.IH) auto
    ultimately show ?thesis using Suc by simp
  qed
qed simp

lemma next_prev_index: "i < length nl \<Longrightarrow> next_index nl (prev_index nl i) = i \<and> prev_index nl (next_index nl i) = i"
  by (auto simp: next_index_def prev_index_def)

lemma next_index_less: "i < length nl \<Longrightarrow> next_index nl i < length nl"
  by (auto simp: next_index_def)

lemma prev_index_less: "i < length nl \<Longrightarrow> prev_index nl i < length nl"
  by (auto simp: prev_index_def)

lemma getSuccessor_member:
  assumes "ring_sorted nl" and "i < length nl" and "wf_dbid x" and "dbid_num x = vnum (nl ! i)"
  shows "getSuccessor nl x = Some (nl ! next_index nl i)"
proof -
  have "dbid_eq (vn_id (nl ! l)) x \<longleftrightarrow> l = i" if "l < length nl" for l
    using assms that by (simp add: order_simps ring_sorted_inj)
  then have "succ_eq_scan nl x nl 0 = Some (nl ! next_index nl (0 + i))"
    using assms(2) by (intro succ_eq_scan_hit) auto
  then show ?thesis by (simp add: getSuccessor_def)
qed

lemma getSuccessor_other:
  assumes "ring_sorted nl" and "nl \<noteq> []" and "wf_dbid x" and "dbid_num x \<notin> vnum ` set nl"
  shows "getSuccessor nl x = Some (nl ! owner_index nl x)"
proof -
  let ?o = "owner_index nl x"
  have o: "?o < length nl" by (rule owner_index_less [OF assms(2)])
  have "\<not> dbid_eq (vn_id v) x" if "v \<in> set nl" for v
    using assms that by (auto simp: order_simps ring_sorted_def image_iff)
  then have "succ_eq_scan nl x nl 0 = None" by (simp add: succ_eq_scan_None)
  moreover have "succ_between_scan nl x nl 0 = Some (nl ! next_index nl (0 + prev_index nl ?o))"
  proof (rule succ_between_scan_hit)
    fix l assume l: "l < length nl"
    have "between (vn_id (nl ! prev_index nl (next_index nl l))) (vn_id (nl ! next_index nl l)) x \<longleftrightarrow> next_index nl l = ?o"
      using l by (intro owner_index_iff assms next_index_less)
    then show "between (vn_id (nl ! l)) (vn_id (nl ! next_index nl (0 + l))) x \<longleftrightarrow> l = prev_index nl ?o"
      using l o next_prev_index [of l nl] next_prev_index [of ?o nl] by (metis add_0)
  qed (use o prev_index_less in auto)
  ultimately show ?thesis using o by (simp add: getSuccessor_def next_prev_index)
qed

lemma getSuccessor_Some:
  assumes "ring_sorted nl" and "nl \<noteq> []" and "wf_dbid x"
  shows "\<exists>v. getSuccessor nl x = Some v"
proof (cases "dbid_num x \<in> vnum ` set nl")
  case True
  then obtain i where "i < length nl" "dbid_num x = vnum (nl ! i)" by (auto simp: in_set_conv_nth)
  then show ?thesis using getSuccessor_member [OF assms(1) _ assms(3)] by blast
next
  case False
  then show ?thesis using getSuccessor_other [OF assms] by blast
qed

lemma getSuccessor_empty [simp]: "getSuccessor [] x = None"
  by (simp add: getSuccessor_def)

lemma getPredecessor_empty [simp]: "getPredecessor [] x = None"
  by (simp add: getPredecessor_def)

lemma owner_index_member:
  assumes "ring_sorted nl" and "i < length nl" and "wf_dbid x" and "dbid_num x = vnum (nl ! i)"
  shows "owner_index nl x = i"
proof -
  have ne: "nl \<noteq> []" using assms by auto
  show ?thesis
  proof (rule owner_index_cases [OF assms(1) ne assms(3)])
    assume a: "dbid_num x \<le> vnum (nl ! owner_index nl x)" "\<And>l. l < owner_index nl x \<Longrightarrow> vnum (nl ! l) < dbid_num x"
    then show ?thesis
      using a(2) [of i] assms(2,4) ring_sorted_less [OF assms(1), of "owner_index nl x" i]
      by (cases "owner_index nl x" i rule: linorder_cases) auto
  next
    assume "\<And>l. l < length nl \<Longrightarrow> vnum (nl ! l) < dbid_num x"
    from this [OF assms(2)] show ?thesis using assms(4) by simp
  qed
qed

section \<open>Insertion and removal\<close>

lemma set_insert_vn: "set (insert_vn n vs) \<subseteq> insert n (set vs)" "set vs \<subseteq> set (insert_vn n vs)"
  by (induction vs) auto

lemma ring_sorted_Cons: "ring_sorted (v # vs) \<longleftrightarrow> wf_dbid (vn_id v) \<and> (\<forall>w \<in> set vs. vnum v < vnum w) \<and> ring_sorted vs"
  by (auto simp: ring_sorted_def)

lemma insert_vn_sorted: "ring_sorted vs \<Longrightarrow> wf_dbid (vn_id n) \<Longrightarrow> ring_sorted (insert_vn n vs)"
proof (induction vs)
  case Nil
  then show ?case by (simp add: ring_sorted_def)
next
  case (Cons v vs)
  have wf: "wf_dbid (vn_id v)" using Cons.prems by (simp add: ring_sorted_Cons)
  have "vnum v < vnum w" if "w \<in> set (insert_vn n vs)" "\<not> vnum n < vnum v" "vnum n \<noteq> vnum v" for w
    using that set_insert_vn(1) [of n vs] Cons.prems by (auto simp: ring_sorted_Cons)
  then show ?case
    using Cons wf by (auto simp: ring_sorted_Cons order_simps)
qed

lemma insert_vn_ids: "ring_sorted vs \<Longrightarrow> wf_dbid (vn_id n) \<Longrightarrow> vnum ` set (insert_vn n vs) = insert (vnum n) (vnum ` set vs)"
  by (induction vs) (auto simp: ring_sorted_Cons order_simps)

lemma insert_vn_new:
  "ring_sorted vs \<Longrightarrow> wf_dbid (vn_id n) \<Longrightarrow> vnum n \<notin> vnum ` set vs \<Longrightarrow> set (insert_vn n vs) = insert n (set vs)"
  by (induction vs) (auto simp: ring_sorted_Cons order_simps)

lemma insert_vn_old:
  "ring_sorted vs \<Longrightarrow> wf_dbid (vn_id n) \<Longrightarrow> vnum n \<in> vnum ` set vs \<Longrightarrow> insert_vn n vs = vs"
  by (induction vs) (auto simp: ring_sorted_Cons order_simps)

lemma remove_vn_sorted: "ring_sorted vs \<Longrightarrow> ring_sorted (remove_vn i vs)"
proof (induction vs)
  case (Cons v vs)
  have "set (remove_vn i vs) \<subseteq> set vs" by (induction vs) auto
  then show ?case using Cons by (auto simp: ring_sorted_Cons)
qed simp

lemma remove_node_sorted: "ring_sorted vs \<Longrightarrow> ring_sorted (remove_node_vns h n vs)"
  by (auto simp: ring_sorted_def remove_node_vns_def intro: sorted_wrt_filter)

section \<open>The node table\<close>

text \<open>Every node is entered under its own identifier and every entry names a node of the heap: a node is
  determined by its address and port.\<close>

definition table_wf :: "node list \<Rightarrow> (bytes \<rightharpoonup> node_ref) \<Rightarrow> bool" where
  "table_wf h m \<longleftrightarrow> (\<forall>s r. m s = Some r \<longrightarrow> r < length h) \<and> (\<forall>r < length h. m (node_id (h ! r)) = Some r)"

lemma table_wf_inj: "table_wf h m \<Longrightarrow> a < length h \<Longrightarrow> b < length h \<Longrightarrow> node_eq (h ! a) (h ! b) \<longleftrightarrow> a = b"
  unfolding table_wf_def node_eq_def node_id_def by (metis option.inject)

lemma createNode_wf:
  assumes "table_wf (heap t) (ip_node_map t)" and "createNode t ip p = (r, t')"
  shows "table_wf (heap t') (ip_node_map t')" "r < length (heap t')" "\<exists>xs. heap t' = heap t @ xs"
  using assms by (auto simp: createNode_def table_wf_def Let_def nth_append node_id_def Node_new_def less_Suc_eq split: option.splits if_splits)
    (metis option.distinct(1))

lemma createNode_id:
  assumes "table_wf (heap t) (ip_node_map t)" and "\<forall>s r. ip_node_map t s = Some r \<longrightarrow> node_id (heap t ! r) = s"
    and "createNode t ip p = (r, t')"
  shows "node_id (heap t' ! r) = getID ip p"
    and "\<forall>s r. ip_node_map t' s = Some r \<longrightarrow> node_id (heap t' ! r) = s"
  using assms by (auto simp: createNode_def table_wf_def Let_def nth_append node_id_def Node_new_def split: option.splits if_splits)

section \<open>Replica groups\<close>

text \<open>The first occurrences in a list, without those of a set.\<close>

fun firsts :: "'a set \<Rightarrow> 'a list \<Rightarrow> 'a list" where
  "firsts S [] = []"
| "firsts S (x # xs) = (if x \<in> S then firsts S xs else x # firsts (insert x S) xs)"

lemma set_firsts: "set (firsts S xs) = set xs - S"
  by (induction xs arbitrary: S) auto

lemma distinct_firsts: "distinct (firsts S xs)"
  by (induction xs arbitrary: S) (auto simp: set_firsts)

lemma length_firsts: "length (firsts {} xs) = card (set xs)"
  using distinct_card [OF distinct_firsts [of "{}" xs]] by (simp add: set_firsts)

lemma rotate_next: "i < length nl \<Longrightarrow> rotate (next_index nl i) nl = rotate (Suc i) nl"
proof -
  assume i: "i < length nl"
  then have "next_index nl i = Suc i mod length nl" by (auto simp: next_index_def mod_Suc)
  then show ?thesis by (metis rotate_conv_mod)
qed

lemma hd_rotate: "i < length nl \<Longrightarrow> rotate i nl = nl ! i # tl (rotate i nl)"
  by (metis hd_rotate_conv_nth length_greater_0_conv length_rotate list.collapse list.size(3) mod_less not_less_zero)

lemma take_rotate_Suc:
  assumes "i < length nl" and "n < length nl"
  shows "take (Suc n) (rotate i nl) = nl ! i # take n (rotate (Suc i) nl)"
proof -
  have "rotate (Suc i) nl = tl (rotate i nl) @ [nl ! i]"
    using hd_rotate [OF assms(1)] by (metis list.sel(3) rotate1.simps(2) rotate_Suc)
  then show ?thesis using assms by (subst hd_rotate [OF assms(1)]) simp
qed

lemma replica_scan_firsts:
  assumes inj: "\<And>a b. a \<in> vn_n ` set nl \<Longrightarrow> b \<in> vn_n ` set nl \<Longrightarrow> node_eq (h ! a) (h ! b) \<longleftrightarrow> a = b"
    and "left < length nl" and "i < length nl" and "set replicas \<subseteq> vn_n ` set nl" and "owner \<in> set replicas"
  shows "replica_scan h nl owner r left i replicas =
    take (max (length replicas) (unat r)) (replicas @ firsts (set replicas) (map vn_n (take left (rotate i nl))))"
  using assms(2-)
proof (induction left arbitrary: i replicas)
  case 0
  then show ?case by simp
next
  case (Suc left)
  let ?n = "vn_n (nl ! i)" and ?new = "\<lambda>S. firsts S (map vn_n (take left (rotate (Suc i) nl)))"
  have n: "?n \<in> vn_n ` set nl" using Suc.prems by simp
  have known: "(\<exists>q \<in> set replicas. node_eq (h ! ?n) (h ! q)) \<longleftrightarrow> ?n \<in> set replicas"
    using inj [OF n] Suc.prems(3) by (metis subsetD)
  have t: "take (Suc left) (rotate i nl) = nl ! i # take left (rotate (Suc i) nl)"
    using Suc.prems by (intro take_rotate_Suc) auto
  show ?case
  proof (cases "length replicas < unat r")
    case False
    then show ?thesis by (simp add: max_def)
  next
    case True
    have ih: "replica_scan h nl owner r left (next_index nl i) reps =
        take (max (length reps) (unat r)) (reps @ ?new (set reps))"
      if "set reps \<subseteq> vn_n ` set nl" "owner \<in> set reps" for reps
      using that Suc.prems by (subst Suc.IH) (auto simp: next_index_less rotate_next)
    show ?thesis
    proof (cases "?n \<in> set replicas")
      case old: True
      then show ?thesis using True known ih [of replicas] Suc.prems(3,4) by (auto simp: t Let_def)
    next
      case False
      then have "?n \<noteq> owner" using Suc.prems(4) by auto
      then show ?thesis
        using True False known ih [of "replicas @ [?n]"] Suc.prems(3,4) n by (auto simp: t max_def Let_def)
    qed
  qed
qed

lemma replica_group_firsts:
  assumes inj: "\<And>a b. a \<in> vn_n ` set nl \<Longrightarrow> b \<in> vn_n ` set nl \<Longrightarrow> node_eq (h ! a) (h ! b) \<longleftrightarrow> a = b"
    and "nl \<noteq> []" and "replica_group h nl r k = Some nh"
  shows "nh_owner nh # replicaGroup nh = take (max 1 (unat r)) (firsts {} (map vn_n (rotate (owner_index nl k) nl)))"
proof -
  let ?i = "owner_index nl k" and ?o = "vn_n (nl ! owner_index nl k)"
  have i: "?i < length nl" by (rule owner_index_less [OF assms(2)])
  have "take (Suc (length nl - 1)) (rotate ?i nl) = nl ! ?i # take (length nl - 1) (rotate (Suc ?i) nl)"
    using i by (intro take_rotate_Suc) auto
  then have rot: "rotate ?i nl = nl ! ?i # take (length nl - 1) (rotate (Suc ?i) nl)"
    using i by simp
  let ?X = "firsts {?o} (map vn_n (take (length nl - 1) (rotate (Suc ?i) nl)))"
  let ?scan = "replica_scan h nl ?o r (length nl - 1) (next_index nl ?i) [?o]"
  have "?scan = take (max 1 (unat r)) (?o # ?X)"
    using i by (subst replica_scan_firsts [OF inj]) (auto simp: next_index_less rotate_next)
  moreover have "take (max 1 (unat r)) (?o # ?X) = ?o # take (max 1 (unat r) - 1) ?X"
    by (cases "max 1 (unat r)") (auto simp: max_def split: if_splits)
  moreover have "nh = \<lparr>nh_owner = ?o, replicaGroup = tl ?scan\<rparr>"
    using assms(2,3) by (simp add: replica_group_def Let_def)
  moreover have "?o # ?X = firsts {} (map vn_n (rotate ?i nl))"
    by (subst rot) simp
  ultimately show ?thesis by simp
qed

lemma firsts_map: "inj_on f (S \<union> set xs) \<Longrightarrow> map f (firsts S xs) = firsts (f ` S) (map f xs)"
proof (induction xs arbitrary: S)
  case (Cons x xs)
  have "f x \<in> f ` S \<longleftrightarrow> x \<in> S" using Cons.prems by (auto dest: inj_onD)
  moreover have "inj_on f (S \<union> set xs)" "inj_on f (insert x S \<union> set xs)"
    using Cons.prems by (auto intro: inj_on_subset)
  ultimately show ?case using Cons.IH [of S] Cons.IH [of "insert x S"] by simp
qed simp

lemma owner_scan_ids: "map vn_id vs = map vn_id ws \<Longrightarrow> owner_scan k vs i = owner_scan k ws i"
proof (induction vs arbitrary: ws i)
  case (Cons v vs)
  then obtain w ws' where "ws = w # ws'" "vn_id v = vn_id w" "map vn_id vs = map vn_id ws'" by auto
  then show ?case using Cons.IH [of ws'] by simp
qed simp

lemma owner_index_ids: "map vn_id vs = map vn_id ws \<Longrightarrow> owner_index vs k = owner_index ws k"
  by (simp add: owner_index_def owner_scan_ids [of vs ws])

lemma ring_sorted_ids: "map vn_id vs = map vn_id ws \<Longrightarrow> ring_sorted vs \<Longrightarrow> ring_sorted ws"
proof -
  define P where "P ds \<longleftrightarrow> (\<forall>d \<in> set ds. wf_dbid d) \<and> sorted_wrt (\<lambda>a b. dbid_num a < dbid_num b) ds" for ds
  have "ring_sorted xs \<longleftrightarrow> P (map vn_id xs)" for xs by (simp add: P_def ring_sorted_def sorted_wrt_map)
  then show "map vn_id vs = map vn_id ws \<Longrightarrow> ring_sorted vs \<Longrightarrow> ring_sorted ws" by metis
qed

end
