(* ===== verification/Ring_Props.thy ===== *)
theory Ring_Props
  imports Ring_Laws
begin

text \<open>Properties of the ring searches, of replica groups and of the choice of a target in a group.\<close>

definition demo_ring :: "virtual_node list" where
  "demo_ring = [VirtualNode 0 (DBID [10]), VirtualNode 1 (DBID [20]), VirtualNode 0 (DBID [30]), VirtualNode 2 (DBID [40])]"

definition demo_heap :: "node list" where
  "demo_heap = [Node_new [49] 1, Node_new [50] 1, Node_new [50] 2]"

lemma demo_ring_sorted: "ring_sorted demo_ring"
proof -
  have "(\<forall>v \<in> set demo_ring. wf_dbid (vn_id v)) \<and> sorted_wrt (\<lambda>a b. dbid_less (vn_id a) (vn_id b)) demo_ring"
    by code_simp
  then show ?thesis by (rule ring_sorted_code [THEN iffD2])
qed

text \<open>
  Property C22. On an ascending ring, \<^verbatim>\<open>getRangeKey\<close> returns the identifier of a virtual node exactly when the key
  lies on the arc from the node before it up to the node: every key has one owner, and it is the
  one \<^verbatim>\<open>between\<close> selects.
\<close>

theorem range_key_is_arc_owner:
  assumes "ring_sorted nl" and "wf_dbid k" and "j < length nl"
  shows "range_key nl k = Some (vn_id (nl ! j)) \<longleftrightarrow> between (vn_id (nl ! prev_index nl j)) (vn_id (nl ! j)) k"
proof -
  have ne: "nl \<noteq> []" using assms(3) by auto
  have "vn_id (nl ! owner_index nl k) = vn_id (nl ! j) \<longleftrightarrow> owner_index nl k = j"
    using ring_sorted_inj [OF assms(1) owner_index_less [OF ne, of k] assms(3)] by metis
  then show ?thesis
    using owner_index_iff [OF assms] ne by (auto simp: range_key_def)
qed

theorem range_key_is_arc_owner_witness:
  "range_key demo_ring (DBID [25]) = Some (vn_id (demo_ring ! 2)) \<longleftrightarrow>
    between (vn_id (demo_ring ! prev_index demo_ring 2)) (vn_id (demo_ring ! 2)) (DBID [25])"
  by (rule range_key_is_arc_owner [OF demo_ring_sorted]) (simp_all add: demo_ring_def)

text \<open>
  On an ascending ring the two neighbour searches are the neighbours on the ring: the predecessor of
  any identifier is the node before its owner; the successor of an identifier on the ring is the
  next node, of any other identifier its owner.
\<close>

theorem neighbours_on_ring:
  assumes "ring_sorted nl" and "nl \<noteq> []" and "wf_dbid x"
  shows "getPredecessor nl x = Some (nl ! prev_index nl (owner_index nl x))
    \<and> getSuccessor nl x = Some (if vn_id (nl ! owner_index nl x) = x \<or> dbid_num x \<in> (\<lambda>v. dbid_num (vn_id v)) ` set nl
                                 then nl ! next_index nl (owner_index nl x) else nl ! owner_index nl x)"
proof (cases "dbid_num x \<in> (\<lambda>v. dbid_num (vn_id v)) ` set nl")
  case True
  then obtain i where i: "i < length nl" "dbid_num x = dbid_num (vn_id (nl ! i))"
    by (auto simp: in_set_conv_nth)
  then show ?thesis
    using getPredecessor_eq [OF assms] getSuccessor_member [OF assms(1) i(1) assms(3) i(2)]
      owner_index_member [OF assms(1) i(1) assms(3) i(2)] True by simp
next
  case False
  moreover have "vn_id (nl ! owner_index nl x) \<noteq> x"
    using False owner_index_less [OF assms(2), of x] by (metis imageI nth_mem)
  ultimately show ?thesis
    using getPredecessor_eq [OF assms] getSuccessor_other [OF assms] by simp
qed

theorem neighbours_on_ring_witness:
  "getPredecessor demo_ring (DBID [20]) = Some (demo_ring ! prev_index demo_ring (owner_index demo_ring (DBID [20])))
   \<and> getSuccessor demo_ring (DBID [20]) = Some (demo_ring ! 2)"
proof -
  have "demo_ring \<noteq> []" by (simp add: demo_ring_def)
  moreover have "dbid_num (DBID [20]) \<in> (\<lambda>v. dbid_num (vn_id v)) ` set demo_ring"
    by (simp add: demo_ring_def)
  moreover have "next_index demo_ring (owner_index demo_ring (DBID [20])) = 2"
    by code_simp
  ultimately show ?thesis
    using neighbours_on_ring [OF demo_ring_sorted, of "DBID [20]"] by simp
qed

text \<open>
  Property C23. A replica group is the first \<open>R\<close> distinct physical nodes met clockwise from the key's owner (at
  least the owner): the owner first, no node twice, and as many as the replication factor or the
  number of physical nodes allows.
\<close>

theorem replica_group_clockwise:
  assumes "table_wf h m" and "\<forall>v \<in> set nl. vn_n v < length h" and "replica_group h nl r k = Some nh"
  shows "nh_owner nh # replicaGroup nh
      = take (max 1 (unat r)) (firsts {} (map vn_n (rotate (owner_index nl k) nl)))
    \<and> distinct (nh_owner nh # replicaGroup nh)
    \<and> length (nh_owner nh # replicaGroup nh) = min (max 1 (unat r)) (card (vn_n ` set nl))"
proof -
  have ne: "nl \<noteq> []" using assms(3) by (auto simp: replica_group_def)
  have "nh_owner nh # replicaGroup nh = take (max 1 (unat r)) (firsts {} (map vn_n (rotate (owner_index nl k) nl)))"
    using table_wf_inj [OF assms(1)] assms(2) by (intro replica_group_firsts [OF _ ne assms(3)]) auto
  then show ?thesis
    using distinct_firsts [of "{}" "map vn_n (rotate (owner_index nl k) nl)"]
    by (simp add: length_firsts min.commute)
qed

theorem replica_group_clockwise_witness:
  "nh_owner (the (replica_group demo_heap demo_ring 2 (DBID [25])))
      # replicaGroup (the (replica_group demo_heap demo_ring 2 (DBID [25])))
    = take 2 (firsts {} (map vn_n (rotate (owner_index demo_ring (DBID [25])) demo_ring)))"
proof -
  define m where "m = [node_id (demo_heap ! 0) \<mapsto> 0, node_id (demo_heap ! 1) \<mapsto> 1, node_id (demo_heap ! 2) \<mapsto> (2 :: nat)]"
  have ids: "node_id (demo_heap ! 0) \<noteq> node_id (demo_heap ! 1)" "node_id (demo_heap ! 0) \<noteq> node_id (demo_heap ! 2)"
    "node_id (demo_heap ! 1) \<noteq> node_id (demo_heap ! 2)"
    by code_simp+
  have len: "length demo_heap = 3" by (simp add: demo_heap_def)
  have "table_wf demo_heap m"
    using ids by (auto simp: table_wf_def m_def len numeral_eq_Suc less_Suc_eq split: if_splits)
  moreover have "\<forall>v \<in> set demo_ring. vn_n v < length demo_heap" by code_simp
  moreover have "replica_group demo_heap demo_ring 2 (DBID [25]) = Some (the (replica_group demo_heap demo_ring 2 (DBID [25])))"
    by code_simp
  ultimately have "nh_owner (the (replica_group demo_heap demo_ring 2 (DBID [25])))
      # replicaGroup (the (replica_group demo_heap demo_ring 2 (DBID [25])))
    = take (max 1 (unat (2 :: u32))) (firsts {} (map vn_n (rotate (owner_index demo_ring (DBID [25])) demo_ring)))"
    using replica_group_clockwise [of demo_heap m demo_ring 2 "DBID [25]"] by blast
  moreover have "max 1 (unat (2 :: u32)) = 2" by simp
  ultimately show ?thesis by (simp only:)
qed

text \<open>
  \<^verbatim>\<open>addNodetoRing\<close> keeps the ring ascending and free of duplicates: a new identifier is added, an
  identifier already on the ring leaves the ring as it was.
\<close>

theorem addNodetoRing_sorted:
  assumes "ring_sorted nl" and "wf_dbid (vn_id v)"
  shows "ring_sorted (insert_vn v nl)
    \<and> (if dbid_num (vn_id v) \<in> (\<lambda>w. dbid_num (vn_id w)) ` set nl then insert_vn v nl = nl
       else set (insert_vn v nl) = insert v (set nl))"
  using insert_vn_sorted [OF assms] insert_vn_old [OF assms] insert_vn_new [OF assms] by simp

theorem addNodetoRing_sorted_witness:
  "ring_sorted (insert_vn (VirtualNode 1 (DBID [35])) demo_ring)"
proof -
  have "wf_dbid (vn_id (VirtualNode 1 (DBID [35])))" by code_simp
  then show ?thesis using addNodetoRing_sorted [OF demo_ring_sorted] by blast
qed

section \<open>Targets in a replica group\<close>

lemma put_scan_eq:
  assumes "i \<le> length g"
  shows "put_scan h g target i =
    (let j = length (takeWhile (\<lambda>n. \<not> valid (h ! n)) (target # drop i g))
     in ((target # drop i g) ! min j (length g - i), i + min j (length g - i)))"
  using assms
proof (induction h g target i rule: put_scan.induct)
  case (1 h g target i)
  show ?case
  proof (cases "\<not> valid (h ! target) \<and> i < length g")
    case True
    then have d: "drop i g = g ! i # drop (i + 1) g" by (simp add: Cons_nth_drop_Suc)
    let ?j = "length (takeWhile (\<lambda>n. \<not> valid (h ! n)) (g ! i # drop (i + 1) g))"
    have ih: "put_scan h g (g ! i) (i + 1) = ((g ! i # drop (i + 1) g) ! min ?j (length g - (i + 1)), i + 1 + min ?j (length g - (i + 1)))"
      using 1 True by (simp add: Let_def)
    have m: "min (Suc ?j) (length g - i) = Suc (min ?j (length g - (i + 1)))"
      using True by linarith
    have "put_scan h g target i = put_scan h g (g ! i) (i + 1)"
      using True by (subst put_scan.simps) (simp del: put_scan.simps)
    moreover have "length (takeWhile (\<lambda>n. \<not> valid (h ! n)) (target # drop i g)) = Suc ?j"
      by (subst d) (use True in \<open>simp del: takeWhile.simps add: takeWhile.simps(2) [of _ target]\<close>)
    ultimately show ?thesis
      using ih m by (simp only: Let_def) (simp add: d del: put_scan.simps takeWhile.simps)
  next
    case False
    then have "put_scan h g target i = (target, i)"
      by (subst put_scan.simps) (simp only: if_False)
    then show ?thesis
      using 1(2) False by (auto simp: Let_def simp del: put_scan.simps)
  qed
qed

lemma get_scan_eq:
  assumes "i \<le> length g"
  shows "get_scan h g target i =
    (if valid (h ! target) then target
     else if filter (\<lambda>n. valid (h ! n)) (take i g) \<noteq> [] then last (filter (\<lambda>n. valid (h ! n)) (take i g))
     else if i = 0 then target else hd g)"
  using assms
proof (induction i arbitrary: target)
  case 0
  then show ?case by simp
next
  case (Suc i)
  have t: "take (Suc i) g = take i g @ [g ! i]" using Suc.prems by (simp add: take_Suc_conv_app_nth)
  have z: "g ! 0 = hd g" using Suc.prems by (cases g) auto
  show ?case using Suc z by (simp add: t del: take_Suc)
qed

text \<open>
  \<^verbatim>\<open>retrievePutTarget\<close> walks from the owner along the chain to the first valid node, and reports how many
  nodes it skipped; but when that node is the last one of the chain, or when no node is valid, the
  result is null.
\<close>

theorem retrievePutTarget_chain:
  "retrievePutTarget h nh =
    (let chain = nh_owner nh # replicaGroup nh;
         j = min (length (takeWhile (\<lambda>n. \<not> valid (h ! n)) chain)) (length (replicaGroup nh))
     in (if 0 < j \<and> j = length (replicaGroup nh) then None else Some (chain ! j), j))"
  by (simp add: retrievePutTarget_def put_scan_eq Let_def del: takeWhile.simps put_scan.simps)

text \<open>
  In a group of two whose owner has failed, the surviving replica is valid and still
  \<^verbatim>\<open>retrievePutTarget\<close> returns null, on which \<^verbatim>\<open>NodeHandle::put\<close> aborts.
\<close>

theorem retrievePutTarget_loses_last_replica:
  "retrievePutTarget [(Node_new [49] 1)\<lparr>valid := False\<rparr>, Node_new [50] 1] \<lparr>nh_owner = 0, replicaGroup = [1]\<rparr> = (None, 1)"
  by code_simp

text \<open>
  \<^verbatim>\<open>retrieveGetTarget\<close> returns the valid replica nearest to the tail. Without a valid replica it
  returns the first replica, a failed node, and falls back to the owner only for an interim tail in
  a group of two or for a group without replicas; an interim tail in a group without replicas reads
  past the empty group.
\<close>

theorem retrieveGetTarget_tail:
  "retrieveGetTarget h nh interimTail =
    (let g = replicaGroup nh; live = filter (\<lambda>n. valid (h ! n)) g
     in if g = [] then (if interimTail then Fault else Ret (nh_owner nh))
        else if live \<noteq> [] then Ret (last live)
        else if interimTail \<and> length g = 1 then Ret (nh_owner nh)
        else Ret (hd g))"
proof (cases "replicaGroup nh" rule: rev_cases)
  case Nil
  then show ?thesis by (simp add: retrieveGetTarget_def)
next
  case (snoc ys y)
  show ?thesis
  proof (cases ys rule: rev_cases)
    case Nil
    then show ?thesis using snoc by (simp add: retrieveGetTarget_def get_scan_eq)
  next
    case (snoc zs z)
    then show ?thesis
      using \<open>replicaGroup nh = ys @ [y]\<close>
      by (simp add: retrieveGetTarget_def get_scan_eq nth_append Let_def)
  qed
qed

end
