(* ===== verification/Ring.thy ===== *)
theory Ring
  imports Ring_Props
begin

text \<open>
  The front end's view of the ring, class \<^verbatim>\<open>Ring\<close> of \<^verbatim>\<open>fawnkv/ring.cpp\<close>: a copy of the manager's list of
  virtual nodes, replaced as a whole by \<^verbatim>\<open>UpdateState\<close>, and the searches a front end makes on it.
\<close>

record ring = node_table +
  nodeList :: "virtual_node list"
  replica_group_size :: u32
  vid_temptail_map :: "bytes \<rightharpoonup> bool"
  vid_shorter_map :: "bytes \<rightharpoonup> bool"

text \<open>The messages \<^verbatim>\<open>NodeData\<close> and \<^verbatim>\<open>ringState\<close> of \<^verbatim>\<open>fawnkvmesg.thrift\<close>.\<close>

record node_data =
  VnodeID :: bytes
  nd_ip :: bytes
  nd_port :: "32 word"

record ring_state =
  rs_nodes :: "node_data list"
  replication :: "32 word"
  temptails :: "bytes list"
  shorters :: "bytes list"

fun push_nodes :: "'a ring_scheme \<Rightarrow> node_data list \<Rightarrow> 'a ring_scheme" where
  "push_nodes r [] = r"
| "push_nodes r (nd # nds) =
    (let (n, r) = createNode r (nd_ip nd) (nd_port nd);
         vn = VirtualNode n (DBID (VnodeID nd))
     in push_nodes (r\<lparr>nodeList := nodeList r @ [vn]\<rparr>) nds)"

definition set_all :: "bytes list \<Rightarrow> (bytes \<rightharpoonup> bool) \<Rightarrow> (bytes \<rightharpoonup> bool)" where
  "set_all vs m = foldl (\<lambda>m v. m(v \<mapsto> True)) m vs"

definition UpdateState :: "'a ring_scheme \<Rightarrow> ring_state \<Rightarrow> 'a ring_scheme" where
  "UpdateState r rs =
    (let r = r\<lparr>nodeList := [], vid_temptail_map := Map.empty, vid_shorter_map := Map.empty\<rparr>;
         r = push_nodes r (rs_nodes rs)
     in r\<lparr>replica_group_size := replication rs,
          vid_temptail_map := set_all (temptails rs) (vid_temptail_map r),
          vid_shorter_map := set_all (shorters rs) (vid_shorter_map r)\<rparr>)"

definition getRangeKey :: "'a ring_scheme \<Rightarrow> bytes \<Rightarrow> bytes" where
  "getRangeKey r key = (case range_key (nodeList r) (DBID key) of Some d \<Rightarrow> actual_data_str d | None \<Rightarrow> [])"

text \<open>\<^verbatim>\<open>getSuccessorID\<close> dereferences the result of the search, which is null on an empty ring.\<close>

definition getSuccessorID :: "'a ring_scheme \<Rightarrow> bytes \<Rightarrow> dbid res" where
  "getSuccessorID r key = (case getSuccessor (nodeList r) (DBID key) of Some v \<Rightarrow> Ret (vn_id v) | None \<Rightarrow> Fault)"

definition getReplicaGroup :: "'a ring_scheme \<Rightarrow> bytes \<Rightarrow> node_handle option" where
  "getReplicaGroup r key = replica_group (heap r) (nodeList r) (replica_group_size r) (DBID key)"

text \<open>The addresses a handle stands for.\<close>

definition handle_ids :: "'a node_table_scheme \<Rightarrow> node_handle \<Rightarrow> bytes list" where
  "handle_ids t nh = map (\<lambda>n. node_id (heap t ! n)) (nh_owner nh # replicaGroup nh)"

section \<open>Well-formed rings\<close>

definition entries_wf :: "node list \<Rightarrow> (bytes \<rightharpoonup> node_ref) \<Rightarrow> bool" where
  "entries_wf h m \<longleftrightarrow> table_wf h m \<and> (\<forall>s r. m s = Some r \<longrightarrow> node_id (h ! r) = s)"

definition ring_wf :: "'a ring_scheme \<Rightarrow> bool" where
  "ring_wf r \<longleftrightarrow> entries_wf (heap r) (ip_node_map r) \<and> ring_sorted (nodeList r) \<and> (\<forall>v \<in> set (nodeList r). vn_n v < length (heap r))"

lemma createNode_entries:
  assumes "entries_wf (heap t) (ip_node_map t)" and "createNode t ip p = (r, t')"
  shows "entries_wf (heap t') (ip_node_map t')" "r < length (heap t')" "\<exists>xs. heap t' = heap t @ xs"
    "node_id (heap t' ! r) = getID ip p"
  using createNode_wf [of t ip p r t'] createNode_id [of t ip p r t'] assms unfolding entries_wf_def by blast+

lemma createNode_more [simp]:
  "createNode r ip p = (n, r') \<Longrightarrow> nodeList r' = nodeList r \<and> replica_group_size r' = replica_group_size r
    \<and> vid_temptail_map r' = vid_temptail_map r \<and> vid_shorter_map r' = vid_shorter_map r"
  by (auto simp: createNode_def Let_def split: option.splits)

lemma push_nodes_spec:
  assumes "entries_wf (heap r) (ip_node_map r)" and "\<forall>v \<in> set (nodeList r). vn_n v < length (heap r)"
  shows "\<exists>xs vs. heap (push_nodes r nds) = heap r @ xs \<and> nodeList (push_nodes r nds) = nodeList r @ vs
    \<and> entries_wf (heap (push_nodes r nds)) (ip_node_map (push_nodes r nds))
    \<and> (\<forall>v \<in> set (nodeList r @ vs). vn_n v < length (heap r @ xs))
    \<and> map vn_id vs = map (\<lambda>nd. vn_id (VirtualNode 0 (DBID (VnodeID nd)))) nds
    \<and> map (\<lambda>v. node_id ((heap r @ xs) ! vn_n v)) vs = map (\<lambda>nd. getID (nd_ip nd) (nd_port nd)) nds
    \<and> vid_temptail_map (push_nodes r nds) = vid_temptail_map r \<and> vid_shorter_map (push_nodes r nds) = vid_shorter_map r"
  using assms
proof (induction nds arbitrary: r)
  case Nil
  then show ?case by (intro exI [of _ "[]"]) simp
next
  case (Cons nd nds)
  obtain n t where c: "createNode r (nd_ip nd) (nd_port nd) = (n, t)" by fastforce
  define r' where "r' = t\<lparr>nodeList := nodeList t @ [VirtualNode n (DBID (VnodeID nd))]\<rparr>"
  note e = createNode_entries [OF Cons.prems(1) c]
  obtain ys where ys: "heap t = heap r @ ys" using e(3) by blast
  have h: "heap r' = heap r @ ys" "nodeList r' = nodeList r @ [VirtualNode n (DBID (VnodeID nd))]"
    "vid_temptail_map r' = vid_temptail_map r" "vid_shorter_map r' = vid_shorter_map r"
    using ys c by (simp_all add: r'_def)
  have wf': "entries_wf (heap r') (ip_node_map r')" using e(1) by (simp add: r'_def)
  have ref': "\<forall>v \<in> set (nodeList r'). vn_n v < length (heap r')"
    using Cons.prems(2) e(2) ys h by (auto simp: trans_less_add1)
  obtain xs vs where ih: "heap (push_nodes r' nds) = heap r' @ xs" "nodeList (push_nodes r' nds) = nodeList r' @ vs"
    "entries_wf (heap (push_nodes r' nds)) (ip_node_map (push_nodes r' nds))"
    "\<forall>v \<in> set (nodeList r' @ vs). vn_n v < length (heap r' @ xs)"
    "map vn_id vs = map (\<lambda>nd. vn_id (VirtualNode 0 (DBID (VnodeID nd)))) nds"
    "map (\<lambda>v. node_id ((heap r' @ xs) ! vn_n v)) vs = map (\<lambda>nd. getID (nd_ip nd) (nd_port nd)) nds"
    "vid_temptail_map (push_nodes r' nds) = vid_temptail_map r'" "vid_shorter_map (push_nodes r' nds) = vid_shorter_map r'"
    using Cons.IH [OF wf' ref'] by (elim exE conjE)
  have p: "push_nodes r (nd # nds) = push_nodes r' nds" by (simp add: c r'_def)
  have id: "node_id ((heap r @ ys @ xs) ! n) = getID (nd_ip nd) (nd_port nd)"
    using e(2,4) ys by (metis append.assoc nth_append)
  show ?case
    unfolding p using ih h id
    by (intro exI [of _ "ys @ xs"] exI [of _ "VirtualNode n (DBID (VnodeID nd)) # vs"])
      (simp add: VirtualNode_def)
qed

section \<open>Replica groups by address\<close>

lemma entries_wf_inj: "entries_wf h m \<Longrightarrow> inj_on (\<lambda>r. node_id (h ! r)) {..<length h}"
  by (rule inj_onI) (metis entries_wf_def lessThan_iff option.inject table_wf_def)

lemma handle_ids_eq:
  assumes "entries_wf (heap t) (ip_node_map t)" and "\<forall>v \<in> set nl. vn_n v < length (heap t)"
    and "replica_group (heap t) nl r k = Some nh"
  shows "handle_ids t nh = take (max 1 (unat r)) (firsts {} (rotate (owner_index nl k) (map (\<lambda>v. node_id (heap t ! vn_n v)) nl)))"
proof -
  have tw: "table_wf (heap t) (ip_node_map t)" using assms(1) by (simp add: entries_wf_def)
  have ne: "nl \<noteq> []" using assms(3) by (auto simp: replica_group_def)
  have "nh_owner nh # replicaGroup nh = take (max 1 (unat r)) (firsts {} (map vn_n (rotate (owner_index nl k) nl)))"
    using table_wf_inj [OF tw] assms(2) by (intro replica_group_firsts [OF _ ne assms(3)]) auto
  then have "handle_ids t nh = take (max 1 (unat r)) (map (\<lambda>n. node_id (heap t ! n)) (firsts {} (map vn_n (rotate (owner_index nl k) nl))))"
    by (simp only: handle_ids_def take_map)
  also have "map (\<lambda>n. node_id (heap t ! n)) (firsts {} (map vn_n (rotate (owner_index nl k) nl)))
      = firsts {} (map (\<lambda>n. node_id (heap t ! n)) (map vn_n (rotate (owner_index nl k) nl)))"
  proof -
    have "inj_on (\<lambda>n. node_id (heap t ! n)) ({} \<union> set (map vn_n (rotate (owner_index nl k) nl)))"
      using assms(2) by (intro inj_on_subset [OF entries_wf_inj [OF assms(1)]]) auto
    from firsts_map [OF this] show ?thesis by simp
  qed
  finally show ?thesis by (simp add: rotate_map o_def)
qed

end
