(* ===== verification/Outcome.thy ===== *)
theory Outcome
  imports Main
begin

text \<open>
  How a request handler of the servers can end, shared by the models of the manager, of the front end
  with its caches, and of the back end.
\<close>

section \<open>Outcomes of a handler\<close>

text \<open>A handler returns, dereferences a null pointer or exits, blocks on a mutex its own thread holds, or
  loops.\<close>

datatype 'a run = Done 'a | Crash | Deadlock | Loops

primrec bind_run :: "'a run \<Rightarrow> ('a \<Rightarrow> 'b run) \<Rightarrow> 'b run" where
  "bind_run (Done x) f = f x"
| "bind_run Crash f = Crash"
| "bind_run Deadlock f = Deadlock"
| "bind_run Loops f = Loops"

lemma bind_run_Done [simp]: "bind_run m f = Done y \<longleftrightarrow> (\<exists>x. m = Done x \<and> f x = Done y)"
  by (cases m) auto

definition deref :: "'a option \<Rightarrow> 'a run" where
  "deref p = (case p of Some x \<Rightarrow> Done x | None \<Rightarrow> Crash)"

lemma deref_Done [simp]: "deref p = Done x \<longleftrightarrow> p = Some x"
  by (cases p) (auto simp: deref_def)

text \<open>\<^verbatim>\<open>assert\<close> ends the process.\<close>

definition check :: "bool \<Rightarrow> unit run" where
  "check b = (if b then Done () else Crash)"

lemma check_Done [simp]: "check b = Done u \<longleftrightarrow> b"
  by (simp add: check_def)

end
