(* ===== verification/Kv_Messages.thy ===== *)
theory Kv_Messages
  imports Prelude Outcome
begin

text \<open>
  The remote calls between the servers (\<^verbatim>\<open>fawnkv/fawnkvmesg.thrift\<close>, \<^verbatim>\<open>fawnkv/fawnkv.thrift\<close>), one
  datatype per service. All of them but \<^verbatim>\<open>get_ring_state\<close> and \<^verbatim>\<open>chain_repair_mid_succ\<close> are one-way: the
  caller does not wait for the handler.
\<close>

datatype flushmode = SPLIT | MERGE | PLAIN

text \<open>\<^verbatim>\<open>enum returnStatus\<close>, sent as an \<^verbatim>\<open>i16\<close>.\<close>

definition SUCCESS :: u16 where "SUCCESS = 0"
definition NOT_EXIST :: u16 where "NOT_EXIST = 1"
definition STALE_RING :: u16 where "STALE_RING = 2"

text \<open>Service \<^verbatim>\<open>FawnKVBackend\<close>: the calls on a back end.\<close>

datatype backend_msg =
    chain_repair_single bytes bytes
  | chain_repair_tail bytes int int bytes bytes
  | chain_repair_mid bytes bytes bytes bytes int int
  | vnode_extend_chain bytes bytes bytes bytes bytes "32 word" flushmode
  | neighbor_update bytes "bytes list" bytes bytes bytes bytes bytes
  | static_join_response "bytes list" bytes
  | rejoin_response "bytes list" bytes
  | init_response "bytes list" bytes
  | vnode_pre_join_response bytes "bytes list" "bytes list" "bytes list" "32 word list" bytes
  | flush_split bytes bytes bytes bytes "bytes list" "bytes list" "bytes list" int "32 word list" "32 word list" bytes
  | flush_merge bytes bytes bytes bytes int
  | flush bytes bytes int
  | put (put_key: bytes) (put_value: bytes) (put_hops: u32) (put_ackhops: u32) (put_continuation: u64) (put_seq: u64)
      (put_flush: bool) (put_remove: bool) (put_ip: bytes)
  | put_w bytes bytes u32 u32 u64 u64 bool bool bytes
  | put_ack bytes u64 u32 bytes
  | get bytes u64 bytes
  | precopy_request bytes bytes bytes bytes "32 word"
  | precopy_response bytes bytes bytes bytes
  | connection_init bytes "32 word"
  | join_response "bytes list" "bytes list" bytes
  | heartbeat_response bytes
  | integrity "32 word"

text \<open>Service \<^verbatim>\<open>FawnKVFrontend\<close>: the answers of a back end.\<close>

datatype frontend_msg =
    put_response bytes u64 bool bytes
  | put_w_response bytes u64 bool u64 bytes
  | get_response bytes bytes u64 u16 bytes
  | remove_response bytes u64 bool bytes

text \<open>Service \<^verbatim>\<open>FawnKVApp\<close>: the answers a client of the front end receives.\<close>

datatype app_msg =
    app_get_response bytes u64
  | app_put_response u64
  | app_remove_response u64

end
