(* ===== verification/Manager.thy ===== *)
theory Manager
  imports Ring HashUtil Kv_Messages
begin

text \<open>
  The membership manager, class \<^verbatim>\<open>Manager\<close> of \<^verbatim>\<open>fawnkv/Manager.cpp\<close>: one definition per request
  handler, with the two mutexes, the null dereferences and process exits, and the remote calls to
  the back ends as the list of messages a handler sends.
\<close>

section \<open>State and messages\<close>

record manager = ring +
  myIP :: bytes
  phyNodeList :: "node_ref list"
  numJoinedPhyNodes :: "32 word"
  phy_lock :: bool
  virtual_lock :: bool
  sent :: "(node_ref \<times> backend_msg) list"

definition NUM_VIRTUAL_IDS :: nat where
  "NUM_VIRTUAL_IDS = 1"

definition NUM_BEATS_BEFORE_FAILURE :: int where
  "NUM_BEATS_BEFORE_FAILURE = 3"

definition Manager_init :: "bytes \<Rightarrow> 32 word \<Rightarrow> manager" where
  "Manager_init localIP num_replicas =
    \<lparr>heap = [], ip_node_map = Map.empty, nodeList = [], replica_group_size = num_replicas,
     vid_temptail_map = Map.empty, vid_shorter_map = Map.empty,
     myIP = localIP, phyNodeList = [], numJoinedPhyNodes = 0, phy_lock = False, virtual_lock = False, sent = []\<rparr>"

definition send :: "manager \<Rightarrow> node_ref \<Rightarrow> backend_msg \<Rightarrow> manager" where
  "send m n x = m\<lparr>sent := sent m @ [(n, x)]\<rparr>"

abbreviation node_at :: "manager \<Rightarrow> node_ref \<Rightarrow> node" where
  "node_at m n \<equiv> heap m ! n"

definition vn_addr :: "manager \<Rightarrow> virtual_node \<Rightarrow> bytes" where
  "vn_addr m v = getID (IP (node_at m (vn_n v))) (port (node_at m (vn_n v)))"

abbreviation vid_str :: "virtual_node \<Rightarrow> bytes" where
  "vid_str v \<equiv> actual_data_str (vn_id v)"

text \<open>\<^verbatim>\<open>string(id->data(), id->size())\<close>, the full value.\<close>

abbreviation full_str :: "dbid \<Rightarrow> bytes" where
  "full_str d \<equiv> take (unat DBID_LENGTH) (dbid_value d)"

section \<open>Searches under the lock\<close>

text \<open>The body of a handler between the lock and the unlock of a mutex.\<close>

definition with_virtual_lock :: "manager \<Rightarrow> (manager \<Rightarrow> manager run) \<Rightarrow> manager run" where
  "with_virtual_lock m f =
    (if virtual_lock m then Deadlock
     else bind_run (f (m\<lparr>virtual_lock := True\<rparr>)) (\<lambda>m. Done (m\<lparr>virtual_lock := False\<rparr>)))"

definition with_phy_lock :: "manager \<Rightarrow> (manager \<Rightarrow> manager run) \<Rightarrow> manager run" where
  "with_phy_lock m f =
    (if phy_lock m then Deadlock
     else bind_run (f (m\<lparr>phy_lock := True\<rparr>)) (\<lambda>m. Done (m\<lparr>phy_lock := False\<rparr>)))"

definition get_pred :: "manager \<Rightarrow> dbid \<Rightarrow> bool \<Rightarrow> virtual_node option run" where
  "get_pred m x b_lock = (if b_lock \<and> virtual_lock m then Deadlock else Done (getPredecessor (nodeList m) x))"

definition get_succ :: "manager \<Rightarrow> dbid \<Rightarrow> bool \<Rightarrow> virtual_node option run" where
  "get_succ m x b_lock = (if b_lock \<and> virtual_lock m then Deadlock else Done (getSuccessor (nodeList m) x))"

text \<open>The two searches followed by a dereference of the result.\<close>

definition pred_vn :: "manager \<Rightarrow> dbid \<Rightarrow> bool \<Rightarrow> virtual_node run" where
  "pred_vn m x b_lock = bind_run (get_pred m x b_lock) deref"

definition succ_vn :: "manager \<Rightarrow> dbid \<Rightarrow> bool \<Rightarrow> virtual_node run" where
  "succ_vn m x b_lock = bind_run (get_succ m x b_lock) deref"

text \<open>\<^verbatim>\<open>getRangeKey\<close> of the manager returns with the mutex locked when the ring is empty.\<close>

definition Manager_getRangeKey :: "manager \<Rightarrow> dbid \<Rightarrow> (dbid option \<times> manager) run" where
  "Manager_getRangeKey m k =
    (if virtual_lock m then Deadlock
     else if nodeList m = [] then Done (None, m\<lparr>virtual_lock := True\<rparr>)
     else Done (range_key (nodeList m) k, m))"

definition Manager_getReplicaGroup :: "manager \<Rightarrow> dbid \<Rightarrow> node_handle option run" where
  "Manager_getReplicaGroup m k =
    (if virtual_lock m then Deadlock
     else Done (replica_group (heap m) (nodeList m) (replica_group_size m) k))"

text \<open>\<open>walk_pred n\<close> collects \<open>n\<close> predecessors, the farthest first, and stops at a null pointer; likewise
  \<open>walk_succ\<close> for successors.\<close>

fun walk_pred :: "virtual_node list \<Rightarrow> nat \<Rightarrow> dbid \<Rightarrow> virtual_node list \<Rightarrow> virtual_node list" where
  "walk_pred nl 0 x acc = acc"
| "walk_pred nl (Suc n) x acc =
    (case getPredecessor nl x of None \<Rightarrow> acc | Some v \<Rightarrow> walk_pred nl n (vn_id v) (v # acc))"

fun walk_succ :: "virtual_node list \<Rightarrow> nat \<Rightarrow> dbid \<Rightarrow> virtual_node list \<Rightarrow> virtual_node list" where
  "walk_succ nl 0 x acc = acc"
| "walk_succ nl (Suc n) x acc =
    (case getSuccessor nl x of None \<Rightarrow> acc | Some v \<Rightarrow> walk_succ nl n (vn_id v) (acc @ [v]))"

definition getNbrhood :: "manager \<Rightarrow> dbid \<Rightarrow> bytes list run" where
  "getNbrhood m db_id =
    (if virtual_lock m then Deadlock
     else Done (let r = unat (replica_group_size m)
                in map vid_str (walk_pred (nodeList m) r db_id [])
                   @ (if replica_group_size m = 1 then [actual_data_str db_id] else [])
                   @ map (vn_addr m) (walk_succ (nodeList m) r db_id [])))"

section \<open>Changes of the ring\<close>

definition addNodetoRing :: "manager \<Rightarrow> virtual_node \<Rightarrow> bool \<Rightarrow> manager run" where
  "addNodetoRing m n lk =
    (if lk \<and> virtual_lock m then Deadlock else Done (m\<lparr>nodeList := insert_vn n (nodeList m)\<rparr>))"

definition removeNodefromRing :: "manager \<Rightarrow> node_ref \<Rightarrow> bool \<Rightarrow> manager run" where
  "removeNodefromRing m n lk =
    (if lk \<and> virtual_lock m then Deadlock
     else Done (m\<lparr>nodeList := remove_node_vns (heap m) n (nodeList m)\<rparr>))"

definition removeVirtualNodefromRing :: "manager \<Rightarrow> dbid \<Rightarrow> bool \<Rightarrow> manager run" where
  "removeVirtualNodefromRing m i lk =
    (if lk \<and> virtual_lock m then Deadlock else Done (m\<lparr>nodeList := remove_vn i (nodeList m)\<rparr>))"

text \<open>\<^verbatim>\<open>delete n\<close> only frees memory; the entry of \<^verbatim>\<open>ip_node_map\<close> stays and dangles.\<close>

definition removePhysicalNode :: "manager \<Rightarrow> node_ref \<Rightarrow> manager run" where
  "removePhysicalNode m n =
    (if phy_lock m then Deadlock
     else Done (m\<lparr>phyNodeList := filter (\<lambda>p. p \<noteq> n) (phyNodeList m), numJoinedPhyNodes := numJoinedPhyNodes m - 1\<rparr>))"

definition update_node :: "manager \<Rightarrow> node_ref \<Rightarrow> (node \<Rightarrow> node) \<Rightarrow> manager" where
  "update_node m n f = m\<lparr>heap := (heap m)[n := f (heap m ! n)]\<rparr>"

definition staticJoin :: "manager \<Rightarrow> dbid \<Rightarrow> node_ref \<Rightarrow> bool \<Rightarrow> manager run" where
  "staticJoin m i n lk = addNodetoRing (update_node m n (\<lambda>nd. addVnode nd i)) (VirtualNode n i) lk"

text \<open>A node enters the list of joined physical nodes.\<close>

definition push_phy :: "manager \<Rightarrow> node_ref \<Rightarrow> manager run" where
  "push_phy m n =
    (if phy_lock m then Deadlock
     else Done (m\<lparr>phyNodeList := n # phyNodeList m, numJoinedPhyNodes := numJoinedPhyNodes m + 1\<rparr>))"

definition BobHash_str :: "bytes \<Rightarrow> u32" where
  "BobHash_str s = BobHash False 0 (mem_of s (\<lambda>_. 0)) (length s) 0"

text \<open>\<^verbatim>\<open>DBID id((char *)&ring_id, sizeof(u_int32_t))\<close>\<close>

definition ring_dbid :: "u32 \<Rightarrow> dbid" where
  "ring_dbid ring_id = DBID_Init (le_bytes 4 ring_id) 4"

text \<open>The loops that derive the virtual identifiers of a node from its address.\<close>

fun vid_chain :: "nat \<Rightarrow> u32 \<Rightarrow> dbid list" where
  "vid_chain 0 ring_id = []"
| "vid_chain (Suc n) ring_id = ring_dbid ring_id # vid_chain n (hashint_full_avalanche_1 ring_id)"

definition node_vids :: "bytes \<Rightarrow> 32 word \<Rightarrow> dbid list" where
  "node_vids ip p = vid_chain NUM_VIRTUAL_IDS (BobHash_str (getID ip p))"

fun join_all :: "manager \<Rightarrow> dbid list \<Rightarrow> node_ref \<Rightarrow> manager run" where
  "join_all m [] n = Done m"
| "join_all m (i # is) n = bind_run (staticJoin m i n True) (\<lambda>m. join_all m is n)"

definition joinRing :: "manager \<Rightarrow> bytes \<Rightarrow> 32 word \<Rightarrow> node_ref \<Rightarrow> manager run" where
  "joinRing m ip p n = bind_run (push_phy m n) (\<lambda>m. join_all m (node_vids ip p) n)"

section \<open>Request handlers: joining\<close>

definition static_join :: "manager \<Rightarrow> bytes \<Rightarrow> 32 word \<Rightarrow> manager run" where
  "static_join m ip p =
    (let (n, m) = createNode m ip p
     in bind_run (push_phy m n) (\<lambda>m.
        bind_run (join_all m (node_vids ip p) n) (\<lambda>m.
          Done (send m n (static_join_response (map full_str (node_vids ip p)) (myIP m))))))"

definition rejoin :: "manager \<Rightarrow> bytes list \<Rightarrow> bytes list \<Rightarrow> bytes \<Rightarrow> 32 word \<Rightarrow> manager run" where
  "rejoin m vnodeids startids ip p =
    (let (n, m) = createNode m ip p
     in if vnodeids = [] then joinRing m ip p n
        else bind_run (push_phy m n) (\<lambda>m.
             bind_run (join_all m (map DBID vnodeids) n) (\<lambda>m.
               Done (send m n (rejoin_response vnodeids (myIP m))))))"

definition join :: "manager \<Rightarrow> bytes \<Rightarrow> 32 word \<Rightarrow> manager run" where
  "join m ip p =
    (let (n, m) = createNode m ip p
     in Done (send m n (init_response (map full_str (node_vids ip p)) (myIP m))))"

definition vnode_pre_join :: "manager \<Rightarrow> bytes \<Rightarrow> bytes \<Rightarrow> 32 word \<Rightarrow> manager run" where
  "vnode_pre_join m vid ip p =
    (let (n, m) = createNode m ip p; r = unat (replica_group_size m)
     in bind_run (getNbrhood m (DBID vid)) (\<lambda>nb.
          let (sids, eids, tails) =
            (if length nb = 2 * r then
               (take r nb, map (\<lambda>i. if i \<noteq> r - 1 then nb ! (i + 1) else vid) [0..<r], map (\<lambda>i. nb ! (i + r)) [0..<r])
             else if length nb = 3 then ([nb ! 0], [nb ! 1], [nb ! 2])
             else if length nb = 1 then ([nb ! 0], [nb ! 0], [])
             else ([], [], []))
          in Done (send m n (vnode_pre_join_response vid sids eids (map getIP tails) (map getPort tails) (myIP m)))))"

text \<open>The loop of \<^verbatim>\<open>vnode_join\<close> that collects the chain to forward to: the joiner is skipped once, a second
  time ends the process.\<close>

fun forward_chain :: "manager \<Rightarrow> bytes \<Rightarrow> virtual_node list \<Rightarrow> nat \<Rightarrow> bool \<Rightarrow> virtual_node list \<Rightarrow> virtual_node list run" where
  "forward_chain m self [] need seen acc = (if need = 0 then Done acc else Crash)"
| "forward_chain m self (v # vs) need seen acc =
    (if need = 0 then Done acc
     else if self \<noteq> vn_addr m v then forward_chain m self vs (need - 1) seen (acc @ [v])
     else if \<not> seen then forward_chain m self vs need True acc
     else Crash)"

definition node_ip :: "manager \<Rightarrow> virtual_node \<Rightarrow> bytes" where
  "node_ip m v = IP (node_at m (vn_n v))"

definition node_port :: "manager \<Rightarrow> virtual_node \<Rightarrow> 32 word" where
  "node_port m v = port (node_at m (vn_n v))"

definition split_msg :: "manager \<Rightarrow> bytes \<Rightarrow> bytes \<Rightarrow> 32 word \<Rightarrow> virtual_node list \<Rightarrow> nat \<Rightarrow> nat \<Rightarrow> backend_msg run" where
  "split_msg m vid ip p nb r i =
    bind_run (forward_chain m (getID ip p) (drop (i + 1) nb) r False []) (\<lambda>fw.
      let ns = map (\<lambda>j. nb ! (i + j)) [1..<r + 2]
      in Done (flush_split (full_str (vn_id (nb ! i))) (full_str (vn_id (nb ! (i + 1)))) vid ip
           (ip # map (node_ip m) fw @ [ip]) (map (node_ip m) ns) (map (\<lambda>v. full_str (vn_id v)) ns) (int r + 2)
           (p # map (node_port m) fw @ [p]) (map (node_port m) ns) (myIP m)))"

fun send_splits :: "manager \<Rightarrow> bytes \<Rightarrow> bytes \<Rightarrow> 32 word \<Rightarrow> virtual_node list \<Rightarrow> nat \<Rightarrow> node_ref \<Rightarrow> nat list \<Rightarrow> manager run" where
  "send_splits m vid ip p nb r n [] = Done m"
| "send_splits m vid ip p nb r n (i # is) =
    bind_run (split_msg m vid ip p nb r i) (\<lambda>x. send_splits (send m n x) vid ip p nb r n is)"

text \<open>Chains around the joiner: its predecessors, itself, its successors.\<close>

definition join_neighbours :: "manager \<Rightarrow> node_ref \<Rightarrow> dbid \<Rightarrow> virtual_node list" where
  "join_neighbours m n db_vid =
    (let r = unat (replica_group_size m)
     in walk_pred (nodeList m) r db_vid [] @ [VirtualNode n db_vid] @ walk_succ (nodeList m) r db_vid [])"

definition split_messages :: "manager \<Rightarrow> bytes \<Rightarrow> bytes \<Rightarrow> 32 word \<Rightarrow> node_ref \<Rightarrow> manager run" where
  "split_messages m vid ip p n =
    (if numJoinedPhyNodes m = 0 then
       Done (send m n (flush_split vid vid vid ip [ip] [ip] [vid] 1 [p] [p] (myIP m)))
     else
       let nb = join_neighbours m n (DBID vid); r = unat (replica_group_size m)
       in if length nb < 2 * r + 1 \<or> length nb < 2 then Crash
          else bind_run (send_splits m vid ip p nb r n [0..<r]) (\<lambda>m.
            Done (m\<lparr>vid_temptail_map := (vid_temptail_map m)(full_str (vn_id (nb ! 1)) \<mapsto> True)\<rparr>)))"

definition enter_ring :: "manager \<Rightarrow> node_ref \<Rightarrow> dbid \<Rightarrow> manager run" where
  "enter_ring m n d = bind_run (push_phy m n) (\<lambda>m. staticJoin m d n False)"

definition vnode_join_split :: "manager \<Rightarrow> bytes \<Rightarrow> bytes \<Rightarrow> 32 word \<Rightarrow> manager run" where
  "vnode_join_split m vid ip p =
    (let (n, m) = createNode m ip p
     in with_virtual_lock m (\<lambda>m.
          bind_run (split_messages m vid ip p n) (\<lambda>m. enter_ring m n (DBID vid))))"

definition vnode_join_extend_chain :: "manager \<Rightarrow> bytes \<Rightarrow> bytes \<Rightarrow> 32 word \<Rightarrow> flushmode \<Rightarrow> manager run" where
  "vnode_join_extend_chain m vid ip p mode =
    bind_run (succ_vn m (DBID vid) True) (\<lambda>s.
    bind_run (succ_vn m (vn_id s) True) (\<lambda>ss.
    bind_run (Manager_getReplicaGroup m (DBID (vid_str s))) (\<lambda>g.
    bind_run (deref g) (\<lambda>g.
      let m = m\<lparr>vid_shorter_map := (vid_shorter_map m)(vid \<mapsto> False)\<rparr>;
          hops = int (unat (replica_group_size m)) - 1
      in case mode of
           MERGE \<Rightarrow> (case replicaGroup g of
               [] \<Rightarrow> Crash
             | q # _ \<Rightarrow> Done (send m q (flush_merge vid (vid_str s) (vid_str s) (vid_str ss) hops)))
         | PLAIN \<Rightarrow> Done (send m (nh_owner g) (flush vid (vid_str s) hops))
         | SPLIT \<Rightarrow> Done m))))"

definition vnode_join :: "manager \<Rightarrow> bytes \<Rightarrow> bytes \<Rightarrow> 32 word \<Rightarrow> flushmode \<Rightarrow> manager run" where
  "vnode_join m vid ip p mode =
    (if mode = MERGE \<or> mode = PLAIN then vnode_join_extend_chain m vid ip p mode
     else vnode_join_split m vid ip p)"

section \<open>Request handlers: completion, heartbeats, state\<close>

definition flush_nosplit :: "manager \<Rightarrow> bytes \<Rightarrow> manager run" where
  "flush_nosplit m vid =
    Done (m\<lparr>vid_temptail_map := (vid_temptail_map m)(vid \<mapsto> False), vid_shorter_map := (vid_shorter_map m)(vid \<mapsto> False)\<rparr>)"

definition flush_split_done :: "manager \<Rightarrow> bytes \<Rightarrow> 32 word \<Rightarrow> manager run" where
  "flush_split_done m vid hops =
    (if hops = 0 then Done (m\<lparr>vid_temptail_map := (vid_temptail_map m)(vid \<mapsto> False)\<rparr>) else Crash)"

definition heartbeat :: "manager \<Rightarrow> bytes \<Rightarrow> manager run" where
  "heartbeat m ip =
    (case ip_node_map m ip of
       Some n \<Rightarrow> Done (update_node m n setAlive)
     | None \<Rightarrow> Done m)"

text \<open>\<^verbatim>\<open>std::map\<close> iterates in the order of its keys: \<open>keys\<close> is the sorted list of the keys of the maps.
  The replication factor is written inside the loop over the nodes.\<close>

definition get_ring_state :: "manager \<Rightarrow> bytes list \<Rightarrow> bytes list \<Rightarrow> 32 word \<Rightarrow> ring_state" where
  "get_ring_state m tkeys skeys unset =
    \<lparr>rs_nodes = map (\<lambda>v. \<lparr>VnodeID = vid_str v, nd_ip = node_ip m v, nd_port = node_port m v\<rparr>) (nodeList m),
     replication = (if nodeList m = [] then unset else replica_group_size m),
     temptails = filter (\<lambda>k. vid_temptail_map m k = Some True) tkeys,
     shorters = filter (\<lambda>k. vid_shorter_map m k = Some True) skeys\<rparr>"

fun neighbor_loop :: "manager \<Rightarrow> virtual_node list \<Rightarrow> manager run" where
  "neighbor_loop m [] = Done m"
| "neighbor_loop m (v # vs) =
    bind_run (succ_vn m (vn_id v) False) (\<lambda>s.
    bind_run (pred_vn m (vn_id v) False) (\<lambda>p.
      let preds = map (\<lambda>w. full_str (vn_id w)) (walk_pred (nodeList m) (unat (replica_group_size m)) (vn_id v) [])
      in neighbor_loop (send m (vn_n v) (neighbor_update (full_str (vn_id v)) preds (full_str (vn_id s)) (vn_addr m s)
           (full_str (vn_id p)) (vn_addr m p) (myIP m))) vs))"

definition sendNeighborUpdates :: "manager \<Rightarrow> manager run" where
  "sendNeighborUpdates m = neighbor_loop m (nodeList m)"

section \<open>Failure detection and chain repair\<close>

text \<open>\<open>n\<close> steps of \<^verbatim>\<open>cur = getPredecessor(cur->id, true)\<close>, and of \<^verbatim>\<open>getSuccessor\<close> with the last two positions.\<close>

fun pred_steps :: "manager \<Rightarrow> nat \<Rightarrow> virtual_node \<Rightarrow> virtual_node run" where
  "pred_steps m 0 cur = Done cur"
| "pred_steps m (Suc n) cur = bind_run (pred_vn m (vn_id cur) True) (pred_steps m n)"

fun succ_steps :: "manager \<Rightarrow> nat \<Rightarrow> virtual_node \<Rightarrow> virtual_node \<Rightarrow> (virtual_node \<times> virtual_node) run" where
  "succ_steps m 0 prv cur = Done (prv, cur)"
| "succ_steps m (Suc n) prv cur = bind_run (succ_vn m (vn_id cur) True) (succ_steps m n cur)"

definition shorten :: "manager \<Rightarrow> bytes \<Rightarrow> manager" where
  "shorten m k = m\<lparr>vid_shorter_map := (vid_shorter_map m)(k \<mapsto> True)\<rparr>"

text \<open>The loop over the chains in which the failed node is in the middle. \<open>fuel\<close> bounds the number of steps; a
  walk that has not met \<open>v\<close> after a full round never will.\<close>

fun mid_loop :: "manager \<Rightarrow> nat \<Rightarrow> dbid \<Rightarrow> virtual_node \<Rightarrow> virtual_node \<Rightarrow> int \<Rightarrow> int \<Rightarrow> virtual_node \<Rightarrow> manager run" where
  "mid_loop m 0 v pre suc r k cur = (if dbid_eq (vn_id cur) v then Done m else Loops)"
| "mid_loop m (Suc fuel) v pre suc r k cur =
    (if dbid_eq (vn_id cur) v then Done m
     else
       let m = send (shorten m (vid_str cur)) (vn_n pre)
                 (chain_repair_mid (vid_str cur) (vid_str pre) (vid_str suc) (vn_addr m suc) (r - 2 - k) k)
       in bind_run (succ_vn m (vn_id cur) True) (mid_loop m fuel v pre suc r (k + 1)))"

definition fail_vnode :: "manager \<Rightarrow> node_ref \<Rightarrow> dbid \<Rightarrow> manager run" where
  "fail_vnode m i v =
    (let r = int (unat (replica_group_size m)); fail = \<lparr>vn_n = i, vn_id = v\<rparr>
     in bind_run (pred_vn m v True) (\<lambda>pre.
        bind_run (succ_vn m v True) (\<lambda>suc.
        bind_run (pred_steps m (nat (r - 1)) fail) (\<lambda>head.
          let m = send (shorten m (vid_str head)) (vn_n head)
                    (chain_repair_tail (vid_str head) (r - 2) (r - 2) (vid_str suc) (vn_addr m suc))
          in bind_run (succ_vn m (vn_id head) True) (\<lambda>cur.
             bind_run (mid_loop m (length (nodeList m)) v pre suc r 1 cur) (\<lambda>m.
             bind_run (succ_steps m (nat r) pre fail) (\<lambda>(prv, cur).
             bind_run (pred_vn m v True) (\<lambda>p.
             bind_run (succ_vn m v True) (\<lambda>s.
               Done (shorten (send m (vn_n cur)
                 (vnode_extend_chain (vid_str cur) (vid_str prv) (vid_str p) (actual_data_str v) (node_ip m prv) (node_port m prv) MERGE))
                 (vid_str s)))))))))))"

text \<open>With a replication factor of one, the first virtual node ends the whole loop.\<close>

definition fail_single :: "manager \<Rightarrow> node_ref \<Rightarrow> dbid \<Rightarrow> manager run" where
  "fail_single m i v =
    bind_run (pred_vn m v True) (\<lambda>pre.
    bind_run (succ_vn m v True) (\<lambda>suc.
      let m = send m (vn_n suc) (chain_repair_single (vid_str pre) (vid_str suc))
      in bind_run (removeNodefromRing m i True) (\<lambda>m. removePhysicalNode m i)))"

fun fail_vnodes :: "manager \<Rightarrow> node_ref \<Rightarrow> dbid list \<Rightarrow> manager run" where
  "fail_vnodes m i [] = Done m"
| "fail_vnodes m i (v # vs) = bind_run (fail_vnode m i v) (\<lambda>m. fail_vnodes m i vs)"

definition failNode :: "manager \<Rightarrow> node_ref \<Rightarrow> manager run" where
  "failNode m i =
    (if replica_group_size m = 1 \<and> vnodes (node_at m i) \<noteq> [] then fail_single m i (hd (vnodes (node_at m i)))
     else bind_run (fail_vnodes m i (vnodes (node_at m i))) (\<lambda>m.
       Done (update_node m i (\<lambda>nd. nd\<lparr>valid := False\<rparr>))))"

text \<open>The loop of \<^verbatim>\<open>ageNodes\<close> stays on a node that has just failed, and skips it in the next round. \<open>fuel\<close> of
  twice the number of nodes is enough, since \<^verbatim>\<open>failNode\<close> makes a node invalid.\<close>

fun age_loop :: "manager \<Rightarrow> nat \<Rightarrow> node_ref list \<Rightarrow> manager run" where
  "age_loop m fuel [] = Done m"
| "age_loop m 0 (i # is) = Loops"
| "age_loop m (Suc fuel) (i # is) =
    (let m = update_node m i increment_beats_missed
     in if \<not> valid (node_at m i) then age_loop m fuel is
        else if sint (beatsMissed (node_at m i)) \<ge> NUM_BEATS_BEFORE_FAILURE then
          bind_run (failNode m i) (\<lambda>m. age_loop m fuel (i # is))
        else age_loop m fuel is)"

definition ageNodes :: "manager \<Rightarrow> manager run" where
  "ageNodes m = with_phy_lock m (\<lambda>m. age_loop m (2 * length (phyNodeList m)) (phyNodeList m))"

text \<open>\<^verbatim>\<open>chain_repair_done\<close>: \<open>cur\<close> is uninitialised when no node has the end key, \<open>pred\<close> when no node of the
  chain is valid.\<close>

fun repair_walk :: "manager \<Rightarrow> nat \<Rightarrow> virtual_node option \<Rightarrow> virtual_node \<Rightarrow> (virtual_node option \<times> virtual_node) run" where
  "repair_walk m 0 pre cur = Done (pre, cur)"
| "repair_walk m (Suc n) pre cur =
    (let pre = (if valid (node_at m (vn_n cur)) then Some cur else pre)
     in bind_run (succ_vn m (vn_id cur) True) (repair_walk m n pre))"

definition chain_repair_done :: "manager \<Rightarrow> bytes \<Rightarrow> bytes \<Rightarrow> manager run" where
  "chain_repair_done m key endkey =
    bind_run (deref (find (\<lambda>v. dbid_eq (vn_id v) (DBID endkey)) (nodeList m))) (\<lambda>head.
    bind_run (repair_walk m (unat (replica_group_size m)) None head) (\<lambda>(pre, cur).
    bind_run (deref pre) (\<lambda>p.
      Done (send m (vn_n cur) (vnode_extend_chain (vid_str cur) (vid_str p) key endkey (node_ip m p) (node_port m p) PLAIN)))))"

end
