(* ===== verification/Manager_Laws.thy ===== *)
theory Manager_Laws
  imports Manager
begin

text \<open>
  The invariant of the manager and what its handlers do to it: walks over the ring, chain repair
  after a failure, and the preservation lemmas that the reachability theorem combines.
\<close>

section \<open>Walking backwards\<close>

abbreviation rback :: "'a list \<Rightarrow> nat \<Rightarrow> nat \<Rightarrow> nat" where
  "rback nl t i \<equiv> (prev_index nl ^^ t) i"

lemma back_eq: "i < length nl \<Longrightarrow> t \<le> i + length nl \<Longrightarrow> rback nl t i = (if t \<le> i then i - t else i + length nl - t)"
  by (induction t) (auto simp: prev_index_def)

lemma back_less: "i < length nl \<Longrightarrow> rback nl t i < length nl"
  by (induction t) (auto simp: prev_index_less)

lemma next_back: "i < length nl \<Longrightarrow> next_index nl (rback nl (Suc t) i) = rback nl t i"
  by (simp add: next_prev_index back_less)

lemma back_neq: "i < length nl \<Longrightarrow> 0 < t \<Longrightarrow> t < length nl \<Longrightarrow> rback nl t i \<noteq> i"
  by (auto simp: back_eq)

lemma back_onto: "i < length nl \<Longrightarrow> j < length nl \<Longrightarrow> \<exists>t < length nl. rback nl t i = j"
proof -
  assume a: "i < length nl" "j < length nl"
  let ?t = "if j \<le> i then i - j else i + length nl - j"
  have "?t < length nl" "rback nl ?t i = j" using a by (auto simp: back_eq)
  then show ?thesis by blast
qed

section \<open>The invariant\<close>

definition vnodes_ok :: "manager \<Rightarrow> bool" where
  "vnodes_ok m \<longleftrightarrow> (\<forall>nd \<in> set (heap m). \<forall>d \<in> set (vnodes nd). wf_dbid d \<and> dbid_num d \<in> vnum ` set (nodeList m))"

definition full_ids :: "virtual_node list \<Rightarrow> bool" where
  "full_ids nl \<longleftrightarrow> (\<forall>v \<in> set nl. actual_size (vn_id v) = DBID_LENGTH)"

definition manager_inv :: "manager \<Rightarrow> bool" where
  "manager_inv m \<longleftrightarrow> ring_wf m \<and> vnodes_ok m \<and> full_ids (nodeList m) \<and> (\<forall>n \<in> set (phyNodeList m). n < length (heap m))"

text \<open>The fields no message and no map update touches.\<close>

definition same_ring :: "manager \<Rightarrow> manager \<Rightarrow> bool" where
  "same_ring m m' \<longleftrightarrow> heap m' = heap m \<and> ip_node_map m' = ip_node_map m \<and> nodeList m' = nodeList m
    \<and> replica_group_size m' = replica_group_size m \<and> phyNodeList m' = phyNodeList m
    \<and> phy_lock m' = phy_lock m \<and> virtual_lock m' = virtual_lock m"

lemma same_ring_refl [simp]: "same_ring m m"
  by (simp add: same_ring_def)

lemma same_ring_trans: "same_ring a b \<Longrightarrow> same_ring b c \<Longrightarrow> same_ring a c"
  by (simp add: same_ring_def)

lemma same_ring_send [simp]: "same_ring m (send m n x)" "same_ring m (shorten m k)"
  "same_ring m (m\<lparr>vid_temptail_map := f\<rparr>)" "same_ring m (m\<lparr>vid_shorter_map := f\<rparr>)"
  by (simp_all add: same_ring_def send_def shorten_def)

lemma same_ring_inv: "same_ring m m' \<Longrightarrow> manager_inv m' \<longleftrightarrow> manager_inv m"
  by (simp add: same_ring_def manager_inv_def ring_wf_def vnodes_ok_def)

lemma same_ring_fields: "same_ring m m' \<Longrightarrow> nodeList m' = nodeList m \<and> heap m' = heap m \<and> virtual_lock m' = virtual_lock m
   \<and> phy_lock m' = phy_lock m \<and> replica_group_size m' = replica_group_size m \<and> phyNodeList m' = phyNodeList m"
  by (simp add: same_ring_def)

section \<open>Walks on the ring\<close>

lemma pred_vn_member:
  assumes "ring_sorted (nodeList m)" and "\<not> (b \<and> virtual_lock m)" and "j < length (nodeList m)"
    and "wf_dbid x" and "dbid_num x = vnum (nodeList m ! j)"
  shows "pred_vn m x b = Done (nodeList m ! prev_index (nodeList m) j)"
proof -
  have "nodeList m \<noteq> []" using assms(3) by auto
  then show ?thesis
    using assms getPredecessor_eq [OF assms(1) _ assms(4)] owner_index_member [OF assms(1,3,4,5)]
    by (auto simp: pred_vn_def get_pred_def deref_def)
qed

lemma succ_vn_member:
  assumes "ring_sorted (nodeList m)" and "\<not> (b \<and> virtual_lock m)" and "j < length (nodeList m)"
    and "wf_dbid x" and "dbid_num x = vnum (nodeList m ! j)"
  shows "succ_vn m x b = Done (nodeList m ! next_index (nodeList m) j)"
  using assms getSuccessor_member [OF assms(1,3,4,5)] by (auto simp: succ_vn_def get_succ_def deref_def)

lemma pred_steps_back:
  assumes "ring_sorted (nodeList m)" and "\<not> virtual_lock m" and "j < length (nodeList m)"
    and "wf_dbid (vn_id cur)" and "vnum cur = vnum (nodeList m ! j)"
  shows "\<exists>h. pred_steps m t cur = Done h \<and> wf_dbid (vn_id h) \<and> vnum h = vnum (nodeList m ! rback (nodeList m) t j)
    \<and> (0 < t \<longrightarrow> h = nodeList m ! rback (nodeList m) t j)"
  using assms
proof (induction t arbitrary: cur j)
  case 0
  then show ?case by simp
next
  case (Suc t)
  let ?p = "prev_index (nodeList m) j"
  have p: "?p < length (nodeList m)" using Suc.prems by (simp add: prev_index_less)
  have "pred_vn m (vn_id cur) True = Done (nodeList m ! ?p)"
    using Suc.prems by (intro pred_vn_member) auto
  moreover obtain h where "pred_steps m t (nodeList m ! ?p) = Done h" "wf_dbid (vn_id h)"
    "vnum h = vnum (nodeList m ! rback (nodeList m) t ?p)" "0 < t \<longrightarrow> h = nodeList m ! rback (nodeList m) t ?p"
    using Suc.IH [of ?p "nodeList m ! ?p"] Suc.prems p by auto
  ultimately show ?case by (cases t) (auto simp: funpow_swap1 pred_steps.simps)
qed

lemma succ_steps_Done:
  assumes "ring_sorted (nodeList m)" and "\<not> virtual_lock m" and "j < length (nodeList m)"
    and "wf_dbid (vn_id cur)" and "vnum cur = vnum (nodeList m ! j)"
  shows "\<exists>p c. succ_steps m t prv cur = Done (p, c)"
  using assms
proof (induction t arbitrary: prv cur j)
  case 0
  then show ?case by simp
next
  case (Suc t)
  let ?n = "next_index (nodeList m) j"
  have n: "?n < length (nodeList m)" using Suc.prems by (simp add: next_index_less)
  have "succ_vn m (vn_id cur) True = Done (nodeList m ! ?n)"
    using Suc.prems by (intro succ_vn_member) auto
  then show ?case using Suc.IH [of ?n "nodeList m ! ?n" cur] Suc.prems n by simp
qed

section \<open>Chain repair\<close>

text \<open>Marking a set of ranges as shortened.\<close>

definition marked :: "bytes set \<Rightarrow> (bytes \<rightharpoonup> bool) \<Rightarrow> (bytes \<rightharpoonup> bool)" where
  "marked S f k = (if k \<in> S then Some True else f k)"

lemma marked_simps [simp]: "marked {} f = f" "marked S (marked T f) = marked (S \<union> T) f" "f(k \<mapsto> True) = marked {k} f"
  by (auto simp: marked_def)

lemma shorten_map [simp]: "vid_shorter_map (shorten m k) = marked {k} (vid_shorter_map m)"
  by (simp add: shorten_def)

lemma send_map [simp]: "vid_shorter_map (send m n x) = vid_shorter_map m"
  by (simp add: send_def)

lemma mid_loop_back:
  assumes "ring_sorted (nodeList m)" and "\<not> virtual_lock m" and "iv < length (nodeList m)"
    and "wf_dbid v" and "dbid_num v = vnum (nodeList m ! iv)" and "t < length (nodeList m)" and "t \<le> fuel"
  shows "\<exists>m'. mid_loop m fuel v pre suc r k (nodeList m ! rback (nodeList m) t iv) = Done m' \<and> same_ring m m'
    \<and> vid_shorter_map m' = marked ((\<lambda>s. vid_str (nodeList m ! rback (nodeList m) s iv)) ` {1..t}) (vid_shorter_map m)"
  using assms
proof (induction t arbitrary: fuel k m)
  case 0
  then have "dbid_eq (vn_id (nodeList m ! iv)) v" by (simp add: order_simps)
  then show ?case by (cases fuel) auto
next
  case (Suc t)
  let ?nl = "nodeList m"
  let ?c = "?nl ! rback ?nl (Suc t) iv"
  have b: "rback ?nl (Suc t) iv < length ?nl" using Suc.prems back_less by blast
  have "rback ?nl (Suc t) iv \<noteq> iv" using Suc.prems by (intro back_neq) auto
  then have ne: "\<not> dbid_eq (vn_id ?c) v"
    using Suc.prems b ring_sorted_inj [OF Suc.prems(1) b Suc.prems(3)] by (simp add: order_simps del: funpow.simps)
  obtain f where f: "fuel = Suc f" "t \<le> f" using Suc.prems(7) by (cases fuel) auto
  define m1 where "m1 = send (shorten m (vid_str ?c)) (vn_n pre)
      (chain_repair_mid (vid_str ?c) (vid_str pre) (vid_str suc) (vn_addr m suc) (r - 2 - k) k)"
  have same: "same_ring m m1"
    unfolding m1_def by (blast intro: same_ring_trans same_ring_send)
  note s = same_ring_fields [OF same]
  have "succ_vn m1 (vn_id ?c) True = Done (?nl ! next_index ?nl (rback ?nl (Suc t) iv))"
    using succ_vn_member [of m1 True "rback ?nl (Suc t) iv"] s b Suc.prems by simp
  then have step: "mid_loop m fuel v pre suc r k ?c = mid_loop m1 f v pre suc r (k + 1) (?nl ! rback ?nl t iv)"
    using ne f next_back [OF Suc.prems(3), of t] by (simp add: m1_def Let_def del: funpow.simps)
  obtain m' where m': "mid_loop m1 f v pre suc r (k + 1) (?nl ! rback ?nl t iv) = Done m'" "same_ring m1 m'"
    "vid_shorter_map m' = marked ((\<lambda>s. vid_str (?nl ! rback ?nl s iv)) ` {1..t}) (vid_shorter_map m1)"
    using Suc.IH [of m1 f "k + 1"] s Suc.prems f by auto
  have "vid_shorter_map m1 = marked {vid_str ?c} (vid_shorter_map m)" by (simp add: m1_def)
  then have "vid_shorter_map m' = marked ((\<lambda>s. vid_str (?nl ! rback ?nl s iv)) ` {1..Suc t}) (vid_shorter_map m)"
    using m'(3) by (simp add: atLeastAtMostSuc_conv Un_commute del: funpow.simps)
  then show ?case using step m'(1,2) same same_ring_trans by metis
qed

lemma fail_vnode_Done:
  fixes m :: manager
  defines "nl \<equiv> nodeList m" and "r \<equiv> unat (replica_group_size m)"
  assumes "ring_sorted (nodeList m)" and "\<not> virtual_lock m" and "iv < length (nodeList m)"
    and "wf_dbid v" and "dbid_num v = vnum (nodeList m ! iv)"
  shows "\<exists>m'. fail_vnode m i v = Done m' \<and> same_ring m m'
    \<and> (2 \<le> r \<and> r \<le> length nl \<longrightarrow> vid_shorter_map m' =
        marked ((\<lambda>s. vid_str (nl ! rback nl s iv)) ` {1..r - 1} \<union> {vid_str (nl ! next_index nl iv)}) (vid_shorter_map m))"
proof -
  let ?fail = "\<lparr>vn_n = i, vn_id = v\<rparr>"
  note ring = assms(3)
  have pre: "pred_vn m' v True = Done (nl ! prev_index nl iv)" "succ_vn m' v True = Done (nl ! next_index nl iv)"
    if "same_ring m m'" for m'
    using that pred_vn_member [of m' True iv v] succ_vn_member [of m' True iv v] assms
    by (simp_all add: same_ring_def)
  obtain h where h: "pred_steps m (r - 1) ?fail = Done h" "wf_dbid (vn_id h)" "vnum h = vnum (nl ! rback nl (r - 1) iv)"
    "0 < r - 1 \<longrightarrow> h = nl ! rback nl (r - 1) iv"
    using pred_steps_back [OF assms(3-5), of ?fail "r - 1"] assms(6,7) nl_def by auto
  have hb: "rback nl (r - 1) iv < length nl" using assms(5) back_less nl_def by blast
  define m1 where "m1 = send (shorten m (vid_str h)) (vn_n h)
      (chain_repair_tail (vid_str h) (int r - 2) (int r - 2) (vid_str (nl ! next_index nl iv)) (vn_addr m (nl ! next_index nl iv)))"
  have same1: "same_ring m m1" unfolding m1_def by (blast intro: same_ring_trans same_ring_send)
  note f1 = same_ring_fields [OF same1]
  have cur: "succ_vn m1 (vn_id h) True = Done (nl ! next_index nl (rback nl (r - 1) iv))"
    using succ_vn_member [of m1 True "rback nl (r - 1) iv" "vn_id h"] f1 hb h(2,3) assms by simp
  obtain t where t: "t < length nl" "rback nl t iv = next_index nl (rback nl (r - 1) iv)" "2 \<le> r \<and> r \<le> length nl \<longrightarrow> t = r - 2"
  proof (cases "2 \<le> r \<and> r \<le> length nl")
    case True
    then have "r - 1 = Suc (r - 2)" by linarith
    then have "next_index nl (rback nl (r - 1) iv) = rback nl (r - 2) iv"
      using next_back [of iv nl "r - 2"] assms(5) nl_def by metis
    then show thesis using True by (intro that [of "r - 2"]) auto
  next
    case False
    then show thesis
      using that back_onto [of iv nl "next_index nl (rback nl (r - 1) iv)"] assms(5) nl_def hb next_index_less by metis
  qed
  obtain m2 where m2: "mid_loop m1 (length nl) v (nl ! prev_index nl iv) (nl ! next_index nl iv) (int r) 1 (nl ! rback nl t iv) = Done m2"
    "same_ring m1 m2" "vid_shorter_map m2 = marked ((\<lambda>s. vid_str (nl ! rback nl s iv)) ` {1..t}) (vid_shorter_map m1)"
    using mid_loop_back [of m1 iv v t "length nl" "nl ! prev_index nl iv" "nl ! next_index nl iv" "int r" 1] f1 assms t(1) by auto
  have same2: "same_ring m m2" using same1 m2(2) same_ring_trans by blast
  obtain p c where pc: "succ_steps m2 r (nl ! prev_index nl iv) ?fail = Done (p, c)"
    using succ_steps_Done [of m2 iv ?fail r "nl ! prev_index nl iv"] same_ring_fields [OF same2] assms by auto
  define m3 where "m3 = shorten (send m2 (vn_n c) (vnode_extend_chain (vid_str c) (vid_str p)
      (vid_str (nl ! prev_index nl iv)) (actual_data_str v) (node_ip m2 p) (node_port m2 p) MERGE)) (vid_str (nl ! next_index nl iv))"
  have "fail_vnode m i v = Done m3"
    using pre [OF same_ring_refl] pre [OF same2] h(1) cur m2(1) pc t(2) f1
    by (simp add: fail_vnode_def Let_def m1_def m3_def nl_def r_def nat_diff_distrib' del: funpow.simps)
  moreover have "same_ring m m3"
    unfolding m3_def using same2 by (blast intro: same_ring_trans same_ring_send)
  moreover have "vid_shorter_map m3 = marked ((\<lambda>s. vid_str (nl ! rback nl s iv)) ` {1..r - 1} \<union> {vid_str (nl ! next_index nl iv)}) (vid_shorter_map m)"
    if "2 \<le> r \<and> r \<le> length nl"
  proof -
    have "{1..r - 1} = insert (r - 1) {1..t}" using that t(3) by auto
    moreover have "h = nl ! rback nl (r - 1) iv" using h(4) that by simp
    ultimately show ?thesis using m2(3) by (simp add: m3_def m1_def Un_commute insert_commute)
  qed
  ultimately show ?thesis by blast
qed

section \<open>Handlers keep the invariant\<close>

definition keeps :: "manager \<Rightarrow> manager \<Rightarrow> bool" where
  "keeps m m' \<longleftrightarrow> manager_inv m' \<and> phy_lock m' = phy_lock m \<and> virtual_lock m' = virtual_lock m
    \<and> replica_group_size m' = replica_group_size m \<and> length (heap m) \<le> length (heap m')"

text \<open>A handler is fine when it returns with the invariant, or dereferences a null pointer or exits; it
  neither blocks nor loops.\<close>

fun fine :: "manager \<Rightarrow> manager run \<Rightarrow> bool" where
  "fine m (Done m') = keeps m m'"
| "fine m Crash = True"
| "fine m Deadlock = False"
| "fine m Loops = False"

lemma keeps_refl: "manager_inv m \<Longrightarrow> keeps m m"
  by (simp add: keeps_def)

lemma keeps_trans: "keeps a b \<Longrightarrow> keeps b c \<Longrightarrow> keeps a c"
  by (auto simp: keeps_def)

lemma keeps_same: "manager_inv m \<Longrightarrow> same_ring m m' \<Longrightarrow> keeps m m'"
  by (simp add: keeps_def same_ring_inv) (simp add: same_ring_def)

lemma keeps_fine: "keeps a b \<Longrightarrow> fine b x \<Longrightarrow> fine a x"
  by (cases x) (auto intro: keeps_trans)

lemma fine_bind:
  "fine m x \<Longrightarrow> (\<And>m'. x = Done m' \<Longrightarrow> keeps m m' \<Longrightarrow> fine m' (f m')) \<Longrightarrow> fine m (bind_run x f)"
  by (cases x) (auto intro: keeps_fine)

lemma fine_bind_value: "x \<noteq> Deadlock \<Longrightarrow> x \<noteq> Loops \<Longrightarrow> (\<And>y. x = Done y \<Longrightarrow> fine m (f y)) \<Longrightarrow> fine m (bind_run x f)"
  by (cases x) auto

lemma update_node_inv:
  assumes "manager_inv m" and "\<And>nd. IP (f nd) = IP nd \<and> port (f nd) = port nd"
    and "\<And>nd d. nd \<in> set (heap m) \<Longrightarrow> d \<in> set (vnodes (f nd)) \<Longrightarrow> wf_dbid d \<and> dbid_num d \<in> vnum ` set (nodeList m)"
    and "n < length (heap m)"
  shows "manager_inv (update_node m n f)"
proof -
  have "node_id ((heap m)[n := f (heap m ! n)] ! r) = node_id (heap m ! r)" if "r < length (heap m)" for r
    using assms(2) that by (cases "r = n") (auto simp: node_id_def)
  then have "entries_wf ((heap m)[n := f (heap m ! n)]) (ip_node_map m)"
    using assms(1) by (auto simp: manager_inv_def ring_wf_def entries_wf_def table_wf_def)
  moreover have "\<forall>d \<in> set (vnodes (f (heap m ! n))). wf_dbid d \<and> dbid_num d \<in> vnum ` set (nodeList m)"
    using assms(3) [OF nth_mem [OF assms(4)]] by blast
  then have "vnodes_ok (update_node m n f)"
    using assms(1) by (auto simp: manager_inv_def vnodes_ok_def update_node_def dest!: set_update_subset_insert [THEN subsetD])
  ultimately show ?thesis
    using assms(1) by (simp add: manager_inv_def ring_wf_def update_node_def)
qed

lemma update_node_keeps:
  assumes "manager_inv m" and "\<And>nd. IP (f nd) = IP nd \<and> port (f nd) = port nd \<and> vnodes (f nd) = vnodes nd" and "n < length (heap m)"
  shows "keeps m (update_node m n f)"
proof -
  have "manager_inv (update_node m n f)"
    using assms by (intro update_node_inv) (auto simp: manager_inv_def vnodes_ok_def)
  then show ?thesis by (simp add: keeps_def update_node_def)
qed

lemma set_insert_vid: "set (insert_vid d ds) \<subseteq> insert d (set ds)"
  by (induction ds) auto

lemma staticJoin_fine:
  assumes "manager_inv m" and "n < length (heap m)" and "wf_dbid i" and "\<not> (lk \<and> virtual_lock m)"
  shows "fine m (staticJoin m i n lk)"
proof -
  let ?v = "VirtualNode n i"
  define m1 where "m1 = m\<lparr>nodeList := insert_vn ?v (nodeList m)\<rparr>"
  have ring: "ring_sorted (nodeList m)" using assms(1) by (simp add: manager_inv_def ring_wf_def)
  have wf: "wf_dbid (vn_id ?v)" using assms(3) by simp
  have ids: "vnum ` set (nodeList m1) = insert (dbid_num i) (vnum ` set (nodeList m))"
    using insert_vn_ids [OF ring wf] assms(3) by (simp add: m1_def)
  have "\<forall>v \<in> set (nodeList m1). vn_n v < length (heap m)"
    using assms(1,2) set_insert_vn(1) [of ?v "nodeList m"] by (auto simp: m1_def manager_inv_def ring_wf_def)
  moreover have "full_ids (nodeList m1)"
    using assms(1) set_insert_vn(1) [of ?v "nodeList m"]
    by (auto simp: m1_def manager_inv_def full_ids_def VirtualNode_def DBID_Init_def Let_def DBID_LENGTH_def)
  ultimately have inv1: "manager_inv m1"
    using assms(1) insert_vn_sorted [OF ring wf] ids
    by (auto simp: m1_def manager_inv_def ring_wf_def vnodes_ok_def)
  have "manager_inv (update_node m1 n (\<lambda>nd. addVnode nd i))"
    using assms(2,3) ids inv1 set_insert_vid
    by (intro update_node_inv) (fastforce simp: m1_def manager_inv_def vnodes_ok_def addVnode_def dest: subsetD)+
  moreover have "staticJoin m i n lk = Done (update_node m1 n (\<lambda>nd. addVnode nd i))"
    using assms(4) by (simp add: staticJoin_def addNodetoRing_def update_node_def m1_def)
  ultimately show ?thesis by (simp add: keeps_def update_node_def m1_def)
qed

lemma createNode_keeps:
  assumes "manager_inv m" and "createNode m ip p = (n, m')"
  shows "keeps m m'" "n < length (heap m')"
proof -
  have w: "entries_wf (heap m) (ip_node_map m)" using assms(1) by (simp add: manager_inv_def ring_wf_def)
  note e = createNode_entries [OF w assms(2)]
  show "n < length (heap m')" by (rule e(2))
  have c: "phyNodeList m' = phyNodeList m \<and> phy_lock m' = phy_lock m \<and> virtual_lock m' = virtual_lock m \<and>
      set (heap m') \<subseteq> set (heap m) \<union> {Node_new ip p}"
    using assms(2) by (auto simp: createNode_def Let_def split: option.splits)
  obtain xs where xs: "heap m' = heap m @ xs" using e(3) by blast
  have "vnodes_ok m'"
    using assms c by (auto simp: manager_inv_def vnodes_ok_def Node_new_def dest!: subsetD)
  then show "keeps m m'"
    using assms e(1) c xs by (auto simp: keeps_def manager_inv_def ring_wf_def)
qed

lemma push_phy_fine: "manager_inv m \<Longrightarrow> n < length (heap m) \<Longrightarrow> \<not> phy_lock m \<Longrightarrow> fine m (push_phy m n)"
  by (simp add: push_phy_def keeps_def manager_inv_def ring_wf_def vnodes_ok_def)

lemma join_all_fine:
  "manager_inv m \<Longrightarrow> n < length (heap m) \<Longrightarrow> \<not> virtual_lock m \<Longrightarrow> \<forall>i \<in> set is. wf_dbid i \<Longrightarrow> fine m (join_all m is n)"
proof (induction "is" arbitrary: m)
  case (Cons i "is")
  then show ?case
    by (auto intro!: fine_bind staticJoin_fine Cons.IH simp: keeps_def)
qed (simp add: keeps_refl)

lemma vid_chain_wf: "\<forall>i \<in> set (vid_chain n w). wf_dbid i"
  by (induction n arbitrary: w) (auto simp: ring_dbid_def wf_DBID_Init)

end
