(* ===== verification/Manager_Props.thy ===== *)
theory Manager_Props
  imports Manager_Laws
begin

text \<open>
  The manager as a state machine: requests, one step per handled request, the invariant of every
  reachable state, when a handler that runs alone returns, the two deadlocks of the aging thread (with itself
  and with a join), the exchange of ring state with a front end, and the ranges a failure shortens.
\<close>

section \<open>Requests\<close>

datatype request =
    Static_Join bytes "32 word"
  | Rejoin "bytes list" "bytes list" bytes "32 word"
  | Join bytes "32 word"
  | Pre_Join bytes bytes "32 word"
  | Vnode_Join bytes bytes "32 word" flushmode
  | Flush_Nosplit bytes
  | Flush_Split bytes "32 word"
  | Heartbeat bytes
  | Repair_Done bytes bytes
  | Neighbor_Updates
  | Age

fun handle :: "manager \<Rightarrow> request \<Rightarrow> manager run" where
  "handle m (Static_Join ip p) = static_join m ip p"
| "handle m (Rejoin vids sids ip p) = rejoin m vids sids ip p"
| "handle m (Join ip p) = join m ip p"
| "handle m (Pre_Join vid ip p) = vnode_pre_join m vid ip p"
| "handle m (Vnode_Join vid ip p mode) = vnode_join m vid ip p mode"
| "handle m (Flush_Nosplit vid) = flush_nosplit m vid"
| "handle m (Flush_Split vid hops) = flush_split_done m vid hops"
| "handle m (Heartbeat ip) = heartbeat m ip"
| "handle m (Repair_Done key endkey) = chain_repair_done m key endkey"
| "handle m Neighbor_Updates = sendNeighborUpdates m"
| "handle m Age = ageNodes m"

text \<open>Requests that are handled one after the other, each to its end. A handler that blocks or stops the process gives no
  further state.\<close>

inductive reachable :: "bytes \<Rightarrow> 32 word \<Rightarrow> manager \<Rightarrow> bool" for ip r where
  reach_init: "reachable ip r (Manager_init ip r)"
| reach_step: "reachable ip r m \<Longrightarrow> handle m q = Done m' \<Longrightarrow> reachable ip r m'"

section \<open>Each handler is fine\<close>

definition quiet :: "manager \<Rightarrow> bool" where
  "quiet m \<longleftrightarrow> manager_inv m \<and> \<not> phy_lock m \<and> \<not> virtual_lock m"

lemma keeps_quiet: "quiet m \<Longrightarrow> keeps m m' \<Longrightarrow> quiet m'"
  by (simp add: quiet_def keeps_def)

lemma quiet_fields: "quiet m \<Longrightarrow> manager_inv m" "quiet m \<Longrightarrow> \<not> phy_lock m" "quiet m \<Longrightarrow> \<not> virtual_lock m"
  by (simp_all add: quiet_def)

lemma fine_send: "quiet m \<Longrightarrow> fine m (Done (send m n x))"
  by (simp add: keeps_same quiet_fields)

lemma join_all_quiet: "quiet m \<Longrightarrow> n < length (heap m) \<Longrightarrow> \<forall>i \<in> set is. wf_dbid i \<Longrightarrow> fine m (join_all m is n)"
  by (simp add: join_all_fine quiet_def)

lemma joined_fine:
  assumes "quiet m" and "n < length (heap m)" and "\<forall>i \<in> set is. wf_dbid i" and "\<And>m. quiet m \<Longrightarrow> fine m (f m)"
  shows "fine m (bind_run (push_phy m n) (\<lambda>m. bind_run (join_all m is n) f))"
proof (rule fine_bind)
  show "fine m (push_phy m n)" using assms by (intro push_phy_fine) (auto simp: quiet_def)
  fix m' assume k: "keeps m m'"
  have q: "quiet m'" and l: "n < length (heap m')" using assms(1,2) k by (auto simp: keeps_quiet keeps_def)
  show "fine m' (bind_run (join_all m' is n) f)"
    using q l assms(3,4) keeps_quiet by (intro fine_bind join_all_quiet) auto
qed

lemma created_fine:
  assumes "quiet m" and "\<And>n m'. createNode m ip p = (n, m') \<Longrightarrow> quiet m' \<Longrightarrow> n < length (heap m') \<Longrightarrow> fine m' (f n m')"
  shows "fine m (case createNode m ip p of (n, m') \<Rightarrow> f n m')"
proof -
  obtain n m' where c: "createNode m ip p = (n, m')" by fastforce
  note k = createNode_keeps [OF quiet_fields(1) [OF assms(1)] c]
  have "fine m' (f n m')" using assms(2) [OF c] k keeps_quiet [OF assms(1)] by blast
  then show ?thesis using k(1) c by (simp add: keeps_fine)
qed

lemma static_join_fine: "quiet m \<Longrightarrow> fine m (static_join m ip p)"
  unfolding static_join_def Let_def
  by (erule created_fine) (auto intro!: joined_fine fine_send simp: node_vids_def vid_chain_wf simp del: fine.simps)

lemma joinRing_fine: "quiet m \<Longrightarrow> n < length (heap m) \<Longrightarrow> fine m (joinRing m ip p n)"
proof -
  assume q: "quiet m" and n: "n < length (heap m)"
  have "fine m' (join_all m' (node_vids ip p) n)" if "keeps m m'" for m'
    using that n keeps_quiet [OF q that] by (intro join_all_quiet) (auto simp: keeps_def node_vids_def vid_chain_wf)
  then show ?thesis
    unfolding joinRing_def using q n by (intro fine_bind push_phy_fine) (auto simp: quiet_def)
qed

lemma rejoin_fine: "quiet m \<Longrightarrow> fine m (rejoin m vids sids ip p)"
  unfolding rejoin_def Let_def
  by (erule created_fine) (auto intro!: joined_fine joinRing_fine fine_send simp del: fine.simps)

lemma join_fine: "quiet m \<Longrightarrow> fine m (join m ip p)"
  unfolding join_def Let_def by (erule created_fine) (rule fine_send)

lemma pre_join_fine: "quiet m \<Longrightarrow> fine m (vnode_pre_join m vid ip p)"
  unfolding vnode_pre_join_def
  by (simp only: Let_def, erule created_fine)
     (auto intro!: fine_bind_value fine_send simp: getNbrhood_def quiet_def simp del: fine.simps split: prod.splits)

lemma extend_fine: "quiet m \<Longrightarrow> fine m (vnode_join_extend_chain m vid ip p mode)"
  unfolding vnode_join_extend_chain_def
  by (intro fine_bind_value)
     (auto simp: succ_vn_def get_succ_def Manager_getReplicaGroup_def deref_def quiet_def Let_def
        split: option.splits flushmode.splits list.splits intro!: keeps_same intro: same_ring_trans [OF same_ring_send(4) same_ring_send(1)])

lemma heartbeat_fine: "quiet m \<Longrightarrow> fine m (heartbeat m ip)"
proof -
  assume q: "quiet m"
  have "n < length (heap m)" if "ip_node_map m ip = Some n" for n
    using q that by (auto simp: quiet_def manager_inv_def ring_wf_def entries_wf_def table_wf_def)
  then show ?thesis
    using q by (auto simp: heartbeat_def setAlive_def keeps_refl quiet_fields(1) split: option.splits intro!: update_node_keeps)
qed

lemma neighbor_loop_fine: "quiet m \<Longrightarrow> fine m (neighbor_loop m vs)"
proof (induction vs arbitrary: m)
  case Nil
  then show ?case by (simp add: keeps_refl quiet_fields(1))
next
  case (Cons v vs)
  have "fine m (neighbor_loop (send m n x) vs)" for n x
  proof -
    have k: "keeps m (send m n x)" using Cons.prems by (simp add: keeps_same quiet_fields(1))
    show ?thesis using Cons.IH [OF keeps_quiet [OF Cons.prems k]] k keeps_fine by blast
  qed
  then show ?case
    unfolding neighbor_loop.simps Let_def
    by (intro fine_bind_value) (auto simp: succ_vn_def pred_vn_def get_succ_def get_pred_def deref_def split: option.splits)
qed

lemma repair_walk_value: "quiet m \<Longrightarrow> repair_walk m n pre cur \<noteq> Deadlock \<and> repair_walk m n pre cur \<noteq> Loops"
proof (induction n arbitrary: pre cur)
  case (Suc n)
  then show ?case
    by (cases "getSuccessor (nodeList m) (vn_id cur)") (auto simp: succ_vn_def get_succ_def deref_def quiet_def Let_def)
qed simp

lemma repair_done_fine: "quiet m \<Longrightarrow> fine m (chain_repair_done m key endkey)"
  unfolding chain_repair_done_def
  by (intro fine_bind_value)
     (auto simp: deref_def repair_walk_value split: option.splits prod.splits intro!: fine_bind_value keeps_same quiet_fields(1))


lemma split_msg_value: "split_msg m vid ip p nb r i \<noteq> Deadlock \<and> split_msg m vid ip p nb r i \<noteq> Loops"
proof -
  have "forward_chain m self vs need seen acc \<noteq> Deadlock \<and> forward_chain m self vs need seen acc \<noteq> Loops" for self vs need seen acc
    by (induction m self vs need seen acc rule: forward_chain.induct) auto
  from this [of "getID ip p" "drop (i + 1) nb" r False "[]"] show ?thesis
    by (cases "forward_chain m (getID ip p) (drop (i + 1) nb) r False []") (auto simp: split_msg_def Let_def)
qed

lemma send_splits_same:
  "send_splits m vid ip p nb r n is \<noteq> Deadlock \<and> send_splits m vid ip p nb r n is \<noteq> Loops
    \<and> (\<forall>m'. send_splits m vid ip p nb r n is = Done m' \<longrightarrow> same_ring m m')"
proof (induction "is" arbitrary: m)
  case (Cons i "is")
  show ?case
  proof (cases "split_msg m vid ip p nb r i")
    case (Done x)
    then show ?thesis
      using Cons [of "send m n x"] same_ring_trans [OF same_ring_send(1) [of m n x]] by auto
  qed (use split_msg_value [of m vid ip p nb r i] in auto)
qed simp

lemma split_messages_fine:
  assumes "manager_inv m"
  shows "fine m (split_messages m vid ip p n)"
proof -
  let ?nb = "join_neighbours m n (DBID vid)" and ?r = "unat (replica_group_size m)"
  have "fine m (send_splits m vid ip p ?nb ?r n [0..<?r])"
    using send_splits_same [of m vid ip p ?nb ?r n "[0..<?r]"] assms keeps_same
    by (cases "send_splits m vid ip p ?nb ?r n [0..<?r]") auto
  moreover have "fine m2 (Done (m2\<lparr>vid_temptail_map := f\<rparr>))" if "keeps m m2" for m2 f
    using that by (auto simp: keeps_def [of m] intro: keeps_same)
  ultimately show ?thesis
    using assms keeps_same [OF assms same_ring_send(1)] unfolding split_messages_def Let_def
    by (auto intro!: fine_bind simp del: fine.simps(1)) auto
qed

lemma split_messages_same: "split_messages m vid ip p n = Done m' \<Longrightarrow> same_ring m m'"
  using send_splits_same [of m vid ip p "join_neighbours m n (DBID vid)" "unat (replica_group_size m)" n "[0..<unat (replica_group_size m)]"]
  unfolding split_messages_def Let_def by (auto split: if_splits intro: same_ring_trans)

lemma enter_ring_fine:
  assumes "manager_inv m" and "\<not> phy_lock m" and "n < length (heap m)" and "wf_dbid d"
  shows "fine m (enter_ring m n d)"
  unfolding enter_ring_def using assms
  by (intro fine_bind push_phy_fine staticJoin_fine) (auto simp: keeps_def)

lemma with_virtual_lock_fine:
  assumes "quiet m" and "fine (m\<lparr>virtual_lock := True\<rparr>) (f (m\<lparr>virtual_lock := True\<rparr>))"
  shows "fine m (with_virtual_lock m f)"
  using assms by (cases "f (m\<lparr>virtual_lock := True\<rparr>)")
    (auto simp: with_virtual_lock_def quiet_def keeps_def manager_inv_def ring_wf_def vnodes_ok_def)

lemma with_phy_lock_fine:
  assumes "quiet m" and "fine (m\<lparr>phy_lock := True\<rparr>) (f (m\<lparr>phy_lock := True\<rparr>))"
  shows "fine m (with_phy_lock m f)"
  using assms by (cases "f (m\<lparr>phy_lock := True\<rparr>)")
    (auto simp: with_phy_lock_def quiet_def keeps_def manager_inv_def ring_wf_def vnodes_ok_def)

lemma join_split_fine: "quiet m \<Longrightarrow> fine m (vnode_join_split m vid ip p)"
  unfolding vnode_join_split_def Let_def
proof (erule created_fine, rule with_virtual_lock_fine)
  fix n m' assume q: "quiet m'" and n: "n < length (heap m')"
  let ?m = "m'\<lparr>virtual_lock := True\<rparr>"
  have inv: "manager_inv ?m" using q by (simp add: quiet_def manager_inv_def ring_wf_def vnodes_ok_def)
  have "fine m2 (enter_ring m2 n (DBID vid))" if "keeps ?m m2" for m2
    using that q n by (intro enter_ring_fine) (auto simp: keeps_def quiet_def)
  then show "fine ?m (bind_run (split_messages ?m vid ip p n) (\<lambda>m. enter_ring m n (DBID vid)))"
    by (intro fine_bind split_messages_fine inv)
qed

section \<open>Aging\<close>

lemma fail_vnodes_same:
  assumes "manager_inv m" and "\<not> virtual_lock m" and "\<forall>d \<in> set ds. wf_dbid d \<and> dbid_num d \<in> vnum ` set (nodeList m)"
  shows "\<exists>m'. fail_vnodes m i ds = Done m' \<and> same_ring m m'"
  using assms
proof (induction ds arbitrary: m)
  case (Cons d ds)
  obtain iv where iv: "iv < length (nodeList m)" "dbid_num d = vnum (nodeList m ! iv)"
    using Cons.prems(3) by (auto simp: in_set_conv_nth)
  obtain m1 where m1: "fail_vnode m i d = Done m1" "same_ring m m1"
    using fail_vnode_Done [of m iv d i] Cons.prems iv by (auto simp: manager_inv_def ring_wf_def)
  obtain m2 where "fail_vnodes m1 i ds = Done m2" "same_ring m1 m2"
    using Cons.IH [of m1] Cons.prems m1(2) same_ring_inv same_ring_fields by auto
  then show ?case using m1 same_ring_trans by auto
qed simp

lemma failNode_outcome:
  assumes "manager_inv m" and "\<not> virtual_lock m" and "phy_lock m" and "i < length (heap m)"
  shows "(\<exists>m'. failNode m i = Done m' \<and> keeps m m' \<and> \<not> valid (heap m' ! i))
    \<or> failNode m i = Deadlock \<and> replica_group_size m = 1"
proof (cases "replica_group_size m = 1 \<and> vnodes (heap m ! i) \<noteq> []")
  case True
  let ?v = "hd (vnodes (heap m ! i))"
  have "\<forall>d \<in> set (vnodes (heap m ! i)). wf_dbid d \<and> dbid_num d \<in> vnum ` set (nodeList m)"
    using assms(1,4) by (auto simp: manager_inv_def vnodes_ok_def)
  then have v: "wf_dbid ?v" "dbid_num ?v \<in> vnum ` set (nodeList m)"
    using True hd_in_set by blast+
  then obtain iv where iv: "iv < length (nodeList m)" "dbid_num ?v = vnum (nodeList m ! iv)"
    by (auto simp: in_set_conv_nth)
  have "fail_single m i ?v = Deadlock"
    using pred_vn_member [of m True iv ?v] succ_vn_member [of m True iv ?v] assms v iv
    by (simp add: fail_single_def manager_inv_def ring_wf_def removeNodefromRing_def removePhysicalNode_def send_def Let_def)
  then show ?thesis using True by (simp add: failNode_def)
next
  case False
  have "\<forall>d \<in> set (vnodes (heap m ! i)). wf_dbid d \<and> dbid_num d \<in> vnum ` set (nodeList m)"
    using assms(1,4) by (auto simp: manager_inv_def vnodes_ok_def)
  then obtain m1 where m1: "fail_vnodes m i (vnodes (heap m ! i)) = Done m1" "same_ring m m1"
    using fail_vnodes_same [OF assms(1,2)] by blast
  have k: "keeps m m1" by (rule keeps_same [OF assms(1) m1(2)])
  have "keeps m1 (update_node m1 i (\<lambda>nd. nd\<lparr>valid := False\<rparr>))"
    using assms k by (intro update_node_keeps) (auto simp: keeps_def)
  then show ?thesis
    using m1 assms(4) False k keeps_trans same_ring_fields [OF m1(2)] by (auto simp: failNode_def update_node_def)
qed

lemma increment_keeps: "manager_inv m \<Longrightarrow> i < length (heap m) \<Longrightarrow> keeps m (update_node m i increment_beats_missed)"
  by (rule update_node_keeps) (auto simp: increment_beats_missed_def)

lemma age_loop_outcome:
  assumes "manager_inv m" and "\<not> virtual_lock m" and "phy_lock m"
    and "2 * length is \<le> fuel" and "\<forall>i \<in> set is. i < length (heap m)"
  shows "fine m (age_loop m fuel is) \<or> age_loop m fuel is = Deadlock \<and> replica_group_size m = 1"
  using assms
proof (induction "is" arbitrary: m fuel)
  case Nil
  then show ?case by (simp add: keeps_refl)
next
  case (Cons i "is")
  obtain f where f: "fuel = Suc (Suc f)" "2 * length is \<le> f"
    using Cons.prems(4) by (cases fuel; cases "fuel - 1") auto
  have step: "fine m (age_loop m' f' is) \<or> age_loop m' f' is = Deadlock \<and> replica_group_size m = 1" if "keeps m m'" "f \<le> f'" for m' f'
  proof -
    have "length (heap m) \<le> length (heap m')" using that(1) by (simp add: keeps_def)
    then have "\<forall>i \<in> set is. i < length (heap m')" using Cons.prems(5) by (meson less_le_trans list.set_intros(2))
    then have "fine m' (age_loop m' f' is) \<or> age_loop m' f' is = Deadlock \<and> replica_group_size m' = 1"
      using that Cons.prems f by (intro Cons.IH) (auto simp: keeps_def)
    then show ?thesis using that(1) keeps_fine [OF that(1)] by (auto simp: keeps_def)
  qed
  let ?m1 = "update_node m i increment_beats_missed"
  have k1: "keeps m ?m1" using Cons.prems by (intro increment_keeps) auto
  have i1: "i < length (heap ?m1)" using Cons.prems by (simp add: update_node_def)
  have "(\<exists>m'. failNode ?m1 i = Done m' \<and> keeps ?m1 m' \<and> \<not> valid (heap m' ! i))
      \<or> failNode ?m1 i = Deadlock \<and> replica_group_size ?m1 = 1"
    using k1 i1 Cons.prems by (intro failNode_outcome) (auto simp: keeps_def)
  then consider (dead) "failNode ?m1 i = Deadlock" "replica_group_size m = 1"
    | (alive) m2 where "failNode ?m1 i = Done m2" "keeps ?m1 m2" "\<not> valid (heap m2 ! i)"
    using k1 by (auto simp: keeps_def)
  then show ?case
  proof cases
    case dead
    then show ?thesis using f step [OF k1, of "Suc f"] by (simp add: Let_def)
  next
    case alive
    let ?m3 = "update_node m2 i increment_beats_missed"
    have i2: "i < length (heap m2)" using i1 alive(2) by (auto simp: keeps_def)
    have k3: "keeps m ?m3"
      using k1 alive(2) i2 increment_keeps keeps_trans by (meson keeps_def)
    have inv3: "\<not> valid (heap ?m3 ! i)" using alive(3) i2 by (simp add: update_node_def increment_beats_missed_def)
    show ?thesis
      using f alive(1) inv3 step [OF k1, of "Suc f"] step [OF k3, of f] by (simp add: Let_def)
  qed
qed

lemma ageNodes_outcome:
  assumes "quiet m"
  shows "fine m (ageNodes m) \<or> ageNodes m = Deadlock \<and> replica_group_size m = 1"
proof -
  let ?m = "m\<lparr>phy_lock := True\<rparr>" and ?a = "age_loop (m\<lparr>phy_lock := True\<rparr>) (2 * length (phyNodeList m)) (phyNodeList m)"
  have "fine ?m ?a \<or> ?a = Deadlock \<and> replica_group_size ?m = 1"
    using assms by (intro age_loop_outcome) (auto simp: quiet_def manager_inv_def ring_wf_def vnodes_ok_def)
  then show ?thesis
    using with_phy_lock_fine [OF assms, of "\<lambda>m. age_loop m (2 * length (phyNodeList m)) (phyNodeList m)"] assms
    by (auto simp: ageNodes_def) (simp add: with_phy_lock_def quiet_def)
qed

text \<open>When the aging thread blocks: it fails a node with a virtual node, while another thread has the mutex of the ring, or with a
  replication factor of one, where it takes its own mutex again.\<close>

lemma failNode_blocks:
  assumes "manager_inv m" and "phy_lock m" and "virtual_lock m \<or> replica_group_size m = 1" and "i < length (heap m)"
    and v: "vnodes (heap m ! i) \<noteq> []"
  shows "failNode m i = Deadlock"
proof (cases "virtual_lock m")
  case True
  then have "pred_vn m x True = Deadlock" for x by (simp add: pred_vn_def get_pred_def)
  then show ?thesis using v by (cases "vnodes (heap m ! i)") (simp_all add: failNode_def fail_single_def fail_vnode_def)
next
  case False
  then have r: "replica_group_size m = 1" using assms(3) by simp
  have d: "\<forall>d \<in> set (vnodes (heap m ! i)). wf_dbid d \<and> dbid_num d \<in> vnum ` set (nodeList m)"
    using assms(1,4) by (auto simp: manager_inv_def vnodes_ok_def)
  let ?v = "hd (vnodes (heap m ! i))"
  have v': "wf_dbid ?v" "dbid_num ?v \<in> vnum ` set (nodeList m)" using v d hd_in_set by blast+
  then obtain iv where iv: "iv < length (nodeList m)" "dbid_num ?v = vnum (nodeList m ! iv)" by (auto simp: in_set_conv_nth)
  have "fail_single m i ?v = Deadlock"
    using pred_vn_member [of m True iv ?v] succ_vn_member [of m True iv ?v] assms(1,2) False v' iv
    by (simp add: fail_single_def manager_inv_def ring_wf_def removeNodefromRing_def removePhysicalNode_def send_def Let_def)
  then show ?thesis using r v by (simp add: failNode_def)
qed

text \<open>A node that the next round of aging takes for failed.\<close>

definition overdue :: "manager \<Rightarrow> node_ref \<Rightarrow> bool" where
  "overdue m i \<longleftrightarrow> i \<in> set (phyNodeList m) \<and> valid (heap m ! i) \<and> vnodes (heap m ! i) \<noteq> [] \<and>
    NUM_BEATS_BEFORE_FAILURE \<le> sint (beatsMissed (heap m ! i) + 1)"

lemma age_loop_blocks:
  assumes "manager_inv m" and "phy_lock m" and "virtual_lock m \<or> replica_group_size m = 1" and "2 * length is \<le> fuel"
    and "\<forall>j \<in> set is. j < length (heap m)" and "i \<in> set is" and "valid (heap m ! i)" and "vnodes (heap m ! i) \<noteq> []"
    and "NUM_BEATS_BEFORE_FAILURE \<le> sint (beatsMissed (heap m ! i) + 1)"
  shows "age_loop m fuel is = Deadlock"
  using assms
proof (induction "is" arbitrary: m fuel)
  case (Cons j "is")
  obtain f where f: "fuel = Suc (Suc f)" "2 * length is \<le> f" using Cons.prems(4) by (cases fuel; cases "fuel - 1") auto
  have j: "j < length (heap m)" using Cons.prems(5) by simp
  let ?m1 = "update_node m j increment_beats_missed"
  have k1: "keeps m ?m1" using Cons.prems(1) j by (rule increment_keeps)
  have h1: "heap ?m1 ! j = increment_beats_missed (heap m ! j)" "length (heap ?m1) = length (heap m)" using j by (simp_all add: update_node_def)
  have blocks: "failNode ?m1 j = Deadlock" if "vnodes (heap m ! j) \<noteq> []"
    using k1 Cons.prems(2,3) that j by (intro failNode_blocks) (auto simp: keeps_def h1 increment_beats_missed_def)
  show ?case
  proof (cases "j = i")
    case True
    then show ?thesis using Cons.prems(7-9) blocks f h1 by (simp add: Let_def increment_beats_missed_def)
  next
    case False
    then have i: "i \<in> set is" using Cons.prems(6) by simp
    have rec: "age_loop m' f' is = Deadlock" if "keeps m m'" "heap m' ! i = heap m ! i" "f \<le> f'" for m' f'
    proof -
      have l: "length (heap m) \<le> length (heap m')" using that(1) by (simp add: keeps_def)
      show ?thesis
        by (rule Cons.IH) (use that l f i Cons.prems(2,3,5,7-9) in \<open>auto simp: keeps_def\<close>)
    qed
    let ?m2 = "update_node ?m1 j (\<lambda>nd. nd\<lparr>valid := False\<rparr>)"
    let ?m3 = "update_node ?m2 j increment_beats_missed"
    have "keeps ?m1 ?m2" using k1 h1 j by (intro update_node_keeps) (auto simp: keeps_def)
    then have k2: "keeps m ?m2" using k1 keeps_trans by blast
    moreover have "keeps ?m2 ?m3" using k2 j by (intro increment_keeps) (auto simp: keeps_def update_node_def)
    ultimately have k3: "keeps m ?m3" using keeps_trans by blast
    have same: "heap ?m1 ! i = heap m ! i" "heap ?m3 ! i = heap m ! i" and dead: "\<not> valid (heap ?m3 ! j)"
      using False j by (simp_all add: update_node_def increment_beats_missed_def)
    have single: "failNode ?m1 j = Done ?m2" if "vnodes (heap m ! j) = []"
      using that h1 by (simp add: failNode_def increment_beats_missed_def)
    show ?thesis using f blocks single dead rec [OF k1 same(1), of "Suc f"] rec [OF k3 same(2), of f]
      by (cases "vnodes (heap m ! j) = []") (simp_all add: Let_def)
  qed
qed simp

lemma ageNodes_blocks:
  assumes "manager_inv m" and "\<not> phy_lock m" and "virtual_lock m \<or> replica_group_size m = 1" and "overdue m i"
  shows "ageNodes m = Deadlock"
proof -
  have "manager_inv (m\<lparr>phy_lock := True\<rparr>)" using assms(1) by (simp add: manager_inv_def ring_wf_def vnodes_ok_def)
  then have "age_loop (m\<lparr>phy_lock := True\<rparr>) (2 * length (phyNodeList m)) (phyNodeList m) = Deadlock"
    using assms by (intro age_loop_blocks [where i = i]) (auto simp: overdue_def manager_inv_def)
  then show ?thesis using assms(2) by (simp add: ageNodes_def with_phy_lock_def)
qed

section \<open>Properties\<close>

lemma flush_fine: "quiet m \<Longrightarrow> fine m (flush_nosplit m vid)" "quiet m \<Longrightarrow> fine m (flush_split_done m vid hops)"
  by (auto simp: flush_nosplit_def flush_split_done_def quiet_fields(1) intro!: keeps_same
      intro: same_ring_trans [OF same_ring_send(3) same_ring_send(4)])

lemma handle_outcome: "quiet m \<Longrightarrow> fine m (handle m q) \<or> handle m q = Deadlock \<and> q = Age \<and> replica_group_size m = 1"
  using ageNodes_outcome [of m]
  by (cases q)
    (auto simp: static_join_fine rejoin_fine join_fine pre_join_fine vnode_join_def extend_fine join_split_fine
      heartbeat_fine repair_done_fine sendNeighborUpdates_def neighbor_loop_fine flush_fine)

lemma reachable_quiet: "reachable ip r m \<Longrightarrow> quiet m \<and> replica_group_size m = r"
proof (induction rule: reachable.induct)
  case reach_init
  then show ?case
    by (simp add: Manager_init_def quiet_def manager_inv_def ring_wf_def entries_wf_def table_wf_def ring_sorted_def vnodes_ok_def full_ids_def)
next
  case (reach_step m q m')
  then have "keeps m m'" using handle_outcome [of m q] by auto
  then show ?case using reach_step keeps_quiet by (auto simp: keeps_def)
qed

text \<open>
  Property C12. In every state a manager with a replication factor other than one can reach by any sequence of requests, each
  handled to its end before the next, the ring is in strictly ascending order of well-formed identifiers, every virtual node and every
  joined node points to a live node, every node is registered under its own address, the virtual nodes of each node are on the ring,
  and both mutexes are free. With a replication factor of one the aging thread can block with its mutex locked.
\<close>

theorem manager_reachable_invariant:
  assumes "reachable ip r m" and "r \<noteq> 1"
  shows "ring_sorted (nodeList m) \<and> entries_wf (heap m) (ip_node_map m)
    \<and> (\<forall>v \<in> set (nodeList m). vn_n v < length (heap m)) \<and> (\<forall>n \<in> set (phyNodeList m). n < length (heap m))
    \<and> vnodes_ok m \<and> \<not> phy_lock m \<and> \<not> virtual_lock m"
  using reachable_quiet [OF assms(1)] by (simp add: quiet_def manager_inv_def ring_wf_def)

text \<open>Two nodes join a manager with two replicas, and one round of aging passes.\<close>

definition demo_requests :: "request list" where
  "demo_requests = [Rejoin [[9]] [] [50] 1, Rejoin [[5]] [] [51] 1, Age]"

fun handle_all :: "manager \<Rightarrow> request list \<Rightarrow> manager run" where
  "handle_all m [] = Done m"
| "handle_all m (q # qs) = bind_run (handle m q) (\<lambda>m. handle_all m qs)"

lemma handle_all_reachable: "reachable ip r m \<Longrightarrow> handle_all m qs = Done m' \<Longrightarrow> reachable ip r m'"
  by (induction qs arbitrary: m) (auto intro: reach_step)

theorem manager_reachable_invariant_witness:
  "\<exists>m. handle_all (Manager_init [49] 2) demo_requests = Done m \<and> map vn_n (nodeList m) = [1, 0] \<and> ring_sorted (nodeList m) \<and> vnodes_ok m \<and>
    \<not> phy_lock m \<and> \<not> virtual_lock m"
proof -
  have "case handle_all (Manager_init [49] 2) demo_requests of Done m \<Rightarrow> map vn_n (nodeList m) = [1, 0] | _ \<Rightarrow> False" by code_simp
  then obtain m where m: "handle_all (Manager_init [49] 2) demo_requests = Done m" "map vn_n (nodeList m) = [1, 0]"
    by (auto split: run.splits)
  have "(2 :: 32 word) \<noteq> 1" by simp
  from manager_reachable_invariant [OF handle_all_reachable [OF reach_init m(1)] this] m show ?thesis
    by (intro exI [of _ m]) (simp del: handle_all.simps)
qed

text \<open>A request that is handled while no other one runs returns, or stops the process at a null pointer or an exit, with one
  exception, the aging of nodes under a replication factor of one.\<close>

lemma manager_requests_return:
  assumes "reachable ip r m"
  shows "handle m q \<noteq> Loops \<and> (handle m q = Deadlock \<longrightarrow> q = Age \<and> r = 1)"
  using handle_outcome [of m q] reachable_quiet [OF assms] by auto

text \<open>
  Property C29. With the replication factor of one that the manager's \<^verbatim>\<open>main\<close> passes, the aging thread blocks for ever as soon as a joined
  node with a virtual node has missed three heartbeats, in every state the manager can reach: \<^verbatim>\<open>removePhysicalNode\<close> locks the mutex that
  \<^verbatim>\<open>ageNodes\<close> holds.
\<close>

theorem aging_deadlocks_single_replica:
  assumes "reachable ip 1 m" and "overdue m i"
  shows "handle m Age = Deadlock"
  using reachable_quiet [OF assms(1)] assms(2) by (auto simp: quiet_def intro!: ageNodes_blocks)

theorem aging_deadlocks_single_replica_witness:
  "bind_run (handle_all (Manager_init [49] 1) [Rejoin [[5]] [] [50] 1, Age, Age]) (\<lambda>m. handle m Age) = Deadlock"
proof -
  have "case handle_all (Manager_init [49] 1) [Rejoin [[5]] [] [50] 1, Age, Age] of Done m \<Rightarrow> overdue m 0 | _ \<Rightarrow> False" by code_simp
  then obtain m where m: "handle_all (Manager_init [49] 1) [Rejoin [[5]] [] [50] 1, Age, Age] = Done m" "overdue m 0"
    by (auto split: run.splits simp del: handle_all.simps)
  from aging_deadlocks_single_replica [OF handle_all_reachable [OF reach_init m(1)] m(2)] m(1) show ?thesis
    by (simp del: handle_all.simps handle.simps)
qed

text \<open>
  Property C31. A join and the aging of nodes can block each other for ever, with any replication factor. The join has taken the mutex of
  the ring and sent its messages, and has yet to take the mutex of the joined nodes; the aging thread takes that one first, finds a node that
  missed three heartbeats, and needs the mutex of the ring to repair its chains. Then neither thread can go on.
\<close>

theorem join_and_aging_deadlock:
  assumes "reachable ip r m" and "createNode m jip jport = (n, m1)"
    and "split_messages (m1\<lparr>virtual_lock := True\<rparr>) vid jip jport n = Done m2" and "overdue m i"
  shows "ageNodes m2 = Deadlock \<and> enter_ring (m2\<lparr>phy_lock := True\<rparr>) n (DBID vid) = Deadlock"
proof -
  have q: "quiet m" using reachable_quiet [OF assms(1)] by blast
  note k = createNode_keeps [OF quiet_fields(1) [OF q] assms(2)]
  let ?m1 = "m1\<lparr>virtual_lock := True\<rparr>"
  have inv1: "manager_inv ?m1" using k(1) by (simp add: keeps_def manager_inv_def ring_wf_def vnodes_ok_def)
  have k2: "keeps ?m1 m2" and s2: "same_ring ?m1 m2"
    using split_messages_fine [OF inv1, of vid jip jport n] split_messages_same [OF assms(3)] assms(3) by auto
  have "heap m1 ! j = heap m ! j \<and> phyNodeList m1 = phyNodeList m" if "j < length (heap m)" for j
    using assms(2) that by (auto simp: createNode_def Let_def nth_append split: option.splits)
  moreover have "i < length (heap m)" using assms(4) q by (auto simp: overdue_def quiet_def manager_inv_def)
  ultimately have "overdue m2 i" using assms(4) same_ring_fields [OF s2] by (auto simp: overdue_def)
  then have "ageNodes m2 = Deadlock"
    using k2 k(1) q by (intro ageNodes_blocks) (auto simp: keeps_def quiet_def)
  then show ?thesis by (simp add: enter_ring_def push_phy_def)
qed

lemma run_case_Done: "(case x of Done y \<Rightarrow> P y | Crash \<Rightarrow> False | Deadlock \<Rightarrow> False | Loops \<Rightarrow> False) \<longleftrightarrow> (\<exists>y. x = Done y \<and> P y)"
  by (cases x) auto

theorem join_and_aging_deadlock_witness:
  "\<exists>m m1 n m2. handle_all (Manager_init [49] 2) [Rejoin [[5]] [] [50] 1, Rejoin [[9]] [] [51] 1, Age, Age] = Done m \<and>
    createNode m [52] 1 = (n, m1) \<and> split_messages (m1\<lparr>virtual_lock := True\<rparr>) [7] [52] 1 n = Done m2 \<and>
    ageNodes m2 = Deadlock \<and> enter_ring (m2\<lparr>phy_lock := True\<rparr>) n (DBID [7]) = Deadlock"
proof -
  have "case handle_all (Manager_init [49] 2) [Rejoin [[5]] [] [50] 1, Rejoin [[9]] [] [51] 1, Age, Age] of
      Done m \<Rightarrow> overdue m 0 \<and> (case createNode m [52] 1 of (n, m1) \<Rightarrow>
        (case split_messages (m1\<lparr>virtual_lock := True\<rparr>) [7] [52] 1 n of Done m2 \<Rightarrow> virtual_lock m2 | _ \<Rightarrow> False))
    | _ \<Rightarrow> False" by code_simp
  then obtain m m2 where m: "handle_all (Manager_init [49] 2) [Rejoin [[5]] [] [50] 1, Rejoin [[9]] [] [51] 1, Age, Age] = Done m" "overdue m 0"
    "split_messages ((snd (createNode m [52] 1))\<lparr>virtual_lock := True\<rparr>) [7] [52] 1 (fst (createNode m [52] 1)) = Done m2"
    by (auto simp: run_case_Done case_prod_unfold simp del: handle_all.simps)
  from join_and_aging_deadlock [OF handle_all_reachable [OF reach_init m(1)] prod.collapse [symmetric] m(3,2)] m(1,3) show ?thesis
    by (metis prod.collapse)
qed


definition demo_manager :: manager where
  "demo_manager = (Manager_init [49] 2)\<lparr>heap := demo_heap, nodeList := demo_ring\<rparr>"


section \<open>Ring state exchanged with a front end\<close>

lemma full_id_roundtrip:
  assumes "wf_dbid d" and "actual_size d = DBID_LENGTH"
  shows "vn_id (VirtualNode n (DBID (actual_data_str d))) = d"
proof -
  have "actual_data_str d = dbid_value d" "length (dbid_value d) = 20"
    using assms by (simp_all add: actual_data_str_def wf_dbid_def DBID_LENGTH_def)
  then show ?thesis
    using assms(2) DBID_value_short [of "dbid_value d"]
    by (cases d) (simp add: VirtualNode_def DBID_Init_def DBID_LENGTH_def)
qed

lemma set_all_True: "set_all vs f k = (if k \<in> set vs then Some True else f k)"
  unfolding set_all_def by (induction vs arbitrary: f) (auto simp: marked_def)

text \<open>
  Property C13. A front end that takes over the ring state of a reachable manager has the manager's ring: the same
  identifiers in the same order, at the same addresses; for every key it computes the replica group
  that the manager computes; and it sees the same interim tails and shortened ranges. The key
  lists stand for the iteration over the manager's two maps.
\<close>

theorem ring_state_roundtrip:
  assumes "reachable ip p m" and "entries_wf (heap r) (ip_node_map r)" and "nodeList m \<noteq> []"
    and "dom (vid_temptail_map m) \<subseteq> set tkeys" and "dom (vid_shorter_map m) \<subseteq> set skeys"
  shows "map vn_id (nodeList (UpdateState r (get_ring_state m tkeys skeys u))) = map vn_id (nodeList m)
    \<and> ring_wf (UpdateState r (get_ring_state m tkeys skeys u))
    \<and> map_option (handle_ids (UpdateState r (get_ring_state m tkeys skeys u))) (getReplicaGroup (UpdateState r (get_ring_state m tkeys skeys u)) key)
        = map_option (handle_ids m) (getReplicaGroup m key)
    \<and> (vid_temptail_map (UpdateState r (get_ring_state m tkeys skeys u)) k = Some True \<longleftrightarrow> vid_temptail_map m k = Some True)
    \<and> (vid_shorter_map (UpdateState r (get_ring_state m tkeys skeys u)) k = Some True \<longleftrightarrow> vid_shorter_map m k = Some True)"
proof -
  have q: "manager_inv m" "replica_group_size m = p" using reachable_quiet [OF assms(1)] by (simp_all add: quiet_def)
  let ?rs = "get_ring_state m tkeys skeys u"
  let ?r = "r\<lparr>nodeList := [], vid_temptail_map := Map.empty, vid_shorter_map := Map.empty\<rparr>"
  let ?u = "UpdateState r ?rs"
  obtain xs vs where ps: "heap (push_nodes ?r (rs_nodes ?rs)) = heap ?r @ xs" "nodeList (push_nodes ?r (rs_nodes ?rs)) = vs"
    "entries_wf (heap (push_nodes ?r (rs_nodes ?rs))) (ip_node_map (push_nodes ?r (rs_nodes ?rs)))"
    "\<forall>v \<in> set vs. vn_n v < length (heap ?r @ xs)"
    "map vn_id vs = map (\<lambda>nd. vn_id (VirtualNode 0 (DBID (VnodeID nd)))) (rs_nodes ?rs)"
    "map (\<lambda>v. node_id ((heap ?r @ xs) ! vn_n v)) vs = map (\<lambda>nd. getID (nd_ip nd) (nd_port nd)) (rs_nodes ?rs)"
    "vid_temptail_map (push_nodes ?r (rs_nodes ?rs)) = Map.empty" "vid_shorter_map (push_nodes ?r (rs_nodes ?rs)) = Map.empty"
    using push_nodes_spec [of ?r "rs_nodes ?rs"] assms(2) by (auto simp del: push_nodes.simps)
  have u: "heap ?u = heap ?r @ xs" "nodeList ?u = vs" "replica_group_size ?u = replica_group_size m"
    "entries_wf (heap ?u) (ip_node_map ?u)"
    using ps assms(3) by (simp_all add: UpdateState_def get_ring_state_def)
  have ids: "map vn_id vs = map vn_id (nodeList m)"
    using ps(5) q by (auto simp: get_ring_state_def manager_inv_def full_ids_def ring_wf_def ring_sorted_def full_id_roundtrip)
  have addrs: "map (\<lambda>v. node_id (heap ?u ! vn_n v)) vs = map (\<lambda>v. node_id (heap m ! vn_n v)) (nodeList m)"
    using ps(6) u(1) by (simp add: get_ring_state_def node_ip_def node_port_def node_id_def)
  have sorted: "ring_sorted vs"
    by (rule ring_sorted_ids [OF ids [symmetric]]) (use q in \<open>simp add: manager_inv_def ring_wf_def\<close>)
  have wf: "ring_wf ?u" using u ps(4) sorted by (simp add: ring_wf_def)
  have grp: "map_option (handle_ids ?u) (getReplicaGroup ?u key) = map_option (handle_ids m) (getReplicaGroup m key)"
  proof -
    have ne: "vs \<noteq> []" using ids assms(3) by auto
    obtain g1 g2 where g: "getReplicaGroup ?u key = Some g1" "getReplicaGroup m key = Some g2"
      using ne assms(3) u(2) by (auto simp: getReplicaGroup_def replica_group_def Let_def)
    have o: "owner_index vs (DBID key) = owner_index (nodeList m) (DBID key)" by (rule owner_index_ids [OF ids])
    have "handle_ids ?u g1 = take (max 1 (unat p)) (firsts {} (rotate (owner_index vs (DBID key)) (map (\<lambda>v. node_id (heap ?u ! vn_n v)) vs)))"
      using g(1) u ps(4) q(2) by (intro handle_ids_eq) (auto simp: getReplicaGroup_def)
    moreover have "handle_ids m g2 = take (max 1 (unat p)) (firsts {} (rotate (owner_index (nodeList m) (DBID key)) (map (\<lambda>v. node_id (heap m ! vn_n v)) (nodeList m))))"
      using g(2) q by (intro handle_ids_eq) (auto simp: getReplicaGroup_def manager_inv_def ring_wf_def)
    ultimately show ?thesis using g o addrs by simp
  qed
  have "vid_temptail_map ?u k = Some True \<longleftrightarrow> vid_temptail_map m k = Some True"
    "vid_shorter_map ?u k = Some True \<longleftrightarrow> vid_shorter_map m k = Some True"
    using ps(7,8) assms(4,5) by (auto simp: UpdateState_def get_ring_state_def set_all_True)
  then show ?thesis using ids u(2) wf grp by simp
qed

definition demo_joined :: manager where
  "demo_joined = \<lparr>heap = [addVnode (Node_new [50] 1) (DBID [5])], ip_node_map = [getID [50] 1 \<mapsto> 0],
     nodeList = [VirtualNode 0 (DBID [5])], replica_group_size = 2, vid_temptail_map = Map.empty, vid_shorter_map = Map.empty,
     myIP = [49], phyNodeList = [0], numJoinedPhyNodes = 1, phy_lock = False, virtual_lock = False,
     sent = [(0, rejoin_response [[5]] [49])]\<rparr>"

lemma demo_joined_reachable: "reachable [49] 2 demo_joined"
proof (rule reach_step [OF reach_init])
  show "handle (Manager_init [49] 2) (Rejoin [[5]] [] [50] 1) = Done demo_joined"
    by (simp add: demo_joined_def rejoin_def createNode_def Manager_init_def push_phy_def staticJoin_def
        addNodetoRing_def update_node_def send_def)
qed

theorem ring_state_roundtrip_witness:
  "map vn_id (nodeList (UpdateState (Manager_init [51] 1) (get_ring_state demo_joined [] [] 0))) = [vn_id (VirtualNode 0 (DBID [5]))]
   \<and> map_option (handle_ids (UpdateState (Manager_init [51] 1) (get_ring_state demo_joined [] [] 0)))
        (getReplicaGroup (UpdateState (Manager_init [51] 1) (get_ring_state demo_joined [] [] 0)) [7])
      = map_option (handle_ids demo_joined) (getReplicaGroup demo_joined [7])"
proof -
  have "entries_wf (heap (Manager_init [51] 1)) (ip_node_map (Manager_init [51] 1))"
    using reachable_quiet [OF reach_init [of "[51]" 1]] by (simp add: quiet_def manager_inv_def ring_wf_def)
  moreover have "nodeList demo_joined = [VirtualNode 0 (DBID [5])]" "vid_temptail_map demo_joined = Map.empty"
    "vid_shorter_map demo_joined = Map.empty"
    by (simp_all add: demo_joined_def)
  ultimately show ?thesis
    using ring_state_roundtrip [OF demo_joined_reachable, of "Manager_init [51] 1" "[]" "[]" 0 "[7]"] by simp
qed

end
