(* ===== verification/Bit_Access.thy ===== *)
theory Bit_Access
  imports Prelude "HOL-Library.Monad_Syntax"
begin

unbundle bit_operations_syntax

text \<open>
  Bit strings in arrays of blocks: \<^verbatim>\<open>src/siltds/cindex/block_info.hpp\<close> and
  \<^verbatim>\<open>bit_access.hpp\<close>. An array of blocks is a list of words, most significant bit first. A
  computation that would touch a block outside the array, shift by the full width or fail an
  assertion is \<open>None\<close>. The block types of the sources are 8, 16, 32 and 64 bits wide; the
  lemmas are for any width that is a power of two (\<open>block_type\<close>).

  Sizes and positions (\<^verbatim>\<open>std::size_t\<close>) are natural numbers: they count bits of objects in
  memory.
\<close>

section \<open>The arithmetic of blocks\<close>

definition bits_per_block :: "'a::len itself \<Rightarrow> nat" where
  "bits_per_block _ = LENGTH('a)"

definition bit_mask :: "'a::len itself \<Rightarrow> nat" where
  "bit_mask t = bits_per_block t - 1"

text \<open>The compile-time logarithm of Boost.\<close>

fun static_log2 :: "nat \<Rightarrow> nat" where
  "static_log2 n = (if n \<le> 1 then 0 else Suc (static_log2 (n div 2)))"

declare static_log2.simps [simp del]

lemma static_log2_power [simp]: "static_log2 (2 ^ k) = k"
proof (induction k)
  case 0
  then show ?case by (simp add: static_log2.simps)
next
  case (Suc k)
  have "1 \<le> (2::nat) ^ k" by simp
  then have "\<not> (2::nat) ^ Suc k \<le> 1" unfolding power_Suc by linarith
  then show ?case using Suc by (subst static_log2.simps) simp
qed

definition log_bits_per_block :: "'a::len itself \<Rightarrow> nat" where
  "log_bits_per_block t = static_log2 (bits_per_block t)"

definition block_count :: "'a::len itself \<Rightarrow> nat \<Rightarrow> nat" where
  "block_count t n = (n + bits_per_block t - 1) div bits_per_block t"

definition block_index :: "'a::len itself \<Rightarrow> nat \<Rightarrow> nat" where
  "block_index t i = drop_bit (log_bits_per_block t) i"

definition in_block_offset :: "'a::len itself \<Rightarrow> nat \<Rightarrow> nat" where
  "in_block_offset t i = i AND bit_mask t"

section \<open>Single bits\<close>

definition set_bit_at :: "'a::len word list \<Rightarrow> nat \<Rightarrow> 'a word list option" where
  "set_bit_at v i = (let b = block_index TYPE('a) i in
     if b < length v
     then Some (v[b := v ! b OR push_bit (LENGTH('a) - 1 - in_block_offset TYPE('a) i) 1])
     else None)"

definition unset_bit_at :: "'a::len word list \<Rightarrow> nat \<Rightarrow> 'a word list option" where
  "unset_bit_at v i = (let b = block_index TYPE('a) i in
     if b < length v
     then Some (v[b := v ! b AND NOT (push_bit (LENGTH('a) - 1 - in_block_offset TYPE('a) i) 1)])
     else None)"

definition flip_bit_at :: "'a::len word list \<Rightarrow> nat \<Rightarrow> 'a word list option" where
  "flip_bit_at v i = (let b = block_index TYPE('a) i in
     if b < length v
     then Some (v[b := v ! b XOR push_bit (LENGTH('a) - 1 - in_block_offset TYPE('a) i) 1])
     else None)"

definition get_bit_at :: "'a::len word list \<Rightarrow> nat \<Rightarrow> bool option" where
  "get_bit_at v i = (let b = block_index TYPE('a) i in
     if b < length v
     then Some (v ! b AND push_bit (LENGTH('a) - 1 - in_block_offset TYPE('a) i) 1 \<noteq> 0)
     else None)"

section \<open>Ranges of bits\<close>

text \<open>
  One round of the loop of \<open>copy_set\<close> moves \<open>n\<close> bits of the source block \<open>s\<close>, from offset
  \<open>si\<close>, to offset \<open>di\<close> of a destination block. The assertion that the cast keeps the value is
  part of it.
\<close>

definition copy_block :: "'s::len word \<Rightarrow> nat \<Rightarrow> nat \<Rightarrow> nat \<Rightarrow> 'd::len word option" where
  "copy_block s si di n =
     (let src_v = drop_bit (LENGTH('s) - n) (push_bit si s);
          dest_v = (ucast src_v :: 'd word) in
      if (ucast dest_v :: 's word) = src_v
      then Some (push_bit (LENGTH('d) - di - n) dest_v) else None)"

function copy_loop :: "'d::len word list \<Rightarrow> nat \<Rightarrow> nat \<Rightarrow> 's::len word list \<Rightarrow> nat \<Rightarrow> nat \<Rightarrow> nat
    \<Rightarrow> 'd word list option" where
  "copy_loop dest dp di src sp si count =
     (if count = 0 then Some dest
      else let dest_available = LENGTH('d) - di;
               src_available = LENGTH('s) - si;
               copy_len = min (min dest_available src_available) count in
        if copy_len = 0 \<or> \<not> dp < length dest \<or> \<not> sp < length src then None
        else case copy_block (src ! sp) si di copy_len of
            None \<Rightarrow> None
          | Some dest_v \<Rightarrow>
              copy_loop (dest[dp := dest ! dp OR dest_v])
                (if dest_available = copy_len then dp + 1 else dp)
                (if dest_available = copy_len then 0 else di + copy_len)
                src
                (if src_available = copy_len then sp + 1 else sp)
                (if src_available = copy_len then 0 else si + copy_len)
                (count - copy_len))"
  by pat_completeness auto
termination
  by (relation "measure (\<lambda>(dest, dp, di, src, sp, si, count). count)") auto

declare copy_loop.simps [simp del]

definition copy_set :: "'d::len word list \<Rightarrow> nat \<Rightarrow> 's::len word list \<Rightarrow> nat \<Rightarrow> nat \<Rightarrow> 'd word list option"
  where
  "copy_set dest dest_i src src_i count =
     copy_loop dest (block_index TYPE('d) dest_i) (in_block_offset TYPE('d) dest_i)
       src (block_index TYPE('s) src_i) (in_block_offset TYPE('s) src_i) count"

section \<open>The bit string of a block array\<close>

definition bitat :: "'a::len word list \<Rightarrow> nat \<Rightarrow> bool" where
  "bitat v i = bit (v ! (i div LENGTH('a))) (LENGTH('a) - 1 - i mod LENGTH('a))"

definition block_type :: "'a::len itself \<Rightarrow> bool" where
  "block_type _ \<longleftrightarrow> (\<exists>k. LENGTH('a) = 2 ^ k)"

lemma block_type_widths [simp, intro]:
  "block_type TYPE(8)" "block_type TYPE(16)" "block_type TYPE(32)" "block_type TYPE(64)"
  unfolding block_type_def
  by (rule exI[of _ 3] exI[of _ 4] exI[of _ 5] exI[of _ 6], simp)+

lemma block_index_div:
  assumes "block_type TYPE('a::len)"
  shows "block_index TYPE('a) i = i div LENGTH('a)"
proof -
  obtain k where "LENGTH('a) = 2 ^ k" using assms unfolding block_type_def by blast
  then show ?thesis
    by (simp add: block_index_def log_bits_per_block_def bits_per_block_def drop_bit_eq_div)
qed

lemma in_block_offset_mod:
  assumes "block_type TYPE('a::len)"
  shows "in_block_offset TYPE('a) i = i mod LENGTH('a)"
proof -
  obtain k where k: "LENGTH('a) = 2 ^ k" using assms unfolding block_type_def by blast
  have "i AND (2 ^ k - 1) = take_bit k i"
    by (simp add: take_bit_eq_mask mask_eq_exp_minus_1)
  then show ?thesis
    by (simp add: in_block_offset_def bit_mask_def bits_per_block_def k take_bit_eq_mod)
qed

lemmas block_arith = block_index_div in_block_offset_mod

lemma bit_two_power: "n < LENGTH('a::len) \<Longrightarrow> bit ((2::'a word) ^ n) m \<longleftrightarrow> m = n"
  by (auto simp: bit_exp_iff)

lemma div_less_blocks: "i < L * n \<Longrightarrow> i div L < n" for L :: nat
  by (simp add: less_mult_imp_div_less mult.commute)

lemma same_place_iff:
  fixes L :: nat
  assumes "0 < L"
  shows "L - 1 - i mod L = L - 1 - j mod L \<and> i div L = j div L \<longleftrightarrow> i = j"
proof
  assume *: "L - 1 - i mod L = L - 1 - j mod L \<and> i div L = j div L"
  have "i mod L \<le> L - 1" "j mod L \<le> L - 1" using assms by (simp_all add: less_Suc_eq_le[symmetric])
  then have "i mod L = j mod L" using * by linarith
  then show "i = j" using * by (metis div_mult_mod_eq)
qed simp

lemma get_bit_at_eq:
  assumes "block_type TYPE('a::len)" "i < LENGTH('a) * length v"
  shows "get_bit_at (v :: 'a word list) i = Some (bitat v i)"
proof -
  have lt: "LENGTH('a) - 1 - i mod LENGTH('a) < LENGTH('a)"
    using len_gt_0[where 'a='a] by linarith
  have "(w AND 2 ^ n \<noteq> 0) = bit w n" if "n < LENGTH('a)" for w :: "'a word" and n
    using that by (metis and_exp_eq_0_iff_not_bit)
  then show ?thesis
    using assms lt div_less_blocks[OF assms(2)]
    by (simp add: get_bit_at_def block_arith bitat_def Let_def)
qed

lemma get_bit_at_None:
  assumes "block_type TYPE('a::len)" "LENGTH('a) * length v \<le> i"
  shows "get_bit_at (v :: 'a word list) i = None"
proof -
  have "length v \<le> i div LENGTH('a)"
    using assms(2) by (metis div_le_mono len_gt_0 nonzero_mult_div_cancel_left less_numeral_extra(3))
  then show ?thesis
    using assms(1) by (simp add: get_bit_at_def block_arith Let_def)
qed

lemma bitat_update:
  assumes "j < LENGTH('a) * length v"
  shows "bitat ((v :: 'a::len word list)[b := w]) j =
    (if j div LENGTH('a) = b then bit w (LENGTH('a) - 1 - j mod LENGTH('a)) else bitat v j)"
  using div_less_blocks[OF assms] by (auto simp: bitat_def nth_list_update)

lemma mask_place:
  assumes "j div LENGTH('a::len) = i div LENGTH('a)"
  shows "bit ((2::'a word) ^ (LENGTH('a) - Suc (i mod LENGTH('a)))) (LENGTH('a) - Suc (j mod LENGTH('a))) \<longleftrightarrow> j = i"
  using same_place_iff[of "LENGTH('a)" j i] assms by (simp add: bit_two_power)

lemma place_less: "LENGTH('a::len) - 1 - m < LENGTH('a)"
  using len_gt_0[where 'a='a] by linarith

lemma set_bit_at_ok:
  assumes "block_type TYPE('a::len)" "i < LENGTH('a) * length v"
  obtains v' where "set_bit_at (v :: 'a word list) i = Some v'" "length v' = length v"
    "\<And>j. j < LENGTH('a) * length v \<Longrightarrow> bitat v' j = (j = i \<or> bitat v j)"
proof
  let ?b = "i div LENGTH('a)"
  let ?v = "v[?b := v ! ?b OR push_bit (LENGTH('a) - 1 - i mod LENGTH('a)) 1]"
  show "set_bit_at v i = Some ?v"
    using assms div_less_blocks[OF assms(2)] by (simp add: set_bit_at_def block_arith Let_def)
  show "length ?v = length v" by simp
  show "bitat ?v j = (j = i \<or> bitat v j)" if "j < LENGTH('a) * length v" for j
    using mask_place[of j i, where 'a='a] that
    by (auto simp: bitat_update bit_or_iff) (auto simp: bitat_def)
qed

lemma unset_bit_at_ok:
  assumes "block_type TYPE('a::len)" "i < LENGTH('a) * length v"
  obtains v' where "unset_bit_at (v :: 'a word list) i = Some v'" "length v' = length v"
    "\<And>j. j < LENGTH('a) * length v \<Longrightarrow> bitat v' j = (j \<noteq> i \<and> bitat v j)"
proof
  let ?b = "i div LENGTH('a)"
  let ?v = "v[?b := v ! ?b AND NOT (push_bit (LENGTH('a) - 1 - i mod LENGTH('a)) 1)]"
  show "unset_bit_at v i = Some ?v"
    using assms div_less_blocks[OF assms(2)] by (simp add: unset_bit_at_def block_arith Let_def)
  show "length ?v = length v" by simp
  show "bitat ?v j = (j \<noteq> i \<and> bitat v j)" if "j < LENGTH('a) * length v" for j
    using mask_place[of j i, where 'a='a] that
    by (auto simp: bitat_update bit_and_iff bit_not_iff place_less) (auto simp: bitat_def)
qed

lemma flip_bit_at_ok:
  assumes "block_type TYPE('a::len)" "i < LENGTH('a) * length v"
  obtains v' where "flip_bit_at (v :: 'a word list) i = Some v'" "length v' = length v"
    "\<And>j. j < LENGTH('a) * length v \<Longrightarrow> bitat v' j = ((j = i) \<noteq> bitat v j)"
proof
  let ?b = "i div LENGTH('a)"
  let ?v = "v[?b := v ! ?b XOR push_bit (LENGTH('a) - 1 - i mod LENGTH('a)) 1]"
  show "flip_bit_at v i = Some ?v"
    using assms div_less_blocks[OF assms(2)] by (simp add: flip_bit_at_def block_arith Let_def)
  show "length ?v = length v" by simp
  show "bitat ?v j = ((j = i) \<noteq> bitat v j)" if "j < LENGTH('a) * length v" for j
    using mask_place[of j i, where 'a='a] that
    by (auto simp: bitat_update bit_xor_iff) (auto simp: bitat_def)
qed

section \<open>What \<open>copy_set\<close> copies\<close>

lemma copy_block_ok:
  assumes "di + n \<le> LENGTH('d::len)" "si + n \<le> LENGTH('s::len)" "0 < n"
  obtains w where "copy_block (s :: 's word) si di n = Some (w :: 'd word)"
    "\<And>t. t < LENGTH('d) \<Longrightarrow> bit w (LENGTH('d) - 1 - t) \<longleftrightarrow>
       di \<le> t \<and> t < di + n \<and> bit s (LENGTH('s) - 1 - (si + (t - di)))"
proof
  let ?src = "drop_bit (LENGTH('s) - n) (push_bit si s)"
  let ?w = "push_bit (LENGTH('d) - di - n) (ucast ?src) :: 'd word"
  have src: "bit ?src m \<longleftrightarrow> m < n \<and> bit s (LENGTH('s) - n + m - si)" for m
    using assms by (auto simp: bit_drop_bit_eq bit_push_bit_iff)
  have "(ucast (ucast ?src :: 'd word) :: 's word) = ?src"
    using assms by (intro bit_word_eqI) (auto simp: bit_ucast_iff src)
  then show "copy_block s si di n = Some ?w"
    by (simp add: copy_block_def Let_def)
  show "bit ?w (LENGTH('d) - 1 - t) \<longleftrightarrow>
       di \<le> t \<and> t < di + n \<and> bit s (LENGTH('s) - 1 - (si + (t - di)))" if t: "t < LENGTH('d)" for t
  proof -
    have "bit ?w (LENGTH('d) - 1 - t) \<longleftrightarrow> t < di + n \<and>
        LENGTH('d) - 1 - t - (LENGTH('d) - di - n) < n \<and>
        bit s (LENGTH('s) - n + (LENGTH('d) - 1 - t - (LENGTH('d) - di - n)) - si)"
      using t assms by (auto simp: bit_push_bit_iff bit_ucast_iff src)
    also have "\<dots> \<longleftrightarrow> di \<le> t \<and> t < di + n \<and>
        bit s (LENGTH('s) - n + (LENGTH('d) - 1 - t - (LENGTH('d) - di - n)) - si)"
      using t assms by auto
    also have "\<dots> \<longleftrightarrow> di \<le> t \<and> t < di + n \<and> bit s (LENGTH('s) - 1 - (si + (t - di)))"
    proof -
      have "LENGTH('s) - n + (LENGTH('d) - 1 - t - (LENGTH('d) - di - n)) - si = LENGTH('s) - 1 - (si + (t - di))"
        if "di \<le> t" "t < di + n" using that assms by arith
      then show ?thesis by metis
    qed
    finally show ?thesis .
  qed
qed

lemma bitat_block: "k < LENGTH('a) \<Longrightarrow> bitat v (LENGTH('a) * b + k) = bit ((v :: 'a::len word list) ! b) (LENGTH('a) - 1 - k)"
  by (simp add: bitat_def)

lemma within_block:
  fixes L :: nat
  assumes "di + n \<le> L" "0 < n"
  shows "j div L = b \<and> di \<le> j mod L \<and> j mod L < di + n \<longleftrightarrow> L * b + di \<le> j \<and> j < L * b + di + n"
proof
  assume "j div L = b \<and> di \<le> j mod L \<and> j mod L < di + n"
  then show "L * b + di \<le> j \<and> j < L * b + di + n"
    using mult_div_mod_eq[of L j] by auto
next
  assume *: "L * b + di \<le> j \<and> j < L * b + di + n"
  then obtain k where k: "j = L * b + k" "di \<le> k" "k < di + n"
    by (metis add.assoc add_le_cancel_left le_add1 le_iff_add nat_add_left_cancel_less)
  then show "j div L = b \<and> di \<le> j mod L \<and> j mod L < di + n"
    using assms by simp
qed

lemma copy_one_block:
  fixes src :: "'s::len word list" and dest :: "'d::len word list"
  assumes "di + n \<le> LENGTH('d)" "si + n \<le> LENGTH('s)" "0 < n"
    and "\<And>t. t < LENGTH('d) \<Longrightarrow> bit w (LENGTH('d) - 1 - t) \<longleftrightarrow>
       di \<le> t \<and> t < di + n \<and> bit (src ! sp) (LENGTH('s) - 1 - (si + (t - di)))"
    and "j < LENGTH('d) * length dest"
  shows "bitat (dest[dp := dest ! dp OR w]) j \<longleftrightarrow>
    bitat dest j \<or> LENGTH('d) * dp + di \<le> j \<and> j < LENGTH('d) * dp + di + n \<and>
      bitat src (LENGTH('s) * sp + si + (j - (LENGTH('d) * dp + di)))"
proof (cases "j div LENGTH('d) = dp")
  case True
  let ?t = "j mod LENGTH('d)"
  have t: "?t < LENGTH('d)" by simp
  have j: "j = LENGTH('d) * dp + ?t" using True by (metis mult_div_mod_eq)
  have "bitat src (LENGTH('s) * sp + (si + (?t - di))) = bit (src ! sp) (LENGTH('s) - 1 - (si + (?t - di)))"
    if "di \<le> ?t" "?t < di + n"
    using that assms(2) by (intro bitat_block) linarith
  moreover have "LENGTH('s) * sp + si + (j - (LENGTH('d) * dp + di)) = LENGTH('s) * sp + (si + (?t - di))"
    by (subst j) simp
  moreover have "di \<le> ?t \<and> ?t < di + n \<longleftrightarrow> LENGTH('d) * dp + di \<le> j \<and> j < LENGTH('d) * dp + di + n"
    using within_block[OF assms(1,3), of j dp] True by simp
  moreover have "bitat (dest[dp := dest ! dp OR w]) j \<longleftrightarrow> bitat dest j \<or> bit w (LENGTH('d) - 1 - ?t)"
    using bitat_update[OF assms(5)] True by (simp add: bitat_def bit_or_iff)
  ultimately show ?thesis
    using assms(4)[OF t] by metis
next
  case False
  then show ?thesis
    using within_block[OF assms(1,3), of j dp] assms(5) by (auto simp: bitat_update)
qed

lemma copy_loop_step:
  fixes src :: "'s::len word list" and dest :: "'d::len word list"
  assumes "count \<noteq> 0" "min (min (LENGTH('d) - di) (LENGTH('s) - si)) count = n" "0 < n"
    and "dp < length dest" "sp < length src" "copy_block (src ! sp) si di n = Some w"
  shows "copy_loop dest dp di src sp si count =
    copy_loop (dest[dp := dest ! dp OR w])
      (if LENGTH('d) - di = n then dp + 1 else dp) (if LENGTH('d) - di = n then 0 else di + n) src
      (if LENGTH('s) - si = n then sp + 1 else sp) (if LENGTH('s) - si = n then 0 else si + n) (count - n)"
  using assms by (subst copy_loop.simps) (simp only: Let_def simp_thms if_True if_False option.case if_cancel neq0_conv less_numeral_extra(3) not_gr_zero gr_implies_not_zero)

lemma copy_loop_ok:
  fixes src :: "'s::len word list" and dest :: "'d::len word list"
  assumes "di < LENGTH('d)" "si < LENGTH('s)"
    and "LENGTH('d) * dp + di + count \<le> LENGTH('d) * length dest"
    and "LENGTH('s) * sp + si + count \<le> LENGTH('s) * length src"
  shows "\<exists>dest'. copy_loop dest dp di src sp si count = Some dest' \<and> length dest' = length dest \<and>
    (\<forall>j < LENGTH('d) * length dest. bitat dest' j \<longleftrightarrow>
      bitat dest j \<or> LENGTH('d) * dp + di \<le> j \<and> j < LENGTH('d) * dp + di + count \<and>
        bitat src (LENGTH('s) * sp + si + (j - (LENGTH('d) * dp + di))))"
  using assms
proof (induction count arbitrary: dest dp di sp si rule: less_induct)
  case (less count)
  show ?case
  proof (cases "count = 0")
    case True
    then show ?thesis by (subst copy_loop.simps) auto
  next
    case False
    define n where "n = min (min (LENGTH('d) - di) (LENGTH('s) - si)) count"
    have n: "0 < n" "di + n \<le> LENGTH('d)" "si + n \<le> LENGTH('s)" "n \<le> count"
      using less.prems(1,2) False unfolding n_def by auto
    have "LENGTH('d) * dp < LENGTH('d) * length dest" "LENGTH('s) * sp < LENGTH('s) * length src"
      using less.prems(3,4) False by linarith+
    then have p: "dp < length dest" "sp < length src" by simp_all
    obtain w where w: "copy_block (src ! sp) si di n = Some (w :: 'd word)"
      "\<And>t. t < LENGTH('d) \<Longrightarrow> bit w (LENGTH('d) - 1 - t) \<longleftrightarrow>
         di \<le> t \<and> t < di + n \<and> bit (src ! sp) (LENGTH('s) - 1 - (si + (t - di)))"
      using copy_block_ok[OF n(2,3,1)] by metis
    let ?dest = "dest[dp := dest ! dp OR w]"
    let ?dp = "if LENGTH('d) - di = n then dp + 1 else dp"
    let ?di = "if LENGTH('d) - di = n then 0 else di + n"
    let ?sp = "if LENGTH('s) - si = n then sp + 1 else sp"
    let ?si = "if LENGTH('s) - si = n then 0 else si + n"
    have step: "copy_loop dest dp di src sp si count = copy_loop ?dest ?dp ?di src ?sp ?si (count - n)"
      using False n_def[symmetric] n(1) p w(1) by (rule copy_loop_step)
    have D: "LENGTH('d) * ?dp + ?di = LENGTH('d) * dp + di + n" using less.prems(1) by auto
    have S: "LENGTH('s) * ?sp + ?si = LENGTH('s) * sp + si + n" using less.prems(2) by auto
    have "\<exists>dest'. copy_loop ?dest ?dp ?di src ?sp ?si (count - n) = Some dest' \<and> length dest' = length ?dest \<and>
      (\<forall>j < LENGTH('d) * length ?dest. bitat dest' j \<longleftrightarrow>
        bitat ?dest j \<or> LENGTH('d) * ?dp + ?di \<le> j \<and> j < LENGTH('d) * ?dp + ?di + (count - n) \<and>
          bitat src (LENGTH('s) * ?sp + ?si + (j - (LENGTH('d) * ?dp + ?di))))"
    proof (rule less.IH)
      show "count - n < count" using n False by linarith
      show "?di < LENGTH('d)" using n by auto
      show "?si < LENGTH('s)" using n by auto
      show "LENGTH('d) * ?dp + ?di + (count - n) \<le> LENGTH('d) * length ?dest"
        unfolding D using less.prems(3) n(4) by simp
      show "LENGTH('s) * ?sp + ?si + (count - n) \<le> LENGTH('s) * length src"
        unfolding S using less.prems(4) n(4) by simp
    qed
    then obtain dest' where dest': "copy_loop ?dest ?dp ?di src ?sp ?si (count - n) = Some dest'"
      "length dest' = length dest"
      "\<And>j. j < LENGTH('d) * length dest \<Longrightarrow> bitat dest' j \<longleftrightarrow>
        bitat ?dest j \<or> LENGTH('d) * dp + di + n \<le> j \<and> j < LENGTH('d) * dp + di + n + (count - n) \<and>
          bitat src (LENGTH('s) * sp + si + n + (j - (LENGTH('d) * dp + di + n)))"
      unfolding D S length_list_update by blast
    have "bitat dest' j \<longleftrightarrow> bitat dest j \<or> LENGTH('d) * dp + di \<le> j \<and> j < LENGTH('d) * dp + di + count \<and>
        bitat src (LENGTH('s) * sp + si + (j - (LENGTH('d) * dp + di)))"
      if j: "j < LENGTH('d) * length dest" for j
    proof -
      define D where "D = LENGTH('d) * dp + di"
      define S where "S = LENGTH('s) * sp + si"
      have "n \<le> count" using n(4) by simp
      moreover have "bitat dest' j \<longleftrightarrow> bitat ?dest j \<or>
          D + n \<le> j \<and> j < D + n + (count - n) \<and> bitat src (S + n + (j - (D + n)))"
        using dest'(3)[OF j] unfolding D_def S_def .
      moreover have "bitat ?dest j \<longleftrightarrow> bitat dest j \<or> D \<le> j \<and> j < D + n \<and> bitat src (S + (j - D))"
        unfolding D_def S_def using n(2,3,1) w(2) j by (rule copy_one_block)
      moreover have "S + n + (j - (D + n)) = S + (j - D)" if "D + n \<le> j" using that by simp
      ultimately show ?thesis
        unfolding D_def[symmetric] S_def[symmetric] by (cases "D + n \<le> j") auto
    qed
    then show ?thesis using step dest'(1,2) by auto
  qed
qed

lemma copy_set_ok:
  fixes src :: "'s::len word list" and dest :: "'d::len word list"
  assumes "block_type TYPE('d)" "block_type TYPE('s)"
    and "dest_i + count \<le> LENGTH('d) * length dest" "src_i + count \<le> LENGTH('s) * length src"
  obtains dest' where "copy_set dest dest_i src src_i count = Some dest'" "length dest' = length dest"
    "\<And>j. j < LENGTH('d) * length dest \<Longrightarrow> bitat dest' j \<longleftrightarrow>
      bitat dest j \<or> dest_i \<le> j \<and> j < dest_i + count \<and> bitat src (src_i + (j - dest_i))"
proof -
  have "\<exists>dest'. copy_set dest dest_i src src_i count = Some dest' \<and> length dest' = length dest \<and>
    (\<forall>j < LENGTH('d) * length dest. bitat dest' j \<longleftrightarrow>
      bitat dest j \<or> dest_i \<le> j \<and> j < dest_i + count \<and> bitat src (src_i + (j - dest_i)))"
    using copy_loop_ok[of "dest_i mod LENGTH('d)" "src_i mod LENGTH('s)" "dest_i div LENGTH('d)" count dest
        "src_i div LENGTH('s)" src] assms
    by (simp add: copy_set_def block_arith)
  then show thesis using that by blast
qed

end
