(* ===== verification/Bit_Vector.thy ===== *)
theory Bit_Vector
  imports Bit_Access
begin

unbundle bit_operations_syntax

text \<open>
  The growing bit string \<^verbatim>\<open>cindex::bit_vector\<close> of \<^verbatim>\<open>src/siltds/cindex/bit_vector.hpp\<close> and
  \<^verbatim>\<open>bit_vector.cpp\<close>, and its refinement of lists of booleans.

  \<open>bv_buf\<close> is \<open>None\<close> for the null pointer. Allocation succeeds, except that \<open>realloc\<close> of an
  allocated block to zero bytes frees it and returns the null pointer, as the C library of the
  platform does. An operation is \<open>None\<close> when it aborts on an assertion or leaves the buffer.
\<close>

record 'w bit_vector =
  bv_buf :: "'w list option"
  bv_size :: nat
  bv_capacity :: nat

section \<open>Operations\<close>

text \<open>
  \<open>bv_resize\<close> keeps the blocks that hold the \<open>bv_size\<close> bits and clears the blocks after them. Both
  assertions on the path where \<open>realloc\<close> returns null fail when the new size is zero, because the
  old one is then at least as large.
\<close>

definition bv_resize :: "'a::len word bit_vector \<Rightarrow> 'a word bit_vector option" where
  "bv_resize v =
     (let old_size = block_count TYPE('a) (bv_size v);
          new_size = block_count TYPE('a) (bv_capacity v);
          old = (case bv_buf v of None \<Rightarrow> [] | Some ws \<Rightarrow> ws) in
      if bv_buf v \<noteq> None \<and> new_size = 0 \<or> length old < old_size then None
      else if old_size < new_size
        then Some (v\<lparr>bv_buf := Some (take old_size old @ replicate (new_size - old_size) 0)\<rparr>)
        else Some (v\<lparr>bv_buf := Some (take new_size old)\<rparr>))"

definition bit_vector_new :: "'a::len word bit_vector option" where
  "bit_vector_new = bv_resize \<lparr>bv_buf = None, bv_size = 0, bv_capacity = 8\<rparr>"

definition bv_clear :: "'a::len word bit_vector \<Rightarrow> 'a word bit_vector" where
  "bv_clear v = v\<lparr>bv_buf := None, bv_size := 0, bv_capacity := 0\<rparr>"

definition bv_compact :: "'a::len word bit_vector \<Rightarrow> 'a word bit_vector option" where
  "bv_compact v = bv_resize (v\<lparr>bv_capacity := bv_size v\<rparr>)"

definition push_back :: "'a::len word bit_vector \<Rightarrow> bool \<Rightarrow> 'a word bit_vector option" where
  "push_back v b = do {
     v \<leftarrow> (if bv_size v = bv_capacity v
           then bv_resize (v\<lparr>bv_capacity := if bv_capacity v = 0 then 1 else 2 * bv_capacity v\<rparr>) else Some v);
     ws \<leftarrow> bv_buf v;
     ws' \<leftarrow> (if b then set_bit_at ws (bv_size v) else Some ws);
     Some (v\<lparr>bv_buf := Some ws', bv_size := bv_size v + 1\<rparr>)
   }"

definition pop_back :: "'a::len word bit_vector \<Rightarrow> 'a word bit_vector option" where
  "pop_back v =
     (if bv_size v = 0 then None
      else do {
        ws \<leftarrow> bv_buf v;
        ws' \<leftarrow> unset_bit_at ws (bv_size v - 1);
        Some (v\<lparr>bv_buf := Some ws', bv_size := bv_size v - 1\<rparr>)
      })"

definition bv_index :: "'a::len word bit_vector \<Rightarrow> nat \<Rightarrow> bool option" where
  "bv_index v i = (if i < bv_size v then do { ws \<leftarrow> bv_buf v; get_bit_at ws i } else None)"

text \<open>
  The loop that doubles the capacity until it reaches the target size; a capacity of zero is
  first set to one.
\<close>

function grow_capacity :: "nat \<Rightarrow> nat \<Rightarrow> nat" where
  "grow_capacity target cap =
     (if target \<le> cap then cap else grow_capacity target (if cap = 0 then 1 else 2 * cap))"
  by pat_completeness auto
termination
  by (relation "measure (\<lambda>(target, cap). target - cap)") auto

declare grow_capacity.simps [simp del]

definition reserve :: "'a::len word bit_vector \<Rightarrow> nat \<Rightarrow> 'a word bit_vector option" where
  "reserve v target =
     (if bv_capacity v < target
      then bv_resize (v\<lparr>bv_capacity := grow_capacity target (bv_capacity v)\<rparr>) else Some v)"

text \<open>
  The three overloads of \<open>append\<close> share their body: reserve up to the target size, copy, set the
  size. A null buffer is never dereferenced when nothing is copied.
\<close>

definition append_range :: "'a::len word bit_vector \<Rightarrow> 's::len word list \<Rightarrow> nat \<Rightarrow> nat \<Rightarrow> nat \<Rightarrow> 'a word bit_vector option"
  where
  "append_range v r i len target = do {
     v \<leftarrow> reserve v target;
     ws \<leftarrow> copy_set (case bv_buf v of None \<Rightarrow> [] | Some ws \<Rightarrow> ws) (bv_size v) r i len;
     Some (v\<lparr>bv_buf := (case bv_buf v of None \<Rightarrow> None | Some _ \<Rightarrow> Some ws), bv_size := target\<rparr>)
   }"

definition append_blocks :: "'a::len word bit_vector \<Rightarrow> 's::len word list \<Rightarrow> nat \<Rightarrow> nat \<Rightarrow> 'a word bit_vector option"
  where
  "append_blocks v r i len = append_range v r i len (bv_size v + len)"

definition append_value :: "'a::len word bit_vector \<Rightarrow> 's::len word \<Rightarrow> nat \<Rightarrow> 'a word bit_vector option" where
  "append_value v x len =
     (if LENGTH('s) < len then None
      else append_range v [x] (LENGTH('s) - len) len (bv_size v + len))"

text \<open>
  Appending a range of another vector computes the target size from the size of that vector,
  not from the length of the range.
\<close>

definition append_vector :: "'a::len word bit_vector \<Rightarrow> 's::len word bit_vector \<Rightarrow> nat \<Rightarrow> nat \<Rightarrow> 'a word bit_vector option"
  where
  "append_vector v r i len =
     (if i + len \<le> bv_size r
      then append_range v (case bv_buf r of None \<Rightarrow> [] | Some rs \<Rightarrow> rs) i len (bv_size v + bv_size r)
      else None)"

definition get_value :: "'a::len word bit_vector \<Rightarrow> nat \<Rightarrow> nat \<Rightarrow> 't::len word option" where
  "get_value v i len =
     (if len \<le> LENGTH('t) then do {
        ws \<leftarrow> copy_set [0 :: 't word] (LENGTH('t) - len) (case bv_buf v of None \<Rightarrow> [] | Some ws \<Rightarrow> ws) i len;
        Some (ws ! 0)
      } else None)"

section \<open>The list of booleans a vector stands for\<close>

definition blocks :: "'a::len word bit_vector \<Rightarrow> 'a word list" where
  "blocks v = (case bv_buf v of None \<Rightarrow> [] | Some ws \<Rightarrow> ws)"

lemma blocks_buf [simp]: "bv_buf v = Some ws \<Longrightarrow> blocks v = ws" "bv_buf v = None \<Longrightarrow> blocks v = []"
  by (simp_all add: blocks_def)

lemma blocks_capacity [simp]: "blocks (v\<lparr>bv_capacity := c\<rparr>) = blocks v" "blocks (v\<lparr>bv_size := n\<rparr>) = blocks v"
  by (simp_all add: blocks_def)

definition bits :: "'a::len word bit_vector \<Rightarrow> bool list" where
  "bits v = map (bitat (blocks v)) [0..<bv_size v]"

definition bv_wf :: "'a::len word bit_vector \<Rightarrow> bool" where
  "bv_wf v \<longleftrightarrow> bv_size v \<le> bv_capacity v \<and> length (blocks v) = block_count TYPE('a) (bv_capacity v) \<and>
     (\<forall>i\<in>{bv_size v..<LENGTH('a) * length (blocks v)}. \<not> bitat (blocks v) i)"

lemma length_bits [simp]: "length (bits v) = bv_size v"
  by (simp add: bits_def)

lemma nth_bits: "i < bv_size v \<Longrightarrow> bits v ! i = bitat (blocks v) i"
  by (simp add: bits_def)

lemma block_count_covers: "n \<le> LENGTH('a) * block_count TYPE('a::len) n"
proof -
  have "n + LENGTH('a) - 1 < LENGTH('a) * ((n + LENGTH('a) - 1) div LENGTH('a)) + LENGTH('a)"
    using mod_less_divisor[of "LENGTH('a)" "n + LENGTH('a) - 1"] mult_div_mod_eq[of "LENGTH('a)" "n + LENGTH('a) - 1"]
    by (metis len_gt_0 nat_add_left_cancel_less)
  then show ?thesis by (simp add: block_count_def bits_per_block_def)
qed

lemma block_count_mono: "m \<le> n \<Longrightarrow> block_count t m \<le> block_count t n"
  by (simp add: block_count_def div_le_mono)

lemma block_count_0: "block_count TYPE('a::len) n = 0 \<longleftrightarrow> n = 0"
proof
  show "n = 0" if "block_count TYPE('a) n = 0" using block_count_covers[of n, where 'a='a] that by simp
  show "block_count TYPE('a) n = 0" if "n = 0" using that by (simp add: block_count_def bits_per_block_def)
qed

lemma bv_wf_capacity: "bv_wf (v :: 'a::len word bit_vector) \<Longrightarrow> bv_capacity v \<le> LENGTH('a) * length (blocks v)"
  by (simp add: bv_wf_def block_count_covers)

lemma bv_wf_allocated: "bv_wf (v :: 'a::len word bit_vector) \<Longrightarrow> 0 < bv_capacity v \<Longrightarrow> bv_buf v \<noteq> None"
  using block_count_0[of "bv_capacity v", where 'a='a] by (cases "bv_buf v") (auto simp: bv_wf_def)

text \<open>Growing keeps the bits and the invariant.\<close>

lemma bitat_take_pad:
  assumes "n \<le> length ws" "i < LENGTH('a) * (n + k)"
  shows "bitat (take n ws @ replicate k 0) i \<longleftrightarrow> i < LENGTH('a) * n \<and> bitat (ws :: 'a::len word list) i"
proof (cases "i < LENGTH('a) * n")
  case True
  then show ?thesis using assms div_less_blocks[OF True] by (simp add: bitat_def nth_append)
next
  case False
  then have "n \<le> i div LENGTH('a)"
    by (metis div_le_mono len_gt_0 nonzero_mult_div_cancel_left not_gr0 not_le)
  moreover have "i div LENGTH('a) < n + k" using assms(2) by (rule div_less_blocks)
  ultimately show ?thesis using False assms(1) by (simp add: bitat_def nth_append)
qed

lemma resize_grows:
  assumes wf: "bv_wf v" and cap: "bv_capacity v \<le> c" "0 < c"
  obtains v' where "bv_resize (v\<lparr>bv_capacity := c\<rparr>) = Some (v' :: 'a::len word bit_vector)" "bv_wf v'" "bits v' = bits v"
    "bv_size v' = bv_size v" "bv_capacity v' = c" "bv_buf v' \<noteq> None"
proof -
  let ?o = "block_count TYPE('a) (bv_size v)" and ?n = "block_count TYPE('a) c"
  have le: "?o \<le> length (blocks v)" "?o \<le> ?n" "0 < ?n"
    using wf cap block_count_mono block_count_0[of c, where 'a='a]
    by (auto simp: bv_wf_def intro: block_count_mono) 
  define ws where "ws = take ?o (blocks v) @ replicate (?n - ?o) 0"
  have ws: "bv_resize (v\<lparr>bv_capacity := c\<rparr>) = Some (v\<lparr>bv_capacity := c, bv_buf := Some ws\<rparr>)"
    using le by (cases "bv_buf v") (auto simp: bv_resize_def ws_def blocks_def Let_def)
  have cover: "bv_size v \<le> LENGTH('a) * ?o" by (rule block_count_covers)
  have at: "bitat ws i \<longleftrightarrow> i < LENGTH('a) * ?o \<and> bitat (blocks v) i" if "i < LENGTH('a) * ?n" for i
    unfolding ws_def using le that by (intro bitat_take_pad) auto
  have "?o \<le> ?n" using le by simp
  then have sz: "bv_size v \<le> LENGTH('a) * ?n" using cover by (meson le_trans mult_le_mono2)
  show thesis
  proof (rule that[OF ws])
    have "length ws = ?n" using le by (simp add: ws_def)
    moreover have "\<not> bitat ws i" if "bv_size v \<le> i" "i < LENGTH('a) * ?n" for i
    proof
      assume "bitat ws i"
      then have i: "i < LENGTH('a) * ?o" "bitat (blocks v) i" using at[OF that(2)] by auto
      have "LENGTH('a) * ?o \<le> LENGTH('a) * length (blocks v)" using le(1) by (rule mult_le_mono2)
      with i(1) have "i < LENGTH('a) * length (blocks v)" by (rule less_le_trans)
      then have "i \<in> {bv_size v..<LENGTH('a) * length (blocks v)}" using that(1) by simp
      then show False using wf i(2) unfolding bv_wf_def by blast
    qed
    ultimately show "bv_wf (v\<lparr>bv_capacity := c, bv_buf := Some ws\<rparr>)"
      using wf cap by (auto simp: bv_wf_def)
    have "bitat ws i = bitat (blocks v) i" if "i < bv_size v" for i
      using at[of i] that cover sz by simp
    then show "bits (v\<lparr>bv_capacity := c, bv_buf := Some ws\<rparr>) = bits v"
      by (simp add: bits_def)
  qed simp_all
qed

text \<open>A new vector is empty.\<close>

lemma bit_vector_new_ok:
  obtains v where "bit_vector_new = Some (v :: 'a::len word bit_vector)" "bv_wf v" "bits v = []" "bv_size v = 0"
proof -
  let ?e = "\<lparr>bv_buf = None, bv_size = 0, bv_capacity = 0\<rparr> :: 'a word bit_vector"
  have "bv_wf ?e" by (simp add: bv_wf_def block_count_0)
  from resize_grows[OF this, of 8] obtain v where "bit_vector_new = Some (v :: 'a word bit_vector)" "bv_wf v"
      "bits v = bits ?e" "bv_size v = 0"
    by (auto simp: bit_vector_new_def)
  then show thesis using that by (simp add: bits_def)
qed

text \<open>The common step of every append: a well-formed vector with its bits past the end set.\<close>

lemma bits_extend:
  assumes wf: "bv_wf v" and room: "n \<le> bv_capacity v" "bv_size v \<le> n" and buf: "bv_buf v \<noteq> None"
    and ws: "length ws = length (blocks v)"
    and at: "\<And>j. j < LENGTH('a) * length (blocks v) \<Longrightarrow>
       bitat ws j \<longleftrightarrow> bitat (blocks v) j \<or> bv_size v \<le> j \<and> j < n \<and> f (j - bv_size v)"
  shows "bv_wf (v\<lparr>bv_buf := Some ws, bv_size := n\<rparr>)"
    and "bits (v\<lparr>bv_buf := Some ws, bv_size := n\<rparr>) = bits v @ map f [0..<n - bv_size (v :: 'a::len word bit_vector)]"
proof -
  let ?v = "v\<lparr>bv_buf := Some ws, bv_size := n\<rparr>"
  have cap: "bv_capacity v \<le> LENGTH('a) * length (blocks v)" using wf by (rule bv_wf_capacity)
  have blk: "blocks ?v = ws" by (simp add: blocks_def)
  have zero: "\<not> bitat (blocks v) j" if "bv_size v \<le> j" "j < LENGTH('a) * length (blocks v)" for j
    using wf that by (auto simp: bv_wf_def)
  show "bv_wf ?v"
    using wf room ws at zero unfolding bv_wf_def blk by auto
  show "bits ?v = bits v @ map f [0..<n - bv_size v]"
  proof (rule nth_equalityI)
    show "length (bits ?v) = length (bits v @ map f [0..<n - bv_size v])" using room by simp
    fix i assume "i < length (bits ?v)"
    then have i: "i < n" by simp
    then have "bitat ws i \<longleftrightarrow> bitat (blocks v) i \<or> bv_size v \<le> i \<and> f (i - bv_size v)"
      using at[of i] room cap by simp
    then show "bits ?v ! i = (bits v @ map f [0..<n - bv_size v]) ! i"
      using i room cap zero[of i] blk by (auto simp: nth_append nth_bits)
  qed
qed

lemma grow_capacity_ge: "target \<le> grow_capacity target cap" "cap \<le> grow_capacity target cap"
proof (induction target cap rule: grow_capacity.induct)
  case (1 target cap)
  show "target \<le> grow_capacity target cap"
    using 1(1) by (subst grow_capacity.simps) auto
  show "cap \<le> grow_capacity target cap"
    using 1(2) by (subst grow_capacity.simps) (cases "cap = 0"; force)
qed

lemma reserve_ok:
  assumes "bv_wf v" "bv_size v \<le> n"
  obtains v' where "reserve v n = Some (v' :: 'a::len word bit_vector)" "bv_wf v'" "bits v' = bits v"
    "bv_size v' = bv_size v" "n \<le> bv_capacity v'" "0 < n \<Longrightarrow> bv_buf v' \<noteq> None"
proof (cases "bv_capacity v < n")
  case True
  let ?c = "grow_capacity n (bv_capacity v)"
  have "bv_capacity v \<le> ?c" "0 < ?c" using grow_capacity_ge[where target=n and cap="bv_capacity v"] True by linarith+
  then show thesis
    using resize_grows[OF assms(1)] that True grow_capacity_ge(1)[of n "bv_capacity v"]
    by (metis reserve_def)
next
  case False
  have "bv_buf v \<noteq> None" if "0 < n"
    using False that bv_wf_allocated[OF assms(1)] by simp
  then show thesis using that[of v] False assms(1) by (simp add: reserve_def)
qed

lemma push_back_ok:
  assumes "block_type TYPE('a::len)" "bv_wf v"
  obtains v' where "push_back v b = Some (v' :: 'a word bit_vector)" "bv_wf v'" "bits v' = bits v @ [b]"
proof -
  have "\<exists>u. (if bv_size v = bv_capacity v
      then bv_resize (v\<lparr>bv_capacity := if bv_capacity v = 0 then 1 else 2 * bv_capacity v\<rparr>) else Some v) = Some u \<and>
      bv_wf u \<and> bits u = bits v \<and> bv_size u = bv_size v \<and> bv_size u < bv_capacity u \<and> bv_buf u \<noteq> None"
  proof (cases "bv_size v = bv_capacity v")
    case True
    show ?thesis
      by (rule resize_grows[OF assms(2), of "if bv_capacity v = 0 then 1 else 2 * bv_capacity v"])
        (use True in \<open>auto split: if_splits\<close>)
  next
    case False
    then have "bv_size v < bv_capacity v" using assms(2) by (simp add: bv_wf_def)
    moreover have "bv_buf v \<noteq> None"
      using calculation bv_wf_allocated[OF assms(2)] by simp
    ultimately show ?thesis using False assms(2) by auto
  qed
  then obtain u ws where u: "bv_buf u = Some ws" "bv_wf u" "bits u = bits v" "bv_size u = bv_size v"
      "bv_size u < bv_capacity u"
    "push_back v b = (if b then set_bit_at ws (bv_size u) else Some ws) \<bind> (\<lambda>ws'. Some (u\<lparr>bv_buf := Some ws', bv_size := bv_size u + 1\<rparr>))"
    by (auto simp: push_back_def)
  have sz: "bv_size u < LENGTH('a) * length ws" using bv_wf_capacity[OF u(2)] u(1,5) by simp
  obtain ws' where ws': "(if b then set_bit_at ws (bv_size u) else Some ws) = Some ws'" "length ws' = length ws"
    "\<And>j. j < LENGTH('a) * length ws \<Longrightarrow> bitat ws' j \<longleftrightarrow> bitat ws j \<or> bv_size u \<le> j \<and> j < bv_size u + 1 \<and> b"
  proof (cases b)
    case True
    obtain ws' where "set_bit_at ws (bv_size u) = Some ws'" "length ws' = length ws"
      "\<And>j. j < LENGTH('a) * length ws \<Longrightarrow> bitat ws' j = (j = bv_size u \<or> bitat ws j)"
      using set_bit_at_ok[OF assms(1) sz] by blast
    moreover have "j = bv_size u \<longleftrightarrow> bv_size u \<le> j \<and> j < bv_size u + 1" for j by auto
    ultimately show thesis using that[of ws'] True by (metis (full_types))
  qed (use that[of ws] in auto)
  show thesis
    using bits_extend[OF u(2), of "bv_size u + 1" ws' "\<lambda>_. b"] u ws' that by simp
qed

lemma bits_shrink:
  assumes wf: "bv_wf v" and n: "n \<le> bv_size v" and buf: "bv_buf v \<noteq> None"
    and ws: "length ws = length (blocks v)"
    and at: "\<And>j. j < LENGTH('a) * length (blocks v) \<Longrightarrow> bitat ws j \<longleftrightarrow> j < n \<and> bitat (blocks v) j"
  shows "bv_wf (v\<lparr>bv_buf := Some ws, bv_size := n\<rparr>)"
    and "bits (v\<lparr>bv_buf := Some ws, bv_size := n\<rparr>) = take n (bits (v :: 'a::len word bit_vector))"
proof -
  let ?v = "v\<lparr>bv_buf := Some ws, bv_size := n\<rparr>"
  have blk: "blocks ?v = ws" by (simp add: blocks_def)
  show "bv_wf ?v" using wf n ws at unfolding bv_wf_def blk by auto
  have "n \<le> LENGTH('a) * length (blocks v)"
    using wf n bv_wf_capacity[OF wf] by (simp add: bv_wf_def)
  then show "bits ?v = take n (bits v)"
    using n at by (intro nth_equalityI) (auto simp: blk nth_bits)
qed

lemma pop_back_ok:
  assumes "block_type TYPE('a::len)" "bv_wf v" "bits v \<noteq> []"
  obtains v' where "pop_back v = Some (v' :: 'a word bit_vector)" "bv_wf v'" "bits v' = butlast (bits v)"
proof -
  have sz: "0 < bv_size v" using assms(3) by (metis length_bits length_greater_0_conv)
  then have "bv_buf v \<noteq> None"
    using bv_wf_allocated[OF assms(2)] assms(2) by (simp add: bv_wf_def)
  then obtain ws where ws: "bv_buf v = Some ws" by auto
  have lt: "bv_size v - 1 < LENGTH('a) * length ws"
    using bv_wf_capacity[OF assms(2)] assms(2) ws sz unfolding bv_wf_def by simp linarith
  obtain ws' where ws': "unset_bit_at ws (bv_size v - 1) = Some ws'" "length ws' = length ws"
    "\<And>j. j < LENGTH('a) * length ws \<Longrightarrow> bitat ws' j = (j \<noteq> bv_size v - 1 \<and> bitat ws j)"
    using unset_bit_at_ok[OF assms(1) lt] by blast
  have "bitat ws' j \<longleftrightarrow> j < bv_size v - 1 \<and> bitat (blocks v) j" if "j < LENGTH('a) * length (blocks v)" for j
    using ws'(3)[of j] that ws assms(2) by (cases "j < bv_size v") (auto simp: bv_wf_def)
  then show thesis
    using bits_shrink[OF assms(2), of "bv_size v - 1" ws'] that ws ws' sz
    by (simp add: pop_back_def butlast_conv_take)
qed

lemma index_ok:
  assumes "block_type TYPE('a::len)" "bv_wf v" "i < bv_size v"
  shows "bv_index (v :: 'a word bit_vector) i = Some (bits v ! i)"
proof -
  have "bv_buf v \<noteq> None"
    using bv_wf_allocated[OF assms(2)] assms(2,3) by (simp add: bv_wf_def)
  then obtain ws where ws: "bv_buf v = Some ws" by auto
  have "i < LENGTH('a) * length ws"
    using bv_wf_capacity[OF assms(2)] assms(2,3) ws by (simp add: bv_wf_def)
  then show ?thesis
    using assms ws by (simp add: bv_index_def get_bit_at_eq nth_bits)
qed

lemma append_range_ok:
  fixes r :: "'s::len word list"
  assumes "block_type TYPE('a::len)" "block_type TYPE('s)" "bv_wf v" "i + len \<le> LENGTH('s) * length r"
    and n: "bv_size v + len \<le> n"
  obtains v' where "append_range v r i len n = Some (v' :: 'a word bit_vector)" "bv_wf v'"
    "bits v' = bits v @ map (bitat r) [i..<i + len] @ replicate (n - (bv_size v + len)) False"
proof -
  obtain u where u: "reserve v n = Some (u :: 'a word bit_vector)" "bv_wf u" "bits u = bits v"
    "bv_size u = bv_size v" "n \<le> bv_capacity u" "0 < n \<Longrightarrow> bv_buf u \<noteq> None"
    using reserve_ok[OF assms(3), of n] n by auto
  have room: "bv_size u + len \<le> LENGTH('a) * length (blocks u)"
    using bv_wf_capacity[OF u(2)] u(4,5) n by simp
  obtain ws where ws: "copy_set (blocks u) (bv_size u) r i len = Some ws" "length ws = length (blocks u)"
    "\<And>j. j < LENGTH('a) * length (blocks u) \<Longrightarrow> bitat ws j \<longleftrightarrow>
      bitat (blocks u) j \<or> bv_size u \<le> j \<and> j < bv_size u + len \<and> bitat r (i + (j - bv_size u))"
    using copy_set_ok[OF assms(1,2) room assms(4)] by blast
  have run: "append_range v r i len n = Some (u\<lparr>bv_buf := (case bv_buf u of None \<Rightarrow> None | Some _ \<Rightarrow> Some ws), bv_size := n\<rparr>)"
    using u(1,4) ws(1) by (simp add: append_range_def blocks_def)
  show thesis
  proof (cases "bv_buf u")
    case None
    then have "\<not> 0 < n" using u(6) by blast
    then have "len = 0" "n = 0" "bv_size u = 0" using n u(4) by auto
    then have "u\<lparr>bv_buf := None, bv_size := n\<rparr> = u" using None by (cases u) simp
    then show thesis using that run u(2,3) None \<open>len = 0\<close> \<open>n = 0\<close> by simp
  next
    case (Some bs)
    let ?f = "\<lambda>j. j < len \<and> bitat r (i + j)"
    have f: "map ?f [0..<n - bv_size v] = map (bitat r) [i..<i + len] @ replicate (n - (bv_size v + len)) False"
      using n by (intro nth_equalityI) (auto simp: nth_append)
    have at: "bitat ws j \<longleftrightarrow> bitat (blocks u) j \<or> bv_size u \<le> j \<and> j < n \<and> ?f (j - bv_size u)"
      if "j < LENGTH('a) * length (blocks u)" for j
      using ws(3)[OF that] n u(4) by auto
    have sz: "bv_size u \<le> n" and buf: "bv_buf u \<noteq> None" using n u(4) Some by auto
    show thesis
      using bits_extend[OF u(2,5) sz buf ws(2) at] that run Some f u(3,4) by simp
  qed
qed

lemma append_blocks_ok:
  fixes r :: "'s::len word list"
  assumes "block_type TYPE('a::len)" "block_type TYPE('s)" "bv_wf v" "i + len \<le> LENGTH('s) * length r"
  obtains v' where "append_blocks v r i len = Some (v' :: 'a word bit_vector)" "bv_wf v'"
    "bits v' = bits v @ map (bitat r) [i..<i + len]"
  using append_range_ok[OF assms, of "bv_size v + len"] by (auto simp: append_blocks_def)

text \<open>The low \<open>len\<close> bits of a word, most significant first.\<close>

definition low_bits :: "'s::len word \<Rightarrow> nat \<Rightarrow> bool list" where
  "low_bits x len = map (bit x) (rev [0..<len])"

lemma length_low_bits [simp]: "length (low_bits x len) = len"
  by (simp add: low_bits_def)

lemma low_bits_0 [simp]: "low_bits x 0 = []"
  by (simp add: low_bits_def)

lemma nth_low_bits [simp]: "i < len \<Longrightarrow> low_bits x len ! i = bit x (len - 1 - i)"
  by (simp add: low_bits_def rev_nth)

lemma bitat_single: "len \<le> LENGTH('s::len) \<Longrightarrow> map (bitat [x :: 's word]) [LENGTH('s) - len..<LENGTH('s)] = low_bits x len"
  by (rule nth_equalityI) (auto simp: bitat_def intro: arg_cong[of _ _ "bit x"])

lemma append_value_ok:
  assumes "block_type TYPE('a::len)" "block_type TYPE('s::len)" "bv_wf v" "len \<le> LENGTH('s)"
  obtains v' where "append_value v (x :: 's word) len = Some (v' :: 'a word bit_vector)" "bv_wf v'"
    "bits v' = bits v @ low_bits x len"
  using append_range_ok[OF assms(1-3), of "LENGTH('s) - len" len "[x]" "bv_size v + len"] assms(4)
  by (auto simp: append_value_def bitat_single)

lemma append_vector_ok:
  assumes "block_type TYPE('a::len)" "block_type TYPE('s::len)" "bv_wf v" "bv_wf (r :: 's word bit_vector)"
    and "i + len \<le> bv_size r"
  obtains v' where "append_vector v r i len = Some (v' :: 'a word bit_vector)" "bv_wf v'"
    "bits v' = bits v @ take len (drop i (bits r)) @ replicate (bv_size r - len) False"
proof -
  have "bv_size r \<le> LENGTH('s) * length (blocks r)"
    using bv_wf_capacity[OF assms(4)] assms(4) by (simp add: bv_wf_def)
  moreover have "map (bitat (blocks r)) [i..<i + len] = take len (drop i (bits r))"
    using assms(5) by (intro nth_equalityI) (auto simp: nth_bits)
  ultimately show thesis
    using append_range_ok[OF assms(1-3), of i len "blocks r" "bv_size v + bv_size r"] assms(5) that
    by (auto simp: append_vector_def blocks_def)
qed

lemma get_value_ok:
  assumes "block_type TYPE('a::len)" "block_type TYPE('t::len)" "bv_wf v"
    and "len \<le> LENGTH('t)" "i + len \<le> bv_size v"
  obtains x where "get_value (v :: 'a word bit_vector) i len = Some (x :: 't word)"
    "low_bits x len = take len (drop i (bits v))" "\<And>k. bit x k \<Longrightarrow> k < len"
proof -
  have room: "i + len \<le> LENGTH('a) * length (blocks v)"
    using bv_wf_capacity[OF assms(3)] assms(3,5) by (simp add: bv_wf_def)
  have dest: "LENGTH('t) - len + len \<le> LENGTH('t) * length [0 :: 't word]" using assms(4) by simp
  obtain ws where ws: "copy_set [0 :: 't word] (LENGTH('t) - len) (blocks v) i len = Some ws" "length ws = 1"
    "\<And>j. j < LENGTH('t) \<Longrightarrow> bitat ws j \<longleftrightarrow> bitat [0 :: 't word] j \<or>
       LENGTH('t) - len \<le> j \<and> j < LENGTH('t) - len + len \<and> bitat (blocks v) (i + (j - (LENGTH('t) - len)))"
    using copy_set_ok[OF assms(2,1) dest room] by auto
  have at: "bit (ws ! 0) k \<longleftrightarrow> k < len \<and> bits v ! (i + (len - 1 - k))" if "k < LENGTH('t)" for k
  proof -
    have "i + (LENGTH('t) - 1 - k - (LENGTH('t) - len)) = i + (len - 1 - k)" using assms(4) by simp
    then show ?thesis
      using ws(3)[of "LENGTH('t) - 1 - k"] that assms(4,5)
      by (cases "k < len") (auto simp: bitat_def[of ws] bitat_def[of "[0]"] nth_bits)
  qed
  show thesis
  proof (rule that)
    show "get_value v i len = Some (ws ! 0)"
      using ws(1) assms(4) by (simp add: get_value_def blocks_def)
    show "low_bits (ws ! 0) len = take len (drop i (bits v))"
      using assms(4,5) by (intro nth_equalityI) (auto simp: at)
    show "k < len" if "bit (ws ! 0) k" for k
      using that at[of k] bit_imp_le_length by blast
  qed
qed

text \<open>Compacting keeps the blocks of the bits in use; it aborts on an allocated vector with no bits.\<close>

lemma compact_ok:
  assumes "bv_wf (v :: 'a::len word bit_vector)"
  shows "case bv_compact v of
      None \<Rightarrow> bv_buf v \<noteq> None \<and> bits v = []
    | Some v' \<Rightarrow> \<not> (bv_buf v \<noteq> None \<and> bits v = []) \<and> bv_wf v' \<and> bits v' = bits v \<and> bv_capacity v' = bv_size v"
proof -
  let ?o = "block_count TYPE('a) (bv_size v)"
  have le: "?o \<le> length (blocks v)" using assms by (auto simp: bv_wf_def intro: block_count_mono)
  have empty: "?o = 0 \<longleftrightarrow> bits v = []" using block_count_0[of "bv_size v", where 'a='a] by (metis length_bits length_0_conv)
  have run: "bv_compact v = (if bv_buf v \<noteq> None \<and> bits v = [] then None
      else Some (v\<lparr>bv_capacity := bv_size v, bv_buf := Some (take ?o (blocks v))\<rparr>))"
    using le empty by (cases "bv_buf v") (auto simp: bv_compact_def bv_resize_def Let_def)
  have cover: "bv_size v \<le> LENGTH('a) * ?o" by (rule block_count_covers)
  let ?v = "v\<lparr>bv_capacity := bv_size v, bv_buf := Some (take ?o (blocks v))\<rparr>"
  have at: "bitat (take ?o (blocks v)) i = bitat (blocks v) i" if "i < LENGTH('a) * ?o" for i
    using div_less_blocks[OF that] le by (simp add: bitat_def)
  have "LENGTH('a) * ?o \<le> LENGTH('a) * length (blocks v)" using le by (rule mult_le_mono2)
  then have zero: "\<not> bitat (take ?o (blocks v)) i" if "bv_size v \<le> i" "i < LENGTH('a) * ?o" for i
    using assms at[OF that(2)] that unfolding bv_wf_def by (meson atLeastLessThan_iff less_le_trans)
  have blk: "blocks ?v = take ?o (blocks v)" by (rule blocks_buf) simp
  have "bv_wf ?v" unfolding bv_wf_def blk using zero le by auto
  moreover have "bits ?v = bits v" unfolding bits_def blk using at cover by simp
  ultimately show ?thesis using run by simp
qed

end
