(* ===== verification/Huffman.thy ===== *)
theory Huffman
  imports Bit_Vector
begin

unbundle bit_operations_syntax

text \<open>
  The Huffman coder of the compact index: \<^verbatim>\<open>src/siltds/cindex/huffman.hpp\<close>. A tree is the array
  \<open>nodes_\<close> of the children of the internal nodes; references below \<open>num_symbols\<close> are the symbols,
  the others are internal, and the root is \<open>2 * num_symbols - 2\<close>. An entry that has not been
  written is \<open>None\<close>, and so is the result of reading it. The recursions over the tree carry fuel,
  because nothing in the type of the array excludes a cycle; \<open>2 * num_symbols - 1\<close> is enough for
  every tree the generator builds.
\<close>

section \<open>Trees\<close>

record huffman_tree =
  num_symbols :: nat
  nodes :: "nat option list"

text \<open>References are bytes: the assertion of the constructor.\<close>

definition huffman_tree_new :: "nat \<Rightarrow> huffman_tree option" where
  "huffman_tree_new n =
     (if 0 < n \<and> n * 2 - 1 < 256
      then Some \<lparr>num_symbols = n, nodes = replicate ((n - 1) * 2) None\<rparr> else None)"

definition is_symbol :: "huffman_tree \<Rightarrow> nat \<Rightarrow> bool" where
  "is_symbol t r \<longleftrightarrow> r < num_symbols t"

definition root :: "huffman_tree \<Rightarrow> nat" where
  "root t = num_symbols t * 2 - 2"

definition left :: "huffman_tree \<Rightarrow> nat \<Rightarrow> nat option" where
  "left t r = (if \<not> is_symbol t r \<and> r < num_symbols t * 2 - 1
     then nodes t ! ((r - num_symbols t) * 2) else None)"

definition right :: "huffman_tree \<Rightarrow> nat \<Rightarrow> nat option" where
  "right t r = (if \<not> is_symbol t r \<and> r < num_symbols t * 2 - 1
     then nodes t ! ((r - num_symbols t) * 2 + 1) else None)"

definition set_children :: "huffman_tree \<Rightarrow> nat \<Rightarrow> nat \<Rightarrow> nat \<Rightarrow> huffman_tree option" where
  "set_children t r l r' = (if \<not> is_symbol t r \<and> r < num_symbols t * 2 - 1
     then Some (t\<lparr>nodes := (nodes t)[(r - num_symbols t) * 2 := Some l, (r - num_symbols t) * 2 + 1 := Some r']\<rparr>)
     else None)"

section \<open>The generator\<close>

text \<open>
  The multimap from frequencies to references is the list of its entries in iteration order; an
  entry is inserted after those with an equal key.
\<close>

fun mm_insert :: "u64 \<Rightarrow> nat \<Rightarrow> (u64 \<times> nat) list \<Rightarrow> (u64 \<times> nat) list" where
  "mm_insert f r [] = [(f, r)]"
| "mm_insert f r ((g, s) # q) = (if f < g then (f, r) # (g, s) # q else (g, s) # mm_insert f r q)"

text \<open>
  \<open>freqs\<close> holds the frequencies of the references below \<open>ref\<close>; \<open>k\<close> iterations of the second loop
  are left.
\<close>

fun gen_loop :: "nat \<Rightarrow> nat \<Rightarrow> u64 list \<Rightarrow> (u64 \<times> nat) list \<Rightarrow> huffman_tree \<Rightarrow> huffman_tree option" where
  "gen_loop 0 ref freqs q t = Some t"
| "gen_loop (Suc k) ref freqs ((f1, l) # (f2, r) # q) t =
     (let freq = freqs ! l + freqs ! r in
      case set_children t ref l r of
        None \<Rightarrow> None
      | Some t \<Rightarrow> gen_loop k (ref + 1) (freqs @ [freq]) (mm_insert freq ref q) t)"
| "gen_loop (Suc k) ref freqs q t = None"

definition huffman_generate :: "u64 list \<Rightarrow> huffman_tree option" where
  "huffman_generate freqs =
     (let n = length freqs;
          q = fold (\<lambda>r q. mm_insert (freqs ! r) r q) [0..<n] [] in
      case huffman_tree_new n of
        None \<Rightarrow> None
      | Some t \<Rightarrow> gen_loop (n * 2 - 1 - n) n freqs q t)"

section \<open>The code table\<close>

text \<open>
  Entry \<open>s\<close> of a table is \<open>lengths_[s]\<close> and \<open>codes_[s]\<close>, and \<open>None\<close> while \<open>codes_[s]\<close> is the null
  pointer. \<open>prefix\<close> is an array of the stack that is not initialized: its first content is the
  argument \<open>uninit\<close>.
\<close>

type_synonym huffman_table = "(nat \<times> u32 list) option list"

fun table_gen :: "nat \<Rightarrow> huffman_tree \<Rightarrow> nat \<Rightarrow> u32 list \<Rightarrow> nat \<Rightarrow> huffman_table
    \<Rightarrow> (u32 list \<times> huffman_table) option" where
  "table_gen 0 t p prefix depth tbl = None"
| "table_gen (Suc fuel) t p prefix depth tbl =
     (if is_symbol t p
      then if depth < 256 \<and> block_count TYPE(32) depth \<le> length prefix
           then Some (prefix, tbl[p := Some (depth, take (block_count TYPE(32) depth) prefix)])
           else None
      else do {
        prefix \<leftarrow> unset_bit_at prefix depth;
        l \<leftarrow> left t p;
        (prefix, tbl) \<leftarrow> table_gen fuel t l prefix (depth + 1) tbl;
        prefix \<leftarrow> set_bit_at prefix depth;
        r \<leftarrow> right t p;
        table_gen fuel t r prefix (depth + 1) tbl
      })"

definition huffman_table_new :: "(nat \<Rightarrow> u32) \<Rightarrow> huffman_tree \<Rightarrow> huffman_table option" where
  "huffman_table_new uninit t =
     map_option snd (table_gen (num_symbols t * 2 - 1) t (root t)
       (map uninit [0..<block_count TYPE(32) (num_symbols t)]) 0 (replicate (num_symbols t) None))"

section \<open>The reverse table\<close>

text \<open>
  Entry \<open>v\<close> of the table is \<open>refs_[v]\<close> and \<open>lengths_[v]\<close>. The arrays have \<open>1 << max_length_\<close> entries, a shift of an \<^verbatim>\<open>int\<close>,
  which is defined up to 30; memory of that size is taken to be available. A write behind the end of the arrays is \<open>None\<close>.
  \<open>numeric_prefix\<close> has \<open>depth\<close> bits, so that its shifts do not leave the 64 bits of its type.
\<close>

record huffman_rev_table =
  max_length :: nat
  rev_entries :: "(nat \<times> nat) option list"

fun find_max_length :: "nat \<Rightarrow> huffman_tree \<Rightarrow> nat \<Rightarrow> nat \<Rightarrow> nat \<Rightarrow> nat option" where
  "find_max_length 0 t p depth mx = None"
| "find_max_length (Suc fuel) t p depth mx =
     (if is_symbol t p then Some (if mx < depth then depth else mx)
      else do {
        l \<leftarrow> left t p;
        mx \<leftarrow> find_max_length fuel t l (depth + 1) mx;
        r \<leftarrow> right t p;
        find_max_length fuel t r (depth + 1) mx
      })"

fun fill_table :: "nat \<Rightarrow> huffman_tree \<Rightarrow> nat \<Rightarrow> nat \<Rightarrow> nat \<Rightarrow> nat \<Rightarrow> (nat \<times> nat) option list \<Rightarrow> (nat \<times> nat) option list option" where
  "fill_table 0 t mx p numeric_prefix depth tbl = None"
| "fill_table (Suc fuel) t mx p numeric_prefix depth tbl =
     (if is_symbol t p
      then (let padding = mx - depth; base = numeric_prefix * 2 ^ padding in
        if depth \<le> mx \<and> padding < 32 \<and> depth < 256 \<and> base + 2 ^ padding \<le> length tbl
        then Some (take base tbl @ replicate (2 ^ padding) (Some (p, depth)) @ drop (base + 2 ^ padding) tbl)
        else None)
      else do {
        l \<leftarrow> left t p;
        tbl \<leftarrow> fill_table fuel t mx l (numeric_prefix * 2) (depth + 1) tbl;
        r \<leftarrow> right t p;
        fill_table fuel t mx r (numeric_prefix * 2 + 1) (depth + 1) tbl
      })"

definition huffman_rev_table_new :: "huffman_tree \<Rightarrow> huffman_rev_table option" where
  "huffman_rev_table_new t =
     (if num_symbols t \<le> 256 then do {
        mx \<leftarrow> find_max_length (num_symbols t * 2 - 1) t (root t) 0 0;
        if mx \<le> 30 then do {
          tbl \<leftarrow> fill_table (num_symbols t * 2 - 1) t mx (root t) 0 0 (replicate (2 ^ mx) None);
          Some \<lparr>max_length = mx, rev_entries = tbl\<rparr>
        } else None
      } else None)"

section \<open>Coding\<close>

record huffman =
  tree :: huffman_tree
  table :: huffman_table
  rev_table :: huffman_rev_table

definition huffman_new :: "(nat \<Rightarrow> u32) \<Rightarrow> huffman_tree \<Rightarrow> huffman option" where
  "huffman_new uninit t = do {
     tbl \<leftarrow> huffman_table_new uninit t;
     rev \<leftarrow> huffman_rev_table_new t;
     Some \<lparr>tree = t, table = tbl, rev_table = rev\<rparr>
   }"

definition huffman_encode :: "huffman \<Rightarrow> 'a::len word bit_vector \<Rightarrow> nat \<Rightarrow> 'a word bit_vector option" where
  "huffman_encode h out_buf s =
     (if s < length (table h) then do {
        (len, code) \<leftarrow> table h ! s;
        append_blocks out_buf code 0 len
      } else None)"

definition nsymbol :: nat where
  "nsymbol = 2 ^ 64 - 1"

function decode_walk :: "huffman_tree \<Rightarrow> 'a::len word bit_vector \<Rightarrow> nat \<Rightarrow> nat \<Rightarrow> (nat \<times> nat) option" where
  "decode_walk t in_buf it p =
     (if is_symbol t p then Some (p, it)
      else if it < bv_size in_buf
      then case bv_index in_buf it of
          None \<Rightarrow> None
        | Some b \<Rightarrow> (case (if b then right t p else left t p) of
              None \<Rightarrow> None
            | Some p \<Rightarrow> decode_walk t in_buf (it + 1) p)
      else None)"
  by pat_completeness auto
termination
  by (relation "measure (\<lambda>(t, in_buf, it, p). bv_size in_buf - it)") auto

declare decode_walk.simps [simp del]

definition huffman_decode :: "huffman \<Rightarrow> 'a::len word bit_vector \<Rightarrow> nat \<Rightarrow> (nat \<times> nat) option" where
  "huffman_decode h in_buf it =
     (if it = bv_size in_buf then Some (nsymbol, it)
      else decode_walk (tree h) in_buf it (root (tree h)))"

section \<open>Paths\<close>

primrec walk :: "huffman_tree \<Rightarrow> nat \<Rightarrow> bool list \<Rightarrow> nat option" where
  "walk t p [] = Some p"
| "walk t p (b # bs) =
     (case (if b then right t p else left t p) of None \<Rightarrow> None | Some q \<Rightarrow> walk t q bs)"

lemma walk_append: "walk t p (bs @ cs) = (case walk t p bs of None \<Rightarrow> None | Some q \<Rightarrow> walk t q cs)"
  by (induction bs arbitrary: p) (auto split: option.split)

lemma walk_from_symbol: "is_symbol t p \<Longrightarrow> walk t p bs = Some q \<Longrightarrow> bs = [] \<and> q = p"
  by (cases bs) (auto simp: left_def right_def split: option.splits if_splits)

lemma decode_walk_ok:
  assumes "block_type TYPE('a::len)" "bv_wf v" "is_symbol t s"
    and "walk t p bs = Some s" "bits v = pre @ bs @ post"
  shows "decode_walk t (v :: 'a word bit_vector) (length pre) p = Some (s, length pre + length bs)"
  using assms(4,5)
proof (induction bs arbitrary: p pre)
  case Nil
  then show ?case using assms(3) by (subst decode_walk.simps) simp
next
  case (Cons b bs)
  then obtain q where q: "(if b then right t p else left t p) = Some q" "walk t q bs = Some s"
    by (auto split: option.splits)
  have "\<not> is_symbol t p" using walk_from_symbol[OF _ Cons.prems(1)] by blast
  moreover have lt: "length pre < bv_size v" using arg_cong[OF Cons.prems(2), of length] by simp
  moreover have "bv_index v (length pre) = Some b"
    using index_ok[OF assms(1,2) lt] Cons.prems(2) by (simp add: nth_append)
  ultimately have "decode_walk t v (length pre) p = decode_walk t v (length (pre @ [b])) q"
    using q(1) by (subst decode_walk.simps) simp
  then show ?case using Cons.IH[OF q(2), of "pre @ [b]"] Cons.prems(2) by simp
qed

section \<open>Every symbol is reached in a generated tree\<close>

text \<open>
  \<open>built t ref\<close>: the internal nodes below \<open>ref\<close> have both children, and children come before their
  parents.
\<close>

definition built :: "huffman_tree \<Rightarrow> nat \<Rightarrow> bool" where
  "built t ref \<longleftrightarrow> length (nodes t) = (num_symbols t - 1) * 2 \<and>
     (\<forall>p. num_symbols t \<le> p \<and> p < ref \<longrightarrow>
        (\<exists>l r. left t p = Some l \<and> right t p = Some r \<and> l < p \<and> r < p))"

definition reaches :: "huffman_tree \<Rightarrow> nat \<Rightarrow> nat \<Rightarrow> bool" where
  "reaches t p x \<longleftrightarrow> (\<exists>bs. walk t p bs = Some x)"

lemma reaches_refl [simp]: "reaches t p p"
  unfolding reaches_def by (rule exI[of _ "[]"]) simp

lemma reaches_left: "left t p = Some l \<Longrightarrow> reaches t l x \<Longrightarrow> reaches t p x"
  unfolding reaches_def by (metis (full_types) option.case(2) walk.simps(2))

lemma reaches_right: "right t p = Some r \<Longrightarrow> reaches t r x \<Longrightarrow> reaches t p x"
  unfolding reaches_def by (metis (full_types) option.case(2) walk.simps(2))

lemma set_mm_insert [simp]: "set (mm_insert f r q) = insert (f, r) (set q)"
  by (induction f r q rule: mm_insert.induct) auto

lemma length_mm_insert [simp]: "length (mm_insert f r q) = Suc (length q)"
  by (induction f r q rule: mm_insert.induct) auto

lemma set_children_ok:
  assumes "built t ref" "num_symbols t \<le> ref" "ref < num_symbols t * 2 - 1" "l < ref" "r < ref"
  obtains t' where "set_children t ref l r = Some t'" "num_symbols t' = num_symbols t" "built t' (ref + 1)"
    "left t' ref = Some l" "right t' ref = Some r"
    "\<And>p. p < ref \<Longrightarrow> left t' p = left t p \<and> right t' p = right t p"
proof -
  let ?i = "(ref - num_symbols t) * 2"
  let ?t = "t\<lparr>nodes := (nodes t)[?i := Some l, ?i + 1 := Some r]\<rparr>"
  have len: "length (nodes t) = (num_symbols t - 1) * 2" using assms(1) by (simp add: built_def)
  have i: "?i + 1 < length (nodes t)" using assms(2,3) len by simp
  have set: "set_children t ref l r = Some ?t"
    using assms(2,3) by (simp add: set_children_def is_symbol_def)
  have kids: "left ?t ref = Some l" "right ?t ref = Some r"
    using assms(2,3) i by (simp_all add: left_def right_def is_symbol_def)
  have old: "left ?t p = left t p \<and> right ?t p = right t p" if "p < ref" for p
  proof (cases "num_symbols t \<le> p")
    case True
    then have "(p - num_symbols t) * 2 \<noteq> ?i" "(p - num_symbols t) * 2 \<noteq> ?i + 1"
       "(p - num_symbols t) * 2 + 1 \<noteq> ?i" "(p - num_symbols t) * 2 + 1 \<noteq> ?i + 1"
      using that by linarith+
    then show ?thesis by (simp add: left_def right_def is_symbol_def nth_list_update)
  qed (simp add: left_def right_def is_symbol_def)
  have "built ?t (ref + 1)"
    unfolding built_def
  proof (intro conjI allI impI)
    show "length (nodes ?t) = (num_symbols ?t - 1) * 2" using len by simp
    fix p assume p: "num_symbols ?t \<le> p \<and> p < ref + 1"
    show "\<exists>l r. left ?t p = Some l \<and> right ?t p = Some r \<and> l < p \<and> r < p"
    proof (cases "p = ref")
      case True
      then show ?thesis using kids assms(4,5) by auto
    next
      case False
      then have "p < ref" using p by simp
      then show ?thesis using assms(1) old[of p] p unfolding built_def by simp
    qed
  qed
  then show thesis using that[OF set] kids old by simp
qed

lemma child_below:
  assumes "built t ref" "p < ref" "(if b then right t p else left t p) = Some q"
  shows "q < p"
proof -
  have "num_symbols t \<le> p"
    using assms(3) by (auto simp: left_def right_def is_symbol_def split: if_splits)
  then show ?thesis using assms unfolding built_def by (auto split: if_splits)
qed

lemma walk_le:
  assumes "built t ref"
  shows "p < ref \<Longrightarrow> walk t p bs = Some x \<Longrightarrow> x + length bs \<le> p"
proof (induction bs arbitrary: p)
  case (Cons b bs)
  obtain q where q: "(if b then right t p else left t p) = Some q" "walk t q bs = Some x"
    using Cons.prems(2) by (auto split: option.splits)
  have "q < p" using child_below[OF assms Cons.prems(1) q(1)] .
  then show ?case using Cons.IH[of q] q(2) Cons.prems(1) by simp
qed simp

lemma walk_agree:
  assumes "built t ref" "\<And>p. p < ref \<Longrightarrow> left t' p = left t p \<and> right t' p = right t p"
  shows "p < ref \<Longrightarrow> walk t' p bs = walk t p bs"
proof (induction bs arbitrary: p)
  case (Cons b bs)
  have eq: "(if b then right t' p else left t' p) = (if b then right t p else left t p)"
    using assms(2)[OF Cons.prems] by simp
  show ?case
  proof (cases "if b then right t p else left t p")
    case (Some q)
    then have "q < p" using child_below[OF assms(1) Cons.prems] by blast
    then show ?thesis using Cons.IH[of q] Cons.prems Some eq by simp
  qed (simp add: eq)
qed simp

text \<open>What the second loop of the generator maintains.\<close>

definition gen_inv :: "huffman_tree \<Rightarrow> nat \<Rightarrow> (u64 \<times> nat) list \<Rightarrow> bool" where
  "gen_inv t ref q \<longleftrightarrow> built t ref \<and> num_symbols t \<le> ref \<and> (\<forall>y\<in>snd ` set q. y < ref) \<and>
     (\<forall>x<ref. \<exists>y\<in>snd ` set q. reaches t y x)"

lemma gen_inv_step:
  assumes inv: "gen_inv t ref ((f1, l) # (f2, r) # q)" and ref: "ref < num_symbols t * 2 - 1"
  obtains t' where "set_children t ref l r = Some t'" "num_symbols t' = num_symbols t"
    "gen_inv t' (ref + 1) (mm_insert f ref q)"
proof -
  have b: "built t ref" and n: "num_symbols t \<le> ref" and l: "l < ref" and r: "r < ref"
    using inv by (auto simp: gen_inv_def)
  obtain t' where t': "set_children t ref l r = Some t'" "num_symbols t' = num_symbols t" "built t' (ref + 1)"
    "left t' ref = Some l" "right t' ref = Some r"
    "\<And>p. p < ref \<Longrightarrow> left t' p = left t p \<and> right t' p = right t p"
    using set_children_ok[OF b n ref l r] by metis
  have same: "reaches t' p x = reaches t p x" if "p < ref" for p x
    unfolding reaches_def using walk_agree[OF b t'(6) that] by simp
  have cover: "\<exists>y\<in>snd ` set (mm_insert f ref q). reaches t' y x" if "x < ref + 1" for x
  proof (cases "x = ref")
    case False
    then have "x < ref" using \<open>x < ref + 1\<close> by simp
    then have "\<exists>y\<in>snd ` set ((f1, l) # (f2, r) # q). reaches t y x"
      using inv unfolding gen_inv_def by blast
    then obtain y where y: "y = l \<or> y = r \<or> y \<in> snd ` set q" "reaches t y x" by auto
    moreover have "y < ref" using y(1) inv by (auto simp: gen_inv_def)
    ultimately have "reaches t' y x" using same by simp
    then show ?thesis using y(1) reaches_left[OF t'(4)] reaches_right[OF t'(5)] by auto
  qed auto
  have "\<forall>y\<in>snd ` set (mm_insert f ref q). y < ref + 1"
    using inv unfolding gen_inv_def by (auto simp: less_Suc_eq)
  then have "gen_inv t' (ref + 1) (mm_insert f ref q)"
    using t'(2,3) n cover unfolding gen_inv_def by auto
  then show thesis using that t'(1,2) by blast
qed

lemma gen_loop_ok:
  assumes "gen_inv t ref q" "length q = Suc k" "ref + k = num_symbols t * 2 - 1"
  shows "\<exists>t' q'. gen_loop k ref freqs q t = Some t' \<and> num_symbols t' = num_symbols t \<and>
    gen_inv t' (num_symbols t * 2 - 1) q' \<and> length q' = 1"
  using assms
proof (induction k arbitrary: ref freqs q t)
  case 0
  then show ?case by auto
next
  case (Suc k)
  obtain f1 l f2 r q0 where q: "q = (f1, l) # (f2, r) # q0"
    using Suc.prems(2) by (cases q; cases "tl q"; auto)
  let ?f = "freqs ! l + freqs ! r"
  obtain t' where t': "set_children t ref l r = Some t'" "num_symbols t' = num_symbols t"
    "gen_inv t' (ref + 1) (mm_insert ?f ref q0)"
    using gen_inv_step[of t ref f1 l f2 r q0 ?f] Suc.prems(1,3) q by auto
  have "\<exists>u q'. gen_loop k (ref + 1) (freqs @ [?f]) (mm_insert ?f ref q0) t' = Some u \<and>
      num_symbols u = num_symbols t' \<and> gen_inv u (num_symbols t' * 2 - 1) q' \<and> length q' = 1"
    using Suc.IH[OF t'(3)] Suc.prems(2,3) q t'(2) by simp
  then show ?case using q t'(1,2) by (simp add: Let_def)
qed

lemma initial_queue:
  "set (fold (\<lambda>r q. mm_insert (g r) r q) [0..<n] []) = (\<lambda>r. (g r, r)) ` {..<n} \<and>
   length (fold (\<lambda>r q. mm_insert (g r) r q) [0..<n] []) = n"
  by (induction n) (auto simp: lessThan_Suc)

text \<open>\<open>tree_ok t\<close>: a full tree in which every reference is reached from the root.\<close>

definition tree_ok :: "huffman_tree \<Rightarrow> bool" where
  "tree_ok t \<longleftrightarrow> 0 < num_symbols t \<and> num_symbols t * 2 - 1 < 256 \<and> built t (num_symbols t * 2 - 1) \<and>
     (\<forall>x < num_symbols t. reaches t (root t) x)"

lemma huffman_generate_ok:
  assumes "0 < length freqs" "length freqs * 2 - 1 < 256"
  obtains t where "huffman_generate freqs = Some t" "num_symbols t = length freqs" "tree_ok t"
proof -
  let ?n = "length freqs"
  let ?t = "\<lparr>num_symbols = ?n, nodes = replicate ((?n - 1) * 2) None\<rparr> :: huffman_tree"
  let ?q = "fold (\<lambda>r q. mm_insert (freqs ! r) r q) [0..<?n] []"
  have q: "set ?q = (\<lambda>r. (freqs ! r, r)) ` {..<?n}" "length ?q = ?n"
    using initial_queue[of "\<lambda>r. freqs ! r" ?n] by auto
  have "built ?t ?n" by (auto simp: built_def)
  then have inv: "gen_inv ?t ?n ?q"
    unfolding gen_inv_def q(1) by (auto simp: image_image intro!: bexI)
  have k: "length ?q = Suc (?n * 2 - 1 - ?n)" using assms(1) q(2) by simp
  have ref: "?n + (?n * 2 - 1 - ?n) = num_symbols ?t * 2 - 1" using assms(1) by simp
  obtain t q' where t: "gen_loop (?n * 2 - 1 - ?n) ?n freqs ?q ?t = Some t" "num_symbols t = ?n"
    "gen_inv t (?n * 2 - 1) q'" "length q' = 1"
    using gen_loop_ok[OF inv k ref, of freqs] by auto
  obtain f y where q': "q' = [(f, y)]" using t(4) by (cases q') auto
  have y: "y < ?n * 2 - 1" "\<And>x. x < ?n * 2 - 1 \<Longrightarrow> reaches t y x"
    using t(3) q' by (auto simp: gen_inv_def)
  have "?n * 2 - 2 < ?n * 2 - 1" using assms(1) by linarith
  then have "reaches t y (?n * 2 - 2)" by (rule y(2))
  then obtain bs where "walk t y bs = Some (?n * 2 - 2)" by (auto simp: reaches_def)
  then have "?n * 2 - 2 \<le> y" using walk_le[of t "?n * 2 - 1" y bs] y(1) t(3) by (simp add: gen_inv_def)
  then have "y = root t" using y(1) t(2) by (simp add: root_def)
  then have "tree_ok t" using assms t(2,3) y(2) by (auto simp: tree_ok_def gen_inv_def)
  moreover have "huffman_generate freqs = Some t"
    using t(1) assms by (simp add: huffman_generate_def huffman_tree_new_def)
  ultimately show thesis using that t(2) by blast
qed

section \<open>The code table leads back to the symbols\<close>

definition code_bits :: "nat \<times> u32 list \<Rightarrow> bool list" where
  "code_bits e = map (bitat (snd e)) [0..<fst e]"

definition good_entry :: "huffman_tree \<Rightarrow> nat \<Rightarrow> (nat \<times> u32 list) option \<Rightarrow> bool" where
  "good_entry t s e \<longleftrightarrow>
     (\<exists>len code. e = Some (len, code) \<and> len \<le> 32 * length code \<and> walk t (root t) (code_bits (len, code)) = Some s)"

definition prefix_bits :: "u32 list \<Rightarrow> nat \<Rightarrow> bool list" where
  "prefix_bits prefix depth = map (bitat prefix) [0..<depth]"

lemma prefix_bits_Suc: "prefix_bits prefix (Suc d) = prefix_bits prefix d @ [bitat prefix d]"
  by (simp add: prefix_bits_def)

lemma prefix_bits_cong: "(\<And>i. i < d \<Longrightarrow> bitat v i = bitat w i) \<Longrightarrow> prefix_bits v d = prefix_bits w d"
  by (simp add: prefix_bits_def)

text \<open>
  The effect of the recursion at node \<open>p\<close>: the first \<open>depth\<close> bits of the prefix are kept, each
  entry of the table is kept or good, and the symbols below \<open>p\<close> have good entries.
\<close>

definition table_step :: "huffman_tree \<Rightarrow> nat \<Rightarrow> nat \<Rightarrow> u32 list \<Rightarrow> huffman_table \<Rightarrow> u32 list \<Rightarrow> huffman_table \<Rightarrow> bool"
  where
  "table_step t p depth prefix tbl prefix' tbl' \<longleftrightarrow>
     length prefix' = length prefix \<and> prefix_bits prefix' depth = prefix_bits prefix depth \<and>
     length tbl' = length tbl \<and>
     (\<forall>s < num_symbols t. tbl' ! s = tbl ! s \<or> good_entry t s (tbl' ! s)) \<and>
     (\<forall>s < num_symbols t. reaches t p s \<longrightarrow> good_entry t s (tbl' ! s))"

lemma bitat_take: "i < 32 * n \<Longrightarrow> n \<le> length v \<Longrightarrow> bitat (take n v) i = bitat (v :: u32 list) i"
  using div_less_blocks[of i 32 n] by (simp add: bitat_def)

lemma table_gen_symbol:
  assumes "is_symbol t p" "length tbl = num_symbols t" "depth < 256" "depth \<le> 32 * length prefix"
    and "walk t (root t) (prefix_bits prefix depth) = Some p"
  shows "\<exists>tbl'. table_gen (Suc fuel) t p prefix depth tbl = Some (prefix, tbl') \<and> table_step t p depth prefix tbl prefix tbl'"
proof -
  let ?c = "take (block_count TYPE(32) depth) prefix"
  let ?tbl = "tbl[p := Some (depth, ?c)]"
  have bc: "block_count TYPE(32) depth \<le> length prefix"
    using assms(4) by (simp add: block_count_def bits_per_block_def)
  have cover: "depth \<le> 32 * block_count TYPE(32) depth"
    using block_count_covers[of depth, where 'a=32] by simp
  have "code_bits (depth, ?c) = prefix_bits prefix depth"
    using cover bc by (simp add: code_bits_def prefix_bits_def bitat_take)
  then have good: "good_entry t p (Some (depth, ?c))"
    using assms(5) cover bc unfolding good_entry_def by simp
  have "table_gen (Suc fuel) t p prefix depth tbl = Some (prefix, ?tbl)"
    using assms(1,3) bc by simp
  moreover have "good_entry t s (?tbl ! s)" if "s < num_symbols t" "reaches t p s" for s
    using good that walk_from_symbol[OF assms(1)] assms(2) unfolding reaches_def by fastforce
  moreover have "?tbl ! s = tbl ! s \<or> good_entry t s (?tbl ! s)" if "s < num_symbols t" for s
    using good that assms(2) by (cases "s = p") auto
  ultimately show ?thesis unfolding table_step_def by auto
qed

lemma table_gen_ok:
  assumes "tree_ok t" "length tbl = num_symbols t" "num_symbols t \<le> 32 * length prefix"
    and "p < fuel" "p + depth \<le> num_symbols t * 2 - 2" "depth < num_symbols t"
    and "walk t (root t) (prefix_bits prefix depth) = Some p"
  shows "\<exists>prefix' tbl'. table_gen fuel t p prefix depth tbl = Some (prefix', tbl') \<and>
    table_step t p depth prefix tbl prefix' tbl'"
  using assms(2-)
proof (induction fuel arbitrary: p prefix depth tbl)
  case (Suc fuel)
  have n: "num_symbols t * 2 - 1 < 256" "built t (num_symbols t * 2 - 1)"
    using assms(1) by (auto simp: tree_ok_def)
  show ?case
  proof (cases "is_symbol t p")
    case True
    have "depth < 256" "depth \<le> 32 * length prefix" using Suc.prems(2,5) n(1) by linarith+
    then show ?thesis using table_gen_symbol[OF True Suc.prems(1)] Suc.prems(6) by blast
  next
    case False
    have "num_symbols t \<le> p" using False by (simp add: is_symbol_def)
    moreover have "p < num_symbols t * 2 - 1" using Suc.prems(4,5) by linarith
    ultimately have p: "num_symbols t \<le> p" "p < num_symbols t * 2 - 1" .
    obtain l r where lr: "left t p = Some l" "right t p = Some r" "l < p" "r < p"
      using n(2) p unfolding built_def by blast
    have d: "depth < 32 * length prefix" "depth + 1 < num_symbols t" using Suc.prems(2,4,5) p(1) by linarith+
    have d32: "depth < LENGTH(32) * length prefix" using d(1) by simp
    obtain pr1 where pr1: "unset_bit_at prefix depth = Some pr1" "length pr1 = length prefix"
      "\<And>j. j < LENGTH(32) * length prefix \<Longrightarrow> bitat pr1 j = (j \<noteq> depth \<and> bitat prefix j)"
      using unset_bit_at_ok[OF block_type_widths(3) d32] by metis
    have keep1: "prefix_bits pr1 depth = prefix_bits prefix depth"
      using pr1(3) d(1) by (intro prefix_bits_cong) simp
    then have w1: "walk t (root t) (prefix_bits pr1 (depth + 1)) = Some l"
      using Suc.prems(6) pr1(3)[OF d32] lr(1) by (simp add: prefix_bits_Suc walk_append)
    obtain pr2 tbl1 where one: "table_gen fuel t l pr1 (depth + 1) tbl = Some (pr2, tbl1)"
      "table_step t l (depth + 1) pr1 tbl pr2 tbl1"
      using Suc.IH[OF Suc.prems(1) _ _ _ _ w1] Suc.prems(2-5) pr1(2) lr(3) d(2) by fastforce
    have len2: "length pr2 = length prefix" using one(2) pr1(2) by (simp add: table_step_def)
    have d32': "depth < LENGTH(32) * length pr2" using d(1) len2 by simp
    obtain pr3 where pr3: "set_bit_at pr2 depth = Some pr3" "length pr3 = length pr2"
      "\<And>j. j < LENGTH(32) * length pr2 \<Longrightarrow> bitat pr3 j = (j = depth \<or> bitat pr2 j)"
      using set_bit_at_ok[OF block_type_widths(3) d32'] by metis
    have "prefix_bits pr3 depth = prefix_bits pr2 depth"
      using pr3(3) d(1) len2 by (intro prefix_bits_cong) simp
    moreover have "prefix_bits pr2 depth = prefix_bits pr1 depth"
      using one(2) by (simp add: table_step_def prefix_bits_Suc)
    ultimately have keep3: "prefix_bits pr3 depth = prefix_bits prefix depth" using keep1 by simp
    then have w3: "walk t (root t) (prefix_bits pr3 (depth + 1)) = Some r"
      using Suc.prems(6) pr3(3)[OF d32'] lr(2) by (simp add: prefix_bits_Suc walk_append)
    have len1: "length tbl1 = num_symbols t" using one(2) Suc.prems(1) by (simp add: table_step_def)
    obtain pr4 tbl2 where two: "table_gen fuel t r pr3 (depth + 1) tbl1 = Some (pr4, tbl2)"
      "table_step t r (depth + 1) pr3 tbl1 pr4 tbl2"
      using Suc.IH[OF len1 _ _ _ _ w3] Suc.prems(2-5) pr3(2) len2 lr(4) d(2) by fastforce
    have "prefix_bits pr4 depth = prefix_bits pr3 depth"
      using two(2) by (simp add: table_step_def prefix_bits_Suc)
    moreover have "reaches t l s \<or> reaches t r s" if "reaches t p s" "s < num_symbols t" for s
    proof -
      from that(1) obtain bs where bs: "walk t p bs = Some s" by (auto simp: reaches_def)
      moreover have "bs \<noteq> []" using bs False that(2) by (auto simp: is_symbol_def)
      ultimately obtain b cs where "bs = b # cs" by (cases bs) auto
      then show ?thesis using bs lr(1,2) unfolding reaches_def by (cases b) auto
    qed
    ultimately have "table_step t p depth prefix tbl pr4 tbl2"
      using one(2) two(2) keep3 len2 pr3(2) unfolding table_step_def by metis
    moreover have "table_gen (Suc fuel) t p prefix depth tbl = Some (pr4, tbl2)"
      using False pr1(1) lr(1,2) one(1) pr3(1) two(1) by simp
    ultimately show ?thesis by blast
  qed
qed simp

text \<open>\<open>huffman_ok h n\<close>: the coder codes the symbols below \<open>n\<close>.\<close>

definition huffman_ok :: "huffman \<Rightarrow> nat \<Rightarrow> bool" where
  "huffman_ok h n \<longleftrightarrow> num_symbols (tree h) = n \<and> length (table h) = n \<and> 2 \<le> n \<and>
     (\<forall>s<n. good_entry (tree h) s (table h ! s))"

lemma huffman_table_new_ok:
  assumes "tree_ok t" "2 \<le> num_symbols t"
  obtains tbl where "huffman_table_new uninit t = Some tbl" "length tbl = num_symbols t"
    "\<And>s. s < num_symbols t \<Longrightarrow> good_entry t s (tbl ! s)"
proof -
  let ?n = "num_symbols t"
  let ?pr = "map uninit [0..<block_count TYPE(32) ?n]"
  have cover: "?n \<le> 32 * length ?pr" using block_count_covers[of ?n, where 'a=32] by simp
  have fuel: "root t < ?n * 2 - 1" using assms(2) unfolding root_def by linarith
  obtain pr tbl where run: "table_gen (?n * 2 - 1) t (root t) ?pr 0 (replicate ?n None) = Some (pr, tbl)"
    "table_step t (root t) 0 ?pr (replicate ?n None) pr tbl"
    using table_gen_ok[OF assms(1), of "replicate ?n None" ?pr "root t" "?n * 2 - 1" 0] assms(2) cover fuel
    by (auto simp: prefix_bits_def root_def[of t] simp del: One_nat_def)
  then show thesis
    using that[of tbl] assms unfolding table_step_def tree_ok_def by (simp add: huffman_table_new_def)
qed

text \<open>The reverse table: the longest code is found, and the table has room for every code.\<close>

lemma built_children:
  assumes "built t ref" "p < ref" "\<not> is_symbol t p"
  obtains l r where "left t p = Some l" "right t p = Some r" "l < p" "r < p"
  using assms unfolding built_def is_symbol_def by (metis not_less)

lemma find_max_length_ok:
  assumes "built t ref"
  shows "p < ref \<Longrightarrow> p < fuel \<Longrightarrow> \<exists>mx'. find_max_length fuel t p d mx = Some mx' \<and> mx \<le> mx' \<and>
    (\<forall>bs s. walk t p bs = Some s \<and> is_symbol t s \<longrightarrow> d + length bs \<le> mx') \<and>
    (mx' = mx \<or> (\<exists>bs s. walk t p bs = Some s \<and> is_symbol t s \<and> mx' = d + length bs))"
proof (induction fuel arbitrary: p d mx)
  case (Suc fuel)
  show ?case
  proof (cases "is_symbol t p")
    case True
    then have "walk t p bs = Some s \<Longrightarrow> bs = []" for bs s using walk_from_symbol by blast
    moreover have "walk t p [] = Some p" by simp
    ultimately show ?thesis using True by fastforce
  next
    case False
    obtain l r where lr: "left t p = Some l" "right t p = Some r" "l < p" "r < p" by (rule built_children[OF assms Suc.prems(1) False])
    obtain m1 where m1: "find_max_length fuel t l (d + 1) mx = Some m1" "mx \<le> m1"
      "\<forall>bs s. walk t l bs = Some s \<and> is_symbol t s \<longrightarrow> d + 1 + length bs \<le> m1"
      "m1 = mx \<or> (\<exists>bs s. walk t l bs = Some s \<and> is_symbol t s \<and> m1 = d + 1 + length bs)"
      using Suc.IH[of l "d + 1" mx] Suc.prems lr(3) by auto
    obtain m2 where m2: "find_max_length fuel t r (d + 1) m1 = Some m2" "m1 \<le> m2"
      "\<forall>bs s. walk t r bs = Some s \<and> is_symbol t s \<longrightarrow> d + 1 + length bs \<le> m2"
      "m2 = m1 \<or> (\<exists>bs s. walk t r bs = Some s \<and> is_symbol t s \<and> m2 = d + 1 + length bs)"
      using Suc.IH[of r "d + 1" m1] Suc.prems lr(4) by auto
    have below: "d + length bs \<le> m2" if "walk t p bs = Some s" "is_symbol t s" for bs s
    proof (cases bs)
      case Nil
      then show ?thesis using that False by simp
    next
      case (Cons b cs)
      then show ?thesis using that lr m1(2,3) m2(2,3) by (cases b) force+
    qed
    have path: "\<exists>bs' s. walk t p bs' = Some s \<and> is_symbol t s \<and> k + 1 + length bs = k + length bs'"
      if "walk t q bs = Some s" "is_symbol t s" "q = l \<or> q = r" for q bs s k
      using that lr by (intro exI[of _ "(q \<noteq> l) # bs"] exI[of _ s]) auto
    have "m2 = mx \<or> (\<exists>bs s. walk t p bs = Some s \<and> is_symbol t s \<and> m2 = d + length bs)"
      using m1(4) m2(4) path by metis
    then show ?thesis using False lr(1,2) m1(1,2) m2(1,2) below by auto
  qed
qed simp

lemma code_length_bound:
  assumes "built t ref" "p < ref" "walk t p bs = Some s" "is_symbol t s"
  shows "bs = [] \<or> num_symbols t + length bs \<le> p + 1"
proof (cases bs rule: rev_cases)
  case (snoc cs b)
  then obtain q where q: "walk t p cs = Some q" "walk t q [b] = Some s" using assms(3) by (auto simp: walk_append split: option.splits)
  have "\<not> is_symbol t q" using walk_from_symbol[OF _ q(2)] by blast
  then show ?thesis using walk_le[OF assms(1,2) q(1)] snoc by (simp add: is_symbol_def)
qed simp

lemma fill_table_ok:
  assumes "built t ref" "mx \<le> 30"
  shows "p < ref \<Longrightarrow> p < fuel \<Longrightarrow> (\<And>bs s. walk t p bs = Some s \<Longrightarrow> is_symbol t s \<Longrightarrow> d + length bs \<le> mx) \<Longrightarrow> np < 2 ^ d \<Longrightarrow>
    length tbl = 2 ^ mx \<Longrightarrow> \<exists>tbl'. fill_table fuel t mx p np d tbl = Some tbl' \<and> length tbl' = 2 ^ mx"
proof (induction fuel arbitrary: p np d tbl)
  case (Suc fuel)
  show ?case
  proof (cases "is_symbol t p")
    case True
    then have d: "d \<le> mx" using Suc.prems(3)[of "[]" p] by simp
    have "(np + 1) * 2 ^ (mx - d) \<le> 2 ^ d * (2 :: nat) ^ (mx - d)" using Suc.prems(4) by (intro mult_right_mono) auto
    then have "np * 2 ^ (mx - d) + 2 ^ (mx - d) \<le> length tbl" using d Suc.prems(5) by (simp flip: power_add)
    then show ?thesis using True d assms(2) Suc.prems(5) by (simp add: Let_def)
  next
    case False
    obtain l r where lr: "left t p = Some l" "right t p = Some r" "l < p" "r < p" by (rule built_children[OF assms(1) Suc.prems(1) False])
    have dl: "d + 1 + length bs \<le> mx" if "walk t l bs = Some s" "is_symbol t s" for bs s
      using Suc.prems(3)[of "False # bs" s] that lr(1) by simp
    have dr: "d + 1 + length bs \<le> mx" if "walk t r bs = Some s" "is_symbol t s" for bs s
      using Suc.prems(3)[of "True # bs" s] that lr(2) by simp
    have "\<exists>t1. fill_table fuel t mx l (np * 2) (d + 1) tbl = Some t1 \<and> length t1 = 2 ^ mx"
      by (rule Suc.IH) (use dl Suc.prems(1,2,4,5) lr(3) in auto)
    then obtain t1 where t1: "fill_table fuel t mx l (np * 2) (d + 1) tbl = Some t1" "length t1 = 2 ^ mx" by blast
    have "\<exists>t2. fill_table fuel t mx r (np * 2 + 1) (d + 1) t1 = Some t2 \<and> length t2 = 2 ^ mx"
      by (rule Suc.IH) (use dr Suc.prems(1,2,4) t1(2) lr(4) in auto)
    then show ?thesis using False lr(1,2) t1(1) by auto
  qed
qed simp

text \<open>The coder is constructed exactly when no code is longer than 30 bits, which no tree of up to 31 symbols exceeds.\<close>

lemma huffman_new_cases:
  assumes "tree_ok t" "2 \<le> num_symbols t"
  obtains mx where "find_max_length (num_symbols t * 2 - 1) t (root t) 0 0 = Some mx" "mx < num_symbols t"
    "mx \<le> 30 \<Longrightarrow> \<exists>h. huffman_new uninit t = Some h \<and> huffman_ok h (num_symbols t)" "30 < mx \<Longrightarrow> huffman_new uninit t = None"
proof -
  let ?n = "num_symbols t"
  have b: "built t (?n * 2 - 1)" and n: "?n * 2 - 1 < 256" using assms(1) by (auto simp: tree_ok_def)
  have r: "root t < ?n * 2 - 1" using assms(2) unfolding root_def by linarith
  obtain mx where mx: "find_max_length (?n * 2 - 1) t (root t) 0 0 = Some mx"
    "\<And>bs s. walk t (root t) bs = Some s \<Longrightarrow> is_symbol t s \<Longrightarrow> 0 + length bs \<le> mx"
    "mx = 0 \<or> (\<exists>bs s. walk t (root t) bs = Some s \<and> is_symbol t s \<and> mx = 0 + length bs)"
    using find_max_length_ok[OF b r, of "?n * 2 - 1" 0 0] r by blast
  have "length bs < ?n" if "walk t (root t) bs = Some s" "is_symbol t s" for bs s
    using code_length_bound[OF b r that] assms(2) by (cases "bs = []") (auto simp: root_def)
  then have lt: "mx < ?n" using mx(3) assms(2) by auto
  obtain tbl where tbl: "huffman_table_new uninit t = Some tbl" "length tbl = ?n" "\<And>s. s < ?n \<Longrightarrow> good_entry t s (tbl ! s)"
    by (rule huffman_table_new_ok[OF assms, of uninit]) blast
  have "\<exists>h. huffman_new uninit t = Some h \<and> huffman_ok h ?n" if "mx \<le> 30"
  proof -
    have "\<exists>rt. fill_table (?n * 2 - 1) t mx (root t) 0 0 (replicate (2 ^ mx) None) = Some rt \<and> length rt = 2 ^ mx"
      by (rule fill_table_ok[OF b that r r]) (use mx(2) in auto)
    then obtain rt where "fill_table (?n * 2 - 1) t mx (root t) 0 0 (replicate (2 ^ mx) None) = Some rt" by blast
    then show ?thesis using tbl mx(1) \<open>mx \<le> 30\<close> n assms(2) by (simp add: huffman_new_def huffman_rev_table_new_def huffman_ok_def)
  qed
  moreover have "huffman_new uninit t = None" if "30 < mx" using that mx(1) tbl(1) by (simp add: huffman_new_def huffman_rev_table_new_def)
  ultimately show thesis using that mx(1) lt by blast
qed

lemma huffman_new_ok:
  assumes "tree_ok t" "2 \<le> num_symbols t" "num_symbols t \<le> 31"
  obtains h where "huffman_new uninit t = Some h" "huffman_ok h (num_symbols t)"
proof -
  obtain mx where "mx < num_symbols t" "mx \<le> 30 \<Longrightarrow> \<exists>h. huffman_new uninit t = Some h \<and> huffman_ok h (num_symbols t)"
    by (rule huffman_new_cases[OF assms(1,2), of uninit]) blast
  then show thesis using that assms(3) by auto
qed

definition huffman_code :: "huffman \<Rightarrow> nat \<Rightarrow> bool list" where
  "huffman_code h s = (case table h ! s of None \<Rightarrow> [] | Some e \<Rightarrow> code_bits e)"

lemma huffman_encode_ok:
  assumes "block_type TYPE('a::len)" "bv_wf v" "huffman_ok h n" "s < n"
  obtains v' where "huffman_encode h v s = Some (v' :: 'a word bit_vector)" "bv_wf v'"
    "bits v' = bits v @ huffman_code h s"
proof -
  obtain len code where e: "table h ! s = Some (len, code)" "len \<le> 32 * length code"
    using assms(3,4) unfolding huffman_ok_def good_entry_def by blast
  have "0 + len \<le> LENGTH(32) * length code" using e(2) by simp
  from append_blocks_ok[OF assms(1) block_type_widths(3) assms(2) this]
  obtain v' where "append_blocks v code 0 len = Some v'" "bv_wf v'" "bits v' = bits v @ map (bitat code) [0..<len]"
    by auto
  then show thesis
    using that e(1) assms(3,4) by (simp add: huffman_encode_def huffman_ok_def huffman_code_def code_bits_def)
qed

lemma huffman_decode_ok:
  assumes "block_type TYPE('a::len)" "bv_wf v" "huffman_ok h n" "s < n"
    and "bits v = pre @ huffman_code h s @ post"
  shows "huffman_decode h (v :: 'a word bit_vector) (length pre) = Some (s, length pre + length (huffman_code h s))"
proof -
  have w: "walk (tree h) (root (tree h)) (huffman_code h s) = Some s"
    using assms(3,4) unfolding huffman_ok_def good_entry_def huffman_code_def by fastforce
  have "huffman_code h s \<noteq> []"
    using w assms(3,4) by (auto simp: root_def huffman_ok_def)
  then have "length pre \<noteq> bv_size v" using arg_cong[OF assms(5), of length] by simp
  then show ?thesis
    using decode_walk_ok[OF assms(1,2) _ w assms(5)] assms(3,4)
    by (simp add: huffman_decode_def is_symbol_def huffman_ok_def)
qed

end
