(* ===== verification/Integer_Codes.thy ===== *)
theory Integer_Codes
  imports Bit_Vector
begin

unbundle bit_operations_syntax

text \<open>
  The integer codes of the compact index: \<^verbatim>\<open>src/siltds/cindex/sign_interleave.hpp\<close> (signed values
  as unsigned ones) and \<^verbatim>\<open>exp_golomb.hpp\<close> (the exponential-Golomb code of order \<open>ord\<close>).
\<close>

section \<open>Sign interleaving\<close>

definition sign_interleave_encode :: "'t::len word \<Rightarrow> 't word" where
  "sign_interleave_encode v =
     (if v AND push_bit (LENGTH('t) - 1) 1 = 0 then push_bit 1 v
      else push_bit 1 (NOT v) OR 1)"

definition sign_interleave_decode :: "'t::len word \<Rightarrow> 't word" where
  "sign_interleave_decode v =
     (if v AND 1 = 0 then drop_bit 1 v AND NOT (push_bit (LENGTH('t) - 1) 1)
      else NOT (drop_bit 1 v) OR push_bit (LENGTH('t) - 1) 1)"

section \<open>Exponential-Golomb code\<close>

text \<open>The loop that counts the bits of \<open>m\<close>.\<close>

function bit_length :: "'t::len word \<Rightarrow> nat" where
  "bit_length p = (if p = 0 then 0 else Suc (bit_length (drop_bit 1 p)))"
  by pat_completeness auto
termination
proof (relation "measure unat")
  show "(drop_bit 1 p, p) \<in> measure unat" if "p \<noteq> 0" for p :: "'t::len word"
  proof -
    have "0 < unat p" using that by (simp add: unat_gt_0)
    then have "drop_bit 1 (unat p) < unat p" by (simp add: drop_bit_eq_div)
    then show ?thesis by (simp add: unat_drop_bit_eq del: drop_bit_Suc)
  qed
qed simp

declare bit_length.simps [simp del]

primrec push_zeros :: "'a::len word bit_vector \<Rightarrow> nat \<Rightarrow> 'a word bit_vector option" where
  "push_zeros v 0 = Some v"
| "push_zeros v (Suc k) = do { v \<leftarrow> push_back v False; push_zeros v k }"

definition exp_golomb_encode :: "nat \<Rightarrow> 'a::len word bit_vector \<Rightarrow> 't::len word \<Rightarrow> 'a word bit_vector option" where
  "exp_golomb_encode ord out_buf n =
     (let m = (if ord \<noteq> 0 then drop_bit ord n + 1 else n + 1);
          len = bit_length m in
      do {
        out_buf \<leftarrow> push_zeros out_buf (len - 1);
        out_buf \<leftarrow> (if len \<noteq> 0 \<and> drop_bit (len - 1) m = 1 then push_back out_buf True else None);
        out_buf \<leftarrow> append_value out_buf m (len - 1);
        if ord \<noteq> 0 then append_value out_buf n ord else Some out_buf
      })"

text \<open>
  The loop over the leading zeros: it returns the length it counted and the position after the
  first one bit.
\<close>

function count_len :: "'a::len word bit_vector \<Rightarrow> nat \<Rightarrow> nat \<Rightarrow> (nat \<times> nat) option" where
  "count_len in_buf it len =
     (if it < bv_size in_buf
      then case bv_index in_buf it of
          None \<Rightarrow> None
        | Some True \<Rightarrow> Some (len, it + 1)
        | Some False \<Rightarrow> count_len in_buf (it + 1) (len + 1)
      else None)"
  by pat_completeness auto
termination
  by (relation "measure (\<lambda>(in_buf, it, len). bv_size in_buf - it)") auto

declare count_len.simps [simp del]

definition exp_golomb_decode :: "nat \<Rightarrow> 'a::len word bit_vector \<Rightarrow> nat \<Rightarrow> ('t::len word \<times> nat) option" where
  "exp_golomb_decode ord in_buf it = do {
     (len, it) \<leftarrow> count_len in_buf it 1;
     let m = push_bit (len - 1) (1 :: 't word);
     x \<leftarrow> (if len - 1 < LENGTH('t) \<and> it + (len - 1) \<le> bv_size in_buf
          then get_value in_buf it (len - 1) else None);
     let m = m OR x;
     let it = it + (len - 1);
     if ord \<noteq> 0 then do {
       y \<leftarrow> (if it + ord \<le> bv_size in_buf then get_value in_buf it ord else None);
       Some (push_bit ord (m - 1) OR y, it + ord)
     } else Some (m - 1, it)
   }"

section \<open>Sign interleaving is a bijection\<close>

lemma msb_test: "(v AND push_bit (LENGTH('t) - 1) 1 = 0) \<longleftrightarrow> \<not> bit (v :: 't::len word) (LENGTH('t) - 1)"
  by (simp add: and_exp_eq_0_iff_not_bit)

lemma lsb_test: "(v AND 1 = 0) \<longleftrightarrow> \<not> bit (v :: 't::len word) 0"
  by (simp add: and_one_eq even_iff_mod_2_eq_zero[symmetric] bit_0)

lemma bit_sign_interleave_encode:
  "bit (sign_interleave_encode v) k \<longleftrightarrow> k < LENGTH('t) \<and>
    (if k = 0 then bit v (LENGTH('t) - 1) else bit (v :: 't::len word) (k - 1) \<noteq> bit v (LENGTH('t) - 1))"
  unfolding sign_interleave_encode_def msb_test
  by (auto simp: bit_push_bit_iff bit_or_iff bit_not_iff bit_1_iff simp del: push_bit_Suc dest: bit_imp_le_length)

lemma bit_sign_interleave_decode:
  "bit (sign_interleave_decode v) k \<longleftrightarrow> k < LENGTH('t) \<and>
    (if k = LENGTH('t) - 1 then bit v 0 else bit (v :: 't::len word) (k + 1) \<noteq> bit v 0)"
  unfolding sign_interleave_decode_def lsb_test
  by (auto simp: bit_drop_bit_eq bit_or_iff bit_and_iff bit_not_iff bit_two_power simp del: push_bit_Suc
      dest: bit_imp_le_length)

lemma sign_interleave_decode_encode: "sign_interleave_decode (sign_interleave_encode v) = (v :: 't::len word)"
  by (rule bit_word_eqI) (auto simp: bit_sign_interleave_encode bit_sign_interleave_decode)

lemma sign_interleave_encode_decode: "sign_interleave_encode (sign_interleave_decode v) = (v :: 't::len word)"
  by (rule bit_word_eqI) (auto simp: bit_sign_interleave_encode bit_sign_interleave_decode)

text \<open>
  The values with small absolute value get the small codes: \<open>0, -1, 1, -2, 2, \<dots>\<close> become
  \<open>0, 1, 2, 3, 4, \<dots>\<close>.
\<close>

lemma sign_interleave_encode_max:
  "sign_interleave_encode v + 1 = 0 \<longleftrightarrow> v = push_bit (LENGTH('t) - 1) (1 :: 't::len word)"
proof -
  have "sign_interleave_encode v + 1 = 0 \<longleftrightarrow> sign_interleave_encode v = - 1"
    by (simp add: eq_neg_iff_add_eq_0)
  also have "\<dots> \<longleftrightarrow> v = sign_interleave_decode (- 1)"
    by (metis sign_interleave_decode_encode sign_interleave_encode_decode)
  also have "sign_interleave_decode (- 1) = push_bit (LENGTH('t) - 1) (1 :: 't word)"
    by (rule bit_word_eqI) (auto simp: bit_sign_interleave_decode bit_two_power)
  finally show ?thesis .
qed

section \<open>The code words and their decoding\<close>

lemma bit_length_0: "bit_length 0 = 0"
  by (subst bit_length.simps) simp

lemma bit_length_top:
  "p \<noteq> 0 \<Longrightarrow> 0 < bit_length p \<and> bit_length p \<le> LENGTH('t) \<and> bit (p :: 't::len word) (bit_length p - 1) \<and>
     (\<forall>k\<ge>bit_length p. \<not> bit p k)"
proof (induction p rule: bit_length.induct)
  case (1 p)
  show ?case
  proof (cases "drop_bit 1 p = 0")
    case True
    then have "bit_length p = 1" using 1(2) by (subst bit_length.simps) (simp add: bit_length.simps)
    moreover have hi: "\<not> bit p k" if "1 \<le> k" for k
    proof -
      have "bit (drop_bit 1 p) (k - 1) = bit p k" using that by (simp add: bit_drop_bit_eq)
      then show ?thesis using True by simp
    qed
    moreover have "bit p 0"
    proof (rule ccontr)
      assume "\<not> bit p 0"
      then have "\<not> bit p k" for k using hi by (cases "k = 0") auto
      then have "p = 0" by (intro bit_word_eqI) simp
      then show False using 1(2) by simp
    qed
    ultimately show ?thesis using len_gt_0[where 'a='t] by (simp add: Suc_leI)
  next
    case False
    let ?l = "bit_length (drop_bit 1 p)"
    have ih: "0 < ?l" "?l \<le> LENGTH('t)" "bit (drop_bit 1 p) (?l - 1)" "\<forall>k\<ge>?l. \<not> bit (drop_bit 1 p) k"
      using 1(1)[OF 1(2) False] by auto
    have l: "bit_length p = Suc ?l" using 1(2) by (subst bit_length.simps) simp
    have top: "bit p ?l" using ih(1,3) by (simp add: bit_drop_bit_eq)
    have "\<not> bit p k" if "Suc ?l \<le> k" for k
    proof -
      have "\<not> bit (drop_bit 1 p) (k - 1)" using ih(4) that by simp
      then show ?thesis using that by (simp add: bit_drop_bit_eq)
    qed
    then show ?thesis using l top bit_imp_le_length[OF top] by simp
  qed
qed

definition exp_golomb_value :: "nat \<Rightarrow> 't::len word \<Rightarrow> 't word" where
  "exp_golomb_value ord n = drop_bit ord n + 1"

definition exp_golomb_code :: "nat \<Rightarrow> 't::len word \<Rightarrow> bool list" where
  "exp_golomb_code ord n =
     (let m = exp_golomb_value ord n; len = bit_length m in
      replicate (len - 1) False @ [True] @ low_bits m (len - 1) @ low_bits n ord)"

lemma push_zeros_ok:
  assumes "block_type TYPE('a::len)" "bv_wf v"
  obtains v' where "push_zeros v k = Some (v' :: 'a word bit_vector)" "bv_wf v'" "bits v' = bits v @ replicate k False"
  using assms(2)
proof (induction k arbitrary: v thesis)
  case 0
  then show ?case by simp
next
  case (Suc k)
  obtain u where u: "push_back v False = Some u" "bv_wf u" "bits u = bits v @ [False]"
    using push_back_ok[OF assms(1) Suc.prems(2)] by blast
  obtain w where "push_zeros u k = Some w" "bv_wf w" "bits w = bits u @ replicate k False"
    using Suc.IH[OF _ u(2)] by blast
  then show ?case using Suc.prems(1) u by (simp add: replicate_append_same[symmetric])
qed

lemma top_bit_one:
  assumes "p \<noteq> (0 :: 't::len word)"
  shows "drop_bit (bit_length p - 1) p = 1"
proof (rule bit_word_eqI)
  fix k
  have "bit p (bit_length p - 1 + k) \<longleftrightarrow> k = 0"
    using bit_length_top[OF assms] by (cases "k = 0") auto
  then show "bit (drop_bit (bit_length p - 1) p) k = bit 1 k"
    by (auto simp: bit_drop_bit_eq bit_1_iff)
qed

lemma exp_golomb_encode_ok:
  assumes "block_type TYPE('a::len)" "block_type TYPE('t::len)" "bv_wf v" "ord < LENGTH('t)"
    and "exp_golomb_value ord n \<noteq> 0"
  obtains v' where "exp_golomb_encode ord v (n :: 't word) = Some (v' :: 'a word bit_vector)" "bv_wf v'"
    "bits v' = bits v @ exp_golomb_code ord n"
proof -
  define m where "m = exp_golomb_value ord n"
  define len where "len = bit_length m"
  have len: "0 < len" "len \<le> LENGTH('t)" "drop_bit (len - 1) m = 1"
    using bit_length_top[OF assms(5)] top_bit_one[OF assms(5)] by (auto simp: m_def len_def)
  obtain a where a: "push_zeros v (len - 1) = Some a" "bv_wf a" "bits a = bits v @ replicate (len - 1) False"
    using push_zeros_ok[OF assms(1,3)] by blast
  obtain b where b: "push_back a True = Some b" "bv_wf b" "bits b = bits a @ [True]"
    using push_back_ok[OF assms(1) a(2)] by blast
  have "len - 1 \<le> LENGTH('t)" using len by simp
  then obtain c where c: "append_value b m (len - 1) = Some c" "bv_wf c" "bits c = bits b @ low_bits m (len - 1)"
    using append_value_ok[OF assms(1,2) b(2)] by blast
  obtain d where d: "(if ord \<noteq> 0 then append_value c n ord else Some c) = Some d" "bv_wf d" "bits d = bits c @ low_bits n ord"
  proof (cases "ord = 0")
    case True
    then show thesis using that[of c] c(2) by simp
  next
    case False
    then show thesis
      using append_value_ok[OF assms(1,2) c(2), of ord n] assms(4) that by auto
  qed
  have m: "(if ord \<noteq> 0 then drop_bit ord n + 1 else n + 1) = m"
    by (simp add: m_def exp_golomb_value_def)
  have "exp_golomb_encode ord v n = Some d"
    unfolding exp_golomb_encode_def m Let_def len_def[symmetric]
    using a(1) b(1) c(1) d(1) len by simp
  moreover have "bits d = bits v @ exp_golomb_code ord n"
    using a(3) b(3) c(3) d(3) by (simp add: exp_golomb_code_def Let_def m_def len_def)
  ultimately show thesis using that d(2) by blast
qed

lemma count_len_ok:
  assumes "block_type TYPE('a::len)" "bv_wf v" "bits v = pre @ replicate k False @ [True] @ post"
  shows "count_len (v :: 'a word bit_vector) (length pre) l = Some (l + k, length pre + k + 1)"
  using assms(3)
proof (induction k arbitrary: pre l)
  case 0
  have "length pre < bv_size v" using arg_cong[OF 0, of length] by simp
  then show ?case
    using index_ok[OF assms(1,2), of "length pre"] 0 by (subst count_len.simps) (simp add: nth_append)
next
  case (Suc k)
  have lt: "length pre < bv_size v" using arg_cong[OF Suc.prems, of length] by simp
  have "count_len v (length pre) l = count_len v (length (pre @ [False])) (l + 1)"
    using index_ok[OF assms(1,2) lt] lt Suc.prems by (subst count_len.simps) (simp add: nth_append)
  also have "\<dots> = Some (l + 1 + k, length (pre @ [False]) + k + 1)"
    using Suc.IH[of "pre @ [False]"] Suc.prems by simp
  finally show ?case by simp
qed

lemma low_bits_eqI: "low_bits x n = low_bits y n \<Longrightarrow> k < n \<Longrightarrow> bit x k = bit y k"
  using nth_low_bits[of "n - 1 - k" n x] nth_low_bits[of "n - 1 - k" n y] by simp

lemma exp_golomb_decode_ok:
  assumes "block_type TYPE('a::len)" "block_type TYPE('t::len)" "bv_wf v" "ord < LENGTH('t)"
    and "exp_golomb_value ord n \<noteq> 0"
    and "bits v = pre @ exp_golomb_code ord n @ post"
  shows "exp_golomb_decode ord (v :: 'a word bit_vector) (length pre) =
    Some (n :: 't word, length pre + length (exp_golomb_code ord n))"
proof -
  define m where "m = exp_golomb_value ord n"
  define len where "len = bit_length m"
  have len: "0 < len" "len \<le> LENGTH('t)" "bit m (len - 1)" "\<And>k. len \<le> k \<Longrightarrow> \<not> bit m k"
    using bit_length_top[OF assms(5)] by (auto simp: m_def len_def)
  have bits: "bits v = pre @ replicate (len - 1) False @ [True] @ (low_bits m (len - 1) @ low_bits n ord @ post)"
    using assms(6) by (simp add: exp_golomb_code_def Let_def m_def len_def)
  have size: "bv_size v = length pre + len + (len - 1) + ord + length post"
    using arg_cong[OF bits, of length] len(1) by simp
  let ?i = "length pre + len"
  have cl: "count_len v (length pre) 1 = Some (len, ?i)"
    using count_len_ok[OF assms(1,3) bits, of 1] len(1) by simp
  have le: "len - 1 \<le> LENGTH('t)" "?i + (len - 1) \<le> bv_size v" "ord \<le> LENGTH('t)"
      "?i + (len - 1) + ord \<le> bv_size v"
    using len size assms(4) by auto
  obtain x where x: "get_value v ?i (len - 1) = Some (x :: 't word)"
    "low_bits x (len - 1) = take (len - 1) (drop ?i (bits v))" "\<And>k. bit x k \<Longrightarrow> k < len - 1"
    using get_value_ok[OF assms(1,2,3) le(1,2)] by blast
  have "take (len - 1) (drop ?i (bits v)) = low_bits m (len - 1)"
    using len(1) by (simp add: bits)
  then have low: "bit x k = bit m k" if "k < len - 1" for k
    using low_bits_eqI[of x "len - 1" m] x(2) that by simp
  have mx: "push_bit (len - 1) 1 OR x = m"
  proof (rule bit_word_eqI)
    fix k assume "k < LENGTH('t)"
    then have "bit (push_bit (len - 1) (1 :: 't word)) k \<longleftrightarrow> k = len - 1"
      using len(1,2) by (simp add: bit_two_power)
    then show "bit (push_bit (len - 1) 1 OR x) k = bit m k"
      using low[of k] len x(3)[of k] by (cases k "len - 1" rule: linorder_cases) (auto simp: bit_or_iff)
  qed
  obtain y where y: "get_value v (?i + (len - 1)) ord = Some (y :: 't word)"
    "low_bits y ord = take ord (drop (?i + (len - 1)) (bits v))" "\<And>k. bit y k \<Longrightarrow> k < ord"
    using get_value_ok[OF assms(1,2,3) le(3,4)] by blast
  have "take ord (drop (?i + (len - 1)) (bits v)) = low_bits n ord"
    using len(1) by (cases len) (simp_all add: bits)
  then have low_y: "bit y k = bit n k" if "k < ord" for k
    using low_bits_eqI[of y ord n] y(2) that by simp
  have ny: "push_bit ord (m - 1) OR y = n"
  proof (rule bit_word_eqI)
    fix k assume "k < LENGTH('t)"
    then show "bit (push_bit ord (m - 1) OR y) k = bit n k"
      using low_y[of k] y(3)[of k]
      by (cases "k < ord") (auto simp: bit_or_iff bit_push_bit_iff bit_drop_bit_eq m_def exp_golomb_value_def)
  qed
  have "length (exp_golomb_code ord n) = len + (len - 1) + ord"
    using len(1) by (simp add: exp_golomb_code_def Let_def m_def len_def)
  moreover have "ord = 0 \<Longrightarrow> m - 1 = n" by (simp add: m_def exp_golomb_value_def)
  moreover have "len - 1 < LENGTH('t)" using len by simp
  ultimately show ?thesis
    using cl x(1) y(1) le mx ny by (simp add: exp_golomb_decode_def Let_def)
qed

end
