(* ===== verification/Trie.thy ===== *)
theory Trie
  imports Huffman Integer_Codes
begin

unbundle bit_operations_syntax

text \<open>
  The trie of sorted keys of \<^verbatim>\<open>src/siltds/cindex/trie.hpp\<close>. A group of \<open>n\<close> keys that agree on the first
  \<open>depth\<close> bits is written as the number of keys whose next bit is 0, followed by the two halves.
  The number is Huffman coded up to the limit of 16 keys and exponential-Golomb coded above it.
  With \<open>dest_keys_per_block\<close> above one, a group inside one block of the destination is not
  written at all.

  The template parameter \<open>WeakOrdering\<close> is the argument \<open>weak\<close>. Keys are byte strings; reading a
  bit past the end of a key, or a key past the end of the array, is \<open>None\<close>.
\<close>

definition huffman_coding_limit :: nat where
  "huffman_coding_limit = 16"

section \<open>Construction\<close>

text \<open>The coder for groups of \<open>n\<close> keys, from the frequencies of the split sizes.\<close>

definition trie_coder :: "(nat \<Rightarrow> u32) \<Rightarrow> u64 list \<Rightarrow> huffman option" where
  "trie_coder uninit freqs = do { t \<leftarrow> huffman_generate freqs; huffman_new uninit t }"

fun trie_coders :: "(nat \<Rightarrow> u32) \<Rightarrow> (nat \<Rightarrow> u64 list) \<Rightarrow> nat list \<Rightarrow> huffman list option" where
  "trie_coders uninit freqs [] = Some []"
| "trie_coders uninit freqs (n # ns) = do {
     h \<leftarrow> trie_coder uninit (freqs n);
     hs \<leftarrow> trie_coders uninit freqs ns;
     Some (h # hs)
   }"

text \<open>The binomial coefficients, by the loop of the constructor.\<close>

primrec binomials :: "nat \<Rightarrow> nat \<Rightarrow> nat \<Rightarrow> u64 \<Rightarrow> u64 list" where
  "binomials n 0 k v = []"
| "binomials n (Suc m) k v =
     (let v = v * word_of_nat (n - k + 1) div word_of_nat k in v # binomials n m (k + 1) v)"

definition split_freqs :: "bool \<Rightarrow> nat \<Rightarrow> u64 list" where
  "split_freqs weak n =
     (if weak then 2 # binomials n (n - 1) 1 1 else 1 # binomials n n 1 1)"

definition trie_new :: "(nat \<Rightarrow> u32) \<Rightarrow> bool \<Rightarrow> huffman list option" where
  "trie_new uninit weak = trie_coders uninit (split_freqs weak) [2..<huffman_coding_limit + 1]"

definition recreate_huffman_from_dist :: "(nat \<Rightarrow> u32) \<Rightarrow> bool \<Rightarrow> (nat \<Rightarrow> nat \<Rightarrow> u64) \<Rightarrow> huffman list option"
  where
  "recreate_huffman_from_dist uninit weak dist =
     (if weak then None
      else trie_coders uninit (\<lambda>n. map (dist n) [0..<n + 1]) [2..<huffman_coding_limit + 1])"

section \<open>Encoding\<close>

primrec count_left :: "bytes list \<Rightarrow> nat \<Rightarrow> nat \<Rightarrow> nat \<Rightarrow> nat option" where
  "count_left arr i depth 0 = Some 0"
| "count_left arr i depth (Suc n) =
     (if i < length arr
      then case get_bit_at (arr ! i) depth of
          None \<Rightarrow> None
        | Some True \<Rightarrow> Some 0
        | Some False \<Rightarrow> map_option Suc (count_left arr (i + 1) depth n)
      else None)"

definition encode_left :: "huffman list \<Rightarrow> 'a::len word bit_vector \<Rightarrow> nat \<Rightarrow> nat \<Rightarrow> 'a word bit_vector option" where
  "encode_left huff out_buf n lft =
     (if n \<le> huffman_coding_limit then huffman_encode (huff ! (n - 2)) out_buf lft
      else exp_golomb_encode 0 out_buf
        (sign_interleave_encode (word_of_nat lft - word_of_nat (n div 2) :: u64)))"

definition decode_left :: "huffman list \<Rightarrow> 'a::len word bit_vector \<Rightarrow> nat \<Rightarrow> nat \<Rightarrow> (nat \<times> nat) option" where
  "decode_left huff in_buf it n =
     (if n \<le> huffman_coding_limit then huffman_decode (huff ! (n - 2)) in_buf it
      else do {
        (w, it) \<leftarrow> exp_golomb_decode 0 in_buf it;
        Some (unat (sign_interleave_decode w + word_of_nat (n div 2) :: u64), it)
      })"

text \<open>The test that a group lies inside one block of the destination.\<close>

definition one_block :: "nat \<Rightarrow> nat \<Rightarrow> nat \<Rightarrow> bool" where
  "one_block dest_keys_per_block first n \<longleftrightarrow>
     n \<le> dest_keys_per_block \<and> first div dest_keys_per_block = (first + n - 1) div dest_keys_per_block"

function encode_rec :: "bool \<Rightarrow> huffman list \<Rightarrow> 'a::len word bit_vector \<Rightarrow> bytes list \<Rightarrow> nat \<Rightarrow> nat \<Rightarrow> nat \<Rightarrow> nat \<Rightarrow> nat \<Rightarrow> nat
    \<Rightarrow> 'a word bit_vector option" where
  "encode_rec weak huff out_buf arr key_len off n dest_base dest_keys_per_block depth =
     (if n \<le> 1 then Some out_buf
      else if one_block dest_keys_per_block (dest_base + off) n then Some out_buf
      else if depth < key_len * 8 then do {
        lft \<leftarrow> count_left arr off depth n;
        let lft = (if weak \<and> lft = n then 0 else lft);
        out_buf \<leftarrow> encode_left huff out_buf n lft;
        out_buf \<leftarrow> encode_rec weak huff out_buf arr key_len off lft dest_base dest_keys_per_block (depth + 1);
        encode_rec weak huff out_buf arr key_len (off + lft) (n - lft) dest_base dest_keys_per_block (depth + 1)
      } else None)"
  by pat_completeness auto
termination
  by (relation "measure (\<lambda>(weak, huff, out_buf, arr, key_len, off, n, dest_base, kpb, depth). key_len * 8 - depth)") auto

definition trie_encode :: "bool \<Rightarrow> huffman list \<Rightarrow> 'a::len word bit_vector \<Rightarrow> bytes list \<Rightarrow> nat \<Rightarrow> nat \<Rightarrow> nat \<Rightarrow> nat \<Rightarrow> nat \<Rightarrow> nat
    \<Rightarrow> 'a word bit_vector option" where
  "trie_encode weak huff out_buf arr key_len off n dest_base dest_keys_per_block skip_bits =
     encode_rec weak huff out_buf arr key_len off n dest_base dest_keys_per_block skip_bits"

section \<open>Lookup\<close>

function skip_rec :: "huffman list \<Rightarrow> 'a::len word bit_vector \<Rightarrow> nat \<Rightarrow> nat \<Rightarrow> nat \<Rightarrow> nat \<Rightarrow> nat \<Rightarrow> nat \<Rightarrow> nat \<Rightarrow> nat option" where
  "skip_rec huff in_buf it key_len off n dest_base dest_keys_per_block depth =
     (if n \<le> 1 then Some it
      else if one_block dest_keys_per_block (dest_base + off) n then Some it
      else if depth < key_len * 8 then do {
        (lft, it) \<leftarrow> decode_left huff in_buf it n;
        if lft \<le> n then do {
          it \<leftarrow> skip_rec huff in_buf it key_len off lft dest_base dest_keys_per_block (depth + 1);
          skip_rec huff in_buf it key_len (off + lft) (n - lft) dest_base dest_keys_per_block (depth + 1)
        } else None
      } else None)"
  by pat_completeness auto
termination
  by (relation "measure (\<lambda>(huff, in_buf, it, key_len, off, n, dest_base, kpb, depth). key_len * 8 - depth)") auto

function locate_rec :: "bool \<Rightarrow> huffman list \<Rightarrow> 'a::len word bit_vector \<Rightarrow> nat \<Rightarrow> bytes \<Rightarrow> nat \<Rightarrow> nat \<Rightarrow> nat \<Rightarrow> nat \<Rightarrow> nat \<Rightarrow> nat
    \<Rightarrow> (nat \<times> nat) option" where
  "locate_rec weak huff in_buf it key key_len off n dest_base dest_keys_per_block depth =
     (if n \<le> 1 then Some (0, it)
      else if one_block dest_keys_per_block (dest_base + off) n then Some (0, it)
      else if depth < key_len * 8 then do {
        (lft, it) \<leftarrow> decode_left huff in_buf it n;
        if lft \<le> n then do {
          b \<leftarrow> get_bit_at key depth;
          if \<not> b \<and> (\<not> weak \<or> lft \<noteq> 0)
          then locate_rec weak huff in_buf it key key_len off lft dest_base dest_keys_per_block (depth + 1)
          else do {
            it \<leftarrow> skip_rec huff in_buf it key_len off lft dest_base dest_keys_per_block (depth + 1);
            (r, it) \<leftarrow> locate_rec weak huff in_buf it key key_len (off + lft) (n - lft) dest_base dest_keys_per_block (depth + 1);
            Some (lft + r, it)
          }
        } else None
      } else None)"
  by pat_completeness auto
termination
  by (relation "measure (\<lambda>(weak, huff, in_buf, it, key, key_len, off, n, dest_base, kpb, depth). key_len * 8 - depth)") auto

declare encode_rec.simps [simp del] skip_rec.simps [simp del] locate_rec.simps [simp del]

definition trie_locate :: "bool \<Rightarrow> huffman list \<Rightarrow> 'a::len word bit_vector \<Rightarrow> nat \<Rightarrow> bytes \<Rightarrow> nat \<Rightarrow> nat \<Rightarrow> nat \<Rightarrow> nat \<Rightarrow> nat \<Rightarrow> nat
    \<Rightarrow> (nat \<times> nat) option" where
  "trie_locate weak huff in_buf it key key_len off n dest_base dest_keys_per_block skip_bits =
     locate_rec weak huff in_buf it key key_len off n dest_base dest_keys_per_block skip_bits"

end
