(* ===== verification/Trie_Correct.thy ===== *)
theory Trie_Correct
  imports Trie
begin

unbundle bit_operations_syntax

text \<open>
  Correctness of the trie: what \<open>encode_rec\<close> writes for a group of sorted keys, \<open>locate_rec\<close>
  reads back as the position of each of the keys, and \<open>skip_rec\<close> steps over.
\<close>

section \<open>The coders of the split sizes\<close>

definition trie_ok :: "bool \<Rightarrow> huffman list \<Rightarrow> bool" where
  "trie_ok weak huff \<longleftrightarrow> length huff = huffman_coding_limit - 1 \<and>
     (\<forall>n. 2 \<le> n \<and> n \<le> huffman_coding_limit \<longrightarrow> huffman_ok (huff ! (n - 2)) (if weak then n else n + 1))"

lemma trie_coders_ok:
  assumes "\<And>n. n \<in> set ns \<Longrightarrow> 2 \<le> length (freqs n) \<and> length (freqs n) \<le> 31"
  shows "\<exists>hs. trie_coders uninit freqs ns = Some hs \<and> length hs = length ns \<and>
    (\<forall>i<length ns. huffman_ok (hs ! i) (length (freqs (ns ! i))))"
  using assms
proof (induction ns)
  case (Cons n ns)
  have "0 < length (freqs n)" "length (freqs n) * 2 - 1 < 256" "2 \<le> length (freqs n)" "length (freqs n) \<le> 31"
    using Cons.prems[of n] by auto
  then obtain t h where "huffman_generate (freqs n) = Some t" "huffman_new uninit t = Some h"
      "huffman_ok h (length (freqs n))"
    by (metis huffman_generate_ok huffman_new_ok)
  then show ?case using Cons.IH Cons.prems by (fastforce simp: trie_coder_def nth_Cons split: nat.split)
qed simp

lemma trie_coders_all:
  assumes "\<And>n. 2 \<le> n \<Longrightarrow> n \<le> huffman_coding_limit \<Longrightarrow> length (freqs n) = (if weak then n else n + 1)"
  obtains hs where "trie_coders uninit freqs [2..<huffman_coding_limit + 1] = Some hs" "trie_ok weak hs"
proof -
  let ?ns = "[2..<huffman_coding_limit + 1]"
  have "2 \<le> length (freqs n) \<and> length (freqs n) \<le> 31" if "n \<in> set ?ns" for n
    using assms[of n] that by (auto simp: huffman_coding_limit_def split: if_splits)
  then obtain hs where hs: "trie_coders uninit freqs ?ns = Some hs" "length hs = length ?ns"
      "\<And>i. i < length ?ns \<Longrightarrow> huffman_ok (hs ! i) (length (freqs (?ns ! i)))"
    using trie_coders_ok[of ?ns freqs uninit] by blast
  have "huffman_ok (hs ! (n - 2)) (if weak then n else n + 1)" if "2 \<le> n" "n \<le> huffman_coding_limit" for n
  proof -
    have "n - 2 < length ?ns" "?ns ! (n - 2) = n" using that by (simp_all add: nth_upt del: upt_Suc)
    then show ?thesis using hs(3)[of "n - 2"] assms[OF that] by simp
  qed
  then have "trie_ok weak hs" using hs(2) by (simp add: trie_ok_def huffman_coding_limit_def)
  then show thesis using that hs(1) by blast
qed

lemma length_binomials [simp]: "length (binomials n m k v) = m"
  by (induction m arbitrary: k v) (auto simp: Let_def)

lemma trie_new_ok:
  obtains hs where "trie_new uninit weak = Some hs" "trie_ok weak hs"
  using trie_coders_all[of "split_freqs weak" weak uninit thesis]
  by (simp add: trie_new_def split_freqs_def[of _ "_ :: nat"] del: upt_Suc)

lemma recreate_huffman_ok:
  obtains hs where "recreate_huffman_from_dist uninit False dist = Some hs" "trie_ok False hs"
  using trie_coders_all[of "\<lambda>n. map (dist n) [0..<n + 1]" False uninit thesis]
  by (simp add: recreate_huffman_from_dist_def del: upt_Suc)

definition left_code :: "huffman list \<Rightarrow> nat \<Rightarrow> nat \<Rightarrow> bool list" where
  "left_code huff n lft =
     (if n \<le> huffman_coding_limit then huffman_code (huff ! (n - 2)) lft
      else exp_golomb_code 0 (sign_interleave_encode (word_of_nat lft - word_of_nat (n div 2) :: u64)))"

lemma unat_word_of_nat_64: "n < 2 ^ 64 \<Longrightarrow> unat (word_of_nat n :: u64) = n"
  by (simp add: unsigned_of_nat take_bit_nat_eq_self)

lemma split_not_extreme:
  assumes "lft \<le> n" "n < 2 ^ 63"
  shows "exp_golomb_value 0 (sign_interleave_encode (word_of_nat lft - word_of_nat (n div 2) :: u64)) \<noteq> 0"
proof
  assume "exp_golomb_value 0 (sign_interleave_encode (word_of_nat lft - word_of_nat (n div 2) :: u64)) = 0"
  then have "word_of_nat lft - word_of_nat (n div 2) = push_bit (LENGTH(64) - 1) (1 :: u64)"
    using sign_interleave_encode_max[of "word_of_nat lft - word_of_nat (n div 2) :: u64"]
    by (simp add: exp_golomb_value_def)
  then have "(word_of_nat lft :: u64) = word_of_nat (n div 2) + word_of_nat (2 ^ 63)"
    by (simp add: diff_eq_eq add.commute)
  then have "(word_of_nat lft :: u64) = word_of_nat (n div 2 + 2 ^ 63)"
    by (simp only: of_nat_add)
  then have "unat (word_of_nat lft :: u64) = unat (word_of_nat (n div 2 + 2 ^ 63) :: u64)" by (rule arg_cong)
  moreover have "unat (word_of_nat lft :: u64) = lft" using assms by (intro unat_word_of_nat_64) simp
  moreover have "unat (word_of_nat (n div 2 + 2 ^ 63) :: u64) = n div 2 + 2 ^ 63"
    using assms(2) by (intro unat_word_of_nat_64) simp
  ultimately show False using assms by simp
qed

lemma coder_ok:
  assumes "trie_ok weak huff" "2 \<le> n" "n \<le> huffman_coding_limit" "lft \<le> n" "weak \<Longrightarrow> lft < n"
  obtains m where "huffman_ok (huff ! (n - 2)) m" "lft < m"
  using assms that[of "if weak then n else n + 1"] unfolding trie_ok_def by (auto split: if_splits)

lemma encode_left_ok:
  assumes "block_type TYPE('a::len)" "bv_wf v" "trie_ok weak huff" "2 \<le> n" "n < 2 ^ 63" "lft \<le> n" "weak \<Longrightarrow> lft < n"
  obtains v' where "encode_left huff v n lft = Some (v' :: 'a word bit_vector)" "bv_wf v'" "bits v' = bits v @ left_code huff n lft"
proof (cases "n \<le> huffman_coding_limit")
  case True
  then obtain m where "huffman_ok (huff ! (n - 2)) m" "lft < m"
    using coder_ok[OF assms(3,4) _ assms(6,7)] by blast
  then show thesis
    using huffman_encode_ok[OF assms(1,2)] that True by (metis encode_left_def left_code_def)
next
  case False
  have "0 < LENGTH(64)" by simp
  then show thesis
    using exp_golomb_encode_ok[OF assms(1) block_type_widths(4) assms(2) _ split_not_extreme[OF assms(6,5)]] that False
    by (metis encode_left_def left_code_def)
qed

lemma decode_left_ok:
  assumes "block_type TYPE('a::len)" "bv_wf v" "trie_ok weak huff" "2 \<le> n" "n < 2 ^ 63" "lft \<le> n" "weak \<Longrightarrow> lft < n"
    and "bits v = pre @ left_code huff n lft @ post"
  shows "decode_left huff (v :: 'a word bit_vector) (length pre) n = Some (lft, length pre + length (left_code huff n lft))"
proof (cases "n \<le> huffman_coding_limit")
  case True
  then obtain m where "huffman_ok (huff ! (n - 2)) m" "lft < m"
    using coder_ok[OF assms(3,4) _ assms(6,7)] by blast
  then show ?thesis
    using huffman_decode_ok[OF assms(1,2)] assms(8) True by (simp add: decode_left_def left_code_def)
next
  case False
  let ?w = "sign_interleave_encode (word_of_nat lft - word_of_nat (n div 2) :: u64)"
  have "bits v = pre @ exp_golomb_code 0 ?w @ post" using assms(8) False by (simp add: left_code_def)
  then have "exp_golomb_decode 0 v (length pre) = Some (?w, length pre + length (exp_golomb_code 0 ?w))"
    using exp_golomb_decode_ok[OF assms(1) block_type_widths(4) assms(2) _ split_not_extreme[OF assms(6,5)]] by simp
  moreover have "unat (sign_interleave_decode ?w + word_of_nat (n div 2)) = lft"
    using assms(5,6) by (simp add: sign_interleave_decode_encode unat_word_of_nat_64)
  ultimately show ?thesis using False by (simp add: decode_left_def left_code_def)
qed

section \<open>Groups of sorted keys\<close>

definition key_less :: "nat \<Rightarrow> bytes \<Rightarrow> bytes \<Rightarrow> bool" where
  "key_less key_len k k' \<longleftrightarrow>
     (\<exists>d < key_len * 8. (\<forall>i<d. bitat k i = bitat k' i) \<and> \<not> bitat k d \<and> bitat k' d)"

definition group_ok :: "bytes list \<Rightarrow> nat \<Rightarrow> nat \<Rightarrow> nat \<Rightarrow> nat \<Rightarrow> bool" where
  "group_ok arr key_len off n depth \<longleftrightarrow> off + n \<le> length arr \<and>
     (\<forall>i<n. length (arr ! (off + i)) = key_len) \<and>
     (\<forall>i<n. \<forall>j<n. \<forall>d<depth. bitat (arr ! (off + i)) d = bitat (arr ! (off + j)) d) \<and>
     (\<forall>i j. i < j \<and> j < n \<longrightarrow> key_less key_len (arr ! (off + i)) (arr ! (off + j)))"

lemma group_okI:
  assumes "off + n \<le> length arr" "\<And>i. i < n \<Longrightarrow> length (arr ! (off + i)) = key_len"
    "\<And>i j d. i < n \<Longrightarrow> j < n \<Longrightarrow> d < depth \<Longrightarrow> bitat (arr ! (off + i)) d = bitat (arr ! (off + j)) d"
    "\<And>i j. i < j \<Longrightarrow> j < n \<Longrightarrow> key_less key_len (arr ! (off + i)) (arr ! (off + j))"
  shows "group_ok arr key_len off n depth"
  using assms unfolding group_ok_def by blast

lemma group_ok_parts:
  assumes "group_ok arr key_len off n depth"
  shows "off + n \<le> length arr" "\<And>i. i < n \<Longrightarrow> length (arr ! (off + i)) = key_len"
    "\<And>i j d. i < n \<Longrightarrow> j < n \<Longrightarrow> d < depth \<Longrightarrow> bitat (arr ! (off + i)) d = bitat (arr ! (off + j)) d"
    "\<And>i j. i < j \<Longrightarrow> j < n \<Longrightarrow> key_less key_len (arr ! (off + i)) (arr ! (off + j))"
  using assms unfolding group_ok_def by blast+

lemma group_okD:
  assumes "group_ok arr key_len off n depth" "i < n"
  shows "off + i < length arr" "length (arr ! (off + i)) = key_len"
    "depth' < key_len * 8 \<Longrightarrow> get_bit_at (arr ! (off + i)) depth' = Some (bitat (arr ! (off + i)) depth')"
  using assms by (auto simp: group_ok_def intro!: get_bit_at_eq)

text \<open>Within a group the next bit is monotone, and two keys cannot agree to the end.\<close>

lemma group_mono:
  assumes "group_ok arr key_len off n depth" "i < j" "j < n" "bitat (arr ! (off + i)) depth"
  shows "bitat (arr ! (off + j)) depth"
proof -
  obtain d where d: "d < key_len * 8" "\<forall>k<d. bitat (arr ! (off + i)) k = bitat (arr ! (off + j)) k"
      "\<not> bitat (arr ! (off + i)) d" "bitat (arr ! (off + j)) d"
    using assms(1-3) unfolding group_ok_def key_less_def by metis
  have "\<not> d < depth" using assms(1-3) d(3,4) unfolding group_ok_def by (meson less_trans)
  then have "depth < d" using d(3) assms(4) by (metis linorder_neqE_nat)
  then show ?thesis using d(2) assms(4) by blast
qed

lemma group_depth:
  assumes "group_ok arr key_len off n depth" "2 \<le> n"
  shows "depth < key_len * 8"
proof (rule ccontr)
  assume "\<not> depth < key_len * 8"
  moreover obtain d where "d < key_len * 8" "\<not> bitat (arr ! (off + 0)) d" "bitat (arr ! (off + 1)) d"
    using assms unfolding group_ok_def key_less_def by (metis less_one less_le_trans one_less_numeral_iff semiring_norm(76))
  moreover have "bitat (arr ! (off + 0)) d = bitat (arr ! (off + 1)) d" if "d < depth" for d
  proof -
    have "0 < n" "1 < n" using assms(2) by auto
    then show ?thesis using assms(1) that unfolding group_ok_def by blast
  qed
  ultimately show False by (meson less_le_trans not_less)
qed

lemma count_left_spec:
  assumes "\<And>k. k < n \<Longrightarrow> i + k < length arr \<and> get_bit_at (arr ! (i + k)) depth = Some (bitat (arr ! (i + k)) depth)"
  shows "\<exists>l\<le>n. count_left arr i depth n = Some l \<and> (\<forall>k<l. \<not> bitat (arr ! (i + k)) depth) \<and>
    (l < n \<longrightarrow> bitat (arr ! (i + l)) depth)"
  using assms
proof (induction n arbitrary: i)
  case (Suc n)
  have i: "i < length arr" "get_bit_at (arr ! i) depth = Some (bitat (arr ! i) depth)"
    using Suc.prems[of 0] by auto
  show ?case
  proof (cases "bitat (arr ! i) depth")
    case True
    then show ?thesis using i by (intro exI[of _ 0]) simp
  next
    case False
    obtain l where l: "l \<le> n" "count_left arr (i + 1) depth n = Some l"
      "\<forall>k<l. \<not> bitat (arr ! (i + 1 + k)) depth" "l < n \<longrightarrow> bitat (arr ! (i + 1 + l)) depth"
    proof -
      have "i + 1 + k < length arr \<and> get_bit_at (arr ! (i + 1 + k)) depth = Some (bitat (arr ! (i + 1 + k)) depth)"
        if "k < n" for k
        using Suc.prems[of "Suc k"] that by simp
      then show thesis using Suc.IH[of "i + 1"] that by blast
    qed
    have "\<not> bitat (arr ! (i + k)) depth" if "k < Suc l" for k
      using that l(3) False by (cases k) auto
    then show ?thesis using i False l by (intro exI[of _ "Suc l"]) simp
  qed
qed simp

lemma group_ok_narrow:
  assumes g: "group_ok arr key_len off n depth" and ab: "a + b \<le> n"
    and c: "\<And>i. i < b \<Longrightarrow> bitat (arr ! (off + (a + i))) depth = c"
  shows "group_ok arr key_len (off + a) b (depth + 1)"
proof (rule group_okI, unfold add.assoc[of off a])
  have lt: "a + i < n" if "i < b" for i using ab that by simp
  show "off + (a + b) \<le> length arr" using group_ok_parts(1)[OF g] ab by linarith
  show "length (arr ! (off + (a + i))) = key_len" if "i < b" for i
    using group_ok_parts(2)[OF g lt[OF that]] .
  show "bitat (arr ! (off + (a + i))) d = bitat (arr ! (off + (a + j))) d"
    if "i < b" "j < b" "d < depth + 1" for i j d
  proof (cases "d = depth")
    case False
    then have "d < depth" using that(3) by simp
    then show ?thesis using group_ok_parts(3)[OF g lt[OF that(1)] lt[OF that(2)]] by simp
  qed (simp add: c that)
  show "key_less key_len (arr ! (off + (a + i))) (arr ! (off + (a + j)))" if "i < j" "j < b" for i j
    using group_ok_parts(4)[OF g, of "a + i" "a + j"] lt[OF that(2)] that(1) by simp
qed

text \<open>The split of a group, with the rule of the weak ordering applied.\<close>

lemma group_split:
  assumes g: "group_ok arr key_len off n depth" and n: "2 \<le> n"
  obtains l lft where "count_left arr off depth n = Some l" "lft = (if weak \<and> l = n then 0 else l)"
    "lft \<le> n" "weak \<Longrightarrow> lft < n"
    "group_ok arr key_len off lft (depth + 1)" "group_ok arr key_len (off + lft) (n - lft) (depth + 1)"
    "\<And>i. i < lft \<Longrightarrow> \<not> bitat (arr ! (off + i)) depth"
    "\<And>i. lft \<le> i \<Longrightarrow> i < n \<Longrightarrow> bitat (arr ! (off + i)) depth \<or> weak \<and> lft = 0"
proof -
  have "depth < key_len * 8" using group_depth[OF g n] .
  then obtain l where l: "l \<le> n" "count_left arr off depth n = Some l"
      "\<And>k. k < l \<Longrightarrow> \<not> bitat (arr ! (off + k)) depth" "l < n \<Longrightarrow> bitat (arr ! (off + l)) depth"
    using count_left_spec[of n off arr depth] group_okD[OF g] by blast
  have hi: "bitat (arr ! (off + i)) depth" if "l \<le> i" "i < n" for i
  proof (cases "i = l")
    case True
    then show ?thesis using l(4) that(2) by simp
  next
    case False
    then have "l < i" "l < n" using that by auto
    then show ?thesis using group_mono[OF g, of l i] that(2) l(4) by simp
  qed
  let ?l = "if weak \<and> l = n then 0 else l"
  have left: "group_ok arr key_len off ?l (depth + 1)"
    using group_ok_narrow[OF g, of 0 ?l False] l(1,3) by (auto split: if_splits)
  have right: "group_ok arr key_len (off + ?l) (n - ?l) (depth + 1)"
  proof (cases "weak \<and> l = n")
    case True
    then show ?thesis using group_ok_narrow[OF g, of 0 n False] l(3) by simp
  next
    case False
    then show ?thesis using group_ok_narrow[OF g, of l "n - l" True] l(1) hi by auto
  qed
  show thesis
    by (rule that[OF l(2) refl _ _ left right]) (use l hi n in \<open>auto split: if_splits\<close>)
qed

section \<open>Encoding and lookup\<close>

lemma one_block_same:
  assumes "one_block kpb first n" "j < n"
  shows "(first + j) div kpb = first div kpb"
proof (rule antisym)
  have "(first + j) div kpb \<le> (first + n - 1) div kpb" using assms(2) by (intro div_le_mono) simp
  then show "(first + j) div kpb \<le> first div kpb" using assms(1) by (simp add: one_block_def)
  show "first div kpb \<le> (first + j) div kpb" by (intro div_le_mono) simp
qed

text \<open>
  \<open>reads code \<dots>\<close>: in every buffer that holds \<open>code\<close>, skipping the group steps over it, and looking
  up the \<open>j\<close>-th key of the group finds a position of the same block, not after \<open>j\<close>.
\<close>

definition finds :: "bool \<Rightarrow> huffman list \<Rightarrow> 'a::len word bit_vector \<Rightarrow> nat \<Rightarrow> bytes \<Rightarrow> nat \<Rightarrow> nat \<Rightarrow> nat \<Rightarrow> nat \<Rightarrow> nat \<Rightarrow> nat \<Rightarrow> nat \<Rightarrow> bool"
  where
  "finds weak huff v it key key_len off n base kpb depth j \<longleftrightarrow>
     (\<exists>r it'. locate_rec weak huff v it key key_len off n base kpb depth = Some (r, it') \<and> r \<le> j \<and>
        (base + off + r) div kpb = (base + off + j) div kpb)"

text \<open>The lookup of any key, also of one that is not in the group, ends inside the group.\<close>

definition locates :: "bool \<Rightarrow> huffman list \<Rightarrow> 'a::len word bit_vector \<Rightarrow> nat \<Rightarrow> bytes \<Rightarrow> nat \<Rightarrow> nat \<Rightarrow> nat \<Rightarrow> nat \<Rightarrow> nat \<Rightarrow> nat \<Rightarrow> bool" where
  "locates weak huff v it key key_len off n base kpb depth \<longleftrightarrow>
     (\<exists>r it'. locate_rec weak huff v it key key_len off n base kpb depth = Some (r, it') \<and> r \<le> n)"

definition reads :: "bool \<Rightarrow> huffman list \<Rightarrow> 'a::len itself \<Rightarrow> bool list \<Rightarrow> bytes list \<Rightarrow> nat \<Rightarrow> nat \<Rightarrow> nat \<Rightarrow> nat \<Rightarrow> nat \<Rightarrow> nat \<Rightarrow> bool"
  where
  "reads weak huff _ code arr key_len off n base kpb depth \<longleftrightarrow>
     (\<forall>(v :: 'a word bit_vector) pre post. bv_wf v \<and> bits v = pre @ code @ post \<longrightarrow>
        skip_rec huff v (length pre) key_len off n base kpb depth = Some (length pre + length code) \<and>
        (\<forall>j<n. finds weak huff v (length pre) (arr ! (off + j)) key_len off n base kpb depth j) \<and>
        (\<forall>key. length key = key_len \<longrightarrow> locates weak huff v (length pre) key key_len off n base kpb depth))"

lemma reads_empty:
  assumes "n \<le> 1 \<or> one_block kpb (base + off) n"
  shows "reads weak huff TYPE('a::len) [] arr key_len off n base kpb depth"
  unfolding reads_def
proof (intro allI impI conjI)
  fix v :: "'a word bit_vector" and pre post :: "bool list" and j key
  show "skip_rec huff v (length pre) key_len off n base kpb depth = Some (length pre + length [])"
    using assms by (subst skip_rec.simps) auto
  show "locates weak huff v (length pre) key key_len off n base kpb depth"
    using assms unfolding locates_def by (subst locate_rec.simps) auto
  assume j: "j < n"
  have "locate_rec weak huff v (length pre) (arr ! (off + j)) key_len off n base kpb depth = Some (0, length pre)"
    using assms by (subst locate_rec.simps) auto
  moreover have "(base + off + 0) div kpb = (base + off + j) div kpb"
    using assms one_block_same[of kpb "base + off" n j] j by (cases "j = 0") auto
  ultimately show "finds weak huff v (length pre) (arr ! (off + j)) key_len off n base kpb depth j"
    unfolding finds_def by (intro exI[of _ 0] exI[of _ "length pre"]) simp
qed

lemma reads_node:
  assumes block: "block_type TYPE('a::len)" and trie: "trie_ok weak huff"
    and n: "2 \<le> n" "n < 2 ^ 63" "\<not> one_block kpb (base + off) n" and depth: "depth < key_len * 8"
    and lft: "lft \<le> n" "weak \<Longrightarrow> lft < n"
    and lo: "\<And>i. i < lft \<Longrightarrow> get_bit_at (arr ! (off + i)) depth = Some False"
    and hi: "\<And>i. lft \<le> i \<Longrightarrow> i < n \<Longrightarrow>
      \<exists>b. get_bit_at (arr ! (off + i)) depth = Some b \<and> (b \<or> weak \<and> lft = 0)"
    and l: "reads weak huff TYPE('a) cl arr key_len off lft base kpb (depth + 1)"
    and r: "reads weak huff TYPE('a) cr arr key_len (off + lft) (n - lft) base kpb (depth + 1)"
  shows "reads weak huff TYPE('a) (left_code huff n lft @ cl @ cr) arr key_len off n base kpb depth"
  unfolding reads_def
proof (intro allI impI)
  fix v :: "'a word bit_vector" and pre post :: "bool list"
  assume v: "bv_wf v \<and> bits v = pre @ (left_code huff n lft @ cl @ cr) @ post"
  let ?p1 = "pre @ left_code huff n lft" and ?p2 = "pre @ left_code huff n lft @ cl"
  have dec: "decode_left huff v (length pre) n = Some (lft, length ?p1)"
    using decode_left_ok[OF block _ trie n(1,2) lft, of v pre] v by simp
  have L: "skip_rec huff v (length ?p1) key_len off lft base kpb (depth + 1) = Some (length ?p2)"
      "\<And>j. j < lft \<Longrightarrow> finds weak huff v (length ?p1) (arr ! (off + j)) key_len off lft base kpb (depth + 1) j"
      "\<And>key. length key = key_len \<Longrightarrow> locates weak huff v (length ?p1) key key_len off lft base kpb (depth + 1)"
    using l[unfolded reads_def, rule_format, of v ?p1 "cr @ post"] v by auto
  have R: "skip_rec huff v (length ?p2) key_len (off + lft) (n - lft) base kpb (depth + 1) = Some (length ?p2 + length cr)"
      "\<And>j. j < n - lft \<Longrightarrow> finds weak huff v (length ?p2) (arr ! (off + lft + j)) key_len (off + lft) (n - lft) base kpb (depth + 1) j"
      "\<And>key. length key = key_len \<Longrightarrow> locates weak huff v (length ?p2) key key_len (off + lft) (n - lft) base kpb (depth + 1)"
    using r[unfolded reads_def, rule_format, of v ?p2 post] v by auto
  have skip: "skip_rec huff v (length pre) key_len off n base kpb depth = Some (length ?p2 + length cr)"
    using n depth dec L(1) R(1) lft(1) by (subst skip_rec.simps) simp
  have find: "finds weak huff v (length pre) (arr ! (off + j)) key_len off n base kpb depth j" if j: "j < n" for j
  proof (cases "j < lft")
    case True
    have "locate_rec weak huff v (length pre) (arr ! (off + j)) key_len off n base kpb depth =
        locate_rec weak huff v (length ?p1) (arr ! (off + j)) key_len off lft base kpb (depth + 1)"
      using n depth dec lft(1) lo[OF True] True by (subst locate_rec.simps) simp
    then show ?thesis using L(2)[OF True] unfolding finds_def by simp
  next
    case False
    then obtain b where b: "get_bit_at (arr ! (off + j)) depth = Some b" "b \<or> weak \<and> lft = 0"
      using hi[of j] j by auto
    have jr: "j - lft < n - lft" "arr ! (off + lft + (j - lft)) = arr ! (off + j)" using False j by auto
    obtain x it' where x: "locate_rec weak huff v (length ?p2) (arr ! (off + j)) key_len (off + lft) (n - lft) base kpb (depth + 1) = Some (x, it')"
        "x \<le> j - lft" "(base + (off + lft) + x) div kpb = (base + (off + lft) + (j - lft)) div kpb"
      using R(2)[OF jr(1)] jr(2) unfolding finds_def by auto
    have "locate_rec weak huff v (length pre) (arr ! (off + j)) key_len off n base kpb depth = Some (lft + x, it')"
      using n depth dec lft(1) b L(1) x(1) by (subst locate_rec.simps) auto
    then show ?thesis
      using x(2,3) False unfolding finds_def by (intro exI[of _ "lft + x"] exI[of _ it']) (simp add: add.assoc)
  qed
  have total: "locates weak huff v (length pre) key key_len off n base kpb depth" if key: "length key = key_len" for key
  proof -
    have bit: "get_bit_at key depth = Some (bitat key depth)" using depth key by (intro get_bit_at_eq) auto
    show ?thesis
    proof (cases "\<not> bitat key depth \<and> (\<not> weak \<or> lft \<noteq> 0)")
      case True
      then have "locate_rec weak huff v (length pre) key key_len off n base kpb depth =
          locate_rec weak huff v (length ?p1) key key_len off lft base kpb (depth + 1)"
        using n depth dec lft(1) bit by (subst locate_rec.simps) simp
      then show ?thesis using L(3)[OF key] lft(1) unfolding locates_def by force
    next
      case False
      obtain x it' where x: "locate_rec weak huff v (length ?p2) key key_len (off + lft) (n - lft) base kpb (depth + 1) = Some (x, it')"
          "x \<le> n - lft" using R(3)[OF key] unfolding locates_def by blast
      have "locate_rec weak huff v (length pre) key key_len off n base kpb depth = Some (lft + x, it')"
        using n depth dec lft(1) bit False L(1) x(1) by (subst locate_rec.simps) auto
      then show ?thesis using x(2) lft(1) unfolding locates_def by simp
    qed
  qed
  show "skip_rec huff v (length pre) key_len off n base kpb depth =
      Some (length pre + length (left_code huff n lft @ cl @ cr)) \<and>
    (\<forall>j<n. finds weak huff v (length pre) (arr ! (off + j)) key_len off n base kpb depth j) \<and>
    (\<forall>key. length key = key_len \<longrightarrow> locates weak huff v (length pre) key key_len off n base kpb depth)"
    using skip find total by simp
qed

text \<open>The code of a group, as a list of bits.\<close>

function trie_code :: "bool \<Rightarrow> huffman list \<Rightarrow> bytes list \<Rightarrow> nat \<Rightarrow> nat \<Rightarrow> nat \<Rightarrow> nat \<Rightarrow> nat \<Rightarrow> nat \<Rightarrow> bool list" where
  "trie_code weak huff arr key_len off n base kpb depth =
     (if n \<le> 1 \<or> one_block kpb (base + off) n \<or> \<not> depth < key_len * 8 then []
      else case count_left arr off depth n of
          None \<Rightarrow> []
        | Some l \<Rightarrow> (let lft = (if weak \<and> l = n then 0 else l) in
            left_code huff n lft @ trie_code weak huff arr key_len off lft base kpb (depth + 1) @
            trie_code weak huff arr key_len (off + lft) (n - lft) base kpb (depth + 1)))"
  by pat_completeness auto
termination
  by (relation "measure (\<lambda>(weak, huff, arr, key_len, off, n, base, kpb, depth). key_len * 8 - depth)") auto

declare trie_code.simps [simp del]

lemma trie_code_small: "n \<le> 1 \<Longrightarrow> trie_code weak huff arr key_len off n base kpb depth = []"
  by (subst trie_code.simps) simp

lemma encode_rec_ok:
  assumes block: "block_type TYPE('a::len)" and trie: "trie_ok weak huff" and n: "n < 2 ^ 63"
    and g: "group_ok arr key_len off n depth" and v: "bv_wf v"
  shows "(\<exists>v'. encode_rec weak huff v arr key_len off n base kpb depth = Some (v' :: 'a word bit_vector) \<and> bv_wf v' \<and>
      bits v' = bits v @ trie_code weak huff arr key_len off n base kpb depth) \<and>
    reads weak huff TYPE('a) (trie_code weak huff arr key_len off n base kpb depth) arr key_len off n base kpb depth"
  using n g v
proof (induction "key_len * 8 - depth" arbitrary: off n depth v rule: less_induct)
  case less
  show ?case
  proof (cases "n \<le> 1 \<or> one_block kpb (base + off) n")
    case True
    then have "encode_rec weak huff v arr key_len off n base kpb depth = Some v"
      "trie_code weak huff arr key_len off n base kpb depth = []"
      by (subst encode_rec.simps trie_code.simps, auto)+
    then show ?thesis using less.prems(3) reads_empty[OF True] by simp
  next
    case False
    then have n2: "2 \<le> n" "\<not> one_block kpb (base + off) n" by auto
    have depth: "depth < key_len * 8" using group_depth[OF less.prems(2) n2(1)] .
    obtain l lft where s: "count_left arr off depth n = Some l" "lft = (if weak \<and> l = n then 0 else l)"
      "lft \<le> n" "weak \<Longrightarrow> lft < n"
      "group_ok arr key_len off lft (depth + 1)" "group_ok arr key_len (off + lft) (n - lft) (depth + 1)"
      "\<And>i. i < lft \<Longrightarrow> \<not> bitat (arr ! (off + i)) depth"
      "\<And>i. lft \<le> i \<Longrightarrow> i < n \<Longrightarrow> bitat (arr ! (off + i)) depth \<or> weak \<and> lft = 0"
      by (rule group_split[OF less.prems(2) n2(1), of weak]) blast
    let ?cl = "trie_code weak huff arr key_len off lft base kpb (depth + 1)"
    let ?cr = "trie_code weak huff arr key_len (off + lft) (n - lft) base kpb (depth + 1)"
    have code: "trie_code weak huff arr key_len off n base kpb depth = left_code huff n lft @ ?cl @ ?cr"
      using False depth s(1,2) by (subst trie_code.simps) (simp add: Let_def)
    obtain v1 where v1: "encode_left huff v n lft = Some v1" "bv_wf v1" "bits v1 = bits v @ left_code huff n lft"
      using encode_left_ok[OF block less.prems(3) trie n2(1) less.prems(1) s(3,4)] by blast
    have m: "key_len * 8 - (depth + 1) < key_len * 8 - depth" using depth by simp
    have small: "lft < 2 ^ 63" "n - lft < 2 ^ 63"
      using less.prems(1) s(3) by (auto intro: le_less_trans)
    obtain v2 where v2: "encode_rec weak huff v1 arr key_len off lft base kpb (depth + 1) = Some v2" "bv_wf v2"
      "bits v2 = bits v1 @ ?cl" "reads weak huff TYPE('a) ?cl arr key_len off lft base kpb (depth + 1)"
      using less.hyps[OF m small(1) s(5) v1(2)] by blast
    obtain v3 where v3: "encode_rec weak huff v2 arr key_len (off + lft) (n - lft) base kpb (depth + 1) = Some v3" "bv_wf v3"
      "bits v3 = bits v2 @ ?cr" "reads weak huff TYPE('a) ?cr arr key_len (off + lft) (n - lft) base kpb (depth + 1)"
      using less.hyps[OF m small(2) s(6) v2(2)] by blast
    have run: "encode_rec weak huff v arr key_len off n base kpb depth = Some v3"
      using n2 depth s(1,2) v1(1) v2(1) v3(1) by (subst encode_rec.simps) (simp add: Let_def)
    have "get_bit_at (arr ! (off + i)) depth = Some (bitat (arr ! (off + i)) depth)" if "i < n" for i
      using group_okD(3)[OF less.prems(2) that depth] .
    then have "reads weak huff TYPE('a) (left_code huff n lft @ ?cl @ ?cr) arr key_len off n base kpb depth"
      using s(3,7,8) by (intro reads_node[OF block trie n2(1) less.prems(1) n2(2) depth s(3,4) _ _ v2(4) v3(4)]) auto
    then show ?thesis using run v1(3) v2(3) v3(2,3) unfolding code by simp
  qed
qed

section \<open>The order of keys\<close>

text \<open>The sign of \<^verbatim>\<open>memcmp\<close> over the bytes of two keys.\<close>

fun memcmp :: "bytes \<Rightarrow> bytes \<Rightarrow> int" where
  "memcmp (x # xs) (y # ys) = (if x < y then - 1 else if y < x then 1 else memcmp xs ys)"
| "memcmp xs ys = 0"

lemma top_difference:
  assumes "(x :: byte) < y"
  shows "\<exists>j<8. (\<forall>i<j. bit x (7 - i) = bit y (7 - i)) \<and> \<not> bit x (7 - j) \<and> bit y (7 - j)"
proof -
  let ?D = "{k. bit x k \<noteq> bit y k}"
  have fin: "finite ?D" by (rule finite_subset[of _ "{..<8}"]) (auto dest: bit_imp_le_length)
  have "x \<noteq> y" using assms by simp
  then have ne: "?D \<noteq> {}" using bit_word_eqI[of x y] by auto
  define k where "k = Max ?D"
  have k: "bit x k \<noteq> bit y k" "\<And>m. k < m \<Longrightarrow> bit x m = bit y m"
    using Max_in[OF fin ne] Max_ge[OF fin] by (fastforce simp: k_def)+
  have k8: "k < 8" using k(1) by (auto dest: bit_imp_le_length)
  have up: "drop_bit (Suc k) (unat x) = drop_bit (Suc k) (unat y)"
    using k(2) by (intro bit_eqI) (simp add: bit_simps bit_drop_bit_eq)
  have split: "drop_bit k (unat w) = 2 * drop_bit (Suc k) (unat w) + of_bool (bit w k)" for w :: byte
  proof -
    have "drop_bit k (unat w) = 2 * (drop_bit k (unat w) div 2) + drop_bit k (unat w) mod 2" by simp
    moreover have "drop_bit k (unat w) div 2 = drop_bit (Suc k) (unat w)"
      by (simp add: drop_bit_eq_div power_Suc2 flip: div_mult2_eq del: power_Suc drop_bit_Suc)
    moreover have "drop_bit k (unat w) mod 2 = of_bool (bit w k)"
    proof -
      have "odd (drop_bit k (unat w)) \<longleftrightarrow> bit w k"
        unfolding bit_iff_odd_drop_bit[symmetric] by (auto simp: bit_unsigned_iff dest: bit_imp_le_length)
      then show ?thesis by (cases "bit w k") (auto simp: mod2_eq_if)
    qed
    ultimately show ?thesis by simp
  qed
  have "drop_bit k (unat x) \<le> drop_bit k (unat y)"
    using assms by (simp add: drop_bit_eq_div div_le_mono word_less_nat_alt)
  then have "\<not> bit x k" "bit y k" using k(1) up split[of x] split[of y] by auto
  then show ?thesis
    using k k8 by (intro exI[of _ "7 - k"]) auto
qed

lemma bitat_Cons: "bitat (x # xs) i = (if i < 8 then bit (x :: byte) (7 - i) else bitat xs (i - 8))"
proof (cases "i < 8")
  case False
  then obtain j where "i = j + 8" by (metis add.commute le_Suc_ex not_less)
  moreover have "(j + 8) div 8 = Suc (j div 8)" by simp
  ultimately show ?thesis by (simp only: bitat_def) simp
qed (simp add: bitat_def)

lemma memcmp_key_less:
  "length xs = length ys \<Longrightarrow> memcmp xs ys < 0 \<Longrightarrow> key_less (length xs) xs ys"
proof (induction xs ys rule: list_induct2)
  case (Cons x xs y ys)
  show ?case
  proof (cases "x < y")
    case True
    then obtain j where "j < 8" "\<forall>i<j. bit x (7 - i) = bit y (7 - i)" "\<not> bit x (7 - j)" "bit y (7 - j)"
      using top_difference by blast
    then show ?thesis
      unfolding key_less_def by (intro exI[of _ j]) (auto simp: bitat_Cons)
  next
    case False
    then have "x = y" "memcmp xs ys < 0" using Cons.prems by (auto split: if_splits)
    then obtain d where "d < length xs * 8" "\<forall>i<d. bitat xs i = bitat ys i" "\<not> bitat xs d" "bitat ys d"
      using Cons.IH unfolding key_less_def by blast
    then show ?thesis
      unfolding key_less_def using \<open>x = y\<close> by (intro exI[of _ "d + 8"]) (auto simp: bitat_Cons)
  qed
qed simp

lemma memcmp_trans: "memcmp xs ys < 0 \<Longrightarrow> memcmp ys zs < 0 \<Longrightarrow> memcmp xs zs < 0"
proof (induction xs ys arbitrary: zs rule: memcmp.induct)
  case (1 x xs y ys)
  then show ?case by (cases zs) (auto split: if_splits)
qed auto

end
