(* ===== verification/Bucketing.thy ===== *)
theory Bucketing
  imports Prelude "HOL-Library.Monad_Syntax"
begin

unbundle bit_operations_syntax

text \<open>
  The tables of bucket offsets of the compact index: the interface of the template argument
  \<open>BucketingType\<close> of \<^verbatim>\<open>bucketing_index\<close>, and the implementations \<^verbatim>\<open>flat_absoff_bucketing\<close> and
  \<^verbatim>\<open>twolevel_absoff_bucketing\<close> of \<^verbatim>\<open>src/siltds/cindex\<close>. A table maps a bucket number to the
  position of its code and the number of keys before it. \<open>None\<close> is a failed assertion, an access
  outside a vector or a division by zero. \<^verbatim>\<open>guarded_cast\<close> is a plain cast.
\<close>

section \<open>The interface\<close>

record 'b bucketing_ops =
  op_new :: "'b option"
  op_resize :: "'b \<Rightarrow> nat \<Rightarrow> nat \<Rightarrow> nat \<Rightarrow> 'b option"
  op_insert :: "'b \<Rightarrow> nat \<Rightarrow> nat \<Rightarrow> 'b option"
  op_finalize :: "'b \<Rightarrow> 'b"
  op_index_offset :: "'b \<Rightarrow> nat \<Rightarrow> nat option"
  op_dest_offset :: "'b \<Rightarrow> nat \<Rightarrow> nat option"
  op_bit_size :: "'b \<Rightarrow> nat"

text \<open>
  \<open>rep b sz k es\<close>: the table \<open>b\<close> for \<open>sz\<close> entries and \<open>k\<close> keys per bucket holds the pairs
  \<open>es\<close>. \<open>fits k es\<close>: the widths of the fields suffice for \<open>es\<close>.
\<close>

locale bucketing =
  fixes ops :: "'b bucketing_ops"
    and rep :: "'b \<Rightarrow> nat \<Rightarrow> nat \<Rightarrow> (nat \<times> nat) list \<Rightarrow> bool"
    and fits :: "nat \<Rightarrow> (nat \<times> nat) list \<Rightarrow> bool"
  assumes create: "0 < k \<Longrightarrow> \<exists>b0 b. op_new ops = Some b0 \<and> op_resize ops b0 sz k kpb = Some b \<and> rep b sz k []"
    and insert: "rep b sz k es \<Longrightarrow> length es < sz \<Longrightarrow> fits k (es @ [(i, d)]) \<Longrightarrow>
      \<exists>b'. op_insert ops b i d = Some b' \<and> rep b' sz k (es @ [(i, d)])"
    and lookup: "rep b sz k es \<Longrightarrow> j < length es \<Longrightarrow>
      op_index_offset ops b j = Some (fst (es ! j)) \<and> op_dest_offset ops b j = Some (snd (es ! j))"
    and finalize: "rep b sz k es \<Longrightarrow> rep (op_finalize ops b) sz k es"
    and prefix: "fits k (es @ es') \<Longrightarrow> fits k es"

definition vector_resize :: "'x list \<Rightarrow> nat \<Rightarrow> 'x \<Rightarrow> 'x list" where
  "vector_resize xs n x = take n xs @ replicate (n - length xs) x"

lemma length_vector_resize [simp]: "length (vector_resize xs n x) = n"
  by (simp add: vector_resize_def)

section \<open>\<^verbatim>\<open>flat_absoff_bucketing\<close>\<close>

record flat_bucketing =
  f_size :: nat
  f_bucket_info :: "(u32 \<times> u32) list"
  f_current_i :: nat

definition flat_resize :: "flat_bucketing \<Rightarrow> nat \<Rightarrow> nat \<Rightarrow> nat \<Rightarrow> flat_bucketing option" where
  "flat_resize b sz keys_per_bucket keys_per_block =
     Some (b\<lparr>f_size := sz, f_bucket_info := vector_resize (f_bucket_info b) sz (0, 0), f_current_i := 0\<rparr>)"

definition flat_new :: "flat_bucketing option" where
  "flat_new = flat_resize \<lparr>f_size = 0, f_bucket_info = [], f_current_i = 0\<rparr> 0 1 1"

definition flat_index_offset :: "flat_bucketing \<Rightarrow> nat \<Rightarrow> nat option" where
  "flat_index_offset b i =
     (if i < f_size b \<and> i < length (f_bucket_info b) then Some (unat (fst (f_bucket_info b ! i))) else None)"

definition flat_dest_offset :: "flat_bucketing \<Rightarrow> nat \<Rightarrow> nat option" where
  "flat_dest_offset b i =
     (if i < f_size b \<and> i < length (f_bucket_info b) then Some (unat (snd (f_bucket_info b ! i))) else None)"

definition flat_insert :: "flat_bucketing \<Rightarrow> nat \<Rightarrow> nat \<Rightarrow> flat_bucketing option" where
  "flat_insert b index_offset dest_offset =
     (let i = f_current_i b in
      if i < f_size b \<and> i < length (f_bucket_info b)
      then let b' = b\<lparr>f_bucket_info := (f_bucket_info b)[i := (word_of_nat index_offset, word_of_nat dest_offset)]\<rparr> in
        if flat_index_offset b' i = Some index_offset \<and> flat_dest_offset b' i = Some dest_offset
        then Some (b'\<lparr>f_current_i := i + 1\<rparr>) else None
      else None)"

definition flat_bit_size :: "flat_bucketing \<Rightarrow> nat" where
  "flat_bit_size b = length (f_bucket_info b) * 2 * 4 * 8"

definition flat_ops :: "flat_bucketing bucketing_ops" where
  "flat_ops = \<lparr>op_new = flat_new, op_resize = flat_resize, op_insert = flat_insert, op_finalize = id,
     op_index_offset = flat_index_offset, op_dest_offset = flat_dest_offset, op_bit_size = flat_bit_size\<rparr>"

definition flat_rep :: "flat_bucketing \<Rightarrow> nat \<Rightarrow> nat \<Rightarrow> (nat \<times> nat) list \<Rightarrow> bool" where
  "flat_rep b sz k es \<longleftrightarrow> f_size b = sz \<and> length (f_bucket_info b) = sz \<and> f_current_i b = length es \<and>
     length es \<le> sz \<and>
     (\<forall>j<length es. unat (fst (f_bucket_info b ! j)) = fst (es ! j) \<and> unat (snd (f_bucket_info b ! j)) = snd (es ! j))"

definition flat_fits :: "nat \<Rightarrow> (nat \<times> nat) list \<Rightarrow> bool" where
  "flat_fits k es \<longleftrightarrow> (\<forall>(i, d)\<in>set es. i < 2 ^ 32 \<and> d < 2 ^ 32)"

lemma unat_word_of_nat: "n < 2 ^ LENGTH('a) \<Longrightarrow> unat (word_of_nat n :: 'a::len word) = n"
  by (simp add: unsigned_of_nat take_bit_nat_eq_self)

interpretation flat: bucketing flat_ops flat_rep flat_fits
proof
  fix k sz kpb :: nat
  assume "0 < k"
  show "\<exists>b0 b. op_new flat_ops = Some b0 \<and> op_resize flat_ops b0 sz k kpb = Some b \<and> flat_rep b sz k []"
    by (simp add: flat_ops_def flat_new_def flat_resize_def flat_rep_def)
next
  fix b sz k es i d
  assume rep: "flat_rep b sz k es" and room: "length es < sz" and fits: "flat_fits k (es @ [(i, d)])"
  let ?b = "b\<lparr>f_bucket_info := (f_bucket_info b)[length es := (word_of_nat i, word_of_nat d)], f_current_i := length es + 1\<rparr>"
  have small: "unat (word_of_nat i :: u32) = i" "unat (word_of_nat d :: u32) = d"
    using fits by (auto simp: flat_fits_def intro!: unat_word_of_nat)
  have "flat_insert b i d = Some ?b"
    using rep room small
    by (simp add: flat_insert_def flat_rep_def flat_index_offset_def flat_dest_offset_def Let_def)
  moreover have "flat_rep ?b sz k (es @ [(i, d)])"
    using rep room small unfolding flat_rep_def by (auto simp: nth_append nth_list_update less_Suc_eq)
  ultimately show "\<exists>b'. op_insert flat_ops b i d = Some b' \<and> flat_rep b' sz k (es @ [(i, d)])"
    by (auto simp: flat_ops_def)
next
  fix b sz k es j
  assume "flat_rep b sz k es" "j < length es"
  then show "op_index_offset flat_ops b j = Some (fst (es ! j)) \<and> op_dest_offset flat_ops b j = Some (snd (es ! j))"
    by (simp add: flat_ops_def flat_index_offset_def flat_dest_offset_def flat_rep_def)
qed (auto simp: flat_ops_def flat_fits_def)

section \<open>\<^verbatim>\<open>twolevel_absoff_bucketing\<close>\<close>

record twolevel_bucketing =
  t_size :: nat
  t_keys_per_bucket :: nat
  t_upper_bucket_size :: nat
  t_bucket_info :: "(u16 \<times> u16) list"
  t_upper_bucket_info :: "(u32 \<times> u32) list"
  t_current_i :: nat

definition upper_bucket_size :: "nat \<Rightarrow> nat" where
  "upper_bucket_size keys_per_bucket =
     (let u = 2 ^ 16 div (4 * keys_per_bucket) in if u = 0 then 1 else u)"

text \<open>The division by the number of keys per bucket traps when that number is zero.\<close>

definition twolevel_resize :: "twolevel_bucketing \<Rightarrow> nat \<Rightarrow> nat \<Rightarrow> nat \<Rightarrow> twolevel_bucketing option" where
  "twolevel_resize b sz keys_per_bucket keys_per_block =
     (if 4 * keys_per_bucket = 0 then None
      else let u = upper_bucket_size keys_per_bucket in
        Some (b\<lparr>t_size := sz, t_keys_per_bucket := keys_per_bucket, t_upper_bucket_size := u,
          t_bucket_info := vector_resize (t_bucket_info b) sz (0, 0),
          t_upper_bucket_info := (vector_resize (t_upper_bucket_info b) (sz div u + 2) (0, 0))[0 := (0, 0)],
          t_current_i := 0\<rparr>))"

definition twolevel_new :: "twolevel_bucketing option" where
  "twolevel_new = twolevel_resize \<lparr>t_size = 0, t_keys_per_bucket = 0, t_upper_bucket_size = 0,
     t_bucket_info = [], t_upper_bucket_info = [], t_current_i = 0\<rparr> 0 1 1"

definition upper_index_offset :: "twolevel_bucketing \<Rightarrow> nat \<Rightarrow> nat option" where
  "upper_index_offset b i =
     (if i < t_size b div t_upper_bucket_size b + 1 \<and> i < length (t_upper_bucket_info b)
      then Some (unat (fst (t_upper_bucket_info b ! i))) else None)"

definition upper_dest_offset :: "twolevel_bucketing \<Rightarrow> nat \<Rightarrow> nat option" where
  "upper_dest_offset b i =
     (if i < t_size b div t_upper_bucket_size b + 1 \<and> i < length (t_upper_bucket_info b)
      then Some (unat (snd (t_upper_bucket_info b ! i))) else None)"

text \<open>
  The differences are computed on 64 bits and cut to 16; the assertions that would notice a
  difference that does not fit are commented out in the source.
\<close>

definition twolevel_insert :: "twolevel_bucketing \<Rightarrow> nat \<Rightarrow> nat \<Rightarrow> twolevel_bucketing option" where
  "twolevel_insert b index_offset dest_offset =
     (let i = t_current_i b; g = i div t_upper_bucket_size b in
      if i < t_size b \<and> i < length (t_bucket_info b) \<and> g + 1 < length (t_upper_bucket_info b)
      then do {
        base_index_offset \<leftarrow> upper_index_offset b g;
        base_dest_offset \<leftarrow> upper_dest_offset b g;
        Some (b\<lparr>
          t_bucket_info := (t_bucket_info b)[i :=
            (ucast (word_of_nat index_offset - word_of_nat base_index_offset :: u64),
             ucast (word_of_nat dest_offset - word_of_nat base_dest_offset :: u64))],
          t_upper_bucket_info := (t_upper_bucket_info b)[g + 1 := (word_of_nat index_offset, word_of_nat dest_offset)],
          t_current_i := i + 1\<rparr>)
      } else None)"

definition twolevel_index_offset :: "twolevel_bucketing \<Rightarrow> nat \<Rightarrow> nat option" where
  "twolevel_index_offset b i =
     (if i < t_size b \<and> i < length (t_bucket_info b)
      then map_option (\<lambda>base. base + unat (fst (t_bucket_info b ! i))) (upper_index_offset b (i div t_upper_bucket_size b))
      else None)"

definition twolevel_dest_offset :: "twolevel_bucketing \<Rightarrow> nat \<Rightarrow> nat option" where
  "twolevel_dest_offset b i =
     (if i < t_size b \<and> i < length (t_bucket_info b)
      then map_option (\<lambda>base. base + unat (snd (t_bucket_info b ! i))) (upper_dest_offset b (i div t_upper_bucket_size b))
      else None)"

definition twolevel_bit_size :: "twolevel_bucketing \<Rightarrow> nat" where
  "twolevel_bit_size b = length (t_bucket_info b) * 2 * 2 * 8 + length (t_upper_bucket_info b) * 2 * 4 * 8"

definition twolevel_ops :: "twolevel_bucketing bucketing_ops" where
  "twolevel_ops = \<lparr>op_new = twolevel_new, op_resize = twolevel_resize, op_insert = twolevel_insert,
     op_finalize = id, op_index_offset = twolevel_index_offset, op_dest_offset = twolevel_dest_offset,
     op_bit_size = twolevel_bit_size\<rparr>"

text \<open>
  The base of group \<open>g\<close> is the last entry of the group before it. The table holds every entry
  whose distance from its base fits in 16 bits.
\<close>

definition base_entry :: "nat \<Rightarrow> (nat \<times> nat) list \<Rightarrow> nat \<Rightarrow> nat \<times> nat" where
  "base_entry u es g = (if g = 0 then (0, 0) else es ! (g * u - 1))"

definition twolevel_fits :: "nat \<Rightarrow> (nat \<times> nat) list \<Rightarrow> bool" where
  "twolevel_fits k es \<longleftrightarrow> (\<forall>j<length es. let (bi, bd) = base_entry (upper_bucket_size k) es (j div upper_bucket_size k) in
     fst (es ! j) < 2 ^ 32 \<and> snd (es ! j) < 2 ^ 32 \<and>
     bi \<le> fst (es ! j) \<and> fst (es ! j) < bi + 2 ^ 16 \<and> bd \<le> snd (es ! j) \<and> snd (es ! j) < bd + 2 ^ 16)"

definition twolevel_rep :: "twolevel_bucketing \<Rightarrow> nat \<Rightarrow> nat \<Rightarrow> (nat \<times> nat) list \<Rightarrow> bool" where
  "twolevel_rep b sz k es \<longleftrightarrow> t_size b = sz \<and> t_upper_bucket_size b = upper_bucket_size k \<and>
     length (t_bucket_info b) = sz \<and> length (t_upper_bucket_info b) = sz div upper_bucket_size k + 2 \<and>
     t_current_i b = length es \<and> length es \<le> sz \<and>
     (\<forall>g. g * upper_bucket_size k \<le> length es \<longrightarrow>
        (unat (fst (t_upper_bucket_info b ! g)), unat (snd (t_upper_bucket_info b ! g))) = base_entry (upper_bucket_size k) es g) \<and>
     (\<forall>j<length es. let (bi, bd) = base_entry (upper_bucket_size k) es (j div upper_bucket_size k) in
        bi + unat (fst (t_bucket_info b ! j)) = fst (es ! j) \<and> bd + unat (snd (t_bucket_info b ! j)) = snd (es ! j))"

lemma upper_bucket_size_pos [simp]: "0 < upper_bucket_size k"
  by (simp add: upper_bucket_size_def Let_def)

lemma upper_bucket_size_neq_0 [simp]: "upper_bucket_size k \<noteq> 0"
  using upper_bucket_size_pos[of k] by simp

lemma base_entry_append: "0 < u \<Longrightarrow> g * u \<le> length es \<Longrightarrow> base_entry u (es @ es') g = base_entry u es g"
proof (cases g)
  case (Suc h)
  assume "0 < u" "g * u \<le> length es"
  moreover have "0 < g * u" using \<open>0 < u\<close> Suc by simp
  ultimately have "g * u - 1 < length es" by linarith
  then show ?thesis using Suc by (simp add: base_entry_def nth_append)
qed (simp add: base_entry_def)

lemma group_start: "j < n \<Longrightarrow> j div u * u \<le> (n :: nat)"
  using div_times_less_eq_dividend[of j u] by linarith

lemma cut_difference:
  assumes "base \<le> x" "x < base + 2 ^ 16" "x < 2 ^ 32"
  shows "base + unat (ucast (word_of_nat x - word_of_nat base :: u64) :: u16) = x"
proof -
  have "word_of_nat x - word_of_nat base = (word_of_nat (x - base) :: u64)" using assms(1) by (simp add: of_nat_diff)
  moreover have "unat (word_of_nat (x - base) :: u64) = x - base"
    using assms(3) by (intro unat_word_of_nat) simp
  then have "ucast (word_of_nat (x - base) :: u64) = (word_of_nat (x - base) :: u16)"
    by (metis of_nat_unat)
  moreover have "unat (word_of_nat (x - base) :: u16) = x - base"
    using assms(1,2) by (intro unat_word_of_nat) simp
  ultimately show ?thesis using assms(1) by simp
qed

lemma twolevel_prefix: "twolevel_fits k (es @ es') \<Longrightarrow> twolevel_fits k es"
  unfolding twolevel_fits_def
proof (intro allI impI)
  fix j
  assume all: "\<forall>j<length (es @ es'). let (bi, bd) = base_entry (upper_bucket_size k) (es @ es') (j div upper_bucket_size k) in
     fst ((es @ es') ! j) < 2 ^ 32 \<and> snd ((es @ es') ! j) < 2 ^ 32 \<and>
     bi \<le> fst ((es @ es') ! j) \<and> fst ((es @ es') ! j) < bi + 2 ^ 16 \<and> bd \<le> snd ((es @ es') ! j) \<and> snd ((es @ es') ! j) < bd + 2 ^ 16"
    and j: "j < length es"
  have "base_entry (upper_bucket_size k) (es @ es') (j div upper_bucket_size k) = base_entry (upper_bucket_size k) es (j div upper_bucket_size k)"
    using group_start[OF j] by (intro base_entry_append) auto
  then show "let (bi, bd) = base_entry (upper_bucket_size k) es (j div upper_bucket_size k) in
     fst (es ! j) < 2 ^ 32 \<and> snd (es ! j) < 2 ^ 32 \<and>
     bi \<le> fst (es ! j) \<and> fst (es ! j) < bi + 2 ^ 16 \<and> bd \<le> snd (es ! j) \<and> snd (es ! j) < bd + 2 ^ 16"
    using all[rule_format, of j] j by (simp add: nth_append)
qed

lemma twolevel_insert_rep:
  assumes rep: "twolevel_rep b sz k es" and room: "length es < sz" and fits: "twolevel_fits k (es @ [(i, d)])"
  shows "\<exists>b'. twolevel_insert b i d = Some b' \<and> twolevel_rep b' sz k (es @ [(i, d)])"
proof -
  let ?u = "upper_bucket_size k" and ?m = "length es"
  let ?g = "?m div ?u"
  obtain bi bd where base: "base_entry ?u es ?g = (bi, bd)" by force
  have b: "t_size b = sz" "t_upper_bucket_size b = ?u" "length (t_bucket_info b) = sz"
      "length (t_upper_bucket_info b) = sz div ?u + 2" "t_current_i b = ?m"
    using rep by (auto simp: twolevel_rep_def)
  have upper: "(unat (fst (t_upper_bucket_info b ! g)), unat (snd (t_upper_bucket_info b ! g))) = base_entry ?u es g"
    if "g * ?u \<le> ?m" for g using rep that by (simp add: twolevel_rep_def)
  have entry: "let (bi, bd) = base_entry ?u es (j div ?u) in
        bi + unat (fst (t_bucket_info b ! j)) = fst (es ! j) \<and> bd + unat (snd (t_bucket_info b ! j)) = snd (es ! j)"
    if "j < ?m" for j using rep that by (simp add: twolevel_rep_def)
  have g: "?g * ?u \<le> ?m" "?g \<le> sz div ?u" using room by (auto simp: div_times_less_eq_dividend intro: div_le_mono)
  have bg: "unat (fst (t_upper_bucket_info b ! ?g)) = bi" "unat (snd (t_upper_bucket_info b ! ?g)) = bd"
    using upper[OF g(1)] base by auto
  have small: "i < 2 ^ 32" "d < 2 ^ 32" "bi \<le> i" "i < bi + 2 ^ 16" "bd \<le> d" "d < bd + 2 ^ 16"
    using fits[unfolded twolevel_fits_def, rule_format, of ?m] base base_entry_append[of ?u ?g es "[(i, d)]"] g(1) by auto
  let ?b = "b\<lparr>t_bucket_info := (t_bucket_info b)[?m := (ucast (word_of_nat i - word_of_nat bi :: u64), ucast (word_of_nat d - word_of_nat bd :: u64))],
      t_upper_bucket_info := (t_upper_bucket_info b)[?g + 1 := (word_of_nat i, word_of_nat d)], t_current_i := ?m + 1\<rparr>"
  have run: "twolevel_insert b i d = Some ?b"
    using b g room bg by (simp add: twolevel_insert_def upper_index_offset_def upper_dest_offset_def Let_def)
  have up: "(unat (fst (t_upper_bucket_info ?b ! h)), unat (snd (t_upper_bucket_info ?b ! h))) = base_entry ?u (es @ [(i, d)]) h"
    if h: "h * ?u \<le> Suc ?m" for h
  proof (cases "h * ?u \<le> ?m")
    case True
    then have "h \<le> ?g" by (simp add: less_eq_div_iff_mult_less_eq)
    then show ?thesis using upper[OF True] base_entry_append[OF _ True] by simp
  next
    case False
    then have eq: "h * ?u = Suc ?m" using h by simp
    have "h = ?g + 1"
    proof -
      have "0 < h" using eq by (cases h) auto
      moreover have "(h - 1) * ?u = Suc ?m - ?u" using eq by (simp add: diff_mult_distrib)
      then have "(h - 1) * ?u \<le> ?m" "?m < h * ?u"
        using eq upper_bucket_size_pos[of k] by linarith+
      ultimately show ?thesis using div_nat_eqI[of "?u" "h - 1" ?m] by (simp add: mult.commute)
    qed
    then show ?thesis
      using eq g b(4) small(1,2) by (simp add: base_entry_def unat_word_of_nat)
  qed
  have en: "let (bi, bd) = base_entry ?u (es @ [(i, d)]) (j div ?u) in
        bi + unat (fst (t_bucket_info ?b ! j)) = fst ((es @ [(i, d)]) ! j) \<and> bd + unat (snd (t_bucket_info ?b ! j)) = snd ((es @ [(i, d)]) ! j)"
    if j: "j < Suc ?m" for j
  proof (cases "j = ?m")
    case True
    then show ?thesis
      using base base_entry_append[of ?u ?g es "[(i, d)]"] g(1) room b(3) cut_difference small by simp
  next
    case False
    then have "j < ?m" using j by simp
    moreover have "j div ?u * ?u \<le> ?m" using \<open>j < ?m\<close> by (rule group_start)
    ultimately show ?thesis
      using entry[of j] base_entry_append[of ?u "j div ?u" es "[(i, d)]"] by (simp add: nth_append)
  qed
  have "twolevel_rep ?b sz k (es @ [(i, d)])"
    unfolding twolevel_rep_def using b room up en by simp
  then show ?thesis using run by blast
qed

interpretation twolevel: bucketing twolevel_ops twolevel_rep twolevel_fits
proof
  fix k sz kpb :: nat
  assume "0 < k"
  then show "\<exists>b0 b. op_new twolevel_ops = Some b0 \<and> op_resize twolevel_ops b0 sz k kpb = Some b \<and> twolevel_rep b sz k []"
    by (auto simp: twolevel_ops_def twolevel_new_def twolevel_resize_def twolevel_rep_def base_entry_def Let_def)
next
  show "\<exists>b'. op_insert twolevel_ops b i d = Some b' \<and> twolevel_rep b' sz k (es @ [(i, d)])"
    if "twolevel_rep b sz k es" "length es < sz" "twolevel_fits k (es @ [(i, d)])" for b sz k es i d
    using twolevel_insert_rep[OF that] by (simp add: twolevel_ops_def)
next
  fix b sz k es j
  assume rep: "twolevel_rep b sz k es" and j: "j < length es"
  let ?g = "j div upper_bucket_size k"
  have "?g * upper_bucket_size k \<le> length es" using j by (rule group_start)
  moreover have "?g \<le> sz div upper_bucket_size k" using rep j by (intro div_le_mono) (simp add: twolevel_rep_def)
  ultimately show "op_index_offset twolevel_ops b j = Some (fst (es ! j)) \<and> op_dest_offset twolevel_ops b j = Some (snd (es ! j))"
    using rep j unfolding twolevel_rep_def
    by (simp add: twolevel_ops_def twolevel_index_offset_def twolevel_dest_offset_def upper_index_offset_def
        upper_dest_offset_def split: prod.splits)
      (metis fst_conv snd_conv)
qed (auto simp: twolevel_ops_def intro: twolevel_prefix)

end
