(* ===== verification/Bucketing_Index.thy ===== *)
theory Bucketing_Index
  imports Trie_Correct Bucketing
begin

unbundle bit_operations_syntax

text \<open>
  The compact index of a sorted sequence of keys: \<^verbatim>\<open>src/siltds/cindex/bucketing_index.cpp\<close>. Keys are
  collected per bucket (the bits after the first \<open>skip_bits\<close>), each full bucket is encoded as a
  trie at the end of \<open>repr\<close>, and the table of the bucketing records where. The template argument
  is the record \<open>ops\<close> of the operations of the bucketing. \<open>None\<close> is an aborted run. \<open>uninit\<close> is the
  content of uninitialized stack memory.
\<close>

record 'b bucketing_index =
  ix_key_len :: nat
  ix_n :: nat
  ix_bucket_size :: nat
  ix_dest_base :: nat
  ix_dest_keys_per_block :: nat
  ix_skip_bits :: nat
  ix_bucket_count :: nat
  ix_bucket_bits :: nat
  ix_repr :: "32 word bit_vector"
  ix_trie :: "huffman list"
  ix_bucketing :: 'b
  ix_last_dest_offset :: nat
  ix_pending_bucket :: nat
  ix_pending_keys :: "bytes list"

section \<open>Construction\<close>

text \<open>The loop that finds the number of bits of a bucket number.\<close>

function bucket_bits_loop :: "nat \<Rightarrow> nat \<Rightarrow> nat" where
  "bucket_bits_loop target nbits = (if 2 ^ nbits < target then bucket_bits_loop target (nbits + 1) else nbits)"
  by pat_completeness auto
termination
proof (relation "measure (\<lambda>(target, nbits). target - 2 ^ nbits)")
  fix target nbits :: nat
  assume "2 ^ nbits < target"
  moreover have "(2 :: nat) ^ nbits < 2 ^ (nbits + 1)" by simp
  ultimately show "((target, nbits + 1), target, nbits) \<in> measure (\<lambda>(target, nbits). target - 2 ^ nbits)"
    by (simp add: diff_less_mono2)
qed simp

declare bucket_bits_loop.simps [simp del]

definition bucketing_index_new :: "'b bucketing_ops \<Rightarrow> (nat \<Rightarrow> u32) \<Rightarrow> nat \<Rightarrow> nat \<Rightarrow> nat \<Rightarrow> nat \<Rightarrow> nat \<Rightarrow> nat
    \<Rightarrow> 'b bucketing_index option" where
  "bucketing_index_new ops uninit key_len n bucket_size dest_base dest_keys_per_block skip_bits =
     (if bucket_size = 0 then None
      else let nbits = bucket_bits_loop (n div bucket_size) 0; count = 2 ^ nbits in
        do {
          repr \<leftarrow> bit_vector_new;
          huff \<leftarrow> trie_new uninit False;
          b \<leftarrow> op_new ops;
          b \<leftarrow> op_resize ops b (count + 1) (n div count) dest_keys_per_block;
          b \<leftarrow> op_insert ops b 0 0;
          Some \<lparr>ix_key_len = key_len, ix_n = n, ix_bucket_size = n div count, ix_dest_base = dest_base,
            ix_dest_keys_per_block = dest_keys_per_block, ix_skip_bits = skip_bits, ix_bucket_count = count,
            ix_bucket_bits = nbits, ix_repr = repr, ix_trie = huff, ix_bucketing = b,
            ix_last_dest_offset = 0, ix_pending_bucket = 0, ix_pending_keys = []\<rparr>
        })"

definition finalized :: "'b bucketing_index \<Rightarrow> bool" where
  "finalized ix \<longleftrightarrow> ix_pending_bucket ix = ix_bucket_count ix"

section \<open>Insertion\<close>

text \<open>
  The bucket number, \<open>k\<close> bits of it still to read. The assertion on the length of the key lets the
  position just after the key through.
\<close>

primrec find_bucket_loop :: "'b bucketing_index \<Rightarrow> bytes \<Rightarrow> nat \<Rightarrow> nat \<Rightarrow> nat \<Rightarrow> nat option" where
  "find_bucket_loop ix key nbits idx 0 = Some idx"
| "find_bucket_loop ix key nbits idx (Suc k) =
     (if ix_skip_bits ix + nbits > ix_key_len ix * 8 then None
      else do {
        b \<leftarrow> get_bit_at key (ix_skip_bits ix + nbits);
        find_bucket_loop ix key (nbits + 1) (2 * idx + of_bool b) k
      })"

definition find_bucket :: "'b bucketing_index \<Rightarrow> bytes \<Rightarrow> nat option" where
  "find_bucket ix key = find_bucket_loop ix key 0 0 (ix_bucket_bits ix)"

definition index_pending_keys :: "'b bucketing_ops \<Rightarrow> 'b bucketing_index \<Rightarrow> 'b bucketing_index option" where
  "index_pending_keys ops ix =
     (if ix_pending_bucket ix < ix_bucket_count ix then do {
        repr \<leftarrow> trie_encode False (ix_trie ix) (ix_repr ix) (ix_pending_keys ix) (ix_key_len ix)
                  0 (length (ix_pending_keys ix)) (ix_dest_base ix + ix_last_dest_offset ix)
                  (ix_dest_keys_per_block ix) (ix_skip_bits ix + ix_bucket_bits ix);
        b \<leftarrow> op_insert ops (ix_bucketing ix) (bv_size repr) (ix_last_dest_offset ix + length (ix_pending_keys ix));
        Some (ix\<lparr>ix_repr := repr, ix_pending_bucket := ix_pending_bucket ix + 1, ix_bucketing := b,
          ix_last_dest_offset := ix_last_dest_offset ix + length (ix_pending_keys ix), ix_pending_keys := []\<rparr>)
      } else None)"

text \<open>The loop \<^verbatim>\<open>while (pending_bucket_ < bucket) index_pending_keys()\<close>, \<open>k\<close> rounds of it.\<close>

primrec index_until :: "'b bucketing_ops \<Rightarrow> 'b bucketing_index \<Rightarrow> nat \<Rightarrow> 'b bucketing_index option" where
  "index_until ops ix 0 = Some ix"
| "index_until ops ix (Suc k) = do { ix \<leftarrow> index_pending_keys ops ix; index_until ops ix k }"

text \<open>The keys are copied; the result is false for a key that does not come after the last one.\<close>

definition ix_insert :: "'b bucketing_ops \<Rightarrow> 'b bucketing_index \<Rightarrow> bytes \<Rightarrow> ('b bucketing_index \<times> bool) option" where
  "ix_insert ops ix key =
     (if finalized ix then None
      else do {
        bucket \<leftarrow> find_bucket ix key;
        if bucket < ix_pending_bucket ix \<or>
           ix_pending_keys ix \<noteq> [] \<and> 0 \<le> memcmp (last (ix_pending_keys ix)) (take (ix_key_len ix) key)
        then Some (ix, False)
        else if length key < ix_key_len ix then None
        else do {
          ix \<leftarrow> index_until ops ix (bucket - ix_pending_bucket ix);
          Some (ix\<lparr>ix_pending_keys := ix_pending_keys ix @ [take (ix_key_len ix) key]\<rparr>, True)
        }
      })"

definition ix_flush :: "'b bucketing_ops \<Rightarrow> 'b bucketing_index \<Rightarrow> 'b bucketing_index option" where
  "ix_flush ops ix =
     (if finalized ix then None
      else do {
        ix \<leftarrow> index_until ops ix (ix_bucket_count ix - ix_pending_bucket ix);
        Some (if finalized ix then ix\<lparr>ix_bucketing := op_finalize ops (ix_bucketing ix)\<rparr> else ix)
      })"

section \<open>Lookup\<close>

definition ix_locate :: "'b bucketing_ops \<Rightarrow> 'b bucketing_index \<Rightarrow> bytes \<Rightarrow> nat option" where
  "ix_locate ops ix key =
     (if finalized ix then do {
        bucket \<leftarrow> find_bucket ix key;
        it \<leftarrow> op_index_offset ops (ix_bucketing ix) bucket;
        off \<leftarrow> op_dest_offset ops (ix_bucketing ix) bucket;
        end_off \<leftarrow> op_dest_offset ops (ix_bucketing ix) (bucket + 1);
        (r, it) \<leftarrow> trie_locate False (ix_trie ix) (ix_repr ix) it key (ix_key_len ix) 0 (end_off - off)
                   (ix_dest_base ix + off) (ix_dest_keys_per_block ix) (ix_skip_bits ix + ix_bucket_bits ix);
        Some (off + r)
      } else None)"

definition bit_size_trie_only :: "'b bucketing_index \<Rightarrow> nat option" where
  "bit_size_trie_only ix = (if finalized ix then Some (bv_size (ix_repr ix)) else None)"

definition ix_bit_size :: "'b bucketing_ops \<Rightarrow> 'b bucketing_index \<Rightarrow> nat option" where
  "ix_bit_size ops ix = map_option (\<lambda>s. s + op_bit_size ops (ix_bucketing ix)) (bit_size_trie_only ix)"

text \<open>Inserting a sequence of keys and flushing, the way a store is filled.\<close>

fun ix_insert_all :: "'b bucketing_ops \<Rightarrow> 'b bucketing_index \<Rightarrow> bytes list \<Rightarrow> 'b bucketing_index option" where
  "ix_insert_all ops ix [] = Some ix"
| "ix_insert_all ops ix (k # ks) =
     (case ix_insert ops ix k of Some (ix, True) \<Rightarrow> ix_insert_all ops ix ks | _ \<Rightarrow> None)"

definition ix_build :: "'b bucketing_ops \<Rightarrow> (nat \<Rightarrow> u32) \<Rightarrow> nat \<Rightarrow> nat \<Rightarrow> nat \<Rightarrow> nat \<Rightarrow> nat \<Rightarrow> nat \<Rightarrow> bytes list
    \<Rightarrow> 'b bucketing_index option" where
  "ix_build ops uninit key_len n bucket_size dest_base dest_keys_per_block skip_bits ks = do {
     ix \<leftarrow> bucketing_index_new ops uninit key_len n bucket_size dest_base dest_keys_per_block skip_bits;
     ix \<leftarrow> ix_insert_all ops ix ks;
     ix_flush ops ix
   }"

section \<open>Bucket numbers\<close>

text \<open>The number made of \<open>m\<close> bits of a key from bit \<open>s\<close> on.\<close>

primrec bits_number :: "nat \<Rightarrow> bytes \<Rightarrow> nat \<Rightarrow> nat" where
  "bits_number s key 0 = 0"
| "bits_number s key (Suc m) = 2 * bits_number s key m + of_bool (bitat key (s + m))"

lemma bits_number_less: "bits_number s key m < 2 ^ m"
  by (induction m) auto

lemma bits_number_inj:
  "bits_number s k m = bits_number s k' m \<Longrightarrow> i < m \<Longrightarrow> bitat k (s + i) = bitat k' (s + i)"
proof (induction m)
  case (Suc m)
  have "bits_number s k m = bits_number s k' m \<and> bitat k (s + m) = bitat k' (s + m)"
    using Suc.prems(1) by (auto simp: of_bool_def split: if_splits) presburger+
  then show ?case using Suc.IH Suc.prems(2) by (cases "i = m") auto
qed simp

lemma bits_number_cong: "(\<And>i. i < m \<Longrightarrow> bitat k (s + i) = bitat k' (s + i)) \<Longrightarrow> bits_number s k m = bits_number s k' m"
  by (induction m) auto

lemma bits_number_less_from:
  "bits_number s k d < bits_number s k' d \<Longrightarrow> d \<le> m \<Longrightarrow> bits_number s k m < bits_number s k' m"
proof (induction m)
  case (Suc m)
  then show ?case by (cases "d = Suc m") (auto simp: of_bool_def)
qed simp

lemma bits_number_mono:
  assumes "key_less key_len k k'" "\<And>i. i < s \<Longrightarrow> bitat k i = bitat k' i"
  shows "bits_number s k m \<le> bits_number s k' m"
proof -
  obtain d where d: "\<forall>i<d. bitat k i = bitat k' i" "\<not> bitat k d" "bitat k' d"
    using assms(1) by (auto simp: key_less_def)
  have s: "s \<le> d" using assms(2) d(2,3) by (meson not_le)
  show ?thesis
  proof (cases "s + m \<le> d")
    case True
    then have "bits_number s k m = bits_number s k' m" using d(1) by (intro bits_number_cong) simp
    then show ?thesis by simp
  next
    case False
    have "bits_number s k (d - s) = bits_number s k' (d - s)" using d(1) by (intro bits_number_cong) simp
    then have "bits_number s k (Suc (d - s)) < bits_number s k' (Suc (d - s))"
      using d(2,3) s by simp
    moreover have "Suc (d - s) \<le> m" using False s by linarith
    ultimately show ?thesis by (rule less_imp_le[OF bits_number_less_from])
  qed
qed

lemma find_bucket_loop_ok:
  assumes "ix_skip_bits ix + nbits + m \<le> ix_key_len ix * 8" "length key = ix_key_len ix"
    and "acc = bits_number (ix_skip_bits ix) key nbits"
  shows "find_bucket_loop ix key nbits acc m = Some (bits_number (ix_skip_bits ix) key (nbits + m))"
  using assms(1,3)
proof (induction m arbitrary: nbits acc)
  case (Suc m)
  have "get_bit_at key (ix_skip_bits ix + nbits) = Some (bitat key (ix_skip_bits ix + nbits))"
    using Suc.prems(1) assms(2) by (intro get_bit_at_eq) auto
  then show ?case using Suc.IH[of "nbits + 1"] Suc.prems by simp
qed simp

lemma find_bucket_ok:
  assumes "ix_skip_bits ix + ix_bucket_bits ix \<le> ix_key_len ix * 8" "length key = ix_key_len ix"
  shows "find_bucket ix key = Some (bits_number (ix_skip_bits ix) key (ix_bucket_bits ix))"
  using find_bucket_loop_ok[of ix 0 "ix_bucket_bits ix" key 0] assms by (simp add: find_bucket_def)

lemma bucket_bits_loop_ge: "target \<le> 2 ^ bucket_bits_loop target nbits"
  by (induction target nbits rule: bucket_bits_loop.induct) (subst bucket_bits_loop.simps, auto)

end
