(* ===== verification/Index_Correct.thy ===== *)
theory Index_Correct
  imports Bucketing_Index
begin

text \<open>
  Correctness of the compact index over any bucketing that keeps the laws of the locale
  \<open>bucketing\<close>: the layout of the codes, the invariant of insertion, and lookup.
\<close>

section \<open>Lists sorted by a key\<close>

lemma sorted_three_parts:
  fixes f :: "'x \<Rightarrow> nat"
  assumes "sorted (map f xs)"
  shows "xs = filter (\<lambda>x. f x < b) xs @ filter (\<lambda>x. f x = b) xs @ filter (\<lambda>x. b < f x) xs"
  using assms
proof (induction xs)
  case (Cons x xs)
  then have ih: "xs = filter (\<lambda>x. f x < b) xs @ filter (\<lambda>x. f x = b) xs @ filter (\<lambda>x. b < f x) xs"
    and ge: "\<And>y. y \<in> set xs \<Longrightarrow> f x \<le> f y" by auto
  have "filter (\<lambda>x. f x < b) xs = []" if "b \<le> f x" using ge that by (force simp: filter_empty_conv)
  moreover have "filter (\<lambda>x. f x = b) xs = []" if "b < f x" using ge that by (force simp: filter_empty_conv)
  ultimately show ?case using ih by (cases "f x" b rule: linorder_cases) auto
qed simp

lemma sorted_position:
  fixes f :: "'x \<Rightarrow> nat"
  assumes "sorted (map f xs)" "j < length xs"
  defines "b \<equiv> f (xs ! j)"
  shows "length (filter (\<lambda>x. f x < b) xs) \<le> j"
    and "j - length (filter (\<lambda>x. f x < b) xs) < length (filter (\<lambda>x. f x = b) xs)"
    and "filter (\<lambda>x. f x = b) xs ! (j - length (filter (\<lambda>x. f x < b) xs)) = xs ! j"
proof -
  let ?l = "filter (\<lambda>x. f x < b) xs" and ?m = "filter (\<lambda>x. f x = b) xs" and ?r = "filter (\<lambda>x. b < f x) xs"
  have xs: "xs = ?l @ ?m @ ?r" using sorted_three_parts[OF assms(1)] .
  have nth: "xs ! j = (?l @ ?m @ ?r) ! j" by (rule arg_cong[OF xs])
  have len: "j < length ?l + length ?m + length ?r" using assms(2) arg_cong[OF xs, of length] by simp
  show 1: "length ?l \<le> j"
  proof (rule ccontr)
    assume "\<not> length ?l \<le> j"
    then have lt: "j < length ?l" by simp
    then have "xs ! j = ?l ! j" using nth by (simp add: nth_append)
    then have "xs ! j \<in> set ?l" using nth_mem[OF lt] by simp
    then show False using b_def by auto
  qed
  show 2: "j - length ?l < length ?m"
  proof (rule ccontr)
    assume "\<not> j - length ?l < length ?m"
    then have "xs ! j = ?r ! (j - length ?l - length ?m)" using nth 1 by (simp add: nth_append)
    moreover have "j - length ?l - length ?m < length ?r"
      using \<open>\<not> j - length ?l < length ?m\<close> 1 len by linarith
    ultimately have "xs ! j \<in> set ?r" using nth_mem by metis
    then show False using b_def by auto
  qed
  show "?m ! (j - length ?l) = xs ! j" using nth 1 2 by (simp add: nth_append)
qed

section \<open>The layout of the codes\<close>

record layout =
  l_key_len :: nat
  l_base :: nat
  l_kpb :: nat
  l_skip :: nat
  l_bits :: nat
  l_huff :: "huffman list"

definition layout_of :: "'b bucketing_index \<Rightarrow> layout" where
  "layout_of ix = \<lparr>l_key_len = ix_key_len ix, l_base = ix_dest_base ix, l_kpb = ix_dest_keys_per_block ix,
     l_skip = ix_skip_bits ix, l_bits = ix_bucket_bits ix, l_huff = ix_trie ix\<rparr>"

definition bucket_of :: "layout \<Rightarrow> bytes \<Rightarrow> nat" where
  "bucket_of L k = bits_number (l_skip L) k (l_bits L)"

definition keys_of :: "layout \<Rightarrow> bytes list \<Rightarrow> nat \<Rightarrow> bytes list" where
  "keys_of L ks b = filter (\<lambda>k. bucket_of L k = b) ks"

definition before :: "layout \<Rightarrow> bytes list \<Rightarrow> nat \<Rightarrow> nat" where
  "before L ks b = length (filter (\<lambda>k. bucket_of L k < b) ks)"

definition code_of :: "layout \<Rightarrow> bytes list \<Rightarrow> nat \<Rightarrow> bool list" where
  "code_of L ks b = trie_code False (l_huff L) (keys_of L ks b) (l_key_len L) 0 (length (keys_of L ks b))
     (l_base L + before L ks b) (l_kpb L) (l_skip L + l_bits L)"

definition codes :: "layout \<Rightarrow> bytes list \<Rightarrow> nat \<Rightarrow> bool list" where
  "codes L ks p = concat (map (code_of L ks) [0..<p])"

definition entries :: "layout \<Rightarrow> bytes list \<Rightarrow> nat \<Rightarrow> (nat \<times> nat) list" where
  "entries L ks p = map (\<lambda>b. (length (codes L ks b), before L ks b)) [0..<p + 1]"

lemma length_entries [simp]: "length (entries L ks p) = p + 1"
  by (simp add: entries_def)

lemma nth_entries: "b \<le> p \<Longrightarrow> entries L ks p ! b = (length (codes L ks b), before L ks b)"
  by (simp add: entries_def nth_map_upt del: upt_Suc)

lemma codes_Suc: "codes L ks (Suc p) = codes L ks p @ code_of L ks p"
  by (simp add: codes_def)

lemma entries_Suc: "entries L ks (Suc p) = entries L ks p @ [(length (codes L ks (Suc p)), before L ks (Suc p))]"
  by (simp add: entries_def)

lemma entries_prefix: "p \<le> q \<Longrightarrow> \<exists>es. entries L ks q = entries L ks p @ es"
proof (induction q)
  case (Suc q)
  then show ?case by (cases "p = Suc q") (auto simp: entries_Suc le_Suc_eq)
qed simp

lemma before_Suc: "before L ks (Suc b) = before L ks b + length (keys_of L ks b)"
  by (induction ks) (auto simp: before_def keys_of_def)

lemma before_append: "(\<And>k. k \<in> set rest \<Longrightarrow> b \<le> bucket_of L k) \<Longrightarrow> before L (ks @ rest) b = before L ks b"
  by (auto simp: before_def filter_empty_conv not_less)

lemma keys_of_append: "(\<And>k. k \<in> set rest \<Longrightarrow> b < bucket_of L k) \<Longrightarrow> keys_of L (ks @ rest) b = keys_of L ks b"
  by (auto simp: keys_of_def filter_empty_conv)

lemma code_of_append: "(\<And>k. k \<in> set rest \<Longrightarrow> b < bucket_of L k) \<Longrightarrow> code_of L (ks @ rest) b = code_of L ks b"
  by (simp add: code_of_def keys_of_append before_append less_imp_le)

lemma codes_append: "(\<And>k. k \<in> set rest \<Longrightarrow> p \<le> bucket_of L k) \<Longrightarrow> codes L (ks @ rest) p = codes L ks p"
proof (induction p)
  case (Suc p)
  then have "codes L (ks @ rest) p = codes L ks p" by (meson Suc_leD)
  then show ?case using Suc.prems code_of_append[of rest p L ks] by (simp add: codes_Suc Suc_le_eq)
qed (simp add: codes_def)

lemma entries_append:
  assumes "\<And>k. k \<in> set rest \<Longrightarrow> p \<le> bucket_of L k"
  shows "entries L (ks @ rest) p = entries L ks p"
proof -
  have "codes L (ks @ rest) b = codes L ks b" "before L (ks @ rest) b = before L ks b" if "b \<le> p" for b
    using assms that by (meson codes_append before_append le_trans)+
  then show ?thesis by (simp add: entries_def del: upt_Suc)
qed

section \<open>Sequences of keys the index accepts\<close>

definition keys_ok :: "layout \<Rightarrow> bytes list \<Rightarrow> bool" where
  "keys_ok L ks \<longleftrightarrow> l_skip L + l_bits L \<le> l_key_len L * 8 \<and> length ks < 2 ^ 63 \<and>
     (\<forall>k\<in>set ks. length k = l_key_len L) \<and>
     (\<forall>k\<in>set ks. \<forall>k'\<in>set ks. \<forall>i<l_skip L. bitat k i = bitat k' i) \<and>
     sorted_wrt (\<lambda>k k'. memcmp k k' < 0) ks"

lemma keys_ok_prefix: "keys_ok L (ks @ rest) \<Longrightarrow> keys_ok L ks"
  by (auto simp: keys_ok_def sorted_wrt_append)

lemma keys_ok_less:
  assumes "keys_ok L ks" "i < j" "j < length ks"
  shows "key_less (l_key_len L) (ks ! i) (ks ! j)"
proof -
  have "memcmp (ks ! i) (ks ! j) < 0" using assms by (auto simp: keys_ok_def sorted_wrt_iff_nth_less)
  moreover have "length (ks ! i) = l_key_len L" "length (ks ! j) = l_key_len L"
    using assms by (auto simp: keys_ok_def)
  ultimately show ?thesis using memcmp_key_less[of "ks ! i" "ks ! j"] by simp
qed

lemma keys_ok_sorted:
  assumes "keys_ok L ks"
  shows "sorted (map (bucket_of L) ks)"
proof (rule sorted_iff_nth_mono_less[THEN iffD2], intro allI impI)
  fix i j assume ij: "i < j" "j < length (map (bucket_of L) ks)"
  then have "key_less (l_key_len L) (ks ! i) (ks ! j)" using keys_ok_less[OF assms] by simp
  moreover have "bitat (ks ! i) d = bitat (ks ! j) d" if "d < l_skip L" for d
    using assms ij that by (simp add: keys_ok_def)
  ultimately have "bucket_of L (ks ! i) \<le> bucket_of L (ks ! j)"
    unfolding bucket_of_def by (rule bits_number_mono)
  then show "map (bucket_of L) ks ! i \<le> map (bucket_of L) ks ! j" using ij by simp
qed

lemma keys_of_group:
  assumes ok: "keys_ok L ks"
  shows "group_ok (keys_of L ks b) (l_key_len L) 0 (length (keys_of L ks b)) (l_skip L + l_bits L)"
proof (rule group_okI, simp_all)
  let ?g = "keys_of L ks b"
  have mem: "?g ! i \<in> set ks" "bucket_of L (?g ! i) = b" if "i < length ?g" for i
    using nth_mem[OF that] by (auto simp: keys_of_def)
  show "length (?g ! i) = l_key_len L" if "i < length ?g" for i
    using mem(1)[OF that] ok by (simp add: keys_ok_def)
  show "bitat (?g ! i) d = bitat (?g ! j) d" if "i < length ?g" "j < length ?g" "d < l_skip L + l_bits L" for i j d
  proof (cases "d < l_skip L")
    case True
    then show ?thesis using mem(1)[OF that(1)] mem(1)[OF that(2)] ok unfolding keys_ok_def by blast
  next
    case False
    with that(3) obtain e where "d = l_skip L + e" "e < l_bits L" by (metis le_Suc_ex nat_add_left_cancel_less not_less)
    then show ?thesis
      using mem(2)[OF that(1)] mem(2)[OF that(2)] bits_number_inj[of "l_skip L" "?g ! i" "l_bits L" "?g ! j" e]
      by (simp add: bucket_of_def)
  qed
  show "key_less (l_key_len L) (?g ! i) (?g ! j)" if "i < j" "j < length ?g" for i j
  proof -
    have "sorted_wrt (\<lambda>k k'. memcmp k k' < 0) ?g"
      using ok unfolding keys_ok_def keys_of_def by (simp add: sorted_wrt_filter)
    then have "memcmp (?g ! i) (?g ! j) < 0" using that by (simp add: sorted_wrt_iff_nth_less)
    moreover have "length (?g ! i) = l_key_len L" "length (?g ! j) = l_key_len L"
      using mem(1)[of i] mem(1)[OF that(2)] that ok by (auto simp: keys_ok_def)
    ultimately show ?thesis using memcmp_key_less[of "?g ! i" "?g ! j"] by simp
  qed
qed

lemma keys_of_small: "keys_ok L ks \<Longrightarrow> length (keys_of L ks b) < 2 ^ 63"
  unfolding keys_ok_def keys_of_def using length_filter_le[of "\<lambda>k. bucket_of L k = b" ks] by linarith

lemma encode_bucket:
  assumes "keys_ok L ks" "trie_ok False (l_huff L)" "bv_wf (v :: 32 word bit_vector)"
  shows "\<exists>v'. trie_encode False (l_huff L) v (keys_of L ks b) (l_key_len L) 0 (length (keys_of L ks b))
    (l_base L + before L ks b) (l_kpb L) (l_skip L + l_bits L) = Some v' \<and> bv_wf v' \<and> bits v' = bits v @ code_of L ks b"
  unfolding trie_encode_def code_of_def
  using encode_rec_ok[OF block_type_widths(3) assms(2) keys_of_small[OF assms(1)] keys_of_group[OF assms(1)] assms(3)]
  by blast

lemma bucket_of_less: "bucket_of L k < 2 ^ l_bits L"
  by (simp add: bucket_of_def bits_number_less)

section \<open>The invariant of insertion\<close>

text \<open>The layout that the constructor arguments fix.\<close>

definition index_layout :: "(nat \<Rightarrow> u32) \<Rightarrow> nat \<Rightarrow> nat \<Rightarrow> nat \<Rightarrow> nat \<Rightarrow> nat \<Rightarrow> nat \<Rightarrow> layout" where
  "index_layout uninit key_len n bucket_size base kpb skip =
     \<lparr>l_key_len = key_len, l_base = base, l_kpb = kpb, l_skip = skip,
      l_bits = bucket_bits_loop (n div bucket_size) 0, l_huff = the (trie_new uninit False)\<rparr>"

definition ix_fixed :: "layout \<Rightarrow> 'b bucketing_index \<Rightarrow> bool" where
  "ix_fixed L ix \<longleftrightarrow> layout_of ix = L \<and> ix_bucket_count ix = 2 ^ l_bits L \<and> trie_ok False (l_huff L)"

context bucketing
begin

definition ix_inv :: "layout \<Rightarrow> nat \<Rightarrow> 'b bucketing_index \<Rightarrow> bytes list \<Rightarrow> bool" where
  "ix_inv L S ix ks \<longleftrightarrow> ix_fixed L ix \<and> ix_pending_bucket ix \<le> 2 ^ l_bits L \<and>
     bv_wf (ix_repr ix) \<and> bits (ix_repr ix) = codes L ks (ix_pending_bucket ix) \<and>
     ix_last_dest_offset ix = before L ks (ix_pending_bucket ix) \<and>
     ix_pending_keys ix = keys_of L ks (ix_pending_bucket ix) \<and>
     (\<forall>k\<in>set ks. bucket_of L k \<le> ix_pending_bucket ix) \<and>
     rep (ix_bucketing ix) (2 ^ l_bits L + 1) S (entries L ks (ix_pending_bucket ix))"

lemma index_pending_keys_inv:
  assumes inv: "ix_inv L S ix ks" and ok: "keys_ok L ks" and p: "ix_pending_bucket ix < 2 ^ l_bits L"
    and fits: "fits S (entries L ks (ix_pending_bucket ix + 1))"
  obtains ix' where "index_pending_keys ops ix = Some ix'" "ix_inv L S ix' ks"
    "ix_pending_bucket ix' = ix_pending_bucket ix + 1"
proof -
  let ?p = "ix_pending_bucket ix" and ?g = "keys_of L ks (ix_pending_bucket ix)"
  have L: "layout_of ix = L" "ix_bucket_count ix = 2 ^ l_bits L" "trie_ok False (l_huff L)"
    using inv by (auto simp: ix_inv_def ix_fixed_def)
  have f: "ix_key_len ix = l_key_len L" "ix_dest_base ix = l_base L" "ix_dest_keys_per_block ix = l_kpb L"
      "ix_skip_bits ix = l_skip L" "ix_bucket_bits ix = l_bits L" "ix_trie ix = l_huff L"
    using L(1) by (auto simp: layout_of_def)
  have i: "bv_wf (ix_repr ix)" "bits (ix_repr ix) = codes L ks ?p" "ix_last_dest_offset ix = before L ks ?p"
      "ix_pending_keys ix = ?g" "\<And>k. k \<in> set ks \<Longrightarrow> bucket_of L k \<le> ?p"
      "rep (ix_bucketing ix) (2 ^ l_bits L + 1) S (entries L ks ?p)"
    using inv by (auto simp: ix_inv_def)
  obtain repr where r: "trie_encode False (l_huff L) (ix_repr ix) ?g (l_key_len L) 0 (length ?g) (l_base L + before L ks ?p)
      (l_kpb L) (l_skip L + l_bits L) = Some repr" "bv_wf repr" "bits repr = codes L ks (Suc ?p)"
    using encode_bucket[OF ok L(3) i(1), of ?p] i(2) by (auto simp: codes_Suc)
  have size: "bv_size repr = length (codes L ks (Suc ?p))" using r(3) length_bits[of repr] by simp
  obtain b where b: "op_insert ops (ix_bucketing ix) (length (codes L ks (Suc ?p))) (before L ks (Suc ?p)) = Some b"
      "rep b (2 ^ l_bits L + 1) S (entries L ks (Suc ?p))"
    using insert[OF i(6), of "length (codes L ks (Suc ?p))" "before L ks (Suc ?p)"] p fits by (auto simp: entries_Suc)
  let ?ix = "ix\<lparr>ix_repr := repr, ix_pending_bucket := ?p + 1, ix_bucketing := b,
      ix_last_dest_offset := before L ks (Suc ?p), ix_pending_keys := []\<rparr>"
  have "index_pending_keys ops ix = Some ?ix"
    using p L(2) r(1) b(1) size f i(3,4) by (simp add: index_pending_keys_def before_Suc)
  moreover have "keys_of L ks (Suc ?p) = []" using i(5) by (force simp: keys_of_def filter_empty_conv)
  then have "ix_inv L S ?ix ks"
    using L r(2,3) b(2) p i(5) unfolding ix_inv_def ix_fixed_def by (auto simp: layout_of_def intro: le_SucI)
  ultimately show thesis using that by simp
qed

lemma index_until_inv:
  assumes "ix_inv L S ix ks" "keys_ok L ks" "ix_pending_bucket ix + m \<le> 2 ^ l_bits L"
    and "fits S (entries L ks (ix_pending_bucket ix + m))"
  shows "\<exists>ix'. index_until ops ix m = Some ix' \<and> ix_inv L S ix' ks \<and> ix_pending_bucket ix' = ix_pending_bucket ix + m"
  using assms(1,3,4)
proof (induction m arbitrary: ix)
  case (Suc m)
  obtain es where "entries L ks (ix_pending_bucket ix + Suc m) = entries L ks (ix_pending_bucket ix + 1) @ es"
    using entries_prefix[of "ix_pending_bucket ix + 1" "ix_pending_bucket ix + Suc m" L ks] by auto
  then have "fits S (entries L ks (ix_pending_bucket ix + 1))" using Suc.prems(3) prefix by metis
  moreover have "ix_pending_bucket ix < 2 ^ l_bits L" using Suc.prems(2) by simp
  ultimately obtain ix' where ix': "index_pending_keys ops ix = Some ix'" "ix_inv L S ix' ks"
      "ix_pending_bucket ix' = ix_pending_bucket ix + 1"
    using index_pending_keys_inv[OF Suc.prems(1) assms(2)] by blast
  then show ?case using Suc.IH[OF ix'(2)] Suc.prems(2,3) by simp
qed simp

lemma ix_insert_inv:
  assumes inv: "ix_inv L S ix ks" and ok: "keys_ok L (ks @ [k])"
    and p: "ix_pending_bucket ix = (if ks = [] then 0 else bucket_of L (last ks))"
    and fits: "fits S (entries L ks (bucket_of L k))"
  shows "\<exists>ix'. ix_insert ops ix k = Some (ix', True) \<and> ix_inv L S ix' (ks @ [k]) \<and> ix_pending_bucket ix' = bucket_of L k"
proof -
  let ?p = "ix_pending_bucket ix"
  have L: "layout_of ix = L" "ix_bucket_count ix = 2 ^ l_bits L" using inv by (auto simp: ix_inv_def ix_fixed_def)
  have f: "ix_key_len ix = l_key_len L" "ix_skip_bits ix = l_skip L" "ix_bucket_bits ix = l_bits L"
    using L(1) by (auto simp: layout_of_def)
  have okp: "keys_ok L ks" using keys_ok_prefix[OF ok] .
  have len: "length k = l_key_len L" "l_skip L + l_bits L \<le> l_key_len L * 8" using ok by (auto simp: keys_ok_def)
  have bucket: "find_bucket ix k = Some (bucket_of L k)"
    using find_bucket_ok[of ix k] f len by (simp add: bucket_of_def)
  have ge: "?p \<le> bucket_of L k"
    using keys_ok_sorted[OF ok] p by (cases ks rule: rev_cases) (auto simp: sorted_append)
  have lt: "bucket_of L k < 2 ^ l_bits L" by (rule bucket_of_less)
  have "\<not> finalized ix" using ge lt L(2) by (simp add: finalized_def)
  moreover have "memcmp (last (ix_pending_keys ix)) k < 0" if "ix_pending_keys ix \<noteq> []"
  proof -
    have "last (ix_pending_keys ix) \<in> set ks"
      using last_in_set[OF that] inv by (auto simp: ix_inv_def keys_of_def)
    then show ?thesis using ok by (auto simp: keys_ok_def sorted_wrt_append)
  qed
  moreover obtain ix' where ix': "index_until ops ix (bucket_of L k - ?p) = Some ix'" "ix_inv L S ix' ks"
      "ix_pending_bucket ix' = bucket_of L k"
    using index_until_inv[OF inv okp, of "bucket_of L k - ?p"] ge lt fits by auto
  moreover have "layout_of ix' = L" using ix'(2) by (simp add: ix_inv_def ix_fixed_def)
  then have f': "ix_key_len ix' = l_key_len L" by (auto simp: layout_of_def)
  ultimately have run: "ix_insert ops ix k = Some (ix'\<lparr>ix_pending_keys := ix_pending_keys ix' @ [k]\<rparr>, True)"
    using bucket ge f(1) len(1) by (auto simp: ix_insert_def not_le)
  have "keys_of L (ks @ [k]) (bucket_of L k) = keys_of L ks (bucket_of L k) @ [k]" by (simp add: keys_of_def)
  moreover have "codes L (ks @ [k]) (bucket_of L k) = codes L ks (bucket_of L k)"
      "before L (ks @ [k]) (bucket_of L k) = before L ks (bucket_of L k)"
      "entries L (ks @ [k]) (bucket_of L k) = entries L ks (bucket_of L k)"
    by (rule codes_append before_append entries_append, simp)+
  ultimately have "ix_inv L S (ix'\<lparr>ix_pending_keys := ix_pending_keys ix' @ [k]\<rparr>) (ks @ [k])"
    using ix'(2,3) unfolding ix_inv_def ix_fixed_def by (auto simp: layout_of_def)
  then show ?thesis using run ix'(3) by auto
qed

lemma ix_insert_all_inv:
  assumes "ix_inv L S ix ks" "keys_ok L (ks @ rest)" "fits S (entries L (ks @ rest) (2 ^ l_bits L))"
    and "ix_pending_bucket ix = (if ks = [] then 0 else bucket_of L (last ks))"
  shows "\<exists>ix'. ix_insert_all ops ix rest = Some ix' \<and> ix_inv L S ix' (ks @ rest) \<and> \<not> finalized ix' \<and>
    ix_pending_bucket ix' = (if ks @ rest = [] then 0 else bucket_of L (last (ks @ rest)))"
  using assms
proof (induction rest arbitrary: ix ks)
  case Nil
  have "ix_pending_bucket ix < 2 ^ l_bits L" using Nil.prems(4) bucket_of_less[of L "last ks"] by (auto split: if_splits)
  then have "\<not> finalized ix" using Nil.prems(1) by (auto simp: finalized_def ix_inv_def ix_fixed_def)
  then show ?case using Nil.prems(1,4) by simp
next
  case (Cons k rest)
  have ok: "keys_ok L (ks @ [k])" using keys_ok_prefix[of L "ks @ [k]" rest] Cons.prems(2) by simp
  have "bucket_of L k \<le> bucket_of L k'" if "k' \<in> set (k # rest)" for k'
    using keys_ok_sorted[OF Cons.prems(2)] that by (auto simp: sorted_append)
  then have "entries L (ks @ k # rest) (bucket_of L k) = entries L ks (bucket_of L k)" by (rule entries_append)
  then obtain es where "entries L (ks @ k # rest) (2 ^ l_bits L) = entries L ks (bucket_of L k) @ es"
    using entries_prefix[of "bucket_of L k" "2 ^ l_bits L" L "ks @ k # rest"] bucket_of_less[of L k] by auto
  then have "fits S (entries L ks (bucket_of L k))" using Cons.prems(3) prefix by metis
  then obtain ix' where ix': "ix_insert ops ix k = Some (ix', True)" "ix_inv L S ix' (ks @ [k])"
      "ix_pending_bucket ix' = bucket_of L k"
    using ix_insert_inv[OF Cons.prems(1) ok Cons.prems(4)] by blast
  then show ?case using Cons.IH[OF ix'(2)] Cons.prems(2,3) by simp
qed

lemma ix_flush_inv:
  assumes "ix_inv L S ix ks" "keys_ok L ks" "fits S (entries L ks (2 ^ l_bits L))" "\<not> finalized ix"
  shows "\<exists>ix'. ix_flush ops ix = Some ix' \<and> ix_inv L S ix' ks \<and> finalized ix'"
proof -
  have C: "ix_bucket_count ix = 2 ^ l_bits L" and p: "ix_pending_bucket ix \<le> 2 ^ l_bits L"
    using assms(1) by (auto simp: ix_inv_def ix_fixed_def)
  obtain ix' where ix': "index_until ops ix (2 ^ l_bits L - ix_pending_bucket ix) = Some ix'" "ix_inv L S ix' ks"
      "ix_pending_bucket ix' = 2 ^ l_bits L"
    using index_until_inv[OF assms(1,2), of "2 ^ l_bits L - ix_pending_bucket ix"] p assms(3) by auto
  have fin: "finalized ix'" using ix'(2,3) by (simp add: finalized_def ix_inv_def ix_fixed_def)
  let ?ix = "ix'\<lparr>ix_bucketing := op_finalize ops (ix_bucketing ix')\<rparr>"
  have "ix_inv L S ?ix ks"
    using ix'(2) finalize unfolding ix_inv_def ix_fixed_def by (auto simp: layout_of_def)
  moreover have "finalized ?ix" using fin by (simp add: finalized_def)
  ultimately show ?thesis using assms(4) C ix'(1) fin by (auto simp: ix_flush_def)
qed

text \<open>A lookup is a lookup in the code of one bucket.\<close>

lemma ix_locate_in_bucket:
  assumes inv: "ix_inv L S ix ks" and ok: "keys_ok L ks" and fin: "finalized ix" and k: "length k = l_key_len L"
  defines "b \<equiv> bucket_of L k"
  shows "ix_locate ops ix k = map_option (\<lambda>(r, it). before L ks b + r)
      (locate_rec False (l_huff L) (ix_repr ix) (length (codes L ks b)) k (l_key_len L) 0 (length (keys_of L ks b))
        (l_base L + before L ks b) (l_kpb L) (l_skip L + l_bits L))" (is ?eq)
    and "\<exists>post. bv_wf (ix_repr ix) \<and> bits (ix_repr ix) = codes L ks b @ code_of L ks b @ post" (is ?bits)
    and "reads False (l_huff L) TYPE(32) (code_of L ks b) (keys_of L ks b) (l_key_len L) 0 (length (keys_of L ks b))
      (l_base L + before L ks b) (l_kpb L) (l_skip L + l_bits L)" (is ?reads)
proof -
  have L: "layout_of ix = L" "ix_bucket_count ix = 2 ^ l_bits L" "trie_ok False (l_huff L)"
    using inv by (auto simp: ix_inv_def ix_fixed_def)
  have f: "ix_key_len ix = l_key_len L" "ix_dest_base ix = l_base L" "ix_dest_keys_per_block ix = l_kpb L"
      "ix_skip_bits ix = l_skip L" "ix_bucket_bits ix = l_bits L" "ix_trie ix = l_huff L"
    using L(1) by (auto simp: layout_of_def)
  have p: "ix_pending_bucket ix = 2 ^ l_bits L" using fin L(2) by (simp add: finalized_def)
  have i: "bv_wf (ix_repr ix)" "bits (ix_repr ix) = codes L ks (2 ^ l_bits L)"
      "rep (ix_bucketing ix) (2 ^ l_bits L + 1) S (entries L ks (2 ^ l_bits L))"
    using inv p by (auto simp: ix_inv_def)
  have "l_skip L + l_bits L \<le> l_key_len L * 8" using ok by (simp add: keys_ok_def)
  then have bucket: "find_bucket ix k = Some b" using find_bucket_ok[of ix k] f k by (simp add: bucket_of_def b_def)
  have b: "b < 2 ^ l_bits L" unfolding b_def by (rule bucket_of_less)
  have look: "op_index_offset ops (ix_bucketing ix) b = Some (length (codes L ks b))"
      "op_dest_offset ops (ix_bucketing ix) b = Some (before L ks b)"
      "op_dest_offset ops (ix_bucketing ix) (b + 1) = Some (before L ks b + length (keys_of L ks b))"
    using lookup[OF i(3), of b] lookup[OF i(3), of "b + 1"] b by (auto simp: nth_entries before_Suc)
  show ?eq
    using fin bucket look f by (simp add: ix_locate_def trie_locate_def map_option_case case_prod_beta split: option.split)
  have "codes L ks (2 ^ l_bits L) = codes L ks b @ code_of L ks b @ concat (map (code_of L ks) [Suc b..<2 ^ l_bits L])"
    using upt_add_eq_append[of 0 b "2 ^ l_bits L - b"] upt_conv_Cons[OF b] b by (simp add: codes_def)
  then show ?bits using i(1,2) by auto
  show ?reads
    using encode_rec_ok[OF block_type_widths(3) L(3) keys_of_small[OF ok] keys_of_group[OF ok] i(1)]
    by (simp add: code_of_def)
qed

lemma ix_locate_finds:
  assumes inv: "ix_inv L S ix ks" and ok: "keys_ok L ks" and fin: "finalized ix" and j: "j < length ks"
  shows "\<exists>r. ix_locate ops ix (ks ! j) = Some r \<and> r \<le> j \<and> (l_base L + r) div l_kpb L = (l_base L + j) div l_kpb L"
proof -
  let ?k = "ks ! j"
  let ?b = "bucket_of L ?k"
  have "length ?k = l_key_len L" using ok j by (auto simp: keys_ok_def)
  note bucket = ix_locate_in_bucket[OF inv ok fin this]
  let ?i = "j - before L ks ?b"
  have pos: "before L ks ?b \<le> j" "?i < length (keys_of L ks ?b)" "keys_of L ks ?b ! ?i = ?k"
    using sorted_position[OF keys_ok_sorted[OF ok] j] by (simp_all add: before_def keys_of_def)
  have "finds False (l_huff L) (ix_repr ix) (length (codes L ks ?b)) (keys_of L ks ?b ! (0 + ?i)) (l_key_len L) 0
      (length (keys_of L ks ?b)) (l_base L + before L ks ?b) (l_kpb L) (l_skip L + l_bits L) ?i"
    using bucket(2,3) pos(2) unfolding reads_def by blast
  then obtain r it' where r: "locate_rec False (l_huff L) (ix_repr ix) (length (codes L ks ?b)) ?k (l_key_len L) 0
      (length (keys_of L ks ?b)) (l_base L + before L ks ?b) (l_kpb L) (l_skip L + l_bits L) = Some (r, it')"
      "r \<le> ?i" "(l_base L + before L ks ?b + 0 + r) div l_kpb L = (l_base L + before L ks ?b + 0 + ?i) div l_kpb L"
    unfolding finds_def using pos(3) by auto
  have "ix_locate ops ix ?k = Some (before L ks ?b + r)" using bucket(1) r(1) by simp
  then show ?thesis using r(2,3) pos(1) by (intro exI[of _ "before L ks ?b + r"]) (simp add: add.assoc)
qed

text \<open>The lookup of any key of the right length returns a position.\<close>

lemma ix_locate_total:
  assumes inv: "ix_inv L S ix ks" and ok: "keys_ok L ks" and fin: "finalized ix" and k: "length k = l_key_len L"
  shows "\<exists>r. ix_locate ops ix k = Some r \<and> r \<le> length ks"
proof -
  let ?b = "bucket_of L k"
  note bucket = ix_locate_in_bucket[OF inv ok fin k]
  have "locates False (l_huff L) (ix_repr ix) (length (codes L ks ?b)) k (l_key_len L) 0
      (length (keys_of L ks ?b)) (l_base L + before L ks ?b) (l_kpb L) (l_skip L + l_bits L)"
    using bucket(2,3) k unfolding reads_def by blast
  then obtain r where "ix_locate ops ix k = Some (before L ks ?b + r)" "r \<le> length (keys_of L ks ?b)"
    unfolding locates_def using bucket(1) by auto
  moreover have "before L ks ?b + length (keys_of L ks ?b) \<le> length ks"
    by (metis before_Suc before_def length_filter_le)
  ultimately show ?thesis by auto
qed

text \<open>A new index, and an index filled with a sequence of keys.\<close>

lemma bucketing_index_new_inv:
  assumes "0 < bucket_size" "L = index_layout uninit key_len n bucket_size base kpb skip"
    and "0 < n div 2 ^ l_bits L" "fits (n div 2 ^ l_bits L) [(0, 0)]"
  shows "\<exists>ix. bucketing_index_new ops uninit key_len n bucket_size base kpb skip = Some ix \<and>
    ix_inv L (n div 2 ^ l_bits L) ix [] \<and> ix_pending_bucket ix = 0"
proof -
  let ?C = "2 ^ l_bits L :: nat"
  obtain hs where hs: "trie_new uninit False = Some hs" "trie_ok False hs" using trie_new_ok by blast
  obtain v where v: "bit_vector_new = Some (v :: 32 word bit_vector)" "bv_wf v" "bits v = []" using bit_vector_new_ok by blast
  obtain b0 b where b: "op_new ops = Some b0" "op_resize ops b0 (?C + 1) (n div ?C) kpb = Some b" "rep b (?C + 1) (n div ?C) []"
    using create[OF assms(3)] by blast
  obtain b' where b': "op_insert ops b 0 0 = Some b'" "rep b' (?C + 1) (n div ?C) [(0, 0)]"
    using insert[OF b(3), of 0 0] assms(4) by auto
  have L: "l_bits L = bucket_bits_loop (n div bucket_size) 0" by (simp add: assms(2) index_layout_def)
  let ?ix = "\<lparr>ix_key_len = key_len, ix_n = n, ix_bucket_size = n div ?C, ix_dest_base = base,
     ix_dest_keys_per_block = kpb, ix_skip_bits = skip, ix_bucket_count = ?C, ix_bucket_bits = l_bits L,
     ix_repr = v, ix_trie = hs, ix_bucketing = b', ix_last_dest_offset = 0, ix_pending_bucket = 0, ix_pending_keys = []\<rparr>"
  have "bucketing_index_new ops uninit key_len n bucket_size base kpb skip = Some ?ix"
    using assms(1) hs(1) b(1,2) b'(1) unfolding bucketing_index_new_def v(1) by (simp add: Let_def flip: L)
  moreover have "ix_inv L (n div ?C) ?ix []"
    using v hs b'(2) unfolding ix_inv_def ix_fixed_def
    by (simp add: layout_of_def codes_def before_def keys_of_def entries_def assms(2) index_layout_def)
  ultimately show ?thesis by auto
qed

lemma entries_start: "\<exists>es. entries L ks p = [(0, 0)] @ es"
  using entries_prefix[of 0 p L ks] by (auto simp: entries_def codes_def before_def)

theorem ix_build_locates:
  assumes L: "L = index_layout uninit key_len n bucket_size base kpb skip"
    and size: "0 < bucket_size" "0 < n div 2 ^ l_bits L" and ok: "keys_ok L ks"
    and fits: "fits (n div 2 ^ l_bits L) (entries L ks (2 ^ l_bits L))"
  shows "\<exists>ix. ix_build ops uninit key_len n bucket_size base kpb skip ks = Some ix \<and>
    (\<forall>j<length ks. \<exists>r. ix_locate ops ix (ks ! j) = Some r \<and> r \<le> j \<and> (base + r) div kpb = (base + j) div kpb)"
proof -
  let ?S = "n div 2 ^ l_bits L"
  obtain es where "entries L ks (2 ^ l_bits L) = [(0, 0)] @ es" using entries_start by blast
  then have "fits ?S [(0, 0)]" using fits prefix by metis
  then obtain ix0 where ix0: "bucketing_index_new ops uninit key_len n bucket_size base kpb skip = Some ix0"
      "ix_inv L ?S ix0 []" "ix_pending_bucket ix0 = 0"
    using bucketing_index_new_inv[OF size(1) L size(2)] by blast
  obtain ix1 where ix1: "ix_insert_all ops ix0 ks = Some ix1" "ix_inv L ?S ix1 ks" "\<not> finalized ix1"
    using ix_insert_all_inv[OF ix0(2), of ks] ok fits ix0(3) by auto
  obtain ix2 where ix2: "ix_flush ops ix1 = Some ix2" "ix_inv L ?S ix2 ks" "finalized ix2"
    using ix_flush_inv[OF ix1(2) ok fits ix1(3)] by blast
  have "l_base L = base" "l_kpb L = kpb" by (simp_all add: L index_layout_def)
  then show ?thesis
    using ix0(1) ix1(1) ix2(1) ix_locate_finds[OF ix2(2) ok ix2(3)] by (auto simp: ix_build_def)
qed

text \<open>A key that does not come after the last one is refused.\<close>

lemma ix_insert_refuses:
  assumes inv: "ix_inv L S ix ks" and ok: "keys_ok L ks" "ks \<noteq> []"
    and p: "ix_pending_bucket ix = bucket_of L (last ks)"
    and k: "length k = l_key_len L" "0 \<le> memcmp (last ks) k"
  shows "ix_insert ops ix k = Some (ix, False)"
proof -
  have L: "layout_of ix = L" "ix_bucket_count ix = 2 ^ l_bits L" using inv by (auto simp: ix_inv_def ix_fixed_def)
  have f: "ix_key_len ix = l_key_len L" "ix_skip_bits ix = l_skip L" "ix_bucket_bits ix = l_bits L"
    using L(1) by (auto simp: layout_of_def)
  have "find_bucket ix k = Some (bucket_of L k)"
    using find_bucket_ok[of ix k] f k(1) ok(1) by (simp add: bucket_of_def keys_ok_def)
  moreover have "\<not> finalized ix" using p L(2) bucket_of_less[of L "last ks"] by (simp add: finalized_def)
  moreover have "keys_of L ks (bucket_of L (last ks)) = keys_of L (butlast ks) (bucket_of L (last ks)) @ [last ks]"
    by (subst append_butlast_last_id[OF ok(2), symmetric], subst keys_of_def) (simp add: keys_of_def)
  then have "ix_pending_keys ix \<noteq> []" "last (ix_pending_keys ix) = last ks"
    using inv p by (auto simp: ix_inv_def)
  ultimately show ?thesis using k f(1) by (simp add: ix_insert_def)
qed

lemma ix_refuses_unsorted:
  assumes L: "L = index_layout uninit key_len n bucket_size base kpb skip"
    and size: "0 < bucket_size" "0 < n div 2 ^ l_bits L" and ok: "keys_ok L ks" "ks \<noteq> []"
    and fits: "fits (n div 2 ^ l_bits L) (entries L ks (2 ^ l_bits L))"
    and k: "length k = key_len" "0 \<le> memcmp (last ks) k"
  shows "\<exists>ix0 ix. bucketing_index_new ops uninit key_len n bucket_size base kpb skip = Some ix0 \<and>
    ix_insert_all ops ix0 ks = Some ix \<and> ix_insert ops ix k = Some (ix, False)"
proof -
  let ?S = "n div 2 ^ l_bits L"
  obtain es where "entries L ks (2 ^ l_bits L) = [(0, 0)] @ es" using entries_start by blast
  then have "fits ?S [(0, 0)]" using fits prefix by metis
  then obtain ix0 where ix0: "bucketing_index_new ops uninit key_len n bucket_size base kpb skip = Some ix0"
      "ix_inv L ?S ix0 []" "ix_pending_bucket ix0 = 0"
    using bucketing_index_new_inv[OF size(1) L size(2)] by blast
  obtain ix1 where ix1: "ix_insert_all ops ix0 ks = Some ix1" "ix_inv L ?S ix1 ks" "ix_pending_bucket ix1 = bucket_of L (last ks)"
    using ix_insert_all_inv[OF ix0(2), of ks] ok fits ix0(3) by auto
  have "length k = l_key_len L" using k(1) by (simp add: L index_layout_def)
  then show ?thesis using ix0(1) ix1(1) ix_insert_refuses[OF ix1(2) ok ix1(3) _ k(2)] by blast
qed

end

end
