(* ===== verification/Index_Props.thy ===== *)
theory Index_Props
  imports Index_Correct
begin

unbundle bit_operations_syntax

text \<open>
  The properties of the compact index of SILT: the bit vector, the codes, the trie, the tables of
  bucket offsets and the index built from them.
\<close>

section \<open>The index\<close>

text \<open>
  Property C19. An index with a two-level table, created for at least as many keys as it has buckets and filled
  with keys in strictly ascending order, is built without an abort, and looking up the key inserted
  at position \<open>j\<close> returns a position of the destination block of \<open>j\<close>, not after \<open>j\<close> (so \<open>j\<close> itself
  with one key per block). The keys have the length of the index and agree on the skipped bits, and the offsets of the buckets
  fit the 16-bit fields of the table (\<open>twolevel_fits\<close>). Both conditions are needed: \<open>index_creation_traps\<close> and \<open>twolevel_lookup_cuts\<close>.
\<close>

theorem twolevel_index_locates:
  assumes "L = index_layout uninit key_len n bucket_size base kpb skip"
    and "0 < bucket_size" "0 < n div 2 ^ l_bits L" "keys_ok L ks"
    and "twolevel_fits (n div 2 ^ l_bits L) (entries L ks (2 ^ l_bits L))"
  shows "\<exists>ix. ix_build twolevel_ops uninit key_len n bucket_size base kpb skip ks = Some ix \<and>
    (\<forall>j<length ks. \<exists>r. ix_locate twolevel_ops ix (ks ! j) = Some r \<and> r \<le> j \<and>
       (base + r) div kpb = (base + j) div kpb)"
  using assms by (rule twolevel.ix_build_locates)

text \<open>The same for the flat table.\<close>

lemma flat_index_locates:
  assumes "L = index_layout uninit key_len n bucket_size base kpb skip"
    and "0 < bucket_size" "0 < n div 2 ^ l_bits L" "keys_ok L ks"
    and "flat_fits (n div 2 ^ l_bits L) (entries L ks (2 ^ l_bits L))"
  shows "\<exists>ix. ix_build flat_ops uninit key_len n bucket_size base kpb skip ks = Some ix \<and>
    (\<forall>j<length ks. \<exists>r. ix_locate flat_ops ix (ks ! j) = Some r \<and> r \<le> j \<and>
       (base + r) div kpb = (base + j) div kpb)"
  using assms by (rule flat.ix_build_locates)

text \<open>Three keys of one byte in two buckets, two keys per destination block.\<close>

definition sample_layout :: layout where
  "sample_layout = index_layout (\<lambda>_. 0) 1 4 2 0 2 0"

lemma sample_bits: "l_bits sample_layout = 1"
  by (simp add: sample_layout_def index_layout_def bucket_bits_loop.simps)

lemma sample_keys_ok: "keys_ok sample_layout [[0x10], [0x20], [0x90]]"
proof -
  have "l_skip sample_layout = 0" "l_key_len sample_layout = 1"
    by (simp_all add: sample_layout_def index_layout_def)
  then show ?thesis by (simp add: keys_ok_def sample_bits)
qed

lemma sample_bucket: "bucket_of sample_layout k = of_bool (bitat k 0)"
  by (simp add: bucket_of_def sample_bits) (simp add: sample_layout_def index_layout_def)

lemma sample_top_bits: "\<not> bitat [0x10 :: byte] 0" "\<not> bitat [0x20 :: byte] 0" "bitat [0x90 :: byte] 0"
  by code_simp+

lemma sample_entries: "entries sample_layout [[0x10], [0x20], [0x90]] 2 = [(0, 0), (0, 2), (0, 3)]"
proof -
  let ?ks = "[[0x10], [0x20], [0x90]] :: bytes list"
  have k: "keys_of sample_layout ?ks 0 = [[0x10], [0x20]]" "keys_of sample_layout ?ks 1 = [[0x90]]"
      "before sample_layout ?ks 0 = 0" "before sample_layout ?ks 1 = 2" "before sample_layout ?ks 2 = 3"
    by (simp_all add: keys_of_def before_def sample_bucket sample_top_bits)
  have "l_base sample_layout = 0" "l_kpb sample_layout = 2"
    by (simp_all add: sample_layout_def index_layout_def)
  then have "code_of sample_layout ?ks 0 = []" "code_of sample_layout ?ks 1 = []"
    using k by (simp_all add: code_of_def trie_code.simps one_block_def)
  then show ?thesis using k by (simp add: entries_def codes_def numeral_2_eq_2)
qed

lemma sample_fits:
  "twolevel_fits (4 div 2 ^ l_bits sample_layout) (entries sample_layout [[0x10], [0x20], [0x90]] (2 ^ l_bits sample_layout))"
proof -
  have "upper_bucket_size 2 = 8192" by (simp add: upper_bucket_size_def)
  moreover have "j = 0 \<or> j = 1 \<or> j = 2" if "j < 3" for j :: nat using that by linarith
  ultimately have "twolevel_fits 2 [(0, 0), (0, 2), (0, 3)]"
    unfolding twolevel_fits_def by (auto simp: base_entry_def less_Suc_eq)
  then show ?thesis by (simp add: sample_bits sample_entries)
qed

lemma sample_size: "0 < (4 :: nat) div 2 ^ l_bits sample_layout"
  by (simp add: sample_bits)

text \<open>A witness.\<close>

theorem twolevel_index_locates_witness:
  "\<exists>ix. ix_build twolevel_ops (\<lambda>_. 0) 1 4 2 0 2 0 [[0x10], [0x20], [0x90]] = Some ix \<and>
    (\<forall>j<Suc (Suc (Suc 0)). \<exists>r. ix_locate twolevel_ops ix ([[0x10], [0x20], [0x90]] ! j) = Some r \<and> r \<le> j \<and> r div 2 = j div 2)"
  using twolevel_index_locates[OF sample_layout_def _ sample_size sample_keys_ok sample_fits] by simp

text \<open>
  The constructor aborts exactly when the requested bucket size is zero or the
  number of keys is below the number of buckets: the two-level table divides by the number of keys
  per bucket. In particular an index for zero keys cannot be created.
\<close>

theorem index_creation_traps:
  "bucketing_index_new twolevel_ops uninit key_len n bucket_size base kpb skip = None \<longleftrightarrow>
     bucket_size = 0 \<or> n div 2 ^ bucket_bits_loop (n div bucket_size) 0 = 0"
proof -
  let ?C = "2 ^ bucket_bits_loop (n div bucket_size) 0"
  have "bucketing_index_new twolevel_ops uninit key_len n bucket_size base kpb skip \<noteq> None"
    if "bucket_size \<noteq> 0" "n div ?C \<noteq> 0"
  proof -
    have "twolevel_fits (n div ?C) [(0, 0)]" by (simp add: twolevel_fits_def base_entry_def)
    then show ?thesis
      using twolevel.bucketing_index_new_inv[OF _ refl, of bucket_size n uninit key_len base kpb skip] that
      by (auto simp: index_layout_def)
  qed
  moreover have "bucketing_index_new twolevel_ops uninit key_len n bucket_size base kpb skip = None"
    if "n div ?C = 0"
    using that by (auto simp: bucketing_index_new_def twolevel_ops_def twolevel_new_def twolevel_resize_def Let_def
        bind_eq_None_conv)
  moreover have "bucketing_index_new twolevel_ops uninit key_len n 0 base kpb skip = None"
    by (simp add: bucketing_index_new_def)
  ultimately show ?thesis by blast
qed

text \<open>
  After keys have been inserted in ascending order, a key that does not come after
  the last one is refused, and the index is left as it was.
\<close>

theorem index_refuses_unsorted:
  assumes "L = index_layout uninit key_len n bucket_size base kpb skip"
    and "0 < bucket_size" "0 < n div 2 ^ l_bits L" "keys_ok L ks" "ks \<noteq> []"
    and "twolevel_fits (n div 2 ^ l_bits L) (entries L ks (2 ^ l_bits L))"
    and "length k = key_len" "0 \<le> memcmp (last ks) k"
  shows "\<exists>ix0 ix. bucketing_index_new twolevel_ops uninit key_len n bucket_size base kpb skip = Some ix0 \<and>
    ix_insert_all twolevel_ops ix0 ks = Some ix \<and> ix_insert twolevel_ops ix k = Some (ix, False)"
  using assms by (rule twolevel.ix_refuses_unsorted)

text \<open>A witness.\<close>

theorem index_refuses_unsorted_witness:
  "\<exists>ix0 ix. bucketing_index_new twolevel_ops (\<lambda>_. 0) 1 4 2 0 2 0 = Some ix0 \<and>
    ix_insert_all twolevel_ops ix0 [[0x10], [0x20], [0x90]] = Some ix \<and>
    ix_insert twolevel_ops ix [0x20] = Some (ix, False)"
  using index_refuses_unsorted[OF sample_layout_def _ sample_size sample_keys_ok _ sample_fits, of "[0x20]"] by simp

section \<open>The tables of bucket offsets\<close>

text \<open>
  The two-level table stores a distance modulo \<open>2^16\<close>: looking up the entry just
  inserted returns the base of its group plus the distance cut to 16 bits, so the right offset
  exactly for distances below \<open>2^16\<close>. No assertion notices the other ones.
\<close>

theorem twolevel_lookup_cuts:
  assumes "twolevel_rep b sz k es" "length es < sz"
    and "base = fst (base_entry (upper_bucket_size k) es (length es div upper_bucket_size k))"
    and "base \<le> i" "i < 2 ^ 64"
  shows "\<exists>b'. twolevel_insert b i d = Some b' \<and>
    twolevel_index_offset b' (length es) = Some (base + (i - base) mod 2 ^ 16)"
proof -
  let ?u = "upper_bucket_size k" and ?m = "length es"
  let ?g = "?m div ?u"
  have b: "t_size b = sz" "t_upper_bucket_size b = ?u" "length (t_bucket_info b) = sz"
      "length (t_upper_bucket_info b) = sz div ?u + 2" "t_current_i b = ?m"
    using assms(1) by (auto simp: twolevel_rep_def)
  have "?g * ?u \<le> ?m" by (rule div_times_less_eq_dividend)
  then have "(unat (fst (t_upper_bucket_info b ! ?g)), unat (snd (t_upper_bucket_info b ! ?g))) = base_entry ?u es ?g"
    using assms(1) unfolding twolevel_rep_def by blast
  then have base: "unat (fst (t_upper_bucket_info b ! ?g)) = base" unfolding assms(3) by (metis fst_conv)
  have g: "?g \<le> sz div ?u" using assms(2) by (intro div_le_mono) simp
  have "word_of_nat i - word_of_nat base = (word_of_nat (i - base) :: u64)" using assms(4) by (simp add: of_nat_diff)
  moreover have "unat (word_of_nat (i - base) :: u64) = i - base" using assms(5) by (intro unat_word_of_nat) simp
  then have "ucast (word_of_nat (i - base) :: u64) = (word_of_nat (i - base) :: u16)" by (metis of_nat_unat)
  ultimately have cut: "unat (ucast (word_of_nat i - word_of_nat base :: u64) :: u16) = (i - base) mod 2 ^ 16"
    by (simp add: unsigned_of_nat take_bit_eq_mod)
  obtain b' where b': "twolevel_insert b i d = Some b'"
    and s: "t_size b' = sz" "t_upper_bucket_size b' = ?u" "length (t_bucket_info b') = sz"
      "length (t_upper_bucket_info b') = sz div ?u + 2" "t_upper_bucket_info b' ! ?g = t_upper_bucket_info b ! ?g"
      "fst (t_bucket_info b' ! ?m) = ucast (word_of_nat i - word_of_nat base :: u64)"
    using b g assms(2) base by (simp add: twolevel_insert_def upper_index_offset_def upper_dest_offset_def Let_def)
  have "twolevel_index_offset b' ?m = Some (base + (i - base) mod 2 ^ 16)"
    using s assms(2) g base cut by (simp add: twolevel_index_offset_def upper_index_offset_def)
  then show ?thesis using b' by blast
qed

text \<open>A witness: a code of 65541 bits makes the second entry read as 5.\<close>

definition sample_table :: twolevel_bucketing where
  "sample_table = the (twolevel_insert (the (twolevel_resize (the twolevel_new) 3 8000 1)) 0 0)"

lemma sample_table_rep: "twolevel_rep sample_table 3 8000 [(0, 0)]"
proof -
  obtain b0 b where b: "twolevel_new = Some b0" "twolevel_resize b0 3 8000 1 = Some b" "twolevel_rep b 3 8000 []"
    using twolevel.create[of 8000 3 1] by (auto simp: twolevel_ops_def)
  moreover have "twolevel_fits 8000 [(0, 0)]" by (simp add: twolevel_fits_def base_entry_def)
  ultimately obtain b' where "twolevel_insert b 0 0 = Some b'" "twolevel_rep b' 3 8000 [(0, 0)]"
    using twolevel.insert[OF b(3), of 0 0] by (auto simp: twolevel_ops_def)
  then show ?thesis unfolding sample_table_def b(1) option.sel b(2) by simp
qed

theorem twolevel_lookup_cuts_witness:
  "\<exists>b'. twolevel_insert sample_table 65541 1 = Some b' \<and> twolevel_index_offset b' 1 = Some 5"
proof -
  have u: "upper_bucket_size 8000 = 2" by (simp add: upper_bucket_size_def)
  show ?thesis
    using twolevel_lookup_cuts[OF sample_table_rep, of 0 65541 1] by (simp add: base_entry_def u)
qed

section \<open>The trie\<close>

text \<open>
  Property C20. Appending the trie of a group of sorted keys to any bit vector keeps the bits
  before it, and looking up the \<open>j\<close>-th key of the group from where the code starts finds a position of
  the block of \<open>j\<close>, not after \<open>j\<close>; with and without the weak ordering.
\<close>

theorem trie_locates_encoded:
  fixes v :: "'a::len word bit_vector"
  assumes "block_type TYPE('a)" "trie_new uninit weak = Some huff" "bv_wf v"
    and "group_ok arr key_len 0 (length arr) skip_bits" "length arr < 2 ^ 63"
  shows "\<exists>v'. trie_encode weak huff v arr key_len 0 (length arr) base kpb skip_bits = Some v' \<and>
    bv_wf v' \<and> take (bv_size v) (bits v') = bits v \<and>
    (\<forall>j<length arr. \<exists>r it. trie_locate weak huff v' (bv_size v) (arr ! j) key_len 0 (length arr) base kpb skip_bits = Some (r, it) \<and>
       r \<le> j \<and> (base + r) div kpb = (base + j) div kpb)"
proof -
  have "trie_ok weak huff" using trie_new_ok[of uninit weak] assms(2) by (metis option.inject)
  from encode_rec_ok[OF assms(1) this assms(5,4,3), of base kpb]
  obtain v' code where v': "encode_rec weak huff v arr key_len 0 (length arr) base kpb skip_bits = Some v'" "bv_wf v'"
      "bits v' = bits v @ code" and reads: "reads weak huff TYPE('a) code arr key_len 0 (length arr) base kpb skip_bits"
    by blast
  have "finds weak huff v' (bv_size v) (arr ! j) key_len 0 (length arr) base kpb skip_bits j" if "j < length arr" for j
    using reads[unfolded reads_def, rule_format, of v' "bits v" "[]"] v'(2,3) that by simp
  then show ?thesis
    using v' by (auto simp: trie_encode_def trie_locate_def finds_def)
qed

text \<open>A witness.\<close>

lemma sample_group: "group_ok [[0x10], [0x20], [0x90]] 1 0 (length [[0x10], [0x20], [0x90 :: byte]]) 0"
proof -
  have "keys_ok \<lparr>l_key_len = 1, l_base = 0, l_kpb = 1, l_skip = 0, l_bits = 0, l_huff = []\<rparr> [[0x10], [0x20], [0x90]]"
    by (simp add: keys_ok_def)
  from keys_of_group[OF this, of 0] show ?thesis by (simp add: keys_of_def bucket_of_def)
qed

theorem trie_locates_encoded_witness:
  "\<exists>huff (v :: 32 word bit_vector) v'. trie_new (\<lambda>_. 0) True = Some huff \<and> bit_vector_new = Some v \<and>
    trie_encode True huff v [[0x10], [0x20], [0x90]] 1 0 (length [[0x10], [0x20], [0x90 :: byte]]) 0 1 0 = Some v' \<and>
    (\<forall>j<length [[0x10], [0x20], [0x90 :: byte]]. \<exists>r it. trie_locate True huff v' (bv_size v) ([[0x10], [0x20], [0x90]] ! j) 1 0
       (length [[0x10], [0x20], [0x90 :: byte]]) 0 1 0 = Some (r, it) \<and> r \<le> j \<and> (0 + r) div 1 = (0 + j) div 1)"
proof -
  obtain huff where h: "trie_new (\<lambda>_. 0) True = Some huff" using trie_new_ok by blast
  obtain v where v: "bit_vector_new = Some (v :: 32 word bit_vector)" "bv_wf v" using bit_vector_new_ok by blast
  have "length [[0x10], [0x20], [0x90 :: byte]] < 2 ^ 63" by simp
  from trie_locates_encoded[OF block_type_widths(3) h v(2) sample_group this, of 0 1]
  show ?thesis using h v(1) by blast
qed

section \<open>Codes\<close>

text \<open>
  Property C26. For every table of at least two and at most 128 frequencies the generator builds a tree. Its longest code, which the
  reverse table looks for, is shorter than the number of symbols. When it has at most 30 bits the coder is constructed with both tables,
  whatever the uninitialized memory holds, and decoding at the position where a symbol was written returns the symbol and the
  position after its code; in particular for up to 31 symbols. With a longer code the construction of the reverse table shifts
  beyond the width of an \<^verbatim>\<open>int\<close>.
\<close>

theorem huffman_roundtrip:
  fixes v :: "'a::len word bit_vector"
  assumes "block_type TYPE('a)" "bv_wf v" "2 \<le> length freqs" "length freqs \<le> 128" "s < length freqs"
  shows "\<exists>t mx. huffman_generate freqs = Some t \<and> find_max_length (length freqs * 2 - 1) t (root t) 0 0 = Some mx \<and> mx < length freqs \<and>
    (if mx \<le> 30 then \<exists>h v'. huffman_new uninit t = Some h \<and>
       huffman_encode h v s = Some v' \<and> huffman_decode h v' (bv_size v) = Some (s, bv_size v')
     else huffman_new uninit t = None)"
proof -
  have "0 < length freqs" "length freqs * 2 - 1 < 256" using assms(3,4) by auto
  then obtain t where t: "huffman_generate freqs = Some t" "num_symbols t = length freqs" "tree_ok t"
    using huffman_generate_ok by blast
  obtain mx where mx: "find_max_length (length freqs * 2 - 1) t (root t) 0 0 = Some mx" "mx < length freqs"
    "mx \<le> 30 \<Longrightarrow> \<exists>h. huffman_new uninit t = Some h \<and> huffman_ok h (length freqs)" "30 < mx \<Longrightarrow> huffman_new uninit t = None"
    by (rule huffman_new_cases[OF t(3), of uninit]) (use assms(3) t(2) in auto)
  have "\<exists>h v'. huffman_new uninit t = Some h \<and> huffman_encode h v s = Some v' \<and> huffman_decode h v' (bv_size v) = Some (s, bv_size v')"
    if le: "mx \<le> 30"
  proof -
    obtain h where h: "huffman_new uninit t = Some h" "huffman_ok h (length freqs)" using mx(3) le by blast
    obtain v' where v': "huffman_encode h v s = Some v'" "bv_wf v'" "bits v' = bits v @ huffman_code h s"
      using huffman_encode_ok[OF assms(1,2) h(2) assms(5)] by blast
    have "bv_size v' = bv_size v + length (huffman_code h s)" using arg_cong[OF v'(3), of length] by simp
    then show ?thesis
      using h(1) v' huffman_decode_ok[OF assms(1) v'(2) h(2) assms(5), of "bits v" "[]"] by auto
  qed
  then show ?thesis using t(1) mx by auto
qed

text \<open>A witness.\<close>

theorem huffman_roundtrip_witness:
  "\<exists>(v :: 32 word bit_vector) t h v'. bit_vector_new = Some v \<and> huffman_generate [1, 2, 1] = Some t \<and>
    huffman_new (\<lambda>_. 0) t = Some h \<and> huffman_encode h v 2 = Some v' \<and>
    huffman_decode h v' (bv_size v) = Some (2, bv_size v')"
proof -
  obtain v where v: "bit_vector_new = Some (v :: 32 word bit_vector)" "bv_wf v" using bit_vector_new_ok by blast
  have three: "mx < length [1, 2, 1 :: u64] \<Longrightarrow> mx \<le> 30" for mx by simp
  show ?thesis using huffman_roundtrip[OF block_type_widths(3) v(2), of "[1, 2, 1]" 2 "\<lambda>_. 0"] three v(1) by fastforce
qed

text \<open>
  The exponential-Golomb coder of every order below the width reads back every number
  it writes. It aborts, on its assertion, exactly for the largest number at order zero.
\<close>

theorem exp_golomb_roundtrip:
  fixes v :: "'a::len word bit_vector" and n :: "'t::len word"
  assumes "block_type TYPE('a)" "block_type TYPE('t)" "bv_wf v" "ord < LENGTH('t)"
  shows "case exp_golomb_encode ord v n of
      None \<Rightarrow> ord = 0 \<and> n = - 1
    | Some v' \<Rightarrow> \<not> (ord = 0 \<and> n = - 1) \<and> exp_golomb_decode ord v' (bv_size v) = Some (n, bv_size v')"
proof (cases "ord = 0 \<and> n = - 1")
  case True
  have "exp_golomb_encode 0 v (- 1 :: 't word) = None"
    using push_zeros_ok[OF assms(1,3), of 0] by (auto simp: exp_golomb_encode_def bit_length_0)
  then show ?thesis using True by simp
next
  case False
  have nz: "exp_golomb_value ord n \<noteq> 0"
  proof
    assume "exp_golomb_value ord n = 0"
    then have "drop_bit ord n = - 1" by (simp add: exp_golomb_value_def eq_neg_iff_add_eq_0)
    then have "bit (drop_bit ord n) (LENGTH('t) - 1)" by (simp add: bit_minus_1_iff)
    then have "bit n (ord + (LENGTH('t) - 1))" by (simp add: bit_drop_bit_eq)
    then have "ord = 0" using bit_imp_le_length len_gt_0[where 'a='t] by fastforce
    then show False using False \<open>drop_bit ord n = - 1\<close> by simp
  qed
  obtain v' where v': "exp_golomb_encode ord v n = Some v'" "bv_wf v'" "bits v' = bits v @ exp_golomb_code ord n"
    using exp_golomb_encode_ok[OF assms nz] by blast
  have "bv_size v' = bv_size v + length (exp_golomb_code ord n)" using arg_cong[OF v'(3), of length] by simp
  then show ?thesis
    using v' False exp_golomb_decode_ok[OF assms(1,2) v'(2) assms(4) nz, of "bits v" "[]"] by auto
qed

text \<open>A witness.\<close>

theorem exp_golomb_roundtrip_witness:
  "\<exists>(v :: 32 word bit_vector). bit_vector_new = Some v \<and> (case exp_golomb_encode 2 v (13 :: u64) of
      None \<Rightarrow> False | Some v' \<Rightarrow> exp_golomb_decode 2 v' (bv_size v) = Some (13 :: u64, bv_size v'))"
proof -
  obtain v where v: "bit_vector_new = Some (v :: 32 word bit_vector)" "bv_wf v" using bit_vector_new_ok by blast
  show ?thesis
    using exp_golomb_roundtrip[OF block_type_widths(3,4) v(2), of 2 13] v(1) by (auto split: option.splits)
qed

section \<open>The bit vector\<close>

text \<open>
  Property C21. A bit vector refines a list of booleans: creation, clearing, adding, removing and reading a bit,
  and adding and reading the low bits of a word keep the invariant and do on the list what their names say.
  Removing aborts exactly on the empty vector, reading a bit exactly outside the vector. (Appending a part of another
  vector and \<^verbatim>\<open>compact\<close> are treated further below.)
\<close>

theorem bit_vector_refines_list:
  fixes v :: "'a::len word bit_vector" and x :: "'t::len word"
  assumes "block_type TYPE('a)" "block_type TYPE('t)" "bv_wf v" "len \<le> LENGTH('t)"
  shows "(\<exists>e. bit_vector_new = Some (e :: 'a word bit_vector) \<and> bv_wf e \<and> bits e = []) \<and>
    bv_wf (bv_clear v) \<and> bits (bv_clear v) = [] \<and>
    (\<exists>v'. push_back v b = Some v' \<and> bv_wf v' \<and> bits v' = bits v @ [b]) \<and>
    (if bits v = [] then pop_back v = None
     else \<exists>v'. pop_back v = Some v' \<and> bv_wf v' \<and> bits v' = butlast (bits v)) \<and>
    bv_index v i = (if i < length (bits v) then Some (bits v ! i) else None) \<and>
    (\<exists>v'. append_value v x len = Some v' \<and> bv_wf v' \<and> bits v' = bits v @ low_bits x len) \<and>
    (if i + len \<le> length (bits v)
     then \<exists>y :: 't word. get_value v i len = Some y \<and> low_bits y len = take len (drop i (bits v)) \<and> take_bit len y = y
     else True)"
proof (intro conjI)
  show "\<exists>e. bit_vector_new = Some (e :: 'a word bit_vector) \<and> bv_wf e \<and> bits e = []"
    using bit_vector_new_ok by blast
  show "bv_wf (bv_clear v)" "bits (bv_clear v) = []"
    by (simp_all add: bv_clear_def bv_wf_def bits_def block_count_0)
  show "\<exists>v'. push_back v b = Some v' \<and> bv_wf v' \<and> bits v' = bits v @ [b]"
    using push_back_ok[OF assms(1,3)] by blast
  show "if bits v = [] then pop_back v = None
     else \<exists>v'. pop_back v = Some v' \<and> bv_wf v' \<and> bits v' = butlast (bits v)"
  proof (cases "bits v = []")
    case True
    then have "bv_size v = 0" by (metis length_bits list.size(3))
    then show ?thesis using True by (simp add: pop_back_def)
  next
    case False
    then show ?thesis using pop_back_ok[OF assms(1,3)] by (metis (full_types))
  qed
  show "bv_index v i = (if i < length (bits v) then Some (bits v ! i) else None)"
    using index_ok[OF assms(1,3)] by (simp add: bv_index_def)
  show "\<exists>v'. append_value v x len = Some v' \<and> bv_wf v' \<and> bits v' = bits v @ low_bits x len"
    using append_value_ok[OF assms(1,2,3,4)] by blast
  show "if i + len \<le> length (bits v)
     then \<exists>y :: 't word. get_value v i len = Some y \<and> low_bits y len = take len (drop i (bits v)) \<and> take_bit len y = y
     else True"
  proof (cases "i + len \<le> length (bits v)")
    case True
    then have "i + len \<le> bv_size v" by simp
    then obtain y where y: "get_value v i len = Some (y :: 't word)" "low_bits y len = take len (drop i (bits v))"
        "\<And>k. bit y k \<Longrightarrow> k < len"
      using get_value_ok[OF assms(1,2,3,4)] by blast
    have "take_bit len y = y" using y(3) by (intro bit_word_eqI) (auto simp: bit_take_bit_iff)
    then show ?thesis using y True by auto
  qed simp
qed

text \<open>A witness.\<close>

theorem bit_vector_refines_list_witness:
  "\<exists>v :: 32 word bit_vector. bit_vector_new = Some v \<and>
    (\<exists>v'. append_value v (6 :: u64) 4 = Some v' \<and> bv_wf v' \<and> bits v' = bits v @ low_bits (6 :: u64) 4)"
proof -
  obtain v where v: "bit_vector_new = Some (v :: 32 word bit_vector)" "bv_wf v" using bit_vector_new_ok by blast
  have "4 \<le> LENGTH(64)" by simp
  then show ?thesis using bit_vector_refines_list[OF block_type_widths(3,4) v(2)] v(1) by blast
qed

text \<open>
  \<open>copy_set\<close> between arrays of any two block widths returns whenever both ranges lie
  inside their arrays; it changes no bit outside the destination range, and inside it the result is
  the disjunction of the old bit and the source bit.
\<close>

theorem copy_set_copies:
  fixes src :: "'s::len word list" and dest :: "'d::len word list"
  assumes "block_type TYPE('d)" "block_type TYPE('s)"
    and "dest_i + count \<le> LENGTH('d) * length dest" "src_i + count \<le> LENGTH('s) * length src"
  shows "\<exists>dest'. copy_set dest dest_i src src_i count = Some dest' \<and> length dest' = length dest \<and>
    (\<forall>j\<in>{0..<LENGTH('d) * length dest}. get_bit_at dest' j = map_option (\<lambda>old. old \<or>
       dest_i \<le> j \<and> j < dest_i + count \<and> get_bit_at src (src_i + (j - dest_i)) = Some True) (get_bit_at dest j))"
proof -
  obtain dest' where d: "copy_set dest dest_i src src_i count = Some dest'" "length dest' = length dest"
      "\<And>j. j < LENGTH('d) * length dest \<Longrightarrow> bitat dest' j \<longleftrightarrow>
        bitat dest j \<or> dest_i \<le> j \<and> j < dest_i + count \<and> bitat src (src_i + (j - dest_i))"
    using copy_set_ok[OF assms] by blast
  have src: "get_bit_at src (src_i + (j - dest_i)) = Some (bitat src (src_i + (j - dest_i)))" if "dest_i \<le> j" "j < dest_i + count" for j
    using assms(4) that by (intro get_bit_at_eq[OF assms(2)]) linarith
  have "get_bit_at dest' j = map_option (\<lambda>old. old \<or> dest_i \<le> j \<and> j < dest_i + count \<and>
      get_bit_at src (src_i + (j - dest_i)) = Some True) (get_bit_at dest j)" if "j < LENGTH('d) * length dest" for j
    using d(3)[OF that] src[of j] that d(2) by (auto simp: get_bit_at_eq[OF assms(1)])
  then show ?thesis using d(1,2) by auto
qed

text \<open>A witness: from a word of 64 bits into two bytes.\<close>

theorem copy_set_copies_witness:
  "\<exists>dest'. copy_set [0 :: 8 word, 0] 3 [0xABC :: u64] 52 12 = Some dest' \<and> length dest' = 2"
  using copy_set_copies[of 3 12 "[0 :: 8 word, 0]" 52 "[0xABC :: u64]"] by auto

text \<open>
  Appending \<open>len\<close> bits of another vector appends them and as many zeros as the other
  vector has bits outside the range, because the new size is computed from the size of the other
  vector.
\<close>

theorem append_vector_overshoots:
  fixes v :: "'a::len word bit_vector" and r :: "'s::len word bit_vector"
  assumes "block_type TYPE('a)" "block_type TYPE('s)" "bv_wf v" "bv_wf r" "i + len \<le> bv_size r"
  shows "\<exists>v'. append_vector v r i len = Some v' \<and> bv_wf v' \<and>
    bits v' = bits v @ take len (drop i (bits r)) @ replicate (bv_size r - len) False"
  using append_vector_ok[OF assms] by blast

text \<open>A witness.\<close>

theorem append_vector_overshoots_witness:
  "\<exists>v r v' :: 8 word bit_vector. bit_vector_new = Some v \<and> push_back v True \<bind> (\<lambda>r. push_back r True) = Some r \<and>
    append_vector v r 0 1 = Some v' \<and> bits v' = [True, False]"
proof -
  obtain v where v: "bit_vector_new = Some (v :: 8 word bit_vector)" "bv_wf v" "bits v = []" using bit_vector_new_ok by blast
  obtain u where u: "push_back v True = Some u" "bv_wf u" "bits u = [True]"
    using push_back_ok[OF block_type_widths(1) v(2), of True] v(3) by auto
  obtain r where r: "push_back u True = Some r" "bv_wf r" "bits r = [True, True]"
    using push_back_ok[OF block_type_widths(1) u(2), of True] u(3) by auto
  have "bv_size r = 2" using arg_cong[OF r(3), of length] by simp
  then obtain v' where v': "append_vector v r 0 1 = Some v'" "bits v' = [True, False]"
    using append_vector_overshoots[OF block_type_widths(1,1) v(2) r(2), of 0 1] r(3) v(3)
    by (auto simp: numeral_2_eq_2)
  show ?thesis
  proof (intro exI conjI)
    show "bit_vector_new = Some v" by (rule v(1))
    show "push_back v True \<bind> (\<lambda>r. push_back r True) = Some r" using u(1) r(1) by simp
    show "append_vector v r 0 1 = Some v'" "bits v' = [True, False]" by (rule v')+
  qed
qed

text \<open>
  \<open>compact\<close> keeps the bits and releases the unused blocks, except that it aborts
  exactly on an allocated vector without bits, such as a new one.
\<close>

theorem compact_aborts_on_empty:
  assumes "bv_wf (v :: 'a::len word bit_vector)"
  shows "case bv_compact v of
      None \<Rightarrow> bv_buf v \<noteq> None \<and> bits v = []
    | Some v' \<Rightarrow> \<not> (bv_buf v \<noteq> None \<and> bits v = []) \<and> bv_wf v' \<and> bits v' = bits v \<and> bv_capacity v' = bv_size v"
  using assms by (rule compact_ok)

text \<open>A witness.\<close>

theorem compact_aborts_on_empty_witness:
  "bit_vector_new \<bind> bv_compact = (None :: 32 word bit_vector option)"
proof -
  obtain v where v: "bit_vector_new = Some (v :: 32 word bit_vector)" "bv_wf v" "bits v = []" using bit_vector_new_ok by blast
  have "bv_buf v \<noteq> None" using v(1) by (auto simp: bit_vector_new_def bv_resize_def Let_def split: if_splits)
  then have "bv_compact v = None"
    using compact_aborts_on_empty[OF v(2)] v(3) by (cases "bv_compact v") auto
  then show ?thesis unfolding v(1) by simp
qed

end
