(* ===== verification/Silt_Types.thy ===== *)
theory Silt_Types
  imports Prelude
begin

text \<open>
  What the SILT stores share: the results of their operations (\<^verbatim>\<open>src/siltds/fawnds_types.h\<close>) and the
  reading of a value as a number (\<^verbatim>\<open>src/siltds/value.h\<close>). A value is the list of its bytes.
\<close>

datatype FawnDS_Return =
    OK | ERROR | UNSUPPORTED | KEY_DELETED | KEY_NOT_FOUND | INVALID_KEY | INVALID_DATA
  | INVALID_LENGTH | INSUFFICIENT_SPACE | END

datatype FawnDS_StatusType = NUM_DATA | NUM_ACTIVE_DATA | CAPACITY | MEMORY_USE | DISK_USE

text \<open>\<^verbatim>\<open>as_number<off_t>\<close>: the value is a signed number of one, two, four or eight bytes.\<close>

definition as_off_t :: "bytes \<Rightarrow> u64 \<Rightarrow> u64" where
  "as_off_t v default_v =
     (if length v = 1 then scast (le_word v :: 8 word)
      else if length v = 2 then scast (le_word v :: 16 word)
      else if length v = 4 then scast (le_word v :: 32 word)
      else if length v = 8 then scast (le_word v :: 64 word)
      else default_v)"

text \<open>\<^verbatim>\<open>NewValue(&id)\<close>: the bytes of an \<open>off_t\<close>.\<close>

definition off_t_value :: "u64 \<Rightarrow> bytes" where
  "off_t_value w = le_bytes 8 w"

lemma as_off_t_value [simp]: "as_off_t (off_t_value w) x = w"
  by (simp add: as_off_t_def off_t_value_def)

lemma sint_of_nat: "n < 2 ^ 63 \<Longrightarrow> sint (word_of_nat n :: u64) = int n"
  by (simp add: sint_uint unsigned_of_nat signed_take_bit_eq_if_positive bit_iff_odd take_bit_nat_eq_self take_bit_int_eq_self)

lemma unat_of_nat_small [simp]: "n < 2 ^ 64 \<Longrightarrow> unat (word_of_nat n :: u64) = n"
  by (simp add: unsigned_of_nat take_bit_nat_eq_self)

lemma of_nat_not_minus_one: "n < 2 ^ 63 \<Longrightarrow> (word_of_nat n :: u64) \<noteq> - 1"
proof
  assume "n < 2 ^ 63" "(word_of_nat n :: u64) = - 1"
  then have "sint (word_of_nat n :: u64) = - 1" by (simp only: sint_n1)
  then show False using sint_of_nat[OF \<open>n < 2 ^ 63\<close>] by simp
qed

end
