(* ===== verification/Trie_Store.thy ===== *)
theory Trie_Store
  imports Bucketing_Index Silt_Types
begin

text \<open>
  The sorted store of SILT, class \<^verbatim>\<open>FawnDS_SF_Ordered_Trie\<close> of
  \<^verbatim>\<open>src/siltds/fawnds_sf_ordered_trie.cc\<close>: a compact index over the keys, and a data store below it
  that keeps key and data of each entry in records of one length. The data store is the one that the
  configuration names; the operations used of it are the record \<open>ds_ops\<close>. A result \<open>None\<close> is an
  aborted run (a failed assertion, a division by zero or \<^verbatim>\<open>std::bad_alloc\<close>).
\<close>

record ('s, 'i) ds_ops =
  ds_create :: "nat \<Rightarrow> 's \<Rightarrow> FawnDS_Return \<times> 's"
  ds_append :: "bytes \<Rightarrow> 's \<Rightarrow> FawnDS_Return \<times> bytes \<times> 's"
  ds_get :: "bytes \<Rightarrow> nat \<Rightarrow> nat \<Rightarrow> 's \<Rightarrow> (FawnDS_Return \<times> bytes \<times> 's) option"
  ds_status :: "FawnDS_StatusType \<Rightarrow> 's \<Rightarrow> FawnDS_Return \<times> int"
  ds_enumerate :: "'s \<Rightarrow> ('i \<times> 's) option"
  ds_next :: "'i \<Rightarrow> 's \<Rightarrow> ('i \<times> 's) option"
  ds_it_state :: "'i \<Rightarrow> FawnDS_Return"
  ds_it_data :: "'i \<Rightarrow> bytes"

text \<open>The configuration that \<open>Create\<close> reads.\<close>

record trie_config =
  tc_key_len :: nat
  tc_data_len :: nat
  tc_keys_per_block :: nat
  tc_size :: nat
  tc_bucket_size :: nat
  tc_skip_bits :: nat

record 's trie_store =
  ts_index :: "twolevel_bucketing bucketing_index option"
  ts_data_store :: 's
  ts_config :: trie_config
  ts_actual_size :: nat

section \<open>Life cycle\<close>

definition trie_store_new :: "'s \<Rightarrow> trie_config \<Rightarrow> 's trie_store" where
  "trie_store_new s c = \<lparr>ts_index = None, ts_data_store = s, ts_config = c, ts_actual_size = 0\<rparr>"

text \<open>Records are four bytes longer than key and data.\<close>

definition ts_create :: "('s, 'i) ds_ops \<Rightarrow> (nat \<Rightarrow> u32) \<Rightarrow> trie_config \<Rightarrow> 's trie_store
    \<Rightarrow> (FawnDS_Return \<times> 's trie_store) option" where
  "ts_create ops uninit c ts =
     (if ts_index ts \<noteq> None then Some (ERROR, ts)
      else let ts = ts\<lparr>ts_config := c, ts_actual_size := 0\<rparr> in
        if tc_key_len c = 0 then Some (ERROR, ts)
        else if tc_data_len c = 0 then Some (ERROR, ts)
        else if tc_keys_per_block c = 0 then Some (ERROR, ts)
        else if tc_bucket_size c = 0 then Some (ERROR, ts)
        else do {
          ix \<leftarrow> bucketing_index_new twolevel_ops uninit (tc_key_len c) (tc_size c) (tc_bucket_size c) 0
                 (tc_keys_per_block c) (tc_skip_bits c);
          let (ret, s) = ds_create ops (tc_key_len c + tc_data_len c + 4) (ts_data_store ts);
          Some (ret, ts\<lparr>ts_index := Some ix, ts_data_store := s\<rparr>)
        })"

definition ts_flush :: "'s trie_store \<Rightarrow> (FawnDS_Return \<times> 's trie_store) option" where
  "ts_flush ts = (case ts_index ts of
      None \<Rightarrow> Some (ERROR, ts)
    | Some ix \<Rightarrow>
        if finalized ix then Some (OK, ts)
        else do { ix \<leftarrow> ix_flush twolevel_ops ix; Some (OK, ts\<lparr>ts_index := Some ix\<rparr>) })"

definition ts_close :: "'s trie_store \<Rightarrow> (FawnDS_Return \<times> 's trie_store) option" where
  "ts_close ts =
     (if ts_index ts = None then Some (OK, ts)
      else do { (ret, ts) \<leftarrow> ts_flush ts; Some (OK, ts\<lparr>ts_index := None\<rparr>) })"

definition ts_open :: "'s trie_store \<Rightarrow> FawnDS_Return \<times> 's trie_store" where
  "ts_open ts = (ERROR, ts)"

text \<open>The numbers in the text that \<open>Status\<close> prints.\<close>

definition ts_status :: "('s, 'i) ds_ops \<Rightarrow> FawnDS_StatusType \<Rightarrow> 's trie_store \<Rightarrow> (FawnDS_Return \<times> int list) option" where
  "ts_status ops type ts = (case ts_index ts of
      None \<Rightarrow> Some (ERROR, [])
    | Some ix \<Rightarrow> (case type of
          NUM_DATA \<Rightarrow> Some (OK, [int (ts_actual_size ts)])
        | NUM_ACTIVE_DATA \<Rightarrow> Some (OK, [int (ts_actual_size ts)])
        | CAPACITY \<Rightarrow> Some (OK, [int (tc_size (ts_config ts))])
        | MEMORY_USE \<Rightarrow> map_option (\<lambda>n. (OK, [int ((n + 7) div 8), 0])) (ix_bit_size twolevel_ops ix)
        | DISK_USE \<Rightarrow> (case ds_status ops DISK_USE (ts_data_store ts) of (ret, n) \<Rightarrow>
            if ret \<noteq> OK then Some (UNSUPPORTED, []) else Some (OK, [0, n]))))"

section \<open>Writing\<close>

definition ts_record :: "bytes \<Rightarrow> bytes \<Rightarrow> bytes" where
  "ts_record key data = key @ data @ [0, 0, 0, 0]"

text \<open>The result of \<open>Append\<close> is not looked at.\<close>

definition ts_put :: "('s, 'i) ds_ops \<Rightarrow> bytes \<Rightarrow> bytes \<Rightarrow> 's trie_store \<Rightarrow> (FawnDS_Return \<times> 's trie_store) option" where
  "ts_put ops key data ts = (case ts_index ts of
      None \<Rightarrow> Some (ERROR, ts)
    | Some ix \<Rightarrow>
        if finalized ix then Some (ERROR, ts)
        else if length key \<noteq> tc_key_len (ts_config ts) then Some (INVALID_KEY, ts)
        else if length data \<noteq> tc_data_len (ts_config ts) then Some (INVALID_DATA, ts)
        else do {
          (ix, inserted) \<leftarrow> ix_insert twolevel_ops ix key;
          let ts = ts\<lparr>ts_index := Some ix\<rparr>;
          if \<not> inserted then Some (INVALID_KEY, ts)
          else let (ret, k, s) = ds_append ops (ts_record key data) (ts_data_store ts) in
            Some (OK, ts\<lparr>ts_data_store := s, ts_actual_size := ts_actual_size ts + 1\<rparr>)
        })"

section \<open>Reading\<close>

text \<open>
  The loop over the records of a block, \<open>n\<close> of them left, from record \<open>i\<close> on. \<open>offset\<close> is checked,
  but always the whole data is returned.
\<close>

primrec ts_get_loop :: "('s, 'i) ds_ops \<Rightarrow> trie_config \<Rightarrow> bytes \<Rightarrow> nat \<Rightarrow> nat \<Rightarrow> nat \<Rightarrow> 's
    \<Rightarrow> (FawnDS_Return \<times> bytes \<times> 's) option" where
  "ts_get_loop ops c key offset i 0 s = Some (KEY_NOT_FOUND, [], s)"
| "ts_get_loop ops c key offset i (Suc n) s = do {
     (ret_get, ret_key, s) \<leftarrow> ds_get ops (off_t_value (word_of_nat i)) 0 (tc_key_len c) s;
     if ret_get = END then Some (KEY_NOT_FOUND, [], s)
     else if ret_get \<noteq> OK then Some (ret_get, [], s)
     else if length ret_key \<noteq> tc_key_len c then Some (ERROR, [], s)
     else if key \<noteq> ret_key then ts_get_loop ops c key offset (i + 1) n s
     else if tc_data_len c < offset then Some (END, [], s)
     else do {
       (ret_get, data, s) \<leftarrow> ds_get ops (off_t_value (word_of_nat i)) (tc_key_len c) (tc_data_len c) s;
       if ret_get \<noteq> OK then Some (ret_get, data, s)
       else if length data \<noteq> tc_data_len c then Some (ERROR, data, s)
       else Some (OK, data, s)
     }
   }"

definition ts_get :: "('s, 'i) ds_ops \<Rightarrow> bytes \<Rightarrow> nat \<Rightarrow> 's trie_store \<Rightarrow> (FawnDS_Return \<times> bytes \<times> 's trie_store) option" where
  "ts_get ops key offset ts = (case ts_index ts of
      None \<Rightarrow> Some (ERROR, [], ts)
    | Some ix \<Rightarrow>
        if \<not> finalized ix then Some (ERROR, [], ts)
        else if length key = 0 then Some (INVALID_KEY, [], ts)
        else if length key \<noteq> tc_key_len (ts_config ts) then Some (INVALID_KEY, [], ts)
        else do {
          base_idx \<leftarrow> ix_locate twolevel_ops ix key;
          let kpb = tc_keys_per_block (ts_config ts);
          (ret, data, s) \<leftarrow> ts_get_loop ops (ts_config ts) key offset (base_idx div kpb * kpb) kpb (ts_data_store ts);
          Some (ret, data, ts\<lparr>ts_data_store := s\<rparr>)
        })"

definition ts_contains :: "('s, 'i) ds_ops \<Rightarrow> bytes \<Rightarrow> 's trie_store \<Rightarrow> (FawnDS_Return \<times> 's trie_store) option" where
  "ts_contains ops key ts = (case ts_index ts of
      None \<Rightarrow> Some (ERROR, ts)
    | Some ix \<Rightarrow>
        if \<not> finalized ix then Some (ERROR, ts)
        else if length key \<noteq> tc_key_len (ts_config ts) then Some (INVALID_KEY, ts)
        else do { (ret, data, ts) \<leftarrow> ts_get ops key 0 ts; Some (ret, ts) })"

definition ts_length :: "('s, 'i) ds_ops \<Rightarrow> bytes \<Rightarrow> 's trie_store \<Rightarrow> (FawnDS_Return \<times> nat \<times> 's trie_store) option" where
  "ts_length ops key ts = (case ts_index ts of
      None \<Rightarrow> Some (ERROR, 0, ts)
    | Some ix \<Rightarrow>
        if \<not> finalized ix then Some (ERROR, 0, ts)
        else if length key \<noteq> tc_key_len (ts_config ts) then Some (INVALID_KEY, 0, ts)
        else do { (ret, ts) \<leftarrow> ts_contains ops key ts; Some (ret, tc_data_len (ts_config ts), ts) })"

section \<open>Iterating\<close>

record 'i trie_iterator =
  ti_state :: FawnDS_Return
  ti_key :: bytes
  ti_data :: bytes
  ti_data_store_it :: 'i

definition ti_parse :: "('s, 'i) ds_ops \<Rightarrow> trie_config \<Rightarrow> 'i trie_iterator \<Rightarrow> 'i trie_iterator" where
  "ti_parse ops c it =
     (let d = ti_data_store_it it in
      if ds_it_state ops d = OK
      then it\<lparr>ti_state := OK, ti_key := take (tc_key_len c) (ds_it_data ops d),
        ti_data := take (tc_data_len c) (drop (tc_key_len c) (ds_it_data ops d))\<rparr>
      else if ds_it_state ops d = END then it\<lparr>ti_state := END\<rparr> else it\<lparr>ti_state := ERROR\<rparr>)"

text \<open>The outer option is an abort; \<open>None\<close> inside is the empty iterator of a store not ready.\<close>

definition ts_enumerate :: "('s, 'i) ds_ops \<Rightarrow> 's trie_store \<Rightarrow> ('i trie_iterator option \<times> 's trie_store) option" where
  "ts_enumerate ops ts = (case ts_index ts of
      None \<Rightarrow> Some (None, ts)
    | Some ix \<Rightarrow>
        if \<not> finalized ix then Some (None, ts)
        else do {
          (d, s) \<leftarrow> ds_enumerate ops (ts_data_store ts);
          Some (Some (ti_parse ops (ts_config ts) \<lparr>ti_state = END, ti_key = [], ti_data = [], ti_data_store_it = d\<rparr>),
            ts\<lparr>ts_data_store := s\<rparr>)
        })"

definition ti_next :: "('s, 'i) ds_ops \<Rightarrow> 'i trie_iterator \<Rightarrow> 's trie_store \<Rightarrow> ('i trie_iterator \<times> 's trie_store) option" where
  "ti_next ops it ts = do {
     (d, s) \<leftarrow> ds_next ops (ti_data_store_it it) (ts_data_store ts);
     Some (ti_parse ops (ts_config ts) (it\<lparr>ti_data_store_it := d\<rparr>), ts\<lparr>ts_data_store := s\<rparr>)
   }"

text \<open>Putting a sequence of entries; the results of the single calls are collected.\<close>

fun ts_put_all :: "('s, 'i) ds_ops \<Rightarrow> (bytes \<times> bytes) list \<Rightarrow> 's trie_store \<Rightarrow> (FawnDS_Return list \<times> 's trie_store) option" where
  "ts_put_all ops [] ts = Some ([], ts)"
| "ts_put_all ops ((k, d) # kvs) ts = do {
     (ret, ts) \<leftarrow> ts_put ops k d ts;
     (rets, ts) \<leftarrow> ts_put_all ops kvs ts;
     Some (ret # rets, ts)
   }"

end
