(* ===== verification/File_Io.thy ===== *)
theory File_Io
  imports Posix_File
begin

text \<open>
  The I/O layer of the SILT file store: \<^verbatim>\<open>int_pread\<close>, \<^verbatim>\<open>int_pwritev\<close>, \<^verbatim>\<open>int_sync\<close> and the sync task of
  \<^verbatim>\<open>src/siltds/file_store.cc\<close>. Reads go through a direct-mapped cache of pages; a read that
  misses it uses a buffered descriptor when its chunk has writes that are not synced, and the
  descriptor opened with \<open>O_DIRECT\<close> otherwise.

  \<open>io_file\<close> is the file as buffered reads and writes see it, \<open>io_disk\<close> what is on the device; the
  code takes direct reads to see the latter ("the chunk is marked as dirty -- direct I/O cannot be
  used"), and \<open>fdatasync\<close> brings it up to the former. Offsets are the unsigned readings of
  \<open>off_t\<close> values: those from \<open>2 ^ 63\<close> on are the negative ones, which the system calls refuse.
\<close>

definition page_size :: nat where "page_size = 512"
definition cache_size :: nat where "cache_size = 128"
definition chunk_size :: nat where "chunk_size = 1048576"

record cache_entry =
  ce_valid :: bool
  ce_offset :: nat
  ce_data :: bytes

record file_io =
  io_open :: bool
  io_buffered_only :: bool
  io_file :: os_file
  io_disk :: bytes
  io_dirty :: "bool list"
  io_syncing :: "bool list"
  io_sync_queued :: bool
  io_cache :: "cache_entry list"

section \<open>Reading\<close>

definition cache_index :: "nat \<Rightarrow> nat" where
  "cache_index offset = (offset div page_size) mod cache_size"

definition pages :: "nat \<Rightarrow> nat \<Rightarrow> nat list" where
  "pages offset count = map (\<lambda>k. offset + k * page_size) [0..<count div page_size]"

definition cached :: "cache_entry list \<Rightarrow> nat \<Rightarrow> bool" where
  "cached cache offset \<longleftrightarrow> ce_valid (cache ! cache_index offset) \<and> ce_offset (cache ! cache_index offset) = offset"

definition cache_put :: "bytes \<Rightarrow> nat \<Rightarrow> nat \<Rightarrow> cache_entry list \<Rightarrow> cache_entry list" where
  "cache_put buf req_offset offset cache =
     cache[cache_index offset := \<lparr>ce_valid = True, ce_offset = offset,
       ce_data = take page_size (drop (offset - req_offset) buf)\<rparr>]"

text \<open>The descriptor: only the chunk in which the request begins is looked at.\<close>

definition use_direct :: "file_io \<Rightarrow> nat \<Rightarrow> bool \<Rightarrow> bool" where
  "use_direct io req_offset readahead \<longleftrightarrow> \<not> readahead \<and> \<not> io_buffered_only io \<and>
     \<not> (req_offset div chunk_size < length (io_dirty io) \<and> io_dirty io ! (req_offset div chunk_size))"

definition read_fd :: "file_io \<Rightarrow> nat \<Rightarrow> nat \<Rightarrow> bool \<Rightarrow> bytes" where
  "read_fd io req_count req_offset readahead =
     (if use_direct io req_offset readahead then take req_count (drop req_offset (io_disk io))
      else pread (io_file io) req_count req_offset)"

text \<open>
  The result is the bytes read (their number is the final value of \<^verbatim>\<open>count\<close>) and the layer with its
  cache updated; \<open>None\<close> is the result false.
\<close>

definition int_pread :: "file_io \<Rightarrow> nat \<Rightarrow> nat \<Rightarrow> bool \<Rightarrow> (bytes \<times> file_io) option" where
  "int_pread io count offset readahead =
     (if \<not> io_open io then None
      else let to_discard = offset mod page_size;
               req_offset = offset - to_discard;
               req_count = (to_discard + count + page_size - 1) div page_size * page_size;
               small = (req_count \<le> page_size * cache_size);
               ps = pages req_offset req_count in
        if small \<and> (\<forall>p\<in>set ps. cached (io_cache io) p)
        then Some (take count (drop to_discard (concat (map (\<lambda>p. ce_data (io_cache io ! cache_index p)) ps))), io)
        else if 2 ^ 63 \<le> req_offset then None
        else let buf = read_fd io req_count req_offset readahead;
                 cache' = (if small
                   then fold (cache_put buf req_offset) (pages req_offset (length buf)) (io_cache io)
                   else io_cache io) in
          Some (take count (drop to_discard buf), io\<lparr>io_cache := cache'\<rparr>))"

section \<open>Writing\<close>

definition start_chunk :: "nat \<Rightarrow> nat" where
  "start_chunk offset = offset div chunk_size"

definition end_chunk :: "nat \<Rightarrow> nat \<Rightarrow> nat" where
  "end_chunk offset write_size = (offset + write_size + chunk_size - 1) mod 2 ^ 64 div chunk_size + 1"

definition set_range :: "bool \<Rightarrow> nat \<Rightarrow> nat \<Rightarrow> bool list \<Rightarrow> bool list" where
  "set_range b s e xs = map (\<lambda>i. if s \<le> i \<and> i < e then b else xs ! i) [0..<length xs]"

text \<open>Under the shared lock, before the write.\<close>

definition mark_before :: "nat \<Rightarrow> nat \<Rightarrow> file_io \<Rightarrow> file_io" where
  "mark_before s e io = io\<lparr>io_dirty := set_range True s e (io_dirty io),
     io_syncing := set_range False s e (io_syncing io)\<rparr>"

definition do_write :: "bytes \<Rightarrow> nat \<Rightarrow> file_io \<Rightarrow> int \<times> file_io" where
  "do_write bs offset io = (let (n, f) = pwrite (io_file io) bs offset in (n, io\<lparr>io_file := f\<rparr>))"

text \<open>Under the exclusive lock, after the write: new chunks are added as dirty.\<close>

definition mark_after :: "nat \<Rightarrow> nat \<Rightarrow> file_io \<Rightarrow> file_io" where
  "mark_after s e io = io\<lparr>io_dirty := set_range True s e (io_dirty io) @ replicate (e - length (io_dirty io)) True\<rparr>"

definition invalidate :: "nat \<Rightarrow> cache_entry list \<Rightarrow> cache_entry list" where
  "invalidate offset cache =
     (if cached cache offset
      then cache[cache_index offset := (cache ! cache_index offset)\<lparr>ce_valid := False\<rparr>] else cache)"

definition touched_pages :: "nat \<Rightarrow> int \<Rightarrow> nat list" where
  "touched_pages offset written =
     filter (\<lambda>p. int p < int offset + written)
       (map (\<lambda>k. offset - offset mod page_size + k * page_size)
         [0..<(nat written + offset mod page_size) div page_size + 1])"

definition invalidate_range :: "nat \<Rightarrow> int \<Rightarrow> file_io \<Rightarrow> file_io" where
  "invalidate_range offset written io = io\<lparr>io_cache := fold invalidate (touched_pages offset written) (io_cache io)\<rparr>"

text \<open>
  The test of the number of written bytes compares a signed with an unsigned number, so \<open>-1\<close> counts
  as the largest one.
\<close>

definition int_pwritev :: "file_io \<Rightarrow> bytes \<Rightarrow> nat \<Rightarrow> bool \<times> file_io" where
  "int_pwritev io bs offset =
     (if \<not> io_open io then (False, io)
      else let s = start_chunk offset; e = end_chunk offset (length bs);
               (written, io) = do_write bs offset (mark_before s e io);
               io = invalidate_range offset written (mark_after s e io) in
        (\<not> (word_of_int written :: u64) < word_of_nat (length bs), io))"

section \<open>Syncing\<close>

text \<open>The three sections of \<^verbatim>\<open>SyncTask::Run\<close>.\<close>

definition sync_start :: "file_io \<Rightarrow> file_io" where
  "sync_start io = io\<lparr>io_syncing := io_dirty io\<rparr>"

definition sync_data :: "file_io \<Rightarrow> file_io" where
  "sync_data io = io\<lparr>io_disk := fdata (io_file io)\<rparr>"

definition sync_finish :: "file_io \<Rightarrow> file_io" where
  "sync_finish io =
     (let n = length (io_dirty io);
          syncing = take n (io_syncing io) @ replicate (n - length (io_syncing io)) False in
      io\<lparr>io_syncing := syncing, io_dirty := map (\<lambda>i. io_dirty io ! i \<and> \<not> syncing ! i) [0..<n]\<rparr>)"

definition sync_run :: "bool \<Rightarrow> file_io \<Rightarrow> file_io" where
  "sync_run fdatasync_ok io =
     (let io = sync_start io in if fdatasync_ok then sync_finish (sync_data io) else io)"

text \<open>
  The task runs on a thread of its own and holds \<^verbatim>\<open>sync_mutex_\<close> from its creation to its end:
  \<open>io_sync_queued\<close> says that one exists.
\<close>

definition run_sync_task :: "bool \<Rightarrow> file_io \<Rightarrow> file_io" where
  "run_sync_task fdatasync_ok io =
     (if io_sync_queued io then (sync_run fdatasync_ok io)\<lparr>io_sync_queued := False\<rparr> else io)"

definition enqueue_sync :: "file_io \<Rightarrow> bool \<times> file_io" where
  "enqueue_sync io =
     (if \<not> io_open io then (False, io)
      else if \<not> (\<exists>d\<in>set (io_dirty io). d) then (True, io)
      else (True, io\<lparr>io_sync_queued := True\<rparr>))"

text \<open>
  A call that blocks waits for the lock, that is, for a task already queued, and again for its own;
  one that does not gives up when the lock is held. \<open>ok1\<close> and \<open>ok2\<close> are the results of \<open>fdatasync\<close>
  in the two tasks.
\<close>

definition int_sync :: "bool \<Rightarrow> bool \<Rightarrow> bool \<Rightarrow> file_io \<Rightarrow> bool \<times> file_io" where
  "int_sync ok1 ok2 blocking io =
     (if blocking
      then (let (ret, io) = enqueue_sync (run_sync_task ok1 io) in (ret, run_sync_task ok2 io))
      else if io_sync_queued io then (True, io) else enqueue_sync io)"

section \<open>Opening and closing\<close>

definition empty_cache :: "cache_entry list" where
  "empty_cache = replicate cache_size \<lparr>ce_valid = False, ce_offset = 0, ce_data = replicate page_size 0\<rparr>"

definition int_initialize :: "os_file \<Rightarrow> file_io" where
  "int_initialize f = \<lparr>io_open = False, io_buffered_only = False, io_file = f, io_disk = fdata f,
     io_dirty = [], io_syncing = [], io_sync_queued = False, io_cache = empty_cache\<rparr>"

text \<open>
  \<open>ok1\<close> is the result of the first call of \<^verbatim>\<open>open\<close>, which truncates the file if it is asked to,
  \<open>ok2\<close> that of the calls after it.
\<close>

definition int_open :: "bool \<Rightarrow> bool \<Rightarrow> bool \<Rightarrow> file_io \<Rightarrow> bool \<times> file_io" where
  "int_open ok1 ok2 trunc io =
     (if io_open io then (False, io)
      else if \<not> ok1 then (False, io)
      else let io = (if trunc then io\<lparr>io_file := (io_file io)\<lparr>fdata := []\<rparr>, io_disk := []\<rparr> else io) in
        if \<not> ok2 then (False, io) else (True, io\<lparr>io_open := True\<rparr>))"

text \<open>Closing waits for a queued task as well.\<close>

definition int_close :: "bool \<Rightarrow> file_io \<Rightarrow> bool \<times> file_io" where
  "int_close fdatasync_ok io =
     (let io = run_sync_task fdatasync_ok io in
      if \<not> io_open io then (False, io)
      else (True, io\<lparr>io_open := False, io_dirty := [], io_syncing := [], io_cache := empty_cache\<rparr>))"

end
