(* ===== verification/File_Io_Correct.thy ===== *)
theory File_Io_Correct
  imports File_Io
begin

text \<open>
  The page cache and the choice of descriptors are invisible: a read returns the bytes of the
  file. The invariant says that valid cache entries hold pages of the file and that the chunks
  not marked dirty are on the disk.
\<close>

section \<open>Pages and chunks of a byte string\<close>

definition slice :: "bytes \<Rightarrow> nat \<Rightarrow> nat \<Rightarrow> bytes" where
  "slice d a n = take n (drop a d)"

lemma slice_sub: "slice d a n = slice d' a n \<Longrightarrow> a \<le> b \<Longrightarrow> b + m \<le> a + n \<Longrightarrow> slice d b m = slice d' b m"
proof -
  assume eq: "slice d a n = slice d' a n" and le: "a \<le> b" "b + m \<le> a + n"
  have "slice e b m = take m (drop (b - a) (slice e a n))" for e
    using le by (simp add: slice_def drop_take min_def)
  then show ?thesis using eq by simp
qed

lemma take_drop_slice: "t + n \<le> m \<Longrightarrow> take n (drop t (slice d a m)) = slice d (a + t) n"
  by (simp add: slice_def drop_take add.commute min_def)

lemma slice_split: "slice d a (n + m) = slice d a n @ slice d (a + n) m"
  unfolding slice_def take_add drop_drop by (simp add: add.commute)

lemma slice_length_self: "slice d a (length (slice d a n)) = slice d a n"
  by (simp add: slice_def min_def)

definition chunk_of :: "bytes \<Rightarrow> nat \<Rightarrow> bytes" where
  "chunk_of d k = slice d (k * chunk_size) chunk_size"

definition is_dirty :: "file_io \<Rightarrow> nat \<Rightarrow> bool" where
  "is_dirty io k \<longleftrightarrow> k < length (io_dirty io) \<and> io_dirty io ! k"

definition entry_ok :: "bytes \<Rightarrow> nat \<Rightarrow> cache_entry \<Rightarrow> bool" where
  "entry_ok d i e \<longleftrightarrow> (ce_valid e \<longrightarrow> ce_offset e mod page_size = 0 \<and> cache_index (ce_offset e) = i \<and>
     ce_offset e + page_size \<le> length d \<and> ce_data e = slice d (ce_offset e) page_size)"

definition cache_inv :: "bytes \<Rightarrow> cache_entry list \<Rightarrow> bool" where
  "cache_inv d c \<longleftrightarrow> length c = cache_size \<and> (\<forall>i<cache_size. entry_ok d i (c ! i))"

definition cache_ok :: "file_io \<Rightarrow> bool" where
  "cache_ok io \<longleftrightarrow> cache_inv (fdata (io_file io)) (io_cache io)"

definition disk_ok :: "file_io \<Rightarrow> bool" where
  "disk_ok io \<longleftrightarrow> (\<forall>k. \<not> is_dirty io k \<longrightarrow> chunk_of (io_disk io) k = chunk_of (fdata (io_file io)) k)"

definition io_inv :: "file_io \<Rightarrow> bool" where
  "io_inv io \<longleftrightarrow> cache_ok io \<and> disk_ok io"

lemma page_pos [simp]: "0 < page_size" "0 < cache_size" "0 < chunk_size"
  by (simp_all add: page_size_def cache_size_def chunk_size_def)

lemma page_dvd_chunk: "page_size dvd chunk_size"
  unfolding page_size_def chunk_size_def by (rule dvdI[of _ _ 2048]) simp

lemma cache_index_less [simp]: "cache_index p < cache_size"
  by (simp add: cache_index_def)

section \<open>Reading\<close>

text \<open>The requested region: the least whole number of pages.\<close>

lemma page_round:
  fixes n P :: nat
  assumes "0 < P"
  shows "n \<le> (n + P - 1) div P * P" and "n \<le> m * P \<Longrightarrow> (n + P - 1) div P * P \<le> m * P"
proof -
  have "n + P - 1 = (n + P - 1) div P * P + (n + P - 1) mod P" by (rule div_mult_mod_eq[symmetric])
  moreover have "(n + P - 1) mod P < P" using assms by (rule mod_less_divisor)
  ultimately show "n \<le> (n + P - 1) div P * P" using assms by linarith
  assume "n \<le> m * P"
  then have "n + P - 1 < Suc m * P" using assms by simp
  then have "(n + P - 1) div P < Suc m" by (rule less_mult_imp_div_less)
  then show "(n + P - 1) div P * P \<le> m * P" by (intro mult_le_mono1) simp
qed

lemma req_in_chunk:
  fixes offset count :: nat
  defines "t \<equiv> offset mod page_size"
  defines "req \<equiv> (t + count + page_size - 1) div page_size * page_size"
  assumes "offset mod chunk_size + count \<le> chunk_size"
  shows "offset div chunk_size * chunk_size \<le> offset - t"
    and "offset - t + req \<le> offset div chunk_size * chunk_size + chunk_size"
    and "(offset - t) div chunk_size = offset div chunk_size"
proof -
  let ?k = "offset div chunk_size"
  obtain m where m: "chunk_size = page_size * m" using page_dvd_chunk by (rule dvdE)
  define q r where "q = offset div page_size" and "r = ?k * m"
  have off: "offset - t = q * page_size" unfolding t_def q_def by (simp add: minus_mod_eq_div_mult)
  have ot: "offset = q * page_size + t" unfolding t_def q_def by simp
  have "?k = q div m" unfolding q_def m by (simp add: div_mult2_eq)
  then have rq: "r \<le> q" unfolding r_def by (metis div_times_less_eq_dividend)
  have kc: "?k * chunk_size = r * page_size" unfolding r_def m by simp
  show 1: "?k * chunk_size \<le> offset - t" unfolding off kc using rq by (rule mult_le_mono1)
  have "offset = ?k * chunk_size + offset mod chunk_size" by simp
  then have "offset + count \<le> ?k * chunk_size + chunk_size" using assms(3) by linarith
  moreover have "(r + m) * page_size = r * page_size + chunk_size" unfolding m by (simp add: add_mult_distrib)
  then have rm: "(r + m) * page_size = ?k * chunk_size + chunk_size" unfolding kc .
  ultimately have up: "q * page_size + (t + count) \<le> (r + m) * page_size" using ot by linarith
  then have "q * page_size \<le> (r + m) * page_size" by linarith
  then have qm: "q \<le> r + m" by simp
  have "t + count \<le> (r + m - q) * page_size" using up by (simp add: diff_mult_distrib)
  then have "req \<le> (r + m - q) * page_size" unfolding req_def by (rule page_round(2)[OF page_pos(1)])
  then have "offset - t + req \<le> q * page_size + (r + m - q) * page_size" unfolding off by simp
  also have "\<dots> = (r + m) * page_size" using qm by (simp flip: add_mult_distrib)
  finally show "offset - t + req \<le> ?k * chunk_size + chunk_size" unfolding rm .
  show "(offset - t) div chunk_size = ?k"
    using div_le_mono[of "offset - t" offset chunk_size] div_le_mono[OF 1, of chunk_size] by simp
qed

lemma read_fd_slice:
  assumes "disk_ok io" "readahead \<or> io_buffered_only io \<or>
      req_offset div chunk_size * chunk_size + chunk_size \<ge> req_offset + req_count"
  shows "read_fd io req_count req_offset readahead = slice (fdata (io_file io)) req_offset req_count"
proof (cases "use_direct io req_offset readahead")
  case True
  let ?k = "req_offset div chunk_size"
  have "chunk_of (io_disk io) ?k = chunk_of (fdata (io_file io)) ?k"
    using assms(1) True by (simp add: disk_ok_def use_direct_def is_dirty_def)
  then have "slice (io_disk io) req_offset req_count = slice (fdata (io_file io)) req_offset req_count"
    unfolding chunk_of_def using assms(2) True by (elim slice_sub) (auto simp: use_direct_def)
  then show ?thesis using True by (simp add: read_fd_def slice_def)
qed (simp add: read_fd_def slice_def pread_def)

lemma cached_pages:
  assumes "cache_ok io" "\<And>k. k < n \<Longrightarrow> cached (io_cache io) (off + k * page_size)"
  shows "concat (map (\<lambda>k. ce_data (io_cache io ! cache_index (off + k * page_size))) [0..<n]) =
    slice (fdata (io_file io)) off (n * page_size)"
  using assms(2)
proof (induction n)
  case 0
  then show ?case by (simp add: slice_def)
next
  case (Suc n)
  let ?e = "io_cache io ! cache_index (off + n * page_size)"
  have "cached (io_cache io) (off + n * page_size)" using Suc.prems by blast
  moreover have "entry_ok (fdata (io_file io)) (cache_index (off + n * page_size)) ?e"
    using assms(1) by (simp add: cache_ok_def cache_inv_def)
  ultimately have "ce_data ?e = slice (fdata (io_file io)) (off + n * page_size) page_size"
    by (simp add: cached_def entry_ok_def)
  moreover have "slice (fdata (io_file io)) off (Suc n * page_size) =
      slice (fdata (io_file io)) off (n * page_size) @ slice (fdata (io_file io)) (off + n * page_size) page_size"
    using slice_split[of "fdata (io_file io)" off "n * page_size" page_size] by (simp add: add.commute)
  ultimately show ?case using Suc by simp
qed

lemma fold_cache_put:
  assumes "\<And>p. p \<in> set ps \<Longrightarrow> p mod page_size = 0 \<and> p + page_size \<le> length d \<and>
      take page_size (drop (p - off) buf) = slice d p page_size"
    and "cache_inv d cache"
  shows "cache_inv d (fold (cache_put buf off) ps cache)"
  using assms
proof (induction ps arbitrary: cache)
  case (Cons p ps)
  have "entry_ok d (cache_index p) \<lparr>ce_valid = True, ce_offset = p, ce_data = take page_size (drop (p - off) buf)\<rparr>"
    using Cons.prems(1)[of p] by (simp add: entry_ok_def)
  then have "cache_inv d (cache_put buf off p cache)"
    using Cons.prems(2) by (simp add: cache_put_def cache_inv_def nth_list_update)
  then show ?case using Cons.IH[of "cache_put buf off p cache"] Cons.prems(1) by simp
qed simp

text \<open>A read is right when the bytes asked for are, and the cache stays right when all bytes read are.\<close>

lemma int_pread_gen:
  fixes io count offset readahead
  defines "t \<equiv> offset mod page_size"
  defines "off \<equiv> offset - t"
  defines "req \<equiv> (t + count + page_size - 1) div page_size * page_size"
  defines "buf \<equiv> read_fd io req off readahead"
  defines "d \<equiv> fdata (io_file io)"
  assumes co: "cache_ok io" and op: "io_open io" and pos: "offset < 2 ^ 63"
    and part: "buf = slice d off (length buf)"
    and whole: "take count (drop t buf) = slice d offset count"
  shows "\<exists>cache'. int_pread io count offset readahead = Some (pread (io_file io) count offset, io\<lparr>io_cache := cache'\<rparr>) \<and>
    cache_ok (io\<lparr>io_cache := cache'\<rparr>)"
proof -
  note int_pread_unfold = int_pread_def[of io count offset readahead, unfolded Let_def, folded t_def,
      folded off_def, folded req_def, folded buf_def]
  have cover: "t + count \<le> req" unfolding req_def by (rule page_round(1)[OF page_pos(1)])
  have off_t: "off + t = offset" unfolding off_def t_def by simp
  have aligned: "off mod page_size = 0" unfolding off_def t_def by (simp add: minus_mod_eq_mult_div)
  have pr: "slice d offset count = pread (io_file io) count offset" by (simp add: slice_def pread_def d_def)
  show ?thesis
  proof (cases "req \<le> page_size * cache_size \<and> (\<forall>p\<in>set (pages off req). cached (io_cache io) p)")
    case True
    have n: "req div page_size * page_size = req" unfolding req_def by simp
    from True have "\<And>k. k < req div page_size \<Longrightarrow> cached (io_cache io) (off + k * page_size)"
      by (auto simp: pages_def)
    from cached_pages[OF co this]
    have "concat (map (\<lambda>p. ce_data (io_cache io ! cache_index p)) (pages off req)) = slice d off req"
      unfolding pages_def map_map comp_def using n by (simp add: d_def)
    moreover have "take count (drop t (slice d off req)) = pread (io_file io) count offset"
      using take_drop_slice[OF cover, of d off] off_t pr by simp
    ultimately have "int_pread io count offset readahead = Some (pread (io_file io) count offset, io)"
      using op True unfolding int_pread_unfold by simp
    then show ?thesis using co by (intro exI[of _ "io_cache io"]) simp
  next
    case False
    let ?c = "if req \<le> page_size * cache_size then fold (cache_put buf off) (pages off (length buf)) (io_cache io) else io_cache io"
    have run: "int_pread io count offset readahead = Some (pread (io_file io) count offset, io\<lparr>io_cache := ?c\<rparr>)"
      using op False whole pos off_t unfolding int_pread_unfold pr by auto
    have page: "p mod page_size = 0 \<and> p + page_size \<le> length d \<and> take page_size (drop (p - off) buf) = slice d p page_size"
      if "p \<in> set (pages off (length buf))" for p
    proof -
      from that obtain k where k: "p = off + k * page_size" "k < length buf div page_size"
        unfolding pages_def by fastforce
      then have "Suc k * page_size \<le> length buf div page_size * page_size" by (intro mult_le_mono1) simp
      also have "\<dots> \<le> length buf" by (rule div_times_less_eq_dividend)
      finally have le: "k * page_size + page_size \<le> length buf" by simp
      moreover have "length buf \<le> length d - off" by (subst part) (simp add: slice_def)
      ultimately have "p + page_size \<le> length d" using k(1) page_pos(1) by linarith
      moreover have "p mod page_size = 0" using k(1) aligned by simp
      moreover have "take page_size (drop (p - off) buf) = slice d p page_size"
        using take_drop_slice[OF le, of d off] k(1) part by simp
      ultimately show ?thesis by simp
    qed
    have "cache_inv d ?c" using fold_cache_put[OF page] co by (simp add: cache_ok_def d_def)
    then have "cache_ok (io\<lparr>io_cache := ?c\<rparr>)" by (simp add: cache_ok_def d_def)
    then show ?thesis using run by blast
  qed
qed

lemma io_inv_cache: "io_inv io \<Longrightarrow> cache_ok (io\<lparr>io_cache := c\<rparr>) \<Longrightarrow> io_inv (io\<lparr>io_cache := c\<rparr>)"
  by (simp add: io_inv_def disk_ok_def is_dirty_def)

lemma int_pread_ok:
  assumes inv: "io_inv io" and op: "io_open io" and pos: "offset < 2 ^ 63"
    and chunk: "readahead \<or> io_buffered_only io \<or> offset mod chunk_size + count \<le> chunk_size"
  shows "\<exists>cache'. int_pread io count offset readahead = Some (pread (io_file io) count offset, io\<lparr>io_cache := cache'\<rparr>) \<and>
    io_inv (io\<lparr>io_cache := cache'\<rparr>)"
proof -
  define t where "t = offset mod page_size"
  define off where "off = offset - t"
  define req where "req = (t + count + page_size - 1) div page_size * page_size"
  let ?d = "fdata (io_file io)"
  have cover: "t + count \<le> req" unfolding req_def by (rule page_round(1)[OF page_pos(1)])
  have off_t: "off + t = offset" unfolding off_def t_def by simp
  have co: "cache_ok io" "disk_ok io" using inv by (auto simp: io_inv_def)
  have buf: "read_fd io req off readahead = slice ?d off req"
  proof (rule read_fd_slice[OF co(2)])
    show "readahead \<or> io_buffered_only io \<or> off + req \<le> off div chunk_size * chunk_size + chunk_size"
      using chunk req_in_chunk[of offset count] unfolding off_def t_def req_def by auto
  qed
  have "\<exists>cache'. int_pread io count offset readahead = Some (pread (io_file io) count offset, io\<lparr>io_cache := cache'\<rparr>) \<and>
    cache_ok (io\<lparr>io_cache := cache'\<rparr>)"
  proof (rule int_pread_gen[OF co(1) op pos], fold t_def, fold off_def, fold req_def)
    show "read_fd io req off readahead = slice ?d off (length (read_fd io req off readahead))"
      unfolding buf by (rule slice_length_self[symmetric])
    show "take count (drop t (read_fd io req off readahead)) = slice ?d offset count"
      unfolding buf using take_drop_slice[OF cover, of ?d off] off_t by simp
  qed
  then show ?thesis using io_inv_cache[OF inv] by blast
qed

text \<open>The case of a file that only grows: everything on the device is a beginning of the file.\<close>

lemma int_pread_prefix:
  assumes co: "cache_ok io" and op: "io_open io" and pos: "offset < 2 ^ 63"
    and prefix: "io_disk io = take n (fdata (io_file io))"
    and there: "use_direct io (offset - offset mod page_size) readahead \<Longrightarrow> 0 < count \<Longrightarrow> offset + count \<le> n"
  shows "\<exists>cache'. int_pread io count offset readahead = Some (pread (io_file io) count offset, io\<lparr>io_cache := cache'\<rparr>) \<and>
    cache_ok (io\<lparr>io_cache := cache'\<rparr>)"
proof -
  define t where "t = offset mod page_size"
  define off where "off = offset - t"
  define req where "req = (t + count + page_size - 1) div page_size * page_size"
  let ?d = "fdata (io_file io)" and ?buf = "read_fd io req off readahead"
  have cover: "t + count \<le> req" unfolding req_def by (rule page_round(1)[OF page_pos(1)])
  have off_t: "off + t = offset" unfolding off_def t_def by simp
  obtain m where m: "?buf = slice ?d off m" "0 < count \<Longrightarrow> t + count \<le> m"
  proof (cases "use_direct io off readahead")
    case True
    then have "0 < count \<Longrightarrow> offset + count \<le> n" using there by (simp add: off_def t_def)
    then have "0 < count \<Longrightarrow> t + count \<le> min req (n - off)" using cover off_t by fastforce
    moreover have "?buf = slice ?d off (min req (n - off))"
      using True by (simp add: read_fd_def prefix slice_def drop_take)
    ultimately show ?thesis using that by blast
  next
    case False
    then have "?buf = slice ?d off req" by (simp add: read_fd_def slice_def pread_def)
    then show ?thesis using that cover by blast
  qed
  show ?thesis
  proof (rule int_pread_gen[OF co op pos], fold t_def, fold off_def, fold req_def)
    show "?buf = slice ?d off (length ?buf)" unfolding m(1) by (rule slice_length_self[symmetric])
    show "take count (drop t ?buf) = slice ?d offset count"
      unfolding m(1) using take_drop_slice[OF m(2), of ?d off] off_t by (cases "count = 0") (simp_all add: slice_def)
  qed
qed

section \<open>Writing\<close>

lemma slice_write_after: "off + length w \<le> a \<Longrightarrow> slice (write_at d off w) a n = slice d a n"
  by (auto simp: slice_def write_at_def min_def)

lemma slice_write_before: "a + n \<le> off \<Longrightarrow> a + n \<le> length d \<Longrightarrow> slice (write_at d off w) a n = slice d a n"
  unfolding slice_def by (rule read_write_at_before)

lemma fold_invalidate:
  assumes "cache_inv d c"
  shows "length (fold invalidate ps c) = cache_size \<and> (\<forall>i<cache_size. ce_valid (fold invalidate ps c ! i) \<longrightarrow>
    fold invalidate ps c ! i = c ! i \<and> ce_offset (c ! i) \<notin> set ps)"
  using assms
proof (induction ps arbitrary: c)
  case Nil
  then show ?case by (simp add: cache_inv_def)
next
  case (Cons p ps)
  have inv: "cache_inv d (invalidate p c)"
    using Cons.prems by (auto simp: cache_inv_def invalidate_def nth_list_update entry_ok_def)
  have "ce_valid (invalidate p c ! i) \<Longrightarrow> invalidate p c ! i = c ! i \<and> ce_offset (c ! i) \<noteq> p" if "i < cache_size" for i
    using Cons.prems that by (auto simp: cache_inv_def invalidate_def nth_list_update entry_ok_def cached_def split: if_splits)
  then show ?case using Cons.IH[OF inv] by (metis fold_simps(2) set_ConsD)
qed

lemma cache_inv_invalidate:
  assumes "cache_inv d c" "length d \<le> length d'"
    and "\<And>p. p mod page_size = 0 \<Longrightarrow> p + page_size \<le> length d \<Longrightarrow> p \<notin> set ps \<Longrightarrow> slice d' p page_size = slice d p page_size"
  shows "cache_inv d' (fold invalidate ps c)"
  using fold_invalidate[OF assms(1), of ps] assms by (auto simp: cache_inv_def entry_ok_def)

text \<open>The pages that a write of \<open>n\<close> bytes touches are invalidated.\<close>

lemma invalidated_pages:
  assumes "p mod page_size = 0" "offset < p + page_size" "p < offset + n"
  shows "p \<in> set (touched_pages offset (int n))"
proof -
  define q where "q = offset div page_size"
  obtain j where j: "p = j * page_size" using assms(1) by (metis add_0_right div_mult_mod_eq)
  have al: "offset - offset mod page_size = q * page_size" unfolding q_def by (rule minus_mod_eq_div_mult)
  have ot: "offset = q * page_size + offset mod page_size" unfolding q_def by simp
  have "q * page_size < Suc j * page_size" using assms(2) ot j by simp
  then have qj: "q \<le> j" unfolding mult_less_cancel2 by simp
  have "(j - q) * page_size \<le> n + offset mod page_size"
    using assms(3) j ot by (simp add: diff_mult_distrib)
  then have "j - q \<le> (n + offset mod page_size) div page_size"
    by (metis div_le_mono div_mult_self_is_m page_pos(1))
  moreover have "p = offset - offset mod page_size + (j - q) * page_size"
    unfolding al j using qj by (simp flip: add_mult_distrib)
  ultimately show ?thesis unfolding touched_pages_def set_filter set_map mem_Collect_eq
    using assms(3) by (intro conjI image_eqI[where x = "j - q"]) (simp_all del: upt_Suc)
qed

lemma set_range_nth: "i < length xs \<Longrightarrow> set_range b s e xs ! i = (if s \<le> i \<and> i < e then b else xs ! i)"
  by (simp add: set_range_def)

lemma length_set_range [simp]: "length (set_range b s e xs) = length xs"
  by (simp add: set_range_def)

lemma set_range_idem: "set_range b s e (set_range b s e xs) = set_range b s e xs"
  by (rule nth_equalityI) (simp_all add: set_range_nth)

lemma is_dirty_marked:
  assumes "io_dirty io' = set_range True s e (set_range True s e (io_dirty io)) @ replicate (e - length (io_dirty io)) True"
  shows "is_dirty io k \<or> s \<le> k \<and> k < e \<Longrightarrow> is_dirty io' k"
  using assms by (auto simp: is_dirty_def nth_append set_range_nth)

lemma chunk_write:
  assumes "off \<le> length d" "\<not> (start_chunk off \<le> k \<and> k < end_chunk off n)" "length w \<le> n" "off + n + chunk_size \<le> 2 ^ 64"
  shows "chunk_of (write_at d off w) k = chunk_of d k"
proof (cases "k < start_chunk off")
  case True
  then have "Suc k * chunk_size \<le> off div chunk_size * chunk_size" by (intro mult_le_mono1) (simp add: start_chunk_def)
  also have "\<dots> \<le> off" by (rule div_times_less_eq_dividend)
  finally show ?thesis unfolding chunk_of_def using assms(1) by (intro slice_write_before) auto
next
  case False
  then have "end_chunk off n \<le> k" using assms(2) by simp
  then have "(off + n + chunk_size - 1) div chunk_size < k"
    using assms(4) by (simp add: end_chunk_def mod_less page_pos)
  then have "off + n \<le> k * chunk_size"
    using page_round(1)[OF page_pos(3), of "off + n"] by (meson le_trans less_imp_le_nat mult_le_mono1)
  then show ?thesis unfolding chunk_of_def using assms(3) by (intro slice_write_after) simp
qed

lemma pwrite_at:
  assumes "off \<le> length (fdata f)"
  shows "pwrite f bs off = (if bs \<noteq> [] \<and> fcap f \<le> off then - 1 else int (length (take (fcap f - off) bs)),
    f\<lparr>fdata := write_at (fdata f) off (take (fcap f - off) bs)\<rparr>)"
proof -
  have "write_at (fdata f) off [] = fdata f" using assms by (simp add: write_at_def)
  then show ?thesis by (auto simp: pwrite_def Let_def)
qed

definition written_data :: "file_io \<Rightarrow> bytes \<Rightarrow> nat \<Rightarrow> bytes" where
  "written_data io bs off = write_at (fdata (io_file io)) off (take (fcap (io_file io) - off) bs)"

lemma cache_inv_write:
  assumes "cache_inv d c"
  shows "cache_inv (write_at d off w) (fold invalidate (touched_pages off (int (length w))) c)"
proof (rule cache_inv_invalidate[OF assms])
  fix p
  assume p: "p mod page_size = 0" "p + page_size \<le> length d" "p \<notin> set (touched_pages off (int (length w)))"
  then have "\<not> (off < p + page_size \<and> p < off + length w)"
    using invalidated_pages[OF p(1), of off "length w"] by blast
  then show "slice (write_at d off w) p page_size = slice d p page_size"
    using p(2) slice_write_before[of p page_size off d w] slice_write_after[of off w p d page_size] by linarith
qed simp

lemma written_length:
  assumes "length bs < 2 ^ 64"
  shows "(\<not> (word_of_int (if bs \<noteq> [] \<and> cap \<le> off then - 1 else int (length (take (cap - off) bs))) :: u64) < word_of_nat (length bs))
    \<longleftrightarrow> bs = [] \<or> off + length bs \<le> cap \<or> cap \<le> off"
proof (cases "bs \<noteq> [] \<and> cap \<le> off")
  case True
  have "(word_of_nat (length bs) :: u64) \<le> - 1" by simp
  then show ?thesis using True by (simp add: not_less)
next
  case False
  let ?m = "length (take (cap - off) bs)"
  have "(word_of_nat ?m :: u64) < word_of_nat (length bs) \<longleftrightarrow> ?m < length bs"
    using assms by (simp add: word_less_nat_alt unsigned_of_nat take_bit_nat_eq_self min_def)
  moreover have "?m < length bs \<longleftrightarrow> bs \<noteq> [] \<and> \<not> off + length bs \<le> cap" using False by (cases bs) auto
  ultimately show ?thesis using False by (auto simp del: length_take)
qed

lemma int_pwritev_ok:
  assumes inv: "io_inv io" and op: "io_open io" and off: "off \<le> length (fdata (io_file io))"
    and small: "off + length bs + chunk_size \<le> 2 ^ 64"
  obtains c q y where "int_pwritev io bs off = (bs = [] \<or> off + length bs \<le> fcap (io_file io) \<or> fcap (io_file io) \<le> off,
      io\<lparr>io_file := (io_file io)\<lparr>fdata := written_data io bs off\<rparr>, io_dirty := q, io_syncing := y, io_cache := c\<rparr>)"
    and "io_inv (io\<lparr>io_file := (io_file io)\<lparr>fdata := written_data io bs off\<rparr>, io_dirty := q, io_syncing := y, io_cache := c\<rparr>)"
    and "\<forall>k. is_dirty io k \<or> start_chunk off \<le> k \<and> k < end_chunk off (length bs) \<longrightarrow> k < length q \<and> q ! k"
proof -
  let ?f = "io_file io" and ?s = "start_chunk off" and ?e = "end_chunk off (length bs)"
  let ?w = "take (fcap ?f - off) bs"
  let ?n = "if bs \<noteq> [] \<and> fcap ?f \<le> off then - 1 else int (length ?w)"
  let ?q = "set_range True ?s ?e (set_range True ?s ?e (io_dirty io)) @ replicate (?e - length (io_dirty io)) True"
  let ?c = "fold invalidate (touched_pages off ?n) (io_cache io)"
  let ?io = "io\<lparr>io_file := ?f\<lparr>fdata := written_data io bs off\<rparr>, io_dirty := ?q,
    io_syncing := set_range False ?s ?e (io_syncing io), io_cache := ?c\<rparr>"
  have lt: "length bs < 2 ^ 64" using small page_pos(3) by linarith
  have run: "int_pwritev io bs off = (bs = [] \<or> off + length bs \<le> fcap ?f \<or> fcap ?f \<le> off, ?io)"
    using op unfolding int_pwritev_def mark_before_def do_write_def mark_after_def invalidate_range_def Let_def
    by (simp add: pwrite_at[OF off] written_length[OF lt] written_data_def del: length_take)
  have dirty: "is_dirty io k \<or> ?s \<le> k \<and> k < ?e \<Longrightarrow> is_dirty ?io k" for k
    by (rule is_dirty_marked[of ?io ?s ?e io]) simp
  have ci: "cache_inv (fdata ?f) (io_cache io)" using inv by (simp add: io_inv_def cache_ok_def)
  have "cache_inv (written_data io bs off) ?c"
  proof (cases "bs \<noteq> [] \<and> fcap ?f \<le> off")
    case True
    then have "written_data io bs off = fdata ?f" using off by (simp add: written_data_def write_at_def)
    then show ?thesis using cache_inv_invalidate[OF ci] by simp
  next
    case False
    then have "?n = int (length ?w)" by (simp only: if_False)
    then show ?thesis unfolding written_data_def using cache_inv_write[OF ci, of off ?w] by (simp only:)
  qed
  moreover have "disk_ok ?io"
    unfolding disk_ok_def
  proof (intro allI impI)
    fix k assume "\<not> is_dirty ?io k"
    then have k: "\<not> is_dirty io k" "\<not> (?s \<le> k \<and> k < ?e)" using dirty[of k] by blast+
    then have "chunk_of (io_disk io) k = chunk_of (fdata ?f) k" using inv by (simp add: io_inv_def disk_ok_def)
    also have "\<dots> = chunk_of (written_data io bs off) k"
      unfolding written_data_def using chunk_write[OF off k(2) _ small] by simp
    finally show "chunk_of (io_disk ?io) k = chunk_of (fdata (io_file ?io)) k" by simp
  qed
  ultimately have "io_inv ?io" by (simp add: io_inv_def cache_ok_def)
  then show thesis using run dirty by (intro that[where q = ?q and y = "set_range False ?s ?e (io_syncing io)" and c = ?c]) (auto simp: is_dirty_def)
qed

section \<open>Syncing\<close>

lemma sync_finish_inv:
  assumes "cache_ok io" "io_disk io = fdata (io_file io)"
  shows "io_inv (sync_finish io)"
  using assms by (simp add: io_inv_def sync_finish_def Let_def cache_ok_def disk_ok_def)

lemma sync_run_frame [simp]:
  "io_file (sync_run ok io) = io_file io" "io_open (sync_run ok io) = io_open io"
  "io_buffered_only (sync_run ok io) = io_buffered_only io" "io_cache (sync_run ok io) = io_cache io"
  "io_disk (sync_run ok io) = (if ok then fdata (io_file io) else io_disk io)"
  by (simp_all add: sync_run_def sync_start_def sync_data_def sync_finish_def Let_def)

lemma run_sync_task_frame [simp]:
  "io_file (run_sync_task ok io) = io_file io" "io_open (run_sync_task ok io) = io_open io"
  "io_buffered_only (run_sync_task ok io) = io_buffered_only io" "io_cache (run_sync_task ok io) = io_cache io"
  "\<not> io_sync_queued (run_sync_task ok io)"
  by (simp_all add: run_sync_task_def)

lemma sync_run_inv: "io_inv io \<Longrightarrow> io_inv (sync_run ok io)"
  by (simp add: sync_run_def Let_def io_inv_def sync_start_def sync_data_def sync_finish_def cache_ok_def disk_ok_def is_dirty_def)

lemma run_sync_task_inv: "io_inv io \<Longrightarrow> io_inv (run_sync_task ok io)"
  using sync_run_inv[of io ok]
  by (simp add: run_sync_task_def io_inv_def cache_ok_def disk_ok_def is_dirty_def)

lemma enqueue_sync_inv: "io_inv io \<Longrightarrow> io_inv (snd (enqueue_sync io))"
  by (simp add: enqueue_sync_def io_inv_def cache_ok_def disk_ok_def is_dirty_def)

lemma int_sync_file [simp]: "io_file (snd (int_sync ok1 ok2 blocking io)) = io_file io"
proof -
  have "io_file (snd (enqueue_sync io)) = io_file io" for io by (simp add: enqueue_sync_def)
  then show ?thesis by (simp add: int_sync_def case_prod_beta)
qed

lemma int_sync_inv: "io_inv io \<Longrightarrow> io_inv (snd (int_sync ok1 ok2 blocking io))"
  unfolding int_sync_def using run_sync_task_inv enqueue_sync_inv
  by (auto simp: case_prod_beta Let_def)

lemma chunks_determine:
  assumes "\<And>k. chunk_of a k = chunk_of b k"
  shows "a = b"
proof -
  have "slice a 0 (k * chunk_size) = slice b 0 (k * chunk_size)" for k
  proof (induction k)
    case (Suc k)
    then show ?case
      using assms[of k] slice_split[of a 0 "k * chunk_size" chunk_size] slice_split[of b 0 "k * chunk_size" chunk_size]
      by (simp add: chunk_of_def add.commute)
  qed (simp add: slice_def)
  then have "take (k * chunk_size) a = take (k * chunk_size) b" for k by (simp add: slice_def)
  moreover have "max (length a) (length b) * 1 \<le> max (length a) (length b) * chunk_size"
    using page_pos(3) by (intro mult_le_mono) (simp_all only: One_nat_def Suc_leI le_refl)
  ultimately show ?thesis by (metis max.boundedE mult.right_neutral take_all)
qed

lemma disk_clean: "disk_ok io \<Longrightarrow> (\<And>k. \<not> is_dirty io k) \<Longrightarrow> io_disk io = fdata (io_file io)"
  by (rule chunks_determine) (simp add: disk_ok_def)

lemma int_sync_durable:
  assumes "io_inv io" "io_open io" "int_sync ok1 True True io = (ret, io')"
  shows "ret \<and> io_disk io' = fdata (io_file io') \<and> io_file io' = io_file io"
proof -
  let ?io = "run_sync_task ok1 io"
  have inv: "io_inv ?io" using assms(1) by (rule run_sync_task_inv)
  show ?thesis
  proof (cases "\<exists>d\<in>set (io_dirty ?io). d")
    case True
    then have "enqueue_sync ?io = (True, ?io\<lparr>io_sync_queued := True\<rparr>)" using assms(2) by (simp add: enqueue_sync_def)
    then have "int_sync ok1 True True io = (True, (sync_run True (?io\<lparr>io_sync_queued := True\<rparr>))\<lparr>io_sync_queued := False\<rparr>)"
      by (simp add: int_sync_def run_sync_task_def[of True])
    then show ?thesis unfolding assms(3) by auto
  next
    case False
    then have "\<And>k. \<not> is_dirty ?io k" unfolding is_dirty_def using nth_mem by blast
    moreover have "disk_ok ?io" using inv by (simp add: io_inv_def)
    ultimately have "io_disk ?io = fdata (io_file ?io)" by (intro disk_clean)
    moreover have "enqueue_sync ?io = (True, ?io)" using assms(2) False by (simp add: enqueue_sync_def, blast)
    moreover from this have "int_sync ok1 True True io = (True, ?io)" by (simp add: int_sync_def run_sync_task_def[of True])
    ultimately show ?thesis unfolding assms(3) by auto
  qed
qed

end
