(* ===== verification/File_Store.thy ===== *)
theory File_Store
  imports File_Io Silt_Types
begin

text \<open>
  The SILT file store, class \<^verbatim>\<open>FileStore\<close> of \<^verbatim>\<open>src/siltds/file_store.cc\<close>, above its I/O layer: entries of
  variable length are written behind their four-byte length and their key is their offset; entries
  of a fixed length are numbered. Keys are the bytes of an \<open>off_t\<close>. The random choice of the next
  sync, the configuration and the outcomes of system calls are arguments.

  A result \<open>None\<close> is the exception \<^verbatim>\<open>std::bad_alloc\<close>, for a buffer of \<open>2 ^ 63\<close> bytes or more.
\<close>

record file_store =
  fs_io :: file_io
  fs_data_len :: nat
  fs_next_append_id :: u64
  fs_end_id :: u64
  fs_next_sync :: u64

definition sync_interval :: "nat \<Rightarrow> u64" where
  "sync_interval r = 1048576 * push_bit (r mod 4) 1"

section \<open>Life cycle\<close>

definition FileStore_new :: "os_file \<Rightarrow> file_store" where
  "FileStore_new f = \<lparr>fs_io = int_initialize f, fs_data_len = 0, fs_next_append_id = 0, fs_end_id = 0, fs_next_sync = 0\<rparr>"

definition fs_create :: "nat \<Rightarrow> bool \<Rightarrow> nat \<Rightarrow> bool \<Rightarrow> bool \<Rightarrow> file_store \<Rightarrow> FawnDS_Return \<times> file_store" where
  "fs_create data_len buffered_only r ok1 ok2 fs =
     (let fs = fs\<lparr>fs_data_len := data_len, fs_io := (fs_io fs)\<lparr>io_buffered_only := buffered_only\<rparr>\<rparr>;
          (opened, io) = int_open ok1 ok2 True (fs_io fs);
          fs = fs\<lparr>fs_io := io\<rparr> in
      if \<not> opened then (ERROR, fs)
      else (OK, fs\<lparr>fs_next_append_id := 0, fs_end_id := 0, fs_next_sync := sync_interval r\<rparr>))"

definition fs_open :: "nat \<Rightarrow> bool \<Rightarrow> nat \<Rightarrow> bool \<Rightarrow> bool \<Rightarrow> file_store \<Rightarrow> FawnDS_Return \<times> file_store" where
  "fs_open data_len buffered_only r ok1 ok2 fs =
     (let fs = fs\<lparr>fs_data_len := data_len, fs_io := (fs_io fs)\<lparr>io_buffered_only := buffered_only\<rparr>\<rparr>;
          (opened, io) = int_open ok1 ok2 False (fs_io fs);
          fs = fs\<lparr>fs_io := io\<rparr> in
      if \<not> opened then (ERROR, fs)
      else let n = word_of_nat (length (fdata (io_file io))) in
        (OK, fs\<lparr>fs_next_append_id := n, fs_end_id := n, fs_next_sync := sync_interval r\<rparr>))"

definition fs_flush :: "bool \<Rightarrow> bool \<Rightarrow> file_store \<Rightarrow> FawnDS_Return \<times> file_store" where
  "fs_flush ok1 ok2 fs =
     (if \<not> io_open (fs_io fs) then (OK, fs)
      else (OK, fs\<lparr>fs_io := snd (int_sync ok1 ok2 True (fs_io fs))\<rparr>))"

text \<open>The result of \<^verbatim>\<open>int_close\<close> is a truth value that is compared with \<open>-1\<close>: it never counts as a failure.\<close>

definition fs_close :: "bool \<Rightarrow> bool \<Rightarrow> bool \<Rightarrow> file_store \<Rightarrow> FawnDS_Return \<times> file_store" where
  "fs_close ok1 ok2 ok3 fs =
     (if \<not> io_open (fs_io fs) then (OK, fs)
      else let fs = snd (fs_flush ok1 ok2 fs) in (OK, fs\<lparr>fs_io := snd (int_close ok3 (fs_io fs))\<rparr>))"

definition fs_status :: "FawnDS_StatusType \<Rightarrow> file_store \<Rightarrow> FawnDS_Return \<times> int" where
  "fs_status type fs = (case type of
      CAPACITY \<Rightarrow> (OK, - 1)
    | MEMORY_USE \<Rightarrow> (OK, 0)
    | DISK_USE \<Rightarrow> (OK, if fs_data_len fs = 0 then sint (fs_end_id fs)
        else uint (fs_end_id fs * word_of_nat (fs_data_len fs)))
    | _ \<Rightarrow> (UNSUPPORTED, 0))"

text \<open>
  \<^verbatim>\<open>ConvertTo\<close> replaces the file of another store by a link to the file of this one. Afterwards the
  two stores share it; the result is the state of the other store until one of them writes. The
  assertions fail (\<open>None\<close>) when that store is not open or cannot be opened again; failures of
  \<^verbatim>\<open>unlink\<close> and \<^verbatim>\<open>link\<close> are only printed.
\<close>

definition fs_convert_to :: "bool \<Rightarrow> bool \<Rightarrow> file_store \<Rightarrow> file_store \<Rightarrow> (FawnDS_Return \<times> file_store) option" where
  "fs_convert_to fdatasync_ok open_ok src new_store =
     (if fs_data_len src \<noteq> fs_data_len new_store then Some (ERROR, new_store)
      else let (closed, io) = int_close fdatasync_ok (fs_io new_store) in
        if \<not> closed then None
        else let (opened, io) = int_open open_ok open_ok False
                 (io\<lparr>io_file := io_file (fs_io src), io_disk := io_disk (fs_io src)\<rparr>) in
          if \<not> opened then None
          else Some (OK, new_store\<lparr>fs_io := io, fs_next_append_id := fs_next_append_id src,
            fs_end_id := fs_end_id src, fs_next_sync := fs_next_sync src\<rparr>))"

section \<open>Writing\<close>

definition fs_entry :: "nat \<Rightarrow> bytes \<Rightarrow> bytes" where
  "fs_entry data_len data =
     (if data_len = 0 then le_bytes 4 (word_of_nat (length data) :: u32) @ data else data)"

definition put_target :: "nat \<Rightarrow> u64 \<Rightarrow> u64" where
  "put_target data_len entry = (if data_len \<noteq> 0 then entry * word_of_nat data_len else entry)"

definition put_end :: "nat \<Rightarrow> u64 \<Rightarrow> bytes \<Rightarrow> u64" where
  "put_end data_len entry data =
     (if data_len = 0 then entry + (ucast (word_of_nat (length data) :: u32) + 4) else entry + 1)"

definition fs_put :: "bytes \<Rightarrow> bytes \<Rightarrow> file_store \<Rightarrow> FawnDS_Return \<times> file_store" where
  "fs_put key data fs =
     (let id = as_off_t key (- 1) in
      if id = - 1 then (INVALID_KEY, fs)
      else let (wrote, io) = int_pwritev (fs_io fs) (fs_entry (fs_data_len fs) data) (unat (put_target (fs_data_len fs) id));
               fs = fs\<lparr>fs_io := io\<rparr> in
        if \<not> wrote then (ERROR, fs)
        else let end_id = put_end (fs_data_len fs) id data in
          (OK, if sint (fs_end_id fs) < sint end_id then fs\<lparr>fs_end_id := end_id\<rparr> else fs))"

text \<open>The number of bytes an append adds to the file, and what it adds to the next identifier.\<close>

definition append_len :: "nat \<Rightarrow> bytes \<Rightarrow> u64" where
  "append_len data_len data = (if data_len = 0 then 4 + word_of_nat (length data) else word_of_nat (length data))"

definition append_step :: "nat \<Rightarrow> bytes \<Rightarrow> u64" where
  "append_step data_len data = (if data_len = 0 then append_len data_len data else 1)"

text \<open>The result carries the new key. \<open>r\<close> is the random choice of the interval.\<close>

definition fs_append :: "nat \<Rightarrow> bytes \<Rightarrow> file_store \<Rightarrow> FawnDS_Return \<times> bytes \<times> file_store" where
  "fs_append r data fs =
     (if fs_data_len fs \<noteq> 0 \<and> fs_data_len fs \<noteq> length data then (INVALID_DATA, [], fs)
      else let key_val = fs_next_append_id fs;
               fs = fs\<lparr>fs_next_append_id := key_val + append_step (fs_data_len fs) data\<rparr>;
               key = off_t_value key_val;
               (ret, fs) = fs_put key data fs in
        if ret \<noteq> OK then (ret, key, fs)
        else let next_sync = fs_next_sync fs - append_len (fs_data_len fs) data in
          if sint next_sync < 0
          then (OK, key, fs\<lparr>fs_next_sync := sync_interval r, fs_io := snd (int_sync True True False (fs_io fs))\<rparr>)
          else (OK, key, fs\<lparr>fs_next_sync := next_sync\<rparr>))"

section \<open>Reading\<close>

definition fs_contains :: "bytes \<Rightarrow> file_store \<Rightarrow> FawnDS_Return" where
  "fs_contains key fs = (if sint (fs_end_id fs) \<le> sint (as_off_t key (- 1)) then KEY_NOT_FOUND else OK)"

definition fs_length :: "bytes \<Rightarrow> bool \<Rightarrow> file_store \<Rightarrow> FawnDS_Return \<times> nat \<times> file_store" where
  "fs_length key readahead fs =
     (let id = as_off_t key (- 1) in
      if sint (fs_end_id fs) \<le> sint id then (KEY_NOT_FOUND, 0, fs)
      else if fs_data_len fs = 0
      then (case int_pread (fs_io fs) 4 (unat id) readahead of
          None \<Rightarrow> (ERROR, 0, fs)
        | Some (buf, io) \<Rightarrow>
            if length buf \<noteq> 4 then (ERROR, 0, fs\<lparr>fs_io := io\<rparr>)
            else (OK, unat (le_word buf :: u32), fs\<lparr>fs_io := io\<rparr>))
      else (OK, fs_data_len fs, fs))"

definition get_len :: "nat \<Rightarrow> nat \<Rightarrow> nat \<Rightarrow> nat" where
  "get_len data_len offset len = (if data_len < (offset + len) mod 2 ^ 64 then data_len - offset else len)"

definition get_pos :: "nat \<Rightarrow> u64 \<Rightarrow> nat \<Rightarrow> u64" where
  "get_pos data_len entry offset =
     (if data_len = 0 then entry + 4 + word_of_nat offset else entry * word_of_nat data_len + word_of_nat offset)"

text \<open>Entries of a fixed length are read to their end.\<close>

definition get_count :: "nat \<Rightarrow> nat \<Rightarrow> nat \<Rightarrow> nat" where
  "get_count data_len offset len = (if data_len = 0 then len else data_len - offset)"

definition fs_get :: "bytes \<Rightarrow> nat \<Rightarrow> nat \<Rightarrow> bool \<Rightarrow> file_store \<Rightarrow> (FawnDS_Return \<times> bytes \<times> file_store) option" where
  "fs_get key offset len readahead fs =
     (let id = as_off_t key (- 1) in
      if sint (fs_end_id fs) \<le> sint id then Some (END, [], fs)
      else case fs_length key readahead fs of (ret_len, data_len, fs) \<Rightarrow>
        if ret_len \<noteq> OK then Some (ret_len, [], fs)
        else if data_len < offset then Some (END, [], fs)
        else let len = get_len data_len offset len;
                 count = get_count (fs_data_len fs) offset len in
          if 2 ^ 63 \<le> count then None
          else case int_pread (fs_io fs) count (unat (get_pos (fs_data_len fs) id offset)) readahead of
              None \<Rightarrow> Some (ERROR, [], fs)
            | Some (data, io) \<Rightarrow> Some (OK, take len data, fs\<lparr>fs_io := io\<rparr>))"

text \<open>The default arguments of \<^verbatim>\<open>Get\<close>: offset zero, and \<open>-1\<close> for everything.\<close>

definition fs_get_all :: "bytes \<Rightarrow> bool \<Rightarrow> file_store \<Rightarrow> (FawnDS_Return \<times> bytes \<times> file_store) option" where
  "fs_get_all key readahead fs = fs_get key 0 (2 ^ 64 - 1) readahead fs"

section \<open>Iterating\<close>

record fs_iterator =
  it_next_id :: u64
  it_key :: bytes
  it_data :: bytes
  it_state :: FawnDS_Return

definition iter_next :: "fs_iterator \<Rightarrow> file_store \<Rightarrow> (fs_iterator \<times> file_store) option" where
  "iter_next it fs =
     (case fs_get_all (off_t_value (it_next_id it)) True fs of
        None \<Rightarrow> None
      | Some (ret, data, fs) \<Rightarrow>
          let it = it\<lparr>it_key := off_t_value (it_next_id it), it_data := data\<rparr> in
          Some (if ret = OK \<or> ret = KEY_DELETED
            then it\<lparr>it_state := ret, it_next_id := it_next_id it +
              (if fs_data_len fs = 0 then 4 + word_of_nat (length data) else 1)\<rparr>
            else it\<lparr>it_state := END\<rparr>, fs))"

definition fs_find :: "bytes \<Rightarrow> file_store \<Rightarrow> (fs_iterator \<times> file_store) option" where
  "fs_find key fs = iter_next \<lparr>it_next_id = as_off_t key (- 1), it_key = [], it_data = [], it_state = END\<rparr> fs"

definition fs_enumerate :: "file_store \<Rightarrow> (fs_iterator \<times> file_store) option" where
  "fs_enumerate fs = iter_next \<lparr>it_next_id = 0, it_key = [], it_data = [], it_state = END\<rparr> fs"

end
