(* ===== verification/File_Store_Correct.thy ===== *)
theory File_Store_Correct
  imports File_Io_Correct File_Store
begin

text \<open>
  A file store to which entries are only appended is a log: a list of entries, each found under the
  key its append returned, whatever part of the file has reached the device and whatever the cache
  holds.
\<close>

section \<open>A file that grows\<close>

definition prefix_ok :: "file_io \<Rightarrow> nat \<Rightarrow> bool" where
  "prefix_ok io n \<longleftrightarrow> n \<le> length (fdata (io_file io)) \<and> io_disk io = take n (fdata (io_file io)) \<and>
     (\<forall>i. n \<le> i \<and> i < length (fdata (io_file io)) \<longrightarrow> is_dirty io (i div chunk_size))"

lemma prefix_ok_frame [simp]:
  "prefix_ok (io\<lparr>io_cache := c\<rparr>) n = prefix_ok io n" "prefix_ok (io\<lparr>io_sync_queued := b\<rparr>) n = prefix_ok io n"
  "prefix_ok (io\<lparr>io_syncing := y\<rparr>) n = prefix_ok io n" "cache_ok (io\<lparr>io_sync_queued := b\<rparr>) = cache_ok io"
  by (simp_all add: prefix_ok_def is_dirty_def cache_ok_def)

lemma chunk_bounds: "k * chunk_size \<le> i \<Longrightarrow> i < k * chunk_size + chunk_size \<Longrightarrow> i div chunk_size = k"
  by (metis add.commute div_nat_eqI mult.commute mult_Suc_right)

lemma prefix_disk_ok:
  assumes "prefix_ok io n"
  shows "disk_ok io"
  unfolding disk_ok_def
proof (intro allI impI)
  fix k
  let ?d = "fdata (io_file io)" and ?a = "k * chunk_size"
  assume "\<not> is_dirty io k"
  then have none: "\<not> (n \<le> i \<and> i < length ?d)" if "?a \<le> i" "i < ?a + chunk_size" for i
    using assms that chunk_bounds[of k i] by (auto simp: prefix_ok_def)
  have "slice (take n ?d) ?a chunk_size = slice ?d ?a chunk_size"
  proof (cases "n \<le> ?a")
    case True
    then have "length ?d \<le> ?a" using none[of ?a] page_pos(3) by simp
    then show ?thesis by (simp add: slice_def)
  next
    case False
    then have "?a + chunk_size \<le> n \<or> length ?d \<le> n" using none[of n] by linarith
    then show ?thesis using False by (auto simp: slice_def drop_take min_def)
  qed
  then show "chunk_of (io_disk io) k = chunk_of ?d k" using assms by (simp add: chunk_of_def prefix_ok_def)
qed

lemma aligned_chunk: "(i - i mod page_size) div chunk_size = i div chunk_size"
proof (rule chunk_bounds)
  obtain m where m: "chunk_size = page_size * m" using page_dvd_chunk by (rule dvdE)
  have "i div chunk_size * m \<le> i div page_size"
    unfolding m div_mult2_eq by (rule div_times_less_eq_dividend)
  then have "i div chunk_size * m * page_size \<le> i div page_size * page_size" by (rule mult_le_mono1)
  then show "i div chunk_size * chunk_size \<le> i - i mod page_size"
    unfolding m minus_mod_eq_div_mult by (simp add: ac_simps)
  have "i < i div chunk_size * chunk_size + chunk_size" using dividend_less_div_times[OF page_pos(3), of i] by linarith
  then show "i - i mod page_size < i div chunk_size * chunk_size + chunk_size" by linarith
qed

lemma prefix_read:
  assumes "cache_ok io" "io_open io" "prefix_ok io n" "a < 2 ^ 63" "a + count \<le> length (fdata (io_file io))"
    and "a < n \<Longrightarrow> a + count \<le> n"
  shows "\<exists>c. int_pread io count a readahead = Some (slice (fdata (io_file io)) a count, io\<lparr>io_cache := c\<rparr>) \<and>
    cache_ok (io\<lparr>io_cache := c\<rparr>)"
proof -
  have "a + count \<le> n" if "use_direct io (a - a mod page_size) readahead" "0 < count"
  proof -
    have "\<not> is_dirty io (a div chunk_size)"
      using that(1) by (simp add: use_direct_def is_dirty_def aligned_chunk)
    moreover have "a < length (fdata (io_file io))" using assms(5) that(2) by linarith
    ultimately have "a < n" using assms(3) unfolding prefix_ok_def by (meson not_le)
    then show ?thesis by (rule assms(6))
  qed
  then show ?thesis
    using int_pread_prefix[of io a n readahead count] assms(1-4) by (simp add: prefix_ok_def slice_def pread_def)
qed

lemma prefix_append:
  assumes ok: "cache_ok io" "io_open io" "prefix_ok io n" and len: "off = length (fdata (io_file io))"
    and cap: "off + length bs \<le> fcap (io_file io)" "off + length bs \<le> 2 ^ 62"
  shows "\<exists>io'. int_pwritev io bs off = (True, io') \<and> cache_ok io' \<and> io_open io' \<and> prefix_ok io' n \<and>
    io_file io' = (io_file io)\<lparr>fdata := fdata (io_file io) @ bs\<rparr>"
proof -
  have inv: "io_inv io" using ok prefix_disk_ok by (simp add: io_inv_def)
  have small: "off + length bs + chunk_size \<le> 2 ^ 64" using cap(2) by (simp add: chunk_size_def)
  have wd: "written_data io bs off = fdata (io_file io) @ bs"
    using cap(1) len by (simp add: written_data_def write_at_def)
  obtain c q y where run: "int_pwritev io bs off = (bs = [] \<or> off + length bs \<le> fcap (io_file io) \<or> fcap (io_file io) \<le> off,
      io\<lparr>io_file := (io_file io)\<lparr>fdata := written_data io bs off\<rparr>, io_dirty := q, io_syncing := y, io_cache := c\<rparr>)"
    and inv': "io_inv (io\<lparr>io_file := (io_file io)\<lparr>fdata := written_data io bs off\<rparr>, io_dirty := q, io_syncing := y, io_cache := c\<rparr>)"
    and dirty: "\<forall>k. is_dirty io k \<or> start_chunk off \<le> k \<and> k < end_chunk off (length bs) \<longrightarrow> k < length q \<and> q ! k"
    by (rule int_pwritev_ok[OF inv ok(2) _ small]) (simp_all add: len)
  let ?io = "io\<lparr>io_file := (io_file io)\<lparr>fdata := fdata (io_file io) @ bs\<rparr>, io_dirty := q, io_syncing := y, io_cache := c\<rparr>"
  have "is_dirty ?io (i div chunk_size)" if i: "n \<le> i" "i < length (fdata (io_file io) @ bs)" for i
  proof (cases "i < off")
    case True
    then show ?thesis using ok(3) i(1) len dirty by (auto simp: prefix_ok_def is_dirty_def)
  next
    case False
    have "i div chunk_size \<le> (off + length bs + chunk_size - 1) div chunk_size"
      using i(2) len by (intro div_le_mono) simp
    also have "\<dots> < end_chunk off (length bs)" using small by (simp add: end_chunk_def)
    moreover have "start_chunk off \<le> i div chunk_size" unfolding start_chunk_def using False by (intro div_le_mono) simp
    ultimately show ?thesis using dirty by (auto simp: is_dirty_def)
  qed
  then have "prefix_ok ?io n" using ok(3) by (auto simp: prefix_ok_def)
  moreover have "cache_ok ?io" using inv' unfolding wd by (simp add: io_inv_def)
  ultimately show ?thesis using run cap(1) ok(2) unfolding wd by auto
qed

text \<open>What a write does to the chunks that a sync task is about to declare clean, and how the bytes from \<open>n\<close> on stay dirty
  when it does so.\<close>

definition is_syncing :: "file_io \<Rightarrow> nat \<Rightarrow> bool" where
  "is_syncing io k \<longleftrightarrow> k < length (io_syncing io) \<and> io_syncing io ! k"

definition sync_ok :: "file_io \<Rightarrow> nat \<Rightarrow> bool" where
  "sync_ok io n \<longleftrightarrow> prefix_ok io n \<and> (\<forall>i. n \<le> i \<and> i < length (fdata (io_file io)) \<longrightarrow> \<not> is_syncing io (i div chunk_size))"

lemma int_pwritev_syncing:
  "io_open io \<Longrightarrow> int_pwritev io bs off = (ok, io') \<Longrightarrow> io_syncing io' = set_range False (start_chunk off) (end_chunk off (length bs)) (io_syncing io)"
  by (auto simp: int_pwritev_def do_write_def mark_before_def mark_after_def invalidate_range_def Let_def split: prod.splits)

lemma sync_ok_append:
  assumes ok: "cache_ok io" "io_open io" "sync_ok io n" and len: "off = length (fdata (io_file io))"
    and cap: "off + length bs \<le> fcap (io_file io)" "off + length bs \<le> 2 ^ 62" and run: "int_pwritev io bs off = (True, io')"
  shows "sync_ok io' n"
proof -
  have "prefix_ok io n" using ok(3) by (simp add: sync_ok_def)
  then have p: "prefix_ok io' n" and f: "io_file io' = (io_file io)\<lparr>fdata := fdata (io_file io) @ bs\<rparr>"
    using prefix_append[OF ok(1,2) _ len cap] run by auto
  have small: "off + length bs + chunk_size \<le> 2 ^ 64" using cap(2) by (simp add: chunk_size_def)
  have "\<not> is_syncing io' (i div chunk_size)" if i: "n \<le> i" "i < length (fdata (io_file io) @ bs)" for i
  proof (cases "i < off")
    case True
    then have "\<not> is_syncing io (i div chunk_size)" using ok(3) i(1) len by (simp add: sync_ok_def)
    then show ?thesis by (auto simp: is_syncing_def int_pwritev_syncing[OF ok(2) run] set_range_def)
  next
    case False
    have "i div chunk_size \<le> (off + length bs + chunk_size - 1) div chunk_size"
      using i(2) len by (intro div_le_mono) simp
    also have "\<dots> < end_chunk off (length bs)" using small by (simp add: end_chunk_def)
    moreover have "start_chunk off \<le> i div chunk_size" unfolding start_chunk_def using False by (intro div_le_mono) simp
    ultimately show ?thesis by (auto simp: is_syncing_def int_pwritev_syncing[OF ok(2) run] set_range_def)
  qed
  then show ?thesis using p f by (auto simp: sync_ok_def)
qed

lemma sync_ok_frame [simp]:
  "sync_ok (io\<lparr>io_cache := c\<rparr>) n = sync_ok io n" "sync_ok (io\<lparr>io_sync_queued := b\<rparr>) n = sync_ok io n"
  by (simp_all add: sync_ok_def is_syncing_def)

lemma sync_finish_prefix:
  assumes "sync_ok io n"
  shows "prefix_ok (sync_finish io) n"
proof -
  let ?c = "length (io_dirty io)"
  let ?y = "take ?c (io_syncing io) @ replicate (?c - length (io_syncing io)) False"
  have "is_dirty (sync_finish io) k" if "is_dirty io k" "\<not> is_syncing io k" for k
    using that by (auto simp: is_dirty_def is_syncing_def sync_finish_def Let_def nth_append)
  then show ?thesis using assms by (auto simp: sync_ok_def prefix_ok_def sync_finish_def[of io] Let_def is_dirty_def)
qed

section \<open>The log\<close>

definition log_of :: "nat \<Rightarrow> bytes list \<Rightarrow> bytes" where
  "log_of L es = concat (map (fs_entry L) es)"

definition fits :: "nat \<Rightarrow> bytes \<Rightarrow> bool" where
  "fits L d \<longleftrightarrow> (if L = 0 then length d < 2 ^ 32 else length d = L)"

definition entry_pos :: "nat \<Rightarrow> bytes list \<Rightarrow> nat \<Rightarrow> nat" where
  "entry_pos L es i = length (log_of L (take i es))"

definition entry_id :: "nat \<Rightarrow> bytes list \<Rightarrow> nat \<Rightarrow> nat" where
  "entry_id L es i = (if L = 0 then entry_pos L es i else i)"

definition entry_key :: "nat \<Rightarrow> bytes list \<Rightarrow> nat \<Rightarrow> bytes" where
  "entry_key L es i = off_t_value (word_of_nat (entry_id L es i))"

definition fs_rep :: "file_store \<Rightarrow> bytes list \<Rightarrow> bool" where
  "fs_rep fs es \<longleftrightarrow> (let L = fs_data_len fs; io = fs_io fs; n = word_of_nat (entry_id L es (length es)) in
     (\<forall>d\<in>set es. fits L d) \<and> io_open io \<and> cache_ok io \<and> fdata (io_file io) = log_of L es \<and>
     length (log_of L es) \<le> 2 ^ 62 \<and> fs_next_append_id fs = n \<and> fs_end_id fs = n \<and>
     (\<exists>m\<le>length es. prefix_ok io (entry_pos L es m)))"

lemma log_of_simps [simp]: "log_of L [] = []" "log_of L (es @ [d]) = log_of L es @ fs_entry L d"
  by (simp_all add: log_of_def)

lemma length_fs_entry: "length (fs_entry L d) = (if L = 0 then 4 else 0) + length d"
  by (simp add: fs_entry_def)

lemma log_fixed: "L \<noteq> 0 \<Longrightarrow> \<forall>d\<in>set es. fits L d \<Longrightarrow> length (log_of L es) = length es * L"
  by (induction es) (simp_all add: log_of_def fits_def fs_entry_def)

lemma log_mono: "i \<le> j \<Longrightarrow> entry_pos L es i \<le> entry_pos L es j"
proof -
  assume "i \<le> j"
  then have "take j es = take i es @ take (j - i) (drop i es)" by (metis le_add_diff_inverse take_add)
  then show ?thesis by (simp add: entry_pos_def log_of_def)
qed

lemma entry_pos_fixed: "L \<noteq> 0 \<Longrightarrow> \<forall>d\<in>set es. fits L d \<Longrightarrow> i \<le> length es \<Longrightarrow> entry_pos L es i = i * L"
  unfolding entry_pos_def using log_fixed[of L "take i es"] by (auto dest: in_set_takeD)

lemma entry_pos_all: "entry_pos L es (length es) = length (log_of L es)"
  by (simp add: entry_pos_def)

lemma entry_pos_Suc: "i < length es \<Longrightarrow> entry_pos L es (Suc i) = entry_pos L es i + length (fs_entry L (es ! i))"
  by (simp add: entry_pos_def take_Suc_conv_app_nth)

lemma entry_pos_append: "i \<le> length es \<Longrightarrow> entry_pos L (es @ xs) i = entry_pos L es i"
  by (simp add: entry_pos_def)

lemma entry_slice:
  assumes "i < length es" "a + n \<le> length (fs_entry L (es ! i))"
  shows "slice (log_of L es) (entry_pos L es i + a) n = take n (drop a (fs_entry L (es ! i)))"
proof -
  have "es = take i es @ es ! i # drop (Suc i) es" using assms(1) by (rule id_take_nth_drop)
  then have "log_of L es = log_of L (take i es) @ fs_entry L (es ! i) @ log_of L (drop (Suc i) es)"
    by (metis (no_types, lifting) concat.simps(2) concat_append list.simps(9) log_of_def map_append)
  then show ?thesis using assms(2) by (simp add: slice_def entry_pos_def)
qed

lemma id_bound: "\<forall>d\<in>set es. fits L d \<Longrightarrow> i \<le> length es \<Longrightarrow> entry_id L es i \<le> length (log_of L es)"
proof (cases "L = 0")
  case False
  assume "\<forall>d\<in>set es. fits L d" "i \<le> length es"
  then show ?thesis using log_fixed[OF False] False by (simp add: entry_id_def) (metis le_trans mult.commute mult_le_mono2 nat_mult_1_right One_nat_def Suc_leI neq0_conv)
qed (use log_mono entry_pos_all in \<open>metis entry_id_def\<close>)

lemma id_strict: "i < length es \<Longrightarrow> entry_id L es i < entry_id L es (length es)"
proof -
  assume i: "i < length es"
  have "entry_pos 0 es i < entry_pos 0 es (Suc i)" using entry_pos_Suc[OF i, of 0] by (simp add: length_fs_entry)
  also have "\<dots> \<le> entry_pos 0 es (length es)" using i by (intro log_mono) simp
  finally show ?thesis using i by (simp add: entry_id_def)
qed

lemma fs_rep_cache: "fs_rep fs es \<Longrightarrow> cache_ok ((fs_io fs)\<lparr>io_cache := c\<rparr>) \<Longrightarrow> fs_rep (fs\<lparr>fs_io := (fs_io fs)\<lparr>io_cache := c\<rparr>\<rparr>) es"
  by (simp add: fs_rep_def Let_def)

lemma fs_rep_sync: "fs_rep fs es \<Longrightarrow> fs_rep (fs\<lparr>fs_io := run_sync_task ok (fs_io fs)\<rparr>) es"
proof -
  assume rep: "fs_rep fs es"
  let ?L = "fs_data_len fs" and ?io = "fs_io fs"
  obtain m where m: "m \<le> length es" "prefix_ok ?io (entry_pos ?L es m)" using rep by (auto simp: fs_rep_def Let_def)
  have "\<exists>m\<le>length es. prefix_ok (run_sync_task ok ?io) (entry_pos ?L es m)"
  proof (cases "io_sync_queued ?io \<and> ok")
    case True
    then have "io_disk (run_sync_task ok ?io) = fdata (io_file ?io)" by (simp add: run_sync_task_def)
    then have "prefix_ok (run_sync_task ok ?io) (entry_pos ?L es (length es))"
      using rep by (auto simp: prefix_ok_def entry_pos_all fs_rep_def Let_def)
    then show ?thesis by blast
  next
    case False
    then have "prefix_ok (run_sync_task ok ?io) (entry_pos ?L es m)"
      using m(2) by (auto simp: run_sync_task_def sync_run_def sync_start_def)
    then show ?thesis using m(1) by blast
  qed
  moreover have "cache_ok (run_sync_task ok ?io) = cache_ok ?io" by (simp add: cache_ok_def)
  ultimately show ?thesis using rep by (simp add: fs_rep_def Let_def)
qed

lemma fs_rep_queue: "fs_rep fs es \<Longrightarrow> fs_rep (fs\<lparr>fs_io := (fs_io fs)\<lparr>io_sync_queued := b\<rparr>\<rparr>) es"
  by (simp add: fs_rep_def Let_def)

lemma fs_rep_int_sync: "fs_rep fs es \<Longrightarrow> fs_rep (fs\<lparr>fs_io := snd (int_sync ok1 ok2 blocking (fs_io fs))\<rparr>) es"
proof -
  have enq: "fs_rep (fs\<lparr>fs_io := snd (enqueue_sync (fs_io fs))\<rparr>) es" if "fs_rep fs es" for fs
    using that fs_rep_queue[of fs es True] by (simp add: enqueue_sync_def)
  assume rep: "fs_rep fs es"
  let ?fs = "fs\<lparr>fs_io := run_sync_task ok1 (fs_io fs)\<rparr>"
  show ?thesis
  proof (cases blocking)
    case True
    have "fs_rep (?fs\<lparr>fs_io := run_sync_task ok2 (snd (enqueue_sync (fs_io ?fs)))\<rparr>) es"
      using fs_rep_sync[OF enq[OF fs_rep_sync[OF rep]], of ok2 ok1] by simp
    then show ?thesis using True by (simp add: int_sync_def case_prod_beta)
  qed (use enq[OF rep] rep in \<open>simp add: int_sync_def\<close>)
qed

lemma fs_read:
  assumes rep: "fs_rep fs es" and i: "i < length es" and n: "a + n \<le> length (fs_entry (fs_data_len fs) (es ! i))"
  shows "\<exists>c. int_pread (fs_io fs) n (entry_pos (fs_data_len fs) es i + a) readahead =
      Some (take n (drop a (fs_entry (fs_data_len fs) (es ! i))), (fs_io fs)\<lparr>io_cache := c\<rparr>) \<and>
    fs_rep (fs\<lparr>fs_io := (fs_io fs)\<lparr>io_cache := c\<rparr>\<rparr>) es"
proof -
  let ?L = "fs_data_len fs" and ?io = "fs_io fs"
  let ?p = "entry_pos ?L es"
  obtain m where m: "m \<le> length es" "prefix_ok ?io (?p m)" using rep by (auto simp: fs_rep_def Let_def)
  have fl: "fdata (io_file ?io) = log_of ?L es" "io_open ?io" "cache_ok ?io" "length (log_of ?L es) \<le> 2 ^ 62"
    using rep by (simp_all add: fs_rep_def Let_def)
  have next_pos: "?p i + a + n \<le> ?p (Suc i)" using entry_pos_Suc[OF i, of ?L] n by simp
  have "?p (Suc i) \<le> length (log_of ?L es)" unfolding entry_pos_all[symmetric] using i by (intro log_mono) simp
  then have len: "?p i + a + n \<le> length (fdata (io_file ?io))" "?p i + a < 2 ^ 63"
    using next_pos fl(1,4) by auto
  have within: "?p i + a + n \<le> ?p m" if "?p i + a < ?p m"
  proof (cases "i < m")
    case True
    then show ?thesis using next_pos log_mono[of "Suc i" m ?L es] by simp
  next
    case False
    then show ?thesis using that log_mono[of m i ?L es] by simp
  qed
  show ?thesis
    using prefix_read[OF fl(3,2) m(2) len(2,1) within, of readahead] fs_rep_cache[OF rep]
    unfolding fl(1) entry_slice[OF i n] by blast
qed

lemma fs_lookup:
  assumes rep: "fs_rep fs es" and i: "i < length es"
  shows "as_off_t (entry_key (fs_data_len fs) es i) x = word_of_nat (entry_id (fs_data_len fs) es i)"
    and "\<not> sint (fs_end_id fs) \<le> sint (as_off_t (entry_key (fs_data_len fs) es i) x)"
proof -
  let ?L = "fs_data_len fs"
  show 1: "as_off_t (entry_key ?L es i) x = word_of_nat (entry_id ?L es i)" by (simp add: entry_key_def)
  have le: "entry_id ?L es j \<le> 2 ^ 62" if "j \<le> length es" for j
    using id_bound[of es ?L j] rep that by (auto simp: fs_rep_def Let_def)
  have "entry_id ?L es i < entry_id ?L es (length es)" using i by (rule id_strict)
  then show "\<not> sint (fs_end_id fs) \<le> sint (as_off_t (entry_key ?L es i) x)"
    unfolding 1 using rep le[of i] le[of "length es"] i by (simp add: fs_rep_def Let_def sint_of_nat)
qed

section \<open>Reading entries\<close>

lemma lt64: "n \<le> 2 ^ 62 \<Longrightarrow> n < (2 :: nat) ^ 64" and lt63: "n \<le> 2 ^ 62 \<Longrightarrow> \<not> (2 :: nat) ^ 63 \<le> n"
  by simp_all

lemma fs_length_ok:
  assumes rep: "fs_rep fs es" and i: "i < length es"
  shows "\<exists>c. fs_length (entry_key (fs_data_len fs) es i) readahead fs =
      (OK, length (es ! i), fs\<lparr>fs_io := (fs_io fs)\<lparr>io_cache := c\<rparr>\<rparr>) \<and>
    fs_rep (fs\<lparr>fs_io := (fs_io fs)\<lparr>io_cache := c\<rparr>\<rparr>) es"
proof (cases "fs_data_len fs = 0")
  case True
  have fit: "fits 0 (es ! i)" using rep i True by (simp add: fs_rep_def Let_def)
  have "entry_id 0 es i \<le> 2 ^ 62" using id_bound[of es 0 i] rep i True by (auto simp: fs_rep_def Let_def)
  then have id: "unat (word_of_nat (entry_id 0 es i) :: u64) = entry_pos 0 es i" by (simp add: entry_id_def)
  have "(le_word (le_bytes 4 (word_of_nat (length (es ! i)) :: u32)) :: u32) = word_of_nat (length (es ! i))" by simp
  moreover have "unat (word_of_nat (length (es ! i)) :: u32) = length (es ! i)"
    using fit by (simp add: fits_def unsigned_of_nat take_bit_nat_eq_self)
  ultimately show ?thesis
    using fs_read[OF rep i, of 0 4 readahead] fs_lookup[OF rep i] True
    by (auto simp: fs_length_def id fs_entry_def)
next
  case False
  have "length (es ! i) = fs_data_len fs" using rep i False by (auto simp: fs_rep_def Let_def fits_def)
  then show ?thesis using fs_lookup(2)[OF rep i] False rep
    by (intro exI[of _ "io_cache (fs_io fs)"]) (simp add: fs_length_def)
qed

lemma fs_get_ok:
  assumes rep: "fs_rep fs es" and i: "i < length es" and ol: "offset \<le> length (es ! i)" "offset + len < 2 ^ 64"
  shows "\<exists>c. fs_get (entry_key (fs_data_len fs) es i) offset len readahead fs =
      Some (OK, take len (drop offset (es ! i)), fs\<lparr>fs_io := (fs_io fs)\<lparr>io_cache := c\<rparr>\<rparr>) \<and>
    fs_rep (fs\<lparr>fs_io := (fs_io fs)\<lparr>io_cache := c\<rparr>\<rparr>) es"
proof -
  let ?L = "fs_data_len fs" and ?d = "es ! i"
  let ?k = "entry_key ?L es i" and ?p = "entry_pos ?L es i + ((if ?L = 0 then 4 else 0) + offset)"
  let ?len = "get_len (length ?d) offset len"
  let ?count = "get_count ?L offset ?len"
  obtain c where len: "fs_length ?k readahead fs = (OK, length ?d, fs\<lparr>fs_io := (fs_io fs)\<lparr>io_cache := c\<rparr>\<rparr>)"
    and rep': "fs_rep (fs\<lparr>fs_io := (fs_io fs)\<lparr>io_cache := c\<rparr>\<rparr>) es"
    using fs_length_ok[OF rep i] by blast
  have fit: "?L \<noteq> 0 \<Longrightarrow> length ?d = ?L" and all: "\<forall>d\<in>set es. fits ?L d"
    using rep i by (auto simp: fs_rep_def Let_def fits_def)
  have cnt: "(if ?L = 0 then 4 else 0) + offset + ?count \<le> length (fs_entry ?L ?d)" "?count \<le> length ?d"
    using ol fit by (auto simp: length_fs_entry get_count_def get_len_def)
  have "?p + ?count \<le> entry_pos ?L es (Suc i)" using cnt(1) entry_pos_Suc[OF i, of ?L] by simp
  also have "\<dots> \<le> length (log_of ?L es)" unfolding entry_pos_all[symmetric] using i by (intro log_mono) simp
  also have "\<dots> \<le> 2 ^ 62" using rep by (simp add: fs_rep_def Let_def)
  finally have small: "?p + ?count \<le> 2 ^ 62" .
  have "get_pos ?L (word_of_nat (entry_id ?L es i)) offset = word_of_nat ?p"
    using entry_pos_fixed[OF _ all, of i] i by (simp add: entry_id_def get_pos_def)
  moreover have "unat (word_of_nat ?p :: u64) = ?p" by (rule unat_of_nat_small, rule lt64) (use small in linarith)
  ultimately have pos: "unat (get_pos ?L (word_of_nat (entry_id ?L es i)) offset) = ?p" by simp
  obtain c' where rd: "int_pread ((fs_io fs)\<lparr>io_cache := c\<rparr>) ?count ?p readahead =
      Some (take ?count (drop ((if ?L = 0 then 4 else 0) + offset) (fs_entry ?L ?d)), (fs_io fs)\<lparr>io_cache := c'\<rparr>)"
    and rep'': "fs_rep (fs\<lparr>fs_io := (fs_io fs)\<lparr>io_cache := c'\<rparr>\<rparr>) es"
    using fs_read[OF rep' i, of "(if ?L = 0 then 4 else 0) + offset" ?count readahead] cnt(1) by auto
  have "take ?len (take ?count (drop ((if ?L = 0 then 4 else 0) + offset) (fs_entry ?L ?d))) = take len (drop offset ?d)"
    using ol fit by (auto simp: fs_entry_def min_def get_count_def get_len_def)
  moreover have "\<not> 2 ^ 63 \<le> ?count" by (rule lt63) (use small in linarith)
  ultimately have "fs_get ?k offset len readahead fs = Some (OK, take len (drop offset ?d), fs\<lparr>fs_io := (fs_io fs)\<lparr>io_cache := c'\<rparr>\<rparr>)"
    using fs_lookup(2)[OF rep i, of "- 1"] ol(1) unfolding fs_get_def Let_def len prod.case fs_lookup(1)[OF rep i]
    by (simp add: pos rd)
  then show ?thesis using rep'' by blast
qed

lemma fs_get_all_ok:
  assumes "fs_rep fs es" "i < length es"
  shows "\<exists>c. fs_get_all (entry_key (fs_data_len fs) es i) readahead fs =
      Some (OK, es ! i, fs\<lparr>fs_io := (fs_io fs)\<lparr>io_cache := c\<rparr>\<rparr>) \<and>
    fs_rep (fs\<lparr>fs_io := (fs_io fs)\<lparr>io_cache := c\<rparr>\<rparr>) es"
proof -
  have "length (es ! i) \<le> 2 ^ 62"
    using entry_pos_Suc[OF assms(2), of "fs_data_len fs"] log_mono[of "Suc i" "length es" "fs_data_len fs" es] assms
    by (auto simp: fs_rep_def Let_def entry_pos_all length_fs_entry)
  then show ?thesis using fs_get_ok[OF assms, of 0 "2 ^ 64 - 1" readahead] by (simp add: fs_get_all_def)
qed

lemma fs_get_end:
  assumes "fs_rep fs es"
  shows "fs_get (off_t_value (word_of_nat (entry_id (fs_data_len fs) es (length es)))) offset len readahead fs = Some (END, [], fs)"
  using assms by (simp add: fs_get_def Let_def fs_rep_def)

section \<open>Appending entries\<close>

text \<open>What an append does around its write.\<close>

lemma fs_append_run:
  assumes rep: "fs_rep fs es" and fit: "fits (fs_data_len fs) d"
    and cap: "length (log_of (fs_data_len fs) (es @ [d])) \<le> 2 ^ 62"
    and wr: "int_pwritev (fs_io fs) (fs_entry (fs_data_len fs) d) (length (log_of (fs_data_len fs) es)) = (True, io')"
  defines "n \<equiv> word_of_nat (entry_id (fs_data_len fs) (es @ [d]) (Suc (length es)))"
  shows "\<exists>q io''. fs_append r d fs = (OK, entry_key (fs_data_len fs) es (length es),
      fs\<lparr>fs_next_append_id := n, fs_io := io'', fs_end_id := n, fs_next_sync := q\<rparr>) \<and>
    (io'' = io' \<or> io'' = snd (int_sync True True False io'))"
proof -
  let ?L = "fs_data_len fs" and ?m = "length es"
  let ?id = "entry_id ?L es ?m" and ?id' = "entry_id ?L (es @ [d]) (Suc ?m)"
  have all: "\<forall>d\<in>set es. fits ?L d" and ids: "fs_next_append_id fs = word_of_nat ?id" "fs_end_id fs = word_of_nat ?id"
    using rep by (simp_all add: fs_rep_def Let_def)
  have target: "put_target ?L (word_of_nat ?id) = word_of_nat (length (log_of ?L es))"
    using log_fixed[OF _ all] by (simp add: put_target_def entry_id_def entry_pos_all)
  have un: "unat (word_of_nat (length (log_of ?L es)) :: u64) = length (log_of ?L es)"
    by (rule unat_of_nat_small, rule lt64) (use cap in simp)
  have id': "?id' = (if ?L = 0 then ?id + 4 + length d else ?id + 1)"
    by (simp add: entry_id_def entry_pos_def length_fs_entry)
  have "?id' \<le> 2 ^ 62" using id_bound[of "es @ [d]" ?L "Suc ?m"] all fit cap by simp
  moreover have "?id < ?id'" using id' by simp
  ultimately have lt: "sint (word_of_nat ?id :: u64) < sint n" "(word_of_nat ?id :: u64) \<noteq> - 1"
    unfolding n_def by (simp_all add: sint_of_nat of_nat_not_minus_one)
  have "?L = 0 \<Longrightarrow> ucast (word_of_nat (length d) :: u32) = (word_of_nat (length d) :: u64)"
    using fit by (simp add: fits_def unsigned_of_nat take_bit_nat_eq_self)
  then have end': "put_end ?L (word_of_nat ?id) d = n" unfolding n_def by (simp add: put_end_def id' ac_simps)
  have put: "fs_put (off_t_value (word_of_nat ?id)) d (fs\<lparr>fs_next_append_id := n\<rparr>) =
      (OK, fs\<lparr>fs_next_append_id := n, fs_io := io', fs_end_id := n\<rparr>)"
    using lt ids(2) wr un by (simp add: fs_put_def target end' Let_def)
  have nxt: "word_of_nat ?id + append_step ?L d = n"
    unfolding n_def by (simp add: append_step_def append_len_def id' ac_simps)
  have "?L = 0 \<or> ?L = length d" using fit by (auto simp: fits_def split: if_splits)
  then have "fs_append r d fs = (OK, entry_key ?L es ?m,
      if sint (fs_next_sync fs - append_len ?L d) < 0
      then fs\<lparr>fs_next_append_id := n, fs_io := snd (int_sync True True False io'), fs_end_id := n, fs_next_sync := sync_interval r\<rparr>
      else fs\<lparr>fs_next_append_id := n, fs_io := io', fs_end_id := n, fs_next_sync := fs_next_sync fs - append_len ?L d\<rparr>)"
    using put nxt unfolding fs_append_def Let_def ids(1) entry_key_def by (cases fs) auto
  then show ?thesis by (cases "sint (fs_next_sync fs - append_len ?L d) < 0") auto
qed

lemma fs_append_ok:
  assumes rep: "fs_rep fs es" and fit: "fits (fs_data_len fs) d"
    and cap: "length (log_of (fs_data_len fs) (es @ [d])) \<le> fcap (io_file (fs_io fs))"
      "length (log_of (fs_data_len fs) (es @ [d])) \<le> 2 ^ 62"
  shows "\<exists>fs'. fs_append r d fs = (OK, entry_key (fs_data_len fs) es (length es), fs') \<and> fs_rep fs' (es @ [d]) \<and>
    fs_data_len fs' = fs_data_len fs \<and> fcap (io_file (fs_io fs')) = fcap (io_file (fs_io fs)) \<and>
    (\<forall>n. sync_ok (fs_io fs) n \<longrightarrow> sync_ok (fs_io fs') n)"
proof -
  let ?L = "fs_data_len fs" and ?io = "fs_io fs"
  let ?n = "word_of_nat (entry_id ?L (es @ [d]) (Suc (length es)))"
  obtain m where m: "m \<le> length es" "prefix_ok ?io (entry_pos ?L es m)" using rep by (auto simp: fs_rep_def Let_def)
  have fl: "fdata (io_file ?io) = log_of ?L es" "io_open ?io" "cache_ok ?io" "\<forall>d\<in>set es. fits ?L d"
    using rep by (simp_all add: fs_rep_def Let_def)
  obtain io' where wr: "int_pwritev ?io (fs_entry ?L d) (length (log_of ?L es)) = (True, io')" "cache_ok io'" "io_open io'"
      "prefix_ok io' (entry_pos ?L es m)" "io_file io' = (io_file ?io)\<lparr>fdata := log_of ?L es @ fs_entry ?L d\<rparr>"
    using prefix_append[OF fl(3,2) m(2), of "length (log_of ?L es)" "fs_entry ?L d"] fl(1) cap by auto
  have "\<exists>j\<le>Suc (length es). prefix_ok io' (entry_pos ?L (es @ [d]) j)"
    using m(1) wr(4) by (intro exI[of _ m]) (simp add: entry_pos_append)
  then have rep': "fs_rep (fs\<lparr>fs_next_append_id := ?n, fs_io := io', fs_end_id := ?n, fs_next_sync := q\<rparr>) (es @ [d])" for q
    unfolding fs_rep_def Let_def using wr(2,3,5) fl(4) fit cap(2) by simp
  obtain q io'' where run: "fs_append r d fs = (OK, entry_key ?L es (length es),
      fs\<lparr>fs_next_append_id := ?n, fs_io := io'', fs_end_id := ?n, fs_next_sync := q\<rparr>)"
      "io'' = io' \<or> io'' = snd (int_sync True True False io')"
    using fs_append_run[OF rep fit cap(2) wr(1), of r] by blast
  have "io_file io'' = io_file io'" using run(2) by auto
  moreover have "fs_rep (fs\<lparr>fs_next_append_id := ?n, fs_io := io'', fs_end_id := ?n, fs_next_sync := q\<rparr>) (es @ [d])"
    using run(2) rep'[of q] fs_rep_int_sync[OF rep'[of q], of True True False] by (cases fs) auto
  moreover have "sync_ok io'' n" if "sync_ok ?io n" for n
  proof -
    have "sync_ok io' n" using sync_ok_append[OF fl(3,2) that _ _ _ wr(1)] fl(1) cap by simp
    then show ?thesis using run(2) by (auto simp: int_sync_def enqueue_sync_def)
  qed
  ultimately show ?thesis using run(1) wr(5) by simp
qed

section \<open>Creation and iteration\<close>

lemma cache_inv_empty [simp]: "cache_inv d empty_cache"
  by (simp add: cache_inv_def empty_cache_def entry_ok_def)

lemma fs_create_ok:
  "\<exists>fs. fs_create L b r True True (FileStore_new f) = (OK, fs) \<and> fs_rep fs [] \<and> fs_data_len fs = L \<and>
    fcap (io_file (fs_io fs)) = fcap f"
  by (simp add: fs_create_def FileStore_new_def int_open_def int_initialize_def Let_def fs_rep_def cache_ok_def
      prefix_ok_def entry_id_def entry_pos_def)

lemma iter_next_ok:
  assumes rep: "fs_rep fs es" and i: "i < length es" and it: "it_next_id it = word_of_nat (entry_id (fs_data_len fs) es i)"
  shows "\<exists>c. iter_next it fs = Some (\<lparr>it_next_id = word_of_nat (entry_id (fs_data_len fs) es (Suc i)),
      it_key = entry_key (fs_data_len fs) es i, it_data = es ! i, it_state = OK\<rparr>, fs\<lparr>fs_io := (fs_io fs)\<lparr>io_cache := c\<rparr>\<rparr>) \<and>
    fs_rep (fs\<lparr>fs_io := (fs_io fs)\<lparr>io_cache := c\<rparr>\<rparr>) es"
proof -
  let ?L = "fs_data_len fs"
  have "entry_id ?L es (Suc i) = (if ?L = 0 then entry_id ?L es i + (4 + length (es ! i)) else entry_id ?L es i + 1)"
    using entry_pos_Suc[OF i, of 0] by (simp add: entry_id_def length_fs_entry)
  then have "word_of_nat (entry_id ?L es (Suc i)) = (word_of_nat (entry_id ?L es i) +
      (if ?L = 0 then 4 + word_of_nat (length (es ! i)) else 1) :: u64)" by simp
  then show ?thesis
    using fs_get_all_ok[OF rep i, of True] it by (auto simp: iter_next_def Let_def entry_key_def)
qed

lemma iter_next_end:
  assumes "fs_rep fs es" "it_next_id it = word_of_nat (entry_id (fs_data_len fs) es (length es))"
  shows "\<exists>it'. iter_next it fs = Some (it', fs) \<and> it_state it' = END"
  using assms fs_get_end[OF assms(1)] by (simp add: iter_next_def fs_get_all_def Let_def)

section \<open>Runs\<close>

text \<open>
  What happens to a store in use: entries are appended, the sync task runs at some time after it was
  queued, the store is flushed, entries are read. The results are those of the appends. The task runs on
  a thread of its own: its three sections may come at any time between the operations on the store, \<open>Task_op ok\<close> is the next one,
  with the result of \<^verbatim>\<open>fdatasync\<close>. Each operation on the store is a whole. A flush waits for the end of a task that
  has begun; the rest of it is \<open>end_task\<close>.
\<close>

datatype syncer = S_idle | S_started | S_synced

fun task_section :: "bool \<Rightarrow> syncer \<Rightarrow> file_io \<Rightarrow> syncer \<times> file_io" where
  "task_section ok S_idle io = (if io_sync_queued io then (S_started, sync_start io) else (S_idle, io))"
| "task_section ok S_started io = (if ok then (S_synced, sync_data io) else (S_idle, io\<lparr>io_sync_queued := False\<rparr>))"
| "task_section ok S_synced io = (S_idle, (sync_finish io)\<lparr>io_sync_queued := False\<rparr>)"

fun end_task :: "bool \<Rightarrow> syncer \<Rightarrow> file_io \<Rightarrow> file_io" where
  "end_task ok S_idle io = io"
| "end_task ok S_started io = (if ok then (sync_finish (sync_data io))\<lparr>io_sync_queued := False\<rparr> else io\<lparr>io_sync_queued := False\<rparr>)"
| "end_task ok S_synced io = (sync_finish io)\<lparr>io_sync_queued := False\<rparr>"

text \<open>A task that begins and is not disturbed is the whole task.\<close>

lemma undisturbed_task:
  "io_sync_queued io \<Longrightarrow> end_task ok S_started (snd (task_section ok S_idle io)) = run_sync_task ok io"
  by (simp add: run_sync_task_def sync_run_def Let_def)

datatype log_op = Append_op nat bytes | Task_op bool | Flush_op bool bool | Read_op bytes bool

fun run_log :: "log_op list \<Rightarrow> syncer \<Rightarrow> file_store \<Rightarrow> ((FawnDS_Return \<times> bytes) list \<times> syncer \<times> file_store) option" where
  "run_log [] p fs = Some ([], p, fs)"
| "run_log (Append_op r d # xs) p fs =
     (case fs_append r d fs of (ret, k, fs) \<Rightarrow> map_option (\<lambda>(outs, p, fs). ((ret, k) # outs, p, fs)) (run_log xs p fs))"
| "run_log (Task_op ok # xs) p fs = (case task_section ok p (fs_io fs) of (p, io) \<Rightarrow> run_log xs p (fs\<lparr>fs_io := io\<rparr>))"
| "run_log (Flush_op ok1 ok2 # xs) p fs =
     run_log xs S_idle (snd (fs_flush ok1 ok2 (fs\<lparr>fs_io := end_task ok1 p (fs_io fs)\<rparr>)))"
| "run_log (Read_op k ra # xs) p fs = (case fs_get_all k ra fs of None \<Rightarrow> None | Some (ret, d, fs) \<Rightarrow> run_log xs p fs)"

text \<open>The store is a log, also in the middle of a sync task.\<close>

definition task_rep :: "syncer \<Rightarrow> file_store \<Rightarrow> bytes list \<Rightarrow> bool" where
  "task_rep p fs es \<longleftrightarrow> fs_rep fs es \<and>
     (p = S_synced \<longrightarrow> (\<exists>m\<le>length es. sync_ok (fs_io fs) (entry_pos (fs_data_len fs) es m)))"

lemma fs_rep_synced: "fs_rep fs es \<Longrightarrow> fs_rep (fs\<lparr>fs_io := sync_data (fs_io fs)\<rparr>) es \<and>
    sync_ok (sync_data (fs_io fs)) (entry_pos (fs_data_len fs) es (length es))"
proof -
  assume rep: "fs_rep fs es"
  have p: "sync_ok (sync_data (fs_io fs)) (entry_pos (fs_data_len fs) es (length es))"
    using rep by (auto simp: sync_ok_def prefix_ok_def sync_data_def entry_pos_all fs_rep_def Let_def)
  then have "\<exists>m\<le>length es. prefix_ok (sync_data (fs_io fs)) (entry_pos (fs_data_len fs) es m)" by (auto simp: sync_ok_def)
  moreover have "cache_ok (sync_data (fs_io fs)) = cache_ok (fs_io fs)" by (simp add: cache_ok_def sync_data_def)
  ultimately show ?thesis using rep p by (simp add: fs_rep_def Let_def sync_data_def)
qed

lemma fs_rep_finish:
  assumes rep: "fs_rep fs es" and m: "m \<le> length es" "sync_ok (fs_io fs) (entry_pos (fs_data_len fs) es m)"
  shows "fs_rep (fs\<lparr>fs_io := sync_finish (fs_io fs)\<rparr>) es"
proof -
  have "\<exists>m\<le>length es. prefix_ok (sync_finish (fs_io fs)) (entry_pos (fs_data_len fs) es m)"
    using m sync_finish_prefix by blast
  moreover have "cache_ok (sync_finish (fs_io fs)) = cache_ok (fs_io fs)" by (simp add: cache_ok_def sync_finish_def Let_def)
  ultimately show ?thesis using rep by (simp add: fs_rep_def Let_def) (simp add: sync_finish_def Let_def)
qed

lemma fs_rep_started: "fs_rep fs es \<Longrightarrow> fs_rep (fs\<lparr>fs_io := sync_start (fs_io fs)\<rparr>) es"
  by (auto simp: fs_rep_def Let_def sync_start_def cache_ok_def)

lemma task_section_rep:
  assumes "task_rep p fs es" "task_section ok p (fs_io fs) = (p', io')"
  shows "task_rep p' (fs\<lparr>fs_io := io'\<rparr>) es \<and> io_file io' = io_file (fs_io fs)"
proof (cases p)
  case S_idle
  then show ?thesis using assms fs_rep_started[of fs es] by (auto simp: task_rep_def sync_start_def split: if_splits)
next
  case S_started
  then show ?thesis using assms fs_rep_synced[of fs es] fs_rep_queue[of fs es False]
    by (auto simp: task_rep_def sync_data_def split: if_splits)
next
  case S_synced
  then obtain m where "m \<le> length es" "sync_ok (fs_io fs) (entry_pos (fs_data_len fs) es m)" using assms(1) by (auto simp: task_rep_def)
  then have "fs_rep (fs\<lparr>fs_io := sync_finish (fs_io fs)\<rparr>) es" using assms(1) fs_rep_finish by (simp add: task_rep_def)
  from fs_rep_queue[OF this, of False] show ?thesis using S_synced assms(2) by (auto simp: task_rep_def sync_finish_def Let_def)
qed

lemma task_rep_cache:
  "task_rep p fs es \<Longrightarrow> fs_rep (fs\<lparr>fs_io := (fs_io fs)\<lparr>io_cache := c\<rparr>\<rparr>) es \<Longrightarrow> task_rep p (fs\<lparr>fs_io := (fs_io fs)\<lparr>io_cache := c\<rparr>\<rparr>) es"
  by (simp add: task_rep_def)

lemma task_rep_append:
  assumes "task_rep p fs es" "fs_rep fs' (es @ [d])" "fs_data_len fs' = fs_data_len fs" "\<forall>n. sync_ok (fs_io fs) n \<longrightarrow> sync_ok (fs_io fs') n"
  shows "task_rep p fs' (es @ [d])"
proof (cases "p = S_synced")
  case True
  then obtain m where m: "m \<le> length es" "sync_ok (fs_io fs) (entry_pos (fs_data_len fs) es m)" using assms(1) by (auto simp: task_rep_def)
  then have "m \<le> length (es @ [d]) \<and> sync_ok (fs_io fs') (entry_pos (fs_data_len fs) (es @ [d]) m)" using assms(4) by (simp add: entry_pos_append)
  then show ?thesis using assms(2,3) by (auto simp: task_rep_def)
qed (use assms(2) in \<open>simp add: task_rep_def\<close>)

lemma end_task_rep:
  assumes "task_rep p fs es"
  shows "fs_rep (fs\<lparr>fs_io := end_task ok p (fs_io fs)\<rparr>) es \<and> io_file (end_task ok p (fs_io fs)) = io_file (fs_io fs)"
proof (cases p)
  case S_started
  show ?thesis
  proof (cases ok)
    case True
    have 1: "task_rep S_synced (fs\<lparr>fs_io := sync_data (fs_io fs)\<rparr>) es"
      using task_section_rep[OF assms[unfolded S_started], of True S_synced "sync_data (fs_io fs)"] by simp
    show ?thesis using task_section_rep[OF 1, of True S_idle "(sync_finish (sync_data (fs_io fs)))\<lparr>io_sync_queued := False\<rparr>"] True S_started
      by (simp add: task_rep_def sync_data_def)
  qed (use S_started assms fs_rep_queue in \<open>simp add: task_rep_def\<close>)
next
  case S_synced
  then show ?thesis
    using task_section_rep[OF assms, of ok S_idle "(sync_finish (fs_io fs))\<lparr>io_sync_queued := False\<rparr>"] by (simp add: task_rep_def)
qed (use assms in \<open>simp add: task_rep_def\<close>)

fun appended :: "log_op list \<Rightarrow> bytes list" where
  "appended (Append_op r d # xs) = d # appended xs"
| "appended (x # xs) = appended xs"
| "appended [] = []"

text \<open>Reads use keys that an append of the same run has returned before.\<close>

fun reads_known :: "nat \<Rightarrow> bytes list \<Rightarrow> log_op list \<Rightarrow> bool" where
  "reads_known L es (Append_op r d # xs) = reads_known L (es @ [d]) xs"
| "reads_known L es (Read_op k ra # xs) \<longleftrightarrow> (\<exists>i<length es. k = entry_key L es i) \<and> reads_known L es xs"
| "reads_known L es (x # xs) = reads_known L es xs"
| "reads_known L es [] = True"

lemma appended_append [simp]: "appended (xs @ ys) = appended xs @ appended ys"
  by (induction xs rule: appended.induct) simp_all

lemma entry_key_append: "i \<le> length es \<Longrightarrow> entry_key L (es @ xs) i = entry_key L es i"
  by (simp add: entry_key_def entry_id_def entry_pos_append)

lemma log_of_append: "log_of L (es @ xs) = log_of L es @ log_of L xs"
  by (simp add: log_of_def)

lemma log_of_Cons: "log_of L (d # xs) = fs_entry L d @ log_of L xs"
  by (simp add: log_of_def)

lemma run_log_ok:
  assumes "task_rep p fs es" "L = fs_data_len fs" "\<forall>d\<in>set (appended xs). fits L d" "reads_known L es xs"
    and "length (log_of L (es @ appended xs)) \<le> fcap (io_file (fs_io fs))" "length (log_of L (es @ appended xs)) \<le> 2 ^ 62"
  shows "\<exists>p' fs'. run_log xs p fs = Some (map (\<lambda>i. (OK, entry_key L (es @ appended xs) i)) [length es..<length (es @ appended xs)], p', fs') \<and>
    task_rep p' fs' (es @ appended xs) \<and> fs_data_len fs' = L \<and> fcap (io_file (fs_io fs')) = fcap (io_file (fs_io fs))"
  using assms
proof (induction xs arbitrary: p fs es)
  case (Cons x xs)
  have rep: "fs_rep fs es" using Cons.prems(1) by (simp add: task_rep_def)
  show ?case
  proof (cases x)
    case (Append_op r d)
    have "length (log_of L (es @ [d])) \<le> length (log_of L (es @ appended (x # xs)))"
      by (simp add: Append_op log_of_append log_of_Cons log_of_def)
    then obtain fs1 where 1: "fs_append r d fs = (OK, entry_key L es (length es), fs1)" "fs_rep fs1 (es @ [d])"
        "fs_data_len fs1 = L" "fcap (io_file (fs_io fs1)) = fcap (io_file (fs_io fs))"
        "\<forall>n. sync_ok (fs_io fs) n \<longrightarrow> sync_ok (fs_io fs1) n"
      using fs_append_ok[OF rep, of d r] Cons.prems Append_op by auto
    have rep1: "task_rep p fs1 (es @ [d])" using task_rep_append[OF Cons.prems(1) 1(2)] 1(3,5) Cons.prems(2) by simp
    obtain p' fs' where "run_log xs p fs1 = Some (map (\<lambda>i. (OK, entry_key L ((es @ [d]) @ appended xs) i))
        [length (es @ [d])..<length ((es @ [d]) @ appended xs)], p', fs')"
        "task_rep p' fs' ((es @ [d]) @ appended xs)" "fs_data_len fs' = L" "fcap (io_file (fs_io fs')) = fcap (io_file (fs_io fs))"
      using Cons.IH[OF rep1, unfolded 1(3,4)] Cons.prems Append_op by auto
    moreover have "entry_key L (es @ d # appended xs) (length es) = entry_key L es (length es)" by (rule entry_key_append) simp
    moreover have "[length es..<length es + Suc (length (appended xs))] = length es # [Suc (length es)..<length es + Suc (length (appended xs))]"
      by (subst upt_conv_Cons) simp_all
    ultimately show ?thesis using 1(1) Append_op by simp
  next
    case (Task_op ok)
    obtain p' io' where s: "task_section ok p (fs_io fs) = (p', io')" by (cases "task_section ok p (fs_io fs)")
    show ?thesis
      using Cons.IH[of p' "fs\<lparr>fs_io := io'\<rparr>" es] task_section_rep[OF Cons.prems(1) s] Cons.prems Task_op s by simp
  next
    case (Flush_op ok1 ok2)
    let ?eio = "fs\<lparr>fs_io := end_task ok1 p (fs_io fs)\<rparr>"
    let ?fs = "snd (fs_flush ok1 ok2 ?eio)"
    have rep0: "fs_rep ?eio es" "io_file (fs_io ?eio) = io_file (fs_io fs)" "fs_data_len ?eio = L"
      using end_task_rep[OF Cons.prems(1), of ok1] Cons.prems(2) by simp_all
    have "fs_rep ?fs es \<and> fs_data_len ?fs = L \<and> fcap (io_file (fs_io ?fs)) = fcap (io_file (fs_io fs))"
      using fs_rep_int_sync[OF rep0(1), of ok1 ok2 True] rep0 by (simp add: fs_flush_def)
    then show ?thesis using Cons.IH[of S_idle ?fs es] Cons.prems Flush_op by (simp add: task_rep_def)
  next
    case (Read_op k ra)
    then obtain i where i: "i < length es" "k = entry_key L es i" using Cons.prems(4) by auto
    then obtain c where "fs_get_all k ra fs = Some (OK, es ! i, fs\<lparr>fs_io := (fs_io fs)\<lparr>io_cache := c\<rparr>\<rparr>)"
        "fs_rep (fs\<lparr>fs_io := (fs_io fs)\<lparr>io_cache := c\<rparr>\<rparr>) es"
      using fs_get_all_ok[OF rep, of i ra] Cons.prems(2) by auto
    then show ?thesis using Cons.IH[of p "fs\<lparr>fs_io := (fs_io fs)\<lparr>io_cache := c\<rparr>\<rparr>" es] Cons.prems Read_op by (simp add: task_rep_def)
  qed
qed simp

end
