(* ===== verification/Trie_Store_Correct.thy ===== *)
theory Trie_Store_Correct
  imports Trie_Store Index_Correct File_Store_Correct
begin

text \<open>
  The sorted store over any data store that keeps the laws of the locale \<open>record_store\<close>: after
  entries were put in ascending order and the store was flushed, it is the map of these entries. The
  file store with entries of a fixed length keeps the laws.
\<close>

section \<open>The contract of a store of records\<close>

text \<open>
  \<open>rep s es\<close>: \<open>s\<close> holds the records \<open>es\<close>, numbered from zero; \<open>len\<close> is their length and \<open>room\<close>
  how many of them fit. \<open>cursor s es i it\<close>: the iterator \<open>it\<close> shows record \<open>i\<close>.
\<close>

locale record_store =
  fixes ops :: "('s, 'i) ds_ops"
    and fresh :: "'s \<Rightarrow> bool"
    and capacity :: "'s \<Rightarrow> nat \<Rightarrow> nat"
    and rep :: "'s \<Rightarrow> bytes list \<Rightarrow> bool"
    and len :: "'s \<Rightarrow> nat"
    and room :: "'s \<Rightarrow> nat"
    and cursor :: "'s \<Rightarrow> bytes list \<Rightarrow> nat \<Rightarrow> 'i \<Rightarrow> bool"
  assumes create_ok: "fresh s \<Longrightarrow> 0 < n \<Longrightarrow>
      \<exists>s'. ds_create ops n s = (OK, s') \<and> rep s' [] \<and> len s' = n \<and> room s' = capacity s n"
    and append_ok: "rep s es \<Longrightarrow> length d = len s \<Longrightarrow> length es < room s \<Longrightarrow>
      \<exists>k s'. ds_append ops d s = (OK, k, s') \<and> rep s' (es @ [d]) \<and> len s' = len s \<and> room s' = room s"
    and get_ok: "rep s es \<Longrightarrow> i < length es \<Longrightarrow> offset + n \<le> len s \<Longrightarrow>
      \<exists>s'. ds_get ops (off_t_value (word_of_nat i)) offset n s = Some (OK, take n (drop offset (es ! i)), s') \<and>
        rep s' es \<and> len s' = len s \<and> room s' = room s"
    and get_end: "rep s es \<Longrightarrow>
      \<exists>s'. ds_get ops (off_t_value (word_of_nat (length es))) offset n s = Some (END, [], s') \<and> rep s' es \<and> len s' = len s"
    and enumerate_ok: "rep s es \<Longrightarrow> \<exists>it s'. ds_enumerate ops s = Some (it, s') \<and> cursor s' es 0 it \<and> rep s' es"
    and next_ok: "rep s es \<Longrightarrow> cursor s es i it \<Longrightarrow> i < length es \<Longrightarrow>
      \<exists>it' s'. ds_next ops it s = Some (it', s') \<and> cursor s' es (Suc i) it' \<and> rep s' es"
    and cursor_shows: "cursor s es i it \<Longrightarrow> i < length es \<Longrightarrow> ds_it_state ops it = OK \<and> ds_it_data ops it = es ! i"
    and cursor_end: "cursor s es (length es) it \<Longrightarrow> ds_it_state ops it = END"

section \<open>The sorted store\<close>

definition ts_records :: "(bytes \<times> bytes) list \<Rightarrow> bytes list" where
  "ts_records kvs = map (\<lambda>(k, d). ts_record k d) kvs"

definition ts_layout :: "(nat \<Rightarrow> u32) \<Rightarrow> trie_config \<Rightarrow> layout" where
  "ts_layout uninit c = index_layout uninit (tc_key_len c) (tc_size c) (tc_bucket_size c) 0 (tc_keys_per_block c) (tc_skip_bits c)"

definition ts_scale :: "(nat \<Rightarrow> u32) \<Rightarrow> trie_config \<Rightarrow> nat" where
  "ts_scale uninit c = tc_size c div 2 ^ l_bits (ts_layout uninit c)"

text \<open>What is asked of the entries of a store with configuration \<open>c\<close>.\<close>

definition ts_entries_ok :: "(nat \<Rightarrow> u32) \<Rightarrow> trie_config \<Rightarrow> (bytes \<times> bytes) list \<Rightarrow> bool" where
  "ts_entries_ok uninit c kvs \<longleftrightarrow>
     keys_ok (ts_layout uninit c) (map fst kvs) \<and> (\<forall>(k, d)\<in>set kvs. length d = tc_data_len c) \<and>
     twolevel_fits (ts_scale uninit c) (entries (ts_layout uninit c) (map fst kvs) (2 ^ l_bits (ts_layout uninit c)))"

definition config_ok :: "(nat \<Rightarrow> u32) \<Rightarrow> trie_config \<Rightarrow> bool" where
  "config_ok uninit c \<longleftrightarrow> 0 < tc_key_len c \<and> 0 < tc_data_len c \<and> 0 < tc_keys_per_block c \<and>
     0 < tc_bucket_size c \<and> 0 < ts_scale uninit c"

lemma layout_simps [simp]: "l_key_len (ts_layout uninit c) = tc_key_len c" "l_base (ts_layout uninit c) = 0"
  "l_kpb (ts_layout uninit c) = tc_keys_per_block c" "l_skip (ts_layout uninit c) = tc_skip_bits c"
  by (simp_all add: ts_layout_def index_layout_def)

lemma length_ts_records [simp]: "length (ts_records kvs) = length kvs"
  by (simp add: ts_records_def)

lemma ts_record_parts:
  assumes "length k = n" "length d = m"
  shows "take n (ts_record k d) = k" "take m (drop n (ts_record k d)) = d" "length (ts_record k d) = n + m + 4"
  using assms by (simp_all add: ts_record_def)

context record_store
begin

definition ts_inv :: "(nat \<Rightarrow> u32) \<Rightarrow> 's trie_store \<Rightarrow> (bytes \<times> bytes) list \<Rightarrow> bool" where
  "ts_inv uninit ts kvs \<longleftrightarrow>
     (\<exists>ix. ts_index ts = Some ix \<and> twolevel.ix_inv (ts_layout uninit (ts_config ts)) (ts_scale uninit (ts_config ts)) ix (map fst kvs) \<and>
       (\<not> finalized ix \<longrightarrow> ix_pending_bucket ix =
         (if kvs = [] then 0 else bucket_of (ts_layout uninit (ts_config ts)) (last (map fst kvs))))) \<and>
     rep (ts_data_store ts) (ts_records kvs) \<and>
     len (ts_data_store ts) = tc_key_len (ts_config ts) + tc_data_len (ts_config ts) + 4 \<and>
     ts_actual_size ts = length kvs"

definition ready :: "'s trie_store \<Rightarrow> bool" where
  "ready ts \<longleftrightarrow> (case ts_index ts of None \<Rightarrow> False | Some ix \<Rightarrow> finalized ix)"

lemma ts_create_inv:
  assumes "config_ok uninit c" "fresh s"
  shows "\<exists>ts. ts_create ops uninit c (trie_store_new s c0) = Some (OK, ts) \<and> ts_inv uninit ts [] \<and>
    ts_config ts = c \<and> \<not> ready ts \<and> room (ts_data_store ts) = capacity s (tc_key_len c + tc_data_len c + 4)"
proof -
  let ?L = "ts_layout uninit c"
  obtain s' where s': "ds_create ops (tc_key_len c + tc_data_len c + 4) s = (OK, s')" "rep s' []"
      "len s' = tc_key_len c + tc_data_len c + 4" "room s' = capacity s (tc_key_len c + tc_data_len c + 4)"
    using create_ok[OF assms(2), of "tc_key_len c + tc_data_len c + 4"] by auto
  have "twolevel_fits (ts_scale uninit c) [(0, 0)]" by (simp add: twolevel_fits_def base_entry_def)
  then obtain ix where ix: "bucketing_index_new twolevel_ops uninit (tc_key_len c) (tc_size c) (tc_bucket_size c) 0
      (tc_keys_per_block c) (tc_skip_bits c) = Some ix" "twolevel.ix_inv ?L (ts_scale uninit c) ix []" "ix_pending_bucket ix = 0"
    using twolevel.bucketing_index_new_inv[of "tc_bucket_size c" ?L uninit "tc_key_len c" "tc_size c" 0 "tc_keys_per_block c" "tc_skip_bits c"]
      assms(1) by (auto simp: config_ok_def ts_scale_def ts_layout_def)
  have "\<not> finalized ix" using ix(2,3) by (simp add: finalized_def twolevel.ix_inv_def ix_fixed_def)
  then show ?thesis
    using assms(1) s' ix by (auto simp: ts_create_def trie_store_new_def config_ok_def ts_inv_def ts_records_def ready_def Let_def)
qed

lemma ts_put_inv:
  assumes inv: "ts_inv uninit ts kvs" and nr: "\<not> ready ts" and ok: "ts_entries_ok uninit (ts_config ts) (kvs @ (k, d) # rest)"
    and rm: "length kvs < room (ts_data_store ts)"
  shows "\<exists>ts'. ts_put ops k d ts = Some (OK, ts') \<and> ts_inv uninit ts' (kvs @ [(k, d)]) \<and> \<not> ready ts' \<and>
    ts_config ts' = ts_config ts \<and> room (ts_data_store ts') = room (ts_data_store ts)"
proof -
  let ?c = "ts_config ts"
  let ?L = "ts_layout uninit ?c" and ?S = "ts_scale uninit ?c" and ?ks = "map fst kvs"
  obtain ix where ix: "ts_index ts = Some ix" "twolevel.ix_inv ?L ?S ix ?ks" "\<not> finalized ix"
      "ix_pending_bucket ix = (if ?ks = [] then 0 else bucket_of ?L (last ?ks))"
    using inv nr by (auto simp: ts_inv_def ready_def)
  have all: "keys_ok ?L (?ks @ [k] @ map fst rest)" and dl: "length d = tc_data_len ?c"
      and fits: "twolevel_fits ?S (entries ?L (?ks @ [k] @ map fst rest) (2 ^ l_bits ?L))"
    using ok by (auto simp: ts_entries_ok_def)
  have okk: "keys_ok ?L (?ks @ [k])" using keys_ok_prefix[of ?L "?ks @ [k]" "map fst rest"] all by simp
  then have kl: "length k = tc_key_len ?c" by (simp add: keys_ok_def)
  have "bucket_of ?L k \<le> bucket_of ?L k'" if "k' \<in> set ([k] @ map fst rest)" for k'
    using keys_ok_sorted[OF all] that by (auto simp: sorted_append)
  then have "entries ?L (?ks @ [k] @ map fst rest) (bucket_of ?L k) = entries ?L ?ks (bucket_of ?L k)" by (rule entries_append)
  then obtain es where "entries ?L (?ks @ [k] @ map fst rest) (2 ^ l_bits ?L) = entries ?L ?ks (bucket_of ?L k) @ es"
    using entries_prefix[of "bucket_of ?L k" "2 ^ l_bits ?L" ?L "?ks @ [k] @ map fst rest"] bucket_of_less[of ?L k] by auto
  then have "twolevel_fits ?S (entries ?L ?ks (bucket_of ?L k))" using fits twolevel.prefix by metis
  then obtain ix' where ix': "ix_insert twolevel_ops ix k = Some (ix', True)" "twolevel.ix_inv ?L ?S ix' (?ks @ [k])"
      "ix_pending_bucket ix' = bucket_of ?L k"
    using twolevel.ix_insert_inv[OF ix(2) okk ix(4)] by blast
  have "\<not> finalized ix'"
    using ix'(2,3) bucket_of_less[of ?L k] by (simp add: finalized_def twolevel.ix_inv_def ix_fixed_def)
  moreover obtain y s' where "ds_append ops (ts_record k d) (ts_data_store ts) = (OK, y, s')"
      "rep s' (ts_records kvs @ [ts_record k d])" "len s' = len (ts_data_store ts)" "room s' = room (ts_data_store ts)"
    using append_ok[of "ts_data_store ts" "ts_records kvs" "ts_record k d"] inv rm ts_record_parts(3)[OF kl dl]
    by (auto simp: ts_inv_def)
  ultimately show ?thesis
    using ix ix' kl dl inv by (auto simp: ts_put_def ts_inv_def ready_def ts_records_def)
qed

lemma ts_put_all_inv:
  assumes "ts_inv uninit ts kvs" "\<not> ready ts" "ts_entries_ok uninit (ts_config ts) (kvs @ rest)"
    and "length (kvs @ rest) \<le> room (ts_data_store ts)"
  shows "\<exists>ts'. ts_put_all ops rest ts = Some (replicate (length rest) OK, ts') \<and> ts_inv uninit ts' (kvs @ rest) \<and>
    \<not> ready ts' \<and> ts_config ts' = ts_config ts"
  using assms
proof (induction rest arbitrary: ts kvs)
  case (Cons kd rest)
  obtain k d where kd: "kd = (k, d)" by fastforce
  obtain ts' where "ts_put ops k d ts = Some (OK, ts')" "ts_inv uninit ts' (kvs @ [(k, d)])" "\<not> ready ts'"
      "ts_config ts' = ts_config ts" "room (ts_data_store ts') = room (ts_data_store ts)"
    using ts_put_inv[OF Cons.prems(1,2), of k d rest] Cons.prems(3,4) kd by auto
  then show ?case using Cons.IH[of ts' "kvs @ [(k, d)]"] Cons.prems(3,4) kd by auto
qed simp

lemma ts_flush_inv:
  assumes inv: "ts_inv uninit ts kvs" and nr: "\<not> ready ts" and ok: "ts_entries_ok uninit (ts_config ts) kvs"
  shows "\<exists>ts'. ts_flush ts = Some (OK, ts') \<and> ts_inv uninit ts' kvs \<and> ready ts' \<and> ts_config ts' = ts_config ts"
proof -
  let ?c = "ts_config ts"
  obtain ix where ix: "ts_index ts = Some ix" "twolevel.ix_inv (ts_layout uninit ?c) (ts_scale uninit ?c) ix (map fst kvs)" "\<not> finalized ix"
    using inv nr by (auto simp: ts_inv_def ready_def)
  obtain ix' where "ix_flush twolevel_ops ix = Some ix'" "twolevel.ix_inv (ts_layout uninit ?c) (ts_scale uninit ?c) ix' (map fst kvs)" "finalized ix'"
    using twolevel.ix_flush_inv[OF ix(2) _ _ ix(3)] ok by (auto simp: ts_entries_ok_def)
  then show ?thesis using ix(1,3) inv by (auto simp: ts_flush_def ts_inv_def ready_def)
qed

section \<open>Lookup\<close>

lemma loop_misses:
  assumes "rep s (ts_records kvs)" "len s = tc_key_len c + tc_data_len c + 4" "i \<le> length kvs"
    and "\<forall>(k, d)\<in>set kvs. length k = tc_key_len c \<and> length d = tc_data_len c"
    and "\<And>m. i \<le> m \<Longrightarrow> m < i + n \<Longrightarrow> m < length kvs \<Longrightarrow> fst (kvs ! m) \<noteq> key"
  shows "\<exists>s'. ts_get_loop ops c key offset i n s = Some (KEY_NOT_FOUND, [], s') \<and> rep s' (ts_records kvs) \<and> len s' = len s"
  using assms(1,2,3,5)
proof (induction n arbitrary: i s)
  case (Suc n)
  show ?case
  proof (cases "i < length kvs")
    case True
    obtain k d where kd: "kvs ! i = (k, d)" by fastforce
    then have l: "length k = tc_key_len c" "length d = tc_data_len c" using assms(4) nth_mem[OF True] by force+
    have rec: "ts_records kvs ! i = ts_record k d" using True kd by (simp add: ts_records_def)
    obtain s' where "ds_get ops (off_t_value (word_of_nat i)) 0 (tc_key_len c) s = Some (OK, k, s')" "rep s' (ts_records kvs)" "len s' = len s"
      using get_ok[OF Suc.prems(1), of i 0 "tc_key_len c"] True Suc.prems(2) rec ts_record_parts[OF l] by auto
    moreover have "k \<noteq> key" using Suc.prems(4)[of i] True kd by simp
    moreover have "\<exists>s''. ts_get_loop ops c key offset (i + 1) n s' = Some (KEY_NOT_FOUND, [], s'') \<and> rep s'' (ts_records kvs) \<and> len s'' = len s'"
      using calculation(2,3) Suc.prems(2,4) True by (intro Suc.IH) auto
    ultimately show ?thesis using l(1) by auto
  next
    case False
    then have "i = length (ts_records kvs)" using Suc.prems(3) by simp
    then show ?thesis using get_end[OF Suc.prems(1), of 0 "tc_key_len c"] by auto
  qed
qed simp

lemma loop_finds:
  assumes "rep s (ts_records kvs)" "len s = tc_key_len c + tc_data_len c + 4"
    and "\<forall>(k, d)\<in>set kvs. length k = tc_key_len c \<and> length d = tc_data_len c"
    and "j < length kvs" "kvs ! j = (key, data)" "offset \<le> tc_data_len c" "i \<le> j" "j < i + n"
    and "\<And>m. i \<le> m \<Longrightarrow> m < j \<Longrightarrow> fst (kvs ! m) \<noteq> key"
  shows "\<exists>s'. ts_get_loop ops c key offset i n s = Some (OK, data, s') \<and> rep s' (ts_records kvs) \<and> len s' = len s"
  using assms(1,2,7,8,9)
proof (induction n arbitrary: i s)
  case (Suc n)
  have i: "i < length kvs" using Suc.prems(3) assms(4) by simp
  obtain k d where kd: "kvs ! i = (k, d)" by fastforce
  then have l: "length k = tc_key_len c" "length d = tc_data_len c" using assms(3) nth_mem[OF i] by force+
  have rec: "ts_records kvs ! i = ts_record k d" using i kd by (simp add: ts_records_def)
  obtain s' where s': "ds_get ops (off_t_value (word_of_nat i)) 0 (tc_key_len c) s = Some (OK, k, s')" "rep s' (ts_records kvs)" "len s' = len s"
    using get_ok[OF Suc.prems(1), of i 0 "tc_key_len c"] i Suc.prems(2) rec ts_record_parts[OF l] by auto
  show ?case
  proof (cases "i = j")
    case True
    then have "k = key" "d = data" using kd assms(5) by auto
    moreover obtain s'' where "ds_get ops (off_t_value (word_of_nat i)) (tc_key_len c) (tc_data_len c) s' = Some (OK, d, s'')"
        "rep s'' (ts_records kvs)" "len s'' = len s'"
      using get_ok[OF s'(2), of i "tc_key_len c" "tc_data_len c"] i s'(3) Suc.prems(2) rec ts_record_parts[OF l] by auto
    ultimately show ?thesis using s' l assms(6) by auto
  next
    case False
    then have "k \<noteq> key" using Suc.prems(3) Suc.prems(5)[of i] kd by simp
    moreover have "\<exists>s''. ts_get_loop ops c key offset (i + 1) n s' = Some (OK, data, s'') \<and> rep s'' (ts_records kvs) \<and> len s'' = len s'"
      using s'(2,3) Suc.prems False by (intro Suc.IH) auto
    ultimately show ?thesis using s' l(1) by auto
  qed
qed simp

lemma keys_ok_distinct:
  assumes "keys_ok L ks"
  shows "distinct ks"
proof -
  have "ks ! i \<noteq> ks ! j" if "i < j" "j < length ks" for i j
    using keys_ok_less[OF assms that] by (auto simp: key_less_def)
  then show ?thesis by (auto simp: distinct_conv_nth) (metis linorder_neqE_nat)
qed

lemma ts_get_map:
  assumes inv: "ts_inv uninit ts kvs" and rd: "ready ts" and ok: "ts_entries_ok uninit (ts_config ts) kvs"
    and cfg: "config_ok uninit (ts_config ts)" and key: "length key = tc_key_len (ts_config ts)"
    and off: "offset \<le> tc_data_len (ts_config ts)"
  shows "\<exists>ts'. ts_get ops key offset ts = (case map_of kvs key of
      Some data \<Rightarrow> Some (OK, data, ts') | None \<Rightarrow> Some (KEY_NOT_FOUND, [], ts')) \<and>
    ts_inv uninit ts' kvs \<and> ready ts' \<and> ts_config ts' = ts_config ts"
proof -
  let ?c = "ts_config ts"
  let ?L = "ts_layout uninit ?c" and ?S = "ts_scale uninit ?c" and ?ks = "map fst kvs" and ?kpb = "tc_keys_per_block ?c"
  obtain ix where ix: "ts_index ts = Some ix" "twolevel.ix_inv ?L ?S ix ?ks" "finalized ix"
    using inv rd by (auto simp: ts_inv_def ready_def)
  have ko: "keys_ok ?L ?ks" using ok by (simp add: ts_entries_ok_def)
  have lens: "\<forall>(k, d)\<in>set kvs. length k = tc_key_len ?c \<and> length d = tc_data_len ?c"
    using ok by (auto simp: ts_entries_ok_def keys_ok_def)
  have st: "rep (ts_data_store ts) (ts_records kvs)" "len (ts_data_store ts) = tc_key_len ?c + tc_data_len ?c + 4"
    using inv by (auto simp: ts_inv_def)
  have kpb: "0 < ?kpb" and ne: "0 < tc_key_len ?c" using cfg by (auto simp: config_ok_def)
  obtain r where r: "ix_locate twolevel_ops ix key = Some r" "r \<le> length kvs"
    using twolevel.ix_locate_total[OF ix(2) ko ix(3)] key by auto
  let ?b = "r div ?kpb * ?kpb"
  have b: "?b \<le> r" by (rule div_times_less_eq_dividend)
  have "\<exists>s'. ts_get_loop ops ?c key offset ?b ?kpb (ts_data_store ts) = (case map_of kvs key of
      Some data \<Rightarrow> Some (OK, data, s') | None \<Rightarrow> Some (KEY_NOT_FOUND, [], s')) \<and> rep s' (ts_records kvs) \<and> len s' = len (ts_data_store ts)"
  proof (cases "map_of kvs key")
    case None
    then have "fst (kvs ! m) \<noteq> key" if "m < length kvs" for m using that by (metis map_of_eq_None_iff nth_mem image_eqI)
    then show ?thesis using loop_misses[OF st _ lens, of ?b ?kpb key offset] b r(2) None by auto
  next
    case (Some data)
    then obtain j where j: "j < length kvs" "kvs ! j = (key, data)" by (metis map_of_SomeD in_set_conv_nth)
    have dist: "fst (kvs ! m) \<noteq> key" if "m < j" for m
      using keys_ok_distinct[OF ko] that j by (metis (no_types, lifting) distinct_conv_nth fst_conv length_map less_trans nat_neq_iff nth_map)
    have "?ks ! j = key" using j by simp
    then have "r \<le> j" "r div ?kpb = j div ?kpb"
      using twolevel.ix_locate_finds[OF ix(2) ko ix(3), of j] j(1) r(1) by auto
    then have "?b \<le> j" "j < ?b + ?kpb" using b dividend_less_div_times[OF kpb, of j] by auto
    then show ?thesis using loop_finds[OF st lens j off, of ?b ?kpb] dist Some by auto
  qed
  then obtain s' where s': "ts_get_loop ops ?c key offset ?b ?kpb (ts_data_store ts) = (case map_of kvs key of
      Some data \<Rightarrow> Some (OK, data, s') | None \<Rightarrow> Some (KEY_NOT_FOUND, [], s'))" "rep s' (ts_records kvs)" "len s' = len (ts_data_store ts)" by blast
  have "ts_get ops key offset ts = (case map_of kvs key of Some data \<Rightarrow> Some (OK, data, ts\<lparr>ts_data_store := s'\<rparr>)
      | None \<Rightarrow> Some (KEY_NOT_FOUND, [], ts\<lparr>ts_data_store := s'\<rparr>))"
    using ix(1,3) ne key r(1) s'(1) by (auto simp: ts_get_def Let_def split: option.split)
  then show ?thesis using s'(2,3) inv rd by (intro exI[of _ "ts\<lparr>ts_data_store := s'\<rparr>"]) (auto simp: ts_inv_def ready_def)
qed

section \<open>Iteration\<close>

definition ti_at :: "'s trie_store \<Rightarrow> (bytes \<times> bytes) list \<Rightarrow> nat \<Rightarrow> 'i trie_iterator \<Rightarrow> bool" where
  "ti_at ts kvs i it \<longleftrightarrow> cursor (ts_data_store ts) (ts_records kvs) i (ti_data_store_it it) \<and>
     (if i < length kvs then ti_state it = OK \<and> (ti_key it, ti_data it) = kvs ! i else ti_state it = END)"

lemma ti_parse_at:
  assumes "cursor (ts_data_store ts) (ts_records kvs) i (ti_data_store_it it)" "i \<le> length kvs"
    and "\<forall>(k, d)\<in>set kvs. length k = tc_key_len c \<and> length d = tc_data_len c"
  shows "ti_at ts kvs i (ti_parse ops c it)"
proof (cases "i < length kvs")
  case True
  obtain k d where kd: "kvs ! i = (k, d)" by fastforce
  then have l: "length k = tc_key_len c" "length d = tc_data_len c" using assms(3) nth_mem[OF True] by force+
  have rec: "ts_records kvs ! i = ts_record k d" using True kd by (simp add: ts_records_def)
  show ?thesis
    using cursor_shows[OF assms(1)] True kd assms(1) rec ts_record_parts[OF l]
    by (simp add: ti_at_def ti_parse_def Let_def)
next
  case False
  then have "i = length (ts_records kvs)" using assms(2) by simp
  then show ?thesis using cursor_end[of "ts_data_store ts" "ts_records kvs" "ti_data_store_it it"] assms(1) by (simp add: ti_at_def ti_parse_def Let_def)
qed

lemma ts_enumerate_at:
  assumes inv: "ts_inv uninit ts kvs" and rd: "ready ts" and ok: "ts_entries_ok uninit (ts_config ts) kvs"
  shows "\<exists>it ts'. ts_enumerate ops ts = Some (Some it, ts') \<and> ti_at ts' kvs 0 it \<and>
    rep (ts_data_store ts') (ts_records kvs) \<and> ts_config ts' = ts_config ts"
proof -
  have lens: "\<forall>(k, d)\<in>set kvs. length k = tc_key_len (ts_config ts) \<and> length d = tc_data_len (ts_config ts)"
    using ok by (auto simp: ts_entries_ok_def keys_ok_def)
  obtain ix where ix: "ts_index ts = Some ix" "finalized ix" using rd by (auto simp: ready_def split: option.splits)
  obtain d s' where d: "ds_enumerate ops (ts_data_store ts) = Some (d, s')" "cursor s' (ts_records kvs) 0 d" "rep s' (ts_records kvs)"
    using enumerate_ok[of "ts_data_store ts" "ts_records kvs"] inv by (auto simp: ts_inv_def)
  have "ti_at (ts\<lparr>ts_data_store := s'\<rparr>) kvs 0
      (ti_parse ops (ts_config ts) \<lparr>ti_state = END, ti_key = [], ti_data = [], ti_data_store_it = d\<rparr>)"
    using d(2) lens by (intro ti_parse_at) auto
  then show ?thesis using ix d by (auto simp: ts_enumerate_def)
qed

lemma ti_next_at:
  assumes "ti_at ts kvs i it" "i < length kvs" "rep (ts_data_store ts) (ts_records kvs)"
    and "\<forall>(k, d)\<in>set kvs. length k = tc_key_len (ts_config ts) \<and> length d = tc_data_len (ts_config ts)"
  shows "\<exists>it' ts'. ti_next ops it ts = Some (it', ts') \<and> ti_at ts' kvs (Suc i) it' \<and>
    rep (ts_data_store ts') (ts_records kvs) \<and> ts_config ts' = ts_config ts"
proof -
  obtain d s' where d: "ds_next ops (ti_data_store_it it) (ts_data_store ts) = Some (d, s')"
      "cursor s' (ts_records kvs) (Suc i) d" "rep s' (ts_records kvs)"
    using next_ok[OF assms(3), of i "ti_data_store_it it"] assms(1,2) by (auto simp: ti_at_def)
  have "ti_at (ts\<lparr>ts_data_store := s'\<rparr>) kvs (Suc i) (ti_parse ops (ts_config ts) (it\<lparr>ti_data_store_it := d\<rparr>))"
    using d(2) assms(2,4) by (intro ti_parse_at) auto
  then show ?thesis using d by (auto simp: ti_next_def)
qed

end

section \<open>The file store as a store of records\<close>

text \<open>
  A file store with its background sync task: how far the task has got, and the schedule of its sections. Before
  each operation on the store the task runs the sections that the schedule has next, each with a failing or
  succeeding \<^verbatim>\<open>fdatasync\<close>.
\<close>

record synced_store =
  sy_store :: file_store
  sy_task :: syncer
  sy_sched :: "bool list list"

definition synced_new :: "os_file \<Rightarrow> bool list list \<Rightarrow> synced_store" where
  "synced_new f sched = \<lparr>sy_store = FileStore_new f, sy_task = S_idle, sy_sched = sched\<rparr>"

fun task_sections :: "bool list \<Rightarrow> syncer \<Rightarrow> file_io \<Rightarrow> syncer \<times> file_io" where
  "task_sections [] p io = (p, io)"
| "task_sections (ok # oks) p io = (case task_section ok p io of (p, io) \<Rightarrow> task_sections oks p io)"

definition run_task :: "synced_store \<Rightarrow> synced_store" where
  "run_task s =
     (case sy_sched s of
        [] \<Rightarrow> s
      | oks # sched \<Rightarrow>
          (case task_sections oks (sy_task s) (fs_io (sy_store s)) of
             (p, io) \<Rightarrow> \<lparr>sy_store = (sy_store s)\<lparr>fs_io := io\<rparr>, sy_task = p, sy_sched = sched\<rparr>))"

text \<open>
  The operations with the arguments that the store above leaves to them: \<open>rnd\<close> gives the random
  choices, \<open>buffered_only\<close> is taken from the configuration; the calls of \<^verbatim>\<open>open\<close> succeed.
\<close>

definition file_ops :: "(file_store \<Rightarrow> nat) \<Rightarrow> bool \<Rightarrow> (synced_store, fs_iterator) ds_ops" where
  "file_ops rnd buffered_only =
     \<lparr>ds_create = (\<lambda>n s. case fs_create n buffered_only (rnd (sy_store s)) True True (sy_store s) of (ret, fs) \<Rightarrow> (ret, s\<lparr>sy_store := fs\<rparr>)),
      ds_append = (\<lambda>d s. let s = run_task s in
        case fs_append (rnd (sy_store s)) d (sy_store s) of (ret, k, fs) \<Rightarrow> (ret, k, s\<lparr>sy_store := fs\<rparr>)),
      ds_get = (\<lambda>k offset n s. let s = run_task s in
        map_option (\<lambda>(ret, d, fs). (ret, d, s\<lparr>sy_store := fs\<rparr>)) (fs_get k offset n False (sy_store s))),
      ds_status = (\<lambda>ty s. fs_status ty (sy_store s)),
      ds_enumerate = (\<lambda>s. let s = run_task s in map_option (\<lambda>(it, fs). (it, s\<lparr>sy_store := fs\<rparr>)) (fs_enumerate (sy_store s))),
      ds_next = (\<lambda>it s. let s = run_task s in map_option (\<lambda>(it, fs). (it, s\<lparr>sy_store := fs\<rparr>)) (iter_next it (sy_store s))),
      ds_it_state = it_state, ds_it_data = it_data\<rparr>"

definition file_fresh :: "synced_store \<Rightarrow> bool" where
  "file_fresh s \<longleftrightarrow> (\<exists>f sched. s = synced_new f sched)"

definition file_capacity :: "synced_store \<Rightarrow> nat \<Rightarrow> nat" where
  "file_capacity s n = min (fcap (io_file (fs_io (sy_store s)))) (2 ^ 62) div n"

abbreviation file_len :: "synced_store \<Rightarrow> nat" where
  "file_len s \<equiv> fs_data_len (sy_store s)"

definition file_rep :: "synced_store \<Rightarrow> bytes list \<Rightarrow> bool" where
  "file_rep s es \<longleftrightarrow> task_rep (sy_task s) (sy_store s) es \<and> file_len s \<noteq> 0"

definition file_room :: "synced_store \<Rightarrow> nat" where
  "file_room s = file_capacity s (file_len s)"

definition file_cursor :: "synced_store \<Rightarrow> bytes list \<Rightarrow> nat \<Rightarrow> fs_iterator \<Rightarrow> bool" where
  "file_cursor s es i it \<longleftrightarrow>
     (if i < length es then it_state it = OK \<and> it_data it = es ! i \<and> it_next_id it = word_of_nat (Suc i)
      else it_state it = END)"

lemma task_sections_rep:
  assumes "task_rep p fs es" "task_sections oks p (fs_io fs) = (p', io')"
  shows "task_rep p' (fs\<lparr>fs_io := io'\<rparr>) es \<and> io_file io' = io_file (fs_io fs)"
  using assms
proof (induction oks arbitrary: p fs)
  case (Cons ok oks)
  obtain p1 io1 where s: "task_section ok p (fs_io fs) = (p1, io1)" by fastforce
  show ?case using Cons.IH[of p1 "fs\<lparr>fs_io := io1\<rparr>"] task_section_rep[OF Cons.prems(1) s] Cons.prems(2) s by simp
next
  case Nil
  then have "fs\<lparr>fs_io := io'\<rparr> = fs" "p' = p" "io' = fs_io fs" by (cases fs, simp)+
  with Nil(1) show ?case by metis
qed

lemma run_task_rep:
  assumes "file_rep s es"
  shows "file_rep (run_task s) es" "file_len (run_task s) = file_len s" "file_room (run_task s) = file_room s"
proof -
  have "file_rep (run_task s) es \<and> file_len (run_task s) = file_len s \<and> file_room (run_task s) = file_room s"
  proof (cases "sy_sched s")
    case (Cons oks sched)
    obtain p io where "task_sections oks (sy_task s) (fs_io (sy_store s)) = (p, io)" by fastforce
    then show ?thesis
      using task_sections_rep[of "sy_task s" "sy_store s" es oks p io] assms Cons
      by (simp add: run_task_def file_rep_def file_room_def file_capacity_def)
  qed (use assms in \<open>simp add: run_task_def\<close>)
  then show "file_rep (run_task s) es" "file_len (run_task s) = file_len s" "file_room (run_task s) = file_room s" by auto
qed

lemma file_rep_store: "file_rep s es \<Longrightarrow> fs_rep (sy_store s) es \<and> file_len s \<noteq> 0"
  by (simp add: file_rep_def task_rep_def)

text \<open>What a read leaves behind: the page cache may have changed.\<close>

lemma file_rep_cache:
  assumes "file_rep s es" "fs_rep ((sy_store s)\<lparr>fs_io := (fs_io (sy_store s))\<lparr>io_cache := c\<rparr>\<rparr>) es"
  defines "s' \<equiv> s\<lparr>sy_store := (sy_store s)\<lparr>fs_io := (fs_io (sy_store s))\<lparr>io_cache := c\<rparr>\<rparr>\<rparr>"
  shows "file_rep s' es \<and> file_len s' = file_len s \<and> file_room s' = file_room s"
  using assms(1,2) task_rep_cache[of "sy_task s" "sy_store s" es c]
  by (simp add: s'_def file_rep_def file_room_def file_capacity_def)

lemma file_cursor_next:
  assumes "file_rep s es" "i \<le> length es" "it_next_id it = word_of_nat i"
  shows "\<exists>it' s'. ds_next (file_ops rnd b) it s = Some (it', s') \<and> file_cursor s' es i it' \<and> file_rep s' es"
proof -
  note r = run_task_rep[OF assms(1)]
  note f = file_rep_store[OF r(1)]
  let ?s = "run_task s"
  show ?thesis
  proof (cases "i < length es")
    case True
    then obtain c where "iter_next it (sy_store ?s) = Some (\<lparr>it_next_id = word_of_nat (Suc i), it_key = entry_key (file_len ?s) es i,
          it_data = es ! i, it_state = OK\<rparr>, (sy_store ?s)\<lparr>fs_io := (fs_io (sy_store ?s))\<lparr>io_cache := c\<rparr>\<rparr>)"
        "fs_rep ((sy_store ?s)\<lparr>fs_io := (fs_io (sy_store ?s))\<lparr>io_cache := c\<rparr>\<rparr>) es"
      using iter_next_ok[of "sy_store ?s" es i it] f assms(3) by (auto simp: entry_id_def)
    then show ?thesis using file_rep_cache[OF r(1), of c] True by (simp add: file_ops_def file_cursor_def Let_def)
  next
    case False
    then obtain it' where "iter_next it (sy_store ?s) = Some (it', sy_store ?s)" "it_state it' = END"
      using iter_next_end[of "sy_store ?s" es it] f assms(2,3) by (auto simp: entry_id_def)
    then show ?thesis using False r(1) by (simp add: file_ops_def file_cursor_def Let_def)
  qed
qed

lemma file_append:
  assumes rep: "file_rep s es" and d: "length d = file_len s" and room: "length es < file_room s"
  shows "\<exists>k s'. ds_append (file_ops rnd b) d s = (OK, k, s') \<and> file_rep s' (es @ [d]) \<and> file_len s' = file_len s \<and>
    file_room s' = file_room s"
proof -
  let ?s = "run_task s" and ?L = "file_len s"
  note t = run_task_rep[OF rep]
  have r: "fs_rep (sy_store ?s) es" "?L \<noteq> 0" "\<forall>d\<in>set es. fits ?L d"
    using file_rep_store[OF t(1)] t(2) by (auto simp: fs_rep_def Let_def)
  have "length (log_of ?L (es @ [d])) = Suc (length es) * ?L" using log_fixed[OF r(2,3)] r(2) d by (simp add: fs_entry_def)
  also have "\<dots> \<le> file_room ?s * ?L" using room t(3) by (intro mult_le_mono1) simp
  also have "\<dots> \<le> min (fcap (io_file (fs_io (sy_store ?s)))) (2 ^ 62)"
    unfolding file_room_def file_capacity_def t(2) by (rule div_times_less_eq_dividend)
  finally have "length (log_of ?L (es @ [d])) \<le> min (fcap (io_file (fs_io (sy_store ?s)))) (2 ^ 62)" .
  moreover have "fits ?L d" using r(2) d by (simp add: fits_def)
  ultimately obtain fs' where a: "fs_append (rnd (sy_store ?s)) d (sy_store ?s) = (OK, entry_key ?L es (length es), fs')" "fs_rep fs' (es @ [d])"
      "fs_data_len fs' = ?L" "fcap (io_file (fs_io fs')) = fcap (io_file (fs_io (sy_store ?s)))"
      "\<forall>n. sync_ok (fs_io (sy_store ?s)) n \<longrightarrow> sync_ok (fs_io fs') n"
    using fs_append_ok[OF r(1), of d "rnd (sy_store ?s)"] t(2) by auto
  then have "task_rep (sy_task ?s) fs' (es @ [d])" using task_rep_append[of "sy_task ?s" "sy_store ?s" es fs' d] t(1,2) by (simp add: file_rep_def)
  then show ?thesis using a r(2) t(2,3) by (auto simp: file_ops_def Let_def file_rep_def file_room_def file_capacity_def)
qed

lemma file_get:
  assumes rep: "file_rep s es" and i: "i < length es" and n: "offset + n \<le> file_len s"
  shows "\<exists>s'. ds_get (file_ops rnd b) (off_t_value (word_of_nat i)) offset n s = Some (OK, take n (drop offset (es ! i)), s') \<and>
    file_rep s' es \<and> file_len s' = file_len s \<and> file_room s' = file_room s"
proof -
  let ?s = "run_task s"
  note t = run_task_rep[OF rep]
  have r: "fs_rep (sy_store ?s) es" "file_len ?s \<noteq> 0" "length (es ! i) = file_len s"
    using file_rep_store[OF t(1)] t(2) i by (auto simp: fs_rep_def Let_def fits_def)
  have "length (es ! i) \<le> length (log_of (file_len ?s) es)"
    using log_fixed[OF r(2), of es] r(1,3) i t(2) by (cases es) (auto simp: fs_rep_def Let_def)
  then have "file_len s \<le> 2 ^ 62" using r by (auto simp: fs_rep_def Let_def)
  then have o: "offset \<le> length (es ! i)" "offset + n < 2 ^ 64" using n r(3) by auto
  obtain c where "fs_get (entry_key (file_len ?s) es i) offset n False (sy_store ?s) =
        Some (OK, take n (drop offset (es ! i)), (sy_store ?s)\<lparr>fs_io := (fs_io (sy_store ?s))\<lparr>io_cache := c\<rparr>\<rparr>)"
      "fs_rep ((sy_store ?s)\<lparr>fs_io := (fs_io (sy_store ?s))\<lparr>io_cache := c\<rparr>\<rparr>) es"
    using fs_get_ok[OF r(1) i o, of False] by blast
  then show ?thesis
    using file_rep_cache[OF t(1), of c] t(2,3) r(2) by (simp add: file_ops_def Let_def entry_key_def entry_id_def)
qed

interpretation files: record_store "file_ops rnd buffered_only" file_fresh file_capacity file_rep file_len file_room file_cursor
  for rnd :: "file_store \<Rightarrow> nat" and buffered_only :: bool
proof
  fix s :: synced_store and es :: "bytes list" and d :: bytes and n i offset :: nat and it :: fs_iterator
  let ?ops = "file_ops rnd buffered_only"
  show "\<exists>s'. ds_create ?ops n s = (OK, s') \<and> file_rep s' [] \<and> file_len s' = n \<and> file_room s' = file_capacity s n"
    if "file_fresh s" "0 < n"
  proof -
    from that(1) obtain f sched where f: "s = synced_new f sched" by (auto simp: file_fresh_def)
    then have "fcap (io_file (fs_io (sy_store s))) = fcap f" by (simp add: synced_new_def FileStore_new_def int_initialize_def)
    then show ?thesis
      using fs_create_ok[of n buffered_only "rnd (sy_store s)" f] that(2) f
      by (auto simp: file_ops_def file_rep_def task_rep_def file_room_def file_capacity_def synced_new_def)
  qed
  show "\<exists>k s'. ds_append ?ops d s = (OK, k, s') \<and> file_rep s' (es @ [d]) \<and> file_len s' = file_len s \<and> file_room s' = file_room s"
    if "file_rep s es" "length d = file_len s" "length es < file_room s"
    by (rule file_append[OF that])
  show "\<exists>s'. ds_get ?ops (off_t_value (word_of_nat i)) offset n s = Some (OK, take n (drop offset (es ! i)), s') \<and>
      file_rep s' es \<and> file_len s' = file_len s \<and> file_room s' = file_room s"
    if "file_rep s es" "i < length es" "offset + n \<le> file_len s"
    by (rule file_get[OF that])
  show "\<exists>s'. ds_get ?ops (off_t_value (word_of_nat (length es))) offset n s = Some (END, [], s') \<and> file_rep s' es \<and> file_len s' = file_len s"
    if "file_rep s es"
    using fs_get_end[of "sy_store (run_task s)" es offset n False] run_task_rep[OF that] file_rep_store[OF run_task_rep(1)[OF that]]
    by (simp add: file_ops_def Let_def entry_id_def)
  show "\<exists>it s'. ds_enumerate ?ops s = Some (it, s') \<and> file_cursor s' es 0 it \<and> file_rep s' es" if "file_rep s es"
    using file_cursor_next[OF that, of 0] by (simp add: file_ops_def fs_enumerate_def)
  show "\<exists>it' s'. ds_next ?ops it s = Some (it', s') \<and> file_cursor s' es (Suc i) it' \<and> file_rep s' es"
    if "file_rep s es" "file_cursor s es i it" "i < length es"
    using file_cursor_next[OF that(1), of "Suc i" it] that(2,3) by (simp add: file_cursor_def)
  show "ds_it_state ?ops it = OK \<and> ds_it_data ?ops it = es ! i" if "file_cursor s es i it" "i < length es"
    using that by (simp add: file_cursor_def file_ops_def)
  show "ds_it_state ?ops it = END" if "file_cursor s es (length es) it"
    using that by (simp add: file_cursor_def file_ops_def)
qed

end
