(* ===== verification/Silt_Props.thy ===== *)
theory Silt_Props
  imports Trie_Store_Correct Index_Props
begin

text \<open>
  The properties of the SILT file store and of the sorted store above it: the stores are a log and a
  map whatever the page cache and the device hold, flushed entries survive a crash, and the places
  where the code departs from this.
\<close>

section \<open>The sorted store\<close>

text \<open>Lookups one after the other, and the entries an iterator shows.\<close>

fun ts_gets :: "('s, 'i) ds_ops \<Rightarrow> bytes list \<Rightarrow> 's trie_store \<Rightarrow> ((FawnDS_Return \<times> bytes) list \<times> 's trie_store) option" where
  "ts_gets ops [] ts = Some ([], ts)"
| "ts_gets ops (k # ks) ts = do {
     (ret, d, ts) \<leftarrow> ts_get ops k 0 ts;
     (rs, ts) \<leftarrow> ts_gets ops ks ts;
     Some ((ret, d) # rs, ts)
   }"

fun ti_collect :: "('s, 'i) ds_ops \<Rightarrow> nat \<Rightarrow> 'i trie_iterator \<Rightarrow> 's trie_store \<Rightarrow> (bytes \<times> bytes) list option" where
  "ti_collect ops 0 it ts = None"
| "ti_collect ops (Suc n) it ts =
     (if ti_state it \<noteq> OK then Some []
      else do {
        (it', ts) \<leftarrow> ti_next ops it ts;
        map_option ((#) (ti_key it, ti_data it)) (ti_collect ops n it' ts)
      })"

definition lookup_result :: "(bytes \<times> bytes) list \<Rightarrow> bytes \<Rightarrow> FawnDS_Return \<times> bytes" where
  "lookup_result kvs k = (case map_of kvs k of Some d \<Rightarrow> (OK, d) | None \<Rightarrow> (KEY_NOT_FOUND, []))"

lemma ts_gets_map:
  assumes "files.ts_inv uninit ts kvs" "files.ready ts" "ts_entries_ok uninit (ts_config ts) kvs" "config_ok uninit (ts_config ts)"
    and "\<forall>k\<in>set ks. length k = tc_key_len (ts_config ts)"
  shows "\<exists>ts'. ts_gets (file_ops rnd b) ks ts = Some (map (lookup_result kvs) ks, ts')"
  using assms
proof (induction ks arbitrary: ts)
  case (Cons k ks)
  obtain ts' where "ts_get (file_ops rnd b) k 0 ts = (case map_of kvs k of
      Some data \<Rightarrow> Some (OK, data, ts') | None \<Rightarrow> Some (KEY_NOT_FOUND, [], ts'))"
      "files.ts_inv uninit ts' kvs" "files.ready ts'" "ts_config ts' = ts_config ts"
    using files.ts_get_map[OF Cons.prems(1-4), of k 0 rnd b] Cons.prems(5) by auto
  then show ?case using Cons.IH[of ts'] Cons.prems(3-5)
    by (auto simp: lookup_result_def split: option.splits)
qed simp

lemma ts_built:
  assumes "config_ok uninit c" "ts_entries_ok uninit c kvs"
    and "length kvs \<le> file_capacity (synced_new f sched) (tc_key_len c + tc_data_len c + 4)"
  shows "\<exists>ts0 ts1 ts. ts_create (file_ops rnd b) uninit c (trie_store_new (synced_new f sched) c0) = Some (OK, ts0) \<and>
    ts_put_all (file_ops rnd b) kvs ts0 = Some (replicate (length kvs) OK, ts1) \<and> ts_flush ts1 = Some (OK, ts) \<and>
    files.ts_inv uninit ts kvs \<and> files.ready ts \<and> ts_config ts = c"
proof -
  have fresh: "file_fresh (synced_new f sched)" by (auto simp: file_fresh_def)
  obtain ts0 where 0: "ts_create (file_ops rnd b) uninit c (trie_store_new (synced_new f sched) c0) = Some (OK, ts0)"
      "files.ts_inv uninit ts0 []" "ts_config ts0 = c" "\<not> files.ready ts0"
      "file_room (ts_data_store ts0) = file_capacity (synced_new f sched) (tc_key_len c + tc_data_len c + 4)"
    using files.ts_create_inv[OF assms(1) fresh, of rnd b c0] by blast
  obtain ts1 where 1: "ts_put_all (file_ops rnd b) kvs ts0 = Some (replicate (length kvs) OK, ts1)"
      "files.ts_inv uninit ts1 kvs" "\<not> files.ready ts1" "ts_config ts1 = c"
    using files.ts_put_all_inv[OF 0(2,4), of kvs rnd b] 0(3,5) assms(2,3) by auto
  obtain ts where 2: "ts_flush ts1 = Some (OK, ts)" "files.ts_inv uninit ts kvs" "files.ready ts" "ts_config ts = c"
    using files.ts_flush_inv[OF 1(2,3)] 1(4) assms(2) by auto
  show ?thesis using 0(1) 1(1) 2 by blast
qed


lemma ti_collect_from:
  assumes "files.ti_at ts kvs i it" "i \<le> length kvs" "file_rep (ts_data_store ts) (ts_records kvs)"
    and "\<forall>(k, d)\<in>set kvs. length k = tc_key_len (ts_config ts) \<and> length d = tc_data_len (ts_config ts)"
  shows "ti_collect (file_ops rnd b) (Suc (length kvs - i)) it ts = Some (drop i kvs)"
  using assms
proof (induction "length kvs - i" arbitrary: i it ts)
  case 0
  then show ?case by (simp add: files.ti_at_def)
next
  case (Suc n)
  then have i: "i < length kvs" by linarith
  obtain it' ts' where n: "ti_next (file_ops rnd b) it ts = Some (it', ts')" "files.ti_at ts' kvs (Suc i) it'"
      "file_rep (ts_data_store ts') (ts_records kvs)" "ts_config ts' = ts_config ts"
    using files.ti_next_at[OF Suc.prems(1) i Suc.prems(3,4), of rnd b] by blast
  have "ti_collect (file_ops rnd b) (Suc (length kvs - Suc i)) it' ts' = Some (drop (Suc i) kvs)"
    using Suc.hyps(2) n(2-4) i Suc.prems(4) by (intro Suc.hyps(1)) auto
  moreover have "ti_state it = OK" "(ti_key it, ti_data it) = kvs ! i" using Suc.prems(1) i by (auto simp: files.ti_at_def)
  moreover have "length kvs - i = Suc (length kvs - Suc i)" using i by simp
  ultimately show ?case using n(1) i by (simp add: Cons_nth_drop_Suc)
qed

text \<open>
  An iterator over a filled and flushed sorted store shows all entries in ascending
  order of their keys and then ends.
\<close>

theorem trie_store_enumerates:
  assumes "config_ok uninit c" "ts_entries_ok uninit c kvs"
    and "length kvs \<le> file_capacity (synced_new f sched) (tc_key_len c + tc_data_len c + 4)"
  shows "\<exists>ts0 ts1 ts it ts'. ts_create (file_ops rnd b) uninit c (trie_store_new (synced_new f sched) c0) = Some (OK, ts0) \<and>
    ts_put_all (file_ops rnd b) kvs ts0 = Some (replicate (length kvs) OK, ts1) \<and> ts_flush ts1 = Some (OK, ts) \<and>
    ts_enumerate (file_ops rnd b) ts = Some (Some it, ts') \<and>
    ti_collect (file_ops rnd b) (Suc (length kvs)) it ts' = Some kvs"
proof -
  obtain ts0 ts1 ts where t: "ts_create (file_ops rnd b) uninit c (trie_store_new (synced_new f sched) c0) = Some (OK, ts0)"
      "ts_put_all (file_ops rnd b) kvs ts0 = Some (replicate (length kvs) OK, ts1)" "ts_flush ts1 = Some (OK, ts)"
      "files.ts_inv uninit ts kvs" "files.ready ts" "ts_config ts = c"
    using ts_built[OF assms] by blast
  obtain it ts' where e: "ts_enumerate (file_ops rnd b) ts = Some (Some it, ts')" "files.ti_at ts' kvs 0 it"
      "file_rep (ts_data_store ts') (ts_records kvs)" "ts_config ts' = c"
    using files.ts_enumerate_at[OF t(4,5), of rnd b] t(6) assms(2) by auto
  have "\<forall>(k, d)\<in>set kvs. length k = tc_key_len c \<and> length d = tc_data_len c"
    using assms(2) by (auto simp: ts_entries_ok_def keys_ok_def)
  then have "ti_collect (file_ops rnd b) (Suc (length kvs - 0)) it ts' = Some (drop 0 kvs)"
    using e(2-4) by (intro ti_collect_from) auto
  then show ?thesis using t(1-3) e(1) by auto
qed

text \<open>Witnesses: three entries with keys and data of one byte, two records per block.\<close>

definition sample_config :: trie_config where
  "sample_config = \<lparr>tc_key_len = 1, tc_data_len = 1, tc_keys_per_block = 2, tc_size = 4, tc_bucket_size = 2, tc_skip_bits = 0\<rparr>"

definition sample_entries_kv :: "(bytes \<times> bytes) list" where
  "sample_entries_kv = [([0x10], [1]), ([0x20], [2]), ([0x90], [3])]"

lemma sample_config_ok: "config_ok (\<lambda>_. 0) sample_config"
  and sample_kv_ok: "ts_entries_ok (\<lambda>_. 0) sample_config sample_entries_kv"
proof -
  have L: "ts_layout (\<lambda>_. 0) sample_config = sample_layout" by (simp add: ts_layout_def sample_config_def sample_layout_def)
  have S: "ts_scale (\<lambda>_. 0) sample_config = 4 div 2 ^ l_bits sample_layout" unfolding ts_scale_def L by (simp add: sample_config_def)
  show "config_ok (\<lambda>_. 0) sample_config" using sample_size unfolding config_ok_def S by (simp add: sample_config_def)
  show "ts_entries_ok (\<lambda>_. 0) sample_config sample_entries_kv"
    using sample_keys_ok sample_fits unfolding ts_entries_ok_def L S by (simp add: sample_config_def sample_entries_kv_def)
qed

definition sample_file :: os_file where
  "sample_file = \<lparr>fdata = [], fcap = 100\<rparr>"

lemma sample_capacity: "length sample_entries_kv \<le> file_capacity (synced_new sample_file [[True], [False], [True, True]]) (tc_key_len sample_config + tc_data_len sample_config + 4)"
  by (simp add: sample_entries_kv_def file_capacity_def synced_new_def FileStore_new_def int_initialize_def sample_file_def sample_config_def)


theorem trie_store_enumerates_witness:
  "\<exists>ts0 ts1 ts it ts'. ts_create (file_ops (\<lambda>_. 0) False) (\<lambda>_. 0) sample_config (trie_store_new (synced_new sample_file [[True], [False], [True, True]]) sample_config) = Some (OK, ts0) \<and>
    ts_put_all (file_ops (\<lambda>_. 0) False) sample_entries_kv ts0 = Some (replicate 3 OK, ts1) \<and> ts_flush ts1 = Some (OK, ts) \<and>
    ts_enumerate (file_ops (\<lambda>_. 0) False) ts = Some (Some it, ts') \<and>
    ti_collect (file_ops (\<lambda>_. 0) False) 4 it ts' = Some [([0x10], [1]), ([0x20], [2]), ([0x90], [3])]"
proof -
  have "length sample_entries_kv = 3" "Suc (length sample_entries_kv) = 4" by (simp_all add: sample_entries_kv_def)
  then show ?thesis
    using trie_store_enumerates[OF sample_config_ok sample_kv_ok sample_capacity, of "\<lambda>_. 0" False sample_config]
    unfolding sample_entries_kv_def[symmetric] by simp
qed

section \<open>The file store\<close>

lemma log_created:
  assumes "\<forall>d\<in>set (appended xs). fits L d" "reads_known L [] xs"
    and "length (log_of L (appended xs)) \<le> fcap f" "length (log_of L (appended xs)) \<le> 2 ^ 62"
  shows "\<exists>fs0 p fs. fs_create L b r True True (FileStore_new f) = (OK, fs0) \<and>
    run_log xs S_idle fs0 = Some (map (\<lambda>i. (OK, entry_key L (appended xs) i)) [0..<length (appended xs)], p, fs) \<and>
    task_rep p fs (appended xs) \<and> fs_data_len fs = L \<and> fcap (io_file (fs_io fs)) = fcap f"
proof -
  obtain fs0 where 0: "fs_create L b r True True (FileStore_new f) = (OK, fs0)" "fs_rep fs0 []" "fs_data_len fs0 = L"
      "fcap (io_file (fs_io fs0)) = fcap f" using fs_create_ok by blast
  have "task_rep S_idle fs0 []" using 0(2) by (simp add: task_rep_def)
  then show ?thesis using run_log_ok[of S_idle fs0 "[]" L xs] 0 assms by auto
qed

text \<open>
  Property C15. A file store that is created and then used by one thread - appends, flushes, and reads of known keys in any order -
  accepts every entry and afterwards returns every entry under the key its append returned, through the buffered and through the direct
  descriptor. The sections of the background sync task may run at any time between these operations, with failing or succeeding
  \<^verbatim>\<open>fdatasync\<close>, but not inside a write. The file has room for all entries, which is asked because an append that the device
  refuses reports success; the size of a read or of a write stays below \<open>2 ^ 62\<close>.
\<close>

theorem file_store_is_log:
  assumes "\<forall>d\<in>set (appended xs). fits L d" "reads_known L [] xs"
    and "length (log_of L (appended xs)) \<le> fcap f" "length (log_of L (appended xs)) \<le> 2 ^ 62"
  shows "\<exists>fs0 p fs. fs_create L b r True True (FileStore_new f) = (OK, fs0) \<and>
    run_log xs S_idle fs0 = Some (map (\<lambda>i. (OK, entry_key L (appended xs) i)) [0..<length (appended xs)], p, fs) \<and>
    (\<forall>i<length (appended xs). \<exists>fs'. fs_get_all (entry_key L (appended xs) i) ra fs = Some (OK, appended xs ! i, fs'))"
proof -
  obtain fs0 p fs where 1: "fs_create L b r True True (FileStore_new f) = (OK, fs0)"
    "run_log xs S_idle fs0 = Some (map (\<lambda>i. (OK, entry_key L (appended xs) i)) [0..<length (appended xs)], p, fs)"
    "fs_rep fs (appended xs)" "fs_data_len fs = L"
    using log_created[OF assms, of b r] by (auto simp: task_rep_def)
  then show ?thesis using fs_get_all_ok[OF 1(3), of _ ra] by (intro exI[of _ fs0] exI[of _ p] exI[of _ fs]) auto
qed

text \<open>A witness: the sync task has taken its snapshot when the second entry is appended, and ends after it.\<close>

definition busy_ops :: "log_op list" where
  "busy_ops = [Append_op 0 [7, 8], Task_op True, Task_op True, Append_op 0 [9], Task_op True]"

theorem file_store_is_log_witness:
  "\<exists>fs0 p fs. fs_create 0 False 0 True True (FileStore_new sample_file) = (OK, fs0) \<and>
    run_log busy_ops S_idle fs0 = Some (map (\<lambda>i. (OK, entry_key 0 [[7, 8], [9]] i)) [0, 1], p, fs) \<and>
    (\<forall>i<Suc (Suc 0). \<exists>fs'. fs_get_all (entry_key 0 [[7, 8], [9]] i) False fs = Some (OK, [[7, 8], [9]] ! i, fs'))"
  using file_store_is_log[of busy_ops 0 sample_file False 0 False]
  by (simp add: busy_ops_def fits_def log_of_def length_fs_entry sample_file_def)

text \<open>A crash loses everything but what is on the device; the store is opened again.\<close>

definition crashed :: "file_store \<Rightarrow> file_store" where
  "crashed fs = FileStore_new \<lparr>fdata = io_disk (fs_io fs), fcap = fcap (io_file (fs_io fs))\<rparr>"

lemma fs_open_ok:
  assumes "\<forall>d\<in>set es. fits 0 d" "fdata f = log_of 0 es" "length (log_of 0 es) \<le> 2 ^ 62"
  shows "\<exists>fs. fs_open 0 b r True True (FileStore_new f) = (OK, fs) \<and> fs_rep fs es \<and> fs_data_len fs = 0 \<and>
    fcap (io_file (fs_io fs)) = fcap f"
  using assms
  by (auto simp: fs_open_def FileStore_new_def int_open_def int_initialize_def Let_def fs_rep_def cache_ok_def
      prefix_ok_def entry_id_def entry_pos_all intro!: exI[of _ "length es"])

lemma flush_durable:
  assumes rep: "fs_rep fs es" and "fs_flush ok1 True fs = (ret, fs')"
  shows "io_disk (fs_io fs') = log_of (fs_data_len fs) es \<and> fcap (io_file (fs_io fs')) = fcap (io_file (fs_io fs))"
proof -
  obtain m where "prefix_ok (fs_io fs) (entry_pos (fs_data_len fs) es m)" using rep by (auto simp: fs_rep_def Let_def)
  then have inv: "io_inv (fs_io fs)" "io_open (fs_io fs)" "fdata (io_file (fs_io fs)) = log_of (fs_data_len fs) es"
    using rep prefix_disk_ok by (auto simp: io_inv_def fs_rep_def Let_def)
  obtain r io' where s: "int_sync ok1 True True (fs_io fs) = (r, io')" by fastforce
  have "fs_io fs' = io'" using assms(2) inv(2) s by (auto simp: fs_flush_def)
  then show ?thesis using int_sync_durable[OF inv(1,2) s] inv(3) by simp
qed

text \<open>
  Property C16. Entries of variable length that were flushed survive a crash: the store opened on what the device holds continues
  as if nothing had happened, with all entries from before and after the crash under their keys. The last \<^verbatim>\<open>fdatasync\<close> of the flush
  succeeds (an earlier one may fail), the file has room for all entries, and no section of the background sync task runs inside a write,
  where it could lose the mark of a dirty chunk; between the operations its sections may run at any time.
\<close>

theorem flush_survives_crash:
  assumes "\<forall>d\<in>set (appended (xs @ ys)). fits 0 d" "reads_known 0 [] xs" "reads_known 0 (appended xs) ys"
    and "length (log_of 0 (appended (xs @ ys))) \<le> fcap f" "length (log_of 0 (appended (xs @ ys))) \<le> 2 ^ 62"
  shows "\<exists>fs0 outs p fs1 fs2 fs3 outs' p' fs. fs_create 0 b r True True (FileStore_new f) = (OK, fs0) \<and>
    run_log xs S_idle fs0 = Some (outs, p, fs1) \<and> fs_flush ok1 True (fs1\<lparr>fs_io := end_task ok1 p (fs_io fs1)\<rparr>) = (OK, fs2) \<and>
    fs_open 0 b' r' True True (crashed fs2) = (OK, fs3) \<and> run_log ys S_idle fs3 = Some (outs', p', fs) \<and>
    outs @ outs' = map (\<lambda>i. (OK, entry_key 0 (appended (xs @ ys)) i)) [0..<length (appended (xs @ ys))] \<and>
    (\<forall>i<length (appended (xs @ ys)). \<exists>fs'. fs_get_all (snd ((outs @ outs') ! i)) ra fs = Some (OK, appended (xs @ ys) ! i, fs'))"
proof -
  let ?xs = "appended xs" and ?ys = "appended ys"
  have len: "length (log_of 0 ?xs) \<le> length (log_of 0 (?xs @ ?ys))" by (simp add: log_of_append)
  obtain fs0 p fs1 where 1: "fs_create 0 b r True True (FileStore_new f) = (OK, fs0)"
      "run_log xs S_idle fs0 = Some (map (\<lambda>i. (OK, entry_key 0 ?xs i)) [0..<length ?xs], p, fs1)"
      "task_rep p fs1 ?xs" "fs_data_len fs1 = 0" "fcap (io_file (fs_io fs1)) = fcap f"
    using log_created[of xs 0 f b r] assms len by auto
  let ?e = "fs1\<lparr>fs_io := end_task ok1 p (fs_io fs1)\<rparr>"
  have e: "fs_rep ?e ?xs" "fs_data_len ?e = 0" "fcap (io_file (fs_io ?e)) = fcap f" using end_task_rep[OF 1(3), of ok1] 1(4,5) by simp_all
  obtain fs2 where 2: "fs_flush ok1 True ?e = (OK, fs2)" by (cases "io_open (fs_io ?e)") (auto simp: fs_flush_def)
  then have disk: "io_disk (fs_io fs2) = log_of 0 ?xs" "fcap (io_file (fs_io fs2)) = fcap f"
    using flush_durable[OF e(1)] e(2,3) by auto
  obtain fs3 where 3: "fs_open 0 b' r' True True (crashed fs2) = (OK, fs3)" "fs_rep fs3 ?xs" "fs_data_len fs3 = 0"
      "fcap (io_file (fs_io fs3)) = fcap f"
    using fs_open_ok[of ?xs "\<lparr>fdata = log_of 0 ?xs, fcap = fcap f\<rparr>" b' r'] assms(1,5) len disk by (auto simp: crashed_def)
  have "task_rep S_idle fs3 ?xs" using 3(2) by (simp add: task_rep_def)
  then obtain p' fs where 4: "run_log ys S_idle fs3 = Some (map (\<lambda>i. (OK, entry_key 0 (?xs @ ?ys) i)) [length ?xs..<length (?xs @ ?ys)], p', fs)"
      "fs_rep fs (?xs @ ?ys)" "fs_data_len fs = 0"
    using run_log_ok[of S_idle fs3 ?xs 0 ys] 3(3,4) assms by (auto simp: task_rep_def)
  have keys: "map (\<lambda>i. (OK, entry_key 0 ?xs i)) [0..<length ?xs] @ map (\<lambda>i. (OK, entry_key 0 (?xs @ ?ys) i)) [length ?xs..<length (?xs @ ?ys)]
      = map (\<lambda>i. (OK, entry_key 0 (?xs @ ?ys) i)) [0..<length (?xs @ ?ys)]"
    using upt_add_eq_append[of 0 "length ?xs" "length ?ys"] by (simp add: entry_key_append)
  have "\<exists>fs'. fs_get_all (entry_key 0 (?xs @ ?ys) i) ra fs = Some (OK, (?xs @ ?ys) ! i, fs')" if "i < length (?xs @ ?ys)" for i
    using fs_get_all_ok[OF 4(2) that, of ra] 4(3) by auto
  then show ?thesis using 1(1,2) 2 3(1) 4(1) keys by (intro exI conjI) (assumption | simp)+
qed

text \<open>A witness.\<close>

theorem flush_survives_crash_witness:
  "\<exists>fs0 outs p fs1 fs2 fs3 outs' p' fs. fs_create 0 False 0 True True (FileStore_new sample_file) = (OK, fs0) \<and>
    run_log [Append_op 0 [7, 8], Task_op True] S_idle fs0 = Some (outs, p, fs1) \<and>
    fs_flush True True (fs1\<lparr>fs_io := end_task True p (fs_io fs1)\<rparr>) = (OK, fs2) \<and>
    fs_open 0 False 0 True True (crashed fs2) = (OK, fs3) \<and> run_log [Append_op 0 [9]] S_idle fs3 = Some (outs', p', fs) \<and>
    outs @ outs' = map (\<lambda>i. (OK, entry_key 0 [[7, 8], [9]] i)) [0, 1] \<and>
    (\<forall>i<Suc (Suc 0). \<exists>fs'. fs_get_all (snd ((outs @ outs') ! i)) False fs = Some (OK, [[7, 8], [9]] ! i, fs'))"
  using flush_survives_crash[of "[Append_op 0 [7, 8], Task_op True]" "[Append_op 0 [9]]" sample_file False 0 True False 0 False]
  by (simp add: fits_def log_of_def length_fs_entry sample_file_def)

section \<open>The I/O layer\<close>

text \<open>
  The states the layer reaches from an open file by whole operations, one after the other: writes
  that leave no hole, syncs, runs of the sync task, and reads that stay in a chunk or use a buffered
  descriptor.
\<close>

definition read_safe :: "file_io \<Rightarrow> nat \<Rightarrow> nat \<Rightarrow> bool \<Rightarrow> bool" where
  "read_safe io count offset readahead \<longleftrightarrow> offset < 2 ^ 63 \<and>
     (readahead \<or> io_buffered_only io \<or> offset mod chunk_size + count \<le> chunk_size)"

inductive io_reach :: "file_io \<Rightarrow> bool" where
  io_opened: "int_open True True trunc ((int_initialize f)\<lparr>io_buffered_only := b\<rparr>) = (True, io) \<Longrightarrow> io_reach io"
| io_written: "io_reach io \<Longrightarrow> int_pwritev io bs offset = (ok, io') \<Longrightarrow> offset \<le> length (fdata (io_file io)) \<Longrightarrow>
    offset + length bs + chunk_size \<le> 2 ^ 64 \<Longrightarrow> io_reach io'"
| io_read: "io_reach io \<Longrightarrow> int_pread io count offset readahead = Some (bs, io') \<Longrightarrow> read_safe io count offset readahead \<Longrightarrow> io_reach io'"
| io_synced: "io_reach io \<Longrightarrow> int_sync ok1 ok2 blocking io = (r, io') \<Longrightarrow> io_reach io'"
| io_task: "io_reach io \<Longrightarrow> io_reach (run_sync_task ok io)"

lemma int_sync_open: "io_open (snd (int_sync ok1 ok2 blocking io)) = io_open io"
proof -
  have "io_open (snd (enqueue_sync io)) = io_open io" for io by (simp add: enqueue_sync_def)
  then show ?thesis by (simp add: int_sync_def case_prod_beta)
qed

lemma io_reach_inv: "io_reach io \<Longrightarrow> io_inv io \<and> io_open io"
proof (induction rule: io_reach.induct)
  case (io_opened trunc f b io)
  then show ?case
    by (cases trunc) (auto simp: int_open_def int_initialize_def io_inv_def cache_ok_def disk_ok_def)
next
  case (io_written io bs offset ok io')
  have i: "io_inv io" "io_open io" using io_written.IH by auto
  obtain c q y where "int_pwritev io bs offset = (bs = [] \<or> offset + length bs \<le> fcap (io_file io) \<or> fcap (io_file io) \<le> offset,
      io\<lparr>io_file := (io_file io)\<lparr>fdata := written_data io bs offset\<rparr>, io_dirty := q, io_syncing := y, io_cache := c\<rparr>)"
      "io_inv (io\<lparr>io_file := (io_file io)\<lparr>fdata := written_data io bs offset\<rparr>, io_dirty := q, io_syncing := y, io_cache := c\<rparr>)"
    by (rule int_pwritev_ok[OF i io_written.hyps(3,4)])
  then show ?case using io_written.hyps(2) i(2) by auto
next
  case (io_read io count offset readahead bs io')
  then show ?case using int_pread_ok[of io offset readahead count] by (auto simp: read_safe_def)
next
  case (io_synced io ok1 ok2 blocking r io')
  then show ?case using int_sync_inv[of io ok1 ok2 blocking] int_sync_open[of ok1 ok2 blocking io] by auto
next
  case (io_task io ok)
  then show ?case using run_sync_task_inv[of io ok] by simp
qed

text \<open>
  The page cache and the choice of the descriptor are invisible: in every state reached
  by writes without holes, syncs and reads, a read returns the bytes of the file, as long as it
  stays in one chunk or uses a buffered descriptor.
\<close>

theorem reads_see_the_file:
  assumes "io_reach io" "read_safe io count offset readahead"
  shows "\<exists>io'. int_pread io count offset readahead = Some (pread (io_file io) count offset, io') \<and> io_file io' = io_file io"
  using int_pread_ok[of io offset readahead count] io_reach_inv[OF assms(1)] assms(2) by (auto simp: read_safe_def)

text \<open>A witness.\<close>

definition sample_io :: file_io where
  "sample_io = (int_initialize sample_file)\<lparr>io_open := True\<rparr>"

theorem reads_see_the_file_witness:
  "\<exists>io'. int_pread sample_io 4 0 False = Some ([], io') \<and> io_file io' = sample_file"
proof -
  have "io_reach sample_io"
    by (rule io_opened[where trunc = False and f = sample_file and b = False]) (simp add: int_open_def int_initialize_def sample_io_def)
  moreover have "read_safe sample_io 4 0 False" by (simp add: read_safe_def chunk_size_def)
  ultimately show ?thesis
    using reads_see_the_file[of sample_io 4 0 False] by (simp add: sample_io_def int_initialize_def sample_file_def pread_def)
qed

section \<open>A write and a sync at the same time\<close>

text \<open>
  \<^verbatim>\<open>int_pwritev\<close> and the sync task hold the lock of the dirty chunks only in parts of their work: the
  atomic parts of one writer and of one sync task, in any order.
\<close>

datatype writer = W_idle | W_marked bytes nat | W_written bytes nat int

inductive io_step :: "file_io \<times> writer \<times> syncer \<Rightarrow> file_io \<times> writer \<times> syncer \<Rightarrow> bool" where
  write_mark: "io_step (io, W_idle, t) (mark_before (start_chunk off) (end_chunk off (length bs)) io, W_marked bs off, t)"
| write_data: "do_write bs off io = (n, io') \<Longrightarrow> io_step (io, W_marked bs off, t) (io', W_written bs off n, t)"
| write_finish: "io_step (io, W_written bs off n, t)
    (invalidate_range off n (mark_after (start_chunk off) (end_chunk off (length bs)) io), W_idle, t)"
| task_start: "io_sync_queued io \<Longrightarrow> io_step (io, w, S_idle) (sync_start io, w, S_started)"
| task_data: "io_step (io, w, S_started) (sync_data io, w, S_synced)"
| task_finish: "io_step (io, w, S_synced) ((sync_finish io)\<lparr>io_sync_queued := False\<rparr>, w, S_idle)"

text \<open>Without interleaving the parts are the two operations.\<close>

lemma write_alone:
  assumes "io_open io"
  shows "io_step\<^sup>*\<^sup>* (io, W_idle, t) (snd (int_pwritev io bs off), W_idle, t)"
proof -
  let ?s = "start_chunk off" and ?e = "end_chunk off (length bs)"
  obtain n io' where w: "do_write bs off (mark_before ?s ?e io) = (n, io')" by fastforce
  have "io_step (io, W_idle, t) (mark_before ?s ?e io, W_marked bs off, t)" by (rule write_mark)
  moreover have "io_step (mark_before ?s ?e io, W_marked bs off, t) (io', W_written bs off n, t)" using w by (rule write_data)
  moreover have "io_step (io', W_written bs off n, t) (invalidate_range off n (mark_after ?s ?e io'), W_idle, t)" by (rule write_finish)
  moreover have "snd (int_pwritev io bs off) = invalidate_range off n (mark_after ?s ?e io')"
    using assms w by (simp add: int_pwritev_def Let_def)
  ultimately show ?thesis by (simp add: converse_rtranclp_into_rtranclp)
qed

text \<open>
  Property C32. A sync task that takes its snapshot of the dirty chunks and syncs between the two
  markings of a write to existing chunks, and finishes after them, leaves a state with no dirty
  chunk although the written bytes are not on the device. A later flush finds nothing to do and
  reports success, and a direct read misses the write.
\<close>

theorem sync_race_loses_dirty:
  assumes "io_sync_queued io" "io_open io" "end_chunk off (length bs) \<le> length (io_dirty io)"
    and "off + length bs \<le> fcap (io_file io)" "bs \<noteq> []"
  shows "\<exists>io'. io_step\<^sup>*\<^sup>* (io, W_idle, S_idle) (io', W_idle, S_idle) \<and>
    fdata (io_file io') = write_at (fdata (io_file io)) off bs \<and> io_disk io' = fdata (io_file io) \<and>
    (\<forall>k. \<not> is_dirty io' k) \<and> int_sync ok1 ok2 True io' = (True, io')"
proof -
  let ?s = "start_chunk off" and ?e = "end_chunk off (length bs)"
  let ?f = "(io_file io)\<lparr>fdata := write_at (fdata (io_file io)) off bs\<rparr>"
  define io1 where "io1 = mark_before ?s ?e io"
  define io3 where "io3 = sync_data (sync_start io1)"
  define io4 where "io4 = io3\<lparr>io_file := ?f\<rparr>"
  define io5 where "io5 = invalidate_range off (int (length bs)) (mark_after ?s ?e io4)"
  define io6 where "io6 = (sync_finish io5)\<lparr>io_sync_queued := False\<rparr>"
  have bs: "bs \<noteq> []" "\<not> fcap (io_file io) \<le> off" using assms(4,5) by (cases bs, auto)+
  have w: "do_write bs off io3 = (int (length bs), io4)"
    using assms(4) bs by (simp add: do_write_def pwrite_def io3_def io4_def io1_def sync_data_def sync_start_def mark_before_def Let_def min_def)
  have q: "io_sync_queued io1" using assms(1) by (simp add: io1_def mark_before_def)
  have steps: "io_step (io, W_idle, S_idle) (io1, W_marked bs off, S_idle)"
    "io_step (io1, W_marked bs off, S_idle) (sync_start io1, W_marked bs off, S_started)"
    "io_step (sync_start io1, W_marked bs off, S_started) (io3, W_marked bs off, S_synced)"
    "io_step (io3, W_marked bs off, S_synced) (io4, W_written bs off (int (length bs)), S_synced)"
    "io_step (io4, W_written bs off (int (length bs)), S_synced) (io5, W_idle, S_synced)"
    "io_step (io5, W_idle, S_synced) (io6, W_idle, S_idle)"
    using io_step.intros(1)[of io S_idle off bs, folded io1_def] task_start[OF q] task_data[of "sync_start io1", folded io3_def]
      write_data[OF w] write_finish[of io4 bs off "int (length bs)", folded io5_def] task_finish[of io5, folded io6_def] by blast+
  have "io_dirty io5 = set_range True ?s ?e (io_dirty io1)" "io_syncing io5 = io_dirty io1"
    using assms(3) by (simp_all add: io5_def io4_def io3_def io1_def mark_after_def invalidate_range_def sync_data_def sync_start_def mark_before_def)
  moreover have "set_range True ?s ?e (io_dirty io1) = io_dirty io1"
    by (simp add: io1_def mark_before_def set_range_idem)
  ultimately have "io_dirty io6 = map (\<lambda>i. False) [0..<length (io_dirty io1)]"
    by (simp add: io6_def sync_finish_def Let_def)
  then have clean: "io_dirty io6 = replicate (length (io_dirty io1)) False" by (simp add: map_replicate_const)
  then have nd: "\<not> is_dirty io6 k" for k by (simp add: is_dirty_def)
  have f: "io_file io6 = ?f" "io_disk io6 = fdata (io_file io)" "io_open io6" "\<not> io_sync_queued io6"
    using assms(2) by (simp_all add: io6_def sync_finish_def io5_def io4_def io3_def io1_def mark_after_def invalidate_range_def
        sync_data_def sync_start_def mark_before_def Let_def)
  have "int_sync ok1 ok2 True io6 = (True, io6)"
    using f(3,4) by (simp add: int_sync_def run_sync_task_def enqueue_sync_def clean)
  moreover have "io_step\<^sup>*\<^sup>* (io, W_idle, S_idle) (io6, W_idle, S_idle)"
    using steps by (meson rtranclp.rtrancl_refl rtranclp.rtrancl_into_rtrancl)
  ultimately show ?thesis using f(1,2) nd by (intro exI[of _ io6]) simp
qed

text \<open>A witness.\<close>

definition busy_io :: file_io where
  "busy_io = sample_io\<lparr>io_dirty := [True, True], io_sync_queued := True\<rparr>"

theorem sync_race_loses_dirty_witness:
  "\<exists>io'. io_step\<^sup>*\<^sup>* (busy_io, W_idle, S_idle) (io', W_idle, S_idle) \<and>
    fdata (io_file io') = [5] \<and> io_disk io' = [] \<and> (\<forall>k. \<not> is_dirty io' k) \<and> int_sync True True True io' = (True, io')"
  using sync_race_loses_dirty[of busy_io 0 "[5]" True True]
  by (simp add: busy_io_def sample_io_def int_initialize_def sample_file_def end_chunk_def chunk_size_def write_at_def)

section \<open>Failures that are not reported\<close>

text \<open>
  When the device is full, so that the write of an entry fails, \<open>Append\<close> still reports
  success: the failure code \<open>-1\<close> is compared as an unsigned number. The file is unchanged, but the
  store says that it contains the new key.
\<close>

theorem append_hides_failure:
  assumes "fs_rep fs es" "fits (fs_data_len fs) d" "fcap (io_file (fs_io fs)) \<le> length (log_of (fs_data_len fs) es)"
    and "length (log_of (fs_data_len fs) (es @ [d])) \<le> 2 ^ 62"
  shows "\<exists>k fs'. fs_append r d fs = (OK, k, fs') \<and> fdata (io_file (fs_io fs')) = fdata (io_file (fs_io fs)) \<and> fs_contains k fs' = OK"
proof -
  let ?L = "fs_data_len fs" and ?io = "fs_io fs"
  let ?off = "length (log_of ?L es)" and ?e = "fs_entry ?L d"
  obtain m where "prefix_ok ?io (entry_pos ?L es m)" using assms(1) by (auto simp: fs_rep_def Let_def)
  then have inv: "io_inv ?io" "io_open ?io" and fl: "fdata (io_file ?io) = log_of ?L es" and all: "\<forall>d\<in>set es. fits ?L d"
    using assms(1) prefix_disk_ok by (auto simp: io_inv_def fs_rep_def Let_def)
  have small: "?off + length ?e + chunk_size \<le> 2 ^ 64" using assms(4) by (simp add: chunk_size_def)
  obtain c q y where w: "int_pwritev ?io ?e ?off = (True, ?io\<lparr>io_file := (io_file ?io)\<lparr>fdata := written_data ?io ?e ?off\<rparr>,
      io_dirty := q, io_syncing := y, io_cache := c\<rparr>)"
    by (rule int_pwritev_ok[OF inv _ small]) (use fl assms(3) in simp_all)
  have same: "written_data ?io ?e ?off = fdata (io_file ?io)" using fl assms(3) by (simp add: written_data_def write_at_def)
  let ?n = "word_of_nat (entry_id ?L (es @ [d]) (Suc (length es)))"
  obtain p io'' where run: "fs_append r d fs = (OK, entry_key ?L es (length es),
      fs\<lparr>fs_next_append_id := ?n, fs_io := io'', fs_end_id := ?n, fs_next_sync := p\<rparr>)" "io_file io'' = io_file ?io"
    using fs_append_run[OF assms(1,2,4) w, of r] same by auto
  have "entry_id ?L es (length es) < entry_id ?L (es @ [d]) (Suc (length es))"
    using id_strict[of "length es" "es @ [d]" ?L] entry_pos_append[of "length es" es ?L "[d]"] by (simp add: entry_id_def split: if_splits)
  moreover have "entry_id ?L (es @ [d]) (Suc (length es)) \<le> 2 ^ 62"
    using id_bound[of "es @ [d]" ?L "Suc (length es)"] all assms(2,4) by simp
  ultimately have "sint (word_of_nat (entry_id ?L es (length es)) :: u64) < sint (?n :: u64)" by (simp add: sint_of_nat)
  then show ?thesis using run by (simp add: fs_contains_def entry_key_def)
qed

text \<open>A witness: a store on a device without room.\<close>

theorem append_hides_failure_witness:
  "\<exists>fs0 k fs'. fs_create 0 False 0 True True (FileStore_new \<lparr>fdata = [], fcap = 0\<rparr>) = (OK, fs0) \<and>
    fs_append 0 [1] fs0 = (OK, k, fs') \<and> fdata (io_file (fs_io fs')) = [] \<and> fs_contains k fs' = OK"
proof -
  obtain fs0 where 0: "fs_create 0 False 0 True True (FileStore_new \<lparr>fdata = [], fcap = 0\<rparr>) = (OK, fs0)" "fs_rep fs0 []"
      "fs_data_len fs0 = 0" "fcap (io_file (fs_io fs0)) = 0"
    using fs_create_ok[of 0 False 0 "\<lparr>fdata = [], fcap = 0\<rparr>"] by auto
  have "fdata (io_file (fs_io fs0)) = []" using 0(2) by (simp add: fs_rep_def Let_def)
  then show ?thesis
    using append_hides_failure[OF 0(2), of "[1]" 0] 0(1,3,4) by (auto simp: fits_def length_fs_entry log_of_def)
qed

lemma int_pwritev_full:
  assumes "io_open io" "bs \<noteq> []" "off + length bs \<le> fcap (io_file io)"
  shows "\<exists>io'. int_pwritev io bs off = (True, io') \<and> io_file io' = (io_file io)\<lparr>fdata := write_at (fdata (io_file io)) off bs\<rparr>"
proof -
  have "\<not> fcap (io_file io) \<le> off" using assms(2,3) by (cases bs) auto
  then have "pwrite (io_file io) bs off = (int (length bs), (io_file io)\<lparr>fdata := write_at (fdata (io_file io)) off bs\<rparr>)"
    using assms(2,3) by (simp add: pwrite_def Let_def min_def)
  then show ?thesis
    using assms(1) by (simp add: int_pwritev_def do_write_def mark_before_def mark_after_def invalidate_range_def Let_def)
qed

text \<open>
  Opening a store with entries of a fixed length takes the size of the file in bytes as
  the number of its entries: it then claims to contain entries that were never written, and the next
  append goes to \<open>n * L * L\<close> instead of \<open>n * L\<close>, far behind the end of the file.
\<close>

theorem reopen_misplaces_fixed:
  assumes "\<forall>e\<in>set es. length e = L" "2 \<le> L" "es \<noteq> []" "length d = L"
    and "length es * L * L + L \<le> cap" "length es * L * L + L \<le> 2 ^ 62"
  shows "\<exists>fs fs'. fs_open L b r True True (FileStore_new \<lparr>fdata = concat es, fcap = cap\<rparr>) = (OK, fs) \<and>
    fs_contains (off_t_value (word_of_nat (length es))) fs = OK \<and>
    fs_append r' d fs = (OK, off_t_value (word_of_nat (length es * L)), fs') \<and>
    fdata (io_file (fs_io fs')) = write_at (concat es) (length es * L * L) d"
proof -
  let ?n = "length es"
  have len: "length (concat es) = ?n * L" using assms(1) by (induction es) auto
  obtain fs where fs: "fs_open L b r True True (FileStore_new \<lparr>fdata = concat es, fcap = cap\<rparr>) = (OK, fs)"
      "io_open (fs_io fs)" "io_file (fs_io fs) = \<lparr>fdata = concat es, fcap = cap\<rparr>" "fs_data_len fs = L"
      "fs_next_append_id fs = word_of_nat (?n * L)" "fs_end_id fs = word_of_nat (?n * L)"
    by (simp add: fs_open_def FileStore_new_def int_open_def int_initialize_def Let_def len)
  have "?n * 1 < ?n * L" using assms(2,3) by (intro mult_strict_left_mono) auto
  moreover have "?n * L * 1 \<le> ?n * L * L" using assms(2) by (intro mult_le_mono2) simp
  ultimately have ord: "?n < ?n * L" "?n * L < 2 ^ 62" using assms(2,6) by linarith+
  have "m < 2 ^ 62 \<Longrightarrow> sint (word_of_nat m :: u64) = int m" for m by (rule sint_of_nat) simp
  then have "sint (word_of_nat ?n :: u64) = int ?n" "sint (word_of_nat (?n * L) :: u64) = int (?n * L)"
    using ord less_trans by blast+
  then have "sint (word_of_nat ?n :: u64) < sint (word_of_nat (?n * L) :: u64)" using ord(1) by linarith
  then have c: "fs_contains (off_t_value (word_of_nat ?n)) fs = OK" unfolding fs_contains_def fs(6) as_off_t_value by (simp del: of_nat_mult)
  have t: "unat (put_target L (word_of_nat (?n * L))) = ?n * L * L"
  proof -
    have "put_target L (word_of_nat (?n * L)) = word_of_nat (?n * L * L)" using assms(2) by (simp add: put_target_def)
    then show ?thesis using unat_of_nat_small[of "?n * L * L"] assms(6) by simp
  qed
  have e: "fs_entry L d = d" "d \<noteq> []" using assms(2,4) by (auto simp: fs_entry_def)
  obtain io' where w: "int_pwritev (fs_io fs) d (?n * L * L) = (True, io')" "fdata (io_file io') = write_at (concat es) (?n * L * L) d"
    using int_pwritev_full[OF fs(2) e(2), of "?n * L * L"] fs(3) assms(4,5) by auto
  have ne: "(word_of_nat (?n * L) :: u64) \<noteq> - 1" using ord by (intro of_nat_not_minus_one) simp
  define fs1 where "fs1 = fs\<lparr>fs_next_append_id := fs_next_append_id fs + append_step L d\<rparr>"
  obtain fs2 where p: "fs_put (off_t_value (word_of_nat (?n * L))) d fs1 = (OK, fs2)" "fs_io fs2 = io'"
    using ne w(1) fs(4) t e(1) by (auto simp: fs_put_def Let_def fs1_def)
  have "\<exists>fs'. fs_append r' d fs = (OK, off_t_value (word_of_nat (?n * L)), fs') \<and> io_file (fs_io fs') = io_file io'"
    using p assms(4) fs(4,5) unfolding fs_append_def Let_def fs1_def
    by (cases "sint (fs_next_sync fs2 - append_len (fs_data_len fs2) d) < 0") auto
  then show ?thesis using fs(1) c w(2) by auto
qed

text \<open>A witness.\<close>

theorem reopen_misplaces_fixed_witness:
  "\<exists>fs fs'. fs_open 2 False 0 True True (FileStore_new \<lparr>fdata = [1, 2], fcap = 100\<rparr>) = (OK, fs) \<and>
    fs_contains (off_t_value 1) fs = OK \<and> fs_append 0 [3, 4] fs = (OK, off_t_value 2, fs') \<and>
    fdata (io_file (fs_io fs')) = [1, 2, 0, 0, 3, 4]"
proof -
  have "write_at [1, 2] 4 [3, 4] = [1, 2, 0, 0, 3, 4]" by code_simp
  then show ?thesis using reopen_misplaces_fixed[of "[[1, 2]]" 2 "[3, 4]" 100 False 0 0] by simp
qed

end
