(* ===== verification/Frontend.thy ===== *)
theory Frontend
  imports Ring Kv_Messages
begin

text \<open>
  The front end, class \<^verbatim>\<open>FrontEnd\<close> of \<^verbatim>\<open>fawnkv/fe.cpp\<close>: it keeps a copy of the ring and a connection per
  back end, sends each request to a member of the replica group of its key, and passes the answers on
  to registered callbacks. A \<^verbatim>\<open>FawnKVBackendClient\<close> is known by the address it is connected to; the
  calls made on it are the messages sent there. Connections are taken to succeed.
\<close>

section \<open>State\<close>

text \<open>The constructor does not initialise the three callback pointers.\<close>

datatype callback = Uninitialised | Registered

text \<open>The calls a front end makes on its callbacks, with the 64-bit continuation narrowed to
  \<^verbatim>\<open>unsigned int\<close>.\<close>

datatype fe_call = call_put_cb u32 | call_put_w_cb u32 u64 | call_get_cb dbid bytes u32 bool

record front_end =
  fe_ring :: ring
  fe_myIP :: bytes
  fe_myPort :: u32
  fe_put_cb :: callback
  fe_put_w_cb :: callback
  fe_get_cb :: callback
  fe_clients :: "bytes \<rightharpoonup> bytes"
  fe_sent :: "(bytes \<times> backend_msg) list"
  fe_calls :: "fe_call list"

definition fe_id :: "front_end \<Rightarrow> bytes" where
  "fe_id fe = getID (fe_myIP fe) (fe_myPort fe)"

definition fe_send :: "front_end \<Rightarrow> bytes \<Rightarrow> backend_msg \<Rightarrow> front_end" where
  "fe_send fe addr x = fe\<lparr>fe_sent := fe_sent fe @ [(addr, x)]\<rparr>"

section \<open>Connections\<close>

text \<open>\<^verbatim>\<open>connectTCP\<close> opens the connection and announces the front end on it.\<close>

definition fe_connectTCP :: "front_end \<Rightarrow> bytes \<Rightarrow> u32 \<Rightarrow> bytes \<times> front_end" where
  "fe_connectTCP fe ip p = (getID ip p, fe_send fe (getID ip p) (connection_init (fe_myIP fe) (fe_myPort fe)))"

text \<open>\<^verbatim>\<open>connect_to_backend\<close> looks for the identifier rebuilt from the parts of \<open>nip\<close>, but enters and reads
  \<open>nip\<close> itself.\<close>

definition fe_connect_to_backend :: "front_end \<Rightarrow> bytes \<Rightarrow> bytes option \<times> front_end" where
  "fe_connect_to_backend fe nip =
    (case fe_clients fe (getID (getIP nip) (getPort nip)) of
       None \<Rightarrow>
         let (backend, fe) = fe_connectTCP fe (getIP nip) (getPort nip)
         in (Some backend, fe\<lparr>fe_clients := (fe_clients fe)(nip \<mapsto> backend)\<rparr>)
     | Some _ \<Rightarrow> (fe_clients fe nip, fe))"

fun fe_connect_all :: "front_end \<Rightarrow> node_data list \<Rightarrow> front_end run" where
  "fe_connect_all fe [] = Done fe"
| "fe_connect_all fe (n # ns) =
    (if fe_id fe \<noteq> getID (nd_ip n) (nd_port n) then
       case fe_connect_to_backend fe (getID (nd_ip n) (nd_port n)) of
         (None, fe) \<Rightarrow> Crash
       | (Some _, fe) \<Rightarrow> fe_connect_all fe ns
     else fe_connect_all fe ns)"

text \<open>\<open>rs\<close> is the manager's answer to \<^verbatim>\<open>get_ring_state\<close>.\<close>

definition UpdateRingState :: "front_end \<Rightarrow> ring_state \<Rightarrow> front_end run" where
  "UpdateRingState fe rs =
    bind_run (fe_connect_all fe (rs_nodes rs)) (\<lambda>fe. Done (fe\<lparr>fe_ring := UpdateState (fe_ring fe) rs\<rparr>))"

text \<open>\<open>u\<close> is the indeterminate \<^verbatim>\<open>replica_group_size\<close> of a new \<^verbatim>\<open>Ring\<close>.\<close>

definition Ring_new :: "u32 \<Rightarrow> ring" where
  "Ring_new u = \<lparr>heap = [], ip_node_map = Map.empty, nodeList = [], replica_group_size = u,
    vid_temptail_map = Map.empty, vid_shorter_map = Map.empty\<rparr>"

definition FrontEnd_new :: "bytes \<Rightarrow> u32 \<Rightarrow> u32 \<Rightarrow> ring_state \<Rightarrow> front_end run" where
  "FrontEnd_new ip p u rs =
    UpdateRingState
      \<lparr>fe_ring = Ring_new u, fe_myIP = ip, fe_myPort = p, fe_put_cb = Uninitialised, fe_put_w_cb = Uninitialised,
       fe_get_cb = Uninitialised, fe_clients = Map.empty, fe_sent = [], fe_calls = []\<rparr> rs"

section \<open>Requests\<close>

text \<open>The part \<^verbatim>\<open>put\<close>, \<^verbatim>\<open>put_w\<close> and \<^verbatim>\<open>remove\<close> have in common: the client of the put target, and the
  number of hops, computed in \<^verbatim>\<open>uint32_t\<close>. A missing client is a null pointer that the call
  dereferences.\<close>

definition put_route :: "front_end \<Rightarrow> bytes \<Rightarrow> (bytes \<times> u32) run" where
  "put_route fe key =
    bind_run (deref (getReplicaGroup (fe_ring fe) key)) (\<lambda>h.
      case retrievePutTarget (heap (fe_ring fe)) h of
        (t, i) \<Rightarrow>
          bind_run (deref t) (\<lambda>n.
            bind_run (deref (fe_clients fe (node_id (heap (fe_ring fe) ! n)))) (\<lambda>backend.
              Done (backend, of_nat (length (replicaGroup h)) + 1 - of_nat i))))"

definition fe_put :: "front_end \<Rightarrow> bytes \<Rightarrow> bytes \<Rightarrow> u64 \<Rightarrow> front_end run" where
  "fe_put fe key v continuation =
    bind_run (put_route fe key) (\<lambda>(backend, hops).
      Done (fe_send fe backend (put key v hops hops continuation 0 False False (fe_id fe))))"

definition fe_put_w :: "front_end \<Rightarrow> bytes \<Rightarrow> bytes \<Rightarrow> u64 \<Rightarrow> front_end run" where
  "fe_put_w fe key v continuation =
    bind_run (put_route fe key) (\<lambda>(backend, hops).
      Done (fe_send fe backend (put_w key v hops hops continuation 0 False False (fe_id fe))))"

definition fe_remove :: "front_end \<Rightarrow> bytes \<Rightarrow> u64 \<Rightarrow> front_end run" where
  "fe_remove fe key continuation =
    bind_run (put_route fe key) (\<lambda>(backend, hops).
      Done (fe_send fe backend (put key [] hops hops continuation 0 False True (fe_id fe))))"

text \<open>\<^verbatim>\<open>vid_temptail_map[vid]\<close> enters \<^verbatim>\<open>false\<close> for a key it does not find.\<close>

definition touch :: "bytes \<Rightarrow> (bytes \<rightharpoonup> bool) \<Rightarrow> bool \<times> (bytes \<rightharpoonup> bool)" where
  "touch k m = (case m k of Some b \<Rightarrow> (b, m) | None \<Rightarrow> (False, m(k \<mapsto> False)))"

definition fe_get :: "front_end \<Rightarrow> bytes \<Rightarrow> u64 \<Rightarrow> front_end run" where
  "fe_get fe key continuation =
    bind_run (deref (getReplicaGroup (fe_ring fe) key)) (\<lambda>h.
      case getSuccessorID (fe_ring fe) key of
        Fault \<Rightarrow> Crash
      | Ret vidb \<Rightarrow>
          let vid = take (unat DBID_LENGTH) (dbid_value vidb);
              rvid = getRangeKey (fe_ring fe) key;
              (temptail, m) = touch vid (vid_temptail_map (fe_ring fe));
              interim_tail = (temptail \<or> vid_shorter_map (fe_ring fe) rvid = Some True);
              fe = fe\<lparr>fe_ring := (fe_ring fe)\<lparr>vid_temptail_map := m\<rparr>\<rparr>
          in case retrieveGetTarget (heap (fe_ring fe)) h interim_tail of
               Fault \<Rightarrow> Crash
             | Ret n \<Rightarrow>
                 bind_run (deref (fe_clients fe (node_id (heap (fe_ring fe) ! n)))) (\<lambda>backend.
                   Done (fe_send fe backend (get key continuation (fe_id fe)))))"

section \<open>Answers\<close>

definition register_cbs :: "front_end \<Rightarrow> front_end" where
  "register_cbs fe = fe\<lparr>fe_put_cb := Registered, fe_put_w_cb := Registered, fe_get_cb := Registered\<rparr>"

definition call_back :: "front_end \<Rightarrow> callback \<Rightarrow> fe_call \<Rightarrow> front_end run" where
  "call_back fe cb c = (case cb of Registered \<Rightarrow> Done (fe\<lparr>fe_calls := fe_calls fe @ [c]\<rparr>) | Uninitialised \<Rightarrow> Crash)"

definition fe_put_response :: "front_end \<Rightarrow> bytes \<Rightarrow> u64 \<Rightarrow> bool \<Rightarrow> bytes \<Rightarrow> front_end run" where
  "fe_put_response fe key continuation success ip = call_back fe (fe_put_cb fe) (call_put_cb (ucast continuation))"

text \<open>\<^verbatim>\<open>put_w_response\<close> tests \<^verbatim>\<open>put_cb\<close> and calls \<^verbatim>\<open>put_w_cb\<close>.\<close>

definition fe_put_w_response :: "front_end \<Rightarrow> bytes \<Rightarrow> u64 \<Rightarrow> bool \<Rightarrow> u64 \<Rightarrow> bytes \<Rightarrow> front_end run" where
  "fe_put_w_response fe key continuation success version ip =
    (case fe_put_cb fe of
       Uninitialised \<Rightarrow> Crash
     | Registered \<Rightarrow> call_back fe (fe_put_w_cb fe) (call_put_w_cb (ucast continuation) version))"

text \<open>A stale answer makes the front end fetch the ring, here \<open>rs\<close>, and ask again.\<close>

definition fe_get_response :: "front_end \<Rightarrow> ring_state \<Rightarrow> bytes \<Rightarrow> bytes \<Rightarrow> u64 \<Rightarrow> u16 \<Rightarrow> bytes \<Rightarrow> front_end run" where
  "fe_get_response fe rs key v continuation status ip =
    (if status = STALE_RING then
       bind_run (UpdateRingState fe rs) (\<lambda>fe. fe_get fe key continuation)
     else call_back fe (fe_get_cb fe) (call_get_cb (DBID key) v (ucast continuation) (status = SUCCESS)))"

definition fe_remove_response :: "front_end \<Rightarrow> bytes \<Rightarrow> u64 \<Rightarrow> bool \<Rightarrow> bytes \<Rightarrow> front_end run" where
  "fe_remove_response fe key continuation success ip = call_back fe (fe_put_cb fe) (call_put_cb (ucast continuation))"

end
