(* ===== verification/Frontend_Correct.thy ===== *)
theory Frontend_Correct
  imports Frontend
begin

text \<open>
  The front end's requests follow the replica chain of the ring it was given: puts go to its first
  node with its length as the number of hops, gets to its last node.
\<close>

section \<open>Targets among live nodes\<close>

text \<open>No operation of \<^verbatim>\<open>Ring\<close> clears the \<^verbatim>\<open>valid\<close> flag of a node it created.\<close>

lemma retrievePutTarget_live: "valid (h ! nh_owner nh) \<Longrightarrow> retrievePutTarget h nh = (Some (nh_owner nh), 0)"
  by (simp add: retrievePutTarget_def)

lemma retrieveGetTarget_live:
  assumes "\<forall>n \<in> set (replicaGroup nh). valid (h ! n)" and "replicaGroup nh \<noteq> [] \<or> \<not> interim"
  shows "retrieveGetTarget h nh interim = Ret (last (nh_owner nh # replicaGroup nh))"
proof -
  have "get_scan h g n i = n" if "valid (h ! n)" for g n i using that by (cases i) simp_all
  then show ?thesis using assms by (auto simp: retrieveGetTarget_def Let_def)
qed

section \<open>A connected front end\<close>

text \<open>Every node of the ring is live and has a client connected to its own address.\<close>

definition fe_connected :: "front_end \<Rightarrow> bool" where
  "fe_connected fe \<longleftrightarrow> ring_wf (fe_ring fe) \<and> (\<forall>n \<in> set (heap (fe_ring fe)). valid n)
    \<and> (\<forall>v \<in> set (nodeList (fe_ring fe)). let a = node_id (heap (fe_ring fe) ! vn_n v) in fe_clients fe a = Some a)"

text \<open>What holds before and after each update: nodes are entered under their identifiers and live, and
  a client is entered under the address it is connected to.\<close>

definition fe_base :: "front_end \<Rightarrow> bool" where
  "fe_base fe \<longleftrightarrow> entries_wf (heap (fe_ring fe)) (ip_node_map (fe_ring fe)) \<and> (\<forall>n \<in> set (heap (fe_ring fe)). valid n)
    \<and> (\<forall>a c. fe_clients fe a = Some c \<longrightarrow> c = a)"

text \<open>The replica chain of a key, read off a \<^verbatim>\<open>ringState\<close> message.\<close>

definition rs_vns :: "ring_state \<Rightarrow> virtual_node list" where
  "rs_vns rs = map (\<lambda>nd. VirtualNode 0 (DBID (VnodeID nd))) (rs_nodes rs)"

definition rs_addrs :: "ring_state \<Rightarrow> bytes list" where
  "rs_addrs rs = map (\<lambda>nd. getID (nd_ip nd) (nd_port nd)) (rs_nodes rs)"

definition rs_chain :: "ring_state \<Rightarrow> bytes \<Rightarrow> bytes list" where
  "rs_chain rs key = take (max 1 (unat (replication rs))) (firsts {} (rotate (owner_index (rs_vns rs) (DBID key)) (rs_addrs rs)))"

lemma rs_chain_distinct: "distinct (rs_chain rs key)"
  by (simp add: rs_chain_def distinct_firsts)

lemma rs_chain_nonempty: "rs_nodes rs \<noteq> [] \<Longrightarrow> rs_chain rs key \<noteq> []"
  using length_firsts [of "rotate (owner_index (rs_vns rs) (DBID key)) (rs_addrs rs)"]
  by (auto simp: rs_chain_def rs_addrs_def)

lemma fe_connect_to_backend_base:
  assumes "fe_base fe" and "58 \<notin> set ip"
  obtains fe' where "fe_connect_to_backend fe (getID ip p) = (Some (getID ip p), fe')" "fe_base fe'" "fe_ring fe' = fe_ring fe"
    "fe_id fe' = fe_id fe" "fe_clients fe' = (fe_clients fe)(getID ip p \<mapsto> getID ip p)"
proof -
  have a: "getIP (getID ip p) = ip" "getPort (getID ip p) = p" using getID_parts [OF assms(2)] by simp_all
  show thesis
  proof (cases "fe_clients fe (getID ip p)")
    case None
    then show thesis
      by (intro that [of "(fe_send fe (getID ip p) (connection_init (fe_myIP fe) (fe_myPort fe)))
            \<lparr>fe_clients := (fe_clients fe)(getID ip p \<mapsto> getID ip p)\<rparr>"])
        (use assms(1) in \<open>simp_all add: fe_connect_to_backend_def a fe_connectTCP_def fe_send_def fe_base_def fe_id_def\<close>)
  next
    case (Some c)
    then have "fe_clients fe (getID ip p) = Some (getID ip p)" using assms(1) by (simp add: fe_base_def)
    then show thesis
      by (intro that [of fe]) (use assms(1) in \<open>simp_all add: fe_connect_to_backend_def a fun_upd_idem\<close>)
  qed
qed

lemma fe_connect_all_Done:
  assumes "fe_base fe" and "\<forall>n \<in> set ns. 58 \<notin> set (nd_ip n) \<and> fe_id fe \<noteq> getID (nd_ip n) (nd_port n)"
  obtains fe' where "fe_connect_all fe ns = Done fe'" "fe_base fe'" "fe_ring fe' = fe_ring fe" "fe_id fe' = fe_id fe"
    "\<forall>a. a \<in> (\<lambda>n. getID (nd_ip n) (nd_port n)) ` set ns \<or> fe_clients fe a = Some a \<longrightarrow> fe_clients fe' a = Some a"
  using assms
proof (induction ns arbitrary: fe thesis)
  case Nil
  then show ?case by simp
next
  case (Cons n ns)
  let ?a = "getID (nd_ip n) (nd_port n)"
  have n: "58 \<notin> set (nd_ip n)" using Cons.prems(3) by simp
  obtain fe1 where f: "fe_connect_to_backend fe ?a = (Some ?a, fe1)" "fe_base fe1" "fe_ring fe1 = fe_ring fe" "fe_id fe1 = fe_id fe"
    "fe_clients fe1 = (fe_clients fe)(?a \<mapsto> ?a)"
    by (rule fe_connect_to_backend_base [OF Cons.prems(2) n])
  have ns: "\<forall>n \<in> set ns. 58 \<notin> set (nd_ip n) \<and> fe_id fe1 \<noteq> getID (nd_ip n) (nd_port n)" using Cons.prems(3) f(4) by simp
  obtain fe' where g: "fe_connect_all fe1 ns = Done fe'" "fe_base fe'" "fe_ring fe' = fe_ring fe1" "fe_id fe' = fe_id fe1"
    "\<forall>a. a \<in> (\<lambda>n. getID (nd_ip n) (nd_port n)) ` set ns \<or> fe_clients fe1 a = Some a \<longrightarrow> fe_clients fe' a = Some a"
    by (rule Cons.IH [OF _ f(2) ns])
  have "fe_connect_all fe (n # ns) = Done fe'" using f(1) g(1) Cons.prems(3) by simp
  then show ?case by (rule Cons.prems(1)) (use f g in auto)
qed

lemma push_nodes_valid:
  "\<forall>n \<in> set (heap r). valid n \<Longrightarrow> \<forall>n \<in> set (heap (push_nodes r nds)). valid n"
proof (induction nds arbitrary: r)
  case (Cons nd nds)
  obtain n t where c: "createNode r (nd_ip nd) (nd_port nd) = (n, t)" by fastforce
  then have "\<forall>n \<in> set (heap t). valid n"
    using Cons.prems by (auto simp: createNode_def Let_def Node_new_def split: option.splits)
  then show ?case
    using Cons.IH [of "t\<lparr>nodeList := nodeList t @ [VirtualNode n (DBID (VnodeID nd))]\<rparr>"] by (simp add: c)
qed simp

lemma UpdateState_ring:
  assumes "entries_wf (heap r) (ip_node_map r)" and "\<forall>n \<in> set (heap r). valid n" and "ring_sorted (rs_vns rs)"
  shows "ring_wf (UpdateState r rs)" "\<forall>n \<in> set (heap (UpdateState r rs)). valid n"
    "map vn_id (nodeList (UpdateState r rs)) = map vn_id (rs_vns rs)"
    "map (\<lambda>v. node_id (heap (UpdateState r rs) ! vn_n v)) (nodeList (UpdateState r rs)) = rs_addrs rs"
    "replica_group_size (UpdateState r rs) = replication rs"
proof -
  let ?r = "r\<lparr>nodeList := [], vid_temptail_map := Map.empty, vid_shorter_map := Map.empty\<rparr>"
  let ?p = "push_nodes ?r (rs_nodes rs)"
  obtain xs vs where ps: "heap ?p = heap ?r @ xs" "nodeList ?p = vs" "entries_wf (heap ?p) (ip_node_map ?p)"
    "\<forall>v \<in> set vs. vn_n v < length (heap ?r @ xs)"
    "map vn_id vs = map (\<lambda>nd. vn_id (VirtualNode 0 (DBID (VnodeID nd)))) (rs_nodes rs)"
    "map (\<lambda>v. node_id ((heap ?r @ xs) ! vn_n v)) vs = map (\<lambda>nd. getID (nd_ip nd) (nd_port nd)) (rs_nodes rs)"
    using push_nodes_spec [of ?r "rs_nodes rs"] assms(1) by (auto simp del: push_nodes.simps)
  have u: "heap (UpdateState r rs) = heap ?p" "nodeList (UpdateState r rs) = vs" "ip_node_map (UpdateState r rs) = ip_node_map ?p"
    using ps(2) by (simp_all add: UpdateState_def Let_def)
  show ids: "map vn_id (nodeList (UpdateState r rs)) = map vn_id (rs_vns rs)"
    using ps(5) by (simp add: u rs_vns_def)
  have "ring_sorted (nodeList (UpdateState r rs))"
    by (rule ring_sorted_ids [OF ids [symmetric] assms(3)])
  then show "ring_wf (UpdateState r rs)" using ps by (simp add: ring_wf_def u)
  show "\<forall>n \<in> set (heap (UpdateState r rs)). valid n"
    unfolding u using assms(2) by (intro push_nodes_valid) simp
  show "map (\<lambda>v. node_id (heap (UpdateState r rs) ! vn_n v)) (nodeList (UpdateState r rs)) = rs_addrs rs"
    using ps(1,6) by (simp add: u rs_addrs_def)
  show "replica_group_size (UpdateState r rs) = replication rs" by (simp add: UpdateState_def Let_def)
qed

lemma UpdateRingState_connected:
  assumes "fe_base fe" and "\<forall>n \<in> set (rs_nodes rs). 58 \<notin> set (nd_ip n) \<and> fe_id fe \<noteq> getID (nd_ip n) (nd_port n)"
    and "ring_sorted (rs_vns rs)"
  obtains fe' where "UpdateRingState fe rs = Done fe'" "fe_connected fe'" "fe_base fe'" "fe_id fe' = fe_id fe"
    "fe_ring fe' = UpdateState (fe_ring fe) rs"
proof -
  obtain fe1 where f: "fe_connect_all fe (rs_nodes rs) = Done fe1" "fe_base fe1" "fe_ring fe1 = fe_ring fe" "fe_id fe1 = fe_id fe"
    "\<forall>a. a \<in> (\<lambda>n. getID (nd_ip n) (nd_port n)) ` set (rs_nodes rs) \<or> fe_clients fe a = Some a \<longrightarrow> fe_clients fe1 a = Some a"
    by (rule fe_connect_all_Done [OF assms(1,2)])
  define fe' where "fe' = fe1\<lparr>fe_ring := UpdateState (fe_ring fe) rs\<rparr>"
  have b: "entries_wf (heap (fe_ring fe)) (ip_node_map (fe_ring fe))" "\<forall>n \<in> set (heap (fe_ring fe)). valid n"
    using assms(1) by (simp_all add: fe_base_def)
  note u = UpdateState_ring [OF b assms(3)]
  have ring: "fe_ring fe' = UpdateState (fe_ring fe) rs" by (simp add: fe'_def)
  have clients: "fe_clients fe' a = Some a" if "a \<in> set (rs_addrs rs)" for a
    using f(5) that by (auto simp: fe'_def rs_addrs_def)
  have "node_id (heap (fe_ring fe') ! vn_n v) \<in> set (rs_addrs rs)" if "v \<in> set (nodeList (fe_ring fe'))" for v
    using that unfolding ring u(4) [symmetric] by simp
  then have "fe_connected fe'" using u(1,2) clients by (simp add: fe_connected_def ring Let_def)
  moreover have "fe_base fe'" using f(2) u(1,2) by (simp add: fe_base_def fe'_def ring_wf_def)
  moreover have "UpdateRingState fe rs = Done fe'" using f(1,3) by (simp add: UpdateRingState_def fe'_def)
  ultimately show thesis using f(4) ring by (intro that [of fe']) (simp_all add: fe'_def fe_id_def)
qed

lemma connected_group:
  assumes "fe_connected fe" and "nodeList (fe_ring fe) \<noteq> []"
  obtains h where "getReplicaGroup (fe_ring fe) key = Some h"
    "handle_ids (fe_ring fe) h = take (max 1 (unat (replica_group_size (fe_ring fe))))
      (firsts {} (rotate (owner_index (nodeList (fe_ring fe)) (DBID key)) (map (\<lambda>v. node_id (heap (fe_ring fe) ! vn_n v)) (nodeList (fe_ring fe)))))"
    "\<forall>n \<in> set (nh_owner h # replicaGroup h). valid (heap (fe_ring fe) ! n)
      \<and> fe_clients fe (node_id (heap (fe_ring fe) ! n)) = Some (node_id (heap (fe_ring fe) ! n))"
proof -
  let ?r = "fe_ring fe"
  have c: "ring_wf ?r" "\<forall>n \<in> set (heap ?r). valid n"
    "\<forall>v \<in> set (nodeList ?r). fe_clients fe (node_id (heap ?r ! vn_n v)) = Some (node_id (heap ?r ! vn_n v))"
    using assms(1) by (simp_all add: fe_connected_def Let_def)
  then have w: "table_wf (heap ?r) (ip_node_map ?r)" "entries_wf (heap ?r) (ip_node_map ?r)" "\<forall>v \<in> set (nodeList ?r). vn_n v < length (heap ?r)"
    by (simp_all add: ring_wf_def entries_wf_def)
  obtain h where h: "getReplicaGroup ?r key = Some h"
    using assms(2) by (auto simp: getReplicaGroup_def replica_group_def Let_def)
  then have g: "replica_group (heap ?r) (nodeList ?r) (replica_group_size ?r) (DBID key) = Some h" by (simp add: getReplicaGroup_def)
  have "nh_owner h # replicaGroup h = take (max 1 (unat (replica_group_size ?r)))
      (firsts {} (map vn_n (rotate (owner_index (nodeList ?r) (DBID key)) (nodeList ?r))))"
    using table_wf_inj [OF w(1)] w(3) by (intro replica_group_firsts [OF _ assms(2) g]) auto
  then have "set (nh_owner h # replicaGroup h) \<subseteq> vn_n ` set (nodeList ?r)"
    by (simp only:) (rule subset_trans [OF set_take_subset], simp add: set_firsts)
  then have "\<forall>n \<in> set (nh_owner h # replicaGroup h). valid (heap ?r ! n)
      \<and> fe_clients fe (node_id (heap ?r ! n)) = Some (node_id (heap ?r ! n))"
    using c(2,3) w(3) by fastforce
  then show thesis by (intro that [OF h handle_ids_eq [OF w(2,3) g]])
qed

lemma put_route_chain:
  assumes "fe_connected fe" and "nodeList (fe_ring fe) \<noteq> []" and "getReplicaGroup (fe_ring fe) key = Some h"
    and "\<forall>n \<in> set (nh_owner h # replicaGroup h). valid (heap (fe_ring fe) ! n)
      \<and> fe_clients fe (node_id (heap (fe_ring fe) ! n)) = Some (node_id (heap (fe_ring fe) ! n))"
  shows "put_route fe key = Done (hd (handle_ids (fe_ring fe) h), of_nat (length (handle_ids (fe_ring fe) h)))"
  using assms by (simp add: put_route_def retrievePutTarget_live handle_ids_def deref_def)

lemma fe_get_chain:
  assumes "fe_connected fe" and "nodeList (fe_ring fe) \<noteq> []" and "getReplicaGroup (fe_ring fe) key = Some h"
    and "\<forall>n \<in> set (nh_owner h # replicaGroup h). valid (heap (fe_ring fe) ! n)
      \<and> fe_clients fe (node_id (heap (fe_ring fe) ! n)) = Some (node_id (heap (fe_ring fe) ! n))"
    and "replicaGroup h \<noteq> [] \<or> True \<notin> ran (vid_temptail_map (fe_ring fe)) \<and> True \<notin> ran (vid_shorter_map (fe_ring fe))"
  obtains fe' where "fe_get fe key c = Done fe'"
    "fe_sent fe' = fe_sent fe @ [(last (handle_ids (fe_ring fe) h), get key c (fe_id fe))]"
proof -
  let ?r = "fe_ring fe"
  have "ring_sorted (nodeList ?r)" using assms(1) by (simp add: fe_connected_def ring_wf_def)
  then obtain v where v: "getSuccessor (nodeList ?r) (DBID key) = Some v"
    using getSuccessor_Some [OF _ assms(2), of "DBID key"] by auto
  obtain tt m where t: "touch (take (unat DBID_LENGTH) (dbid_value (vn_id v))) (vid_temptail_map ?r) = (tt, m)" by fastforce
  let ?i = "tt \<or> vid_shorter_map ?r (getRangeKey ?r key) = Some True"
  have "replicaGroup h \<noteq> [] \<or> \<not> ?i" using assms(5) t by (auto simp: touch_def ran_def split: option.splits)
  then have g: "retrieveGetTarget (heap ?r) h ?i = Ret (last (nh_owner h # replicaGroup h))"
    using assms(4) by (intro retrieveGetTarget_live) auto
  have l: "node_id (heap ?r ! last (nh_owner h # replicaGroup h)) = last (handle_ids ?r h)"
    unfolding handle_ids_def by (simp add: last_map)
  have "fe_clients fe (last (handle_ids ?r h)) = Some (last (handle_ids ?r h))"
    using assms(4) unfolding l [symmetric] by (metis last_in_set list.distinct(1))
  then show thesis
    using assms(3) v t g l
    by (intro that [of "fe_send (fe\<lparr>fe_ring := ?r\<lparr>vid_temptail_map := m\<rparr>\<rparr>) (last (handle_ids ?r h)) (get key c (fe_id fe))"])
      (simp_all add: fe_get_def getSuccessorID_def deref_def fe_send_def fe_id_def del: last.simps)
qed

lemma UpdateState_flags:
  "temptails rs = [] \<Longrightarrow> shorters rs = [] \<Longrightarrow> entries_wf (heap r) (ip_node_map r) \<Longrightarrow>
    vid_temptail_map (UpdateState r rs) = Map.empty \<and> vid_shorter_map (UpdateState r rs) = Map.empty"
  using push_nodes_spec [of "r\<lparr>nodeList := [], vid_temptail_map := Map.empty, vid_shorter_map := Map.empty\<rparr>" "rs_nodes rs"]
  by (auto simp: UpdateState_def Let_def set_all_def simp del: push_nodes.simps)

lemma routes_along_chain:
  assumes "fe_base fe" and "rs_nodes rs \<noteq> []" and "ring_sorted (rs_vns rs)"
    and "\<forall>n \<in> set (rs_nodes rs). 58 \<notin> set (nd_ip n) \<and> fe_id fe \<noteq> getID (nd_ip n) (nd_port n)"
  obtains fe' where "UpdateRingState fe rs = Done fe'" "fe_id fe' = fe_id fe"
    "put_route fe' key = Done (hd (rs_chain rs key), of_nat (length (rs_chain rs key)))"
    "1 < length (rs_chain rs key) \<or> temptails rs = [] \<and> shorters rs = [] \<longrightarrow>
      (\<exists>fe''. fe_get fe' key c = Done fe'' \<and> fe_sent fe'' = fe_sent fe' @ [(last (rs_chain rs key), get key c (fe_id fe))])"
proof -
  obtain fe' where u: "UpdateRingState fe rs = Done fe'" "fe_connected fe'" "fe_base fe'" "fe_id fe' = fe_id fe"
    "fe_ring fe' = UpdateState (fe_ring fe) rs"
    by (rule UpdateRingState_connected [OF assms(1,4,3)])
  have b: "entries_wf (heap (fe_ring fe)) (ip_node_map (fe_ring fe))" "\<forall>n \<in> set (heap (fe_ring fe)). valid n"
    using assms(1) by (simp_all add: fe_base_def)
  note r = UpdateState_ring [OF b assms(3), folded u(5)]
  have ne: "nodeList (fe_ring fe') \<noteq> []" using r(3) assms(2) by (auto simp: rs_vns_def)
  obtain h where h: "getReplicaGroup (fe_ring fe') key = Some h"
    "handle_ids (fe_ring fe') h = take (max 1 (unat (replica_group_size (fe_ring fe'))))
      (firsts {} (rotate (owner_index (nodeList (fe_ring fe')) (DBID key)) (map (\<lambda>v. node_id (heap (fe_ring fe') ! vn_n v)) (nodeList (fe_ring fe')))))"
    "\<forall>n \<in> set (nh_owner h # replicaGroup h). valid (heap (fe_ring fe') ! n)
      \<and> fe_clients fe' (node_id (heap (fe_ring fe') ! n)) = Some (node_id (heap (fe_ring fe') ! n))"
    by (rule connected_group [OF u(2) ne])
  have ch: "handle_ids (fe_ring fe') h = rs_chain rs key"
    unfolding h(2) r(4,5) rs_chain_def by (simp add: owner_index_ids [OF r(3)])
  have len: "length (rs_chain rs key) = Suc (length (replicaGroup h))" unfolding ch [symmetric] handle_ids_def by simp
  have get: "\<exists>fe''. fe_get fe' key c = Done fe'' \<and> fe_sent fe'' = fe_sent fe' @ [(last (rs_chain rs key), get key c (fe_id fe))]"
    if *: "1 < length (rs_chain rs key) \<or> temptails rs = [] \<and> shorters rs = []"
  proof -
    have "replicaGroup h \<noteq> [] \<or> True \<notin> ran (vid_temptail_map (fe_ring fe')) \<and> True \<notin> ran (vid_shorter_map (fe_ring fe'))"
      using * len UpdateState_flags [OF _ _ b(1), of rs] u(5) by auto
    then obtain fe'' where "fe_get fe' key c = Done fe''"
      "fe_sent fe'' = fe_sent fe' @ [(last (handle_ids (fe_ring fe') h), get key c (fe_id fe'))]"
      by (rule fe_get_chain [OF u(2) ne h(1,3)])
    then show ?thesis using ch u(4) by simp
  qed
  show thesis
    by (rule that [OF u(1,4)]) (use put_route_chain [OF u(2) ne h(1,3)] ch get in simp_all)
qed

end
