(* ===== verification/Fe_Cache.thy ===== *)
theory Fe_Cache
  imports Dbid Outcome "HOL-Library.Signed_Division"
begin

text \<open>
  The two caches of the front end. \<^verbatim>\<open>Cache\<close> (\<^verbatim>\<open>fawnkv/fe_cache.h\<close>, \<^verbatim>\<open>fe_cache.cpp\<close>) is a pair of hash
  maps, a current and an old generation; it is shown to hold exactly the most recent insertions.
  \<^verbatim>\<open>MruCache\<close> (\<^verbatim>\<open>fawnkv/cache.h\<close>) is a list of entries with a map of iterators and a mutex.
\<close>

section \<open>The two-generation cache\<close>

record cache =
  old_table :: "bytes \<rightharpoonup> bytes"
  cur_table :: "bytes \<rightharpoonup> bytes"
  sizeCur :: u32
  sizeOld :: u32
  num_hits :: u32
  num_lookups :: u32
  sizeMax :: u32

definition Cache_new :: "u32 \<Rightarrow> cache" where
  "Cache_new m =
    \<lparr>old_table = Map.empty, cur_table = Map.empty, sizeCur = 0, sizeOld = 0, num_hits = 0, num_lookups = 0, sizeMax = m\<rparr>"

text \<open>Keys enter the tables as \<^verbatim>\<open>actual_data_str\<close> of the identifier, at most twenty bytes.\<close>

definition cache_lookup :: "cache \<Rightarrow> dbid \<Rightarrow> bytes option \<times> cache" where
  "cache_lookup c dkey =
    (let c = c\<lparr>num_lookups := num_lookups c + 1\<rparr>
     in case cur_table c (actual_data_str dkey) of
          Some v \<Rightarrow> (Some v, c\<lparr>num_hits := num_hits c + 1\<rparr>)
        | None \<Rightarrow>
            (case old_table c (actual_data_str dkey) of
               Some v \<Rightarrow> (Some v, c\<lparr>num_hits := num_hits c + 1\<rparr>)
             | None \<Rightarrow> (None, c)))"

definition cache_rotate :: "cache \<Rightarrow> cache" where
  "cache_rotate c = c\<lparr>sizeOld := sizeCur c, old_table := cur_table c, cur_table := Map.empty, sizeCur := 0\<rparr>"

definition cache_insert :: "cache \<Rightarrow> dbid \<Rightarrow> bytes \<Rightarrow> cache" where
  "cache_insert c dkey v =
    (let c = (if sint (sizeCur c) \<ge> sint (sizeMax c) sdiv 2 then cache_rotate c else c)
     in c\<lparr>cur_table := (cur_table c)(actual_data_str dkey \<mapsto> v), sizeCur := sizeCur c + 1\<rparr>)"

definition fe_cache_size :: "cache \<Rightarrow> u32" where
  "fe_cache_size c = sizeOld c + sizeCur c"

text \<open>A client of the cache inserts and looks up in any order.\<close>

datatype cache_op = Cache_Insert dbid bytes | Cache_Lookup dbid

fun cache_step :: "cache \<Rightarrow> cache_op \<Rightarrow> cache" where
  "cache_step c (Cache_Insert k v) = cache_insert c k v"
| "cache_step c (Cache_Lookup k) = snd (cache_lookup c k)"

definition cache_run :: "u32 \<Rightarrow> cache_op list \<Rightarrow> cache" where
  "cache_run m ops = foldl cache_step (Cache_new m) ops"

text \<open>The insertions of a run, oldest first, under the keys of the tables.\<close>

fun insertions :: "cache_op list \<Rightarrow> (bytes \<times> bytes) list" where
  "insertions [] = []"
| "insertions (Cache_Insert k v # ops) = (actual_data_str k, v) # insertions ops"
| "insertions (Cache_Lookup k # ops) = insertions ops"

lemma insertions_append [simp]: "insertions (xs @ ys) = insertions xs @ insertions ys"
  by (induction xs rule: insertions.induct) auto

text \<open>A generation holds \<open>gen_size\<close> insertions: half the capacity, and one when the capacity is below
  two.\<close>

definition gen_size :: "u32 \<Rightarrow> nat" where
  "gen_size m = max 1 (unat m div 2)"

text \<open>The two generations are the last two runs of insertions.\<close>

definition cache_rep :: "u32 \<Rightarrow> (bytes \<times> bytes) list \<Rightarrow> cache \<Rightarrow> bool" where
  "cache_rep m hist c \<longleftrightarrow> sizeMax c = m \<and>
    (\<exists>xs ys zs. hist = xs @ ys @ zs \<and> old_table c = map_of (rev ys) \<and> cur_table c = map_of (rev zs)
      \<and> sizeCur c = of_nat (length zs) \<and> sizeOld c = of_nat (length ys)
      \<and> length zs \<le> gen_size m \<and> length ys \<le> gen_size m \<and> (length ys < gen_size m \<or> zs = [] \<longrightarrow> xs = [] \<and> ys = []))"

lemma cache_repI:
  assumes "sizeMax c = m" "hist = xs @ ys @ zs" "old_table c = map_of (rev ys)" "cur_table c = map_of (rev zs)"
    "sizeCur c = of_nat (length zs)" "sizeOld c = of_nat (length ys)"
    "length zs \<le> gen_size m" "length ys \<le> gen_size m" "length ys < gen_size m \<or> zs = [] \<Longrightarrow> xs = [] \<and> ys = []"
  shows "cache_rep m hist c"
  unfolding cache_rep_def using assms by blast

lemma cache_rep_new: "cache_rep m [] (Cache_new m)"
  by (auto simp: cache_rep_def Cache_new_def)

lemma cache_rep_lookup: "cache_rep m hist c \<Longrightarrow> cache_rep m hist (snd (cache_lookup c k))"
  by (auto simp: cache_rep_def cache_lookup_def Let_def split: option.splits)

lemma sint_small: "n < 2147483648 \<Longrightarrow> sint (of_nat n :: u32) = int n"
  by (simp add: signed_of_nat signed_take_bit_int_eq_self)

lemma sint_nonneg: "0 \<le> sint w \<Longrightarrow> sint w = int (unat (w :: u32))"
  using sint_lt [of w] by (simp add: uint_sint take_bit_int_eq_self)

lemma gen_full:
  assumes "0 \<le> sint m" and "n \<le> gen_size m"
  shows "sint m sdiv 2 \<le> sint (of_nat n :: u32) \<longleftrightarrow> n = gen_size m \<or> unat m < 2"
proof -
  have m: "sint m = int (unat m)" using assms(1) by (rule sint_nonneg)
  moreover have "sint m < 2147483648" using sint_lt [of m] by simp
  ultimately have small: "unat m < 2147483648" by linarith
  then have "n < 2147483648" using assms(2) by (simp add: gen_size_def)
  then have s: "sint (of_nat n :: u32) = int n" by (rule sint_small)
  have "int k sdiv 2 = int (k div 2)" for k by (simp add: signed_divide_int_def zdiv_int sgn_if)
  then have d: "sint m sdiv 2 = int (unat m div 2)" unfolding m .
  show ?thesis unfolding s d using assms(2) by (auto simp: gen_size_def)
qed

text \<open>An insertion extends the current generation or, when it is full, starts a new one.\<close>

lemma cache_insert_full:
  "sint (sizeMax c) sdiv 2 \<le> sint (sizeCur c) \<Longrightarrow> cache_insert c k v =
    c\<lparr>sizeOld := sizeCur c, old_table := cur_table c, cur_table := [actual_data_str k \<mapsto> v], sizeCur := 1\<rparr>"
  by (simp add: cache_insert_def cache_rotate_def)

lemma cache_insert_room:
  "\<not> sint (sizeMax c) sdiv 2 \<le> sint (sizeCur c) \<Longrightarrow> cache_insert c k v =
    c\<lparr>cur_table := (cur_table c)(actual_data_str k \<mapsto> v), sizeCur := sizeCur c + 1\<rparr>"
  by (simp add: cache_insert_def)

lemma cache_rep_insert:
  assumes m: "0 \<le> sint m" and c: "cache_rep m hist c"
  shows "cache_rep m (hist @ [(actual_data_str k, v)]) (cache_insert c k v)"
proof -
  from c obtain xs ys zs where r: "sizeMax c = m" "hist = xs @ ys @ zs" "old_table c = map_of (rev ys)" "cur_table c = map_of (rev zs)"
    "sizeCur c = of_nat (length zs)" "sizeOld c = of_nat (length ys)"
    "length zs \<le> gen_size m" "length ys \<le> gen_size m" "length ys < gen_size m \<or> zs = [] \<longrightarrow> xs = [] \<and> ys = []"
    unfolding cache_rep_def by blast
  note full = gen_full [OF m r(7)]
  show ?thesis
  proof (cases "sint (sizeMax c) sdiv 2 \<le> sint (sizeCur c)")
    case True
    then have z: "length zs = gen_size m \<or> unat m < 2" using full r(1,5) by simp
    then have z: "length zs < gen_size m \<Longrightarrow> xs = [] \<and> ys = [] \<and> zs = []"
      using r(7,9) by (auto simp: gen_size_def)
    show ?thesis
      unfolding cache_insert_full [OF True]
      by (rule cache_repI [where xs = "xs @ ys" and ys = zs and zs = "[(actual_data_str k, v)]"])
        (use r z in \<open>simp_all add: gen_size_def\<close>)
  next
    case False
    then have "length zs < gen_size m" using full r(1,5,7) by simp
    then show ?thesis
      unfolding cache_insert_room [OF False]
      by (intro cache_repI [where xs = xs and ys = ys and zs = "zs @ [(actual_data_str k, v)]"]) (use r in simp_all)
  qed
qed

lemma cache_run_rep: "0 \<le> sint m \<Longrightarrow> cache_rep m (insertions ops) (cache_run m ops)"
proof (induction ops rule: rev_induct)
  case Nil
  then show ?case by (simp add: cache_run_def cache_rep_new)
next
  case (snoc op ops)
  then show ?case
    by (cases op) (auto simp: cache_run_def cache_rep_insert cache_rep_lookup)
qed

lemma cache_rep_lookup_map:
  assumes "cache_rep m hist c"
  obtains n where "fst (cache_lookup c k) = map_of (rev (drop (length hist - n) hist)) (actual_data_str k)"
    and "min (length hist) (gen_size m) \<le> n" and "n \<le> 2 * gen_size m" and "n \<le> length hist" and "fe_cache_size c = of_nat n"
proof -
  from assms obtain xs ys zs where r: "hist = xs @ ys @ zs" "old_table c = map_of (rev ys)" "cur_table c = map_of (rev zs)"
    "sizeCur c = of_nat (length zs)" "sizeOld c = of_nat (length ys)"
    "length zs \<le> gen_size m" "length ys \<le> gen_size m" "length ys < gen_size m \<or> zs = [] \<longrightarrow> xs = [] \<and> ys = []"
    unfolding cache_rep_def by blast
  have l: "fst (cache_lookup c k) = map_of (rev (ys @ zs)) (actual_data_str k)"
    using r(2,3) by (auto simp: cache_lookup_def Let_def map_add_def split: option.splits)
  show thesis
    by (rule that [of "length (ys @ zs)"]) (use l r in \<open>auto simp: fe_cache_size_def\<close>)
qed

section \<open>The list cache\<close>

text \<open>
  A node of the \<^verbatim>\<open>std::list\<close> has an identity, so that an iterator can name it. A key of the map may be
  bound to a null iterator: \<^verbatim>\<open>operator[]\<close> enters one for every key it does not find.
\<close>

record mru_entry =
  node_ident :: nat
  entry_key :: bytes
  entry_value :: bytes

record mru_cache =
  maxLength :: u32
  listOfEntries :: "mru_entry list"
  mapOfListIteratorPtr :: "bytes \<rightharpoonup> nat option"
  next_node :: nat
  cache_mutex :: bool

definition MruCache :: "u32 \<Rightarrow> mru_cache" where
  "MruCache n = \<lparr>maxLength = n, listOfEntries = [], mapOfListIteratorPtr = Map.empty, next_node = 0, cache_mutex = False\<rparr>"

definition lock_cache :: "mru_cache \<Rightarrow> mru_cache run" where
  "lock_cache c = (if cache_mutex c then Deadlock else Done (c\<lparr>cache_mutex := True\<rparr>))"

definition unlock_cache :: "mru_cache \<Rightarrow> mru_cache" where
  "unlock_cache c = c\<lparr>cache_mutex := False\<rparr>"

text \<open>\<^verbatim>\<open>mapOfListIteratorPtr[key]\<close>.\<close>

definition itr_at :: "mru_cache \<Rightarrow> bytes \<Rightarrow> nat option \<times> mru_cache" where
  "itr_at c key =
    (case mapOfListIteratorPtr c key of
       Some p \<Rightarrow> (p, c)
     | None \<Rightarrow> (None, c\<lparr>mapOfListIteratorPtr := (mapOfListIteratorPtr c)(key \<mapsto> None)\<rparr>))"

definition entry_at :: "mru_cache \<Rightarrow> nat \<Rightarrow> mru_entry option" where
  "entry_at c i = find (\<lambda>e. node_ident e = i) (listOfEntries c)"

text \<open>A string built from \<^verbatim>\<open>c_str()\<close> ends at the first null byte.\<close>

definition c_str :: "bytes \<Rightarrow> bytes" where
  "c_str s = takeWhile (\<lambda>b. b \<noteq> 0) s"

definition FetchItem :: "mru_cache \<Rightarrow> bytes \<Rightarrow> (bytes option \<times> mru_cache) run" where
  "FetchItem c key =
    bind_run (lock_cache c) (\<lambda>c.
      case itr_at c key of
        (None, c) \<Rightarrow> Done (None, c)
      | (Some i, c) \<Rightarrow>
          bind_run (deref (entry_at c i)) (\<lambda>e. Done (Some (c_str (entry_value e)), unlock_cache c)))"

definition Invalidate :: "mru_cache \<Rightarrow> bytes \<Rightarrow> mru_cache run" where
  "Invalidate c key =
    bind_run (lock_cache c) (\<lambda>c.
      case itr_at c key of
        (None, c) \<Rightarrow> Done (unlock_cache c)
      | (Some i, c) \<Rightarrow>
          bind_run (deref (entry_at c i)) (\<lambda>e.
            Done (unlock_cache (c\<lparr>listOfEntries := filter (\<lambda>e. node_ident e \<noteq> i) (listOfEntries c),
                                  mapOfListIteratorPtr := (mapOfListIteratorPtr c)(key := None)\<rparr>))))"

text \<open>The last entry leaves a full list; \<^verbatim>\<open>back()\<close> of an empty list is undefined.\<close>

definition evict_last :: "mru_cache \<Rightarrow> mru_cache run" where
  "evict_last c =
    (if sint (maxLength c) \<le> int (length (listOfEntries c)) then
       if listOfEntries c = [] then Crash
       else Done (c\<lparr>listOfEntries := butlast (listOfEntries c),
                    mapOfListIteratorPtr := (mapOfListIteratorPtr c)(entry_key (last (listOfEntries c)) := None)\<rparr>)
     else Done c)"

definition AddItem :: "mru_cache \<Rightarrow> bytes \<Rightarrow> bytes \<Rightarrow> mru_cache run" where
  "AddItem c key v =
    bind_run (lock_cache c) (\<lambda>c.
      case itr_at c key of
        (Some i, c) \<Rightarrow> Done (unlock_cache c)
      | (None, c) \<Rightarrow>
          bind_run (evict_last c) (\<lambda>c.
            Done (unlock_cache
              (c\<lparr>listOfEntries := \<lparr>node_ident = next_node c, entry_key = key, entry_value = c_str v\<rparr> # listOfEntries c,
                 next_node := next_node c + 1,
                 mapOfListIteratorPtr := (mapOfListIteratorPtr c)(key \<mapsto> Some (next_node c))\<rparr>))))"

definition Clear :: "mru_cache \<Rightarrow> mru_cache" where
  "Clear c = c\<lparr>listOfEntries := [], mapOfListIteratorPtr := Map.empty\<rparr>"

text \<open>The calls of a client, and a run of them.\<close>

datatype mru_op = Fetch bytes | Evict bytes | Add bytes bytes | Clear_All

fun mru_step :: "mru_cache \<Rightarrow> mru_op \<Rightarrow> mru_cache run" where
  "mru_step c (Fetch k) = bind_run (FetchItem c k) (\<lambda>(r, c). Done c)"
| "mru_step c (Evict k) = Invalidate c k"
| "mru_step c (Add k v) = AddItem c k v"
| "mru_step c Clear_All = Done (Clear c)"

fun mru_run :: "mru_cache \<Rightarrow> mru_op list \<Rightarrow> mru_cache run" where
  "mru_run c [] = Done c"
| "mru_run c (op # ops) = bind_run (mru_step c op) (\<lambda>c. mru_run c ops)"

section \<open>The map and the list agree\<close>

text \<open>The non-null iterators of the map, and the nodes of the list by their keys.\<close>

definition live_itrs :: "(bytes \<rightharpoonup> nat option) \<Rightarrow> (bytes \<rightharpoonup> nat)" where
  "live_itrs m = (\<lambda>key. case m key of Some p \<Rightarrow> p | None \<Rightarrow> None)"

definition node_map :: "mru_entry list \<Rightarrow> (bytes \<rightharpoonup> nat)" where
  "node_map es = map_of (map (\<lambda>e. (entry_key e, node_ident e)) es)"

lemma live_itrs_simps [simp]:
  "live_itrs Map.empty = Map.empty"
  "live_itrs (m(key := None)) = (live_itrs m)(key := None)"
  "live_itrs (m(key \<mapsto> p)) = (live_itrs m)(key := p)"
  by (auto simp: live_itrs_def)

lemma node_map_simps [simp]:
  "node_map [] = Map.empty"
  "node_map (e # es) = (node_map es)(entry_key e \<mapsto> node_ident e)"
  by (simp_all add: node_map_def)

lemma node_map_None: "node_map es key = None \<longleftrightarrow> key \<notin> entry_key ` set es"
  by (induction es) auto

lemma node_map_remove:
  "distinct (map entry_key es) \<Longrightarrow> distinct (map node_ident es) \<Longrightarrow> node_map es key = Some i \<Longrightarrow>
    node_map (filter (\<lambda>e. node_ident e \<noteq> i) es) = (node_map es)(key := None)"
proof (induction es)
  case (Cons e es)
  show ?case
  proof (cases "entry_key e = key")
    case True
    then have "\<forall>x \<in> set es. node_ident x \<noteq> i" "node_map es key = None"
      using Cons.prems by (force, simp add: node_map_None)
    then have "filter (\<lambda>e. node_ident e \<noteq> i) es = es" "node_map es key = None" by (auto simp: filter_id_conv)
    then show ?thesis using True Cons.prems by (auto simp: fun_upd_idem)
  next
    case False
    then have m: "node_map es key = Some i" using Cons.prems by simp
    then have "i \<in> node_ident ` set es" unfolding node_map_def by (auto dest!: map_of_SomeD)
    then show ?thesis using False Cons m by (auto simp: fun_upd_twist)
  qed
qed simp

lemma node_map_butlast:
  assumes "distinct (map entry_key es)" and "es \<noteq> []"
  shows "node_map (butlast es) = (node_map es)(entry_key (last es) := None)"
proof -
  obtain xs x where es: "es = xs @ [x]" using assms(2) by (metis rev_exhaust)
  have "node_map xs (entry_key x) = None" using assms(1) by (auto simp: es node_map_None)
  then show ?thesis by (auto simp: es node_map_def map_add_def split: option.splits)
qed

definition mru_inv :: "mru_cache \<Rightarrow> bool" where
  "mru_inv c \<longleftrightarrow>
    distinct (map node_ident (listOfEntries c)) \<and> distinct (map entry_key (listOfEntries c))
    \<and> (\<forall>e \<in> set (listOfEntries c). node_ident e < next_node c)
    \<and> live_itrs (mapOfListIteratorPtr c) = node_map (listOfEntries c)
    \<and> 0 < sint (maxLength c) \<and> int (length (listOfEntries c)) \<le> sint (maxLength c)"

lemma mru_inv_new: "0 < sint n \<Longrightarrow> mru_inv (MruCache n)"
  by (simp add: mru_inv_def MruCache_def)

lemma lock_cache_Done [simp]: "lock_cache c = Done c' \<longleftrightarrow> \<not> cache_mutex c \<and> c' = c\<lparr>cache_mutex := True\<rparr>"
  by (auto simp: lock_cache_def)

lemma lock_cache_not_Crash [simp]: "lock_cache c \<noteq> Crash" "lock_cache c \<noteq> Loops"
  by (simp_all add: lock_cache_def)

lemma mru_inv_mutex [simp]: "mru_inv (c\<lparr>cache_mutex := b\<rparr>) = mru_inv c" "mru_inv (unlock_cache c) = mru_inv c"
  by (simp_all add: mru_inv_def unlock_cache_def)

lemma itr_at_inv:
  assumes "itr_at c key = (p, c')" and "mru_inv c"
  shows "mru_inv c'" "node_map (listOfEntries c) key = p" "listOfEntries c' = listOfEntries c" "cache_mutex c' = cache_mutex c"
proof -
  have "(case mapOfListIteratorPtr c key of Some p \<Rightarrow> p | None \<Rightarrow> None) = node_map (listOfEntries c) key"
    using assms(2) by (metis live_itrs_def mru_inv_def)
  then show "mru_inv c'" "node_map (listOfEntries c) key = p" "listOfEntries c' = listOfEntries c" "cache_mutex c' = cache_mutex c"
    using assms by (auto simp: itr_at_def mru_inv_def fun_upd_idem split: option.splits)
qed

lemma entry_at_inv:
  assumes "mru_inv c" and "node_map (listOfEntries c) key = Some i"
  obtains e where "entry_at c i = Some e" "entry_key e = key"
proof -
  from assms(2) obtain e where e: "e \<in> set (listOfEntries c)" "entry_key e = key" "node_ident e = i"
    unfolding node_map_def by (auto dest!: map_of_SomeD)
  obtain e' where e': "entry_at c i = Some e'"
    using e by (cases "entry_at c i") (auto simp: entry_at_def find_None_iff)
  then have "e' \<in> set (listOfEntries c)" "node_ident e' = i" by (auto simp: entry_at_def find_Some_iff)
  with e assms(1) have "e' = e" by (metis distinct_map inj_on_eq_iff mru_inv_def)
  with e e' show thesis by (intro that) simp_all
qed

lemma mru_inv_evict:
  assumes "mru_inv c" and "node_map (listOfEntries c) key = Some i"
  shows "mru_inv (c\<lparr>listOfEntries := filter (\<lambda>e. node_ident e \<noteq> i) (listOfEntries c),
    mapOfListIteratorPtr := (mapOfListIteratorPtr c)(key := None)\<rparr>)"
proof -
  have "length (filter (\<lambda>e. node_ident e \<noteq> i) (listOfEntries c)) \<le> length (listOfEntries c)" by (rule length_filter_le)
  then have "int (length (filter (\<lambda>e. node_ident e \<noteq> i) (listOfEntries c))) \<le> sint (maxLength c)"
    using assms(1) unfolding mru_inv_def by linarith
  then show ?thesis using assms by (simp add: mru_inv_def distinct_map_filter node_map_remove)
qed

lemma mru_inv_pop:
  assumes "mru_inv c" and "listOfEntries c \<noteq> []"
  shows "mru_inv (c\<lparr>listOfEntries := butlast (listOfEntries c),
    mapOfListIteratorPtr := (mapOfListIteratorPtr c)(entry_key (last (listOfEntries c)) := None)\<rparr>)"
  using assms by (auto simp: mru_inv_def node_map_butlast map_butlast distinct_butlast dest: in_set_butlastD)

lemma mru_inv_push:
  assumes "mru_inv c" and "node_map (listOfEntries c) key = None" and "int (length (listOfEntries c)) < sint (maxLength c)"
  shows "mru_inv (c\<lparr>listOfEntries := \<lparr>node_ident = next_node c, entry_key = key, entry_value = w\<rparr> # listOfEntries c,
    next_node := next_node c + 1, mapOfListIteratorPtr := (mapOfListIteratorPtr c)(key \<mapsto> Some (next_node c))\<rparr>)"
  using assms by (auto simp: mru_inv_def node_map_None less_SucI)

lemma evict_last_inv:
  assumes "mru_inv c"
  obtains c' where "evict_last c = Done c'" "mru_inv c'" "int (length (listOfEntries c')) < sint (maxLength c')"
    "\<And>key. node_map (listOfEntries c) key = None \<Longrightarrow> node_map (listOfEntries c') key = None"
proof (cases "sint (maxLength c) \<le> int (length (listOfEntries c))")
  case True
  then have ne: "listOfEntries c \<noteq> []" using assms by (auto simp: mru_inv_def)
  show thesis
    by (rule that [OF _ mru_inv_pop [OF assms ne]])
      (use True ne assms in \<open>auto simp: evict_last_def mru_inv_def node_map_butlast\<close>)
next
  case False
  then show thesis using assms by (intro that) (auto simp: evict_last_def)
qed

text \<open>No call on a well-formed cache crashes or loops, and each keeps the cache well formed.\<close>

lemma mru_step_inv:
  assumes "mru_inv c"
  shows "mru_step c op = Deadlock \<or> (\<exists>c'. mru_step c op = Done c' \<and> mru_inv c')"
proof (cases "op = Clear_All \<or> cache_mutex c")
  case True
  then show ?thesis
    using assms by (cases op) (auto simp: FetchItem_def Invalidate_def AddItem_def lock_cache_def Clear_def mru_inv_def)
next
  case False
  define d where "d = c\<lparr>cache_mutex := True\<rparr>"
  have l: "lock_cache c = Done d" using False by (simp add: d_def)
  have d: "mru_inv d" using assms by (simp add: d_def)
  obtain key where key: "op = Fetch key \<or> op = Evict key \<or> (\<exists>v. op = Add key v)" using False by (cases op) auto
  obtain p c1 where i: "itr_at d key = (p, c1)" by fastforce
  note c1 = itr_at_inv [OF i d]
  show ?thesis
  proof (cases p)
    case None
    obtain c2 where "evict_last c1 = Done c2" "mru_inv c2" "int (length (listOfEntries c2)) < sint (maxLength c2)"
      "node_map (listOfEntries c2) key = None"
      using evict_last_inv [OF c1(1)] c1(2,3) None by metis
    then show ?thesis
      using key l i None c1(1) by (auto simp: FetchItem_def Invalidate_def AddItem_def simp del: lock_cache_Done intro: mru_inv_push [simplified])
  next
    case (Some j)
    then have m: "node_map (listOfEntries c1) key = Some j" using c1(2,3) by simp
    obtain e where "entry_at c1 j = Some e" using entry_at_inv [OF c1(1) m] .
    then show ?thesis
      using key l i Some c1(1) m
      by (auto simp: FetchItem_def Invalidate_def AddItem_def deref_def simp del: lock_cache_Done intro: mru_inv_evict)
  qed
qed

lemma mru_run_inv: "mru_inv c \<Longrightarrow> mru_run c ops = Deadlock \<or> (\<exists>c'. mru_run c ops = Done c' \<and> mru_inv c')"
proof (induction ops arbitrary: c)
  case (Cons op ops)
  show ?case using mru_step_inv [OF Cons.prems, of op] Cons.IH by (elim disjE exE conjE) simp_all
qed simp

lemma mru_locked_step: "cache_mutex c \<Longrightarrow> op \<noteq> Clear_All \<Longrightarrow> mru_step c op = Deadlock"
  by (cases op) (simp_all add: FetchItem_def Invalidate_def AddItem_def lock_cache_def)

lemma mru_step_maxLength: "mru_step c op = Done c' \<Longrightarrow> maxLength c' = maxLength c"
  by (cases op)
    (auto simp: FetchItem_def Invalidate_def AddItem_def itr_at_def evict_last_def unlock_cache_def Clear_def
      split: option.splits if_splits prod.splits)

lemma mru_run_maxLength: "mru_run c ops = Done c' \<Longrightarrow> maxLength c' = maxLength c"
  by (induction ops arbitrary: c) (auto dest: mru_step_maxLength)

end
