(* ===== verification/Server_Handler.thy ===== *)
theory Server_Handler
  imports Frontend Fe_Cache
begin

text \<open>
  The front-end server (\<^verbatim>\<open>fawnkv/FawnKVServerHandler.h\<close>, \<^verbatim>\<open>FawnKVServerHandler.cpp\<close>): clients register
  and send requests, which the server numbers and hands to the \<^verbatim>\<open>FrontEnd\<close>; an answer comes back as a
  callback with that number and is sent to the client under the client's own continuation. A cache
  may answer gets.
\<close>

section \<open>State\<close>

text \<open>\<^verbatim>\<open>ClientData\<close>: the connection back to the client, by its address, and the client's continuations by
  request number.\<close>

record client_data =
  cd_addr :: "bytes \<times> u32"
  req_cont_map :: "u64 \<rightharpoonup> u64"

definition addContinuation :: "client_data \<Rightarrow> u64 \<Rightarrow> u64 \<Rightarrow> client_data" where
  "addContinuation cd continuation req = cd\<lparr>req_cont_map := (req_cont_map cd)(req \<mapsto> continuation)\<rparr>"

text \<open>\<^verbatim>\<open>operator[]\<close> of the map gives, and enters, zero for a request it does not find.\<close>

definition getContinuation :: "client_data \<Rightarrow> u64 \<Rightarrow> u64 \<times> client_data" where
  "getContinuation cd req =
    (case req_cont_map cd req of Some c \<Rightarrow> (c, cd) | None \<Rightarrow> (0, cd\<lparr>req_cont_map := (req_cont_map cd)(req \<mapsto> 0)\<rparr>))"

definition removeContinuation :: "client_data \<Rightarrow> u64 \<Rightarrow> client_data" where
  "removeContinuation cd req = cd\<lparr>req_cont_map := (req_cont_map cd)(req := None)\<rparr>"

text \<open>A pointer to a \<^verbatim>\<open>ClientData\<close> is an index into the list of those allocated. \<^verbatim>\<open>req_client_map\<close> is
  keyed by \<^verbatim>\<open>unsigned int\<close>.\<close>

record server =
  frontend :: front_end
  srv_cache :: "cache option"
  clients :: "client_data list"
  cid_client_map :: "u32 \<rightharpoonup> nat"
  req_client_map :: "u32 \<rightharpoonup> nat"
  clientID :: u32
  reqNumber :: u64
  p_mutex :: bool
  app_sent :: "((bytes \<times> u32) \<times> app_msg) list"

definition Server_new :: "front_end \<Rightarrow> cache option \<Rightarrow> server" where
  "Server_new fe c =
    \<lparr>frontend = register_cbs fe, srv_cache = c, clients = [], cid_client_map = Map.empty, req_client_map = Map.empty,
     clientID = 0, reqNumber = 0, p_mutex = False, app_sent = []\<rparr>"

definition with_p_mutex :: "server \<Rightarrow> (server \<Rightarrow> server run) \<Rightarrow> server run" where
  "with_p_mutex s f =
    (if p_mutex s then Deadlock
     else bind_run (f (s\<lparr>p_mutex := True\<rparr>)) (\<lambda>s. Done (s\<lparr>p_mutex := False\<rparr>)))"

definition answer :: "server \<Rightarrow> nat \<Rightarrow> app_msg \<Rightarrow> server" where
  "answer s i x = s\<lparr>app_sent := app_sent s @ [(cd_addr (clients s ! i), x)]\<rparr>"

definition update_client :: "server \<Rightarrow> nat \<Rightarrow> client_data \<Rightarrow> server" where
  "update_client s i cd = s\<lparr>clients := (clients s)[i := cd]\<rparr>"

section \<open>Requests\<close>

definition get_client :: "server \<Rightarrow> u32 \<Rightarrow> nat option" where
  "get_client s cid = cid_client_map s cid"

definition srv_init :: "server \<Rightarrow> bytes \<Rightarrow> u32 \<Rightarrow> u32 \<times> server" where
  "srv_init s ip p =
    (clientID s,
     s\<lparr>clients := clients s @ [\<lparr>cd_addr = (ip, p), req_cont_map = Map.empty\<rparr>],
       cid_client_map := (cid_client_map s)(clientID s \<mapsto> length (clients s)),
       clientID := clientID s + 1\<rparr>)"

text \<open>\<^verbatim>\<open>cd->addContinuation(continuation, ss); req_client_map[ss] = cd\<close>, with the dereference of the client.\<close>

definition enter_request :: "server \<Rightarrow> u32 \<Rightarrow> u64 \<Rightarrow> u64 \<Rightarrow> server run" where
  "enter_request s cid continuation ss =
    bind_run (deref (get_client s cid)) (\<lambda>i.
      Done ((update_client s i (addContinuation (clients s ! i) continuation ss))
        \<lparr>req_client_map := (req_client_map s)(ucast ss \<mapsto> i)\<rparr>))"

definition run_frontend :: "server \<Rightarrow> (front_end \<Rightarrow> front_end run) \<Rightarrow> server run" where
  "run_frontend s f = bind_run (f (frontend s)) (\<lambda>fe. Done (s\<lparr>frontend := fe\<rparr>))"

definition srv_cached :: "server \<Rightarrow> bytes \<Rightarrow> bytes option \<times> server" where
  "srv_cached s key =
    (case srv_cache s of
       None \<Rightarrow> (None, s)
     | Some c \<Rightarrow> let (r, c) = cache_lookup c (DBID key) in (r, s\<lparr>srv_cache := Some c\<rparr>))"

definition srv_get :: "server \<Rightarrow> bytes \<Rightarrow> u64 \<Rightarrow> u32 \<Rightarrow> server run" where
  "srv_get s key continuation cid =
    with_p_mutex s (\<lambda>s.
      let ss = reqNumber s; s = s\<lparr>reqNumber := ss + 1\<rparr>
      in case srv_cached s key of
           (Some v, s) \<Rightarrow> bind_run (deref (get_client s cid)) (\<lambda>i. Done (answer s i (app_get_response v continuation)))
         | (None, s) \<Rightarrow>
             bind_run (enter_request s cid continuation ss) (\<lambda>s. run_frontend s (\<lambda>fe. fe_get fe key ss)))"

definition srv_put :: "server \<Rightarrow> bytes \<Rightarrow> bytes \<Rightarrow> u64 \<Rightarrow> u32 \<Rightarrow> server run" where
  "srv_put s key v continuation cid =
    with_p_mutex s (\<lambda>s.
      let ss = reqNumber s; s = s\<lparr>reqNumber := ss + 1\<rparr>
      in bind_run (enter_request s cid continuation ss) (\<lambda>s.
           bind_run (run_frontend s (\<lambda>fe. fe_put fe key v ss)) (\<lambda>s.
             Done (s\<lparr>srv_cache := map_option (\<lambda>c. cache_insert c (DBID key) v) (srv_cache s)\<rparr>))))"

text \<open>
  \<^verbatim>\<open>remove\<close> numbers and enters the request without the mutex and takes it around the call of the front end only,
  so that requests of other threads may come in between.
\<close>

definition srv_remove_enter :: "server \<Rightarrow> u64 \<Rightarrow> u32 \<Rightarrow> (u64 \<times> server) run" where
  "srv_remove_enter s continuation cid =
    (let ss = reqNumber s; s = s\<lparr>reqNumber := ss + 1\<rparr>
     in bind_run (enter_request s cid continuation ss) (\<lambda>s. Done (ss, s)))"

definition srv_remove_send :: "server \<Rightarrow> bytes \<Rightarrow> u64 \<Rightarrow> server run" where
  "srv_remove_send s key ss = with_p_mutex s (\<lambda>s. run_frontend s (\<lambda>fe. fe_remove fe key ss))"

definition srv_remove :: "server \<Rightarrow> bytes \<Rightarrow> u64 \<Rightarrow> u32 \<Rightarrow> server run" where
  "srv_remove s key continuation cid =
    bind_run (srv_remove_enter s continuation cid) (\<lambda>(ss, s). srv_remove_send s key ss)"

section \<open>Callbacks\<close>

text \<open>The body \<^verbatim>\<open>put_cb\<close> and \<^verbatim>\<open>get_cb\<close> share: the \<^verbatim>\<open>unsigned int\<close> continuation finds the client, and
  widened to \<^verbatim>\<open>int64_t\<close> the client's own continuation. An unknown number gives a null client.\<close>

definition call_client :: "server \<Rightarrow> u32 \<Rightarrow> (u64 \<Rightarrow> app_msg) \<Rightarrow> server run" where
  "call_client s continuation x =
    with_p_mutex s (\<lambda>s.
      bind_run (deref (req_client_map s continuation)) (\<lambda>i.
        let (c, cd) = getContinuation (clients s ! i) (ucast continuation);
            cd = removeContinuation cd (ucast continuation)
        in Done (answer (update_client s i cd) i (x c))))"

definition put_cb :: "server \<Rightarrow> u32 \<Rightarrow> server run" where
  "put_cb s continuation = call_client s continuation app_put_response"

text \<open>\<^verbatim>\<open>get_cb\<close> does not look at \<open>success\<close>.\<close>

definition get_cb :: "server \<Rightarrow> dbid \<Rightarrow> bytes \<Rightarrow> u32 \<Rightarrow> bool \<Rightarrow> server run" where
  "get_cb s p_key p_value continuation success = call_client s continuation (app_get_response p_value)"

text \<open>\<^verbatim>\<open>put_w_cb\<close> ends the process.\<close>

fun run_call :: "server \<Rightarrow> fe_call \<Rightarrow> server run" where
  "run_call s (call_put_cb c) = put_cb s c"
| "run_call s (call_put_w_cb c version) = Crash"
| "run_call s (call_get_cb k v c success) = get_cb s k v c success"

text \<open>An answer from a back end: the front end's handler, then the callback it makes.\<close>

definition take_call :: "front_end \<Rightarrow> fe_call list \<times> front_end" where
  "take_call fe = (fe_calls fe, fe\<lparr>fe_calls := []\<rparr>)"

definition after_frontend :: "server \<Rightarrow> front_end run \<Rightarrow> server run" where
  "after_frontend s r =
    bind_run r (\<lambda>fe.
      case take_call fe of
        ([], fe) \<Rightarrow> Done (s\<lparr>frontend := fe\<rparr>)
      | (c # cs, fe) \<Rightarrow> run_call (s\<lparr>frontend := fe\<rparr>) c)"

fun srv_response :: "server \<Rightarrow> ring_state \<Rightarrow> frontend_msg \<Rightarrow> server run" where
  "srv_response s rs (put_response key c success ip) = after_frontend s (fe_put_response (frontend s) key c success ip)"
| "srv_response s rs (put_w_response key c success version ip) = after_frontend s (fe_put_w_response (frontend s) key c success version ip)"
| "srv_response s rs (get_response key v c status ip) = after_frontend s (fe_get_response (frontend s) rs key v c status ip)"
| "srv_response s rs (remove_response key c success ip) = after_frontend s (fe_remove_response (frontend s) key c success ip)"

section \<open>The server as a sequence of events\<close>

text \<open>
  The handlers run on threads of their own. What happens under the mutex is one event; a removal is one event or its
  two halves, with other events in between. (The first half changes the maps while another thread may hold the
  mutex: that the C++ maps survive this is taken for granted.)
\<close>

datatype srv_event =
    Init bytes u32
  | Get_Request bytes u64 u32
  | Put_Request bytes bytes u64 u32
  | Remove_Request bytes u64 u32
  | Remove_Enter u64 u32
  | Remove_Send bytes u64
  | Response ring_state frontend_msg

fun srv_step :: "server \<Rightarrow> srv_event \<Rightarrow> server run" where
  "srv_step s (Init ip p) = Done (snd (srv_init s ip p))"
| "srv_step s (Get_Request key c cid) = srv_get s key c cid"
| "srv_step s (Put_Request key v c cid) = srv_put s key v c cid"
| "srv_step s (Remove_Request key c cid) = srv_remove s key c cid"
| "srv_step s (Remove_Enter c cid) = bind_run (srv_remove_enter s c cid) (\<lambda>(ss, s). Done s)"
| "srv_step s (Remove_Send key ss) = srv_remove_send s key ss"
| "srv_step s (Response rs m) = srv_response s rs m"

fun srv_run :: "server \<Rightarrow> srv_event list \<Rightarrow> server run" where
  "srv_run s [] = Done s"
| "srv_run s (e # es) = bind_run (srv_step s e) (\<lambda>s. srv_run s es)"

end
