(* ===== verification/Server_Correct.thy ===== *)
theory Server_Correct
  imports Server_Handler
begin

text \<open>
  The server's bookkeeping of requests: a request that is entered keeps its client and continuation
  until it is answered, as long as fewer than \<open>2 ^ 32\<close> requests have been numbered.
\<close>

section \<open>What the front end leaves alone\<close>

definition fe_cbs :: "front_end \<Rightarrow> callback \<times> callback \<times> callback" where
  "fe_cbs fe = (fe_put_cb fe, fe_put_w_cb fe, fe_get_cb fe)"

lemma fe_send_cbs [simp]: "fe_cbs (fe_send fe a x) = fe_cbs fe" "fe_calls (fe_send fe a x) = fe_calls fe"
  by (simp_all add: fe_send_def fe_cbs_def)

lemma fe_put_cbs:
  "fe_put fe key v c = Done fe' \<Longrightarrow> fe_cbs fe' = fe_cbs fe \<and> fe_calls fe' = fe_calls fe"
  "fe_remove fe key c = Done fe' \<Longrightarrow> fe_cbs fe' = fe_cbs fe \<and> fe_calls fe' = fe_calls fe"
  by (auto simp: fe_put_def fe_remove_def)

lemma fe_get_Done:
  "fe_get fe key c = Done fe' \<Longrightarrow> \<exists>m a. fe' = fe_send (fe\<lparr>fe_ring := (fe_ring fe)\<lparr>vid_temptail_map := m\<rparr>\<rparr>) a (get key c (fe_id fe))"
proof -
  assume d: "fe_get fe key c = Done fe'"
  then obtain h where h: "getReplicaGroup (fe_ring fe) key = Some h" unfolding fe_get_def by auto
  obtain x where x: "getSuccessorID (fe_ring fe) key = Ret x"
    using d h by (cases "getSuccessorID (fe_ring fe) key") (auto simp: fe_get_def deref_def)
  obtain tt m where t: "touch (take (unat DBID_LENGTH) (dbid_value x)) (vid_temptail_map (fe_ring fe)) = (tt, m)" by fastforce
  show ?thesis
    using d h x t
    by (cases "retrieveGetTarget (heap (fe_ring fe)) h (tt \<or> vid_shorter_map (fe_ring fe) (getRangeKey (fe_ring fe) key) = Some True)")
      (auto simp: fe_get_def deref_def fe_id_def split: option.splits)
qed

lemma fe_get_cbs: "fe_get fe key c = Done fe' \<Longrightarrow> fe_cbs fe' = fe_cbs fe \<and> fe_calls fe' = fe_calls fe"
  by (drule fe_get_Done) (auto simp: fe_send_def fe_cbs_def)

lemma fe_connect_to_backend_cbs:
  "fe_connect_to_backend fe a = (b, fe') \<Longrightarrow> fe_cbs fe' = fe_cbs fe \<and> fe_calls fe' = fe_calls fe"
  by (auto simp: fe_connect_to_backend_def fe_connectTCP_def fe_send_def fe_cbs_def split: option.splits)

lemma fe_connect_all_cbs:
  "fe_connect_all fe ns = Done fe' \<Longrightarrow> fe_cbs fe' = fe_cbs fe \<and> fe_calls fe' = fe_calls fe"
proof (induction ns arbitrary: fe)
  case (Cons n ns)
  show ?case
  proof (cases "fe_id fe = getID (nd_ip n) (nd_port n)")
    case True
    then show ?thesis using Cons by simp
  next
    case False
    then obtain b fe1 where f: "fe_connect_to_backend fe (getID (nd_ip n) (nd_port n)) = (Some b, fe1)" "fe_connect_all fe1 ns = Done fe'"
      using Cons.prems by (auto split: prod.splits option.splits)
    then show ?thesis using Cons.IH [OF f(2)] fe_connect_to_backend_cbs [OF f(1)] by simp
  qed
qed simp

lemma UpdateRingState_cbs:
  "UpdateRingState fe rs = Done fe' \<Longrightarrow> fe_cbs fe' = fe_cbs fe \<and> fe_calls fe' = fe_calls fe"
  by (auto simp: UpdateRingState_def fe_cbs_def dest!: fe_connect_all_cbs)

section \<open>Well-formed servers\<close>

definition srv_wf :: "server \<Rightarrow> bool" where
  "srv_wf s \<longleftrightarrow> ran (cid_client_map s) \<subseteq> {..<length (clients s)} \<and> ran (req_client_map s) \<subseteq> {..<length (clients s)}
    \<and> \<not> p_mutex s \<and> fe_cbs (frontend s) = (Registered, Registered, Registered) \<and> fe_calls (frontend s) = []"

lemma run_frontend_Done:
  assumes "run_frontend s f = Done s'"
  obtains fe where "f (frontend s) = Done fe" "s' = s\<lparr>frontend := fe\<rparr>"
  using assms by (auto simp: run_frontend_def)

lemma enter_request_Done:
  assumes "enter_request s cid c ss = Done s'"
  obtains i where "cid_client_map s cid = Some i"
    "s' = s\<lparr>clients := (clients s)[i := addContinuation (clients s ! i) c ss], req_client_map := (req_client_map s)(ucast ss \<mapsto> i)\<rparr>"
  using assms by (auto simp: enter_request_def get_client_def update_client_def)

lemma srv_cached_same: "srv_cached s key = (r, s') \<Longrightarrow> \<exists>c. s' = s\<lparr>srv_cache := c\<rparr>"
  unfolding srv_cached_def by (cases s) (auto split: option.splits prod.splits)

text \<open>A request is entered under the next number, or it leaves the tables alone because the cache answers
  it.\<close>

definition requested :: "u32 \<Rightarrow> u64 \<Rightarrow> server \<Rightarrow> server \<Rightarrow> bool" where
  "requested cid c s s' \<longleftrightarrow>
    (\<exists>i. cid_client_map s cid = Some i \<and> cid_client_map s' = cid_client_map s \<and> reqNumber s' = reqNumber s + 1
      \<and> \<not> p_mutex s' \<and> fe_cbs (frontend s') = fe_cbs (frontend s) \<and> fe_calls (frontend s') = fe_calls (frontend s)
      \<and> (clients s' = clients s \<and> req_client_map s' = req_client_map s
         \<or> clients s' = (clients s)[i := addContinuation (clients s ! i) c (reqNumber s)]
           \<and> req_client_map s' = (req_client_map s)(ucast (reqNumber s) \<mapsto> i)))"

lemma srv_put_requested:
  assumes "srv_put s key v c cid = Done s'"
  shows "requested cid c s s'" "\<exists>i. cid_client_map s cid = Some i \<and> req_client_map s' = (req_client_map s)(ucast (reqNumber s) \<mapsto> i)
    \<and> clients s' = (clients s)[i := addContinuation (clients s ! i) c (reqNumber s)]"
  using assms
  by (auto simp: srv_put_def with_p_mutex_def Let_def requested_def split: if_splits elim!: enter_request_Done run_frontend_Done
      dest!: fe_put_cbs)

lemma srv_remove_requested:
  assumes "srv_remove s key c cid = Done s'"
  shows "requested cid c s s'"
  using assms
  by (auto simp: srv_remove_def srv_remove_enter_def srv_remove_send_def with_p_mutex_def Let_def requested_def split: if_splits elim!: enter_request_Done run_frontend_Done
      dest!: fe_put_cbs)

lemma srv_remove_enter_requested:
  assumes "srv_remove_enter s c cid = Done (ss, s')" and "\<not> p_mutex s"
  shows "requested cid c s s'"
  using assms by (auto simp: srv_remove_enter_def Let_def requested_def elim!: enter_request_Done)

lemma srv_remove_send_keeps:
  assumes "srv_remove_send s key ss = Done s'"
  shows "\<exists>fe. s' = s\<lparr>frontend := fe\<rparr> \<and> fe_cbs fe = fe_cbs (frontend s) \<and> fe_calls fe = fe_calls (frontend s)"
  using assms
  by (cases s) (auto simp: srv_remove_send_def with_p_mutex_def split: if_splits elim!: run_frontend_Done dest!: fe_put_cbs)

lemma srv_get_requested:
  assumes "srv_get s key c cid = Done s'"
  shows "requested cid c s s'"
proof -
  let ?s = "s\<lparr>p_mutex := True, reqNumber := reqNumber s + 1\<rparr>"
  obtain r s1 where r: "srv_cached ?s key = (r, s1)" by fastforce
  obtain ca where ca: "s1 = ?s\<lparr>srv_cache := ca\<rparr>" using srv_cached_same [OF r] by blast
  show ?thesis
  proof (cases r)
    case None
    then show ?thesis
      using assms r ca
      by (auto simp: srv_get_def with_p_mutex_def Let_def requested_def split: if_splits elim!: enter_request_Done run_frontend_Done
          dest!: fe_get_cbs)
  next
    case (Some v)
    then show ?thesis
      using assms r ca by (auto simp: srv_get_def with_p_mutex_def Let_def requested_def get_client_def answer_def split: if_splits)
  qed
qed

text \<open>An answer that is passed on touches one client and one request number; a stale answer to a get touches
  none.\<close>

definition answered :: "u32 \<Rightarrow> server \<Rightarrow> server \<Rightarrow> bool" where
  "answered k s s' \<longleftrightarrow> cid_client_map s' = cid_client_map s \<and> req_client_map s' = req_client_map s \<and> reqNumber s' = reqNumber s
    \<and> p_mutex s' = p_mutex s \<and> fe_cbs (frontend s') = fe_cbs (frontend s) \<and> fe_calls (frontend s') = []
    \<and> length (clients s') = length (clients s)
    \<and> (\<forall>i. cd_addr (clients s' ! i) = cd_addr (clients s ! i)
        \<and> (\<forall>r. r \<noteq> ucast k \<longrightarrow> req_cont_map (clients s' ! i) r = req_cont_map (clients s ! i) r))"

fun msg_continuation :: "frontend_msg \<Rightarrow> u64" where
  "msg_continuation (put_response key c success ip) = c"
| "msg_continuation (put_w_response key c success version ip) = c"
| "msg_continuation (get_response key v c status ip) = c"
| "msg_continuation (remove_response key c success ip) = c"

lemma call_client_answered:
  assumes "call_client s k x = Done s'" and "fe_calls (frontend s) = []"
  shows "answered k s s'"
proof -
  obtain i where "req_client_map s k = Some i" "\<not> p_mutex s"
    using assms by (auto simp: call_client_def with_p_mutex_def split: if_splits)
  then show ?thesis
    using assms
    by (cases "i < length (clients s)")
      (auto simp: call_client_def with_p_mutex_def answered_def answer_def update_client_def getContinuation_def
        removeContinuation_def Let_def nth_list_update list_update_beyond split: option.splits)
qed

lemma srv_response_answered:
  assumes "srv_response s rs m = Done s'" and "srv_wf s"
  shows "answered (ucast (msg_continuation m)) s s'"
proof -
  have w: "fe_calls (frontend s) = []" "fe_put_cb (frontend s) = Registered" "fe_put_w_cb (frontend s) = Registered"
    "fe_get_cb (frontend s) = Registered"
    using assms(2) by (simp_all add: srv_wf_def fe_cbs_def)
  have idle: "answered k s (s\<lparr>frontend := fe\<rparr>)" if "fe_cbs fe = fe_cbs (frontend s)" "fe_calls fe = []" for k fe
    using that by (simp add: answered_def)
  have call: "answered k s s'"
    if "call_client (s\<lparr>frontend := (frontend s)\<lparr>fe_calls := []\<rparr>\<rparr>) k x = Done s'" for k x
    using call_client_answered [OF that] by (simp add: answered_def fe_cbs_def)
  show ?thesis
  proof (cases m)
    case (get_response key v c status ip)
    show ?thesis
    proof (cases "status = STALE_RING")
      case True
      then have "after_frontend s (bind_run (UpdateRingState (frontend s) rs) (\<lambda>fe. fe_get fe key c)) = Done s'"
        using assms(1) get_response by (simp add: fe_get_response_def)
      then obtain fe1 fe2 where f: "UpdateRingState (frontend s) rs = Done fe1" "fe_get fe1 key c = Done fe2"
        "(case take_call fe2 of ([], fe) \<Rightarrow> Done (s\<lparr>frontend := fe\<rparr>) | (c # cs, fe) \<Rightarrow> run_call (s\<lparr>frontend := fe\<rparr>) c) = Done s'"
        unfolding after_frontend_def by (auto simp only: bind_run_Done)
      have "fe_calls fe2 = []" using fe_get_cbs [OF f(2)] UpdateRingState_cbs [OF f(1)] w(1) by simp
      then have "s' = s\<lparr>frontend := fe2\<lparr>fe_calls := []\<rparr>\<rparr>" using f(3) by (simp add: take_call_def)
      then show ?thesis
        using idle [of "fe2\<lparr>fe_calls := []\<rparr>"] fe_get_cbs [OF f(2)] UpdateRingState_cbs [OF f(1)] by (simp add: fe_cbs_def)
    next
      case False
      then show ?thesis
        using assms(1) get_response w call
        by (auto simp: after_frontend_def fe_get_response_def call_back_def take_call_def get_cb_def)
    qed
  qed (use assms(1) w call in \<open>auto simp: after_frontend_def fe_put_response_def fe_put_w_response_def fe_remove_response_def
        call_back_def take_call_def put_cb_def\<close>)
qed

section \<open>A request waits for its own answer\<close>

definition waiting :: "server \<Rightarrow> u64 \<Rightarrow> nat \<Rightarrow> u64 \<Rightarrow> bool" where
  "waiting s ss i c \<longleftrightarrow> i < length (clients s) \<and> req_client_map s (ucast ss) = Some i \<and> req_cont_map (clients s ! i) ss = Some c
    \<and> unat ss < unat (reqNumber s)"

lemma unat_ucast_32: "unat (a :: u64) < 2 ^ 32 \<Longrightarrow> unat (ucast a :: u32) = unat a"
  by (simp add: unsigned_ucast_eq take_bit_nat_eq_self)

lemma unat_ucast_64: "unat (ucast (k :: u32) :: u64) = unat k"
proof -
  have "unat k < 2 ^ 64" by (rule less_trans [OF unsigned_less [of k, where 'a = nat]]) simp
  then show ?thesis by (simp only: unsigned_ucast_eq len_num1 len_bit0) (simp add: take_bit_nat_eq_self)
qed

lemma ucast_32_inj: "unat (a :: u64) < 2 ^ 32 \<Longrightarrow> unat b < 2 ^ 32 \<Longrightarrow> (ucast a :: u32) = ucast b \<longleftrightarrow> a = b"
  by (metis unat_ucast_32 word_unat_eq_iff)

lemma ucast_ucast_32: "unat (a :: u64) < 2 ^ 32 \<Longrightarrow> (ucast (k :: u32) :: u64) = a \<longleftrightarrow> k = ucast a"
  by (metis unat_ucast_32 unat_ucast_64 word_unat_eq_iff)

lemma requested_keeps:
  assumes r: "requested cid c s s'" and w: "srv_wf s" and n: "unat (reqNumber s) < 2 ^ 32"
  shows "srv_wf s'" "unat (reqNumber s') = unat (reqNumber s) + 1"
    "waiting s ss i d \<Longrightarrow> waiting s' ss i d \<and> cd_addr (clients s' ! i) = cd_addr (clients s ! i)"
proof -
  from r obtain j where j: "cid_client_map s cid = Some j" "cid_client_map s' = cid_client_map s" "reqNumber s' = reqNumber s + 1"
    "\<not> p_mutex s'" "fe_cbs (frontend s') = fe_cbs (frontend s)" "fe_calls (frontend s') = fe_calls (frontend s)"
    "clients s' = clients s \<and> req_client_map s' = req_client_map s
      \<or> clients s' = (clients s)[j := addContinuation (clients s ! j) c (reqNumber s)]
        \<and> req_client_map s' = (req_client_map s)(ucast (reqNumber s) \<mapsto> j)"
    unfolding requested_def by blast
  have jl: "j < length (clients s)" using w j(1) by (auto simp: srv_wf_def ran_def)
  show "srv_wf s'"
    using j(7)
  proof
    assume "clients s' = (clients s)[j := addContinuation (clients s ! j) c (reqNumber s)]
        \<and> req_client_map s' = (req_client_map s)(ucast (reqNumber s) \<mapsto> j)"
    then show ?thesis using w jl j(2-6) by (auto simp: srv_wf_def ran_def)
  qed (use w j(2-6) in \<open>simp add: srv_wf_def\<close>)
  show u: "unat (reqNumber s') = unat (reqNumber s) + 1" 
    unfolding j(3) using n by (simp add: unat_word_ariths)
  assume wt: "waiting s ss i d"
  then have less: "unat ss < unat (reqNumber s)" by (simp add: waiting_def)
  then have "ss \<noteq> reqNumber s" "(ucast ss :: u32) \<noteq> ucast (reqNumber s)" using n by (auto simp: ucast_32_inj)
  then show "waiting s' ss i d \<and> cd_addr (clients s' ! i) = cd_addr (clients s ! i)"
    using j(7) wt u jl by (auto simp: waiting_def addContinuation_def nth_list_update)
qed

lemma answered_keeps:
  assumes r: "answered k s s'" and w: "srv_wf s"
  shows "srv_wf s'" "reqNumber s' = reqNumber s"
    "waiting s ss i d \<Longrightarrow> unat ss < 2 ^ 32 \<Longrightarrow> k \<noteq> ucast ss \<Longrightarrow> waiting s' ss i d \<and> cd_addr (clients s' ! i) = cd_addr (clients s ! i)"
proof -
  show "srv_wf s'" "reqNumber s' = reqNumber s" using r w by (simp_all add: answered_def srv_wf_def)
  assume wt: "waiting s ss i d" "unat ss < 2 ^ 32" "k \<noteq> ucast ss"
  then have "ss \<noteq> ucast k" using ucast_ucast_32 [of ss k] by metis
  then show "waiting s' ss i d \<and> cd_addr (clients s' ! i) = cd_addr (clients s ! i)"
    using r wt(1) by (simp add: answered_def waiting_def)
qed

text \<open>The number an event answers.\<close>

fun answers :: "srv_event \<Rightarrow> u32 option" where
  "answers (Response rs m) = Some (ucast (msg_continuation m))"
| "answers e = None"

lemma srv_step_keeps:
  assumes "srv_step s e = Done s'" and w: "srv_wf s" and n: "unat (reqNumber s) < 2 ^ 32"
  shows "srv_wf s' \<and> unat (reqNumber s') \<le> unat (reqNumber s) + 1
    \<and> (waiting s ss i d \<and> answers e \<noteq> Some (ucast ss) \<longrightarrow> waiting s' ss i d \<and> cd_addr (clients s' ! i) = cd_addr (clients s ! i))"
proof (cases e)
  case (Init ip p)
  then show ?thesis
    using assms
    by (auto simp: srv_init_def srv_wf_def ran_def waiting_def nth_append less_Suc_eq subset_iff split: if_split_asm; blast)
next
  case (Response rs m)
  then have a: "answered (ucast (msg_continuation m)) s s'" using srv_response_answered assms(1) w by simp
  have "unat ss < 2 ^ 32" if "waiting s ss i d" using that n by (simp add: waiting_def)
  then show ?thesis using answered_keeps [OF a w] Response by auto
next
  case (Remove_Enter c cid)
  then obtain k where "srv_remove_enter s c cid = Done (k, s')" using assms(1) by auto
  from srv_remove_enter_requested [OF this] have "requested cid c s s'" using w by (simp add: srv_wf_def)
  from requested_keeps [OF this w n] show ?thesis using Remove_Enter by fastforce
next
  case (Remove_Send key k)
  then have "srv_remove_send s key k = Done s'" using assms(1) by simp
  from srv_remove_send_keeps [OF this] obtain fe
    where "s' = s\<lparr>frontend := fe\<rparr>" "fe_cbs fe = fe_cbs (frontend s)" "fe_calls fe = fe_calls (frontend s)" by blast
  then show ?thesis using w by (simp add: srv_wf_def waiting_def)
qed (use assms srv_put_requested(1) srv_remove_requested srv_get_requested requested_keeps [OF _ w n] in fastforce)+

lemma srv_run_keeps:
  assumes "srv_run s es = Done s'" and "srv_wf s" and "unat (reqNumber s) + length es \<le> 2 ^ 32"
  shows "srv_wf s' \<and> unat (reqNumber s') \<le> unat (reqNumber s) + length es
    \<and> (waiting s ss i d \<and> (\<forall>e \<in> set es. answers e \<noteq> Some (ucast ss))
        \<longrightarrow> waiting s' ss i d \<and> cd_addr (clients s' ! i) = cd_addr (clients s ! i))"
  using assms
proof (induction es arbitrary: s)
  case (Cons e es)
  then obtain s1 where s1: "srv_step s e = Done s1" "srv_run s1 es = Done s'" by auto
  have n: "unat (reqNumber s) < 2 ^ 32" using Cons.prems(3) by simp
  have k: "srv_wf s1 \<and> unat (reqNumber s1) \<le> unat (reqNumber s) + 1
    \<and> (waiting s ss i d \<and> answers e \<noteq> Some (ucast ss) \<longrightarrow> waiting s1 ss i d \<and> cd_addr (clients s1 ! i) = cd_addr (clients s ! i))"
    by (rule srv_step_keeps [OF s1(1) Cons.prems(2) n])
  then have "srv_wf s1" "unat (reqNumber s1) + length es \<le> 2 ^ 32" using Cons.prems(3) by auto
  from Cons.IH [OF s1(2) this] k show ?case by auto
qed simp

lemma srv_wf_new: "fe_calls fe = [] \<Longrightarrow> srv_wf (Server_new fe c)"
  by (simp add: srv_wf_def Server_new_def register_cbs_def fe_cbs_def)

lemma call_client_waiting:
  assumes "srv_wf s" and "waiting s ss i c" and "unat ss < 2 ^ 32"
  shows "\<exists>s'. call_client s (ucast ss) x = Done s' \<and> app_sent s' = app_sent s @ [(cd_addr (clients s ! i), x c)]"
proof -
  have "(ucast (ucast ss :: u32) :: u64) = ss" using ucast_ucast_32 [OF assms(3)] by simp
  then show ?thesis
    using assms by (auto simp: call_client_def with_p_mutex_def srv_wf_def waiting_def deref_def getContinuation_def
        removeContinuation_def answer_def update_client_def Let_def)
qed

section \<open>The cache and the answers across a request\<close>

lemma enter_request_frame:
  "enter_request s cid c ss = Done s' \<Longrightarrow> app_sent s' = app_sent s \<and> srv_cache s' = srv_cache s
    \<and> cid_client_map s' = cid_client_map s \<and> (\<forall>i. cd_addr (clients s' ! i) = cd_addr (clients s ! i))"
proof (elim enter_request_Done)
  fix i assume "s' = s\<lparr>clients := (clients s)[i := addContinuation (clients s ! i) c ss], req_client_map := (req_client_map s)(ucast ss \<mapsto> i)\<rparr>"
  moreover have "cd_addr ((clients s)[i := addContinuation (clients s ! i) c ss] ! j) = cd_addr (clients s ! j)" for j
    by (cases "i < length (clients s)") (auto simp: addContinuation_def nth_list_update list_update_beyond)
  ultimately show ?thesis by simp
qed

lemma srv_put_frame:
  assumes "srv_put s key v c cid = Done s'"
  shows "app_sent s' = app_sent s \<and> srv_cache s' = map_option (\<lambda>ca. cache_insert ca (DBID key) v) (srv_cache s)
    \<and> cid_client_map s' = cid_client_map s \<and> (\<forall>i. cd_addr (clients s' ! i) = cd_addr (clients s ! i))"
proof -
  obtain s1 fe where "enter_request (s\<lparr>p_mutex := True, reqNumber := reqNumber s + 1\<rparr>) cid c (reqNumber s) = Done s1"
    and "s' = s1\<lparr>frontend := fe, srv_cache := map_option (\<lambda>ca. cache_insert ca (DBID key) v) (srv_cache s1), p_mutex := False\<rparr>"
    using assms by (auto simp: srv_put_def with_p_mutex_def Let_def split: if_splits elim!: run_frontend_Done)
  then show ?thesis using enter_request_frame by fastforce
qed

lemma srv_remove_frame:
  assumes "srv_remove s key c cid = Done s'"
  shows "app_sent s' = app_sent s \<and> srv_cache s' = srv_cache s
    \<and> cid_client_map s' = cid_client_map s \<and> (\<forall>i. cd_addr (clients s' ! i) = cd_addr (clients s ! i))"
proof -
  obtain s1 fe where "enter_request (s\<lparr>reqNumber := reqNumber s + 1\<rparr>) cid c (reqNumber s) = Done s1"
    and "s' = s1\<lparr>frontend := fe, p_mutex := False\<rparr>"
    using assms by (auto simp: srv_remove_def srv_remove_enter_def srv_remove_send_def with_p_mutex_def Let_def split: if_splits elim!: run_frontend_Done)
  then show ?thesis using enter_request_frame by fastforce
qed

lemma srv_get_hit:
  assumes "srv_get s key c cid = Done s'" and "fst (srv_cached (s\<lparr>p_mutex := True, reqNumber := reqNumber s + 1\<rparr>) key) = Some v"
  shows "\<exists>i. cid_client_map s cid = Some i \<and> app_sent s' = app_sent s @ [(cd_addr (clients s ! i), app_get_response v c)]"
proof -
  obtain s1 where r: "srv_cached (s\<lparr>p_mutex := True, reqNumber := reqNumber s + 1\<rparr>) key = (Some v, s1)"
    using assms(2) by (metis prod.collapse)
  then obtain ca where "s1 = s\<lparr>p_mutex := True, reqNumber := reqNumber s + 1, srv_cache := ca\<rparr>" using srv_cached_same [OF r] by blast
  then show ?thesis
    using assms(1) r by (auto simp: srv_get_def with_p_mutex_def Let_def get_client_def answer_def split: if_splits)
qed

end
