(* ===== verification/Fe_Cache_Props.thy ===== *)
theory Fe_Cache_Props
  imports Fe_Cache
begin

text \<open>Properties of the front end's caches.\<close>

text \<open>
  Property C27. After any sequence of insertions and lookups on a cache of capacity \<open>m\<close>, a lookup of a key gives
  what an association list of the last \<open>n\<close> insertions gives: the most recent value among them, or
  nothing. The window \<open>n\<close> is what \<^verbatim>\<open>size()\<close> reports, covers at least half the capacity (or every
  insertion so far) and never exceeds twice half the capacity, with one in place of a half that
  rounds to zero.
\<close>

theorem cache_is_window:
  assumes "0 \<le> sint m"
  shows "\<exists>n. fe_cache_size (cache_run m ops) = of_nat n \<and> n \<le> length (insertions ops)
    \<and> min (length (insertions ops)) (max 1 (unat m div 2)) \<le> n \<and> n \<le> 2 * max 1 (unat m div 2)
    \<and> fst (cache_lookup (cache_run m ops) k)
        = map_of (rev (drop (length (insertions ops) - n) (insertions ops))) (actual_data_str k)"
  using cache_rep_lookup_map [OF cache_run_rep [OF assms, of ops], of k] unfolding gen_size_def by metis

theorem cache_is_window_witness:
  "\<exists>n. fe_cache_size (cache_run 2 [Cache_Insert (DBID [7]) [1], Cache_Insert (DBID [8]) [2], Cache_Insert (DBID [9]) [3]]) = of_nat n
    \<and> n \<le> 2 \<and> 1 \<le> n"
  using cache_is_window [of 2 "[Cache_Insert (DBID [7]) [1], Cache_Insert (DBID [8]) [2], Cache_Insert (DBID [9]) [3]]" "DBID [7]"]
  by auto

text \<open>
  A run of calls on a list cache of positive length ends or blocks on the mutex; it never touches
  an erased iterator or the back of an empty list, the map's non-null iterators are exactly the nodes
  of the list, and the list never outgrows its bound. A fetch that misses returns with the mutex
  held, and whatever is called next on that cache, save for clearing it, waits for ever.
\<close>

theorem mru_miss_blocks:
  assumes "0 < sint n"
  shows "mru_run (MruCache n) ops = Deadlock \<or>
    (\<exists>c. mru_run (MruCache n) ops = Done c \<and> live_itrs (mapOfListIteratorPtr c) = node_map (listOfEntries c)
      \<and> int (length (listOfEntries c)) \<le> sint n
      \<and> (\<not> cache_mutex c \<and> key \<notin> entry_key ` set (listOfEntries c) \<and> op \<noteq> Clear_All
          \<longrightarrow> (\<exists>c'. FetchItem c key = Done (None, c') \<and> mru_step c' op = Deadlock)))"
proof -
  have len: "maxLength c = n" if "mru_run (MruCache n) ops = Done c" for c using mru_run_maxLength that by (fastforce simp: MruCache_def)
  have miss: "\<exists>c'. FetchItem c key = Done (None, c') \<and> mru_step c' op = Deadlock"
    if c: "mru_inv c" "\<not> cache_mutex c" "key \<notin> entry_key ` set (listOfEntries c)" "op \<noteq> Clear_All" for c
  proof -
    have "node_map (listOfEntries (c\<lparr>cache_mutex := True\<rparr>)) key = None" using c(3) by (simp add: node_map_None)
    moreover obtain p c' where i: "itr_at (c\<lparr>cache_mutex := True\<rparr>) key = (p, c')" by fastforce
    ultimately have "p = None" "cache_mutex c'" using itr_at_inv [OF i] c(1) by auto
    then show ?thesis using i c(2,4) by (auto simp: FetchItem_def lock_cache_def mru_locked_step)
  qed
  show ?thesis
    using mru_run_inv [OF mru_inv_new [OF assms], of ops]
  proof (elim disjE exE conjE)
    fix c assume c: "mru_run (MruCache n) ops = Done c" "mru_inv c"
    then show ?thesis using miss [OF c(2)] len [OF c(1)] by (auto simp: mru_inv_def)
  qed simp
qed

theorem mru_miss_blocks_witness:
  "\<exists>c c'. mru_run (MruCache 2) [Add [1] [5]] = Done c \<and> FetchItem c [2] = Done (None, c') \<and> mru_step c' (Fetch [1]) = Deadlock"
proof -
  have "mru_run (MruCache 2) [Add [1] [5]] =
    Done \<lparr>maxLength = 2, listOfEntries = [\<lparr>node_ident = 0, entry_key = [1], entry_value = [5]\<rparr>],
      mapOfListIteratorPtr = [[1] \<mapsto> Some 0], next_node = 1, cache_mutex = False\<rparr>"
    by (simp add: MruCache_def AddItem_def lock_cache_def unlock_cache_def itr_at_def evict_last_def c_str_def)
  then show ?thesis using mru_miss_blocks [of 2 "[Add [1] [5]]" "[2]" "Fetch [1]"] by auto
qed

end
