(* ===== verification/Frontend_Props.thy ===== *)
theory Frontend_Props
  imports Frontend_Correct Server_Correct Fe_Cache_Props
begin

text \<open>Properties of the front end and of its server.\<close>

section \<open>Routing\<close>

text \<open>
  Property C17. A front end that has taken over the manager's ring (of at least one node, in ascending order, with
  addresses that contain no colon and are not that of the front end itself) sends each put and remove to the first node of the key's replica chain, with
  the length of the chain as the number of hops and of acknowledgement hops. While the manager has no interim tail and
  no shortened range flagged, it sends each get to the last node of the same chain. The chain is the list of distinct
  node addresses clockwise from the owner of the key, cut at the replication factor.
\<close>

theorem fe_routes_along_chain:
  assumes "fe_base fe" and "rs_nodes rs \<noteq> []" and "ring_sorted (rs_vns rs)"
    and "\<forall>n \<in> set (rs_nodes rs). 58 \<notin> set (nd_ip n) \<and> fe_id fe \<noteq> getID (nd_ip n) (nd_port n)"
  shows "\<exists>fe'. UpdateRingState fe rs = Done fe' \<and> distinct (rs_chain rs key) \<and> rs_chain rs key \<noteq> []
    \<and> fe_put fe' key v c = Done (fe_send fe' (hd (rs_chain rs key))
        (put key v (of_nat (length (rs_chain rs key))) (of_nat (length (rs_chain rs key))) c 0 False False (fe_id fe)))
    \<and> fe_remove fe' key c = Done (fe_send fe' (hd (rs_chain rs key))
        (put key [] (of_nat (length (rs_chain rs key))) (of_nat (length (rs_chain rs key))) c 0 False True (fe_id fe)))
    \<and> (temptails rs = [] \<and> shorters rs = [] \<longrightarrow>
        (\<exists>fe''. fe_get fe' key c = Done fe'' \<and> fe_sent fe'' = fe_sent fe' @ [(last (rs_chain rs key), get key c (fe_id fe))]))"
proof -
  obtain fe' where "UpdateRingState fe rs = Done fe'" "fe_id fe' = fe_id fe"
    "put_route fe' key = Done (hd (rs_chain rs key), of_nat (length (rs_chain rs key)))"
    "1 < length (rs_chain rs key) \<or> temptails rs = [] \<and> shorters rs = [] \<longrightarrow>
      (\<exists>fe''. fe_get fe' key c = Done fe'' \<and> fe_sent fe'' = fe_sent fe' @ [(last (rs_chain rs key), get key c (fe_id fe))])"
    by (rule routes_along_chain [OF assms])
  then show ?thesis
    using rs_chain_distinct rs_chain_nonempty [OF assms(2)] by (simp add: fe_put_def fe_remove_def)
qed

definition demo_rs :: ring_state where
  "demo_rs = \<lparr>rs_nodes = [\<lparr>VnodeID = [10], nd_ip = [65], nd_port = 1\<rparr>, \<lparr>VnodeID = [20], nd_ip = [66], nd_port = 1\<rparr>,
      \<lparr>VnodeID = [30], nd_ip = [67], nd_port = 1\<rparr>],
    replication = 2, temptails = [], shorters = []\<rparr>"

definition demo_fe :: front_end where
  "demo_fe = \<lparr>fe_ring = Ring_new 0, fe_myIP = [70], fe_myPort = 1, fe_put_cb = Uninitialised, fe_put_w_cb = Uninitialised,
     fe_get_cb = Uninitialised, fe_clients = Map.empty, fe_sent = [], fe_calls = []\<rparr>"

lemma demo_fe_base: "fe_base demo_fe"
  by (simp add: fe_base_def demo_fe_def Ring_new_def entries_wf_def table_wf_def)

lemma demo_rs_sorted: "ring_sorted (rs_vns demo_rs)"
proof -
  have "(\<forall>v \<in> set (rs_vns demo_rs). wf_dbid (vn_id v)) \<and> sorted_wrt (\<lambda>a b. dbid_less (vn_id a) (vn_id b)) (rs_vns demo_rs)"
    by code_simp
  then show ?thesis by (rule ring_sorted_code [THEN iffD2])
qed

theorem fe_routes_along_chain_witness:
  "rs_chain demo_rs [15] = [[66, 58, 49], [67, 58, 49]]
   \<and> (\<exists>fe' fe''. UpdateRingState demo_fe demo_rs = Done fe' \<and> fe_put fe' [15] [1] 0 =
        Done (fe_send fe' [66, 58, 49] (put [15] [1] 2 2 0 0 False False [70, 58, 49]))
      \<and> fe_get fe' [15] 0 = Done fe'' \<and> fe_sent fe'' = fe_sent fe' @ [([67, 58, 49], get [15] 0 [70, 58, 49])])"
proof -
  have c: "rs_chain demo_rs [15] = [[66, 58, 49], [67, 58, 49]]" by code_simp
  have i: "fe_id demo_fe = [70, 58, 49]" by code_simp
  have "rs_nodes demo_rs \<noteq> []" "temptails demo_rs = []" "shorters demo_rs = []" by (simp_all add: demo_rs_def)
  moreover have "\<forall>n \<in> set (rs_nodes demo_rs). 58 \<notin> set (nd_ip n) \<and> fe_id demo_fe \<noteq> getID (nd_ip n) (nd_port n)" by code_simp
  ultimately show ?thesis
    using fe_routes_along_chain [OF demo_fe_base _ demo_rs_sorted, of "[15]" "[1]" 0] c i by auto
qed

text \<open>
  A flagged interim tail changes nothing for a chain of two or more nodes: the get goes to the last node, which is
  the node that joins, although the manager sets the flag so that the node before it serves the key until the range
  has been copied. (The front end's copy of a node is always valid, and \<^verbatim>\<open>retrieveGetTarget\<close> steps back only
  from a last node that is not. In a chain of one node it reads the back of an empty vector.)
\<close>

theorem interim_tail_ignored:
  assumes "fe_base fe" and "rs_nodes rs \<noteq> []" and "ring_sorted (rs_vns rs)"
    and "\<forall>n \<in> set (rs_nodes rs). 58 \<notin> set (nd_ip n) \<and> fe_id fe \<noteq> getID (nd_ip n) (nd_port n)"
    and "1 < length (rs_chain rs key)"
  shows "\<exists>fe' fe''. UpdateRingState fe rs = Done fe' \<and> fe_get fe' key c = Done fe''
    \<and> fe_sent fe'' = fe_sent fe' @ [(last (rs_chain rs key), get key c (fe_id fe))]"
  using assms(5) by (rule_tac routes_along_chain [OF assms(1-4), of key c]) blast

section \<open>Answers to clients\<close>

text \<open>
  Property C18. In the first \<open>2 ^ 32\<close> requests of a server, whatever requests and answers come in between, the answer to
  a put reaches the client that made the request, under the continuation that client chose.
\<close>

theorem server_answers_its_client:
  assumes "srv_run (Server_new fe ca) es0 = Done s" and "fe_calls fe = []" and "cid_client_map s cid = Some i"
    and "srv_run s (Put_Request key v c cid # es) = Done s'" and "length es0 + length es < 2 ^ 32"
    and "\<forall>e \<in> set es. answers e \<noteq> Some (ucast (reqNumber s))"
  shows "\<exists>s''. srv_step s' (Response rs (put_response key (reqNumber s) success ip)) = Done s''
    \<and> app_sent s'' = app_sent s' @ [(cd_addr (clients s ! i), app_put_response c)]"
proof -
  let ?s0 = "Server_new fe ca" and ?ss = "reqNumber s"
  have w0: "srv_wf ?s0" by (rule srv_wf_new [OF assms(2)])
  have z: "unat (reqNumber ?s0) = 0" by (simp add: Server_new_def)
  then have w: "srv_wf s" "unat ?ss \<le> length es0" using srv_run_keeps [OF assms(1) w0] assms(5) by auto
  obtain s1 where s1: "srv_put s key v c cid = Done s1" "srv_run s1 es = Done s'" using assms(4) by auto
  have n: "unat ?ss < 2 ^ 32" using w(2) assms(5) by linarith
  note k = requested_keeps [OF srv_put_requested(1) [OF s1(1)] w(1) n]
  have i: "i < length (clients s)" using w(1) assms(3) by (auto simp: srv_wf_def ran_def)
  then have wt: "waiting s1 ?ss i c" "cd_addr (clients s1 ! i) = cd_addr (clients s ! i)"
    using srv_put_requested(2) [OF s1(1)] assms(3) k(2) by (auto simp: waiting_def addContinuation_def)
  have "unat (reqNumber s1) + length es \<le> 2 ^ 32" using k(2) w(2) assms(5) by linarith
  from srv_run_keeps [OF s1(2) k(1) this, of ?ss i c]
  have w': "srv_wf s'" "waiting s' ?ss i c" "cd_addr (clients s' ! i) = cd_addr (clients s ! i)"
    using wt assms(6) by auto
  let ?t = "s'\<lparr>frontend := (frontend s')\<lparr>fe_calls := []\<rparr>\<rparr>"
  have t: "srv_wf ?t" "waiting ?t ?ss i c" using w' by (simp_all add: srv_wf_def waiting_def fe_cbs_def)
  have "srv_step s' (Response rs (put_response key ?ss success ip)) = call_client ?t (ucast ?ss) app_put_response"
    using w'(1) by (simp add: after_frontend_def fe_put_response_def call_back_def take_call_def put_cb_def srv_wf_def fe_cbs_def)
  then show ?thesis using call_client_waiting [OF t n, of app_put_response] w'(3) by simp
qed

definition demo_up :: front_end where
  "demo_up = (case UpdateRingState demo_fe demo_rs of Done fe \<Rightarrow> fe | _ \<Rightarrow> demo_fe)"

theorem server_answers_its_client_witness:
  "\<exists>s s' s''. srv_run (Server_new demo_up None) [Init [71] 2] = Done s
    \<and> srv_run s [Put_Request [15] [1] 77 0, Get_Request [15] 78 0] = Done s'
    \<and> srv_step s' (Response demo_rs (put_response [15] 0 False [66])) = Done s''
    \<and> app_sent s'' = app_sent s' @ [(([71], 2), app_put_response 77)]"
proof -
  have "case srv_run (Server_new demo_up None) [Init [71] 2] of
      Done s \<Rightarrow> cid_client_map s 0 = Some 0 \<and> reqNumber s = 0 \<and> cd_addr (clients s ! 0) = ([71], 2)
        \<and> (case srv_run s [Put_Request [15] [1] 77 0, Get_Request [15] 78 0] of Done s' \<Rightarrow> True | _ \<Rightarrow> False)
    | _ \<Rightarrow> False"
    by code_simp
  then obtain s s' where s: "srv_run (Server_new demo_up None) [Init [71] 2] = Done s" "cid_client_map s 0 = Some 0"
    "reqNumber s = 0" "cd_addr (clients s ! 0) = ([71], 2)"
    "srv_run s [Put_Request [15] [1] 77 0, Get_Request [15] 78 0] = Done s'"
    by (auto simp del: srv_run.simps split: run.split_asm)
  have "fe_calls demo_up = []" by code_simp
  then show ?thesis
    using server_answers_its_client [OF s(1) _ s(2) s(5), of demo_rs False "[66]"] s by (auto simp del: srv_run.simps)
qed

text \<open>
  The callbacks carry the request number as a 32-bit \<^verbatim>\<open>unsigned int\<close>, the client's table is keyed by 64
  bits. From request \<open>2 ^ 32\<close> on, the answer to a put finds the client but not its continuation: the
  client is told that request 0 has completed.
\<close>

theorem continuation_truncated:
  assumes "srv_wf s" and "cid_client_map s cid = Some i" and "2 ^ 32 \<le> unat (reqNumber s)"
    and "req_cont_map (clients s ! i) (ucast (ucast (reqNumber s) :: u32)) = None" and "srv_put s key v c cid = Done s1"
  shows "\<exists>s2. srv_response s1 rs (put_response key (reqNumber s) success ip) = Done s2
    \<and> app_sent s2 = app_sent s1 @ [(cd_addr (clients s ! i), app_put_response 0)]"
proof -
  let ?ss = "reqNumber s" and ?k = "ucast (reqNumber s) :: u32"
  have i: "i < length (clients s)" using assms(1,2) by (auto simp: srv_wf_def ran_def)
  have ne: "(ucast ?k :: u64) \<noteq> ?ss" using assms(3) unat_ucast_64 [of ?k] unsigned_less [of ?k, where 'a = nat] by auto
  obtain r: "req_client_map s1 ?k = Some i" and cl: "clients s1 = (clients s)[i := addContinuation (clients s ! i) c ?ss]"
    using srv_put_requested(2) [OF assms(5)] assms(2) by auto
  have c0: "req_cont_map (clients s1 ! i) (ucast ?k) = None" "cd_addr (clients s1 ! i) = cd_addr (clients s ! i)" "i < length (clients s1)"
    using i cl ne assms(4) by (simp_all add: addContinuation_def)
  have w: "\<not> p_mutex s1" "fe_cbs (frontend s1) = (Registered, Registered, Registered)" "fe_calls (frontend s1) = []"
    using srv_put_requested(1) [OF assms(5)] assms(1) by (auto simp: requested_def srv_wf_def)
  show ?thesis
    using r c0 w
    by (simp add: after_frontend_def fe_put_response_def call_back_def take_call_def put_cb_def fe_cbs_def call_client_def
        with_p_mutex_def deref_def getContinuation_def removeContinuation_def answer_def update_client_def)
qed

definition demo_server :: server where
  "demo_server = (snd (srv_init (Server_new demo_up None) [71] 2))\<lparr>reqNumber := 0x100000000\<rparr>"

theorem continuation_truncated_witness:
  "\<exists>s1 s2. srv_put demo_server [15] [1] 77 0 = Done s1
    \<and> srv_response s1 demo_rs (put_response [15] 0x100000000 False [66]) = Done s2
    \<and> app_sent s2 = app_sent s1 @ [(([71], 2), app_put_response 0)]"
proof -
  have "fe_calls demo_up = []" by code_simp
  then have "srv_wf (Server_new demo_up None)" by (rule srv_wf_new)
  then have w: "srv_wf demo_server" by (auto simp: demo_server_def srv_init_def srv_wf_def ran_def Server_new_def)
  have "case srv_put demo_server [15] [1] 77 0 of Done s \<Rightarrow> True | _ \<Rightarrow> False" by code_simp
  then obtain s1 where s1: "srv_put demo_server [15] [1] 77 0 = Done s1" by (auto split: run.split_asm)
  have d: "cid_client_map demo_server 0 = Some 0" "reqNumber demo_server = 0x100000000"
    "clients demo_server ! 0 = \<lparr>cd_addr = ([71], 2), req_cont_map = Map.empty\<rparr>"
    by (simp_all add: demo_server_def srv_init_def Server_new_def)
  show ?thesis
    using continuation_truncated [OF w d(1) _ _ s1, of demo_rs False "[66]"] s1 d by simp
qed

text \<open>
  Property C33. The server's \<^verbatim>\<open>remove\<close> does not touch the cache. With a cache of any capacity, a client that puts a
  key, removes it and gets it again receives the removed value, without a request to the back ends.
\<close>

theorem removed_key_still_cached:
  assumes "srv_cache s = Some ca" and "cid_client_map s cid = Some i"
    and "srv_run s [Put_Request key v c1 cid, Remove_Request key c2 cid, Get_Request key c3 cid] = Done s'"
  shows "app_sent s' = app_sent s @ [(cd_addr (clients s ! i), app_get_response v c3)]"
proof -
  obtain s1 s2 where s: "srv_put s key v c1 cid = Done s1" "srv_remove s1 key c2 cid = Done s2" "srv_get s2 key c3 cid = Done s'"
    using assms(3) by auto
  have a: "app_sent s1 = app_sent s" "srv_cache s1 = Some (cache_insert ca (DBID key) v)" "cid_client_map s1 = cid_client_map s"
    "cd_addr (clients s1 ! i) = cd_addr (clients s ! i)"
    using srv_put_frame [OF s(1)] assms(1) by auto
  have b: "app_sent s2 = app_sent s1" "srv_cache s2 = srv_cache s1" "cid_client_map s2 = cid_client_map s1"
    "cd_addr (clients s2 ! i) = cd_addr (clients s1 ! i)"
    using srv_remove_frame [OF s(2)] by auto
  have "fst (cache_lookup (cache_insert ca (DBID key) v) (DBID key)) = Some v"
    by (simp add: cache_lookup_def cache_insert_def Let_def)
  then have "fst (srv_cached (s2\<lparr>p_mutex := True, reqNumber := reqNumber s2 + 1\<rparr>) key) = Some v"
    using a(2) b(2) by (simp add: srv_cached_def case_prod_beta)
  from srv_get_hit [OF s(3) this] show ?thesis using a b assms(2) by simp
qed

theorem removed_key_still_cached_witness:
  "\<exists>s'. srv_run ((snd (srv_init (Server_new demo_up (Some (Cache_new 4))) [71] 2)))
      [Put_Request [15] [1] 7 0, Remove_Request [15] 8 0, Get_Request [15] 9 0] = Done s'
    \<and> app_sent s' = [(([71], 2), app_get_response [1] 9)]"
proof -
  let ?s = "snd (srv_init (Server_new demo_up (Some (Cache_new 4))) [71] 2)"
  let ?es = "[Put_Request [15] [1] 7 0, Remove_Request [15] 8 0, Get_Request [15] 9 0]"
  have "case srv_run ?s ?es of Done s \<Rightarrow> True | _ \<Rightarrow> False" by code_simp
  then obtain s' where s': "srv_run ?s ?es = Done s'" by (auto simp del: srv_run.simps split: run.split_asm)
  have d: "srv_cache ?s = Some (Cache_new 4)" "cid_client_map ?s 0 = Some 0" "cd_addr (clients ?s ! 0) = ([71], 2)" "app_sent ?s = []"
    by (simp_all add: srv_init_def Server_new_def)
  show ?thesis using removed_key_still_cached [OF d(1,2) s'] s' d(3,4) by (intro exI [of _ s']) (simp del: srv_run.simps)
qed

end
