(* ===== verification/Hex_Text.thy ===== *)
theory Hex_Text
  imports Prelude
begin

text \<open>
  Hexadecimal text, tokens and little-endian bytes of \<^verbatim>\<open>utils/print.cc\<close>. Identifiers become the names of the
  files of a back end through \<open>bytes_to_hex\<close>, which cuts a run of zero bytes at the end.
\<close>

section \<open>From bytes to text\<close>

definition hexes :: bytes where
  "hexes = [48, 49, 50, 51, 52, 53, 54, 55, 56, 57, 65, 66, 67, 68, 69, 70]"

definition hex_pair :: "byte \<Rightarrow> bytes" where
  "hex_pair b = [hexes ! unat (drop_bit 4 b), hexes ! unat (take_bit 4 b)]"

definition bytes_into_hex_string :: "bytes \<Rightarrow> bytes \<Rightarrow> bytes" where
  "bytes_into_hex_string data dststr = dststr @ concat (map hex_pair data)"

text \<open>The loop of \<^verbatim>\<open>bytes_into_hex_string_trunc0s\<close>; \<open>last_zero\<close> is the start of the run of zero bytes that is still
  open, and \<open>None\<close> for \<^verbatim>\<open>-1\<close>.\<close>

fun trunc0s_loop :: "bytes \<Rightarrow> nat \<Rightarrow> nat option \<Rightarrow> bytes \<Rightarrow> bytes \<times> nat option" where
  "trunc0s_loop [] i last_zero dststr = (dststr, last_zero)"
| "trunc0s_loop (b # bs) i last_zero dststr =
    trunc0s_loop bs (Suc i) (if b = 0 then (if last_zero = None then Some i else last_zero) else None) (dststr @ hex_pair b)"

text \<open>Called with an empty destination.\<close>

definition bytes_into_hex_string_trunc0s :: "bytes \<Rightarrow> bytes" where
  "bytes_into_hex_string_trunc0s data =
    (case trunc0s_loop data 0 None [] of
       (dststr, None) \<Rightarrow> dststr
     | (dststr, Some z) \<Rightarrow> take (2 * z) dststr @ [46, 46, 46, 48])"

definition bytes_to_hex :: "bytes \<Rightarrow> bytes" where
  "bytes_to_hex s = bytes_into_hex_string_trunc0s s"

section \<open>From text to bytes\<close>

definition get_digit_value :: "byte \<Rightarrow> int" where
  "get_digit_value digit =
    (if 48 \<le> digit \<and> digit \<le> 57 then uint digit - 48
     else if 65 \<le> digit \<and> digit \<le> 70 then uint digit - 65 + 10
     else if 97 \<le> digit \<and> digit \<le> 102 then uint digit - 97 + 10
     else - 1)"

text \<open>Byte \<open>i\<close> of the result is read from the characters \<open>i\<close> and \<open>i + 1\<close>, so that successive bytes share a
  character; \<open>None\<close> is the null pointer.\<close>

fun hex_loop :: "bytes \<Rightarrow> nat \<Rightarrow> bytes option" where
  "hex_loop hex_num 0 = Some []"
| "hex_loop (high # low # rest) (Suc n) =
    (if get_digit_value low < 0 \<or> get_digit_value high < 0 then None
     else map_option (Cons (word_of_int (get_digit_value low + 16 * get_digit_value high))) (hex_loop (low # rest) n))"
| "hex_loop hex_num (Suc n) = None"

definition hex_string_to_bytes :: "bytes \<Rightarrow> bytes option" where
  "hex_string_to_bytes hex_num = hex_loop hex_num (length hex_num div 2)"

section \<open>Tokens and numbers\<close>

function tokenize :: "bytes \<Rightarrow> bytes \<Rightarrow> bytes list" where
  "tokenize str delimiters =
    (let s = dropWhile (\<lambda>c. c \<in> set delimiters) str
     in if s = [] then []
        else takeWhile (\<lambda>c. c \<notin> set delimiters) s # tokenize (dropWhile (\<lambda>c. c \<notin> set delimiters) s) delimiters)"
  by pat_completeness auto
termination
proof (relation "measure (\<lambda>(str, d). length str)", goal_cases)
  case (2 str delimiters s)
  have "length (dropWhile (\<lambda>c. c \<notin> set delimiters) s) < length s"
  proof -
    have "hd s \<notin> set delimiters" using 2 hd_dropWhile [of "\<lambda>c. c \<in> set delimiters" str] by simp
    then obtain c cs where c: "s = c # cs" "c \<notin> set delimiters" using 2(2) by (cases s) auto
    then show ?thesis using length_dropWhile_le [of "\<lambda>c. c \<notin> set delimiters" cs] by simp
  qed
  also have "\<dots> \<le> length str" using 2 length_dropWhile_le by simp
  finally show ?case by simp
qed simp

declare tokenize.simps [simp del]

definition int_to_byte :: "u32 \<Rightarrow> bytes" where
  "int_to_byte i = map (\<lambda>x. ucast (drop_bit (8 * x) i AND 0xFF)) [0, 1, 2, 3]"

section \<open>Names are unambiguous\<close>

definition strip0 :: "bytes \<Rightarrow> bytes" where
  "strip0 bs = rev (dropWhile (\<lambda>b. b = 0) (rev bs))"

lemma strip0_snoc [simp]: "strip0 (bs @ [b]) = (if b = 0 then strip0 bs else bs @ [b])"
  by (simp add: strip0_def)

lemma length_strip0: "length (strip0 bs) \<le> length bs"
  using length_dropWhile_le [of _ "rev bs"] by (simp add: strip0_def)

lemma strip0_restore: "bs = strip0 bs @ replicate (length bs - length (strip0 bs)) 0"
proof (induction bs rule: rev_induct)
  case (snoc b bs)
  then show ?case
    using length_strip0 [of bs] by (auto simp: Suc_diff_le replicate_append_same [symmetric] simp flip: append_assoc)
qed (simp add: strip0_def)

lemma trunc0s_snoc:
  "trunc0s_loop (bs @ [b]) i z d =
    (case trunc0s_loop bs i z d of
       (d', z') \<Rightarrow> (d' @ hex_pair b, if b = 0 then (if z' = None then Some (i + length bs) else z') else None))"
proof (induction bs arbitrary: i z d)
  case (Cons a bs)
  show ?case unfolding append_Cons trunc0s_loop.simps Cons.IH by (simp only: list.size add_Suc_right add_Suc add_0_right)
qed simp

lemma trunc0s_parts:
  "trunc0s_loop bs 0 None [] =
    (concat (map hex_pair bs), if bs = [] \<or> last bs \<noteq> 0 then None else Some (length (strip0 bs)))"
proof (induction bs rule: rev_induct)
  case (snoc b bs)
  have "strip0 bs = bs" if "bs = [] \<or> last bs \<noteq> 0"
    using that by (cases bs rule: rev_cases) (simp_all add: strip0_def)
  then show ?case using snoc by (auto simp: trunc0s_snoc)
qed simp

lemma length_hex_text [simp]: "length (concat (map hex_pair bs)) = 2 * length bs"
  by (induction bs) (simp_all add: hex_pair_def)

lemma take_hex_text: "take (2 * n) (concat (map hex_pair bs)) = concat (map hex_pair (take n bs))"
proof (induction bs arbitrary: n)
  case (Cons b bs)
  then show ?case by (cases n) (simp_all add: hex_pair_def)
qed simp

lemma bytes_to_hex_strip:
  "bytes_to_hex bs = concat (map hex_pair (strip0 bs)) @ (if bs = [] \<or> last bs \<noteq> 0 then [] else [46, 46, 46, 48])"
proof (cases "bs = [] \<or> last bs \<noteq> 0")
  case True
  then have "strip0 bs = bs" by (cases bs rule: rev_cases) (simp_all add: strip0_def)
  then show ?thesis using True by (simp add: bytes_to_hex_def bytes_into_hex_string_trunc0s_def trunc0s_parts)
next
  case False
  have "take (length (strip0 bs)) bs = strip0 bs" by (subst (2) strip0_restore) simp
  then show ?thesis
    using False by (simp add: bytes_to_hex_def bytes_into_hex_string_trunc0s_def trunc0s_parts take_hex_text)
qed

lemma hex_digit_inj: "i < 16 \<Longrightarrow> j < 16 \<Longrightarrow> hexes ! i = hexes ! j \<Longrightarrow> i = j"
  using nth_eq_iff_index_eq [of hexes i j] by (simp add: hexes_def)

lemma nibbles: "unat (drop_bit 4 (x :: byte)) < 16" "unat (take_bit 4 x) < 16"
proof -
  have "unat x < 256" using unsigned_less [of x, where ?'a = nat] by simp
  moreover have "unat (drop_bit 4 x) = unat x div 16"
    using unat_drop_bit_eq [of 4 x] by (simp only: drop_bit_eq_div) simp
  ultimately show "unat (drop_bit 4 x) < 16" by linarith
  have "unat (take_bit 4 x) = take_bit 4 (unat x)" by (rule unsigned_take_bit_eq)
  then show "unat (take_bit 4 x) < 16" using take_bit_nat_less_exp [of 4 "unat x"] by simp
qed

lemma hex_pair_inj:
  assumes "hex_pair a = hex_pair b"
  shows "a = b"
proof -
  note h = nibbles
  have "drop_bit 4 a = drop_bit 4 b" "take_bit 4 a = take_bit 4 b"
    using assms hex_digit_inj [OF h(1) [of a] h(1) [of b]] hex_digit_inj [OF h(2) [of a] h(2) [of b]]
    by (simp_all add: hex_pair_def word_unat_eq_iff)
  then show ?thesis by (metis bits_ident)
qed

lemma hex_text_inj: "concat (map hex_pair xs) = concat (map hex_pair ys) \<Longrightarrow> xs = ys"
proof (induction xs arbitrary: ys)
  case Nil
  then have "length (concat (map hex_pair ys)) = 0" by (metis concat.simps(1) list.map(1) list.size(3))
  then show ?case unfolding length_hex_text by simp
next
  case (Cons x xs)
  then obtain y zs where "ys = y # zs" using length_hex_text [of "x # xs"] by (cases ys) (auto simp: hex_pair_def)
  then show ?case using Cons hex_pair_inj [of x y] by (auto simp: hex_pair_def)
qed

lemma dot_not_hex: "46 \<notin> set (concat (map hex_pair bs))"
proof -
  have "length hexes = 16" "46 \<notin> set hexes" by (simp_all add: hexes_def)
  moreover from this have "hexes ! i \<in> set hexes" if "i < 16" for i using that by simp
  ultimately have "46 \<notin> set (hex_pair b)" for b using nibbles [of b] unfolding hex_pair_def by (metis empty_iff insert_iff list.set)
  then show ?thesis by auto
qed

lemma bytes_to_hex_inj:
  assumes "bytes_to_hex s = bytes_to_hex t" and "length s = length t"
  shows "s = t"
proof -
  have z: "(s = [] \<or> last s \<noteq> 0) = (t = [] \<or> last t \<noteq> 0)"
  proof -
    have "46 \<in> set (bytes_to_hex u) \<longleftrightarrow> \<not> (u = [] \<or> last u \<noteq> 0)" for u
      using dot_not_hex [of "strip0 u"] by (simp add: bytes_to_hex_strip)
    from this [of s] this [of t] show ?thesis using assms(1) by metis
  qed
  have "concat (map hex_pair (strip0 s)) = concat (map hex_pair (strip0 t))"
    using assms(1) unfolding bytes_to_hex_strip z append_same_eq .
  then have "strip0 s = strip0 t" by (rule hex_text_inj)
  then have "strip0 s @ replicate (length s - length (strip0 s)) 0 = strip0 t @ replicate (length t - length (strip0 t)) 0"
    using assms(2) by simp
  then show ?thesis unfolding strip0_restore [symmetric] .
qed

text \<open>Decoding is not the inverse of encoding, already for two bytes.\<close>

lemma hex_decode_wrong: "hex_string_to_bytes (bytes_to_hex [0x12, 0x34]) = Some [0x12, 0x23]"
  by code_simp

end
