(* ===== verification/Backend_Db.thy ===== *)
theory Backend_Db
  imports FawnDS_Move Silt_Types Ring Kv_Messages Hex_Text
begin

text \<open>
  The state of a back end and its table of key ranges (\<^verbatim>\<open>fawnkv/node_mgr.h\<close>, \<^verbatim>\<open>fawnkv/node_mgr_db.cpp\<close>). A
  range has a SILT store for the data, a FAWN data store whose header says what the range is, and the queues of
  puts that were forwarded and not yet acknowledged.
\<close>

section \<open>The stores below a back end\<close>

text \<open>
  The SILT store is the one its configuration file names, behind the virtual interface \<^verbatim>\<open>silt::FawnDS\<close>: an
  argument, of which nothing is assumed, so that what is shown of a back end holds for every implementation of the
  interface and for every result and state its operations may have. The rest are the page size, the size limit of
  files, what \<^verbatim>\<open>malloc\<close> leaves in memory, and the table of hash functions, which a back end does not change, as all
  its stores have text keys.
\<close>

record 's be_env =
  silt_New :: 's
  silt_Create :: "'s \<Rightarrow> FawnDS_Return \<times> 's"
  silt_Open :: "'s \<Rightarrow> FawnDS_Return \<times> 's"
  silt_Put :: "'s \<Rightarrow> bytes \<Rightarrow> bytes \<Rightarrow> FawnDS_Return \<times> 's"
  silt_Delete :: "'s \<Rightarrow> bytes \<Rightarrow> FawnDS_Return \<times> 's"
  silt_Get :: "'s \<Rightarrow> bytes \<Rightarrow> FawnDS_Return \<times> bytes \<times> 's"
  be_hashes :: "hashfn list"
  be_pagesize :: nat
  be_filecap :: nat
  be_garbage :: bytes

section \<open>State\<close>

datatype rwlock = Free | Readers nat | Writer

datatype lock_mode = NOLOCK | RDLOCK | WRLOCK

record 's interval_db =
  siltds :: 's
  idb_h :: "fawnds option"
  idb_cursor :: split_cursor
  tempDS :: "fawnds option"
  idb_name :: bytes
  seq_msg_queue :: "(u32 \<times> bytes \<times> bytes) list"
  seq_cont_queue :: "(u32 \<times> u64) list"
  seq_msg_queue_tmp :: "(u32 \<times> bytes \<times> bytes) list"
  seq_cont_queue_tmp :: "(u32 \<times> u64) list"
  splitPoint :: bytes
  largest_seq :: u32
  last_ack :: u32
  last_put :: u32
  idb_sequence :: u32
  idb_valid :: bool
  idb_vid :: bytes
  dbLock :: rwlock

record get_request =
  gq_key :: bytes
  gq_continuation :: u64
  gq_ip :: bytes

record get_answer =
  ga_key :: bytes
  ga_continuation :: u64
  ga_value :: bytes
  ga_status :: u16
  ga_ip :: bytes

text \<open>The neighbours of each virtual node and the connections; a client is known by the address it is connected
  to, and \<open>Some None\<close> is an entry with a null pointer.\<close>

record connections =
  vid_sid_succIP_map :: "bytes \<rightharpoonup> bytes \<times> bytes"
  vid_pid_predIP_map :: "bytes \<rightharpoonup> bytes \<times> bytes"
  ip_client_map :: "bytes \<rightharpoonup> bytes option"
  ip_fe_map :: "bytes \<rightharpoonup> bytes option"
  ip_socketlock_map :: "bytes set"

text \<open>The calls on the manager, and everything that a back end sends.\<close>

datatype manager_msg =
    m_static_join bytes u32
  | m_rejoin "bytes list" "bytes list" bytes u32
  | m_join bytes u32 bool
  | m_vnode_pre_join bytes bytes u32
  | m_vnode_join bytes bytes u32 flushmode
  | m_flush_split bytes bytes bytes bytes "bytes list" "bytes list" "bytes list" int bytes
  | m_flush_nosplit bytes
  | m_chain_repair_done bytes bytes
  | m_heartbeat bytes

datatype be_output = To_backend bytes backend_msg | To_frontend bytes frontend_msg | To_manager manager_msg

text \<open>Threads that a handler starts.\<close>

datatype be_thread = precopyThread bytes bytes bytes bytes u32 | splitThread bytes

record 's node_mgr =
  nm_IP :: bytes
  nm_port :: u32
  nm_overwrite :: bool
  nm_unknown_ids :: bool
  nm_filebase :: bytes
  nm_files :: "bytes \<rightharpoonup> os_file"
  nm_dbs :: "'s interval_db list"
  nm_ring :: "ring option"
  nm_conn :: connections
  get_queue :: "get_request list"
  get_resp_queue :: "get_answer list"
  vid_precopy_map :: "bytes \<rightharpoonup> u32"
  vid_extension_map :: "bytes \<rightharpoonup> flushmode"
  m_VnodeIDs :: "bytes list"
  curr_vnode :: u32
  num_precopies :: u32
  version_map :: "bytes \<rightharpoonup> u64"
  nm_num_puts :: u32
  nm_num_gets :: u32
  nm_num_put_ws :: u32
  nm_threads :: "be_thread list"
  nm_sent :: "be_output list"

definition upd_db :: "'s node_mgr \<Rightarrow> nat \<Rightarrow> ('s interval_db \<Rightarrow> 's interval_db) \<Rightarrow> 's node_mgr" where
  "upd_db nm i f = nm\<lparr>nm_dbs := (nm_dbs nm)[i := f (nm_dbs nm ! i)]\<rparr>"

definition emit :: "'s node_mgr \<Rightarrow> be_output \<Rightarrow> 's node_mgr" where
  "emit nm x = nm\<lparr>nm_sent := nm_sent nm @ [x]\<rparr>"

section \<open>Locks\<close>

fun lock_blocks :: "lock_mode \<Rightarrow> rwlock \<Rightarrow> bool" where
  "lock_blocks WRLOCK Free = False"
| "lock_blocks WRLOCK _ = True"
| "lock_blocks _ Writer = True"
| "lock_blocks _ _ = False"

fun lock_db :: "lock_mode \<Rightarrow> rwlock \<Rightarrow> rwlock" where
  "lock_db WRLOCK l = Writer"
| "lock_db RDLOCK (Readers n) = Readers (Suc n)"
| "lock_db RDLOCK l = Readers 1"
| "lock_db NOLOCK l = l"

fun unlock_db :: "rwlock \<Rightarrow> rwlock" where
  "unlock_db (Readers (Suc (Suc n))) = Readers (Suc n)"
| "unlock_db _ = Free"

definition unlock_idb :: "'s node_mgr \<Rightarrow> nat \<Rightarrow> 's node_mgr" where
  "unlock_idb nm i = upd_db nm i (\<lambda>d. d\<lparr>dbLock := unlock_db (dbLock d)\<rparr>)"

section \<open>Finding a range\<close>

text \<open>The loop of \<^verbatim>\<open>findIntervalDb\<close> takes the lock of every range it looks at, also for \<open>NOLOCK\<close>; \<open>Deadlock\<close> is a
  lock that is not free. A range is a position in \<^verbatim>\<open>dbs\<close>.\<close>

fun find_scan :: "dbid \<Rightarrow> lock_mode \<Rightarrow> 's interval_db list \<Rightarrow> nat \<Rightarrow> nat option run" where
  "find_scan p_id m [] i = Done None"
| "find_scan p_id m (d # ds) i =
    (if lock_blocks m (dbLock d) then Deadlock
     else bind_run (deref (idb_h d)) (\<lambda>h.
       if between (getStartID h) (getEndID h) p_id \<and> idb_valid d then Done (Some i) else find_scan p_id m ds (Suc i)))"

definition findIntervalDb :: "'s node_mgr \<Rightarrow> bytes \<Rightarrow> lock_mode \<Rightarrow> (nat option \<times> 's node_mgr) run" where
  "findIntervalDb nm key m =
    bind_run (find_scan (DBID key) m (nm_dbs nm) 0) (\<lambda>r.
      Done (r, case r of None \<Rightarrow> nm | Some i \<Rightarrow> upd_db nm i (\<lambda>d. d\<lparr>dbLock := lock_db m (dbLock d)\<rparr>)))"

fun find_all_scan :: "dbid \<Rightarrow> dbid \<Rightarrow> lock_mode \<Rightarrow> 's interval_db list \<Rightarrow> nat \<Rightarrow> nat list run" where
  "find_all_scan s e m [] i = Done []"
| "find_all_scan s e m (d # ds) i =
    (if lock_blocks m (dbLock d) then Deadlock
     else bind_run (deref (idb_h d)) (\<lambda>h.
       bind_run (find_all_scan s e m ds (Suc i)) (\<lambda>r.
         Done (if between s e (getEndID h) \<and> (between s e (getStartID h) \<or> dbid_eq s (getStartID h)) then i # r else r))))"

definition findAllIntervalDb :: "'s node_mgr \<Rightarrow> bytes \<Rightarrow> bytes \<Rightarrow> lock_mode \<Rightarrow> (nat list \<times> 's node_mgr) run" where
  "findAllIntervalDb nm startKey endKey m =
    bind_run (find_all_scan (DBID startKey) (DBID endKey) m (nm_dbs nm) 0) (\<lambda>r.
      Done (r, foldl (\<lambda>nm i. upd_db nm i (\<lambda>d. d\<lparr>dbLock := lock_db m (dbLock d)\<rparr>)) nm r))"

definition findVID :: "'s node_mgr \<Rightarrow> bytes \<Rightarrow> bytes run" where
  "findVID nm key =
    bind_run (findIntervalDb nm key NOLOCK) (\<lambda>(r, nm). bind_run (deref r) (\<lambda>i. Done (idb_vid (nm_dbs nm ! i))))"

section \<open>Creating and removing ranges\<close>

definition NUM_RECORD_INIT :: u64 where "NUM_RECORD_INIT = 4194304"
definition NUM_RECORD_INIT_TEMP :: u64 where "NUM_RECORD_INIT_TEMP = 4194304 div 100"

text \<open>The bit patterns of the \<^verbatim>\<open>double\<close>s 0.9 and 0.8.\<close>

definition DELETED_RATIO :: u64 where "DELETED_RATIO = 0x3FECCCCCCCCCCCCD"
definition LOAD_FACTOR :: u64 where "LOAD_FACTOR = 0x3FE999999999999A"

text \<open>The file of a name: that of an open range, or one that lies on the disk. Each open store works on its own
  view of the file.\<close>

definition find_file :: "'s node_mgr \<Rightarrow> bytes \<Rightarrow> os_file option" where
  "find_file nm name =
    (case filter (\<lambda>d. idb_name d = name \<and> idb_h d \<noteq> None) (nm_dbs nm) of
       d # _ \<Rightarrow> map_option datastore (idb_h d)
     | [] \<Rightarrow> nm_files nm name)"

definition interval_name :: "'s node_mgr \<Rightarrow> bytes \<Rightarrow> bytes \<Rightarrow> bytes" where
  "interval_name nm prefix endid = take 255 (nm_filebase nm @ prefix @ bytes_to_hex endid)"

text \<open>A new FAWN data store for a range; a failed creation is a null pointer that \<^verbatim>\<open>setStartID\<close> follows.\<close>

definition ranged_store :: "'s be_env \<Rightarrow> u64 \<Rightarrow> bytes \<Rightarrow> bytes \<Rightarrow> fawnds run" where
  "ranged_store env n startid endid =
    bind_run (deref (Create_FawnDS (be_pagesize env) (be_filecap env) n DELETED_RATIO LOAD_FACTOR TEXT_KEYS)) (\<lambda>h.
      Done (snd (setEndID (snd (setStartID h (DBID startid))) (DBID endid))))"

text \<open>\<open>u\<close> is what the new object's \<^verbatim>\<open>last_put\<close> happens to hold.\<close>

definition init_interval_db :: "'s be_env \<Rightarrow> u32 \<Rightarrow> 's node_mgr \<Rightarrow> bytes \<Rightarrow> bytes \<Rightarrow> bytes \<Rightarrow> 's interval_db run" where
  "init_interval_db env u nm endid my_vid startid =
    bind_run
      (if startid \<noteq> [] then
         bind_run (ranged_store env NUM_RECORD_INIT startid endid) (\<lambda>h. Done (Some h, snd (silt_Create env (silt_New env))))
       else
         (case Open_FawnDS (be_pagesize env) (be_garbage env) TEXT_KEYS (be_hashes env) (find_file nm (interval_name nm [] endid)) of
            Fault \<Rightarrow> Crash
          | Ret (_, h) \<Rightarrow> Done (h, snd (silt_Open env (silt_New env)))))
      (\<lambda>(h, s).
        Done \<lparr>siltds = s, idb_h = h, idb_cursor = \<lparr>currSplit = 0, precopyIP = []\<rparr>, tempDS = None,
          idb_name = interval_name nm [] endid, seq_msg_queue = [], seq_cont_queue = [], seq_msg_queue_tmp = [],
          seq_cont_queue_tmp = [], splitPoint = [], largest_seq = 0, last_ack = 0, last_put = u, idb_sequence = 1,
          idb_valid = True, idb_vid = (if my_vid = [] then endid else my_vid), dbLock = Free\<rparr>)"

definition insertIntervalFile :: "'s node_mgr \<Rightarrow> 's interval_db \<Rightarrow> 's node_mgr" where
  "insertIntervalFile nm d = nm\<lparr>nm_dbs := nm_dbs nm @ [d]\<rparr>"

definition removeIntervalFile :: "'s node_mgr \<Rightarrow> nat \<Rightarrow> 's node_mgr" where
  "removeIntervalFile nm i = nm\<lparr>nm_dbs := take i (nm_dbs nm) @ drop (Suc i) (nm_dbs nm)\<rparr>"

definition create_interval_file :: "'s be_env \<Rightarrow> u32 \<Rightarrow> 's node_mgr \<Rightarrow> bytes \<Rightarrow> bytes \<Rightarrow> bytes \<Rightarrow> 's node_mgr run" where
  "create_interval_file env u nm ps_endid ps_startid my_vid =
    (let filename = interval_name nm [] ps_endid
     in if find_file nm filename \<noteq> None \<and> \<not> nm_overwrite nm then
          bind_run (init_interval_db env u nm ps_endid my_vid []) (\<lambda>d. Done (insertIntervalFile nm d))
        else if filename \<in> set (map idb_name (nm_dbs nm)) then Done nm
        else bind_run (init_interval_db env u nm ps_endid my_vid ps_startid) (\<lambda>d. Done (insertIntervalFile nm d)))"

text \<open>The list of start identifiers is walked along with that of the end identifiers; its end is passed when it is
  the shorter one.\<close>

fun createIntervalFiles :: "'s be_env \<Rightarrow> u32 \<Rightarrow> 's node_mgr \<Rightarrow> bytes list \<Rightarrow> bytes list \<Rightarrow> bytes \<Rightarrow> 's node_mgr run" where
  "createIntervalFiles env u nm [] sids my_vid = Done nm"
| "createIntervalFiles env u nm (v # vids) (s # sids) my_vid =
    bind_run (create_interval_file env u nm v s my_vid) (\<lambda>nm. createIntervalFiles env u nm vids sids my_vid)"
| "createIntervalFiles env u nm (v # vids) [] my_vid = Crash"

fun openIntervalFiles :: "'s be_env \<Rightarrow> u32 \<Rightarrow> 's node_mgr \<Rightarrow> bytes list \<Rightarrow> bytes \<Rightarrow> 's node_mgr run" where
  "openIntervalFiles env u nm [] my_vid = Done nm"
| "openIntervalFiles env u nm (v # vids) my_vid =
    bind_run (init_interval_db env u nm v my_vid []) (\<lambda>d. openIntervalFiles env u (insertIntervalFile nm d) vids my_vid)"

definition createTempStore :: "'s be_env \<Rightarrow> bytes \<Rightarrow> bytes \<Rightarrow> fawnds run" where
  "createTempStore env startid_str endid_str = ranged_store env NUM_RECORD_INIT_TEMP startid_str endid_str"

section \<open>Splitting a range\<close>

text \<open>Nothing but the two stores' own threads writes to the FAWN data stores, so the scan of \<^verbatim>\<open>Split\<close> finds the
  store as it left it.\<close>

definition handle_split :: "'s be_env \<Rightarrow> u32 \<Rightarrow> 's node_mgr \<Rightarrow> bytes \<Rightarrow> 's node_mgr run" where
  "handle_split env u nm key =
    bind_run (findIntervalDb nm key NOLOCK) (\<lambda>(r, nm).
      case r of
        None \<Rightarrow> Done nm
      | Some i \<Rightarrow>
          let db = nm_dbs nm ! i
          in bind_run (deref (idb_h db)) (\<lambda>h.
             bind_run (init_interval_db env u nm key (idb_vid db) (take (unat DBID_LENGTH) (dbid_value (getStartID h)))) (\<lambda>new_db.
             bind_run (deref (idb_h new_db)) (\<lambda>hnew.
               let nm = insertIntervalFile nm new_db; j = length (nm_dbs nm) - 1
               in case Split (be_hashes env) (be_pagesize env) h hnew [h, h] of
                    Fault \<Rightarrow> Crash
                  | Ret None \<Rightarrow> Loops
                  | Ret (Some (success, held, st)) \<Rightarrow>
                      let nm = upd_db nm j (\<lambda>d. d\<lparr>idb_h := Some (other_db st)\<rparr>);
                          nm = (if held then upd_db nm i (\<lambda>d. d\<lparr>dbLock := lock_db RDLOCK (dbLock d)\<rparr>) else nm)
                      in if success then
                           (let nm = upd_db nm i (\<lambda>d. d\<lparr>idb_h := Some (snd (setStartID h (DBID key))), splitPoint := []\<rparr>);
                                nm = upd_db nm j (\<lambda>d. d\<lparr>seq_msg_queue := seq_msg_queue d @ seq_msg_queue_tmp (nm_dbs nm ! i)\<rparr>);
                                nm = upd_db nm i (\<lambda>d. d\<lparr>seq_msg_queue_tmp := []\<rparr>)
                            in Done (unlock_idb nm i))
                         else Done nm))))"

end
