(* ===== verification/Backend.thy ===== *)
theory Backend
  imports Backend_Db
begin

text \<open>
  The request handlers of a back end (\<^verbatim>\<open>fawnkv/FawnKVBackendHandler.cpp\<close>) and its connections
  (\<^verbatim>\<open>fawnkv/node_mgr.cpp\<close>). What a handler sends is collected in \<open>nm_sent\<close>, and the threads it starts in
  \<open>nm_threads\<close>. A put is in two parts, up to and after the point where it unlocks the range. Connections are taken to be made. The answer of a synchronous call is an argument,
  and so is what an uninitialised variable holds.
\<close>

section \<open>Connections\<close>

definition connect_to_frontend :: "'s node_mgr \<Rightarrow> bytes \<Rightarrow> bytes option \<times> 's node_mgr" where
  "connect_to_frontend nm nip =
    (case ip_fe_map (nm_conn nm) nip of
       None \<Rightarrow>
         let c = getID (getIP nip) (getPort nip)
         in (Some c, nm\<lparr>nm_conn := (nm_conn nm)\<lparr>ip_fe_map := (ip_fe_map (nm_conn nm))(nip \<mapsto> Some c),
               ip_socketlock_map := insert nip (ip_socketlock_map (nm_conn nm))\<rparr>\<rparr>)
     | Some c \<Rightarrow> (c, nm))"

text \<open>The connection is looked up under the identifier rebuilt from the parts of \<open>nip\<close>, but entered and read under
  \<open>nip\<close> itself.\<close>

definition backend_client :: "connections \<Rightarrow> bytes \<Rightarrow> bytes option \<times> connections" where
  "backend_client c nip =
    (let addr = getID (getIP nip) (getPort nip)
     in case ip_client_map c addr of
          None \<Rightarrow> (Some addr, c\<lparr>ip_client_map := (ip_client_map c)(nip \<mapsto> Some addr), ip_socketlock_map := insert nip (ip_socketlock_map c)\<rparr>)
        | Some _ \<Rightarrow>
            (case ip_client_map c nip of
               None \<Rightarrow> (None, c\<lparr>ip_client_map := (ip_client_map c)(nip \<mapsto> None)\<rparr>)
             | Some client \<Rightarrow> (client, c)))"

definition connect_to_backend :: "'s node_mgr \<Rightarrow> bytes \<Rightarrow> bytes \<Rightarrow> bytes \<Rightarrow> bool \<Rightarrow> bytes option \<times> 's node_mgr" where
  "connect_to_backend nm vid nid nip bpred =
    (case backend_client (nm_conn nm) nip of
       (backend, c) \<Rightarrow>
         (backend,
          nm\<lparr>nm_conn :=
            (if vid = [] then c
             else if bpred then c\<lparr>vid_pid_predIP_map := (vid_pid_predIP_map c)(vid \<mapsto> (nid, nip))\<rparr>
             else c\<lparr>vid_sid_succIP_map := (vid_sid_succIP_map c)(vid \<mapsto> (nid, nip))\<rparr>)\<rparr>))"

text \<open>\<^verbatim>\<open>init\<close>: a front end that connects anew.\<close>

definition nm_init :: "'s node_mgr \<Rightarrow> bytes \<Rightarrow> u32 \<Rightarrow> 's node_mgr" where
  "nm_init nm ip p = nm\<lparr>nm_conn := (nm_conn nm)\<lparr>ip_fe_map := (ip_fe_map (nm_conn nm))(getID ip p := None)\<rparr>\<rparr>"

definition get_pred_client :: "'s node_mgr \<Rightarrow> bytes \<Rightarrow> bytes option" where
  "get_pred_client nm vid =
    (case vid_pid_predIP_map (nm_conn nm) vid of
       None \<Rightarrow> None
     | Some p \<Rightarrow> (case ip_client_map (nm_conn nm) (snd p) of None \<Rightarrow> None | Some c \<Rightarrow> c))"

definition get_successor_client :: "'s node_mgr \<Rightarrow> bytes \<Rightarrow> bytes option" where
  "get_successor_client nm vid =
    (case vid_sid_succIP_map (nm_conn nm) vid of
       None \<Rightarrow> None
     | Some p \<Rightarrow> (case ip_client_map (nm_conn nm) (snd p) of None \<Rightarrow> None | Some c \<Rightarrow> c))"

text \<open>\<^verbatim>\<open>vid_sid_succIP_map[vid].second\<close> and \<^verbatim>\<open>vid_pid_predIP_map[vid].second\<close>, which enter an empty pair for a key
  they do not find.\<close>

definition succ_ip :: "'s node_mgr \<Rightarrow> bytes \<Rightarrow> bytes \<times> 's node_mgr" where
  "succ_ip nm vid =
    (case vid_sid_succIP_map (nm_conn nm) vid of
       Some p \<Rightarrow> (snd p, nm)
     | None \<Rightarrow> ([], nm\<lparr>nm_conn := (nm_conn nm)\<lparr>vid_sid_succIP_map := (vid_sid_succIP_map (nm_conn nm))(vid \<mapsto> ([], []))\<rparr>\<rparr>))"

definition pred_ip :: "'s node_mgr \<Rightarrow> bytes \<Rightarrow> bytes \<times> 's node_mgr" where
  "pred_ip nm vid =
    (case vid_pid_predIP_map (nm_conn nm) vid of
       Some p \<Rightarrow> (snd p, nm)
     | None \<Rightarrow> ([], nm\<lparr>nm_conn := (nm_conn nm)\<lparr>vid_pid_predIP_map := (vid_pid_predIP_map (nm_conn nm))(vid \<mapsto> ([], []))\<rparr>\<rparr>))"

text \<open>A call on a client under the lock of its socket: the lock is a null pointer where there is no entry for
  \<open>nip\<close>, the client where there is no connection.\<close>

definition call_backend :: "'s node_mgr \<Rightarrow> bytes option \<Rightarrow> bytes \<Rightarrow> backend_msg \<Rightarrow> 's node_mgr run" where
  "call_backend nm client nip x =
    bind_run (check (nip \<in> ip_socketlock_map (nm_conn nm))) (\<lambda>_.
      bind_run (deref client) (\<lambda>addr. Done (emit nm (To_backend addr x))))"

definition call_frontend :: "'s node_mgr \<Rightarrow> bytes option \<Rightarrow> bytes \<Rightarrow> frontend_msg \<Rightarrow> 's node_mgr run" where
  "call_frontend nm client ip x =
    bind_run (check (ip \<in> ip_socketlock_map (nm_conn nm))) (\<lambda>_.
      bind_run (deref client) (\<lambda>addr. Done (emit nm (To_frontend addr x))))"

section \<open>Puts\<close>

text \<open>Buffering a put: into the temporary queues while the range is being split.\<close>

definition buffer_put :: "u64 \<Rightarrow> bytes \<Rightarrow> bytes \<Rightarrow> u64 \<Rightarrow> 's interval_db \<Rightarrow> 's interval_db" where
  "buffer_put seq key v continuation d =
    (if splitPoint d = [] then
       d\<lparr>seq_msg_queue := seq_msg_queue d @ [(ucast seq, key, v)], seq_cont_queue := seq_cont_queue d @ [(ucast seq, continuation)]\<rparr>
     else
       d\<lparr>seq_msg_queue_tmp := seq_msg_queue_tmp d @ [(ucast seq, key, v)],
         seq_cont_queue_tmp := seq_cont_queue_tmp d @ [(ucast seq, continuation)]\<rparr>)"

text \<open>The first half of \<^verbatim>\<open>put_helper\<close>: the store is changed, the put buffered, the range unlocked. The result is \<^verbatim>\<open>ret\<close>,
  which stays uninitialised (\<open>ret0\<close>) without a store, and the owner of the range.\<close>

definition put_store :: "'s be_env \<Rightarrow> FawnDS_Return \<Rightarrow> 's node_mgr \<Rightarrow> bytes \<Rightarrow> bytes \<Rightarrow> u32 \<Rightarrow> u64 \<Rightarrow> u64 \<Rightarrow> bool \<Rightarrow> bool \<Rightarrow>
    nat option \<Rightarrow> (FawnDS_Return \<times> bytes \<times> 's node_mgr) run" where
  "put_store env ret0 nm key v new_hops continuation seq fl remove io =
    (case io of
       None \<Rightarrow> Done (ret0, [], nm)
     | Some i \<Rightarrow>
         let d = nm_dbs nm ! i;
             h = (if tempDS d = None \<or> fl then idb_h d else tempDS d)
         in if h = None then Done (ret0, [], nm)
            else bind_run (deref (idb_h d)) (\<lambda>_.
              let (ret, s) = (if remove then silt_Delete env (siltds d) key else silt_Put env (siltds d) key v);
                  d = d\<lparr>siltds := s, last_put := ucast seq\<rparr>;
                  d = (if fl then d
                       else if new_hops = 0 then d\<lparr>last_ack := ucast seq\<rparr>
                       else buffer_put seq key v continuation d)
              in Done (ret, idb_vid d, unlock_idb (upd_db nm i (\<lambda>_. d)) i)))"

text \<open>\<open>version = -1\<close> marks a plain put. The success flag \<^verbatim>\<open>rc\<close> of the answer is never set to true.\<close>

definition put_answer :: "'s node_mgr \<Rightarrow> bytes option \<Rightarrow> bytes \<Rightarrow> bytes \<Rightarrow> u64 \<Rightarrow> u64 \<Rightarrow> 's node_mgr run" where
  "put_answer nm fe ip key continuation version =
    call_frontend nm fe ip
      (if version \<noteq> - 1 then put_w_response key continuation False version (nm_IP nm)
       else put_response key continuation False (nm_IP nm))"

text \<open>The acknowledgement of the tail, and the put that other nodes pass on. The head numbers a put that comes without
  a number, after it has buffered it with the number zero.\<close>

definition put_tail :: "'s node_mgr \<Rightarrow> bytes \<Rightarrow> bytes \<Rightarrow> u64 \<Rightarrow> u32 \<Rightarrow> 's node_mgr run" where
  "put_tail nm owner_vid key seq ackhops =
    (if 0 <s ackhops - 1 then
       bind_run (deref (get_pred_client nm owner_vid)) (\<lambda>pred.
         let (nip, nm) = pred_ip nm owner_vid
         in call_backend nm (Some pred) nip (put_ack key seq (ackhops - 2) (nm_IP nm)))
     else Done nm)"

definition put_forward :: "'s node_mgr \<Rightarrow> nat option \<Rightarrow> bytes \<Rightarrow> bytes \<Rightarrow> bytes \<Rightarrow> u32 \<Rightarrow> u32 \<Rightarrow> u64 \<Rightarrow> u64 \<Rightarrow> bool \<Rightarrow> bool \<Rightarrow> bytes \<Rightarrow> 's node_mgr run" where
  "put_forward nm io owner_vid key v new_hops ackhops continuation seq fl remove ip =
    bind_run (deref (get_successor_client nm owner_vid)) (\<lambda>succ.
      let (nip, nm) = succ_ip nm owner_vid; s = (ucast seq :: u32)
      in bind_run
           (if s = 0 then
              bind_run (deref io) (\<lambda>i.
                Done (idb_sequence (nm_dbs nm ! i), upd_db nm i (\<lambda>d. d\<lparr>idb_sequence := idb_sequence d + 1\<rparr>)))
            else Done (s, nm))
           (\<lambda>(s, nm). call_backend nm (Some succ) nip (put key v new_hops ackhops continuation (ucast s) fl remove ip)))"

text \<open>The local variables of \<^verbatim>\<open>put_helper\<close> at the point where it has unlocked the range. The server runs a thread for
  every connection, so other requests may be handled between this point and the end of the function.\<close>

record put_thread =
  pt_fe :: "bytes option"
  pt_ret :: FawnDS_Return
  pt_owner :: bytes
  pt_io :: "nat option"
  pt_key :: bytes
  pt_value :: bytes
  pt_hops :: u32
  pt_ackhops :: u32
  pt_cont :: u64
  pt_seq :: u64
  pt_flush :: bool
  pt_remove :: bool
  pt_ip :: bytes
  pt_version :: u64

text \<open>Up to the unlocking of the range, and from there to the end.\<close>

definition put_begin :: "'s be_env \<Rightarrow> FawnDS_Return \<Rightarrow> 's node_mgr \<Rightarrow> bytes \<Rightarrow> bytes \<Rightarrow> u32 \<Rightarrow> u32 \<Rightarrow> u64 \<Rightarrow> u64 \<Rightarrow> bool \<Rightarrow> bool \<Rightarrow> bytes \<Rightarrow>
    nat option \<Rightarrow> u64 \<Rightarrow> (put_thread \<times> 's node_mgr) run" where
  "put_begin env ret0 nm key v hops ackhops continuation seq fl remove ip io version =
    (let (fe, nm) = connect_to_frontend nm ip; new_hops = hops - 1
     in bind_run (put_store env ret0 nm key v new_hops continuation seq fl remove io) (\<lambda>(ret, owner_vid, nm).
          Done (\<lparr>pt_fe = fe, pt_ret = ret, pt_owner = owner_vid, pt_io = io, pt_key = key, pt_value = v, pt_hops = new_hops,
            pt_ackhops = ackhops, pt_cont = continuation, pt_seq = seq, pt_flush = fl, pt_remove = remove, pt_ip = ip,
            pt_version = version\<rparr>, nm)))"

definition put_finish :: "'s node_mgr \<Rightarrow> put_thread \<Rightarrow> 's node_mgr run" where
  "put_finish nm t =
    (if pt_ret t \<noteq> OK then put_answer nm (pt_fe t) (pt_ip t) (pt_key t) (pt_cont t) (pt_version t)
     else if pt_flush t then Done nm
     else if pt_hops t = 0 then
       bind_run (put_answer nm (pt_fe t) (pt_ip t) (pt_key t) (pt_cont t) (pt_version t)) (\<lambda>nm.
         put_tail nm (pt_owner t) (pt_key t) (pt_seq t) (pt_ackhops t))
     else put_forward nm (pt_io t) (pt_owner t) (pt_key t) (pt_value t) (pt_hops t) (pt_ackhops t) (pt_cont t) (pt_seq t)
       (pt_flush t) (pt_remove t) (pt_ip t))"

definition put_helper :: "'s be_env \<Rightarrow> FawnDS_Return \<Rightarrow> 's node_mgr \<Rightarrow> bytes \<Rightarrow> bytes \<Rightarrow> u32 \<Rightarrow> u32 \<Rightarrow> u64 \<Rightarrow> u64 \<Rightarrow> bool \<Rightarrow> bool \<Rightarrow> bytes \<Rightarrow>
    nat option \<Rightarrow> u64 \<Rightarrow> 's node_mgr run" where
  "put_helper env ret0 nm key v hops ackhops continuation seq fl remove ip io version =
    bind_run (put_begin env ret0 nm key v hops ackhops continuation seq fl remove ip io version) (\<lambda>(t, nm). put_finish nm t)"

text \<open>\<^verbatim>\<open>put\<close> in the same two parts. It calls its helper with \<^verbatim>\<open>false\<close> in the place of its own \<^verbatim>\<open>flush\<close> argument.\<close>

definition nm_put_begin :: "'s be_env \<Rightarrow> FawnDS_Return \<Rightarrow> 's node_mgr \<Rightarrow> bytes \<Rightarrow> bytes \<Rightarrow> u32 \<Rightarrow> u32 \<Rightarrow> u64 \<Rightarrow> u64 \<Rightarrow> bool \<Rightarrow> bool \<Rightarrow> bytes \<Rightarrow>
    (put_thread \<times> 's node_mgr) run" where
  "nm_put_begin env ret0 nm key v hops ackhops continuation seq fl remove ip =
    bind_run (findIntervalDb nm key WRLOCK) (\<lambda>(io, nm).
      put_begin env ret0 nm key v hops ackhops continuation seq False remove ip io (- 1))"

definition nm_put_finish :: "'s node_mgr \<Rightarrow> put_thread \<Rightarrow> 's node_mgr run" where
  "nm_put_finish nm t = bind_run (put_finish nm t) (\<lambda>nm. Done (nm\<lparr>nm_num_puts := nm_num_puts nm + 1\<rparr>))"

definition nm_put :: "'s be_env \<Rightarrow> FawnDS_Return \<Rightarrow> 's node_mgr \<Rightarrow> bytes \<Rightarrow> bytes \<Rightarrow> u32 \<Rightarrow> u32 \<Rightarrow> u64 \<Rightarrow> u64 \<Rightarrow> bool \<Rightarrow> bool \<Rightarrow> bytes \<Rightarrow> 's node_mgr run" where
  "nm_put env ret0 nm key v hops ackhops continuation seq fl remove ip =
    bind_run (nm_put_begin env ret0 nm key v hops ackhops continuation seq fl remove ip) (\<lambda>(t, nm). nm_put_finish nm t)"

definition nm_put_w :: "'s be_env \<Rightarrow> FawnDS_Return \<Rightarrow> 's node_mgr \<Rightarrow> bytes \<Rightarrow> bytes \<Rightarrow> u32 \<Rightarrow> u32 \<Rightarrow> u64 \<Rightarrow> u64 \<Rightarrow> bool \<Rightarrow> bool \<Rightarrow> bytes \<Rightarrow> 's node_mgr run" where
  "nm_put_w env ret0 nm key v hops ackhops continuation seq fl remove ip =
    bind_run (findIntervalDb nm key WRLOCK) (\<lambda>(io, nm).
      let version = (case version_map nm key of None \<Rightarrow> 0 | Some x \<Rightarrow> x);
          nm = nm\<lparr>version_map := (version_map nm)(key \<mapsto> version + 1)\<rparr>;
          full_key = key @ [58] @ dec_int (sint version)
      in bind_run (put_helper env ret0 nm full_key v hops ackhops continuation seq fl remove ip io version) (\<lambda>nm.
           Done (nm\<lparr>nm_num_put_ws := nm_num_put_ws nm + 1\<rparr>)))"

section \<open>Acknowledgements\<close>

text \<open>The queued numbers are unsigned, the acknowledged one is signed.\<close>

definition acked :: "u64 \<Rightarrow> u32 \<times> bytes \<times> bytes \<Rightarrow> bool" where
  "acked seq m \<longleftrightarrow> uint (fst m) \<le> sint seq"

definition drop_acked :: "u64 \<Rightarrow> 's interval_db \<Rightarrow> 's interval_db" where
  "drop_acked seq d =
    (let d = d\<lparr>last_ack := ucast seq\<rparr>;
         tmp = (if splitPoint d = [] then [] else takeWhile (acked seq) (seq_msg_queue_tmp d));
         d = d\<lparr>seq_msg_queue_tmp := drop (length tmp) (seq_msg_queue_tmp d)\<rparr>
     in if tmp \<noteq> [] then d
        else
          (let popped = takeWhile (acked seq) (seq_msg_queue d);
               d = d\<lparr>seq_msg_queue := dropWhile (acked seq) (seq_msg_queue d)\<rparr>
           in if popped = [] then d else d\<lparr>last_ack := fst (last popped)\<rparr>))"

definition nm_put_ack :: "'s node_mgr \<Rightarrow> bytes \<Rightarrow> u64 \<Rightarrow> u32 \<Rightarrow> 's node_mgr run" where
  "nm_put_ack nm key seq hops =
    bind_run (findIntervalDb nm key WRLOCK) (\<lambda>(io, nm).
      bind_run (deref io) (\<lambda>i.
        let nm = upd_db nm i (drop_acked seq); vid = idb_vid (nm_dbs nm ! i)
        in bind_run
             (if 0 <s hops then
                (let pred = get_pred_client nm vid; (nip, nm) = pred_ip nm vid
                 in call_backend nm pred nip (put_ack key seq (hops - 1) (nm_IP nm)))
              else Done nm)
             (\<lambda>nm. Done (unlock_idb nm i))))"

section \<open>Gets\<close>

definition nm_get :: "'s node_mgr \<Rightarrow> bytes \<Rightarrow> u64 \<Rightarrow> bytes \<Rightarrow> 's node_mgr" where
  "nm_get nm key continuation ip = nm\<lparr>get_queue := get_queue nm @ [\<lparr>gq_key = key, gq_continuation = continuation, gq_ip = ip\<rparr>]\<rparr>"

text \<open>Neither \<^verbatim>\<open>ret\<close> nor, where the key is in a range, the status of the answer is ever assigned; what the store
  returns is read into a variable that nobody reads.\<close>

definition get_handler :: "'s be_env \<Rightarrow> FawnDS_Return \<Rightarrow> u16 \<Rightarrow> 's node_mgr \<Rightarrow> bytes \<Rightarrow> u64 \<Rightarrow> bytes \<Rightarrow> 's node_mgr run" where
  "get_handler env ret0 status0 nm key continuation ip =
    bind_run (findIntervalDb nm key RDLOCK) (\<lambda>(io, nm).
      case io of
        None \<Rightarrow>
          Done (nm\<lparr>get_resp_queue := get_resp_queue nm @
            [\<lparr>ga_key = key, ga_continuation = continuation, ga_value = [], ga_status = STALE_RING, ga_ip = ip\<rparr>]\<rparr>)
      | Some i \<Rightarrow>
          let (ret, data, s) = silt_Get env (siltds (nm_dbs nm ! i)) key;
              nm = unlock_idb (upd_db nm i (\<lambda>d. d\<lparr>siltds := s\<rparr>)) i;
              gr = \<lparr>ga_key = key, ga_continuation = continuation, ga_value = [], ga_status = status0, ga_ip = ip\<rparr>;
              gr = (if ret0 \<noteq> OK then gr\<lparr>ga_value := []\<rparr> else gr)
          in Done (nm\<lparr>get_resp_queue := get_resp_queue nm @ [gr]\<rparr>))"

text \<open>The consumers wait while their queue is empty.\<close>

definition getConsumer :: "'s be_env \<Rightarrow> FawnDS_Return \<Rightarrow> u16 \<Rightarrow> 's node_mgr \<Rightarrow> 's node_mgr run" where
  "getConsumer env ret0 status0 nm =
    (case get_queue nm of
       [] \<Rightarrow> Done nm
     | gr # rest \<Rightarrow> get_handler env ret0 status0 (nm\<lparr>get_queue := rest\<rparr>) (gq_key gr) (gq_continuation gr) (gq_ip gr))"

definition getResponseConsumer :: "'s node_mgr \<Rightarrow> 's node_mgr run" where
  "getResponseConsumer nm =
    (case get_resp_queue nm of
       [] \<Rightarrow> Done nm
     | gr # rest \<Rightarrow>
         let (fe, nm) = connect_to_frontend (nm\<lparr>get_resp_queue := rest\<rparr>) (ga_ip gr)
         in bind_run (call_frontend nm fe (ga_ip gr)
              (get_response (ga_key gr) (ga_value gr) (ga_continuation gr) (ga_status gr) (nm_IP nm))) (\<lambda>nm.
                Done (nm\<lparr>nm_num_gets := nm_num_gets nm + 1\<rparr>)))"

end
