(* ===== verification/Backend_Join.thy ===== *)
theory Backend_Join
  imports Backend
begin

text \<open>
  The handlers of \<^verbatim>\<open>fawnkv/FawnKVBackendHandler.cpp\<close> for joining, for flushing a range to a new node and for
  repairing a chain, and the dispatch of all messages.
\<close>

section \<open>Sending a range to another node\<close>

lemma split_next_advances:
  "split_next h cur s e out0 = Ret (True, cur', out1) \<Longrightarrow>
    currSplit cur < data_insertion_point (header h) \<and> currSplit cur < currSplit cur'"
  by (auto simp: split_next_def Let_def DATA_HEADER_SIZE_def split: if_splits option.splits prod.splits)

text \<open>The loop over \<^verbatim>\<open>split_next\<close> that three handlers have in common. \<open>data_returned\<close> is cleared after a send, but
  not after a record that is skipped.\<close>

function stream_split :: "fawnds \<Rightarrow> dbid \<Rightarrow> dbid \<Rightarrow> split_cursor \<Rightarrow> bytes \<Rightarrow> (split_cursor \<times> (bytes \<times> bytes \<times> bool) list) res" where
  "stream_split h s e cur data_returned =
    (case split_next h cur s e \<lparr>ret_key = replicate (unat DBID_LENGTH) 0, ret_key_length = 0, ret_data = data_returned,
        ret_valid = False, ret_remove = False\<rparr> of
       Fault \<Rightarrow> Fault
     | Ret (again, cur', o1) \<Rightarrow>
         if \<not> again then Ret (cur', [])
         else if \<not> ret_valid o1 then stream_split h s e cur' (ret_data o1)
         else bind_res (stream_split h s e cur' []) (\<lambda>(c, ms).
           Ret (c, (take (unat (ret_key_length o1)) (ret_key o1), ret_data o1, ret_remove o1) # ms)))"
  by pat_completeness auto
termination
  by (relation "measure (\<lambda>(h, s, e, cur, d). data_insertion_point (header h) - currSplit cur)")
    (auto dest!: split_next_advances)

declare stream_split.simps [simp del]

text \<open>Each record goes out as a put with no hops and with the flag \<^verbatim>\<open>flush\<close>.\<close>

definition stream_msgs :: "'s node_mgr \<Rightarrow> bytes \<Rightarrow> (bytes \<times> bytes \<times> bool) list \<Rightarrow> be_output list" where
  "stream_msgs nm addr ms = map (\<lambda>(k, v, rm). To_backend addr (put k v 0 0 0 0 True rm (nm_IP nm))) ms"

definition emit_all :: "'s node_mgr \<Rightarrow> be_output list \<Rightarrow> 's node_mgr" where
  "emit_all nm xs = nm\<lparr>nm_sent := nm_sent nm @ xs\<rparr>"

definition stream_range :: "'s node_mgr \<Rightarrow> nat \<Rightarrow> dbid \<Rightarrow> dbid \<Rightarrow> bytes \<Rightarrow> 's node_mgr run" where
  "stream_range nm i s e addr =
    bind_run (deref (idb_h (nm_dbs nm ! i))) (\<lambda>h.
      case stream_split h s e (idb_cursor (nm_dbs nm ! i)) [] of
        Fault \<Rightarrow> Crash
      | Ret (cur, ms) \<Rightarrow> Done (emit_all (upd_db nm i (\<lambda>d. d\<lparr>idb_cursor := cur\<rparr>)) (stream_msgs nm addr ms)))"

section \<open>Joining\<close>

definition nm_static_join_response :: "'s node_mgr \<Rightarrow> bytes list \<Rightarrow> 's node_mgr" where
  "nm_static_join_response nm VnodeIDs = nm\<lparr>m_VnodeIDs := VnodeIDs\<rparr>"

definition nm_join_response :: "'s be_env \<Rightarrow> u32 \<Rightarrow> 's node_mgr \<Rightarrow> bytes list \<Rightarrow> bytes list \<Rightarrow> 's node_mgr run" where
  "nm_join_response env u nm VnodeIDs StartIDs =
    (if length StartIDs < length VnodeIDs then Crash
     else createIntervalFiles env u nm VnodeIDs (take (length VnodeIDs) StartIDs) [])"

text \<open>The request for the next virtual node of this node.\<close>

definition pre_join_next :: "'s node_mgr \<Rightarrow> 's node_mgr run" where
  "pre_join_next nm =
    (let c = unat (curr_vnode nm)
     in if c < length (m_VnodeIDs nm) then
          Done ((emit nm (To_manager (m_vnode_pre_join (m_VnodeIDs nm ! c) (nm_IP nm) (nm_port nm))))
            \<lparr>curr_vnode := curr_vnode nm + 1\<rparr>)
        else Crash)"

definition nm_init_response :: "'s node_mgr \<Rightarrow> bytes list \<Rightarrow> 's node_mgr run" where
  "nm_init_response nm VnodeIDs = pre_join_next (nm\<lparr>m_VnodeIDs := VnodeIDs\<rparr>)"

text \<open>The temporary store of a range.\<close>

definition set_temp_store :: "'s be_env \<Rightarrow> 's node_mgr \<Rightarrow> bytes \<Rightarrow> bytes \<Rightarrow> 's node_mgr run" where
  "set_temp_store env nm startKey endKey =
    bind_run (createTempStore env startKey endKey) (\<lambda>t.
      bind_run (findIntervalDb nm endKey NOLOCK) (\<lambda>(r, nm).
        bind_run (deref r) (\<lambda>i.
          bind_run (check (tempDS (nm_dbs nm ! i) = None)) (\<lambda>_.
            Done (upd_db nm i (\<lambda>d. d\<lparr>tempDS := Some t\<rparr>))))))"

fun send_precopies :: "'s be_env \<Rightarrow> u32 \<Rightarrow> 's node_mgr \<Rightarrow> bytes \<Rightarrow> bytes list \<Rightarrow> bytes list \<Rightarrow> bytes list \<Rightarrow> u32 list \<Rightarrow> 's node_mgr run" where
  "send_precopies env u nm vid ss es [] ps = Done nm"
| "send_precopies env u nm vid (s # ss) (e # es) (t # ts) (p # ps) =
    (let nm = nm\<lparr>vid_extension_map := (vid_extension_map nm)(s \<mapsto> SPLIT)\<rparr>
     in bind_run (create_interval_file env u nm e s vid) (\<lambda>nm.
          send_precopies env u (emit nm (To_backend (getID t p) (precopy_request s e vid (nm_IP nm) (nm_port nm)))) vid ss es ts ps))"
| "send_precopies env u nm vid _ _ (t # ts) _ = Crash"

definition nm_vnode_pre_join_response ::
  "'s be_env \<Rightarrow> u32 \<Rightarrow> 's node_mgr \<Rightarrow> bytes \<Rightarrow> bytes list \<Rightarrow> bytes list \<Rightarrow> bytes list \<Rightarrow> u32 list \<Rightarrow> 's node_mgr run" where
  "nm_vnode_pre_join_response env u nm vid start_keys end_keys tail_ips tail_ports =
    (if tail_ips = [] then
       (case (start_keys, end_keys) of
          (s # _, e # _) \<Rightarrow>
            bind_run (create_interval_file env u nm e s vid) (\<lambda>nm.
              bind_run (set_temp_store env nm s e) (\<lambda>nm.
                Done (emit nm (To_manager (m_vnode_join vid (nm_IP nm) (nm_port nm) SPLIT)))))
        | _ \<Rightarrow> Crash)
     else
       send_precopies env u (nm\<lparr>num_precopies := of_nat (length tail_ips), vid_precopy_map := (vid_precopy_map nm)(vid \<mapsto> 0)\<rparr>)
         vid start_keys end_keys tail_ips tail_ports)"

definition nm_vnode_extend_chain ::
  "'s be_env \<Rightarrow> u32 \<Rightarrow> 's node_mgr \<Rightarrow> bytes \<Rightarrow> bytes \<Rightarrow> bytes \<Rightarrow> bytes \<Rightarrow> bytes \<Rightarrow> u32 \<Rightarrow> flushmode \<Rightarrow> 's node_mgr run" where
  "nm_vnode_extend_chain env u nm vid nid start_key end_key ip p mode =
    bind_run (create_interval_file env u
        (nm\<lparr>vid_precopy_map := (vid_precopy_map nm)(vid \<mapsto> 0), vid_extension_map := (vid_extension_map nm)(start_key \<mapsto> mode)\<rparr>)
        end_key start_key vid) (\<lambda>nm.
      let (client, nm) = connect_to_backend nm vid nid (getID ip p) True
      in call_backend nm client (getID ip p) (precopy_request start_key end_key vid (nm_IP nm) (nm_port nm)))"

definition nm_precopy_request :: "'s node_mgr \<Rightarrow> bytes \<Rightarrow> bytes \<Rightarrow> bytes \<Rightarrow> bytes \<Rightarrow> u32 \<Rightarrow> 's node_mgr" where
  "nm_precopy_request nm startKey endKey vid ip p = nm\<lparr>nm_threads := nm_threads nm @ [precopyThread startKey endKey vid ip p]\<rparr>"

definition precopy_request_thread :: "'s node_mgr \<Rightarrow> bytes \<Rightarrow> bytes \<Rightarrow> bytes \<Rightarrow> bytes \<Rightarrow> u32 \<Rightarrow> 's node_mgr run" where
  "precopy_request_thread nm startKey endKey vid ip p =
    (let addr = getID ip p
     in bind_run (findIntervalDb nm endKey NOLOCK) (\<lambda>(r, nm).
          bind_run
            (case r of
               None \<Rightarrow> Done nm
             | Some i \<Rightarrow>
                 bind_run (deref (idb_h (nm_dbs nm ! i))) (\<lambda>h.
                   stream_range (upd_db nm i (\<lambda>d. d\<lparr>idb_cursor := split_init h addr\<rparr>)) i (DBID startKey) (DBID endKey) addr))
            (\<lambda>nm. Done (emit nm (To_backend addr (precopy_response startKey endKey vid (nm_IP nm)))))))"

text \<open>The range is looked up by its end; \<^verbatim>\<open>operator[]\<close> enters a zero for a missing count and \<open>SPLIT\<close> for a missing
  mode.\<close>

definition nm_precopy_response :: "'s be_env \<Rightarrow> 's node_mgr \<Rightarrow> bytes \<Rightarrow> bytes \<Rightarrow> bytes \<Rightarrow> 's node_mgr run" where
  "nm_precopy_response env nm startKey endKey vid =
    bind_run (set_temp_store env nm startKey endKey) (\<lambda>nm.
      let n = (case vid_precopy_map nm vid of None \<Rightarrow> 1 | Some c \<Rightarrow> c + 1);
          mode = (case vid_extension_map nm startKey of None \<Rightarrow> SPLIT | Some x \<Rightarrow> x);
          nm = nm\<lparr>vid_precopy_map := (vid_precopy_map nm)(vid \<mapsto> n), vid_extension_map := (vid_extension_map nm)(startKey \<mapsto> mode)\<rparr>;
          nm = (if mode \<noteq> SPLIT then emit nm (To_manager (m_vnode_join startKey (nm_IP nm) (nm_port nm) mode)) else nm)
      in Done (if n = num_precopies nm then
                 emit (nm\<lparr>vid_precopy_map := (vid_precopy_map nm)(vid \<mapsto> 0)\<rparr>) (To_manager (m_vnode_join vid (nm_IP nm) (nm_port nm) SPLIT))
               else nm))"

fun connect_nodes :: "'s node_mgr \<Rightarrow> node_data list \<Rightarrow> 's node_mgr run" where
  "connect_nodes nm [] = Done nm"
| "connect_nodes nm (n # ns) =
    (let a = getID (nd_ip n) (nd_port n)
     in if getID (nm_IP nm) (nm_port nm) = a then connect_nodes nm ns
        else case connect_to_backend nm [] [] a False of
          (None, nm) \<Rightarrow> Crash
        | (Some _, nm) \<Rightarrow> connect_nodes nm ns)"

text \<open>\<open>rs\<close> is the manager's answer to \<^verbatim>\<open>get_ring_state\<close>, \<open>new_ring\<close> the freshly allocated ring.\<close>

definition nm_neighbor_update ::
  "'s be_env \<Rightarrow> u32 \<Rightarrow> ring \<Rightarrow> ring_state \<Rightarrow> 's node_mgr \<Rightarrow> bytes \<Rightarrow> bytes list \<Rightarrow> bytes \<Rightarrow> bytes \<Rightarrow> bytes \<Rightarrow> bytes \<Rightarrow> 's node_mgr run" where
  "nm_neighbor_update env u new_ring rs nm myvid pred_vids succ_vid succip pred_vid predip =
    (case connect_to_backend nm myvid succ_vid succip False of
       (None, nm) \<Rightarrow> Crash
     | (Some _, nm) \<Rightarrow>
         case connect_to_backend nm myvid pred_vid predip True of
           (None, nm) \<Rightarrow> Crash
         | (Some _, nm) \<Rightarrow>
             bind_run
               (if nm_unknown_ids nm then createIntervalFiles env u nm (tl pred_vids @ [myvid]) pred_vids myvid
                else openIntervalFiles env u nm (tl pred_vids @ [myvid]) myvid) (\<lambda>nm.
               bind_run (connect_nodes nm (rs_nodes rs)) (\<lambda>nm. Done (nm\<lparr>nm_ring := Some (UpdateState new_ring rs)\<rparr>))))"

section \<open>Flushing a range\<close>

text \<open>Merging the temporary store into the range's store; nobody else writes to it.\<close>

definition merge_into :: "'s be_env \<Rightarrow> 's node_mgr \<Rightarrow> nat \<Rightarrow> fawnds \<Rightarrow> 's node_mgr run" where
  "merge_into env nm i src =
    bind_run (deref (idb_h (nm_dbs nm ! i))) (\<lambda>h.
      case Merge (be_hashes env) (be_pagesize env) h src [src, src] of
        Fault \<Rightarrow> Crash
      | Ret None \<Rightarrow> Loops
      | Ret (Some (ok, held, st)) \<Rightarrow> Done (upd_db nm i (\<lambda>d. d\<lparr>idb_h := Some (other_db st)\<rparr>)))"

text \<open>The steps that depend on the hop count: the joining node merges its temporary store and asks for its next
  virtual node, the old tail sends what has arrived since the precopy. The result is the address the old tail is
  connected to.\<close>

definition flush_split_here :: "'s be_env \<Rightarrow> 's node_mgr \<Rightarrow> bytes \<Rightarrow> bytes \<Rightarrow> int \<Rightarrow> ((nat \<times> bytes) option \<times> 's node_mgr) run" where
  "flush_split_here env nm startKey endKey hops =
    (if hops = 1 then
       bind_run (findIntervalDb nm endKey NOLOCK) (\<lambda>(r, nm).
         bind_run
           (case r of
              None \<Rightarrow> Done nm
            | Some i \<Rightarrow>
                bind_run (deref (tempDS (nm_dbs nm ! i))) (\<lambda>t.
                  bind_run (merge_into env nm i t) (\<lambda>nm. Done (upd_db nm i (\<lambda>d. d\<lparr>tempDS := None\<rparr>)))))
           (\<lambda>nm. bind_run (if unat (curr_vnode nm) < length (m_VnodeIDs nm) then pre_join_next nm else Done nm) (\<lambda>nm. Done (None, nm))))
     else if hops = 2 then
       bind_run (findIntervalDb nm endKey NOLOCK) (\<lambda>(r, nm).
         case r of
           None \<Rightarrow> Done (None, nm)
         | Some i \<Rightarrow>
             let ip = precopyIP (idb_cursor (nm_dbs nm ! i)); addr = getID (getIP ip) (getPort ip)
             in bind_run (stream_range nm i (DBID startKey) (DBID endKey) addr) (\<lambda>nm. Done (Some (i, addr), nm)))
     else Done (None, nm))"

text \<open>The position of this node among its new neighbours: the loop stops before the last entry. The three lists come with
  one length; shorter lists of ports or identifiers are taken as a crash.\<close>

fun find_self :: "'s node_mgr \<Rightarrow> bytes list \<Rightarrow> u32 list \<Rightarrow> nat \<Rightarrow> nat option" where
  "find_self nm (ip # ip' # ips) (p # ps) i =
    (if ip = nm_IP nm \<and> p = nm_port nm then Some i else find_self nm (ip' # ips) ps (Suc i))"
| "find_self nm _ _ i = None"

definition connect_neighbours :: "'s node_mgr \<Rightarrow> bytes list \<Rightarrow> bytes list \<Rightarrow> u32 list \<Rightarrow> (bytes \<times> 's node_mgr) run" where
  "connect_neighbours nm ips vids ports =
    (if ips = [] \<or> length ports < length ips \<or> length vids < length ips then Crash
     else case find_self nm ips ports 0 of
       None \<Rightarrow> Done ([], nm)
     | Some i \<Rightarrow>
         (case connect_to_backend nm (vids ! i) (vids ! (i + 1)) (getID (ips ! (i + 1)) (ports ! (i + 1))) False of
            (None, nm) \<Rightarrow> Crash
          | (Some _, nm) \<Rightarrow>
              if i = 0 then Done (vids ! i, nm)
              else case connect_to_backend nm (vids ! i) (vids ! (i - 1)) (getID (ips ! (i - 1)) (ports ! (i - 1))) True of
                (None, nm) \<Rightarrow> Crash
              | (Some _, nm) \<Rightarrow> Done (vids ! i, nm)))"

definition start_split :: "'s node_mgr \<Rightarrow> bytes \<Rightarrow> 's node_mgr run" where
  "start_split nm endKey =
    bind_run (findIntervalDb nm endKey WRLOCK) (\<lambda>(r, nm).
      bind_run (deref r) (\<lambda>i.
        Done ((unlock_idb (upd_db nm i (\<lambda>d. d\<lparr>splitPoint := endKey\<rparr>)) i)\<lparr>nm_threads := nm_threads nm @ [splitThread endKey]\<rparr>)))"

definition next_hop :: "bytes list \<Rightarrow> u32 list \<Rightarrow> int \<Rightarrow> bytes run" where
  "next_hop ips ports hops =
    (let k = int (length ips) - hops + 1; l = int (length ports) - hops + 1
     in if 0 \<le> k \<and> k < int (length ips) \<and> 0 \<le> l \<and> l < int (length ports) then Done (getID (ips ! nat k) (ports ! nat l)) else Crash)"

definition nm_flush_split ::
  "'s be_env \<Rightarrow> 's node_mgr \<Rightarrow> bytes \<Rightarrow> bytes \<Rightarrow> bytes \<Rightarrow> bytes \<Rightarrow> bytes list \<Rightarrow> bytes list \<Rightarrow> bytes list \<Rightarrow> int \<Rightarrow> u32 list \<Rightarrow> u32 list \<Rightarrow> 's node_mgr run" where
  "nm_flush_split env nm startKey endKey vid joiner_ip forwarding_ips neighbor_ips neighbor_vids hops forwarding_ports neighbor_ports =
    bind_run (flush_split_here env nm startKey endKey hops) (\<lambda>(old_tail, nm).
      let fwd = (\<lambda>nm. flush_split startKey endKey vid joiner_ip forwarding_ips neighbor_ips neighbor_vids (hops - 1)
                        forwarding_ports neighbor_ports (nm_IP nm))
      in if 2 < hops then
           bind_run (connect_neighbours nm neighbor_ips neighbor_vids neighbor_ports) (\<lambda>(my_vid, nm).
             bind_run (if endKey = vid \<and> vid \<noteq> my_vid then start_split nm endKey else Done nm) (\<lambda>nm.
               bind_run (next_hop forwarding_ips forwarding_ports hops) (\<lambda>nid.
                 let (client, nm) = connect_to_backend nm [] [] nid True
                 in call_backend nm client nid (fwd nm))))
         else if hops = 2 then
           bind_run (deref old_tail) (\<lambda>(i, addr).
             let nm = emit nm (To_backend addr (fwd nm))
             in if lock_blocks WRLOCK (dbLock (nm_dbs nm ! i)) then Deadlock
                else bind_run (deref (idb_h (nm_dbs nm ! i))) (\<lambda>h.
                  Done (upd_db nm i (\<lambda>d. d\<lparr>idb_h := Some (snd (setStartID h (DBID endKey)))\<rparr>))))
         else if hops = 1 then
           Done (emit nm (To_manager (m_flush_split startKey endKey vid joiner_ip forwarding_ips neighbor_ips neighbor_vids (hops - 1) (nm_IP nm))))
         else Crash)"

definition nm_flush :: "'s be_env \<Rightarrow> 's node_mgr \<Rightarrow> bytes \<Rightarrow> bytes \<Rightarrow> int \<Rightarrow> 's node_mgr run" where
  "nm_flush env nm startKey endKey hops =
    bind_run (findIntervalDb nm endKey NOLOCK) (\<lambda>(r, nm).
      bind_run (deref r) (\<lambda>i.
        let vid = idb_vid (nm_dbs nm ! i); succ = get_successor_client nm vid; (nip, nm) = succ_ip nm vid
        in bind_run (deref (idb_h (nm_dbs nm ! i))) (\<lambda>h.
          if 1 < hops then call_backend nm succ nip (flush startKey endKey (hops - 1))
          else if hops = 1 then
            bind_run (check (nip \<in> ip_socketlock_map (nm_conn nm))) (\<lambda>_.
              bind_run (deref succ) (\<lambda>addr.
                bind_run (stream_range nm i (getStartID h) (getEndID h) addr) (\<lambda>nm.
                  call_backend nm succ nip (flush startKey endKey (hops - 1)))))
          else if hops = 0 then
            bind_run (deref (tempDS (nm_dbs nm ! i))) (\<lambda>t.
              bind_run (merge_into env nm i t) (\<lambda>nm.
                Done (emit (upd_db nm i (\<lambda>d. d\<lparr>tempDS := None\<rparr>)) (To_manager (m_flush_nosplit startKey)))))
          else Done nm)))"

text \<open>The range \<open>j\<close> is merged into the range \<open>i\<close> at every node of the chain. No lock of a socket is taken here.\<close>

definition nm_flush_merge :: "'s be_env \<Rightarrow> 's node_mgr \<Rightarrow> bytes \<Rightarrow> bytes \<Rightarrow> bytes \<Rightarrow> bytes \<Rightarrow> int \<Rightarrow> 's node_mgr run" where
  "nm_flush_merge env nm merge_start_key merge_end_key startKey endKey hops =
    bind_run (findIntervalDb nm endKey NOLOCK) (\<lambda>(ri, nm).
    bind_run (findIntervalDb nm merge_end_key NOLOCK) (\<lambda>(rj, nm).
    bind_run (deref ri) (\<lambda>i.
    bind_run (deref (idb_h (nm_dbs nm ! i))) (\<lambda>_.
    bind_run (deref rj) (\<lambda>j.
    bind_run (deref (idb_h (nm_dbs nm ! j))) (\<lambda>hj.
      let nm = upd_db nm j (\<lambda>d. d\<lparr>idb_valid := False\<rparr>)
      in bind_run (merge_into env nm i hj) (\<lambda>nm.
         bind_run (deref (idb_h (nm_dbs nm ! i))) (\<lambda>hi.
           let nm = upd_db nm i (\<lambda>d. d\<lparr>idb_h := Some (snd (setStartID hi (DBID merge_start_key)))\<rparr>);
               succ = get_successor_client nm (idb_vid (nm_dbs nm ! i));
               fwd = flush_merge merge_start_key merge_end_key startKey endKey (hops - 1)
           in if 1 < hops then bind_run (deref succ) (\<lambda>addr. Done (emit nm (To_backend addr fwd)))
              else if hops = 1 then
                bind_run (deref succ) (\<lambda>addr.
                  bind_run (stream_range nm j (getStartID hj) (getEndID hj) addr) (\<lambda>nm. Done (emit nm (To_backend addr fwd))))
              else if hops = 0 then
                bind_run (deref (tempDS (nm_dbs nm ! j))) (\<lambda>t.
                  bind_run (merge_into env nm i t) (\<lambda>nm.
                    Done (emit (upd_db nm j (\<lambda>d. d\<lparr>tempDS := None\<rparr>)) (To_manager (m_flush_nosplit merge_start_key)))))
              else Done nm))))))))"

section \<open>Repairing a chain\<close>

definition nm_chain_repair_single :: "'s node_mgr \<Rightarrow> bytes \<Rightarrow> bytes \<Rightarrow> 's node_mgr run" where
  "nm_chain_repair_single nm new_start endid =
    bind_run (findIntervalDb nm endid NOLOCK) (\<lambda>(r, nm).
      bind_run (deref r) (\<lambda>i.
        bind_run (deref (idb_h (nm_dbs nm ! i))) (\<lambda>h.
          Done (upd_db nm i (\<lambda>d. d\<lparr>idb_h := Some (snd (setStartID h (DBID new_start)))\<rparr>)))))"

text \<open>The new tail acknowledges everything that is pending, with the number \<^verbatim>\<open>INT64_MAX\<close>.\<close>

definition INT64_MAX :: u64 where "INT64_MAX = 0x7FFFFFFFFFFFFFFF"

definition repair_done :: "'s node_mgr \<Rightarrow> fawnds \<Rightarrow> 's node_mgr" where
  "repair_done nm h = emit nm (To_manager (m_chain_repair_done (actual_data_str (getStartID h)) (actual_data_str (getEndID h))))"

definition nm_chain_repair_tail :: "'s node_mgr \<Rightarrow> bytes \<Rightarrow> int \<Rightarrow> int \<Rightarrow> bytes \<Rightarrow> bytes \<Rightarrow> 's node_mgr run" where
  "nm_chain_repair_tail nm key hops ackhops sid ip =
    bind_run (findIntervalDb nm key NOLOCK) (\<lambda>(r, nm).
      bind_run (deref r) (\<lambda>i.
        bind_run (deref (idb_h (nm_dbs nm ! i))) (\<lambda>h.
          let vid = idb_vid (nm_dbs nm ! i)
          in if hops \<le> 0 then
               bind_run (nm_put_ack nm key INT64_MAX (word_of_int (ackhops - 1))) (\<lambda>nm.
                 Done (repair_done (snd (connect_to_backend nm vid sid ip False)) h))
             else
               (let (nip, nm) = succ_ip nm vid
                in bind_run (deref (get_successor_client nm vid)) (\<lambda>succ.
                     call_backend nm (Some succ) nip (chain_repair_tail key (hops - 1) ackhops sid ip))))))"

text \<open>The puts that the new successor has missed; the two queues are walked together, and the end of the
  continuations may be passed.\<close>

fun resend_pending :: "'s node_mgr \<Rightarrow> bytes option \<Rightarrow> bytes \<Rightarrow> u32 \<Rightarrow> u32 \<Rightarrow> u32 \<Rightarrow> (u32 \<times> bytes \<times> bytes) list \<Rightarrow> (u32 \<times> u64) list \<Rightarrow> 's node_mgr run" where
  "resend_pending nm f nip missed hops ackhops [] cs = Done nm"
| "resend_pending nm f nip missed hops ackhops ((s, k, v) # ms) (c # cs) =
    bind_run (if missed < s then call_backend nm f nip (put k v hops ackhops (snd c) (ucast s) False False (nm_IP nm)) else Done nm) (\<lambda>nm.
      resend_pending nm f nip missed hops ackhops ms cs)"
| "resend_pending nm f nip missed hops ackhops (m # ms) [] = Crash"

text \<open>\<open>info\<close> is the successor's answer to \<^verbatim>\<open>chain_repair_mid_succ\<close>. The new successor is entered for \<open>key\<close> in the
  place of the virtual node.\<close>

record repairInfo =
  ri_last_put :: u32
  ri_last_ack :: u32

definition nm_chain_repair_mid :: "repairInfo \<Rightarrow> 's node_mgr \<Rightarrow> bytes \<Rightarrow> bytes \<Rightarrow> bytes \<Rightarrow> bytes \<Rightarrow> int \<Rightarrow> int \<Rightarrow> 's node_mgr run" where
  "nm_chain_repair_mid info nm key my_vid sid ip hops ack_hops =
    (let (f, nm) = connect_to_backend nm key sid ip False; (nip, nm) = succ_ip nm key
     in bind_run (findIntervalDb nm key NOLOCK) (\<lambda>(r, nm).
        bind_run (deref r) (\<lambda>i.
        bind_run (deref (idb_h (nm_dbs nm ! i))) (\<lambda>h.
        bind_run (check (nip \<in> ip_socketlock_map (nm_conn nm))) (\<lambda>_.
        bind_run (deref f) (\<lambda>_.
        bind_run (if last_ack (nm_dbs nm ! i) \<noteq> ri_last_ack info
                  then nm_put_ack nm key (scast (ri_last_ack info)) (word_of_int ack_hops) else Done nm) (\<lambda>nm.
        bind_run (resend_pending nm f nip (ri_last_put info) (word_of_int hops) (word_of_int (ack_hops + hops))
            (seq_msg_queue (nm_dbs nm ! i)) (seq_cont_queue (nm_dbs nm ! i))) (\<lambda>nm.
          Done (repair_done nm h)))))))))"

text \<open>The range is used before the test that it exists.\<close>

definition nm_chain_repair_mid_succ :: "'s node_mgr \<Rightarrow> bytes \<Rightarrow> bytes \<Rightarrow> bytes \<Rightarrow> (repairInfo \<times> 's node_mgr) run" where
  "nm_chain_repair_mid_succ nm key p_vid p_ip =
    bind_run (findIntervalDb nm key NOLOCK) (\<lambda>(r, nm).
      bind_run (deref r) (\<lambda>i.
        let nm = snd (connect_to_backend nm (idb_vid (nm_dbs nm ! i)) p_vid p_ip True)
        in Done (\<lparr>ri_last_put = last_put (nm_dbs nm ! i), ri_last_ack = last_ack (nm_dbs nm ! i)\<rparr>, nm)))"

definition nm_integrity :: "'s node_mgr \<Rightarrow> u32 \<Rightarrow> 's node_mgr run" where
  "nm_integrity nm hops =
    (case m_VnodeIDs nm of
       [] \<Rightarrow> Crash
     | v # _ \<Rightarrow>
         let succ = get_successor_client nm v; (nip, nm) = succ_ip nm v
         in if 0 <s hops then call_backend nm succ nip (integrity (hops - 1)) else Done nm)"

section \<open>Starting, stopping and compacting\<close>

definition no_connections :: connections where
  "no_connections = \<lparr>vid_sid_succIP_map = Map.empty, vid_pid_predIP_map = Map.empty, ip_client_map = Map.empty,
     ip_fe_map = Map.empty, ip_socketlock_map = {}\<rparr>"

text \<open>\<^verbatim>\<open>init\<close> and the assignments of \<^verbatim>\<open>main\<close>; \<open>files\<close> are the files on the disk.\<close>

definition nm_new :: "bytes \<Rightarrow> u32 \<Rightarrow> bool \<Rightarrow> bool \<Rightarrow> bytes \<Rightarrow> (bytes \<rightharpoonup> os_file) \<Rightarrow> 's node_mgr" where
  "nm_new ip p ow unknown base files =
    \<lparr>nm_IP = ip, nm_port = p, nm_overwrite = ow, nm_unknown_ids = unknown, nm_filebase = base, nm_files = files, nm_dbs = [],
     nm_ring = None, nm_conn = no_connections, get_queue = [], get_resp_queue = [], vid_precopy_map = Map.empty,
     vid_extension_map = Map.empty, m_VnodeIDs = [], curr_vnode = 0, num_precopies = 0, version_map = Map.empty,
     nm_num_puts = 0, nm_num_gets = 0, nm_num_put_ws = 0, nm_threads = [], nm_sent = []\<rparr>"

text \<open>The constructor with given virtual nodes: each range starts where the one before ends.\<close>

definition nm_new_vids :: "'s be_env \<Rightarrow> u32 \<Rightarrow> 's node_mgr \<Rightarrow> bytes list \<Rightarrow> bool \<Rightarrow> 's node_mgr run" where
  "nm_new_vids env u nm vids overwriteDS =
    (if overwriteDS then createIntervalFiles env u nm vids (if vids = [] then [] else last vids # butlast vids) []
     else openIntervalFiles env u nm vids [])"

definition sendStaticJoinRequest :: "'s node_mgr \<Rightarrow> 's node_mgr" where
  "sendStaticJoinRequest nm = emit nm (To_manager (m_static_join (nm_IP nm) (nm_port nm)))"

definition sendJoinRequest :: "'s node_mgr \<Rightarrow> 's node_mgr" where
  "sendJoinRequest nm = emit nm (To_manager (m_join (nm_IP nm) (nm_port nm) False))"

fun range_ids :: "'s interval_db list \<Rightarrow> (bytes \<times> bytes) list run" where
  "range_ids [] = Done []"
| "range_ids (d # ds) =
    bind_run (deref (idb_h d)) (\<lambda>h. bind_run (range_ids ds) (\<lambda>r.
      Done ((take (unat DBID_LENGTH) (dbid_value (getEndID h)), take (unat DBID_LENGTH) (dbid_value (getStartID h))) # r)))"

definition sendReJoinRequest :: "'s node_mgr \<Rightarrow> 's node_mgr run" where
  "sendReJoinRequest nm =
    bind_run (range_ids (nm_dbs nm)) (\<lambda>r.
      Done (emit nm (To_manager (m_rejoin (map fst r) (map snd r) (nm_IP nm) (nm_port nm)))))"

definition send_heartbeat :: "'s node_mgr \<Rightarrow> 's node_mgr" where
  "send_heartbeat nm = emit nm (To_manager (m_heartbeat (getID (nm_IP nm) (nm_port nm))))"

fun close_scan :: "nat \<Rightarrow> 's interval_db list \<Rightarrow> (bool \<times> 's interval_db list) run" where
  "close_scan ps [] = Done (True, [])"
| "close_scan ps (d # ds) =
    bind_run (deref (idb_h d)) (\<lambda>h.
      let (ok, h') = WriteHashtableToFile ps h
      in bind_run (close_scan ps ds) (\<lambda>(clean, ds'). Done (ok \<and> clean, d\<lparr>idb_h := Some h'\<rparr> # ds')))"

definition close_files :: "'s be_env \<Rightarrow> 's node_mgr \<Rightarrow> (bool \<times> 's node_mgr) run" where
  "close_files env nm =
    bind_run (close_scan (be_pagesize env) (nm_dbs nm)) (\<lambda>(clean, ds). Done (clean, nm\<lparr>nm_dbs := ds\<rparr>))"

text \<open>\<^verbatim>\<open>rewriteThread\<close>: the store is replaced by its rewritten copy, a null pointer fails the assertion. The new file then
  takes the old one's name.\<close>

definition rewrite_db :: "'s be_env \<Rightarrow> 's node_mgr \<Rightarrow> nat \<Rightarrow> 's node_mgr run" where
  "rewrite_db env nm i =
    bind_run (deref (idb_h (nm_dbs nm ! i))) (\<lambda>h.
      case Rewrite (be_hashes env) (be_pagesize env) (be_filecap env) h [h, h] of
        Fault \<Rightarrow> Crash
      | Ret None \<Rightarrow> Loops
      | Ret (Some (held, r)) \<Rightarrow> bind_run (deref r) (\<lambda>h_new. Done (upd_db nm i (\<lambda>d. d\<lparr>idb_h := Some h_new\<rparr>))))"

section \<open>All messages\<close>

text \<open>What the handlers do not determine themselves: indeterminate values and the answers of synchronous calls.\<close>

record be_given =
  given_ret :: FawnDS_Return
  given_status :: u16
  given_last_put :: u32
  given_info :: repairInfo
  given_rs :: ring_state
  given_ring :: ring

fun be_handle :: "'s be_env \<Rightarrow> be_given \<Rightarrow> 's node_mgr \<Rightarrow> backend_msg \<Rightarrow> 's node_mgr run" where
  "be_handle env g nm (static_join_response vids ip) = Done (nm_static_join_response nm vids)"
| "be_handle env g nm (rejoin_response vids ip) = Done nm"
| "be_handle env g nm (join_response vids sids ip) = nm_join_response env (given_last_put g) nm vids sids"
| "be_handle env g nm (init_response vids ip) = nm_init_response nm vids"
| "be_handle env g nm (vnode_pre_join_response vid ss es tips tports ip) =
    nm_vnode_pre_join_response env (given_last_put g) nm vid ss es tips tports"
| "be_handle env g nm (vnode_extend_chain vid nid sk ek ip p mode) =
    nm_vnode_extend_chain env (given_last_put g) nm vid nid sk ek ip p mode"
| "be_handle env g nm (precopy_request sk ek vid ip p) = Done (nm_precopy_request nm sk ek vid ip p)"
| "be_handle env g nm (precopy_response sk ek vid ip) = nm_precopy_response env nm sk ek vid"
| "be_handle env g nm (flush_split sk ek vid jip fips nips nvids hops fports nports ip) =
    nm_flush_split env nm sk ek vid jip fips nips nvids hops fports nports"
| "be_handle env g nm (flush sk ek hops) = nm_flush env nm sk ek hops"
| "be_handle env g nm (flush_merge msk mek sk ek hops) = nm_flush_merge env nm msk mek sk ek hops"
| "be_handle env g nm (put key v hops ackhops c seq fl rm ip) = nm_put env (given_ret g) nm key v hops ackhops c seq fl rm ip"
| "be_handle env g nm (put_w key v hops ackhops c seq fl rm ip) = nm_put_w env (given_ret g) nm key v hops ackhops c seq fl rm ip"
| "be_handle env g nm (put_ack key seq hops ip) = nm_put_ack nm key seq hops"
| "be_handle env g nm (get key c ip) = Done (nm_get nm key c ip)"
| "be_handle env g nm (neighbor_update myvid pvids sv sip pv pip ip) =
    nm_neighbor_update env (given_last_put g) (given_ring g) (given_rs g) nm myvid pvids sv sip pv pip"
| "be_handle env g nm (heartbeat_response ip) = Done nm"
| "be_handle env g nm (chain_repair_single ns e) = nm_chain_repair_single nm ns e"
| "be_handle env g nm (chain_repair_tail key hops ackhops sid ip) = nm_chain_repair_tail nm key hops ackhops sid ip"
| "be_handle env g nm (chain_repair_mid key vid sid ip hops ackhops) = nm_chain_repair_mid (given_info g) nm key vid sid ip hops ackhops"
| "be_handle env g nm (integrity hops) = nm_integrity nm hops"
| "be_handle env g nm (connection_init ip p) = Done (nm_init nm ip p)"

definition run_thread :: "'s be_env \<Rightarrow> be_given \<Rightarrow> 's node_mgr \<Rightarrow> 's node_mgr run" where
  "run_thread env g nm =
    (case nm_threads nm of
       [] \<Rightarrow> Done nm
     | t # ts \<Rightarrow>
         let nm = nm\<lparr>nm_threads := ts\<rparr>
         in case t of
              precopyThread sk ek vid ip p \<Rightarrow> precopy_request_thread nm sk ek vid ip p
            | splitThread key \<Rightarrow> handle_split env (given_last_put g) nm key)"

end
