(* ===== verification/Backend_Correct.thy ===== *)
theory Backend_Correct
  imports Backend_Join
begin

text \<open>
  What one node of a chain does with a put and with an acknowledgement: the range it finds, the effect on its store,
  and what it sends to whom.
\<close>

section \<open>Finding a range\<close>

text \<open>The search only looks at the range of the store, the valid flag and the lock.\<close>

definition same_slot :: "'s interval_db \<Rightarrow> 's interval_db \<Rightarrow> bool" where
  "same_slot d d' \<longleftrightarrow> idb_h d' = idb_h d \<and> idb_valid d' = idb_valid d \<and> dbLock d' = dbLock d"

lemma find_scan_cong:
  "list_all2 same_slot ds ds' \<Longrightarrow> find_scan p m ds' i = find_scan p m ds i"
proof (induction ds ds' arbitrary: i rule: list_all2_induct)
  case (Cons x xs y ys)
  then show ?case by (cases "idb_h x") (simp_all add: same_slot_def deref_def)
qed simp

lemma find_scan_found:
  assumes "find_scan p m ds n = Done (Some i)"
  shows "n \<le> i \<and> i < n + length ds \<and> \<not> lock_blocks m (dbLock (ds ! (i - n))) \<and> idb_h (ds ! (i - n)) \<noteq> None"
  using assms
proof (induction ds arbitrary: n)
  case (Cons d ds)
  then obtain h where h: "idb_h d = Some h" "\<not> lock_blocks m (dbLock d)" by (auto split: if_splits)
  show ?case
  proof (cases "between (getStartID h) (getEndID h) p \<and> idb_valid d")
    case True
    then show ?thesis using Cons.prems h by auto
  next
    case False
    then have "find_scan p m ds (Suc n) = Done (Some i)" using Cons.prems h by auto
    from Cons.IH [OF this] show ?thesis by (auto simp: nth_Cons' Suc_diff_Suc)
  qed
qed simp

text \<open>\<open>node_ready nm K i\<close>: the node keeps the keys \<open>K\<close> in its range \<open>i\<close>, is not splitting it, and its connections to
  front ends have locks.\<close>

definition fe_ok :: "connections \<Rightarrow> bool" where
  "fe_ok c \<longleftrightarrow> (\<forall>ip x. ip_fe_map c ip = Some x \<longrightarrow> x \<noteq> None \<and> ip \<in> ip_socketlock_map c)"

definition node_ready :: "'s node_mgr \<Rightarrow> (bytes \<Rightarrow> bool) \<Rightarrow> nat \<Rightarrow> bool" where
  "node_ready nm K i \<longleftrightarrow> i < length (nm_dbs nm) \<and> splitPoint (nm_dbs nm ! i) = [] \<and> fe_ok (nm_conn nm) \<and>
    (\<forall>k. K k \<longrightarrow> find_scan (DBID k) WRLOCK (nm_dbs nm) 0 = Done (Some i))"

definition succ_link :: "'s node_mgr \<Rightarrow> bytes \<Rightarrow> bytes \<Rightarrow> bool" where
  "succ_link nm vid addr \<longleftrightarrow> (\<exists>sid nip. vid_sid_succIP_map (nm_conn nm) vid = Some (sid, nip) \<and>
    ip_client_map (nm_conn nm) nip = Some (Some addr) \<and> nip \<in> ip_socketlock_map (nm_conn nm))"

definition pred_link :: "'s node_mgr \<Rightarrow> bytes \<Rightarrow> bytes \<Rightarrow> bool" where
  "pred_link nm vid addr \<longleftrightarrow> (\<exists>sid nip. vid_pid_predIP_map (nm_conn nm) vid = Some (sid, nip) \<and>
    ip_client_map (nm_conn nm) nip = Some (Some addr) \<and> nip \<in> ip_socketlock_map (nm_conn nm))"

text \<open>What a put or an acknowledgement leaves as it was.\<close>

definition kept :: "nat \<Rightarrow> 's node_mgr \<Rightarrow> 's node_mgr \<Rightarrow> bool" where
  "kept i nm nm' \<longleftrightarrow> list_all2 same_slot (nm_dbs nm) (nm_dbs nm') \<and> idb_vid (nm_dbs nm' ! i) = idb_vid (nm_dbs nm ! i)
    \<and> splitPoint (nm_dbs nm' ! i) = splitPoint (nm_dbs nm ! i) \<and> nm_IP nm' = nm_IP nm
    \<and> vid_sid_succIP_map (nm_conn nm') = vid_sid_succIP_map (nm_conn nm)
    \<and> vid_pid_predIP_map (nm_conn nm') = vid_pid_predIP_map (nm_conn nm)
    \<and> ip_client_map (nm_conn nm') = ip_client_map (nm_conn nm)
    \<and> ip_socketlock_map (nm_conn nm) \<subseteq> ip_socketlock_map (nm_conn nm')
    \<and> (fe_ok (nm_conn nm) \<longrightarrow> fe_ok (nm_conn nm'))"

lemma node_ready_kept: "node_ready nm K i \<Longrightarrow> kept i nm nm' \<Longrightarrow> node_ready nm' K i"
  by (auto simp: node_ready_def kept_def find_scan_cong dest: list_all2_lengthD)

lemma links_kept:
  "kept i nm nm' \<Longrightarrow> succ_link nm vid a \<Longrightarrow> succ_link nm' vid a"
  "kept i nm nm' \<Longrightarrow> pred_link nm vid a \<Longrightarrow> pred_link nm' vid a"
  by (auto simp: kept_def succ_link_def pred_link_def)

lemma same_slot_refl [simp]: "same_slot d d"
  by (simp add: same_slot_def)

lemma same_slot_update:
  "i < length ds \<Longrightarrow> same_slot (ds ! i) d \<Longrightarrow> list_all2 same_slot ds (ds[i := d])"
  by (auto simp: list_all2_conv_all_nth nth_list_update)

section \<open>A put at one node\<close>

definition put_op :: "'s be_env \<Rightarrow> 's \<Rightarrow> bytes \<Rightarrow> bytes \<Rightarrow> bool \<Rightarrow> FawnDS_Return \<times> 's" where
  "put_op env s key v remove = (if remove then silt_Delete env s key else silt_Put env s key v)"

text \<open>The range after a put that the store took or refused.\<close>

definition put_db :: "u32 \<Rightarrow> u64 \<Rightarrow> bytes \<Rightarrow> bytes \<Rightarrow> u64 \<Rightarrow> 's \<Rightarrow> 's interval_db \<Rightarrow> 's interval_db" where
  "put_db new_hops seq key v continuation s d =
    (let d = d\<lparr>siltds := s, last_put := ucast seq\<rparr>
     in (if new_hops = 0 then d\<lparr>last_ack := ucast seq\<rparr> else buffer_put seq key v continuation d)\<lparr>dbLock := Free\<rparr>)"

lemma put_db_parts [simp]:
  "siltds (put_db h q k v c s d) = s" "idb_h (put_db h q k v c s d) = idb_h d" "idb_vid (put_db h q k v c s d) = idb_vid d"
  "idb_valid (put_db h q k v c s d) = idb_valid d" "splitPoint (put_db h q k v c s d) = splitPoint d"
  "dbLock (put_db h q k v c s d) = Free" "idb_sequence (put_db h q k v c s d) = idb_sequence d"
  by (simp_all add: put_db_def buffer_put_def Let_def)

lemma connect_to_frontend_parts:
  assumes "connect_to_frontend nm ip = (fe, nm1)" and "fe_ok (nm_conn nm)"
  shows "\<exists>a. fe = Some a" "ip \<in> ip_socketlock_map (nm_conn nm1)" "nm1 = nm\<lparr>nm_conn := nm_conn nm1\<rparr>"
    "vid_sid_succIP_map (nm_conn nm1) = vid_sid_succIP_map (nm_conn nm)"
    "vid_pid_predIP_map (nm_conn nm1) = vid_pid_predIP_map (nm_conn nm)"
    "ip_client_map (nm_conn nm1) = ip_client_map (nm_conn nm)"
    "ip_socketlock_map (nm_conn nm) \<subseteq> ip_socketlock_map (nm_conn nm1)" "fe_ok (nm_conn nm1)"
  using assms unfolding connect_to_frontend_def fe_ok_def by (auto simp: Let_def split: option.splits if_splits)

text \<open>The locked range is found, changed, and unlocked again.\<close>

lemma put_store_ready:
  assumes rdy: "node_ready nm K i" and K: "K key" and op: "put_op env (siltds (nm_dbs nm ! i)) key v rm = (r, s)"
  obtains nm1 where "findIntervalDb nm key WRLOCK = Done (Some i, nm1)" "nm_conn nm1 = nm_conn nm"
    "put_store env ret0 (nm1\<lparr>nm_conn := c\<rparr>) key v nh cont seq False rm (Some i) =
       Done (r, idb_vid (nm_dbs nm ! i), nm\<lparr>nm_conn := c, nm_dbs := (nm_dbs nm)[i := put_db nh seq key v cont s (nm_dbs nm ! i)]\<rparr>)"
proof -
  let ?d = "nm_dbs nm ! i"
  have f: "find_scan (DBID key) WRLOCK (nm_dbs nm) 0 = Done (Some i)" and i: "i < length (nm_dbs nm)"
    and sp: "splitPoint ?d = []"
    using rdy K by (auto simp: node_ready_def)
  have free: "dbLock ?d = Free" and h: "\<exists>h. idb_h ?d = Some h"
    using find_scan_found [OF f] by (cases "dbLock ?d"; auto)+
  obtain h where h: "idb_h ?d = Some h" using h by blast
  define nm1 where "nm1 = upd_db nm i (\<lambda>d. d\<lparr>dbLock := Writer\<rparr>)"
  have 1: "findIntervalDb nm key WRLOCK = Done (Some i, nm1)"
    using f by (simp add: findIntervalDb_def nm1_def)
  have 2: "put_store env ret0 (nm1\<lparr>nm_conn := c\<rparr>) key v nh cont seq False rm (Some i) =
       Done (r, idb_vid ?d, nm\<lparr>nm_conn := c, nm_dbs := (nm_dbs nm)[i := put_db nh seq key v cont s ?d]\<rparr>)"
    using op i free h sp
    by (auto simp: put_store_def nm1_def upd_db_def put_op_def put_db_def buffer_put_def unlock_idb_def deref_def Let_def
        split: prod.splits if_splits)
  show ?thesis by (rule that [OF 1 _ 2]) (simp add: nm1_def upd_db_def)
qed

text \<open>\<open>after_put\<close>: the range has the store \<open>s\<close> and the buffer \<open>q\<close>, and the node has sent \<open>out\<close>.\<close>

definition after_put :: "nat \<Rightarrow> 's node_mgr \<Rightarrow> 's \<Rightarrow> (u32 \<times> bytes \<times> bytes) list \<Rightarrow> be_output list \<Rightarrow> 's node_mgr \<Rightarrow> bool" where
  "after_put i nm s q out nm' \<longleftrightarrow> kept i nm nm' \<and> siltds (nm_dbs nm' ! i) = s \<and> seq_msg_queue (nm_dbs nm' ! i) = q \<and>
    nm_sent nm' = nm_sent nm @ out"

lemma node_ready_free:
  assumes "node_ready nm K i" and "K key"
  shows "dbLock (nm_dbs nm ! i) = Free"
proof -
  have f: "find_scan (DBID key) WRLOCK (nm_dbs nm) 0 = Done (Some i)" using assms by (simp add: node_ready_def)
  show ?thesis using find_scan_found [OF f] by (cases "dbLock (nm_dbs nm ! i)") auto
qed

lemma put_db_same_slot:
  assumes "node_ready nm K i" and "K key"
  shows "list_all2 same_slot (nm_dbs nm) ((nm_dbs nm)[i := put_db nh seq k v cont s (nm_dbs nm ! i)])" and "i < length (nm_dbs nm)"
  using assms node_ready_free [OF assms] by (auto simp: node_ready_def same_slot_def intro!: same_slot_update)

text \<open>\<open>thread_ready\<close>: a put has changed the store of range \<open>i\<close> and can go on.\<close>

definition thread_ready :: "'s node_mgr \<Rightarrow> nat \<Rightarrow> put_thread \<Rightarrow> bool" where
  "thread_ready nm i t \<longleftrightarrow> pt_fe t \<noteq> None \<and> pt_ip t \<in> ip_socketlock_map (nm_conn nm) \<and> pt_owner t = idb_vid (nm_dbs nm ! i) \<and>
    pt_io t = Some i \<and> i < length (nm_dbs nm) \<and> \<not> pt_flush t \<and> pt_version t = - 1"

lemma thread_ready_kept: "thread_ready nm i t \<Longrightarrow> kept i nm nm' \<Longrightarrow> thread_ready nm' i t"
  by (auto simp: thread_ready_def kept_def dest: list_all2_lengthD)

text \<open>The first part of \<^verbatim>\<open>put\<close>: find the range, connect to the front end, change the store, buffer the put.\<close>

lemma nm_put_begin_ready:
  assumes rdy: "node_ready nm K i" and K: "K key" and op: "put_op env (siltds (nm_dbs nm ! i)) key v rm = (r, s)"
  obtains fe nm' where "nm_put_begin env ret0 nm key v hops ackhops cont seq fl rm ip =
      Done (\<lparr>pt_fe = Some fe, pt_ret = r, pt_owner = idb_vid (nm_dbs nm ! i), pt_io = Some i, pt_key = key, pt_value = v, pt_hops = hops - 1,
        pt_ackhops = ackhops, pt_cont = cont, pt_seq = seq, pt_flush = False, pt_remove = rm, pt_ip = ip, pt_version = - 1\<rparr>, nm')"
    "ip \<in> ip_socketlock_map (nm_conn nm')"
    "after_put i nm s (seq_msg_queue (nm_dbs nm ! i) @ (if hops - 1 = 0 then [] else [(ucast seq, key, v)])) [] nm'"
proof -
  obtain feo nm1 where c: "connect_to_frontend nm ip = (feo, nm1)" by (cases "connect_to_frontend nm ip")
  have ok: "fe_ok (nm_conn nm)" and sp: "splitPoint (nm_dbs nm ! i) = []" using rdy by (simp_all add: node_ready_def)
  note C = connect_to_frontend_parts [OF c ok]
  obtain fe where fe: "feo = Some fe" using C(1) by blast
  define nm2 where "nm2 = nm\<lparr>nm_conn := nm_conn nm1, nm_dbs := (nm_dbs nm)[i := put_db (hops - 1) seq key v cont s (nm_dbs nm ! i)]\<rparr>"
  obtain nmf where f: "findIntervalDb nm key WRLOCK = Done (Some i, nmf)" "nm_conn nmf = nm_conn nm"
    and st: "put_store env ret0 (nmf\<lparr>nm_conn := nm_conn nm1\<rparr>) key v (hops - 1) cont seq False rm (Some i) =
      Done (r, idb_vid (nm_dbs nm ! i), nm2)"
    using put_store_ready [OF rdy K op, of ret0 "nm_conn nm1" "hops - 1" cont seq] unfolding nm2_def by metis
  have cf: "connect_to_frontend nmf ip = (Some fe, nmf\<lparr>nm_conn := nm_conn nm1\<rparr>)"
    using c f(2) fe unfolding connect_to_frontend_def by (auto simp: Let_def split: option.splits)
  note dbs = put_db_same_slot [OF rdy K]
  have "kept i nm nm2" using dbs C(4-8) by (simp add: kept_def nm2_def)
  then have "after_put i nm s (seq_msg_queue (nm_dbs nm ! i) @ (if hops - 1 = 0 then [] else [(ucast seq, key, v)])) [] nm2"
    using dbs(2) sp by (simp add: after_put_def nm2_def put_db_def buffer_put_def)
  moreover have "ip \<in> ip_socketlock_map (nm_conn nm2)" using C(2) by (simp add: nm2_def)
  ultimately show ?thesis using that [of fe nm2] by (simp add: nm_put_begin_def f put_begin_def cf st)
qed

lemmas put_run_defs = nm_put_finish_def put_finish_def put_answer_def put_tail_def put_forward_def call_frontend_def call_backend_def
  emit_def deref_def check_def

text \<open>The second part of a put that the store refused: it is answered and goes no further.\<close>

lemma nm_put_finish_refused:
  assumes "thread_ready nm i t" and "pt_ret t \<noteq> OK"
  obtains fe nm' where "nm_put_finish nm t = Done nm'"
    "after_put i nm (siltds (nm_dbs nm ! i)) (seq_msg_queue (nm_dbs nm ! i))
      [To_frontend fe (put_response (pt_key t) (pt_cont t) False (nm_IP nm))] nm'"
proof -
  obtain fe where fe: "pt_fe t = Some fe" using assms(1) by (auto simp: thread_ready_def)
  define nm' where "nm' = nm\<lparr>nm_sent := nm_sent nm @ [To_frontend fe (put_response (pt_key t) (pt_cont t) False (nm_IP nm))],
      nm_num_puts := nm_num_puts nm + 1\<rparr>"
  have 1: "nm_put_finish nm t = Done nm'" using fe assms by (simp add: put_run_defs thread_ready_def nm'_def)
  have 2: "after_put i nm (siltds (nm_dbs nm ! i)) (seq_msg_queue (nm_dbs nm ! i))
      [To_frontend fe (put_response (pt_key t) (pt_cont t) False (nm_IP nm))] nm'"
    by (simp add: after_put_def kept_def list_all2_same nm'_def)
  show ?thesis by (rule that [OF 1 2])
qed

text \<open>At the tail it is answered, and acknowledged to the node before unless there is none.\<close>

lemma nm_put_finish_tail:
  assumes t: "thread_ready nm i t" and ok: "pt_ret t = OK" "pt_hops t = 0"
    and pr: "0 <s pt_ackhops t - 1 \<Longrightarrow> pred_link nm (idb_vid (nm_dbs nm ! i)) pa"
  obtains fe nm' where "nm_put_finish nm t = Done nm'"
    "after_put i nm (siltds (nm_dbs nm ! i)) (seq_msg_queue (nm_dbs nm ! i)) (To_frontend fe (put_response (pt_key t) (pt_cont t) False (nm_IP nm)) #
       (if 0 <s pt_ackhops t - 1 then [To_backend pa (put_ack (pt_key t) (pt_seq t) (pt_ackhops t - 2) (nm_IP nm))] else [])) nm'"
proof -
  obtain fe where fe: "pt_fe t = Some fe" using t by (auto simp: thread_ready_def)
  let ?out = "To_frontend fe (put_response (pt_key t) (pt_cont t) False (nm_IP nm)) #
       (if 0 <s pt_ackhops t - 1 then [To_backend pa (put_ack (pt_key t) (pt_seq t) (pt_ackhops t - 2) (nm_IP nm))] else [])"
  define nm' where "nm' = nm\<lparr>nm_sent := nm_sent nm @ ?out, nm_num_puts := nm_num_puts nm + 1\<rparr>"
  have "nm_put_finish nm t = Done nm'"
  proof (cases "0 <s pt_ackhops t - 1")
    case True
    then show ?thesis using fe t ok pr
      by (auto simp: put_run_defs thread_ready_def nm'_def pred_link_def get_pred_client_def pred_ip_def)
  qed (use fe t ok in \<open>simp add: put_run_defs thread_ready_def nm'_def\<close>)
  moreover have "after_put i nm (siltds (nm_dbs nm ! i)) (seq_msg_queue (nm_dbs nm ! i)) ?out nm'"
    by (simp add: after_put_def kept_def nm'_def list_all2_same)
  ultimately show ?thesis by (rule that)
qed

text \<open>Before the tail it is passed on with one hop less and a number that is the head's or the one it came with.\<close>

lemma nm_put_finish_forward:
  assumes t: "thread_ready nm i t" and ok: "pt_ret t = OK" "pt_hops t \<noteq> 0"
    and sc: "succ_link nm (idb_vid (nm_dbs nm ! i)) sa"
  obtains q nm' where "nm_put_finish nm t = Done nm'"
    "after_put i nm (siltds (nm_dbs nm ! i)) (seq_msg_queue (nm_dbs nm ! i)) [To_backend sa (put (pt_key t) (pt_value t) (pt_hops t) (pt_ackhops t) (pt_cont t)
       (ucast (q :: u32)) False (pt_remove t) (pt_ip t))] nm'"
proof -
  define fresh where "fresh = ((ucast (pt_seq t) :: u32) = 0)"
  define q where "q = (if fresh then idb_sequence (nm_dbs nm ! i) else ucast (pt_seq t))"
  define nm1 where "nm1 = (if fresh then upd_db nm i (\<lambda>d. d\<lparr>idb_sequence := idb_sequence d + 1\<rparr>) else nm)"
  define nm' where "nm' = nm1\<lparr>nm_sent := nm_sent nm @ [To_backend sa (put (pt_key t) (pt_value t) (pt_hops t) (pt_ackhops t) (pt_cont t)
       (ucast q) False (pt_remove t) (pt_ip t))], nm_num_puts := nm_num_puts nm + 1\<rparr>"
  have i: "i < length (nm_dbs nm)" using t by (simp add: thread_ready_def)
  have "nm_put_finish nm t = Done nm'"
    using t ok sc by (auto simp: put_run_defs thread_ready_def nm'_def nm1_def q_def fresh_def upd_db_def succ_link_def
        get_successor_client_def succ_ip_def Let_def)
  moreover have "list_all2 same_slot (nm_dbs nm) (nm_dbs nm1)"
    using i by (simp add: nm1_def upd_db_def same_slot_update same_slot_def list_all2_same)
  then have "after_put i nm (siltds (nm_dbs nm ! i)) (seq_msg_queue (nm_dbs nm ! i)) [To_backend sa (put (pt_key t) (pt_value t) (pt_hops t) (pt_ackhops t) (pt_cont t)
       (ucast q) False (pt_remove t) (pt_ip t))] nm'"
    using i by (simp add: after_put_def kept_def nm'_def nm1_def upd_db_def)
  ultimately show ?thesis by (rule that)
qed

text \<open>A whole put before the tail.\<close>

lemma nm_put_passed_on:
  assumes rdy: "node_ready nm K i" and K: "K key" and op: "put_op env (siltds (nm_dbs nm ! i)) key v rm = (OK, s)"
    and sc: "succ_link nm (idb_vid (nm_dbs nm ! i)) sa" and hops: "hops - 1 \<noteq> 0"
  obtains q nm' where "nm_put env ret0 nm key v hops ackhops cont seq fl rm ip = Done nm'"
    "siltds (nm_dbs nm' ! i) = s" "nm_sent nm' = nm_sent nm @ [To_backend sa (put key v (hops - 1) ackhops cont q False rm ip)]"
proof -
  obtain t nm1 where 1: "nm_put_begin env ret0 nm key v hops ackhops cont seq fl rm ip = Done (t, nm1)" and tr: "thread_ready nm1 i t"
    and t: "pt_ret t = OK" "pt_hops t = hops - 1" "pt_key t = key" "pt_value t = v" "pt_ackhops t = ackhops" "pt_cont t = cont"
      "pt_remove t = rm" "pt_ip t = ip"
    and k: "kept i nm nm1" and s: "siltds (nm_dbs nm1 ! i) = s" and out: "nm_sent nm1 = nm_sent nm"
    by (rule nm_put_begin_ready [OF rdy K op, where ?ret0.0 = ret0 and hops = hops and ackhops = ackhops and cont = cont and seq = seq and fl = fl and ip = ip])
       (use rdy in \<open>auto simp: after_put_def thread_ready_def kept_def node_ready_def dest: list_all2_lengthD\<close>)
  have vid: "idb_vid (nm_dbs nm1 ! i) = idb_vid (nm_dbs nm ! i)" using k by (simp add: kept_def)
  have h: "pt_hops t \<noteq> 0" using hops t by simp
  obtain q nm' where "nm_put_finish nm1 t = Done nm'"
    "after_put i nm1 (siltds (nm_dbs nm1 ! i)) (seq_msg_queue (nm_dbs nm1 ! i)) [To_backend sa (put (pt_key t) (pt_value t) (pt_hops t) (pt_ackhops t) (pt_cont t)
       (ucast (q :: u32)) False (pt_remove t) (pt_ip t))] nm'"
    by (rule nm_put_finish_forward [OF tr t(1) h, of sa]) (use links_kept(1) [OF k sc] vid in auto)
  then show ?thesis using that [of nm' "ucast q"] 1 s out t by (simp add: nm_put_def after_put_def)
qed

section \<open>An acknowledgement at one node\<close>

lemma drop_acked_parts [simp]:
  "siltds (drop_acked q d) = siltds d" "idb_h (drop_acked q d) = idb_h d" "idb_vid (drop_acked q d) = idb_vid d"
  "idb_valid (drop_acked q d) = idb_valid d" "splitPoint (drop_acked q d) = splitPoint d" "dbLock (drop_acked q d) = dbLock d"
  by (simp_all add: drop_acked_def Let_def)

lemma drop_acked_queue: "splitPoint d = [] \<Longrightarrow> seq_msg_queue (drop_acked q d) = dropWhile (acked q) (seq_msg_queue d)"
  by (simp add: drop_acked_def Let_def)

lemma nm_put_ack_node:
  assumes rdy: "node_ready nm K i" and K: "K key" and pr: "0 <s hops \<Longrightarrow> pred_link nm (idb_vid (nm_dbs nm ! i)) pa"
  obtains nm' where "nm_put_ack nm key seq hops = Done nm'"
    "after_put i nm (siltds (nm_dbs nm ! i)) (dropWhile (acked seq) (seq_msg_queue (nm_dbs nm ! i)))
      (if 0 <s hops then [To_backend pa (put_ack key seq (hops - 1) (nm_IP nm))] else []) nm'"
proof -
  let ?d = "nm_dbs nm ! i"
  have f: "find_scan (DBID key) WRLOCK (nm_dbs nm) 0 = Done (Some i)" and i: "i < length (nm_dbs nm)" and ok: "fe_ok (nm_conn nm)" and sp: "splitPoint ?d = []"
    using rdy K by (auto simp: node_ready_def)
  note free = node_ready_free [OF rdy K]
  define d where "d = (drop_acked seq (?d\<lparr>dbLock := Writer\<rparr>))\<lparr>dbLock := Free\<rparr>"
  define nm1 where "nm1 = nm\<lparr>nm_dbs := (nm_dbs nm)[i := d]\<rparr>"
  define nm' where "nm' = nm1\<lparr>nm_sent := nm_sent nm @ (if 0 <s hops then [To_backend pa (put_ack key seq (hops - 1) (nm_IP nm))] else [])\<rparr>"
  have "nm_put_ack nm key seq hops = Done nm'"
    using f i pr by (auto simp: nm_put_ack_def findIntervalDb_def upd_db_def deref_def check_def call_backend_def emit_def
        unlock_idb_def nm'_def nm1_def d_def pred_link_def get_pred_client_def pred_ip_def Let_def)
  moreover have "same_slot ?d d" using free by (simp add: d_def same_slot_def)
  then have "list_all2 same_slot (nm_dbs nm) (nm_dbs nm')" using i by (simp add: nm'_def nm1_def same_slot_update)
  then have "after_put i nm (siltds ?d) (dropWhile (acked seq) (seq_msg_queue ?d))
      (if 0 <s hops then [To_backend pa (put_ack key seq (hops - 1) (nm_IP nm))] else []) nm'"
    using i sp by (simp add: after_put_def kept_def nm'_def nm1_def d_def drop_acked_queue)
  ultimately show ?thesis by (rule that)
qed

end
