(* ===== verification/Backend_Chain.thy ===== *)
theory Backend_Chain
  imports Backend_Correct "HOL-Library.Multiset"
begin

text \<open>
  A chain of back ends: the nodes that keep one range, the messages between them, and the threads of their servers. A connection
  delivers in the order of sending; connections are independent of each other. The server of a node runs one thread for each
  connection (\<^verbatim>\<open>TThreadedServer\<close> in \<^verbatim>\<open>node_mgr.cpp\<close>), which handles one message after the other. A put holds the lock of the range
  only in its first part, so that any other thread may run between its two parts; an acknowledgement holds the lock from its
  beginning to its end. Front ends put at the head, each on its own connection. The membership does not change and no connection
  breaks during a run; gets are not part of it. Drawing the number of a forwarded put and
  sending it are one step: no property here speaks about the order of the numbers.
\<close>

section \<open>Nodes, connections and threads\<close>

text \<open>A connection of a node is from a front end or from another node of the chain.\<close>

datatype conn = Fe nat | Peer nat

text \<open>A put or a removal as the store sees it: the key, the value, and whether it is a removal.\<close>

type_synonym store_op = "bytes \<times> bytes \<times> bool"

text \<open>\<open>cl_net (a, b)\<close> is on its way from node \<open>a\<close> to node \<open>b\<close>; \<open>cl_busy b\<close> are the threads of node \<open>b\<close> that are between the two
  parts of a put, with their connections; \<open>cl_took b\<close> records what the store of node \<open>b\<close> was given and what it returned;
  \<open>cl_asked\<close> are the continuations of the puts that clients made, \<open>cl_answers\<close> what reached the front ends.\<close>

record 's cluster =
  cl_nodes :: "'s node_mgr list"
  cl_net :: "nat \<times> nat \<Rightarrow> backend_msg list"
  cl_busy :: "nat \<Rightarrow> (conn \<times> put_thread) list"
  cl_took :: "nat \<Rightarrow> (store_op \<times> FawnDS_Return) list"
  cl_answers :: "frontend_msg list"
  cl_asked :: "u64 list"

definition chain_node :: "bytes list \<Rightarrow> bytes \<Rightarrow> nat option" where
  "chain_node addrs a = map_of (zip addrs [0..<length addrs]) a"

definition push :: "'s cluster \<Rightarrow> nat \<times> nat \<Rightarrow> backend_msg \<Rightarrow> 's cluster" where
  "push c p m = c\<lparr>cl_net := (cl_net c)(p := cl_net c p @ [m])\<rparr>"

fun absorb :: "bytes list \<Rightarrow> nat \<Rightarrow> 's cluster \<Rightarrow> be_output list \<Rightarrow> 's cluster" where
  "absorb addrs b c [] = c"
| "absorb addrs b c (To_backend a m # out) =
    absorb addrs b (case chain_node addrs a of None \<Rightarrow> c | Some j \<Rightarrow> push c (b, j) m) out"
| "absorb addrs b c (To_frontend a m # out) = absorb addrs b (c\<lparr>cl_answers := cl_answers c @ [m]\<rparr>) out"
| "absorb addrs b c (To_manager m # out) = absorb addrs b c out"

definition receive :: "'s be_env \<Rightarrow> be_given \<Rightarrow> bytes list \<Rightarrow> 's cluster \<Rightarrow> nat \<Rightarrow> backend_msg \<Rightarrow> 's cluster run" where
  "receive env g addrs c b m =
    bind_run (be_handle env g ((cl_nodes c ! b)\<lparr>nm_sent := []\<rparr>) m) (\<lambda>nm.
      Done (absorb addrs b (c\<lparr>cl_nodes := (cl_nodes c)[b := nm]\<rparr>) (nm_sent nm)))"

text \<open>A thread takes a message from its connection. Of a put it does the first part.\<close>

definition begin_put :: "bytes list \<Rightarrow> 's cluster \<Rightarrow> nat \<Rightarrow> conn \<Rightarrow> put_thread \<Rightarrow> 's node_mgr \<Rightarrow> 's cluster" where
  "begin_put addrs c b k t nm =
    absorb addrs b (c\<lparr>cl_nodes := (cl_nodes c)[b := nm], cl_busy := (cl_busy c)(b := cl_busy c b @ [(k, t)]),
      cl_took := (cl_took c)(b := cl_took c b @ [((pt_key t, pt_value t, pt_remove t), pt_ret t)])\<rparr>) (nm_sent nm)"

fun take_msg :: "'s be_env \<Rightarrow> be_given \<Rightarrow> bytes list \<Rightarrow> 's cluster \<Rightarrow> nat \<Rightarrow> conn \<Rightarrow> backend_msg \<Rightarrow> 's cluster run" where
  "take_msg env g addrs c b k (put key v hops ackhops cont seq fl rm ip) =
    bind_run (nm_put_begin env (given_ret g) ((cl_nodes c ! b)\<lparr>nm_sent := []\<rparr>) key v hops ackhops cont seq fl rm ip) (\<lambda>(t, nm).
      Done (begin_put addrs c b k t nm))"
| "take_msg env g addrs c b k m = receive env g addrs c b m"

text \<open>The second part of a put.\<close>

definition drop_nth :: "nat \<Rightarrow> 'a list \<Rightarrow> 'a list" where
  "drop_nth i xs = take i xs @ drop (Suc i) xs"

definition finish_put :: "bytes list \<Rightarrow> 's cluster \<Rightarrow> nat \<Rightarrow> nat \<Rightarrow> 's cluster run" where
  "finish_put addrs c b i =
    bind_run (nm_put_finish ((cl_nodes c ! b)\<lparr>nm_sent := []\<rparr>) (snd (cl_busy c b ! i))) (\<lambda>nm.
      Done (absorb addrs b (c\<lparr>cl_nodes := (cl_nodes c)[b := nm], cl_busy := (cl_busy c)(b := drop_nth i (cl_busy c b))\<rparr>) (nm_sent nm)))"

text \<open>What happens without a new put. A thread takes its next message only when it is done with the one before.\<close>

inductive cl_internal :: "'s be_env \<Rightarrow> bytes list \<Rightarrow> 's cluster \<Rightarrow> 's cluster \<Rightarrow> bool" for env addrs where
  deliver: "cl_net c (a, b) = m # ms \<Longrightarrow> Peer a \<notin> fst ` set (cl_busy c b) \<Longrightarrow>
    take_msg env g addrs (c\<lparr>cl_net := (cl_net c)((a, b) := ms)\<rparr>) b (Peer a) m = Done c' \<Longrightarrow> cl_internal env addrs c c'"
| finish: "i < length (cl_busy c b) \<Longrightarrow> finish_put addrs c b i = Done c' \<Longrightarrow> cl_internal env addrs c c'"

text \<open>The message of front end \<open>f\<close> of \<open>F\<close> for a put or a removal of a key of the range.\<close>

inductive cl_step :: "'s be_env \<Rightarrow> bytes list \<Rightarrow> nat \<Rightarrow> (bytes \<Rightarrow> bool) \<Rightarrow> 's cluster \<Rightarrow> 's cluster \<Rightarrow> bool" for env addrs F K where
  client_put: "K key \<Longrightarrow> f < F \<Longrightarrow> Fe f \<notin> fst ` set (cl_busy c 0) \<Longrightarrow>
    take_msg env g addrs c 0 (Fe f) (put key v (of_nat (length addrs)) (of_nat (length addrs)) cont 0 False rm ip) = Done c' \<Longrightarrow>
    cl_step env addrs F K c (c'\<lparr>cl_asked := cl_asked c' @ [cont]\<rparr>)"
| internal: "cl_internal env addrs c c' \<Longrightarrow> cl_step env addrs F K c c'"

inductive_cases cl_stepE: "cl_step env addrs F K c c'"
inductive_cases cl_internalE: "cl_internal env addrs c c'"

section \<open>What holds of a chain\<close>

text \<open>\<open>at\<close> gives the position of the range in the table of each node.\<close>

definition cl_store :: "(nat \<Rightarrow> nat) \<Rightarrow> 's cluster \<Rightarrow> nat \<Rightarrow> 's" where
  "cl_store at c j = siltds (nm_dbs (cl_nodes c ! j) ! at j)"

definition cl_queue :: "(nat \<Rightarrow> nat) \<Rightarrow> 's cluster \<Rightarrow> nat \<Rightarrow> (u32 \<times> bytes \<times> bytes) list" where
  "cl_queue at c j = seq_msg_queue (nm_dbs (cl_nodes c ! j) ! at j)"

definition node_ok :: "bytes list \<Rightarrow> (bytes \<Rightarrow> bool) \<Rightarrow> (nat \<Rightarrow> nat) \<Rightarrow> nat \<Rightarrow> 's node_mgr \<Rightarrow> bool" where
  "node_ok addrs K at j nm \<longleftrightarrow> node_ready nm K (at j) \<and>
    (Suc j < length addrs \<longrightarrow> succ_link nm (idb_vid (nm_dbs nm ! at j)) (addrs ! Suc j)) \<and>
    (0 < j \<longrightarrow> pred_link nm (idb_vid (nm_dbs nm ! at j)) (addrs ! (j - 1)))"

definition nodes_ok :: "bytes list \<Rightarrow> (bytes \<Rightarrow> bool) \<Rightarrow> (nat \<Rightarrow> nat) \<Rightarrow> 's node_mgr list \<Rightarrow> bool" where
  "nodes_ok addrs K at nodes \<longleftrightarrow> distinct addrs \<and> addrs \<noteq> [] \<and> length addrs < 2 ^ 31 \<and> length nodes = length addrs \<and>
    (\<forall>j < length addrs. node_ok addrs K at j (nodes ! j))"

lemma chain_node_nth [simp]: "distinct addrs \<Longrightarrow> j < length addrs \<Longrightarrow> chain_node addrs (addrs ! j) = Some j"
  by (simp add: chain_node_def map_of_zip_nth)

lemma node_ok_kept: "node_ok addrs K at j nm \<Longrightarrow> kept (at j) nm nm' \<Longrightarrow> node_ok addrs K at j nm'"
proof -
  assume ok: "node_ok addrs K at j nm" and k: "kept (at j) nm nm'"
  have "idb_vid (nm_dbs nm' ! at j) = idb_vid (nm_dbs nm ! at j)" using k by (simp add: kept_def)
  then show ?thesis using ok links_kept [OF k] node_ready_kept [OF _ k] by (simp add: node_ok_def)
qed

lemma sent_irrelevant [simp]:
  "node_ready (nm\<lparr>nm_sent := x\<rparr>) K i = node_ready nm K i" "succ_link (nm\<lparr>nm_sent := x\<rparr>) vid a = succ_link nm vid a"
  "pred_link (nm\<lparr>nm_sent := x\<rparr>) vid a = pred_link nm vid a" "kept i (nm\<lparr>nm_sent := x\<rparr>) nm' = kept i nm nm'"
  "thread_ready (nm\<lparr>nm_sent := x\<rparr>) i t = thread_ready nm i t"
  by (simp_all add: thread_ready_def node_ready_def succ_link_def pred_link_def kept_def)

lemma of_nat_hops:
  "b < n \<Longrightarrow> of_nat (n - b) - (1 :: u32) = of_nat (n - Suc b)"
  "0 < n \<Longrightarrow> of_nat n - (1 :: u32) = of_nat (n - 1)"
  "1 < n \<Longrightarrow> of_nat n - (2 :: u32) = of_nat (n - 2)"
  by (simp_all add: of_nat_diff)

lemma of_nat_u32_0:
  assumes "m < 2 ^ 31"
  shows "(of_nat m :: u32) = 0 \<longleftrightarrow> m = 0"
proof -
  have "unat (of_nat m :: u32) = m" using assms by (simp add: unat_of_nat)
  then show ?thesis by (auto simp: unat_eq_zero [symmetric])
qed

lemma of_nat_u32_sless: "m < 2 ^ 31 \<Longrightarrow> 0 <s (of_nat m :: u32) \<longleftrightarrow> 0 < m"
  by (simp add: word_sless_alt signed_of_nat signed_take_bit_int_eq_self)

section \<open>The parts of the invariant\<close>

lemma absorb_parts [simp]: "cl_nodes (absorb addrs b c out) = cl_nodes c" "cl_asked (absorb addrs b c out) = cl_asked c"
  "cl_busy (absorb addrs b c out) = cl_busy c" "cl_took (absorb addrs b c out) = cl_took c"
  by (induction addrs b c out rule: absorb.induct) (simp_all add: push_def split: option.splits)

text \<open>The continuations that were answered, and those of the puts in a list of messages.\<close>

fun answer_cont :: "frontend_msg \<Rightarrow> u64 list" where
  "answer_cont (put_response key cont success ip) = [cont]"
| "answer_cont _ = []"

fun msg_cont :: "backend_msg \<Rightarrow> u64 multiset" where
  "msg_cont (put key v hops ackhops cont seq fl rm ip) = {#cont#}"
| "msg_cont _ = {#}"

definition chain_answered :: "'s cluster \<Rightarrow> u64 list" where
  "chain_answered c = concat (map answer_cont (cl_answers c))"

text \<open>A put on its way to node \<open>b\<close>, an acknowledgement on its way to node \<open>b\<close>. The numbers are 32-bit numbers.\<close>

definition put_msg :: "nat \<Rightarrow> (bytes \<Rightarrow> bool) \<Rightarrow> nat \<Rightarrow> backend_msg \<Rightarrow> bool" where
  "put_msg n K b m \<longleftrightarrow> (\<exists>key v cont q fl rm ip. m = put key v (of_nat (n - b)) (of_nat n) cont (ucast (q :: u32)) fl rm ip \<and> K key)"

definition ack_msg :: "(bytes \<Rightarrow> bool) \<Rightarrow> nat \<Rightarrow> backend_msg \<Rightarrow> bool" where
  "ack_msg K b m \<longleftrightarrow> (\<exists>key q ip. m = put_ack key (ucast (q :: u32)) (of_nat b) ip \<and> K key)"

definition shape :: "nat \<Rightarrow> (bytes \<Rightarrow> bool) \<Rightarrow> (nat \<times> nat \<Rightarrow> backend_msg list) \<Rightarrow> bool" where
  "shape n K net \<longleftrightarrow> (\<forall>a b. net (a, b) \<noteq> [] \<longrightarrow> a < n \<and> b < n \<and> (b = Suc a \<or> a = Suc b)) \<and>
    (\<forall>a. list_all (put_msg n K (Suc a)) (net (a, Suc a))) \<and> (\<forall>b. list_all (ack_msg K b) (net (Suc b, b)))"

text \<open>A thread of node \<open>b\<close> between the two parts of a put: on the connection of a front end at the head, of the node before elsewhere.\<close>

definition thread_ok :: "nat \<Rightarrow> nat \<Rightarrow> (bytes \<Rightarrow> bool) \<Rightarrow> (nat \<Rightarrow> nat) \<Rightarrow> 's node_mgr list \<Rightarrow> nat \<Rightarrow> conn \<times> put_thread \<Rightarrow> bool" where
  "thread_ok n F K at nodes b x \<longleftrightarrow> thread_ready (nodes ! b) (at b) (snd x) \<and> K (pt_key (snd x)) \<and> pt_hops (snd x) = of_nat (n - Suc b) \<and>
    pt_ackhops (snd x) = of_nat n \<and> (\<exists>q :: u32. pt_seq (snd x) = ucast q) \<and> fst x \<in> (if b = 0 then Fe ` {..<F} else {Peer (b - 1)})"

definition busy_ok :: "nat \<Rightarrow> nat \<Rightarrow> (bytes \<Rightarrow> bool) \<Rightarrow> (nat \<Rightarrow> nat) \<Rightarrow> 's node_mgr list \<Rightarrow> (nat \<Rightarrow> (conn \<times> put_thread) list) \<Rightarrow> bool" where
  "busy_ok n F K at nodes busy \<longleftrightarrow> (\<forall>b. (busy b \<noteq> [] \<longrightarrow> b < n) \<and> distinct (map fst (busy b)) \<and> list_all (thread_ok n F K at nodes b) (busy b))"

text \<open>The operations that a store accepted, those of the threads that will pass one on, and those on a connection.\<close>

definition accepted :: "(store_op \<times> FawnDS_Return) list \<Rightarrow> store_op list" where
  "accepted xs = map fst (filter (\<lambda>x. snd x = OK) xs)"

definition pending_ops :: "(conn \<times> put_thread) list \<Rightarrow> store_op list" where
  "pending_ops xs = map (\<lambda>x. (pt_key (snd x), pt_value (snd x), pt_remove (snd x))) (filter (\<lambda>x. pt_ret (snd x) = OK) xs)"

fun msg_op :: "backend_msg \<Rightarrow> store_op list" where
  "msg_op (put key v hops ackhops cont seq fl rm ip) = [(key, v, rm)]"
| "msg_op _ = []"

definition msg_ops :: "backend_msg list \<Rightarrow> store_op list" where
  "msg_ops ms = concat (map msg_op ms)"

text \<open>What the node after \<open>j\<close> was given, has on its connection, or will get from the threads of node \<open>j\<close>.\<close>

definition handed_on :: "nat \<Rightarrow> 's cluster \<Rightarrow> store_op list" where
  "handed_on j c = map fst (cl_took c (Suc j)) @ msg_ops (cl_net c (j, Suc j)) @ pending_ops (cl_busy c j)"

definition order_ok :: "nat \<Rightarrow> 's cluster \<Rightarrow> nat \<Rightarrow> bool" where
  "order_ok F c j \<longleftrightarrow> mset (accepted (cl_took c j)) = mset (handed_on j c) \<and> (0 < j \<or> F \<le> 1 \<longrightarrow> accepted (cl_took c j) = handed_on j c)"

text \<open>What a store returns for a list of operations, and the store it ends with.\<close>

primrec replay_ops :: "'s be_env \<Rightarrow> 's \<Rightarrow> store_op list \<Rightarrow> FawnDS_Return list \<times> 's" where
  "replay_ops env s [] = ([], s)"
| "replay_ops env s (x # xs) =
    (case x of (key, v, rm) \<Rightarrow> case put_op env s key v rm of (r, s') \<Rightarrow> case replay_ops env s' xs of (rs, s'') \<Rightarrow> (r # rs, s''))"

definition history_ok :: "'s be_env \<Rightarrow> (nat \<Rightarrow> nat) \<Rightarrow> (nat \<Rightarrow> 's) \<Rightarrow> 's cluster \<Rightarrow> nat \<Rightarrow> bool" where
  "history_ok env at s0 c j \<longleftrightarrow> replay_ops env (s0 j) (map fst (cl_took c j)) = (map snd (cl_took c j), cl_store at c j)"

lemma replay_ops_snoc:
  "replay_ops env s xs = (rs, s1) \<Longrightarrow> put_op env s1 key v rm = (r, s2) \<Longrightarrow> replay_ops env s (xs @ [(key, v, rm)]) = (rs @ [r], s2)"
  by (induction xs arbitrary: s rs) (auto split: prod.splits)

text \<open>Sums over the connections and over the threads.\<close>

definition in_flight :: "(nat \<times> nat \<Rightarrow> backend_msg list \<Rightarrow> 'm :: comm_monoid_add) \<Rightarrow> nat \<Rightarrow> (nat \<times> nat \<Rightarrow> backend_msg list) \<Rightarrow> 'm" where
  "in_flight f n net = (\<Sum>p \<in> {..<n} \<times> {..<n}. f p (net p))"

lemma in_flight_upd:
  assumes "a < n" and "b < n"
  shows "in_flight f n (net((a, b) := l)) + f (a, b) (net (a, b)) = in_flight f n net + f (a, b) l"
proof -
  let ?A = "{..<n} \<times> {..<n}" and ?p = "(a, b)"
  have p: "?p \<in> ?A" and fin: "finite ?A" using assms by auto
  have "(\<Sum>q \<in> ?A - {?p}. f q ((net(?p := l)) q)) = (\<Sum>q \<in> ?A - {?p}. f q (net q))" by (rule sum.cong) auto
  then show ?thesis
    unfolding in_flight_def sum.remove [OF fin p, of "\<lambda>q. f q (net q)"] sum.remove [OF fin p, of "\<lambda>q. f q ((net(?p := l)) q)"]
    by (simp add: ac_simps)
qed

definition conts :: "nat \<times> nat \<Rightarrow> backend_msg list \<Rightarrow> u64 multiset" where
  "conts p ms = sum_list (map msg_cont ms)"

definition busy_sum :: "(nat \<Rightarrow> put_thread \<Rightarrow> 'm :: comm_monoid_add) \<Rightarrow> nat \<Rightarrow> (nat \<Rightarrow> (conn \<times> put_thread) list) \<Rightarrow> 'm" where
  "busy_sum f n busy = (\<Sum>b < n. \<Sum>x \<leftarrow> busy b. f b (snd x))"

lemma busy_sum_upd:
  assumes "b < n"
  shows "busy_sum f n (busy(b := xs)) + (\<Sum>x \<leftarrow> busy b. f b (snd x)) = busy_sum f n busy + (\<Sum>x \<leftarrow> xs. f b (snd x))"
proof -
  have b: "b \<in> {..<n}" and fin: "finite {..<n}" using assms by auto
  have "(\<Sum>j \<in> {..<n} - {b}. \<Sum>x \<leftarrow> (busy(b := xs)) j. f j (snd x)) = (\<Sum>j \<in> {..<n} - {b}. \<Sum>x \<leftarrow> busy j. f j (snd x))"
    by (rule sum.cong) auto
  then show ?thesis
    unfolding busy_sum_def sum.remove [OF fin b, of "\<lambda>j. \<Sum>x \<leftarrow> busy j. f j (snd x)"]
      sum.remove [OF fin b, of "\<lambda>j. \<Sum>x \<leftarrow> (busy(b := xs)) j. f j (snd x)"]
    by (simp add: ac_simps)
qed

lemma drop_nth_split:
  assumes "i < length xs"
  shows "xs = take i xs @ xs ! i # drop (Suc i) xs" "drop_nth i xs = take i xs @ drop (Suc i) xs"
  using id_take_nth_drop [OF assms] by (simp_all add: drop_nth_def)

lemma sum_list_drop_nth:
  fixes f :: "'a \<Rightarrow> 'm :: comm_monoid_add"
  assumes "i < length xs"
  shows "(\<Sum>x \<leftarrow> xs. f x) = (\<Sum>x \<leftarrow> drop_nth i xs. f x) + f (xs ! i)"
  by (subst drop_nth_split(1) [OF assms]) (simp add: drop_nth_def ac_simps)

lemma busy_sum_begin:
  fixes f :: "nat \<Rightarrow> put_thread \<Rightarrow> 'm :: cancel_comm_monoid_add"
  assumes "b < n"
  shows "busy_sum f n (busy(b := busy b @ [x])) = busy_sum f n busy + f b (snd x)"
proof -
  let ?S = "\<Sum>x \<leftarrow> busy b. f b (snd x)"
  have "busy_sum f n (busy(b := busy b @ [x])) + ?S = (busy_sum f n busy + f b (snd x)) + ?S"
    unfolding busy_sum_upd [OF assms] by (simp add: add.assoc add.commute)
  then show ?thesis by (rule add_right_imp_eq)
qed

lemma busy_sum_finish:
  fixes f :: "nat \<Rightarrow> put_thread \<Rightarrow> 'm :: cancel_comm_monoid_add"
  assumes "b < n" and "i < length (busy b)"
  shows "busy_sum f n (busy(b := drop_nth i (busy b))) + f b (snd (busy b ! i)) = busy_sum f n busy"
proof -
  let ?S = "\<Sum>x \<leftarrow> drop_nth i (busy b). f b (snd x)"
  have "busy_sum f n (busy(b := drop_nth i (busy b))) + (?S + f b (snd (busy b ! i))) = busy_sum f n busy + ?S"
    using busy_sum_upd [OF assms(1), of f busy "drop_nth i (busy b)"] by (simp only: sum_list_drop_nth [OF assms(2)])
  then have "(busy_sum f n (busy(b := drop_nth i (busy b))) + f b (snd (busy b ! i))) + ?S = busy_sum f n busy + ?S"
    by (simp add: add.assoc add.commute add.left_commute)
  then show ?thesis by (rule add_right_imp_eq)
qed

text \<open>How many steps a message or a thread can still cause: a put is begun and finished at every node up to the tail, whose
  acknowledgement comes back to the head.\<close>

definition weight :: "nat \<Rightarrow> nat \<times> nat \<Rightarrow> nat" where
  "weight n p = (if fst p < snd p then 2 * (n - snd p) + (n - 1) else Suc (snd p))"

definition thread_weight :: "nat \<Rightarrow> nat \<Rightarrow> put_thread \<Rightarrow> nat" where
  "thread_weight n b t = (if pt_ret t = OK then 1 + 2 * (n - Suc b) + (n - 1) else 1)"

definition work :: "nat \<Rightarrow> nat \<times> nat \<Rightarrow> backend_msg list \<Rightarrow> nat" where
  "work n p ms = length ms * weight n p"

definition chain_work :: "bytes list \<Rightarrow> 's cluster \<Rightarrow> nat" where
  "chain_work addrs c = in_flight (work (length addrs)) (length addrs) (cl_net c) + busy_sum (thread_weight (length addrs)) (length addrs) (cl_busy c)"

text \<open>The puts that are not answered yet.\<close>

definition unanswered :: "nat \<Rightarrow> 's cluster \<Rightarrow> u64 multiset" where
  "unanswered n c = in_flight conts n (cl_net c) + busy_sum (\<lambda>b t. {#pt_cont t#}) n (cl_busy c)"

definition chain_inv :: "'s be_env \<Rightarrow> bytes list \<Rightarrow> nat \<Rightarrow> (bytes \<Rightarrow> bool) \<Rightarrow> (nat \<Rightarrow> nat) \<Rightarrow> (nat \<Rightarrow> 's) \<Rightarrow> 's cluster \<Rightarrow> bool" where
  "chain_inv env addrs F K at s0 c \<longleftrightarrow> nodes_ok addrs K at (cl_nodes c) \<and> shape (length addrs) K (cl_net c) \<and>
    busy_ok (length addrs) F K at (cl_nodes c) (cl_busy c) \<and> (\<forall>j. Suc j < length addrs \<longrightarrow> order_ok F c j) \<and>
    (\<forall>j < length addrs. history_ok env at s0 c j) \<and> (\<forall>m \<in> set (cl_queue at c 0). fst m = 0) \<and>
    mset (cl_asked c) = mset (chain_answered c) + unanswered (length addrs) c"

lemma shape_put: "shape n K net \<Longrightarrow> Suc b < n \<Longrightarrow> put_msg n K (Suc b) m \<Longrightarrow> shape n K (net((b, Suc b) := net (b, Suc b) @ [m]))"
  by (auto simp: shape_def)

lemma shape_ack: "shape n K net \<Longrightarrow> 0 < b \<Longrightarrow> b < n \<Longrightarrow> ack_msg K (b - 1) m \<Longrightarrow> shape n K (net((b, b - 1) := net (b, b - 1) @ [m]))"
  by (cases b) (auto simp: shape_def)

lemma shape_popD:
  assumes "shape n K net" and "net (a, b) = m # ms"
  shows "a < n" "b < n" "b = Suc a \<or> a = Suc b"
    "b = Suc a \<Longrightarrow> put_msg n K b m \<and> list_all (put_msg n K b) ms" "a = Suc b \<Longrightarrow> ack_msg K b m \<and> list_all (ack_msg K b) ms"
proof -
  have "net (a, b) \<noteq> []" using assms(2) by simp
  then show "a < n" "b < n" "b = Suc a \<or> a = Suc b" using assms(1) unfolding shape_def by blast+
  have "list_all (put_msg n K (Suc a)) (net (a, Suc a))" "list_all (ack_msg K b) (net (Suc b, b))"
    using assms(1) by (simp_all add: shape_def)
  then show "b = Suc a \<Longrightarrow> put_msg n K b m \<and> list_all (put_msg n K b) ms" "a = Suc b \<Longrightarrow> ack_msg K b m \<and> list_all (ack_msg K b) ms"
    using assms(2) by simp_all
qed

lemma shape_pop:
  assumes "shape n K net" and "net (a, b) = m # ms"
  shows "shape n K (net((a, b) := ms))"
  using assms(1) shape_popD [OF assms] by (auto simp: shape_def)

lemma in_flight_push:
  assumes "a < n" and "b < n"
  shows "in_flight conts n (cl_net (push c (a, b) m)) = in_flight conts n (cl_net c) + msg_cont m"
    and "in_flight (work n) n (cl_net (push c (a, b) m)) = in_flight (work n) n (cl_net c) + weight n (a, b)"
  using in_flight_upd [OF assms, of conts "cl_net c" "cl_net c (a, b) @ [m]"]
    in_flight_upd [OF assms, of "work n" "cl_net c" "cl_net c (a, b) @ [m]"]
  by (simp_all add: push_def conts_def work_def)

lemma in_flight_pop:
  assumes "a < n" and "b < n" and "net (a, b) = m # ms"
  shows "in_flight conts n (net((a, b) := ms)) + msg_cont m = in_flight conts n net"
    and "in_flight (work n) n (net((a, b) := ms)) + weight n (a, b) = in_flight (work n) n net"
  using in_flight_upd [OF assms(1,2), of conts net ms] in_flight_upd [OF assms(1,2), of "work n" net ms] assms(3)
  by (simp_all add: conts_def work_def)

lemma ack_msg_cont: "ack_msg K b m \<Longrightarrow> msg_cont m = {#}"
  by (auto simp: ack_msg_def)

section \<open>Frames\<close>

lemma nodes_frame:
  assumes "nodes_ok addrs K at nodes" and "b < length addrs" and "kept (at b) (nodes ! b) nm"
  shows "nodes_ok addrs K at (nodes[b := nm])"
  using assms node_ok_kept [of addrs K at b, OF _ assms(3)] by (auto simp: nodes_ok_def nth_list_update)

lemma busy_frame:
  assumes "busy_ok n F K at nodes busy" and "kept (at b) (nodes ! b) nm"
  shows "busy_ok n F K at (nodes[b := nm]) busy"
proof -
  have "thread_ok n F K at (nodes[b := nm]) b' x" if "thread_ok n F K at nodes b' x" for b' x
    using that thread_ready_kept [OF _ assms(2)] by (cases "b < length nodes") (auto simp: thread_ok_def nth_list_update list_update_beyond)
  then show ?thesis using assms(1) by (auto simp: busy_ok_def list_all_iff)
qed

lemma busy_begin:
  assumes "busy_ok n F K at nodes busy" and "b < n" and "fst x \<notin> fst ` set (busy b)" and "thread_ok n F K at nodes b x"
  shows "busy_ok n F K at nodes (busy(b := busy b @ [x]))"
  using assms by (auto simp: busy_ok_def)

lemma busy_finish:
  assumes "busy_ok n F K at nodes busy"
  shows "busy_ok n F K at nodes (busy(b := drop_nth i (busy b)))"
proof -
  have "set (drop_nth i xs) \<subseteq> set xs" for xs :: "(conn \<times> put_thread) list"
    by (auto simp: drop_nth_def dest: in_set_takeD in_set_dropD)
  moreover have "distinct (map fst (drop_nth i xs))" if "distinct (map fst xs)" for xs :: "(conn \<times> put_thread) list"
  proof (cases "i < length xs")
    case True
    have "distinct (map fst (take i xs @ xs ! i # drop (Suc i) xs))" using that id_take_nth_drop [OF True] by simp
    then show ?thesis by (simp add: drop_nth_def)
  qed (use that in \<open>simp add: drop_nth_def\<close>)
  moreover have "xs \<noteq> []" if "drop_nth i xs \<noteq> []" for xs :: "(conn \<times> put_thread) list" using that by (auto simp: drop_nth_def)
  ultimately show ?thesis using assms by (auto simp: busy_ok_def list_all_iff) blast
qed

text \<open>A node has one connection for puts, the head one for each front end.\<close>

lemma busy_single:
  assumes "busy_ok n F K at nodes busy" and "0 < b \<or> F \<le> 1"
  shows "length (busy b) \<le> 1"
proof -
  have d: "distinct (map fst (busy b))" and a: "list_all (thread_ok n F K at nodes b) (busy b)" using assms(1) by (auto simp: busy_ok_def)
  have "set (map fst (busy b)) \<subseteq> {if b = 0 then Fe 0 else Peer (b - 1)}"
    using a assms(2) by (auto simp: list_all_iff thread_ok_def split: if_splits)
  then have "card (set (map fst (busy b))) \<le> 1" using card_mono [of "{_}"] by (metis card_1_singleton_iff finite.emptyI finite_insert One_nat_def)
  then show ?thesis using distinct_card [OF d] by simp
qed

section \<open>Events at one node\<close>

lemma nodes_okD:
  assumes "nodes_ok addrs K at nodes" and "b < length addrs"
  shows "node_ready (nodes ! b) K (at b)" "length addrs < 2 ^ 31" "distinct addrs" "length nodes = length addrs"
    "Suc b < length addrs \<Longrightarrow> succ_link (nodes ! b) (idb_vid (nm_dbs (nodes ! b) ! at b)) (addrs ! Suc b)"
    "0 < b \<Longrightarrow> pred_link (nodes ! b) (idb_vid (nm_dbs (nodes ! b) ! at b)) (addrs ! (b - 1))"
  using assms by (auto simp: nodes_ok_def node_ok_def)

text \<open>A put is begun.\<close>

lemma begin_event:
  assumes ok: "nodes_ok addrs K at (cl_nodes c)" and b: "b < length addrs" and K: "K key"
    and op: "put_op env (cl_store at c b) key v rm = (r, s)"
    and k: "k \<in> (if b = 0 then Fe ` {..<F} else {Peer (b - 1)})"
  obtains t nm where
    "take_msg env g addrs c b k (put key v (of_nat (length addrs - b)) (of_nat (length addrs)) cont (ucast (q :: u32)) fl rm ip) =
      Done (c\<lparr>cl_nodes := (cl_nodes c)[b := nm], cl_busy := (cl_busy c)(b := cl_busy c b @ [(k, t)]),
        cl_took := (cl_took c)(b := cl_took c b @ [((key, v, rm), r)])\<rparr>)"
    "kept (at b) (cl_nodes c ! b) nm" "siltds (nm_dbs nm ! at b) = s"
    "set (seq_msg_queue (nm_dbs nm ! at b)) \<subseteq> insert (q, key, v) (set (cl_queue at c b))"
    "thread_ok (length addrs) F K at ((cl_nodes c)[b := nm]) b (k, t)"
    "pt_ret t = r" "pt_key t = key" "pt_value t = v" "pt_remove t = rm" "pt_cont t = cont"
proof -
  let ?n = "length addrs" and ?nm = "(cl_nodes c ! b)\<lparr>nm_sent := []\<rparr>"
  note D = nodes_okD [OF ok b]
  have rdy: "node_ready ?nm K (at b)" using D(1) by simp
  have op': "put_op env (siltds (nm_dbs ?nm ! at b)) key v rm = (r, s)" using op by (simp add: cl_store_def)
  have h: "(of_nat (?n - b) :: u32) - 1 = of_nat (?n - Suc b)" using b by (rule of_nat_hops)
  have uq: "(ucast (ucast q :: u64) :: u32) = q" by (intro bit_word_eqI) (auto simp: bit_ucast_iff)
  define t where "t fe = \<lparr>pt_fe = Some fe, pt_ret = r, pt_owner = idb_vid (nm_dbs ?nm ! at b), pt_io = Some (at b), pt_key = key,
    pt_value = v, pt_hops = of_nat (?n - b) - 1, pt_ackhops = of_nat ?n, pt_cont = cont, pt_seq = ucast q, pt_flush = False,
    pt_remove = rm, pt_ip = ip, pt_version = - 1\<rparr>" for fe :: bytes
  obtain fe nm where run: "nm_put_begin env (given_ret g) ?nm key v (of_nat (?n - b)) (of_nat ?n) cont (ucast q) fl rm ip = Done (t fe, nm)"
    and ip: "ip \<in> ip_socketlock_map (nm_conn nm)"
    and after: "after_put (at b) ?nm s (seq_msg_queue (nm_dbs ?nm ! at b) @
      (if (of_nat (?n - b) :: u32) - 1 = 0 then [] else [(ucast (ucast q :: u64), key, v)])) [] nm"
    unfolding t_def by (rule nm_put_begin_ready [OF rdy K op'])
  have kp: "kept (at b) (cl_nodes c ! b) nm" and out: "nm_sent nm = []" and sd: "siltds (nm_dbs nm ! at b) = s"
    and qu: "set (seq_msg_queue (nm_dbs nm ! at b)) \<subseteq> insert (q, key, v) (set (cl_queue at c b))"
    using after uq by (auto simp: after_put_def cl_queue_def)
  have "thread_ready nm (at b) (t fe)"
    using kp ip rdy by (auto simp: thread_ready_def t_def kept_def node_ready_def dest: list_all2_lengthD)
  then have "thread_ok ?n F K at ((cl_nodes c)[b := nm]) b (k, t fe)"
    using K k b D(4) h by (auto simp: thread_ok_def t_def simp del: of_nat_diff)
  then show ?thesis using that [of "t fe" nm] run out kp sd qu by (simp add: begin_put_def t_def del: of_nat_diff)
qed

text \<open>A put is finished: what is sent, by the result of the store.\<close>

definition finish_sent :: "nat \<Rightarrow> (bytes \<Rightarrow> bool) \<Rightarrow> nat \<Rightarrow> put_thread \<Rightarrow> 's cluster \<Rightarrow> 's cluster \<Rightarrow> bool" where
  "finish_sent n K b t c c' \<longleftrightarrow>
    (if pt_ret t \<noteq> OK then cl_net c' = cl_net c \<and> chain_answered c' = chain_answered c @ [pt_cont t]
     else if Suc b < n then
       chain_answered c' = chain_answered c \<and>
       (\<exists>m. put_msg n K (Suc b) m \<and> msg_op m = [(pt_key t, pt_value t, pt_remove t)] \<and> msg_cont m = {#pt_cont t#} \<and>
         cl_net c' = cl_net (push c (b, Suc b) m))
     else chain_answered c' = chain_answered c @ [pt_cont t] \<and>
       (if b = 0 then cl_net c' = cl_net c else \<exists>m. ack_msg K (b - 1) m \<and> cl_net c' = cl_net (push c (b, b - 1) m)))"

lemma finish_event:
  assumes ok: "nodes_ok addrs K at (cl_nodes c)" and b: "b < length addrs"
    and t: "thread_ok (length addrs) F K at (cl_nodes c) b (cl_busy c b ! i)"
  obtains c' nm where "finish_put addrs c b i = Done c'" "cl_nodes c' = (cl_nodes c)[b := nm]" "cl_took c' = cl_took c"
    "cl_busy c' = (cl_busy c)(b := drop_nth i (cl_busy c b))" "cl_asked c' = cl_asked c" "kept (at b) (cl_nodes c ! b) nm"
    "siltds (nm_dbs nm ! at b) = cl_store at c b" "seq_msg_queue (nm_dbs nm ! at b) = cl_queue at c b"
    "finish_sent (length addrs) K b (snd (cl_busy c b ! i)) c c'"
proof -
  let ?n = "length addrs" and ?nm = "(cl_nodes c ! b)\<lparr>nm_sent := []\<rparr>" and ?t = "snd (cl_busy c b ! i)"
  let ?c = "\<lambda>nm. c\<lparr>cl_nodes := (cl_nodes c)[b := nm], cl_busy := (cl_busy c)(b := drop_nth i (cl_busy c b))\<rparr>"
  note D = nodes_okD [OF ok b]
  have tr: "thread_ready ?nm (at b) ?t" and K: "K (pt_key ?t)" and hops: "pt_hops ?t = of_nat (?n - Suc b)" "pt_ackhops ?t = of_nat ?n"
    using t by (simp_all add: thread_ok_def)
  obtain q :: u32 where q: "pt_seq ?t = ucast q" using t by (auto simp: thread_ok_def)
  consider (no) "pt_ret ?t \<noteq> OK" | (mid) "pt_ret ?t = OK" "Suc b < ?n" | (tail) "pt_ret ?t = OK" "Suc b = ?n" using b by linarith
  then obtain out nm where run: "nm_put_finish ?nm ?t = Done nm"
    and after: "after_put (at b) ?nm (siltds (nm_dbs ?nm ! at b)) (seq_msg_queue (nm_dbs ?nm ! at b)) out nm"
    and sent: "finish_sent ?n K b ?t c (absorb addrs b (?c nm) out)"
  proof cases
    case no
    then show ?thesis by (rule nm_put_finish_refused [OF tr]) (use no that in \<open>fastforce simp: finish_sent_def chain_answered_def\<close>)
  next
    case mid
    have h: "pt_hops ?t \<noteq> 0" using mid D(2) hops by (simp add: of_nat_u32_0 del: of_nat_diff)
    have sc: "succ_link ?nm (idb_vid (nm_dbs ?nm ! at b)) (addrs ! Suc b)" using D(5) mid by simp
    obtain q' nm where run: "nm_put_finish ?nm ?t = Done nm" and after: "after_put (at b) ?nm (siltds (nm_dbs ?nm ! at b)) (seq_msg_queue (nm_dbs ?nm ! at b))
        [To_backend (addrs ! Suc b) (put (pt_key ?t) (pt_value ?t) (pt_hops ?t) (pt_ackhops ?t) (pt_cont ?t) (ucast (q' :: u32)) False (pt_remove ?t) (pt_ip ?t))] nm"
      by (rule nm_put_finish_forward [OF tr mid(1) h sc])
    have "put_msg ?n K (Suc b) (put (pt_key ?t) (pt_value ?t) (pt_hops ?t) (pt_ackhops ?t) (pt_cont ?t) (ucast q') False (pt_remove ?t) (pt_ip ?t))"
      using K hops unfolding put_msg_def by blast
    then have "finish_sent ?n K b ?t c (absorb addrs b (?c nm) [To_backend (addrs ! Suc b)
        (put (pt_key ?t) (pt_value ?t) (pt_hops ?t) (pt_ackhops ?t) (pt_cont ?t) (ucast q') False (pt_remove ?t) (pt_ip ?t))])"
      unfolding finish_sent_def using mid D(3) by (simp add: chain_answered_def push_def) (intro exI conjI; simp)
    then show ?thesis by (rule that [OF run after])
  next
    case tail
    have h: "pt_hops ?t = 0" using tail hops by simp
    have s: "0 <s pt_ackhops ?t - 1 \<longleftrightarrow> 0 < b"
      using tail D(2) hops by (metis diff_Suc_1 lessI less_trans of_nat_hops(2) of_nat_u32_sless zero_less_Suc)
    have pr: "0 <s pt_ackhops ?t - 1 \<Longrightarrow> pred_link ?nm (idb_vid (nm_dbs ?nm ! at b)) (addrs ! (b - 1))" using D(6) s by simp
    obtain fe nm where run: "nm_put_finish ?nm ?t = Done nm" and after: "after_put (at b) ?nm (siltds (nm_dbs ?nm ! at b)) (seq_msg_queue (nm_dbs ?nm ! at b))
        (To_frontend fe (put_response (pt_key ?t) (pt_cont ?t) False (nm_IP ?nm)) #
        (if 0 <s pt_ackhops ?t - 1 then [To_backend (addrs ! (b - 1)) (put_ack (pt_key ?t) (pt_seq ?t) (pt_ackhops ?t - 2) (nm_IP ?nm))] else [])) nm"
      by (rule nm_put_finish_tail [OF tr tail(1) h pr])
    have a: "0 < b \<Longrightarrow> ack_msg K (b - 1) (put_ack (pt_key ?t) (pt_seq ?t) (pt_ackhops ?t - 2) x)" for x
      using tail K q hops(2) by (auto simp: ack_msg_def tail [symmetric])
    show ?thesis
      by (rule that [OF run after]) (use s tail D(3) a in \<open>auto simp: finish_sent_def chain_answered_def push_def\<close>)
  qed
  have "nm_sent nm = out" using after by (simp add: after_put_def)
  then show ?thesis using that [of "absorb addrs b (?c nm) out" nm] run after sent
    by (simp add: finish_put_def after_put_def cl_store_def cl_queue_def)
qed

text \<open>An acknowledgement is handled.\<close>

lemma ack_event:
  assumes ok: "nodes_ok addrs K at (cl_nodes c)" and b: "b < length addrs" and m: "ack_msg K b m"
  obtains c' nm where "take_msg env g addrs c b k m = Done c'" "cl_nodes c' = (cl_nodes c)[b := nm]" "cl_took c' = cl_took c"
    "cl_busy c' = cl_busy c" "cl_asked c' = cl_asked c" "kept (at b) (cl_nodes c ! b) nm"
    "siltds (nm_dbs nm ! at b) = cl_store at c b" "\<exists>q. 0 \<le> sint q \<and> seq_msg_queue (nm_dbs nm ! at b) = dropWhile (acked q) (cl_queue at c b)"
    "chain_answered c' = chain_answered c"
    "if b = 0 then cl_net c' = cl_net c else \<exists>m. ack_msg K (b - 1) m \<and> cl_net c' = cl_net (push c (b, b - 1) m)"
proof -
  let ?nm = "(cl_nodes c ! b)\<lparr>nm_sent := []\<rparr>"
  obtain key q ip where m: "m = put_ack key (ucast (q :: u32)) (of_nat b) ip" and K: "K key" using m by (auto simp: ack_msg_def)
  have q0: "0 \<le> sint (ucast q :: u64)"
    by (simp add: sint_uint unsigned_ucast_eq signed_take_bit_nonnegative_iff bit_take_bit_iff bit_uint_iff)
  note D = nodes_okD [OF ok b]
  have s: "0 <s (of_nat b :: u32) \<longleftrightarrow> 0 < b" using b D(2) by (simp add: of_nat_u32_sless)
  have pr: "0 <s (of_nat b :: u32) \<Longrightarrow> pred_link ?nm (idb_vid (nm_dbs ?nm ! at b)) (addrs ! (b - 1))" using D(6) s by simp
  have rdy: "node_ready ?nm K (at b)" using D(1) by simp
  let ?out = "if 0 <s (of_nat b :: u32) then [To_backend (addrs ! (b - 1)) (put_ack key (ucast q) (of_nat b - 1) (nm_IP ?nm))] else []"
  obtain nm where run: "nm_put_ack ?nm key (ucast q) (of_nat b) = Done nm" and after: "after_put (at b) ?nm (siltds (nm_dbs ?nm ! at b))
      (dropWhile (acked (ucast q)) (seq_msg_queue (nm_dbs ?nm ! at b))) ?out nm"
    by (rule nm_put_ack_node [OF rdy K pr])
  have a: "0 < b \<Longrightarrow> ack_msg K (b - 1) (put_ack key (ucast q) (of_nat b - 1) x)" for x
    using K of_nat_hops(2) [of b] unfolding ack_msg_def by metis
  let ?c' = "absorb addrs b (c\<lparr>cl_nodes := (cl_nodes c)[b := nm]\<rparr>) ?out"
  have "chain_answered ?c' = chain_answered c \<and>
    (if b = 0 then cl_net ?c' = cl_net c else \<exists>m. ack_msg K (b - 1) m \<and> cl_net ?c' = cl_net (push c (b, b - 1) m))"
  proof (cases "b = 0")
    case False
    then have "chain_node addrs (addrs ! (b - 1)) = Some (b - 1)" using b D(3) by simp
    then show ?thesis using False s a by (auto simp: chain_answered_def push_def)
  qed (use s in \<open>simp add: chain_answered_def\<close>)
  moreover have "take_msg env g addrs c b k m = Done ?c'"
    using run after by (simp add: m receive_def after_put_def)
  ultimately show ?thesis using that [of ?c' nm] after q0 by (auto simp: after_put_def cl_store_def cl_queue_def)
qed

section \<open>The invariant is kept\<close>

lemma chain_invD:
  assumes "chain_inv env addrs F K at s0 c"
  shows "nodes_ok addrs K at (cl_nodes c)" "shape (length addrs) K (cl_net c)" "busy_ok (length addrs) F K at (cl_nodes c) (cl_busy c)"
    "\<And>j. Suc j < length addrs \<Longrightarrow> order_ok F c j" "\<And>j. j < length addrs \<Longrightarrow> history_ok env at s0 c j"
    "\<And>m. m \<in> set (cl_queue at c 0) \<Longrightarrow> fst m = 0" "mset (cl_asked c) = mset (chain_answered c) + unanswered (length addrs) c"
    "length (cl_nodes c) = length addrs" "0 < length addrs"
  using assms by (auto simp: chain_inv_def nodes_ok_def)

lemma ops_append [simp]:
  "accepted (xs @ ys) = accepted xs @ accepted ys" "accepted [(x, r)] = (if r = OK then [x] else [])"
  "pending_ops (us @ ws) = pending_ops us @ pending_ops ws" "pending_ops [] = []"
  "pending_ops [(k, t)] = (if pt_ret t = OK then [(pt_key t, pt_value t, pt_remove t)] else [])"
  "msg_ops (ms @ ns) = msg_ops ms @ msg_ops ns" "msg_ops [] = []" "msg_ops (m # ms) = msg_op m @ msg_ops ms"
  by (simp_all add: accepted_def pending_ops_def msg_ops_def)

text \<open>A put that is begun at node \<open>b\<close>, from the connection with the node before or from a client.\<close>

lemma begin_order:
  assumes ord: "order_ok F c j"
    and took: "cl_took c' = (cl_took c)(b := cl_took c b @ [((key, v, rm), r)])" and busy: "cl_busy c' = (cl_busy c)(b := cl_busy c b @ [(k, t)])"
    and t: "pt_ret t = r" "pt_key t = key" "pt_value t = v" "pt_remove t = rm"
    and net: "Suc j \<noteq> b \<Longrightarrow> cl_net c' (j, Suc j) = cl_net c (j, Suc j)"
    and pop: "Suc j = b \<Longrightarrow> msg_ops (cl_net c (j, Suc j)) = (key, v, rm) # msg_ops (cl_net c' (j, Suc j))"
  shows "order_ok F c' j"
proof -
  consider (here) "j = b" | (before) "Suc j = b" | (other) "j \<noteq> b" "Suc j \<noteq> b" by blast
  then show ?thesis
  proof cases
    case here
    then show ?thesis using ord net took busy t by (auto simp: order_ok_def handed_on_def)
  next
    case before
    then show ?thesis using ord pop took busy by (auto simp: order_ok_def handed_on_def)
  next
    case other
    then show ?thesis using ord net took busy by (simp add: order_ok_def handed_on_def)
  qed
qed

lemma begin_keeps:
  assumes inv: "chain_inv env addrs F K at s0 c" and b: "b < length addrs" and op: "put_op env (cl_store at c b) key v rm = (r, s)"
    and free: "k \<notin> fst ` set (cl_busy c b)"
    and nodes: "cl_nodes c' = (cl_nodes c)[b := nm]" and busy: "cl_busy c' = (cl_busy c)(b := cl_busy c b @ [(k, t)])"
    and took: "cl_took c' = (cl_took c)(b := cl_took c b @ [((key, v, rm), r)])"
    and kept: "kept (at b) (cl_nodes c ! b) nm" and sd: "siltds (nm_dbs nm ! at b) = s"
    and qu: "set (seq_msg_queue (nm_dbs nm ! at b)) \<subseteq> insert (q, key, v) (set (cl_queue at c b))"
    and tok: "thread_ok (length addrs) F K at ((cl_nodes c)[b := nm]) b (k, t)"
    and t: "pt_ret t = r" "pt_key t = key" "pt_value t = v" "pt_remove t = rm"
    and shape: "shape (length addrs) K (cl_net c')" and q0: "b = 0 \<Longrightarrow> q = 0"
    and net: "\<And>j. Suc j \<noteq> b \<Longrightarrow> cl_net c' (j, Suc j) = cl_net c (j, Suc j)"
    and pop: "\<And>j. Suc j = b \<Longrightarrow> msg_ops (cl_net c (j, Suc j)) = (key, v, rm) # msg_ops (cl_net c' (j, Suc j))"
    and account: "mset (cl_asked c') = mset (chain_answered c') + unanswered (length addrs) c'"
  shows "chain_inv env addrs F K at s0 c'"
proof -
  note I = chain_invD [OF inv]
  have "history_ok env at s0 c' j" if j: "j < length addrs" for j
  proof (cases "j = b")
    case True
    have "replay_ops env (s0 b) (map fst (cl_took c b)) = (map snd (cl_took c b), cl_store at c b)" using I(5) [OF b] by (simp add: history_ok_def)
    from replay_ops_snoc [OF this op] show ?thesis using True b I(8) sd by (simp add: history_ok_def took nodes cl_store_def)
  qed (use I(5) [OF j] in \<open>simp add: history_ok_def took nodes cl_store_def\<close>)
  moreover have "busy_ok (length addrs) F K at (cl_nodes c') (cl_busy c')"
    unfolding nodes busy by (rule busy_begin [OF busy_frame [where b = b and at = at, OF I(3) kept]]) (use b free tok in auto)
  moreover have "fst m = 0" if "m \<in> set (cl_queue at c' 0)" for m
  proof (cases "b = 0")
    case True
    then have "m \<in> insert (0, key, v) (set (cl_queue at c 0))" using that qu q0 I(8) b by (auto simp: cl_queue_def nodes)
    then show ?thesis using I(6) by fastforce
  qed (rule I(6), use that in \<open>simp add: cl_queue_def nodes\<close>)
  moreover have "order_ok F c' j" if "Suc j < length addrs" for j
    by (rule begin_order [OF I(4) [OF that] took busy t net pop])
  ultimately show ?thesis using nodes_frame [where b = b and at = at, OF I(1) b kept] shape account by (simp add: chain_inv_def nodes)
qed

text \<open>The accounts: what a message or a thread adds, and what it takes away.\<close>

lemma thread_weight_le: "b < n \<Longrightarrow> Suc (thread_weight n b t) \<le> 2 * (n - b) + (n - 1)"
  by (auto simp: thread_weight_def)

lemmas account_simps = unanswered_def chain_work_def

lemma client_begins:
  assumes inv: "chain_inv env addrs F K at s0 c" and K: "K key" and f: "f < F" and free: "Fe f \<notin> fst ` set (cl_busy c 0)"
  obtains c' t where
    "take_msg env g addrs c 0 (Fe f) (put key v (of_nat (length addrs)) (of_nat (length addrs)) cont 0 False rm ip) = Done c'"
    "chain_inv env addrs F K at s0 (c'\<lparr>cl_asked := cl_asked c' @ [cont]\<rparr>)" "cl_asked c' = cl_asked c"
    "chain_work addrs c' \<le> chain_work addrs c + (3 * length addrs - 2)" "cl_net c' = cl_net c"
    "cl_busy c' = (cl_busy c)(0 := cl_busy c 0 @ [(Fe f, t)])" "pt_key t = key" "pt_value t = v" "pt_remove t = rm"
    "pt_ret t = fst (put_op env (cl_store at c 0) key v rm)"
    "cl_took c' = (cl_took c)(0 := cl_took c 0 @ [((key, v, rm), pt_ret t)])" "cl_store at c' 0 = snd (put_op env (cl_store at c 0) key v rm)"
proof -
  let ?n = "length addrs"
  note I = chain_invD [OF inv]
  obtain r s where op: "put_op env (cl_store at c 0) key v rm = (r, s)" by (cases "put_op env (cl_store at c 0) key v rm")
  have fk: "Fe f \<in> (if 0 = (0 :: nat) then Fe ` {..<F} else {Peer (0 - 1)})" using f by simp
  obtain t nm where run: "take_msg env g addrs c 0 (Fe f) (put key v (of_nat (?n - 0)) (of_nat ?n) cont (ucast (0 :: u32)) False rm ip) =
      Done (c\<lparr>cl_nodes := (cl_nodes c)[0 := nm], cl_busy := (cl_busy c)(0 := cl_busy c 0 @ [(Fe f, t)]),
        cl_took := (cl_took c)(0 := cl_took c 0 @ [((key, v, rm), r)])\<rparr>)"
    and E: "kept (at 0) (cl_nodes c ! 0) nm" "siltds (nm_dbs nm ! at 0) = s"
    "set (seq_msg_queue (nm_dbs nm ! at 0)) \<subseteq> insert (0, key, v) (set (cl_queue at c 0))"
    "thread_ok ?n F K at ((cl_nodes c)[0 := nm]) 0 (Fe f, t)"
    and t: "pt_ret t = r" "pt_key t = key" "pt_value t = v" "pt_remove t = rm" and tc: "pt_cont t = cont"
    by (rule begin_event [OF I(1,9) K op fk]) blast
  let ?c = "c\<lparr>cl_nodes := (cl_nodes c)[0 := nm], cl_busy := (cl_busy c)(0 := cl_busy c 0 @ [(Fe f, t)]),
        cl_took := (cl_took c)(0 := cl_took c 0 @ [((key, v, rm), r)])\<rparr>"
  have "chain_inv env addrs F K at s0 (?c\<lparr>cl_asked := cl_asked ?c @ [cont]\<rparr>)"
    by (rule begin_keeps [OF inv I(9) op free _ _ _ E t])
       (use I(2,7,9) tc in \<open>simp_all add: account_simps busy_sum_begin chain_answered_def\<close>)
  moreover have "chain_work addrs ?c \<le> chain_work addrs c + (3 * ?n - 2)"
    using I(9) thread_weight_le [OF I(9), of t] by (simp add: account_simps busy_sum_begin)
  moreover have "cl_store at ?c 0 = s" using E(2) I(8,9) by (simp add: cl_store_def)
  moreover have "take_msg env g addrs c 0 (Fe f) (put key v (of_nat ?n) (of_nat ?n) cont 0 False rm ip) = Done ?c" using run by simp
  ultimately show ?thesis by (intro that [of ?c t]) (use t op in simp_all)
qed

lemma put_delivered:
  assumes inv: "chain_inv env addrs F K at s0 c" and net: "cl_net c (a, Suc a) = m # ms" and free: "Peer a \<notin> fst ` set (cl_busy c (Suc a))"
  obtains c' where "take_msg env g addrs (c\<lparr>cl_net := (cl_net c)((a, Suc a) := ms)\<rparr>) (Suc a) (Peer a) m = Done c'"
    "chain_inv env addrs F K at s0 c'" "cl_asked c' = cl_asked c" "chain_work addrs c' < chain_work addrs c"
    "handed_on 0 c' = handed_on 0 c" "cl_took c' 0 = cl_took c 0" "cl_busy c' 0 = cl_busy c 0"
proof -
  let ?n = "length addrs" and ?b = "Suc a" and ?c = "c\<lparr>cl_net := (cl_net c)((a, Suc a) := ms)\<rparr>"
  note I = chain_invD [OF inv] and D = shape_popD [OF chain_invD(2) [OF inv] net]
  obtain key v cont q fl rm ip where m: "m = put key v (of_nat (?n - ?b)) (of_nat ?n) cont (ucast (q :: u32)) fl rm ip" and K: "K key"
    using D(4) by (auto simp: put_msg_def)
  have st: "cl_store at ?c = cl_store at c" "cl_queue at ?c = cl_queue at c" by (auto simp: cl_store_def cl_queue_def)
  obtain r s where op: "put_op env (cl_store at c ?b) key v rm = (r, s)" by (cases "put_op env (cl_store at c ?b) key v rm")
  have pk: "Peer a \<in> (if ?b = 0 then Fe ` {..<F} else {Peer (?b - 1)})" by simp
  have ok: "nodes_ok addrs K at (cl_nodes ?c)" using I(1) by simp
  have op': "put_op env (cl_store at ?c ?b) key v rm = (r, s)" using op st by simp
  obtain t nm where run: "take_msg env g addrs ?c ?b (Peer a) (put key v (of_nat (?n - ?b)) (of_nat ?n) cont (ucast q) fl rm ip) =
      Done (?c\<lparr>cl_nodes := (cl_nodes ?c)[?b := nm], cl_busy := (cl_busy ?c)(?b := cl_busy ?c ?b @ [(Peer a, t)]),
        cl_took := (cl_took ?c)(?b := cl_took ?c ?b @ [((key, v, rm), r)])\<rparr>)"
    and E: "kept (at ?b) (cl_nodes c ! ?b) nm" "siltds (nm_dbs nm ! at ?b) = s"
    "set (seq_msg_queue (nm_dbs nm ! at ?b)) \<subseteq> insert (q, key, v) (set (cl_queue at c ?b))"
    "thread_ok ?n F K at ((cl_nodes c)[?b := nm]) ?b (Peer a, t)"
    and t: "pt_ret t = r" "pt_key t = key" "pt_value t = v" "pt_remove t = rm" and tc: "pt_cont t = cont"
    by (rule begin_event [OF ok D(2) K op' pk]) (simp add: st)
  let ?c' = "?c\<lparr>cl_nodes := (cl_nodes ?c)[?b := nm], cl_busy := (cl_busy ?c)(?b := cl_busy ?c ?b @ [(Peer a, t)]),
        cl_took := (cl_took ?c)(?b := cl_took ?c ?b @ [((key, v, rm), r)])\<rparr>"
  note pop = in_flight_pop [where net = "cl_net c", OF D(1,2) net]
  have "unanswered ?n ?c' = unanswered ?n c"
    using pop(1) by (simp add: unanswered_def busy_sum_begin [OF D(2)] tc m)
  then have "chain_inv env addrs F K at s0 ?c'"
    by (intro begin_keeps [OF inv D(2) op free _ _ _ E t])
       (use I(7) shape_pop [OF I(2) net] net in \<open>simp_all add: m chain_answered_def\<close>)
  moreover have "chain_work addrs ?c' < chain_work addrs c"
    using pop(2) thread_weight_le [OF D(2), of t] by (simp add: chain_work_def busy_sum_begin [OF D(2)] weight_def)
  moreover have "handed_on 0 ?c' = handed_on 0 c" using net by (auto simp: handed_on_def m)
  ultimately show ?thesis using that [of ?c'] run by (simp add: m)
qed

text \<open>What a finished put adds to the connections.\<close>

lemma finish_sent_cases:
  assumes "finish_sent n K b t c c'" and "b < n"
  obtains (none) "cl_net c' = cl_net c" "chain_answered c' = chain_answered c @ [pt_cont t]" "pt_ret t = OK \<Longrightarrow> Suc b = n"
    | (ack) m where "0 < b" "Suc b = n" "pt_ret t = OK" "ack_msg K (b - 1) m" "cl_net c' = cl_net (push c (b, b - 1) m)"
        "chain_answered c' = chain_answered c @ [pt_cont t]"
    | (fwd) m where "Suc b < n" "pt_ret t = OK" "chain_answered c' = chain_answered c" "put_msg n K (Suc b) m"
        "msg_op m = [(pt_key t, pt_value t, pt_remove t)]" "msg_cont m = {#pt_cont t#}" "cl_net c' = cl_net (push c (b, Suc b) m)"
proof -
  consider "pt_ret t \<noteq> OK" | "pt_ret t = OK" "Suc b < n" | "pt_ret t = OK" "Suc b = n" "b = 0" | "pt_ret t = OK" "Suc b = n" "0 < b"
    using assms(2) by linarith
  then show ?thesis using assms(1) none ack fwd by cases (auto simp: finish_sent_def)
qed

lemma finish_sent_other: "finish_sent n K b t c c' \<Longrightarrow> b < n \<Longrightarrow> j \<noteq> b \<Longrightarrow> cl_net c' (j, Suc j) = cl_net c (j, Suc j)"
  by (erule finish_sent_cases) (auto simp: push_def)

lemma pending_drop_nth:
  assumes "i < length xs"
  shows "mset (pending_ops xs) = mset (pending_ops (drop_nth i xs)) +
      (if pt_ret (snd (xs ! i)) = OK then {#(pt_key (snd (xs ! i)), pt_value (snd (xs ! i)), pt_remove (snd (xs ! i)))#} else {#})"
    and "pt_ret (snd (xs ! i)) \<noteq> OK \<Longrightarrow> pending_ops (drop_nth i xs) = pending_ops xs"
    and "length xs \<le> 1 \<Longrightarrow> pending_ops (drop_nth i xs) = []"
    and "length xs \<le> 1 \<Longrightarrow> pt_ret (snd (xs ! i)) = OK \<Longrightarrow> pending_ops xs = [(pt_key (snd (xs ! i)), pt_value (snd (xs ! i)), pt_remove (snd (xs ! i)))]"
proof -
  let ?x = "xs ! i"
  have eq: "pending_ops xs = pending_ops (take i xs) @ pending_ops [?x] @ pending_ops (drop (Suc i) xs)"
    by (subst drop_nth_split(1) [OF assms]) (simp only: ops_append(3) [symmetric], simp)
  have x: "pending_ops [?x] = (if pt_ret (snd ?x) = OK then [(pt_key (snd ?x), pt_value (snd ?x), pt_remove (snd ?x))] else [])"
    by (simp add: pending_ops_def)
  show "mset (pending_ops xs) = mset (pending_ops (drop_nth i xs)) +
      (if pt_ret (snd ?x) = OK then {#(pt_key (snd ?x), pt_value (snd ?x), pt_remove (snd ?x))#} else {#})"
    by (simp add: eq x drop_nth_def)
  show "pt_ret (snd ?x) \<noteq> OK \<Longrightarrow> pending_ops (drop_nth i xs) = pending_ops xs" by (simp add: eq x drop_nth_def)
  assume l: "length xs \<le> 1"
  then obtain x where "i = 0" "xs = [x]" using assms by (auto simp: length_Suc_conv le_Suc_eq)
  then show "pending_ops (drop_nth i xs) = []" and "pt_ret (snd ?x) = OK \<Longrightarrow> pending_ops xs = [(pt_key (snd ?x), pt_value (snd ?x), pt_remove (snd ?x))]"
    using x by (auto simp: drop_nth_def)
qed

lemma finish_order:
  assumes ord: "order_ok F c j" and busy1: "0 < b \<or> F \<le> 1 \<Longrightarrow> length (cl_busy c b) \<le> 1" and i: "i < length (cl_busy c b)" and b: "b < n"
    and took: "cl_took c' = cl_took c" and busy: "cl_busy c' = (cl_busy c)(b := drop_nth i (cl_busy c b))"
    and sent: "finish_sent n K b (snd (cl_busy c b ! i)) c c'" and j: "Suc j < n"
  shows "order_ok F c' j"
proof (cases "j = b")
  case True
  note P = pending_drop_nth [OF i]
  show ?thesis
  proof (rule finish_sent_cases [OF sent b])
    assume "cl_net c' = cl_net c" and r: "pt_ret (snd (cl_busy c b ! i)) = OK \<Longrightarrow> Suc b = n"
    moreover have "pt_ret (snd (cl_busy c b ! i)) \<noteq> OK" using r True j by auto
    ultimately show ?thesis using ord P(2) True by (simp add: order_ok_def handed_on_def took busy)
  next
    fix m assume r: "pt_ret (snd (cl_busy c b ! i)) = OK" and n: "cl_net c' = cl_net (push c (b, Suc b) m)"
      and m: "msg_op m = [(pt_key (snd (cl_busy c b ! i)), pt_value (snd (cl_busy c b ! i)), pt_remove (snd (cl_busy c b ! i)))]"
    have "mset (handed_on b c') = mset (handed_on b c)" using P(1) r m by (simp add: handed_on_def took busy n push_def)
    moreover have "handed_on b c' = handed_on b c" if "0 < b \<or> F \<le> 1"
      using P(3,4) [OF busy1 [OF that]] r m by (simp add: handed_on_def took busy n push_def)
    ultimately show ?thesis using ord True by (auto simp: order_ok_def took)
  qed (use True j in simp)
next
  case False
  then show ?thesis using ord finish_sent_other [OF sent b False] by (simp add: order_ok_def handed_on_def took busy)
qed

lemma finish_keeps:
  assumes inv: "chain_inv env addrs F K at s0 c" and i: "i < length (cl_busy c b)"
  obtains c' where "finish_put addrs c b i = Done c'" "chain_inv env addrs F K at s0 c'" "cl_asked c' = cl_asked c"
    "chain_work addrs c' < chain_work addrs c" "cl_took c' = cl_took c" "cl_busy c' = (cl_busy c)(b := drop_nth i (cl_busy c b))"
    "finish_sent (length addrs) K b (snd (cl_busy c b ! i)) c c'" "cl_store at c' 0 = cl_store at c 0" "b \<noteq> 0 \<Longrightarrow> cl_net c' (0, Suc 0) = cl_net c (0, Suc 0)"
proof -
  let ?n = "length addrs" and ?t = "snd (cl_busy c b ! i)"
  note I = chain_invD [OF inv]
  have "cl_busy c b \<noteq> []" using i by auto
  then have b: "b < ?n" using I(3) by (simp add: busy_ok_def)
  have tok: "thread_ok ?n F K at (cl_nodes c) b (cl_busy c b ! i)" using I(3) i by (simp add: busy_ok_def list_all_length)
  obtain c' nm where run: "finish_put addrs c b i = Done c'" and nodes: "cl_nodes c' = (cl_nodes c)[b := nm]" and took: "cl_took c' = cl_took c"
    and busy: "cl_busy c' = (cl_busy c)(b := drop_nth i (cl_busy c b))" and asked: "cl_asked c' = cl_asked c"
    and kp: "kept (at b) (cl_nodes c ! b) nm" and sd: "siltds (nm_dbs nm ! at b) = cl_store at c b" "seq_msg_queue (nm_dbs nm ! at b) = cl_queue at c b"
    and sent: "finish_sent ?n K b ?t c c'"
    by (rule finish_event [OF I(1) b tok])
  have st: "cl_store at c' j = cl_store at c j" "cl_queue at c' j = cl_queue at c j" if "j < ?n" for j
    using that I(8) sd by (cases "j = b"; simp add: cl_store_def cl_queue_def nodes)+
  have b1: "b - 1 < ?n" using b by simp
  have sh: "shape ?n K (cl_net c')"
    by (rule finish_sent_cases [OF sent b]) (use I(2) b in \<open>auto simp: push_def shape_ack [unfolded One_nat_def] intro!: shape_put\<close>)
  have acc: "mset (chain_answered c') + unanswered ?n c' = mset (chain_answered c) + unanswered ?n c"
    unfolding unanswered_def busy busy_sum_finish [where f = "\<lambda>b t. {#pt_cont t#}" and busy = "cl_busy c", OF b i, symmetric]
    by (rule finish_sent_cases [OF sent b]) (use b b1 in \<open>auto simp: in_flight_push ack_msg_cont\<close>)
  have wk: "chain_work addrs c' < chain_work addrs c"
    unfolding chain_work_def busy busy_sum_finish [where f = "thread_weight ?n" and busy = "cl_busy c", OF b i, symmetric]
    by (rule finish_sent_cases [OF sent b]) (use b b1 in \<open>auto simp: in_flight_push weight_def thread_weight_def\<close>)
  have "busy_ok ?n F K at (cl_nodes c') (cl_busy c')"
    unfolding nodes busy by (rule busy_finish [OF busy_frame [where b = b and at = at, OF I(3) kp]])
  moreover have "order_ok F c' j" if "Suc j < ?n" for j
    by (rule finish_order [OF I(4) [OF that] busy_single [OF I(3)] i b took busy sent that])
  moreover have "\<forall>j < ?n. history_ok env at s0 c' j" using I(5) st by (simp add: history_ok_def took)
  moreover have "\<forall>m \<in> set (cl_queue at c' 0). fst m = 0" using I(6) st(2) [OF I(9)] by simp
  moreover have "nodes_ok addrs K at (cl_nodes c')" unfolding nodes by (rule nodes_frame [OF I(1) b kp])
  ultimately have "chain_inv env addrs F K at s0 c'" using sh acc I(7) by (simp add: chain_inv_def asked)
  then show ?thesis using that run asked wk took busy sent st(1) [OF I(9)] finish_sent_other [OF sent b, of 0] by simp
qed

lemma ack_delivered:
  assumes inv: "chain_inv env addrs F K at s0 c" and net: "cl_net c (Suc b, b) = m # ms"
  obtains c' where "take_msg env g addrs (c\<lparr>cl_net := (cl_net c)((Suc b, b) := ms)\<rparr>) b k m = Done c'"
    "chain_inv env addrs F K at s0 c'" "cl_asked c' = cl_asked c" "chain_work addrs c' < chain_work addrs c"
    "handed_on 0 c' = handed_on 0 c" "cl_took c' = cl_took c" "cl_busy c' = cl_busy c" "b = 0 \<Longrightarrow> cl_queue at c' 0 = []"
proof -
  let ?n = "length addrs" and ?c = "c\<lparr>cl_net := (cl_net c)((Suc b, b) := ms)\<rparr>"
  note I = chain_invD [OF inv] and D = shape_popD [OF chain_invD(2) [OF inv] net]
  have am: "ack_msg K b m" using D(5) by simp
  have ok: "nodes_ok addrs K at (cl_nodes ?c)" using I(1) by simp
  obtain c' nm where run: "take_msg env g addrs ?c b k m = Done c'" and nodes: "cl_nodes c' = (cl_nodes ?c)[b := nm]" and took: "cl_took c' = cl_took ?c"
    and busy: "cl_busy c' = cl_busy ?c" and asked: "cl_asked c' = cl_asked ?c"
    and kp: "kept (at b) (cl_nodes ?c ! b) nm" and sd: "siltds (nm_dbs nm ! at b) = cl_store at ?c b"
    and qu: "\<exists>q. 0 \<le> sint q \<and> seq_msg_queue (nm_dbs nm ! at b) = dropWhile (acked q) (cl_queue at ?c b)"
    and an: "chain_answered c' = chain_answered ?c"
    and sent: "if b = 0 then cl_net c' = cl_net ?c else \<exists>m. ack_msg K (b - 1) m \<and> cl_net c' = cl_net (push ?c (b, b - 1) m)"
    by (rule ack_event [OF ok D(2) am])
  note pop = in_flight_pop [where net = "cl_net c", OF D(1,2) net]
  have sh': "shape ?n K (cl_net ?c)" using shape_pop [OF I(2) net] by simp
  have net': "shape ?n K (cl_net c') \<and> in_flight conts ?n (cl_net c') = in_flight conts ?n (cl_net c) \<and>
    (\<forall>a. cl_net c' (a, Suc a) = cl_net c (a, Suc a)) \<and> in_flight (work ?n) ?n (cl_net c') < in_flight (work ?n) ?n (cl_net c)"
  proof (cases "b = 0")
    case True
    then show ?thesis using sent sh' pop am by (simp add: ack_msg_cont weight_def)
  next
    case False
    then obtain m' where m': "ack_msg K (b - 1) m'" and cn: "cl_net c' = cl_net (push ?c (b, b - 1) m')" using sent by auto
    have b1: "b - 1 < ?n" using D(2) by simp
    have "shape ?n K (cl_net c')" using shape_ack [OF sh' _ D(2) m'] False by (simp add: cn push_def)
    moreover have "in_flight conts ?n (cl_net c') = in_flight conts ?n (cl_net c)"
      using pop(1) am m' by (simp only: cn in_flight_push(1) [OF D(2) b1]) (simp add: ack_msg_cont)
    moreover have "in_flight (work ?n) ?n (cl_net c') < in_flight (work ?n) ?n (cl_net c)"
      using pop(2) False by (simp only: cn in_flight_push(2) [OF D(2) b1]) (auto simp: weight_def)
    ultimately show ?thesis using False by (auto simp: cn push_def)
  qed
  have st: "cl_store at c' j = cl_store at c j" if "j < ?n" for j
    using that I(8) sd by (cases "j = b") (simp_all add: cl_store_def nodes)
  have q0: "\<forall>m \<in> set (cl_queue at c 0). acked q m" if "0 \<le> sint q" for q using I(6) that by (auto simp: acked_def)
  have empty: "b = 0 \<Longrightarrow> cl_queue at c' 0 = []"
    using qu q0 I(8,9) by (auto simp: cl_queue_def nodes dropWhile_eq_Nil_conv)
  have keep0: "b \<noteq> 0 \<Longrightarrow> cl_queue at c' 0 = cl_queue at c 0" by (simp add: cl_queue_def nodes)
  have "\<forall>m \<in> set (cl_queue at c' 0). fst m = 0" using empty keep0 I(6) by (cases "b = 0") auto
  moreover have "busy_ok ?n F K at (cl_nodes c') (cl_busy c')" unfolding nodes busy using busy_frame [where b = b and at = at, OF I(3)] kp by simp
  moreover have "nodes_ok addrs K at (cl_nodes c')" unfolding nodes by (rule nodes_frame [OF ok D(2) kp])
  moreover have "\<forall>j. Suc j < ?n \<longrightarrow> order_ok F c' j" using I(4) net' by (simp add: order_ok_def handed_on_def took busy)
  moreover have "\<forall>j < ?n. history_ok env at s0 c' j" using I(5) st by (simp add: history_ok_def took)
  ultimately have "chain_inv env addrs F K at s0 c'" using net' I(7) an by (simp add: chain_inv_def asked unanswered_def busy chain_answered_def)
  then show ?thesis using that [OF run _ _ _ _ _ _ empty] net' asked took busy by (simp add: chain_work_def handed_on_def)
qed

text \<open>Every step keeps the invariant, and a step that is not a new put takes work away.\<close>

lemma cl_internal_keeps:
  assumes "cl_internal env addrs c c'" and inv: "chain_inv env addrs F K at s0 c"
  shows "chain_inv env addrs F K at s0 c'" "cl_asked c' = cl_asked c" "chain_work addrs c' < chain_work addrs c" "cl_took c' 0 = cl_took c 0"
    "cl_busy c 0 = [] \<Longrightarrow> cl_busy c' 0 = [] \<and> handed_on 0 c' = handed_on 0 c"
proof -
  have "chain_inv env addrs F K at s0 c' \<and> cl_asked c' = cl_asked c \<and> chain_work addrs c' < chain_work addrs c \<and> cl_took c' 0 = cl_took c 0 \<and>
    (cl_busy c 0 = [] \<longrightarrow> cl_busy c' 0 = [] \<and> handed_on 0 c' = handed_on 0 c)"
    using assms(1)
  proof cases
    case (deliver a b m ms g)
    from shape_popD(3) [OF chain_invD(2) [OF inv] deliver(1)] show ?thesis
    proof
      assume b: "b = Suc a"
      note d = deliver [unfolded b]
      show ?thesis
        by (rule put_delivered [OF inv d(1,2), of g]) (use d(3) in auto)
    next
      assume a: "a = Suc b"
      show ?thesis
        by (rule ack_delivered [OF inv deliver(1) [unfolded a], of g "Peer a"]) (use deliver(3) a in auto)
    qed
  next
    case (finish i b)
    show ?thesis
      by (rule finish_keeps [OF inv finish(1)]) (use finish in \<open>auto simp: drop_nth_def handed_on_def\<close>)
  qed
  then show "chain_inv env addrs F K at s0 c'" "cl_asked c' = cl_asked c" "chain_work addrs c' < chain_work addrs c" "cl_took c' 0 = cl_took c 0"
    "cl_busy c 0 = [] \<Longrightarrow> cl_busy c' 0 = [] \<and> handed_on 0 c' = handed_on 0 c" by blast+
qed

lemma cl_step_keeps:
  assumes "cl_step env addrs F K c c'" and inv: "chain_inv env addrs F K at s0 c"
  shows "chain_inv env addrs F K at s0 c'"
    and "Suc (chain_work addrs c') + (3 * length addrs - 1) * length (cl_asked c)
      \<le> chain_work addrs c + (3 * length addrs - 1) * length (cl_asked c')"
proof -
  have "chain_inv env addrs F K at s0 c' \<and> Suc (chain_work addrs c') + (3 * length addrs - 1) * length (cl_asked c)
      \<le> chain_work addrs c + (3 * length addrs - 1) * length (cl_asked c')"
    using assms(1)
  proof cases
    case (client_put key f g v cont rm ip c0)
    have n: "0 < length addrs" by (rule chain_invD(9) [OF inv])
    obtain c2 where c2: "take_msg env g addrs c 0 (Fe f) (put key v (of_nat (length addrs)) (of_nat (length addrs)) cont 0 False rm ip) = Done c2"
      "chain_inv env addrs F K at s0 (c2\<lparr>cl_asked := cl_asked c2 @ [cont]\<rparr>)" "cl_asked c2 = cl_asked c"
      "chain_work addrs c2 \<le> chain_work addrs c + (3 * length addrs - 2)"
      by (rule client_begins [OF inv client_put(2-4), of g v cont rm ip])
    have "c2 = c0" using c2(1) client_put(5) by (simp del: take_msg.simps)
    moreover have "chain_work addrs (c2\<lparr>cl_asked := cl_asked c2 @ [cont]\<rparr>) = chain_work addrs c2" by (simp add: chain_work_def)
    moreover have "Suc (chain_work addrs c2) \<le> chain_work addrs c + (3 * length addrs - 1)" using c2(4) n by linarith
    ultimately show ?thesis using c2(2,3) client_put(1) by simp
  next
    case internal
    then show ?thesis using cl_internal_keeps(1-3) [OF _ inv] by fastforce
  qed
  then show "chain_inv env addrs F K at s0 c'" "Suc (chain_work addrs c') + (3 * length addrs - 1) * length (cl_asked c)
      \<le> chain_work addrs c + (3 * length addrs - 1) * length (cl_asked c')" by simp_all
qed

section \<open>Runs\<close>

text \<open>A chain before its first put, and a chain at rest.\<close>

definition chain_start :: "bytes list \<Rightarrow> (bytes \<Rightarrow> bool) \<Rightarrow> (nat \<Rightarrow> nat) \<Rightarrow> 's cluster \<Rightarrow> bool" where
  "chain_start addrs K at c \<longleftrightarrow> nodes_ok addrs K at (cl_nodes c) \<and> cl_net c = (\<lambda>p. []) \<and> cl_busy c = (\<lambda>b. []) \<and> cl_took c = (\<lambda>b. []) \<and>
    cl_answers c = [] \<and> cl_asked c = [] \<and> cl_queue at c 0 = []"

definition at_rest :: "'s cluster \<Rightarrow> bool" where
  "at_rest c \<longleftrightarrow> cl_net c = (\<lambda>p. []) \<and> cl_busy c = (\<lambda>b. [])"

lemma chain_start_inv: "chain_start addrs K at c \<Longrightarrow> chain_inv env addrs F K at (cl_store at c) c"
  by (auto simp: chain_start_def chain_inv_def shape_def busy_ok_def order_ok_def handed_on_def accepted_def history_ok_def chain_answered_def
      unanswered_def in_flight_def busy_sum_def conts_def)

lemma cl_steps_keep:
  assumes "(cl_step env addrs F K)\<^sup>*\<^sup>* c c'" and "chain_inv env addrs F K at s0 c"
  shows "chain_inv env addrs F K at s0 c'"
  using assms(1) by (induction rule: rtranclp_induct) (use assms(2) in \<open>auto intro: cl_step_keeps\<close>)

lemmas reached_inv = cl_steps_keep [OF _ chain_start_inv]

text \<open>At rest every put has its answer, and every node was given what the node before it accepted.\<close>

lemma rest_order:
  assumes inv: "chain_inv env addrs F K at s0 c" and rest: "at_rest c"
  shows "mset (chain_answered c) = mset (cl_asked c)"
    and "Suc j < length addrs \<Longrightarrow> mset (accepted (cl_took c j)) = mset (map fst (cl_took c (Suc j)))"
    and "Suc j < length addrs \<Longrightarrow> 0 < j \<or> F \<le> 1 \<Longrightarrow> accepted (cl_took c j) = map fst (cl_took c (Suc j))"
proof -
  note I = chain_invD [OF inv]
  show "mset (chain_answered c) = mset (cl_asked c)" using I(7) rest by (simp add: at_rest_def unanswered_def in_flight_def busy_sum_def conts_def)
  show "Suc j < length addrs \<Longrightarrow> mset (accepted (cl_took c j)) = mset (map fst (cl_took c (Suc j)))"
    "Suc j < length addrs \<Longrightarrow> 0 < j \<or> F \<le> 1 \<Longrightarrow> accepted (cl_took c j) = map fst (cl_took c (Suc j))"
    using I(4) [of j] rest by (auto simp: order_ok_def handed_on_def at_rest_def)
qed

text \<open>With one front end, equal stores stay equal as long as the head refuses nothing.\<close>

lemma rest_equal:
  assumes inv: "chain_inv env addrs F K at s0 c" and rest: "at_rest c" and F: "F \<le> 1"
    and same: "\<forall>j < length addrs. s0 j = s0 0" and ok: "\<forall>x \<in> set (cl_took c 0). snd x = OK" and j: "j < length addrs"
  shows "cl_took c j = cl_took c 0 \<and> cl_store at c j = cl_store at c 0"
  using j
proof (induction j)
  case (Suc j)
  then have IH: "cl_took c j = cl_took c 0" "cl_store at c j = cl_store at c 0" by simp_all
  have h: "history_ok env at s0 c i" if "i < length addrs" for i by (rule chain_invD(5) [OF inv that])
  have "accepted (cl_took c 0) = map fst (cl_took c 0)" using ok by (simp add: accepted_def filter_id_conv)
  then have "map fst (cl_took c (Suc j)) = map fst (cl_took c 0)" using rest_order(3) [OF inv rest Suc.prems] F IH by simp
  moreover have "s0 (Suc j) = s0 0" using same Suc.prems by blast
  ultimately have "(map snd (cl_took c (Suc j)), cl_store at c (Suc j)) = (map snd (cl_took c 0), cl_store at c 0)"
    using h [OF Suc.prems] h [OF chain_invD(9) [OF inv]] unfolding history_ok_def by metis
  then show ?case using \<open>map fst (cl_took c (Suc j)) = _\<close> by (metis prod.inject zip_map_fst_snd)
qed simp

lemma internal_steps_bounded:
  assumes "((cl_internal env addrs) ^^ k) c c'" and "chain_inv env addrs F K at s0 c"
  shows "chain_inv env addrs F K at s0 c' \<and> chain_work addrs c' + k \<le> chain_work addrs c \<and> cl_took c' 0 = cl_took c 0 \<and> cl_asked c' = cl_asked c \<and>
    (cl_busy c 0 = [] \<longrightarrow> cl_busy c' 0 = [] \<and> handed_on 0 c' = handed_on 0 c)"
  using assms(1)
proof (induction k arbitrary: c')
  case (Suc k)
  then obtain c1 where c1: "((cl_internal env addrs) ^^ k) c c1" and d: "cl_internal env addrs c1 c'" by auto
  from Suc.IH [OF c1] cl_internal_keeps [OF d, of F K at s0] show ?case by auto
qed (use assms(2) in simp)

lemma never_stuck:
  assumes inv: "chain_inv env addrs F K at s0 c" and "\<not> at_rest c"
  obtains c' where "cl_internal env addrs c c'"
proof (cases "cl_busy c = (\<lambda>b. [])")
  case False
  then obtain b where "0 < length (cl_busy c b)" by fastforce
  then show ?thesis using finish_keeps [OF inv, of 0 b] cl_internal.finish that by metis
next
  case True
  then obtain p where "cl_net c p \<noteq> []" using assms(2) by (auto simp: at_rest_def fun_eq_iff)
  then obtain a b m ms where net: "cl_net c (a, b) = m # ms" by (metis neq_Nil_conv surj_pair)
  from shape_popD(3) [OF chain_invD(2) [OF inv] net] show ?thesis
  proof
    assume b: "b = Suc a"
    have free: "Peer a \<notin> fst ` set (cl_busy c b)" using True by simp
    obtain c' where "take_msg env undefined addrs (c\<lparr>cl_net := (cl_net c)((a, b) := ms)\<rparr>) b (Peer a) m = Done c'"
      using put_delivered [OF inv net [unfolded b], where g = undefined] free b by metis
    from deliver [OF net free this] show ?thesis by (rule that)
  next
    assume a: "a = Suc b"
    have free: "Peer a \<notin> fst ` set (cl_busy c b)" using True by simp
    obtain c' where "take_msg env undefined addrs (c\<lparr>cl_net := (cl_net c)((a, b) := ms)\<rparr>) b (Peer a) m = Done c'"
      using ack_delivered [OF inv net [unfolded a], where g = undefined and k = "Peer a"] a by metis
    from deliver [OF net free this] show ?thesis by (rule that)
  qed
qed

lemma chain_drains:
  assumes "chain_inv env addrs F K at s0 c"
  shows "\<exists>c'. (cl_internal env addrs)\<^sup>*\<^sup>* c c' \<and> at_rest c'"
  using assms
proof (induction "chain_work addrs c" arbitrary: c rule: less_induct)
  case less
  show ?case
  proof (cases "at_rest c")
    case False
    obtain c1 where d: "cl_internal env addrs c c1" by (rule never_stuck [OF less.prems False])
    from less.hyps [OF cl_internal_keeps(3,1) [OF d less.prems]] show ?thesis by (meson converse_rtranclp_into_rtranclp d)
  qed auto
qed

lemma cl_steps_bounded:
  assumes "((cl_step env addrs F K) ^^ k) c c'" and "chain_inv env addrs F K at s0 c"
  shows "chain_inv env addrs F K at s0 c' \<and> chain_work addrs c' + k + (3 * length addrs - 1) * length (cl_asked c)
    \<le> chain_work addrs c + (3 * length addrs - 1) * length (cl_asked c')"
  using assms(1)
proof (induction k arbitrary: c')
  case (Suc k)
  then obtain c1 where c1: "((cl_step env addrs F K) ^^ k) c c1" and d: "cl_step env addrs F K c1 c'" by auto
  from Suc.IH [OF c1] cl_step_keeps [OF d, of at s0] show ?case by auto
qed (use assms(2) in simp)

text \<open>Two threads of the head have changed the store and not passed their puts on. The later one can be the first to do so.\<close>

lemma later_thread_first:
  assumes inv: "chain_inv env addrs F K at s0 c" and n: "1 < length addrs" and busy: "cl_busy c 0 = [(k1, t1), (k2, t2)]"
    and ok: "pt_ret t1 = OK" "pt_ret t2 = OK"
  obtains c' where "(cl_internal env addrs)\<^sup>*\<^sup>* c c'" "at_rest c'" "chain_inv env addrs F K at s0 c'" "cl_took c' 0 = cl_took c 0"
    "map fst (cl_took c' 1) = map fst (cl_took c 1) @ msg_ops (cl_net c (0, 1)) @
      [(pt_key t2, pt_value t2, pt_remove t2), (pt_key t1, pt_value t1, pt_remove t1)]"
proof -
  obtain c3 where 3: "finish_put addrs c 0 1 = Done c3" "chain_inv env addrs F K at s0 c3" "cl_took c3 = cl_took c"
    "cl_busy c3 0 = [(k1, t1)]" "finish_sent (length addrs) K 0 t2 c c3"
    by (rule finish_keeps [OF inv, of 1 0]) (use busy in \<open>auto simp: drop_nth_def\<close>)
  have net3: "msg_ops (cl_net c3 (0, 1)) = msg_ops (cl_net c (0, 1)) @ [(pt_key t2, pt_value t2, pt_remove t2)]"
    by (rule finish_sent_cases [OF 3(5)]) (use n ok in \<open>auto simp: push_def\<close>)
  obtain c4 where 4: "finish_put addrs c3 0 0 = Done c4" "chain_inv env addrs F K at s0 c4" "cl_took c4 = cl_took c3"
    "cl_busy c4 0 = []" "finish_sent (length addrs) K 0 t1 c3 c4"
    by (rule finish_keeps [OF 3(2), of 0 0]) (use 3(4) in \<open>auto simp: drop_nth_def\<close>)
  have net4: "msg_ops (cl_net c4 (0, 1)) = msg_ops (cl_net c3 (0, 1)) @ [(pt_key t1, pt_value t1, pt_remove t1)]"
    by (rule finish_sent_cases [OF 4(5)]) (use n ok in \<open>auto simp: push_def\<close>)
  obtain c' where r: "(cl_internal env addrs)\<^sup>*\<^sup>* c4 c'" and rest: "at_rest c'" using chain_drains [OF 4(2)] by blast
  then obtain k where "((cl_internal env addrs) ^^ k) c4 c'" by (auto simp: rtranclp_power)
  from internal_steps_bounded [OF this 4(2)] 4(4)
  have inv': "chain_inv env addrs F K at s0 c'" and t0: "cl_took c' 0 = cl_took c4 0" and h: "handed_on 0 c' = handed_on 0 c4" by auto
  have "cl_internal env addrs c c3" by (rule finish [OF _ 3(1)]) (simp add: busy)
  moreover have "cl_internal env addrs c3 c4" by (rule finish [OF _ 4(1)]) (simp add: 3(4))
  ultimately have "(cl_internal env addrs)\<^sup>*\<^sup>* c c'" using r by (meson converse_rtranclp_into_rtranclp)
  from that [OF this rest inv'] show ?thesis
    using t0 h rest net3 net4 4(3,4) 3(3) by (simp add: handed_on_def at_rest_def)
qed

end
