(* ===== verification/Backend_Props.thy ===== *)
theory Backend_Props
  imports Backend_Chain
begin

text \<open>
  The properties of the back end: chain replication, reading, acknowledgements, copying a range, and the names of
  range files.
\<close>

section \<open>A small chain\<close>

text \<open>A store that is a list of pairs, and a node that keeps all keys in one range, with one neighbour.\<close>

definition pairs_put :: "(bytes \<times> bytes) list \<Rightarrow> bytes \<Rightarrow> bytes \<Rightarrow> FawnDS_Return \<times> (bytes \<times> bytes) list" where
  "pairs_put s key v = (if key = [] then (INVALID_KEY, s) else (OK, (key, v) # s))"

definition pairs_delete :: "(bytes \<times> bytes) list \<Rightarrow> bytes \<Rightarrow> FawnDS_Return \<times> (bytes \<times> bytes) list" where
  "pairs_delete s key = (if map_of s key = None then (KEY_NOT_FOUND, s) else (OK, filter (\<lambda>p. fst p \<noteq> key) s))"

definition pairs_get :: "(bytes \<times> bytes) list \<Rightarrow> bytes \<Rightarrow> FawnDS_Return \<times> bytes \<times> (bytes \<times> bytes) list" where
  "pairs_get s key = (case map_of s key of None \<Rightarrow> (KEY_NOT_FOUND, [], s) | Some v \<Rightarrow> (OK, v, s))"

definition pairs_env :: "(bytes \<times> bytes) list be_env" where
  "pairs_env = \<lparr>silt_New = [], silt_Create = \<lambda>s. (OK, []), silt_Open = \<lambda>s. (OK, s), silt_Put = pairs_put, silt_Delete = pairs_delete,
    silt_Get = pairs_get, be_hashes = [], be_pagesize = 4096, be_filecap = 0, be_garbage = []\<rparr>"

definition all_keys_h :: fawnds where
  "all_keys_h = \<lparr>header = \<lparr>magic_number = 0, hashtable_size = 0, number_elements = 0, deleted_elements = 0, max_deleted_ratio = 0,
      max_load_factor = 0, keyFormat = TEXT_KEYS, data_insertion_point = 0, data_start_point = 0, startID = [9], endID = [9]\<rparr>,
    hash_table = [], datastore = \<lparr>fdata = [], fcap = 0\<rparr>\<rparr>"

definition all_keys_db :: "(bytes \<times> bytes) list interval_db" where
  "all_keys_db = \<lparr>siltds = [], idb_h = Some all_keys_h, idb_cursor = \<lparr>currSplit = 0, precopyIP = []\<rparr>, tempDS = None, idb_name = [],
    seq_msg_queue = [], seq_cont_queue = [], seq_msg_queue_tmp = [], seq_cont_queue_tmp = [], splitPoint = [], largest_seq = 0,
    last_ack = 0, last_put = 0, idb_sequence = 1, idb_valid = True, idb_vid = [9], dbLock = Free\<rparr>"

text \<open>Node \<open>j\<close> has the address \<open>[j]\<close> and is connected to the nodes before and after it.\<close>

definition small_nm :: "8 word \<Rightarrow> (bytes \<times> bytes) list node_mgr" where
  "small_nm j = (nm_new [j] 4000 False False [] Map.empty)\<lparr>nm_dbs := [all_keys_db], nm_conn := \<lparr>
     vid_sid_succIP_map = [[9] \<mapsto> ([9], [j + 1])], vid_pid_predIP_map = [[9] \<mapsto> ([9], [j - 1])],
     ip_client_map = [[j - 1] \<mapsto> Some [j - 1], [j + 1] \<mapsto> Some [j + 1]], ip_fe_map = Map.empty,
     ip_socketlock_map = {[j - 1], [j + 1]}\<rparr>\<rparr>"

definition small_addrs :: "bytes list" where
  "small_addrs = [[1], [2], [3]]"

definition small_chain :: "(bytes \<times> bytes) list cluster" where
  "small_chain = \<lparr>cl_nodes = [small_nm 1, small_nm 2, small_nm 3], cl_net = (\<lambda>p. []), cl_busy = (\<lambda>b. []), cl_took = (\<lambda>b. []),
    cl_answers = [], cl_asked = []\<rparr>"

lemma small_nm_ready: "node_ready (small_nm j) (\<lambda>k. True) 0"
proof -
  have "dbid_eq (getStartID all_keys_h) (getEndID all_keys_h)" by code_simp
  then show ?thesis by (simp add: node_ready_def small_nm_def nm_new_def all_keys_db_def fe_ok_def deref_def between_def)
qed

lemma small_nm_links: "succ_link (small_nm j) [9] [j + 1]" "pred_link (small_nm j) [9] [j - 1]"
  by (simp_all add: succ_link_def pred_link_def small_nm_def nm_new_def)

lemma small_nm_vid: "idb_vid (nm_dbs (small_nm j) ! 0) = [9]" "siltds (nm_dbs (small_nm j) ! 0) = []"
  by (simp_all add: small_nm_def all_keys_db_def)

lemma small_chain_start: "chain_start small_addrs (\<lambda>k. True) (\<lambda>j. 0) small_chain"
proof -
  have "node_ok small_addrs (\<lambda>k. True) (\<lambda>j. 0) 0 (small_nm 1)" "node_ok small_addrs (\<lambda>k. True) (\<lambda>j. 0) 1 (small_nm 2)"
    "node_ok small_addrs (\<lambda>k. True) (\<lambda>j. 0) 2 (small_nm 3)"
    using small_nm_ready small_nm_links [of 1] small_nm_links [of 2] small_nm_links [of 3]
    by (simp_all add: node_ok_def small_addrs_def small_nm_vid)
  moreover have "j = 0 \<or> j = 1 \<or> j = 2" if "j < length small_addrs" for j :: nat using that by (auto simp: small_addrs_def)
  moreover have "length small_addrs < 2 ^ 31" by (simp add: small_addrs_def)
  ultimately show ?thesis
    by (fastforce simp: chain_start_def nodes_ok_def small_addrs_def small_chain_def cl_queue_def small_nm_def all_keys_db_def)
qed

definition no_given :: be_given where
  "no_given = \<lparr>given_ret = ERROR, given_status = 0, given_last_put = 0, given_info = \<lparr>ri_last_put = 0, ri_last_ack = 0\<rparr>,
    given_rs = undefined, given_ring = undefined\<rparr>"

text \<open>Runs of the small chain as lists of events: a put of a front end, a delivery, the second part of the put of a thread.\<close>

datatype chain_event = Client nat bytes bytes u64 | Deliver nat nat | Finish nat nat

fun do_event :: "'s be_env \<Rightarrow> bytes list \<Rightarrow> nat \<Rightarrow> chain_event \<Rightarrow> 's cluster \<Rightarrow> 's cluster option" where
  "do_event env addrs F (Client f key v cont) c =
    (if f < F \<and> Fe f \<notin> fst ` set (cl_busy c 0) then
       (case take_msg env no_given addrs c 0 (Fe f) (put key v (of_nat (length addrs)) (of_nat (length addrs)) cont 0 False False [1, 58, 52]) of
          Done c' \<Rightarrow> Some (c'\<lparr>cl_asked := cl_asked c' @ [cont]\<rparr>) | _ \<Rightarrow> None)
     else None)"
| "do_event env addrs F (Deliver a b) c =
    (case cl_net c (a, b) of
       [] \<Rightarrow> None
     | m # ms \<Rightarrow>
         if Peer a \<in> fst ` set (cl_busy c b) then None
         else (case take_msg env no_given addrs (c\<lparr>cl_net := (cl_net c)((a, b) := ms)\<rparr>) b (Peer a) m of Done c' \<Rightarrow> Some c' | _ \<Rightarrow> None))"
| "do_event env addrs F (Finish b i) c =
    (if i < length (cl_busy c b) then (case finish_put addrs c b i of Done c' \<Rightarrow> Some c' | _ \<Rightarrow> None) else None)"

fun do_events :: "'s be_env \<Rightarrow> bytes list \<Rightarrow> nat \<Rightarrow> chain_event list \<Rightarrow> 's cluster \<Rightarrow> 's cluster option" where
  "do_events env addrs F [] c = Some c"
| "do_events env addrs F (e # es) c = Option.bind (do_event env addrs F e c) (do_events env addrs F es)"

lemma do_event_step: "do_event env addrs F e c = Some c' \<Longrightarrow> cl_step env addrs F (\<lambda>k. True) c c'"
proof (cases e)
  case (Client f key v cont)
  assume "do_event env addrs F e c = Some c'"
  then show ?thesis unfolding Client
    by (auto simp del: take_msg.simps split: if_splits run.splits intro!: client_put [where f = f and key = key and v = v and cont = cont])
next
  case (Deliver a b)
  assume "do_event env addrs F e c = Some c'"
  then show ?thesis unfolding Deliver
    by (auto simp del: take_msg.simps split: if_splits run.splits list.splits intro!: internal deliver)
next
  case (Finish b i)
  assume "do_event env addrs F e c = Some c'"
  then show ?thesis unfolding Finish by (auto split: if_splits run.splits intro!: internal finish)
qed

lemma do_events_steps: "do_events env addrs F es c = Some c' \<Longrightarrow> ((cl_step env addrs F (\<lambda>k. True)) ^^ length es) c c'"
proof (induction es arbitrary: c)
  case (Cons e es)
  then obtain c1 where "do_event env addrs F e c = Some c1" and "do_events env addrs F es c1 = Some c'"
    by (auto simp: Option.bind_eq_Some_conv simp del: do_event.simps)
  then show ?case using Cons.IH [of c1] do_event_step relpowp_Suc_I2 by (metis length_Cons)
qed simp

text \<open>One put at the head of the small chain: it is on its way to the second node.\<close>

definition one_put :: "chain_event list" where
  "one_put = [Client 0 [5] [6] 7, Finish 0 0]"

lemma small_put:
  obtains c where "do_events pairs_env small_addrs 1 one_put small_chain = Some c" "((cl_step pairs_env small_addrs 1 (\<lambda>k. True)) ^^ 2) small_chain c"
    "(cl_step pairs_env small_addrs 1 (\<lambda>k. True))\<^sup>*\<^sup>* small_chain c" "cl_asked c = [7]"
    "cl_net c (0, 1) = [put [5] [6] 2 3 7 1 False False [1, 58, 52]]"
proof -
  have "(case do_events pairs_env small_addrs 1 one_put small_chain of
      Some c \<Rightarrow> cl_asked c = [7] \<and> cl_net c (0, 1) = [put [5] [6] 2 3 7 1 False False [1, 58, 52]] | None \<Rightarrow> False)"
    by code_simp
  then obtain c where c: "do_events pairs_env small_addrs 1 one_put small_chain = Some c" "cl_asked c = [7]"
    "cl_net c (0, 1) = [put [5] [6] 2 3 7 1 False False [1, 58, 52]]"
    by (auto simp del: do_events.simps split: option.splits)
  from do_events_steps [OF c(1)] have s: "((cl_step pairs_env small_addrs 1 (\<lambda>k. True)) ^^ 2) small_chain c"
    by (simp add: one_put_def numeral_2_eq_2)
  then show ?thesis using that c by (metis relpowp_imp_rtranclp)
qed

section \<open>Chain replication\<close>

text \<open>
  Property C1. In every run of a chain of connected nodes that hold a common range, with puts and removals of keys of the range from \<open>F\<close>
  front ends, no change of membership and no broken connection, with any interleaving of requests, deliveries and threads, the store of a node is what
  the operations it was given make of its first store, with the results that it returned; and the operations that it accepted are
  exactly those that the node after it was given, followed by those on the connection between the two, followed by those of its threads
  that have not passed theirs on. They are in the same order, except at the head of a chain with several front ends, where they are the same
  bag. Nothing is asked of the store, which may also change when it refuses an operation.
\<close>

theorem chain_replicas_agree:
  assumes "chain_start addrs K at c0" and "(cl_step env addrs F K)\<^sup>*\<^sup>* c0 c"
  shows "(\<forall>j < length addrs. replay_ops env (cl_store at c0 j) (map fst (cl_took c j)) = (map snd (cl_took c j), cl_store at c j)) \<and>
    (\<forall>j. Suc j < length addrs \<longrightarrow>
      mset (accepted (cl_took c j)) = mset (map fst (cl_took c (Suc j)) @ msg_ops (cl_net c (j, Suc j)) @ pending_ops (cl_busy c j)) \<and>
      (0 < j \<or> F \<le> 1 \<longrightarrow>
        accepted (cl_took c j) = map fst (cl_took c (Suc j)) @ msg_ops (cl_net c (j, Suc j)) @ pending_ops (cl_busy c j)))"
  using chain_invD(4,5) [OF reached_inv [OF assms(2,1)]] by (auto simp: history_ok_def order_ok_def handed_on_def)

theorem chain_replicas_agree_witness:
  "\<exists>c. (cl_step pairs_env small_addrs 1 (\<lambda>k. True))\<^sup>*\<^sup>* small_chain c \<and> cl_net c (0, 1) \<noteq> [] \<and>
    accepted (cl_took c 0) = map fst (cl_took c 1) @ msg_ops (cl_net c (0, 1)) @ pending_ops (cl_busy c 0)"
proof -
  obtain c where c: "(cl_step pairs_env small_addrs 1 (\<lambda>k. True))\<^sup>*\<^sup>* small_chain c" "cl_net c (0, 1) \<noteq> []" by (rule small_put) auto
  have "Suc 0 < length small_addrs" by (simp add: small_addrs_def)
  with chain_replicas_agree [OF small_chain_start c(1)] c show ?thesis by auto
qed

text \<open>
  Property C2. When no more puts arrive, a chain (of the same kind of run) comes to rest: from every state it can reach, at most \<open>chain_work\<close> steps are
  possible in any order, and no state is stuck before all connections and threads are done. Then every put has been answered exactly
  once, and each node was given what the node before it accepted, in the same order except at the head of a chain with several front ends.
  With one front end, copies that were equal at the start are equal at the end when the head's store refused nothing.
\<close>

theorem put_chain_drains:
  assumes "chain_start addrs K at c0" and "(cl_step env addrs F K)\<^sup>*\<^sup>* c0 c" and "((cl_internal env addrs) ^^ k) c c'"
  shows "k \<le> chain_work addrs c \<and> (\<not> at_rest c' \<longrightarrow> (\<exists>c''. cl_internal env addrs c' c'')) \<and>
    (\<exists>c''. (cl_internal env addrs)\<^sup>*\<^sup>* c' c'' \<and> at_rest c'') \<and>
    (at_rest c' \<longrightarrow> mset (chain_answered c') = mset (cl_asked c) \<and>
      (\<forall>j. Suc j < length addrs \<longrightarrow> mset (accepted (cl_took c' j)) = mset (map fst (cl_took c' (Suc j))) \<and>
        (0 < j \<or> F \<le> 1 \<longrightarrow> accepted (cl_took c' j) = map fst (cl_took c' (Suc j)))) \<and>
      (F \<le> 1 \<and> (\<forall>j < length addrs. cl_store at c0 j = cl_store at c0 0) \<and> (\<forall>x \<in> set (cl_took c' 0). snd x = OK) \<longrightarrow>
        (\<forall>j < length addrs. cl_store at c' j = cl_store at c' 0)))"
proof (intro conjI impI allI)
  have D: "chain_inv env addrs F K at (cl_store at c0) c'" "chain_work addrs c' + k \<le> chain_work addrs c" "cl_asked c' = cl_asked c"
    using internal_steps_bounded [OF assms(3) reached_inv [OF assms(2,1)]] by simp_all
  show "k \<le> chain_work addrs c" using D(2) by simp
  show "\<exists>c''. cl_internal env addrs c' c''" if "\<not> at_rest c'" using never_stuck [OF D(1) that] by metis
  show "\<exists>c''. (cl_internal env addrs)\<^sup>*\<^sup>* c' c'' \<and> at_rest c''" by (rule chain_drains [OF D(1)])
  assume rest: "at_rest c'"
  note R = rest_order [OF D(1) rest]
  show "mset (chain_answered c') = mset (cl_asked c)" using R(1) D(3) by simp
  show "cl_store at c' j = cl_store at c' 0"
    if "F \<le> 1 \<and> (\<forall>j < length addrs. cl_store at c0 j = cl_store at c0 0) \<and> (\<forall>x \<in> set (cl_took c' 0). snd x = OK)" "j < length addrs" for j
    using rest_equal [OF D(1) rest _ _ _ that(2)] that(1) by blast
  fix j assume j: "Suc j < length addrs"
  show "mset (accepted (cl_took c' j)) = mset (map fst (cl_took c' (Suc j)))" by (rule R(2) [OF j])
  show "accepted (cl_took c' j) = map fst (cl_took c' (Suc j))" if "0 < j \<or> F \<le> 1" by (rule R(3) [OF j that])
qed

theorem put_chain_drains_witness:
  "\<exists>c c'. (cl_step pairs_env small_addrs 1 (\<lambda>k. True))\<^sup>*\<^sup>* small_chain c \<and> cl_net c (0, 1) \<noteq> [] \<and>
    (cl_internal pairs_env small_addrs)\<^sup>*\<^sup>* c c' \<and> at_rest c' \<and> mset (chain_answered c') = {#7#}"
proof -
  obtain c where c: "(cl_step pairs_env small_addrs 1 (\<lambda>k. True))\<^sup>*\<^sup>* small_chain c" "cl_net c (0, 1) \<noteq> []" "cl_asked c = [7]"
    by (rule small_put) auto
  have "((cl_internal pairs_env small_addrs) ^^ 0) c c" by simp
  from put_chain_drains [OF small_chain_start c(1) this]
  obtain c' where c': "(cl_internal pairs_env small_addrs)\<^sup>*\<^sup>* c c'" "at_rest c'" by blast
  then obtain k where "((cl_internal pairs_env small_addrs) ^^ k) c c'" by (auto simp: rtranclp_power)
  from put_chain_drains [OF small_chain_start c(1) this] c' c show ?thesis by auto
qed

text \<open>
  Property C8. In every run of a chain of \<open>n\<close> nodes the nodes stay ready, with their range unlocked and their neighbours connected, and all
  messages have their form: only neighbours talk to each other, a put on its way to node \<open>b\<close> has \<open>n - b\<close> hops to go and
  \<open>n\<close> for the way back, an acknowledgement on its way to node \<open>b\<close> has \<open>b\<close> hops to go. The counts are 32-bit numbers. The run takes
  at most \<open>3 n - 1\<close> steps for each put: the two parts of the put at every node, and the way of its acknowledgement back.
\<close>

theorem chain_messages_wellformed:
  assumes "chain_start addrs K at c0" and "((cl_step env addrs F K) ^^ k) c0 c"
  shows "nodes_ok addrs K at (cl_nodes c) \<and> shape (length addrs) K (cl_net c) \<and> k \<le> (3 * length addrs - 1) * length (cl_asked c)"
proof -
  have "chain_inv env addrs F K at (cl_store at c0) c \<and> chain_work addrs c + k + (3 * length addrs - 1) * length (cl_asked c0)
    \<le> chain_work addrs c0 + (3 * length addrs - 1) * length (cl_asked c)"
    by (rule cl_steps_bounded [OF assms(2) chain_start_inv [OF assms(1)]])
  moreover have "chain_work addrs c0 = 0" "cl_asked c0 = []"
    using assms(1) by (simp_all add: chain_start_def chain_work_def in_flight_def work_def busy_sum_def)
  ultimately show ?thesis using chain_invD(1,2) by fastforce
qed

theorem chain_messages_wellformed_witness:
  "\<exists>c. ((cl_step pairs_env small_addrs 1 (\<lambda>k. True)) ^^ 2) small_chain c \<and> cl_net c (0, 1) \<noteq> [] \<and>
    list_all (put_msg 3 (\<lambda>k. True) 1) (cl_net c (0, 1)) \<and> 2 \<le> 8 * length (cl_asked c)"
proof -
  obtain c where c: "((cl_step pairs_env small_addrs 1 (\<lambda>k. True)) ^^ 2) small_chain c" "cl_net c (0, 1) \<noteq> []" by (rule small_put) auto
  have n: "length small_addrs = 3" by (simp add: small_addrs_def)
  from chain_messages_wellformed [OF small_chain_start c(1)] have sh: "shape 3 (\<lambda>k. True) (cl_net c)" and k: "2 \<le> 8 * length (cl_asked c)"
    by (simp_all add: n)
  from sh have "list_all (put_msg 3 (\<lambda>k. True) (Suc 0)) (cl_net c (0, Suc 0))" unfolding shape_def by blast
  with c k show ?thesis by auto
qed

text \<open>
  Property C30. With two front ends the nodes of a chain can store two puts in opposite orders: the head gives up the lock of the
  range before it passes a put on, so that the thread of the later put can be the first to send. The run ends at rest, the head's store
  has taken the first put and then the second, the store of the next node the second and then the first, and nothing corrects it.
\<close>

theorem forwards_overtake:
  assumes start: "chain_start addrs K at c0" and n: "1 < length addrs" and F: "1 < F" and K: "K k1" "K k2"
    and op: "put_op env (cl_store at c0 0) k1 v1 rm1 = (OK, s1)" "put_op env s1 k2 v2 rm2 = (OK, s2)"
  shows "\<exists>c. (cl_step env addrs F K)\<^sup>*\<^sup>* c0 c \<and> at_rest c \<and> cl_store at c 0 = s2 \<and>
    cl_store at c 1 = snd (replay_ops env (cl_store at c0 1) [(k2, v2, rm2), (k1, v1, rm1)])"
proof -
  let ?o1 = "(k1, v1, rm1)" and ?o2 = "(k2, v2, rm2)" and ?s0 = "cl_store at c0"
  note inv0 = chain_start_inv [OF start, of env F]
  have e: "cl_busy c0 = (\<lambda>b. [])" "cl_net c0 = (\<lambda>p. [])" "cl_took c0 = (\<lambda>b. [])" using start by (auto simp: chain_start_def)
  obtain a1 t1 where 1: "take_msg env no_given addrs c0 0 (Fe 0) (put k1 v1 (of_nat (length addrs)) (of_nat (length addrs)) 1 0 False rm1 []) = Done a1"
    "chain_inv env addrs F K at ?s0 (a1\<lparr>cl_asked := cl_asked a1 @ [1]\<rparr>)" "cl_net a1 = cl_net c0"
    "cl_busy a1 = (cl_busy c0)(0 := cl_busy c0 0 @ [(Fe 0, t1)])" "pt_key t1 = k1" "pt_value t1 = v1" "pt_remove t1 = rm1" "pt_ret t1 = OK"
    "cl_took a1 = (cl_took c0)(0 := cl_took c0 0 @ [(?o1, OK)])" "cl_store at a1 0 = s1"
    by (rule client_begins [OF inv0 K(1), of 0 no_given v1 1 rm1 "[]"]) (use F e op in auto)
  let ?c1 = "a1\<lparr>cl_asked := cl_asked a1 @ [1]\<rparr>"
  have st1: "cl_step env addrs F K c0 ?c1" by (rule client_put [where K = K and key = k1, OF K(1) _ _ 1(1)]) (use F e in auto)
  have s1: "cl_store at ?c1 0 = s1" using 1(10) by (simp add: cl_store_def)
  obtain a2 t2 where 2: "take_msg env no_given addrs ?c1 0 (Fe 1) (put k2 v2 (of_nat (length addrs)) (of_nat (length addrs)) 2 0 False rm2 []) = Done a2"
    "chain_inv env addrs F K at ?s0 (a2\<lparr>cl_asked := cl_asked a2 @ [2]\<rparr>)" "cl_net a2 = cl_net ?c1"
    "cl_busy a2 = (cl_busy ?c1)(0 := cl_busy ?c1 0 @ [(Fe 1, t2)])" "pt_key t2 = k2" "pt_value t2 = v2" "pt_remove t2 = rm2" "pt_ret t2 = OK"
    "cl_took a2 = (cl_took ?c1)(0 := cl_took ?c1 0 @ [(?o2, OK)])"
    by (rule client_begins [OF 1(2) K(2), of 1 no_given v2 2 rm2 "[]"]) (use F e op(2) s1 1(4) in auto)
  let ?c2 = "a2\<lparr>cl_asked := cl_asked a2 @ [2]\<rparr>"
  have st2: "cl_step env addrs F K ?c1 ?c2" by (rule client_put [where K = K and key = k2, OF K(2) _ _ 2(1)]) (use F e 1(4) in auto)
  have b2: "cl_busy ?c2 0 = [(Fe 0, t1), (Fe 1, t2)]" using 1(4) 2(4) e by simp
  obtain c where r: "(cl_internal env addrs)\<^sup>*\<^sup>* ?c2 c" and rest: "at_rest c" and inv: "chain_inv env addrs F K at ?s0 c"
    and took: "cl_took c 0 = cl_took ?c2 0" "map fst (cl_took c 1) = map fst (cl_took ?c2 1) @ msg_ops (cl_net ?c2 (0, 1)) @
      [(pt_key t2, pt_value t2, pt_remove t2), (pt_key t1, pt_value t1, pt_remove t1)]"
    by (rule later_thread_first [OF 2(2) n b2 1(8) 2(8)])
  have "map fst (cl_took c 1) = [?o2, ?o1]" "cl_took c 0 = [(?o1, OK), (?o2, OK)]" using took 1(3-9) 2(3-9) e by simp_all
  then have "cl_store at c 1 = snd (replay_ops env (?s0 1) [?o2, ?o1])" "cl_store at c 0 = s2"
    using chain_invD(5) [OF inv, of 1] chain_invD(5) [OF inv chain_invD(9) [OF inv]] n op by (auto simp: history_ok_def)
  moreover have "(cl_step env addrs F K)\<^sup>*\<^sup>* ?c2 c" using r by (rule mono_rtranclp [rule_format, rotated]) (rule internal)
  then have "(cl_step env addrs F K)\<^sup>*\<^sup>* c0 c" using st1 st2 by (meson converse_rtranclp_into_rtranclp)
  ultimately show ?thesis using rest by blast
qed

theorem forwards_overtake_witness:
  "\<exists>c. (cl_step pairs_env small_addrs 2 (\<lambda>k. True))\<^sup>*\<^sup>* small_chain c \<and> at_rest c \<and>
    fst (snd (pairs_get (cl_store (\<lambda>j. 0) c 0) [5])) = [7] \<and> fst (snd (pairs_get (cl_store (\<lambda>j. 0) c 1) [5])) = [6]"
proof -
  have s0: "cl_store (\<lambda>j. 0) small_chain 0 = []" "cl_store (\<lambda>j. 0) small_chain 1 = []"
    by (simp_all add: cl_store_def small_chain_def small_nm_vid)
  have op: "put_op pairs_env (cl_store (\<lambda>j. 0) small_chain 0) [5] [6] False = (OK, [([5], [6])])"
    "put_op pairs_env [([5], [6])] [5] [7] False = (OK, [([5], [7]), ([5], [6])])"
    by (simp_all add: s0 put_op_def pairs_env_def pairs_put_def)
  have "1 < length small_addrs" by (simp add: small_addrs_def)
  from forwards_overtake [OF small_chain_start this _ _ _ op, of 2] obtain c
    where "(cl_step pairs_env small_addrs 2 (\<lambda>k. True))\<^sup>*\<^sup>* small_chain c" "at_rest c"
      "cl_store (\<lambda>j. 0) c 0 = [([5], [7]), ([5], [6])]"
      "cl_store (\<lambda>j. 0) c 1 = snd (replay_ops pairs_env [] [([5], [7], False), ([5], [6], False)])" unfolding s0 by auto
  then show ?thesis by (intro exI [of _ c]) (simp add: put_op_def pairs_env_def pairs_put_def pairs_get_def)
qed

section \<open>Reading\<close>

text \<open>A range that is in use holds the key.\<close>

definition in_some_range :: "'s node_mgr \<Rightarrow> bytes \<Rightarrow> bool" where
  "in_some_range nm key \<longleftrightarrow>
    list_ex (\<lambda>d. idb_valid d \<and> (case idb_h d of None \<Rightarrow> False | Some h \<Rightarrow> between (getStartID h) (getEndID h) (DBID key))) (nm_dbs nm)"

lemma find_scan_range:
  "find_scan p m ds i = Done io \<Longrightarrow>
    io \<noteq> None \<longleftrightarrow> list_ex (\<lambda>d. idb_valid d \<and> (case idb_h d of None \<Rightarrow> False | Some h \<Rightarrow> between (getStartID h) (getEndID h) p)) ds"
proof (induction ds arbitrary: i)
  case (Cons d ds)
  then show ?case by (cases "idb_h d") (auto split: if_splits)
qed auto

text \<open>
  Property C35. A get at a back end answers with an empty value, whatever the store returned: the value goes into a local variable, the
  answer is built without it. The status is \<^verbatim>\<open>STALE_RING\<close> exactly when no valid range of the node holds the key; otherwise it is whatever the
  memory held, because no statement sets it.
\<close>

theorem get_returns_no_value:
  assumes "get_queue nm = gr # rest" and "getConsumer env ret0 status0 nm = Done nm'"
  shows "get_resp_queue nm' = get_resp_queue nm @ [\<lparr>ga_key = gq_key gr, ga_continuation = gq_continuation gr, ga_value = [],
    ga_status = (if in_some_range nm (gq_key gr) then status0 else STALE_RING), ga_ip = gq_ip gr\<rparr>]"
proof -
  obtain io nm1 where f: "findIntervalDb (nm\<lparr>get_queue := rest\<rparr>) (gq_key gr) RDLOCK = Done (io, nm1)"
    and run: "get_handler env ret0 status0 (nm\<lparr>get_queue := rest\<rparr>) (gq_key gr) (gq_continuation gr) (gq_ip gr) = Done nm'"
    using assms by (auto simp: getConsumer_def get_handler_def)
  moreover from f have "get_resp_queue nm1 = get_resp_queue nm"
    by (auto simp: findIntervalDb_def upd_db_def split: option.splits)
  moreover from f have "io \<noteq> None \<longleftrightarrow> in_some_range nm (gq_key gr)"
    using find_scan_range [of "DBID (gq_key gr)" RDLOCK "nm_dbs nm" 0 io] by (auto simp: findIntervalDb_def in_some_range_def)
  ultimately show ?thesis
    by (cases io) (auto simp: get_handler_def unlock_idb_def upd_db_def Let_def split: prod.splits)
qed

theorem get_returns_no_value_witness:
  "case getConsumer pairs_env OK 0 ((small_nm 1)\<lparr>nm_dbs := [all_keys_db\<lparr>siltds := [([5], [6])]\<rparr>],
      get_queue := [\<lparr>gq_key = [5], gq_continuation = 7, gq_ip = [1, 58, 52]\<rparr>]\<rparr>) of
     Done nm' \<Rightarrow> fst (pairs_get [([5], [6])] [5]) = OK \<and> fst (snd (pairs_get [([5], [6])] [5])) = [6] \<and>
       get_resp_queue nm' = [\<lparr>ga_key = [5], ga_continuation = 7, ga_value = [], ga_status = 0, ga_ip = [1, 58, 52]\<rparr>]
   | _ \<Rightarrow> False"
proof -
  define nm where "nm = (small_nm 1)\<lparr>nm_dbs := [all_keys_db\<lparr>siltds := [([5], [6])]\<rparr>],
      get_queue := [\<lparr>gq_key = [5], gq_continuation = 7, gq_ip = [1, 58, 52]\<rparr>]\<rparr>"
  have "case getConsumer pairs_env OK 0 nm of Done nm' \<Rightarrow> True | _ \<Rightarrow> False" unfolding nm_def by code_simp
  then obtain nm' where run: "getConsumer pairs_env OK 0 nm = Done nm'" by (cases "getConsumer pairs_env OK 0 nm") auto
  have "get_resp_queue nm = []" and q: "get_queue nm = [\<lparr>gq_key = [5], gq_continuation = 7, gq_ip = [1, 58, 52]\<rparr>]"
    by (simp_all add: nm_def small_nm_def nm_new_def)
  moreover have "in_some_range nm [5]" unfolding nm_def by code_simp
  ultimately show ?thesis unfolding nm_def [symmetric] using get_returns_no_value [OF q run] by (auto simp: run pairs_get_def)
qed

section \<open>Acknowledgements\<close>

text \<open>
  Property C36. In every run of a chain the head's buffer of puts that wait for their acknowledgement holds only the number zero, because
  the head gives a put its number when it passes it on, after it has buffered it. Every acknowledgement that reaches the head
  therefore empties the buffer, also of the puts that are still on their way: what the next node has yet to get is left as it is.
\<close>

theorem head_ack_drops_pending:
  assumes "chain_start addrs K at c0" and "(cl_step env addrs F K)\<^sup>*\<^sup>* c0 c" and "cl_net c (1, 0) = m # ms"
    and "take_msg env g addrs (c\<lparr>cl_net := (cl_net c)((1, 0) := ms)\<rparr>) 0 (Peer 1) m = Done c'"
  shows "(\<forall>x \<in> set (cl_queue at c 0). fst x = 0) \<and> cl_queue at c' 0 = [] \<and> handed_on 0 c' = handed_on 0 c"
proof -
  note inv = reached_inv [OF assms(2,1)]
  have net: "cl_net c (Suc 0, 0) = m # ms" using assms(3) by simp
  obtain c2 where "take_msg env g addrs (c\<lparr>cl_net := (cl_net c)((Suc 0, 0) := ms)\<rparr>) 0 (Peer 1) m = Done c2"
    "handed_on 0 c2 = handed_on 0 c" "cl_queue at c2 0 = []"
    by (rule ack_delivered [OF inv net, of g "Peer 1"]) auto
  then show ?thesis using assms(4) chain_invD(6) [OF inv] by (auto simp del: take_msg.simps)
qed

text \<open>A put goes down the small chain and its acknowledgement comes back, while a second put is on its way to the second node.\<close>

definition two_puts :: "chain_event list" where
  "two_puts = [Client 0 [5] [6] 7, Finish 0 0, Deliver 0 1, Finish 1 0, Deliver 1 2, Finish 2 0, Deliver 2 1, Client 0 [8] [6] 9, Finish 0 0]"

theorem head_ack_drops_pending_witness:
  "\<exists>c c'. (cl_step pairs_env small_addrs 1 (\<lambda>k. True))\<^sup>*\<^sup>* small_chain c \<and> cl_queue (\<lambda>j. 0) c 0 = [(0, [5], [6]), (0, [8], [6])] \<and>
    (cl_step pairs_env small_addrs 1 (\<lambda>k. True)) c c' \<and> cl_queue (\<lambda>j. 0) c' 0 = [] \<and> handed_on 0 c' = [([5], [6], False), ([8], [6], False)] \<and>
    map fst (cl_took c' 1) = [([5], [6], False)]"
proof -
  have "case do_events pairs_env small_addrs 1 two_puts small_chain of
      Some c \<Rightarrow> cl_queue (\<lambda>j. 0) c 0 = [(0, [5], [6]), (0, [8], [6])] \<and> handed_on 0 c = [([5], [6], False), ([8], [6], False)] \<and>
        (case cl_net c (1, 0) of [] \<Rightarrow> False | m # ms \<Rightarrow>
          (case take_msg pairs_env no_given small_addrs (c\<lparr>cl_net := (cl_net c)((1, 0) := ms)\<rparr>) 0 (Peer 1) m of
             Done c' \<Rightarrow> map fst (cl_took c' 1) = [([5], [6], False)] | _ \<Rightarrow> False)) \<and> Peer 1 \<notin> fst ` set (cl_busy c 0)
    | None \<Rightarrow> False" by code_simp
  then obtain c m ms c' where c: "do_events pairs_env small_addrs 1 two_puts small_chain = Some c"
    "cl_queue (\<lambda>j. 0) c 0 = [(0, [5], [6]), (0, [8], [6])]" "handed_on 0 c = [([5], [6], False), ([8], [6], False)]"
    and net: "cl_net c (1, 0) = m # ms" and free: "Peer 1 \<notin> fst ` set (cl_busy c 0)"
    and run: "take_msg pairs_env no_given small_addrs (c\<lparr>cl_net := (cl_net c)((1, 0) := ms)\<rparr>) 0 (Peer 1) m = Done c'"
    and took: "map fst (cl_took c' 1) = [([5], [6], False)]"
    by (auto simp del: do_events.simps take_msg.simps split: option.splits list.splits run.splits)
  have s: "(cl_step pairs_env small_addrs 1 (\<lambda>k. True))\<^sup>*\<^sup>* small_chain c" using do_events_steps [OF c(1)] by (rule relpowp_imp_rtranclp)
  have "cl_step pairs_env small_addrs 1 (\<lambda>k. True) c c'" by (rule internal [OF deliver [OF net free run]])
  with head_ack_drops_pending [OF small_chain_start s net run] s c(2,3) took show ?thesis by (intro exI [of _ c] exI [of _ c']) simp
qed

section \<open>Copying a range\<close>

text \<open>
  Property C37. The puts with which a node copies a range to another one say that they go no further: no hops, and flush set. The
  receiver ignores the flush flag, takes the hops below zero, and passes the put on to its own successor with minus one hops.
\<close>

theorem copied_put_passed_on:
  assumes "node_ready nm K i" and "K key" and "put_op env (siltds (nm_dbs nm ! i)) key v rm = (OK, s)"
    and "succ_link nm (idb_vid (nm_dbs nm ! i)) sa"
  shows "\<exists>nm' q. be_handle env g nm (put key v 0 0 0 0 True rm ip) = Done nm' \<and> siltds (nm_dbs nm' ! i) = s \<and>
    nm_sent nm' = nm_sent nm @ [To_backend sa (put key v (- 1) 0 0 q False rm ip)]"
proof -
  have h: "(0 :: u32) - 1 \<noteq> 0" by simp
  obtain q nm' where "nm_put env (given_ret g) nm key v 0 0 0 0 True rm ip = Done nm'" "siltds (nm_dbs nm' ! i) = s"
    "nm_sent nm' = nm_sent nm @ [To_backend sa (put key v (0 - 1) 0 0 q False rm ip)]"
    by (rule nm_put_passed_on [OF assms h])
  then show ?thesis by auto
qed

theorem copied_put_passed_on_witness:
  "\<exists>nm' q. be_handle pairs_env no_given (small_nm 2) (put [5] [6] 0 0 0 0 True False [1, 58, 52]) = Done nm' \<and>
    nm_sent nm' = [To_backend [3] (put [5] [6] (- 1) 0 0 q False False [1, 58, 52])]"
proof -
  have op: "put_op pairs_env (siltds (nm_dbs (small_nm 2) ! 0)) [5] [6] False = (OK, [([5], [6])])"
    by (simp add: small_nm_vid put_op_def pairs_env_def pairs_put_def)
  have l: "succ_link (small_nm 2) (idb_vid (nm_dbs (small_nm 2) ! 0)) [3]" using small_nm_links(1) [of 2] by (simp add: small_nm_vid)
  have "nm_sent (small_nm 2) = []" by (simp add: small_nm_def nm_new_def)
  with copied_put_passed_on [OF small_nm_ready _ op l, of no_given "[1, 58, 52]"] show ?thesis by auto
qed

section \<open>Names of ranges\<close>

text \<open>
  Property C38. Two ranges of one node have the same file only when they end at the same identifier, as long as the identifiers have
  one length and the name fits the buffer of 255 characters: the text form of an identifier, which shortens its trailing zero bytes,
  is injective on identifiers of one length.
\<close>

theorem range_names_distinct:
  assumes "length s = length t" and "length (nm_filebase nm) + length prefix + 2 * length s + 4 \<le> 255"
  shows "interval_name nm prefix s = interval_name nm prefix t \<longleftrightarrow> s = t"
proof -
  have "length (bytes_to_hex u) \<le> 2 * length u + 4" for u
    using length_strip0 [of u] by (simp add: bytes_to_hex_strip)
  from this [of s] this [of t] show ?thesis using assms bytes_to_hex_inj [of s t] by (auto simp: interval_name_def)
qed

theorem range_names_distinct_witness:
  "interval_name (small_nm 1) [] [1, 0, 0] \<noteq> interval_name (small_nm 1) [] [1, 2, 0]"
  using range_names_distinct [of "[1, 0, 0]" "[1, 2, 0]" "small_nm 1" "[]"] by (simp add: small_nm_def nm_new_def)

end
