(* ===== verification/Cuckoo.thy ===== *)
theory Cuckoo
  imports Outcome Silt_Types Posix_File
begin

text \<open>
  The cuckoo hash table of SILT (\<^verbatim>\<open>siltds/hash_table_cuckoo.h\<close>, \<^verbatim>\<open>hash_table_cuckoo.cc\<close>). A key has two fragments of
  15 bits. An entry lies in the row that one of them names and keeps the other as its tag, so that it can move to its other
  row without its key. The random numbers of a \<^verbatim>\<open>Put\<close> and the values of the configuration are arguments.
\<close>

section \<open>Rows\<close>

definition ck_NUMHASH :: nat where "ck_NUMHASH = 2"
definition ck_ASSOCIATIVITY :: nat where "ck_ASSOCIATIVITY = 4"
definition ck_MAX_CUCKOO_COUNT :: nat where "ck_MAX_CUCKOO_COUNT = 128"
definition ck_KEYFRAGBITS :: nat where "ck_KEYFRAGBITS = 15"
definition ck_KEYFRAGMASK :: u32 where "ck_KEYFRAGMASK = 0x7FFF"
definition ck_VALIDBITMASK :: u32 where "ck_VALIDBITMASK = 0x8000"
definition ck_KEYPRESENTMASK :: u32 where "ck_KEYPRESENTMASK = 0xFFFF"

text \<open>The tag vector is read and written in units of 16 bits: the fragment and the valid bit.\<close>

record tag_val_row =
  tag_vector :: "u16 list"
  val_vector :: "u32 list"

definition ck_zero_row :: tag_val_row where
  "ck_zero_row = \<lparr>tag_vector = replicate ck_ASSOCIATIVITY 0, val_vector = replicate ck_ASSOCIATIVITY 0\<rparr>"

text \<open>The table with offsets or the table without them; two null pointers are a closed table.\<close>

record cuckoo =
  ck_hash_table :: "tag_val_row list option"
  ck_fpf_table :: "u16 list list option"
  ck_max_index :: u32
  ck_max_entries :: u32
  ck_current_entries :: u32
  ck_file :: os_file

text \<open>The 16 bits of a slot, whichever table there is.\<close>

definition ck_slot :: "cuckoo \<Rightarrow> nat \<Rightarrow> nat \<Rightarrow> u32" where
  "ck_slot t index way =
    (case ck_hash_table t of
       Some rows \<Rightarrow> ucast (tag_vector (rows ! index) ! way)
     | None \<Rightarrow> (case ck_fpf_table t of Some rows \<Rightarrow> ucast (rows ! index ! way) | None \<Rightarrow> 0))"

definition ck_valid :: "cuckoo \<Rightarrow> nat \<Rightarrow> nat \<Rightarrow> bool" where
  "ck_valid t index way \<longleftrightarrow> ck_slot t index way AND ck_VALIDBITMASK \<noteq> 0"

definition ck_tag :: "cuckoo \<Rightarrow> nat \<Rightarrow> nat \<Rightarrow> nat" where
  "ck_tag t index way = unat (ck_slot t index way AND ck_KEYFRAGMASK)"

definition ck_val :: "cuckoo \<Rightarrow> nat \<Rightarrow> nat \<Rightarrow> u32" where
  "ck_val t index way =
    (case ck_hash_table t of
       Some rows \<Rightarrow> val_vector (rows ! index) ! way
     | None \<Rightarrow> of_nat index * of_nat ck_ASSOCIATIVITY + of_nat way)"

text \<open>A slot starts at a byte boundary, so the shift of the mask is zero. The assertion fails without the table with
  offsets.\<close>

definition ck_store :: "cuckoo \<Rightarrow> nat \<Rightarrow> nat \<Rightarrow> u32 \<Rightarrow> u32 \<Rightarrow> cuckoo run" where
  "ck_store t index way keypresent ident =
    bind_run (deref (ck_hash_table t)) (\<lambda>rows.
      let r = rows ! index;
          shift = (way * (ck_KEYFRAGBITS + 1)) mod 8;
          tmp = tag_vector r ! way AND ucast (NOT (push_bit shift ck_KEYPRESENTMASK));
          r' = \<lparr>tag_vector = (tag_vector r)[way := tmp OR ucast (push_bit shift keypresent)], val_vector = (val_vector r)[way := ident]\<rparr>
      in Done (t\<lparr>ck_hash_table := Some (rows[index := r'])\<rparr>))"

text \<open>The last four bytes of the key hold its fragments.\<close>

definition ck_keyfrag :: "bytes \<Rightarrow> nat \<Rightarrow> nat" where
  "ck_keyfrag key keyfrag_id =
    unat (drop_bit (keyfrag_id * ck_KEYFRAGBITS) (le_word (drop (length key - 4) key) :: u32) AND ck_KEYFRAGMASK)"

fun ck_freeslot_from :: "cuckoo \<Rightarrow> nat \<Rightarrow> nat list \<Rightarrow> nat option" where
  "ck_freeslot_from t index [] = None"
| "ck_freeslot_from t index (way # ways) = (if \<not> ck_valid t index way then Some way else ck_freeslot_from t index ways)"

definition ck_freeslot :: "cuckoo \<Rightarrow> nat \<Rightarrow> nat option" where
  "ck_freeslot t index = ck_freeslot_from t index [0, 1, 2, 3]"

section \<open>Put\<close>

text \<open>\<^verbatim>\<open>as_number<uint32_t>\<close>.\<close>

definition as_u32 :: "bytes \<Rightarrow> u32 \<Rightarrow> u32" where
  "as_u32 v default_v =
     (if length v = 1 then ucast (le_word v :: 8 word)
      else if length v = 2 then ucast (le_word v :: 16 word)
      else if length v = 4 then le_word v
      else if length v = 8 then ucast (le_word v :: 64 word)
      else default_v)"

definition ck_mod :: "cuckoo \<Rightarrow> nat \<Rightarrow> nat" where
  "ck_mod t x = x mod unat (ck_max_index t)"

text \<open>An entry takes a free slot.\<close>

definition ck_place :: "cuckoo \<Rightarrow> nat \<Rightarrow> nat \<Rightarrow> nat \<Rightarrow> u32 \<Rightarrow> cuckoo run" where
  "ck_place t index way tg v =
    bind_run (ck_store t index way (of_nat tg OR ck_VALIDBITMASK) v) (\<lambda>t. Done (t\<lparr>ck_current_entries := ck_current_entries t + 1\<rparr>))"

text \<open>The loop that displaces entries. \<open>k\<close> rounds are left; the places of the victims are kept, the last one first. The
  result is the table with the new entry, or the entry that is left over with the table and the places.\<close>

datatype ck_outcome = Placed cuckoo | Left_over cuckoo nat u32 "(nat \<times> nat) list"

fun ck_displace :: "(nat \<Rightarrow> nat) \<Rightarrow> nat \<Rightarrow> cuckoo \<Rightarrow> nat \<Rightarrow> nat \<Rightarrow> u32 \<Rightarrow> (nat \<times> nat) list \<Rightarrow> ck_outcome run" where
  "ck_displace rnd 0 t index tg v undo = Done (Left_over t index v undo)"
| "ck_displace rnd (Suc k) t index tg v undo =
    (case ck_freeslot t index of
       Some way \<Rightarrow> bind_run (ck_place t index way tg v) (\<lambda>t. Done (Placed t))
     | None \<Rightarrow>
         let way = rnd (ck_MAX_CUCKOO_COUNT - k) mod ck_ASSOCIATIVITY;
             victim_tag = ck_tag t index way;
             victim_val = ck_val t index way
         in bind_run (ck_store t index way (of_nat tg OR ck_VALIDBITMASK) v) (\<lambda>t.
              ck_displace rnd k t (ck_mod t victim_tag) (ck_mod t index) victim_val ((index, way) # undo)))"

text \<open>Undoing walks the places backwards.\<close>

fun ck_undo :: "cuckoo \<Rightarrow> nat \<Rightarrow> u32 \<Rightarrow> (nat \<times> nat) list \<Rightarrow> (cuckoo \<times> nat \<times> u32) run" where
  "ck_undo t tg v [] = Done (t, tg, v)"
| "ck_undo t tg v ((index, way) # places) =
    (let victim_val = ck_val t index way
     in bind_run (ck_store t index way (of_nat tg OR ck_VALIDBITMASK) v) (\<lambda>t. ck_undo t (ck_mod t index) victim_val places))"

text \<open>A remainder by zero and a key of fewer than four bytes end the process.\<close>

definition ck_Put :: "(nat \<Rightarrow> nat) \<Rightarrow> cuckoo \<Rightarrow> bytes \<Rightarrow> bytes \<Rightarrow> (FawnDS_Return \<times> cuckoo) run" where
  "ck_Put rnd t key data =
    bind_run (check (4 \<le> length key \<and> ck_max_index t \<noteq> 0 \<and> (ck_hash_table t \<noteq> None \<or> ck_fpf_table t \<noteq> None))) (\<lambda>_.
      let fn = rnd 0 mod ck_NUMHASH;
          index = ck_mod t (ck_keyfrag key fn);
          tg = ck_mod t (ck_keyfrag key ((fn + 1) mod ck_NUMHASH));
          v = as_u32 data 0
      in case ck_freeslot t index of
           Some way \<Rightarrow> bind_run (ck_place t index way tg v) (\<lambda>t. Done (OK, t))
         | None \<Rightarrow>
             let fn = (fn + 1) mod ck_NUMHASH;
                 index = ck_mod t (ck_keyfrag key fn);
                 tg = ck_mod t (ck_keyfrag key ((fn + 1) mod ck_NUMHASH))
             in bind_run (ck_displace rnd ck_MAX_CUCKOO_COUNT t index tg v []) (\<lambda>r.
                  case r of
                    Placed t \<Rightarrow> Done (OK, t)
                  | Left_over t index w undo \<Rightarrow>
                      bind_run (ck_undo t (ck_mod t index) w undo) (\<lambda>(t, tg, w).
                        bind_run (check (w = v)) (\<lambda>_. Done (INSUFFICIENT_SPACE, t)))))"

section \<open>Iteration\<close>

text \<open>\<open>ci_key\<close> is empty for an enumeration. Before the first step the identifier and the index are minus one.\<close>

record ck_iter =
  ci_key :: bytes
  ci_keyfrag :: "nat list"
  ci_keyfrag_id :: u32
  ci_index :: u32
  ci_way :: nat
  ci_state :: FawnDS_Return
  ci_data :: bytes

definition ck_Enumerate :: "ck_iter" where
  "ck_Enumerate = \<lparr>ci_key = [], ci_keyfrag = [], ci_keyfrag_id = 0, ci_index = - 1, ci_way = ck_ASSOCIATIVITY - 1, ci_state = OK, ci_data = []\<rparr>"

definition ck_Find :: "cuckoo \<Rightarrow> bytes \<Rightarrow> ck_iter" where
  "ck_Find t key = \<lparr>ci_key = key, ci_keyfrag = map (\<lambda>i. ck_mod t (ck_keyfrag key i)) [0, 1], ci_keyfrag_id = - 1, ci_index = 0,
    ci_way = ck_ASSOCIATIVITY - 1, ci_state = OK, ci_data = []\<rparr>"

text \<open>The first half of the loop body of \<^verbatim>\<open>Next\<close>: the next place, or the end.\<close>

definition ck_advance :: "cuckoo \<Rightarrow> ck_iter \<Rightarrow> bool \<times> ck_iter" where
  "ck_advance t it =
    (let way = ci_way it + 1
     in if way < ck_ASSOCIATIVITY then (True, it\<lparr>ci_way := way\<rparr>)
        else if ci_key it \<noteq> [] then
          (let n = ci_keyfrag_id it + 1
           in if unat n \<ge> ck_NUMHASH then (False, it\<lparr>ci_way := 0, ci_keyfrag_id := n\<rparr>)
              else (True, it\<lparr>ci_way := 0, ci_keyfrag_id := n, ci_index := of_nat (ck_mod t (ck_keyfrag (ci_key it) (unat n)))\<rparr>))
        else
          (let i = ci_index it + 1
           in (i < ck_max_index t, it\<lparr>ci_way := 0, ci_index := i\<rparr>)))"

definition ck_hit :: "cuckoo \<Rightarrow> ck_iter \<Rightarrow> bool" where
  "ck_hit t it \<longleftrightarrow> ck_valid t (unat (ci_index it)) (ci_way it) \<and>
    (ci_key it = [] \<or> ck_tag t (unat (ci_index it)) (ci_way it) = ci_keyfrag it ! (unat (ci_keyfrag_id it + 1) mod ck_NUMHASH))"

definition ck_left :: "cuckoo \<Rightarrow> ck_iter \<Rightarrow> nat" where
  "ck_left t it =
    (if ci_key it \<noteq> [] then 4 * (2 - unat (ci_keyfrag_id it + 1)) else 4 * (unat (ck_max_index t) - unat (ci_index it + 1))) + (3 - ci_way it)"

lemma unat_next: "y < m \<Longrightarrow> unat (y + 1) = Suc (unat (y :: u32))"
proof -
  assume "y < m"
  then have "y \<noteq> - 1" using word_order.extremum_strict by force
  then have "1 + y \<noteq> 0" by (metis add.commute add_eq_0_iff)
  then show ?thesis by (simp add: unatSuc add.commute)
qed

lemma ck_advance_left:
  assumes "ck_advance t it = (True, it')"
  shows "ck_left t it' < ck_left t it"
proof -
  have "unat (x + 1) < 2 \<Longrightarrow> x + 1 < (2 :: u32)" for x by (simp add: word_less_nat_alt)
  then show ?thesis using assms unat_next [of "ci_keyfrag_id it + 1" 2] unat_next [of "ci_index it + 1" "ck_max_index t"]
    by (auto simp: ck_advance_def ck_left_def ck_ASSOCIATIVITY_def ck_NUMHASH_def Let_def word_less_nat_alt not_le split: if_splits)
qed

text \<open>\<^verbatim>\<open>Next\<close>: the loop ends at an entry that matches or at the end. An index outside the table fails the assertion.\<close>

function ck_Next :: "cuckoo \<Rightarrow> ck_iter \<Rightarrow> ck_iter run" where
  "ck_Next t it =
    (case ck_advance t it of
       (False, it') \<Rightarrow> Done (it'\<lparr>ci_state := END\<rparr>)
     | (True, it') \<Rightarrow>
         if \<not> ci_index it' < ck_max_index t then Crash
         else if ck_hit t it' then Done (it'\<lparr>ci_state := OK, ci_data := le_bytes 4 (ck_val t (unat (ci_index it')) (ci_way it'))\<rparr>)
         else ck_Next t it')"
  by pat_completeness auto
termination
  by (relation "measure (\<lambda>(t, it). ck_left t it)") (auto dest: ck_advance_left [OF sym])

declare ck_Next.simps [simp del]

text \<open>\<^verbatim>\<open>Enumerate\<close> and \<^verbatim>\<open>Find\<close> make the first step. A step in a closed table follows a null pointer.\<close>

definition ck_begin :: "cuckoo \<Rightarrow> bytes \<Rightarrow> ck_iter run" where
  "ck_begin t key =
    (let allocated = (ck_hash_table t \<noteq> None \<or> ck_fpf_table t \<noteq> None)
     in if key = [] then bind_run (check (ck_max_index t = 0 \<or> allocated)) (\<lambda>_. ck_Next t ck_Enumerate)
        else bind_run (check (4 \<le> length key \<and> ck_max_index t \<noteq> 0 \<and> allocated)) (\<lambda>_. ck_Next t (ck_Find t key)))"

text \<open>\<^verbatim>\<open>Replace\<close>: without the table with offsets a null pointer is followed.\<close>

definition ck_Replace :: "cuckoo \<Rightarrow> ck_iter \<Rightarrow> bytes \<Rightarrow> (FawnDS_Return \<times> cuckoo) run" where
  "ck_Replace t it data =
    (let new_id = as_u32 data (- 1)
     in if new_id = - 1 then Done (INVALID_DATA, t)
        else bind_run (deref (ck_hash_table t)) (\<lambda>rows.
          let i = unat (ci_index it); r = rows ! i
          in Done (OK, t\<lparr>ck_hash_table := Some (rows[i := r\<lparr>val_vector := (val_vector r)[ci_way it := new_id]\<rparr>])\<rparr>)))"

section \<open>Creation and the file\<close>

text \<open>\<open>hts\<close> is the configured table size; \<open>offsets\<close> is the test of \<^verbatim>\<open>use-offset\<close>.\<close>

definition row_size :: nat where "row_size = 24"
definition tag_row_size :: nat where "tag_row_size = 8"

definition ck_length :: "cuckoo \<Rightarrow> nat" where
  "ck_length t =
    (case ck_hash_table t of
       Some _ \<Rightarrow> 4 + row_size * unat (ck_max_index t)
     | None \<Rightarrow> (case ck_fpf_table t of Some _ \<Rightarrow> 4 + tag_row_size * unat (ck_max_index t) | None \<Rightarrow> 0))"

definition row_bytes :: "tag_val_row \<Rightarrow> bytes" where
  "row_bytes r = concat (map (le_bytes 2) (tag_vector r)) @ concat (map (le_bytes 4) (val_vector r))"

definition ck_table_bytes :: "cuckoo \<Rightarrow> bytes" where
  "ck_table_bytes t =
    (case ck_hash_table t of
       Some rows \<Rightarrow> concat (map row_bytes rows)
     | None \<Rightarrow> (case ck_fpf_table t of Some rows \<Rightarrow> concat (map (\<lambda>r. concat (map (le_bytes 2) r)) rows) | None \<Rightarrow> []))"

definition row_of_bytes :: "bytes \<Rightarrow> tag_val_row" where
  "row_of_bytes bs = \<lparr>tag_vector = map (\<lambda>w. le_word (take 2 (drop (2 * w) bs))) [0, 1, 2, 3],
     val_vector = map (\<lambda>w. le_word (take 4 (drop (8 + 4 * w) bs))) [0, 1, 2, 3]\<rparr>"

definition rows_of_bytes :: "nat \<Rightarrow> bytes \<Rightarrow> tag_val_row list" where
  "rows_of_bytes n bs = map (\<lambda>i. row_of_bytes (take row_size (drop (row_size * i) bs))) [0..<n]"

text \<open>Opening, syncing and closing the file are taken to succeed. \<^verbatim>\<open>ftruncate\<close>, whose failure is only printed, and \<^verbatim>\<open>fill_file_with_zeros\<close>.\<close>

definition ck_truncate :: "os_file \<Rightarrow> nat \<Rightarrow> os_file" where
  "ck_truncate f n = (if n \<le> fcap f then f\<lparr>fdata := take n (fdata f @ replicate n 0)\<rparr> else f)"

function fill_file_with_zeros :: "os_file \<Rightarrow> nat \<Rightarrow> nat \<Rightarrow> bool \<times> os_file" where
  "fill_file_with_zeros f off nbytes =
    (if nbytes = 0 then (True, f)
     else let n = min nbytes 8192
          in case pwrite f (replicate n 0) off of
               (w, f') \<Rightarrow> if w < 0 then (False, f') else fill_file_with_zeros f' (off + nat w) (nbytes - n))"
  by pat_completeness auto
termination
  by (relation "measure (\<lambda>(f, off, n). n)") auto

declare fill_file_with_zeros.simps [simp del]

text \<open>Every round of the loop writes from the start of the table.\<close>

function ck_write_loop :: "os_file \<Rightarrow> bytes \<Rightarrow> nat \<Rightarrow> nat \<Rightarrow> os_file" where
  "ck_write_loop f table n off =
    (case pwrite f (take n table) off of (w, f') \<Rightarrow> if 0 < w then ck_write_loop f' table (n - nat w) (off + nat w) else f')"
  by pat_completeness auto
termination
  by (relation "measure (\<lambda>(f, table, n, off). n)") (auto simp: pwrite_def Let_def split: if_splits)

declare ck_write_loop.simps [simp del]

definition ck_WriteToFile :: "cuckoo \<Rightarrow> bool \<times> cuckoo" where
  "ck_WriteToFile t =
    (let n = ck_length t
     in case fill_file_with_zeros (ck_truncate (ck_file t) n) 0 n of
          (False, f) \<Rightarrow> (False, t\<lparr>ck_file := f\<rparr>)
        | (True, f) \<Rightarrow>
            (case pwrite f (le_bytes 4 (ck_current_entries t)) 0 of
               (w, f) \<Rightarrow>
                 if w \<noteq> 4 then (False, t\<lparr>ck_file := f\<rparr>)
                 else (True, t\<lparr>ck_file := ck_write_loop f (ck_table_bytes t) (n - 4) 4\<rparr>)))"

text \<open>Every round of the loop reads to the start of the table. Without the table with offsets nothing is read.\<close>

function ck_read_loop :: "os_file \<Rightarrow> bytes \<Rightarrow> nat \<Rightarrow> nat \<Rightarrow> bytes" where
  "ck_read_loop f buf n off =
    (let d = pread f n off in if d = [] then buf else ck_read_loop f (d @ drop (length d) buf) (n - length d) (off + length d))"
  by pat_completeness auto
termination
  by (relation "measure (\<lambda>(f, buf, n, off). n)") (auto simp: pread_def)

declare ck_read_loop.simps [simp del]

definition ck_ReadFromFile :: "cuckoo \<Rightarrow> bool \<times> cuckoo" where
  "ck_ReadFromFile t =
    (let d = pread (ck_file t) 4 0
     in if length d \<noteq> 4 then (False, t)
        else
          (let t = t\<lparr>ck_current_entries := le_word d\<rparr>
           in case ck_hash_table t of
                None \<Rightarrow> (False, t)
              | Some rows \<Rightarrow>
                  (True, t\<lparr>ck_hash_table := Some (rows_of_bytes (length rows)
                     (ck_read_loop (ck_file t) (ck_table_bytes t) (row_size * unat (ck_max_index t)) 4))\<rparr>)))"

definition ck_Flush :: "cuckoo \<Rightarrow> FawnDS_Return \<times> cuckoo" where
  "ck_Flush t = (case ck_WriteToFile t of (ok, t) \<Rightarrow> (if ok then OK else ERROR, t))"

definition ck_Close :: "cuckoo \<Rightarrow> FawnDS_Return \<times> cuckoo" where
  "ck_Close t =
    (if ck_hash_table t = None \<and> ck_fpf_table t = None then (ERROR, t)
     else (OK, (snd (ck_Flush t))\<lparr>ck_hash_table := None, ck_fpf_table := None\<rparr>))"

definition ck_closed :: "cuckoo \<Rightarrow> cuckoo" where
  "ck_closed t = (if ck_hash_table t \<noteq> None \<or> ck_fpf_table t \<noteq> None then snd (ck_Close t) else t)"

definition ck_Create :: "int \<Rightarrow> bool \<Rightarrow> cuckoo \<Rightarrow> FawnDS_Return \<times> cuckoo" where
  "ck_Create hts offsets t =
    (let t = ck_closed t
     in if hts \<le> 0 then (ERROR, t)
        else
          (let n = (push_bit ck_KEYFRAGBITS 1 :: u32);
               n = (if uint (n * of_nat ck_ASSOCIATIVITY) > hts then word_of_int (hts div int ck_ASSOCIATIVITY) else n);
               t = t\<lparr>ck_max_index := n, ck_max_entries := of_nat ck_ASSOCIATIVITY * n, ck_current_entries := 0\<rparr>
           in (OK, if offsets then t\<lparr>ck_hash_table := Some (replicate (unat n) ck_zero_row), ck_fpf_table := None\<rparr>
                   else t\<lparr>ck_hash_table := None, ck_fpf_table := Some (replicate (unat n) (replicate ck_ASSOCIATIVITY 0))\<rparr>)))"

definition ck_Open :: "int \<Rightarrow> bool \<Rightarrow> cuckoo \<Rightarrow> FawnDS_Return \<times> cuckoo" where
  "ck_Open hts offsets t =
    (case ck_Create hts offsets (ck_closed t) of
       (OK, t) \<Rightarrow> (case ck_ReadFromFile t of (ok, t) \<Rightarrow> (if ok then OK else ERROR, t))
     | (_, t) \<Rightarrow> (ERROR, t))"

text \<open>A deleted file is an empty one.\<close>

definition ck_Destroy :: "bool \<Rightarrow> cuckoo \<Rightarrow> FawnDS_Return \<times> cuckoo" where
  "ck_Destroy unlink_ok t = (if unlink_ok then (OK, t\<lparr>ck_file := (ck_file t)\<lparr>fdata := []\<rparr>\<rparr>) else (ERROR, t))"

definition ck_Status :: "FawnDS_StatusType \<Rightarrow> cuckoo \<Rightarrow> FawnDS_Return \<times> nat" where
  "ck_Status type t =
    (if ck_hash_table t = None \<and> ck_fpf_table t = None then (ERROR, 0)
     else case type of
       NUM_DATA \<Rightarrow> (OK, unat (ck_max_entries t))
     | NUM_ACTIVE_DATA \<Rightarrow> (OK, unat (ck_current_entries t))
     | CAPACITY \<Rightarrow> (OK, unat (ck_max_entries t))
     | MEMORY_USE \<Rightarrow> (OK, ck_length t - 4)
     | DISK_USE \<Rightarrow> (OK, ck_length t))"

text \<open>\<^verbatim>\<open>ConvertTo\<close> another cuckoo table, of which the second result is the new state.\<close>

definition ck_ConvertTo :: "cuckoo \<Rightarrow> cuckoo \<Rightarrow> FawnDS_Return \<times> cuckoo" where
  "ck_ConvertTo t new_cuckoo =
    (if ck_max_index t \<noteq> ck_max_index new_cuckoo then (ERROR, new_cuckoo)
     else if ck_hash_table t = None \<and> ck_hash_table new_cuckoo \<noteq> None then (ERROR, new_cuckoo)
     else
       (OK, (case (ck_hash_table t, ck_hash_table new_cuckoo) of
               (Some rows, Some _) \<Rightarrow> new_cuckoo\<lparr>ck_hash_table := Some rows\<rparr>
             | (None, _) \<Rightarrow> new_cuckoo\<lparr>ck_fpf_table := ck_fpf_table t\<rparr>
             | (Some rows, None) \<Rightarrow> new_cuckoo\<lparr>ck_fpf_table := Some (map tag_vector rows)\<rparr>)
            \<lparr>ck_current_entries := ck_current_entries t\<rparr>))"

end
