(* ===== verification/Cuckoo_Correct.thy ===== *)
theory Cuckoo_Correct
  imports Cuckoo "HOL-Library.Multiset"
begin

text \<open>
  The cuckoo table as a bag of entries: displacing an entry keeps the bag, undoing gives back the table, and a search finds the
  entries whose pair of fragments is that of the key.
\<close>

section \<open>Slots\<close>

text \<open>A well-formed table with offsets: every row has four tags and four values, and the tags are row numbers.\<close>

definition ck_wf :: "cuckoo \<Rightarrow> bool" where
  "ck_wf t \<longleftrightarrow> ck_max_index t \<noteq> 0 \<and> unat (ck_max_index t) \<le> 2 ^ 15 \<and>
    (\<exists>rows. ck_hash_table t = Some rows \<and> length rows = unat (ck_max_index t) \<and>
      (\<forall>r \<in> set rows. length (tag_vector r) = 4 \<and> length (val_vector r) = 4)) \<and>
    (\<forall>i < unat (ck_max_index t). \<forall>w < 4. ck_valid t i w \<longrightarrow> ck_tag t i w < unat (ck_max_index t))"

text \<open>The 16 bits of an entry with a tag.\<close>

definition entry_word :: "nat \<Rightarrow> u16" where
  "entry_word x = ucast ((of_nat x :: u32) OR ck_VALIDBITMASK)"

lemma mask_words: "ck_KEYFRAGMASK = mask 15" "ck_KEYPRESENTMASK = mask 16"
  by (simp_all add: ck_KEYFRAGMASK_def ck_KEYPRESENTMASK_def mask_eq_exp_minus_1)

lemma bit_ck_VALIDBITMASK: "bit ck_VALIDBITMASK n \<longleftrightarrow> n = 15"
proof -
  have "ck_VALIDBITMASK = 2 ^ 15" by (simp add: ck_VALIDBITMASK_def)
  then show ?thesis using bit_exp_iff [where ?'a = u32, of 15 n] by auto
qed

lemmas slot_bits = mask_words bit_ck_VALIDBITMASK bit_simps

lemma valid_word: "(ucast (w :: u16) :: u32) AND ck_VALIDBITMASK \<noteq> 0 \<longleftrightarrow> bit w 15"
proof -
  have "(ucast w :: u32) AND ck_VALIDBITMASK = (if bit w 15 then ck_VALIDBITMASK else 0)"
    by (rule bit_word_eqI) (auto simp: slot_bits)
  then show ?thesis by (simp add: ck_VALIDBITMASK_def)
qed

lemma entry_word_valid: "bit (entry_word x) 15"
  by (simp add: entry_word_def slot_bits)

lemma entry_word_tag:
  assumes "x < 2 ^ 15"
  shows "unat ((ucast (entry_word x) :: u32) AND ck_KEYFRAGMASK) = x"
proof -
  have x: "unat (of_nat x :: u32) = x" using assms by (simp add: unat_of_nat)
  have "unat (take_bit 15 (of_nat x :: u32)) = x"
    using assms by (simp add: unsigned_take_bit_eq x take_bit_nat_eq_self)
  moreover have "(ucast (entry_word x) :: u32) AND ck_KEYFRAGMASK = take_bit 15 (of_nat x)"
    by (rule bit_word_eqI) (auto simp: entry_word_def slot_bits)
  ultimately show ?thesis by simp
qed

lemma entry_word_back:
  assumes "bit (w :: u16) 15"
  shows "entry_word (unat ((ucast w :: u32) AND ck_KEYFRAGMASK)) = w"
proof (rule bit_word_eqI)
  fix n assume n: "n < LENGTH(16)"
  have "(of_nat (unat ((ucast w :: u32) AND ck_KEYFRAGMASK)) :: u32) = ucast w AND ck_KEYFRAGMASK" by simp
  then show "bit (entry_word (unat ((ucast w :: u32) AND ck_KEYFRAGMASK))) n = bit w n"
    using assms n by (auto simp: entry_word_def slot_bits less_Suc_eq)
qed

text \<open>What a store does to the slots.\<close>

definition ck_put_slot :: "cuckoo \<Rightarrow> nat \<Rightarrow> nat \<Rightarrow> nat \<Rightarrow> u32 \<Rightarrow> cuckoo" where
  "ck_put_slot t i w x v =
    t\<lparr>ck_hash_table := map_option (\<lambda>rows.
      rows[i := \<lparr>tag_vector = (tag_vector (rows ! i))[w := entry_word x], val_vector = (val_vector (rows ! i))[w := v]\<rparr>]) (ck_hash_table t)\<rparr>"

lemma ck_wfD:
  assumes "ck_wf t"
  obtains rows where "ck_hash_table t = Some rows" "length rows = unat (ck_max_index t)"
    "\<And>i. i < unat (ck_max_index t) \<Longrightarrow> length (tag_vector (rows ! i)) = 4"
    "\<And>i. i < unat (ck_max_index t) \<Longrightarrow> length (val_vector (rows ! i)) = 4"
  using assms by (auto simp: ck_wf_def)

lemma ck_store_slot:
  assumes "ck_wf t"
  shows "ck_store t i w (of_nat x OR ck_VALIDBITMASK) v = Done (ck_put_slot t i w x v)"
proof -
  have z: "(y AND ucast (NOT ck_KEYPRESENTMASK)) OR z = z" for y z :: u16
    by (rule bit_word_eqI) (auto simp: slot_bits)
  have s: "w * (ck_KEYFRAGBITS + 1) mod 8 = 0" by (simp add: ck_KEYFRAGBITS_def)
  obtain rows where "ck_hash_table t = Some rows" by (rule ck_wfD [OF assms])
  then show ?thesis unfolding ck_store_def Let_def s push_bit_0_id id_apply z entry_word_def [symmetric]
    by (simp add: deref_def ck_put_slot_def)
qed

lemma ck_put_slot_fields [simp]:
  "ck_max_index (ck_put_slot t i w x v) = ck_max_index t" "ck_current_entries (ck_put_slot t i w x v) = ck_current_entries t"
  "ck_mod (ck_put_slot t i w x v) = ck_mod t"
  by (simp_all add: ck_put_slot_def ck_mod_def fun_eq_iff)

lemma ck_put_slot_reads:
  assumes "ck_wf t" and "i < unat (ck_max_index t)" and "w < 4" and "x < 2 ^ 15" and "j < unat (ck_max_index t)" and "u < 4"
  shows "ck_valid (ck_put_slot t i w x v) j u \<longleftrightarrow> (j, u) = (i, w) \<or> ck_valid t j u"
    and "ck_tag (ck_put_slot t i w x v) j u = (if (j, u) = (i, w) then x else ck_tag t j u)"
    and "ck_val (ck_put_slot t i w x v) j u = (if (j, u) = (i, w) then v else ck_val t j u)"
proof -
  obtain rows where r: "ck_hash_table t = Some rows" "length rows = unat (ck_max_index t)"
    and l: "\<And>i. i < unat (ck_max_index t) \<Longrightarrow> length (tag_vector (rows ! i)) = 4"
      "\<And>i. i < unat (ck_max_index t) \<Longrightarrow> length (val_vector (rows ! i)) = 4"
    by (rule ck_wfD [OF assms(1)]) blast
  have sl: "ck_slot (ck_put_slot t i w x v) j u = (if (j, u) = (i, w) then ucast (entry_word x) else ck_slot t j u)"
    using r l assms by (auto simp: ck_slot_def ck_put_slot_def nth_list_update)
  show "ck_valid (ck_put_slot t i w x v) j u \<longleftrightarrow> (j, u) = (i, w) \<or> ck_valid t j u"
    unfolding ck_valid_def sl using entry_word_valid valid_word by auto
  show "ck_tag (ck_put_slot t i w x v) j u = (if (j, u) = (i, w) then x else ck_tag t j u)"
    unfolding ck_tag_def sl using entry_word_tag [OF assms(4)] by simp
  show "ck_val (ck_put_slot t i w x v) j u = (if (j, u) = (i, w) then v else ck_val t j u)"
    using r l assms by (auto simp: ck_val_def ck_put_slot_def nth_list_update)
qed

lemma ck_put_slot_wf:
  assumes "ck_wf t" and "i < unat (ck_max_index t)" and "w < 4" and "x < unat (ck_max_index t)"
  shows "ck_wf (ck_put_slot t i w x v)"
proof -
  have x: "x < 2 ^ 15" using assms(1,4) by (simp add: ck_wf_def)
  obtain rows where r: "ck_hash_table t = Some rows" "length rows = unat (ck_max_index t)"
    and l: "\<And>i. i < unat (ck_max_index t) \<Longrightarrow> length (tag_vector (rows ! i)) = 4"
      "\<And>i. i < unat (ck_max_index t) \<Longrightarrow> length (val_vector (rows ! i)) = 4"
    by (rule ck_wfD [OF assms(1)]) blast
  note R = ck_put_slot_reads [OF assms(1-3) x]
  have "\<exists>rows. ck_hash_table (ck_put_slot t i w x v) = Some rows \<and> length rows = unat (ck_max_index t) \<and>
      (\<forall>r \<in> set rows. length (tag_vector r) = 4 \<and> length (val_vector r) = 4)"
    using r l assms(2) by (auto simp: ck_put_slot_def in_set_conv_nth nth_list_update)
  then show ?thesis using assms R by (auto simp: ck_wf_def)
qed

lemma row_eta: "\<lparr>tag_vector = tag_vector r, val_vector = val_vector r\<rparr> = (r :: tag_val_row)"
  by (cases r) simp

lemma ck_put_slot_back:
  assumes "ck_wf t" and "i < unat (ck_max_index t)" and "w < 4" and "ck_valid t i w"
  shows "ck_put_slot (ck_put_slot t i w x v) i w (ck_tag t i w) (ck_val t i w) = t"
proof -
  obtain rows where r: "ck_hash_table t = Some rows" "length rows = unat (ck_max_index t)"
    and l: "\<And>i. i < unat (ck_max_index t) \<Longrightarrow> length (tag_vector (rows ! i)) = 4"
      "\<And>i. i < unat (ck_max_index t) \<Longrightarrow> length (val_vector (rows ! i)) = 4"
    by (rule ck_wfD [OF assms(1)]) blast
  have "bit (tag_vector (rows ! i) ! w) 15" using assms(4) r valid_word by (simp add: ck_valid_def ck_slot_def)
  then have "entry_word (ck_tag t i w) = tag_vector (rows ! i) ! w"
    using entry_word_back r by (simp add: ck_tag_def ck_slot_def)
  moreover have "ck_val t i w = val_vector (rows ! i) ! w" using r by (simp add: ck_val_def)
  moreover have "t\<lparr>ck_hash_table := Some rows\<rparr> = t" using r by (cases t) simp
  ultimately show ?thesis using r l assms(2,3) by (simp add: ck_put_slot_def row_eta)
qed

section \<open>The bag of entries\<close>

text \<open>An entry is known by its two rows and its value, whichever of the rows it lies in.\<close>

definition slot_entry :: "cuckoo \<Rightarrow> nat \<times> nat \<Rightarrow> (nat set \<times> u32) multiset" where
  "slot_entry t p = (if ck_valid t (fst p) (snd p) then {#({fst p, ck_tag t (fst p) (snd p)}, ck_val t (fst p) (snd p))#} else {#})"

definition ck_bag :: "cuckoo \<Rightarrow> (nat set \<times> u32) multiset" where
  "ck_bag t = (\<Sum>p \<in> {..<unat (ck_max_index t)} \<times> {..<4}. slot_entry t p)"

lemma ck_put_slot_bag:
  assumes wf: "ck_wf t" and i: "i < unat (ck_max_index t)" and w: "w < 4" and x: "x < unat (ck_max_index t)"
  shows "ck_bag (ck_put_slot t i w x v) + slot_entry t (i, w) = ck_bag t + {#({i, x}, v)#}"
proof -
  let ?A = "{..<unat (ck_max_index t)} \<times> {..<4 :: nat}" and ?t = "ck_put_slot t i w x v"
  have p: "(i, w) \<in> ?A" and fin: "finite ?A" using i w by auto
  have x: "x < 2 ^ 15" using wf x by (simp add: ck_wf_def)
  note R = ck_put_slot_reads [OF wf i w x]
  have "(\<Sum>q \<in> ?A - {(i, w)}. slot_entry ?t q) = (\<Sum>q \<in> ?A - {(i, w)}. slot_entry t q)"
    by (rule sum.cong) (auto simp: slot_entry_def R)
  moreover have "slot_entry ?t (i, w) = {#({i, x}, v)#}" using R [OF i w] by (simp add: slot_entry_def)
  ultimately show ?thesis
    unfolding ck_bag_def ck_put_slot_fields sum.remove [OF fin p, of "slot_entry t"] sum.remove [OF fin p, of "slot_entry ?t"] by simp
qed

lemma ck_freeslot_Some: "ck_freeslot t i = Some w \<Longrightarrow> w < 4 \<and> \<not> ck_valid t i w"
  by (auto simp: ck_freeslot_def split: if_splits)

lemma ck_freeslot_None: "ck_freeslot t i = None \<Longrightarrow> w < 4 \<Longrightarrow> ck_valid t i w"
proof -
  assume "ck_freeslot t i = None" and w: "w < 4"
  then have "ck_valid t i 0" "ck_valid t i 1" "ck_valid t i 2" "ck_valid t i 3" by (auto simp: ck_freeslot_def split: if_splits)
  moreover from w have "w = 0 \<or> w = 1 \<or> w = 2 \<or> w = 3" by linarith
  ultimately show ?thesis by auto
qed

lemma ck_mod_less: "ck_wf t \<Longrightarrow> ck_mod t x < unat (ck_max_index t)"
  by (simp add: ck_wf_def ck_mod_def unat_gt_0)

lemma ck_mod_id: "x < unat (ck_max_index t) \<Longrightarrow> ck_mod t x = x"
  by (simp add: ck_mod_def)

lemma ck_reads_entries [simp]:
  "ck_slot (t\<lparr>ck_current_entries := n\<rparr>) = ck_slot t" "ck_val (t\<lparr>ck_current_entries := n\<rparr>) = ck_val t"
  by (auto simp: ck_slot_def ck_val_def fun_eq_iff split: option.split)

lemma ck_entries_irrelevant:
  "ck_valid (t\<lparr>ck_current_entries := n\<rparr>) = ck_valid t" "ck_tag (t\<lparr>ck_current_entries := n\<rparr>) = ck_tag t"
  "slot_entry (t\<lparr>ck_current_entries := n\<rparr>) = slot_entry t"
  by (simp_all add: fun_eq_iff ck_valid_def ck_tag_def slot_entry_def)

lemma ck_place_bag:
  assumes wf: "ck_wf t" and i: "i < unat (ck_max_index t)" and x: "x < unat (ck_max_index t)" and f: "ck_freeslot t i = Some w"
  obtains t' where "ck_place t i w x v = Done t'" "ck_wf t'" "ck_bag t' = ck_bag t + {#({i, x}, v)#}"
    "ck_max_index t' = ck_max_index t" "ck_current_entries t' = ck_current_entries t + 1"
proof -
  note F = ck_freeslot_Some [OF f]
  define t1 where "t1 = ck_put_slot t i w x v"
  have w: "ck_wf t1" unfolding t1_def by (rule ck_put_slot_wf [OF wf i _ x]) (use F in simp)
  have b: "ck_bag t1 = ck_bag t + {#({i, x}, v)#}"
    using ck_put_slot_bag [OF wf i _ x, of w v] F by (simp add: t1_def slot_entry_def)
  let ?t = "t1\<lparr>ck_current_entries := ck_current_entries t1 + 1\<rparr>"
  have "ck_wf ?t" using w by (simp add: ck_wf_def ck_entries_irrelevant)
  moreover have "ck_bag ?t = ck_bag t + {#({i, x}, v)#}" using b by (simp add: ck_bag_def ck_entries_irrelevant)
  ultimately show ?thesis by (intro that [of ?t]) (simp_all add: ck_place_def ck_store_slot [OF wf] t1_def)
qed

section \<open>Displacing and undoing\<close>

definition ck_moved :: "cuckoo \<Rightarrow> nat \<Rightarrow> nat \<Rightarrow> u32 \<Rightarrow> cuckoo \<Rightarrow> bool" where
  "ck_moved t i x v t' \<longleftrightarrow> ck_wf t' \<and> ck_bag t' = ck_bag t + {#({i, x}, v)#} \<and> ck_max_index t' = ck_max_index t \<and>
    ck_current_entries t' = ck_current_entries t + 1"

lemma ck_displace_result:
  assumes "ck_wf t" and "i < unat (ck_max_index t)" and "x < unat (ck_max_index t)"
  shows "(\<exists>t'. ck_displace rnd k t i x v undo = Done (Placed t') \<and> ck_moved t i x v t') \<or>
    (\<exists>t' i' v' us. ck_displace rnd k t i x v undo = Done (Left_over t' i' v' (us @ undo)) \<and> ck_wf t' \<and>
      ck_max_index t' = ck_max_index t \<and> i' < unat (ck_max_index t) \<and> ck_undo t' i' v' us = Done (t, i, v))"
  using assms
proof (induction k arbitrary: t i x v undo)
  case 0
  then show ?case by (intro disjI2) (auto intro!: exI [of _ "[]"])
next
  case (Suc k)
  note wf = Suc.prems(1) and i = Suc.prems(2) and x = Suc.prems(3)
  show ?case
  proof (cases "ck_freeslot t i")
    case (Some w)
    obtain t' where "ck_place t i w x v = Done t'" "ck_moved t i x v t'"
      using ck_place_bag [OF wf i x Some] unfolding ck_moved_def by metis
    then show ?thesis using Some by simp
  next
    case None
    define w where "w = rnd (ck_MAX_CUCKOO_COUNT - k) mod ck_ASSOCIATIVITY"
    define t1 where "t1 = ck_put_slot t i w x v"
    have w4: "w < 4" by (simp add: w_def ck_ASSOCIATIVITY_def)
    have va: "ck_valid t i w" by (rule ck_freeslot_None [OF None w4])
    have vt: "ck_tag t i w < unat (ck_max_index t)" using wf i w4 va by (simp add: ck_wf_def)
    have wf1: "ck_wf t1" unfolding t1_def by (rule ck_put_slot_wf [OF wf i w4 x])
    have bag: "ck_bag t1 + {#({ck_tag t i w, i}, ck_val t i w)#} = ck_bag t + {#({i, x}, v)#}"
      using ck_put_slot_bag [OF wf i w4 x, of v] va by (simp add: t1_def slot_entry_def insert_commute)
    have step: "ck_displace rnd (Suc k) t i x v undo = ck_displace rnd k t1 (ck_tag t i w) i (ck_val t i w) ((i, w) # undo)"
      using None vt i by (simp add: ck_store_slot [OF wf] t1_def w_def [symmetric] Let_def ck_mod_id)
    have m1: "ck_max_index t1 = ck_max_index t" "ck_current_entries t1 = ck_current_entries t" by (simp_all add: t1_def)
    have IH: "(\<exists>t'. ck_displace rnd k t1 (ck_tag t i w) i (ck_val t i w) ((i, w) # undo) = Done (Placed t') \<and>
        ck_moved t1 (ck_tag t i w) i (ck_val t i w) t') \<or>
      (\<exists>t' i' v' us. ck_displace rnd k t1 (ck_tag t i w) i (ck_val t i w) ((i, w) # undo) = Done (Left_over t' i' v' (us @ (i, w) # undo)) \<and>
        ck_wf t' \<and> ck_max_index t' = ck_max_index t1 \<and> i' < unat (ck_max_index t1) \<and>
        ck_undo t' i' v' us = Done (t1, ck_tag t i w, ck_val t i w))"
      by (rule Suc.IH [OF wf1]) (use m1 vt i in simp_all)
    have bk: "ck_undo t1 (ck_tag t i w) (ck_val t i w) [(i, w)] = Done (t, i, v)"
      using ck_put_slot_back [OF wf i w4 va, of x v] ck_put_slot_reads(3) [OF wf i w4 _ i w4, of x v] x wf i
      by (simp add: ck_store_slot [OF wf1]) (simp add: t1_def ck_mod_id ck_wf_def)
    have app: "ck_undo a b c (us @ vs) = bind_run (ck_undo a b c us) (\<lambda>(a, b, c). ck_undo a b c vs)" for a b c us vs
      by (induction a b c us rule: ck_undo.induct) (simp_all add: Let_def ck_store_def deref_def split: option.split)
    from IH show ?thesis
    proof (elim disjE exE conjE)
      fix t' assume "ck_displace rnd k t1 (ck_tag t i w) i (ck_val t i w) ((i, w) # undo) = Done (Placed t')"
        "ck_moved t1 (ck_tag t i w) i (ck_val t i w) t'"
      then show ?thesis using bag m1 unfolding step by (auto simp: ck_moved_def)
    next
      fix t' i' v' us
      assume "ck_displace rnd k t1 (ck_tag t i w) i (ck_val t i w) ((i, w) # undo) = Done (Left_over t' i' v' (us @ (i, w) # undo))"
        "ck_wf t'" "ck_max_index t' = ck_max_index t1" "i' < unat (ck_max_index t1)"
        "ck_undo t' i' v' us = Done (t1, ck_tag t i w, ck_val t i w)"
      then show ?thesis using bk m1 unfolding step
        by (intro disjI2 exI [of _ t'] exI [of _ i'] exI [of _ v'] exI [of _ "us @ [(i, w)]"]) (simp add: app)
    qed
  qed
qed

text \<open>The two rows of a key.\<close>

definition key_rows :: "cuckoo \<Rightarrow> bytes \<Rightarrow> nat set" where
  "key_rows t key = {ck_mod t (ck_keyfrag key 0), ck_mod t (ck_keyfrag key 1)}"

lemma ck_Put_result:
  assumes wf: "ck_wf t" and key: "4 \<le> length key"
  shows "(\<exists>t'. ck_Put rnd t key data = Done (OK, t') \<and> ck_wf t' \<and> ck_bag t' = ck_bag t + {#(key_rows t key, as_u32 data 0)#} \<and>
      ck_max_index t' = ck_max_index t \<and> ck_current_entries t' = ck_current_entries t + 1) \<or>
    ck_Put rnd t key data = Done (INSUFFICIENT_SPACE, t)"
proof -
  define fn where "fn = rnd 0 mod ck_NUMHASH"
  let ?i = "ck_mod t (ck_keyfrag key fn)" and ?x = "ck_mod t (ck_keyfrag key ((fn + 1) mod ck_NUMHASH))" and ?v = "as_u32 data 0"
  have fn: "fn = 0 \<or> fn = 1" by (auto simp: fn_def ck_NUMHASH_def)
  have fn2: "((fn + 1) mod ck_NUMHASH + 1) mod ck_NUMHASH = fn" and rows: "{?i, ?x} = key_rows t key" "{?x, ?i} = key_rows t key"
    using fn by (auto simp: ck_NUMHASH_def key_rows_def)
  obtain rs where hs: "ck_hash_table t = Some rs" by (rule ck_wfD [OF wf])
  have m: "ck_max_index t \<noteq> 0" and ct: "check True = Done ()" using wf by (simp_all add: ck_wf_def)
  note i = ck_mod_less [OF wf, of "ck_keyfrag key fn"] and x = ck_mod_less [OF wf, of "ck_keyfrag key ((fn + 1) mod ck_NUMHASH)"]
  show ?thesis
  proof (cases "ck_freeslot t ?i")
    case (Some w)
    obtain t' where "ck_place t ?i w ?x ?v = Done t'" "ck_moved t ?i ?x ?v t'"
      using ck_place_bag [OF wf i x Some] unfolding ck_moved_def by metis
    then show ?thesis using Some rows(1) by (simp add: ck_Put_def key hs m fn_def [symmetric] Let_def ck_moved_def)
  next
    case None
    have "ck_Put rnd t key data = bind_run (ck_displace rnd ck_MAX_CUCKOO_COUNT t ?x ?i ?v []) (\<lambda>r.
        case r of Placed t \<Rightarrow> Done (OK, t)
        | Left_over t index w undo \<Rightarrow> bind_run (ck_undo t (ck_mod t index) w undo) (\<lambda>(t, tg, w).
            bind_run (check (w = ?v)) (\<lambda>_. Done (INSUFFICIENT_SPACE, t))))"
      using None fn2 by (simp add: ck_Put_def key hs m ct fn_def [symmetric] Let_def del: bind_run_Done)
    moreover note ck_displace_result [OF wf x i, of rnd ck_MAX_CUCKOO_COUNT ?v "[]"]
    ultimately show ?thesis using rows(2) by (auto simp: ck_moved_def ck_mod_id)
  qed
qed

section \<open>Searching\<close>

text \<open>The places an iterator has before it.\<close>

function ck_visits :: "cuckoo \<Rightarrow> ck_iter \<Rightarrow> ck_iter list" where
  "ck_visits t it = (case ck_advance t it of (False, _) \<Rightarrow> [] | (True, it') \<Rightarrow> it' # ck_visits t it')"
  by pat_completeness auto
termination
  by (relation "measure (\<lambda>(t, it). ck_left t it)") (auto dest: ck_advance_left [OF sym])

declare ck_visits.simps [simp del]

lemma ck_Next_left:
  assumes "ck_Next t it = Done it'" and "ci_state it' \<noteq> END"
  shows "ck_left t it' < ck_left t it"
  using assms
proof (induction t it rule: ck_Next.induct)
  case (1 t it)
  obtain go i1 where a: "ck_advance t it = (go, i1)" by (cases "ck_advance t it")
  show ?case
  proof (cases "go \<and> \<not> ck_hit t i1")
    case True
    then have "ck_Next t i1 = Done it'" "ci_index i1 < ck_max_index t"
      using "1.prems" a by (auto simp: ck_Next.simps [of t it] split: if_splits)
    then show ?thesis using "1.IH" [OF a [symmetric]] True "1.prems"(2) ck_advance_left [of t it i1] a by fastforce
  next
    case False
    then show ?thesis using "1.prems" a ck_advance_left [of t it i1]
      by (auto simp: ck_Next.simps [of t it] ck_left_def split: if_splits bool.splits)
  qed
qed

text \<open>The values that a loop over an iterator sees.\<close>

function ck_results :: "cuckoo \<Rightarrow> ck_iter \<Rightarrow> bytes list run" where
  "ck_results t it =
    (case ck_Next t it of
       Done it' \<Rightarrow>
         if ci_state it' = END then Done []
         else (case ck_results t it' of Done vs \<Rightarrow> Done (ci_data it' # vs) | Crash \<Rightarrow> Crash | Deadlock \<Rightarrow> Deadlock | Loops \<Rightarrow> Loops)
     | Crash \<Rightarrow> Crash | Deadlock \<Rightarrow> Deadlock | Loops \<Rightarrow> Loops)"
  by pat_completeness auto
termination
  by (relation "measure (\<lambda>(t, it). ck_left t it)") (auto dest: ck_Next_left)

declare ck_results.simps [simp del]

lemma ck_Next_visits:
  assumes "list_all (\<lambda>i. ci_index i < ck_max_index t) (ck_visits t it)"
  shows "\<exists>it'. ck_Next t it = Done it' \<and>
    (case dropWhile (\<lambda>i. \<not> ck_hit t i) (ck_visits t it) of
       [] \<Rightarrow> ci_state it' = END
     | i # is \<Rightarrow> it' = i\<lparr>ci_state := OK, ci_data := le_bytes 4 (ck_val t (unat (ci_index i)) (ci_way i))\<rparr> \<and> is = ck_visits t i)"
  using assms
proof (induction t it rule: ck_Next.induct)
  case (1 t it)
  obtain go i1 where a: "ck_advance t it = (go, i1)" by (cases "ck_advance t it")
  show ?case
  proof (cases go)
    case False
    then show ?thesis using a by (simp add: ck_visits.simps [of t it] ck_Next.simps [of t it])
  next
    case True
    then have vs: "ck_visits t it = i1 # ck_visits t i1" using a by (simp add: ck_visits.simps [of t it])
    show ?thesis
    proof (cases "ck_hit t i1")
      case True
      then show ?thesis using a \<open>go\<close> vs "1.prems" by (simp add: ck_Next.simps [of t it])
    next
      case False
      have "ck_Next t it = ck_Next t i1" using a \<open>go\<close> vs "1.prems" False by (simp add: ck_Next.simps [of t it])
      then show ?thesis using "1.IH" [OF a [symmetric]] \<open>go\<close> vs "1.prems" False by simp
    qed
  qed
qed

lemma ck_visits_data: "ck_visits t (it\<lparr>ci_state := s, ci_data := d\<rparr>) = map (\<lambda>i. i\<lparr>ci_state := s, ci_data := d\<rparr>) (ck_visits t it)"
proof (induction t it rule: ck_visits.induct)
  case (1 t it)
  obtain go i1 where a: "ck_advance t it = (go, i1)" by (cases "ck_advance t it")
  then have "ck_advance t (it\<lparr>ci_state := s, ci_data := d\<rparr>) = (go, i1\<lparr>ci_state := s, ci_data := d\<rparr>)"
    by (auto simp: ck_advance_def Let_def split: if_splits)
  then show ?case using 1 [OF a [symmetric]] a
    by (cases go) (simp_all add: ck_visits.simps [of t it] ck_visits.simps [of t "it\<lparr>ci_state := s, ci_data := d\<rparr>"])
qed

lemma filter_dropWhile: "filter P xs = filter P (dropWhile (\<lambda>x. \<not> P x) xs)"
  by (induction xs) auto

definition ck_value :: "cuckoo \<Rightarrow> ck_iter \<Rightarrow> bytes" where
  "ck_value t i = le_bytes 4 (ck_val t (unat (ci_index i)) (ci_way i))"

lemma ck_hit_data [simp]:
  "ck_hit t (i\<lparr>ci_state := s, ci_data := d\<rparr>) = ck_hit t i" "ck_value t (i\<lparr>ci_state := s, ci_data := d\<rparr>) = ck_value t i"
  by (simp_all add: ck_hit_def ck_value_def)

lemma ck_results_visits:
  assumes "list_all (\<lambda>i. ci_index i < ck_max_index t) (ck_visits t it)"
  shows "ck_results t it = Done (map (ck_value t) (filter (ck_hit t) (ck_visits t it)))"
  using assms
proof (induction t it rule: ck_results.induct)
  case (1 t it)
  obtain it' where n: "ck_Next t it = Done it'" and
    c: "case dropWhile (\<lambda>i. \<not> ck_hit t i) (ck_visits t it) of [] \<Rightarrow> ci_state it' = END
     | i # is \<Rightarrow> it' = i\<lparr>ci_state := OK, ci_data := le_bytes 4 (ck_val t (unat (ci_index i)) (ci_way i))\<rparr> \<and> is = ck_visits t i"
    using ck_Next_visits [OF "1.prems"] by blast
  show ?case
  proof (cases "dropWhile (\<lambda>i. \<not> ck_hit t i) (ck_visits t it)")
    case Nil
    then have "filter (ck_hit t) (ck_visits t it) = []" by (simp add: dropWhile_eq_Nil_conv filter_empty_conv)
    moreover have "ci_state it' = END" using c Nil by simp
    ultimately show ?thesis using n by (simp add: ck_results.simps [of t it])
  next
    case (Cons i rest)
    then have it': "it' = i\<lparr>ci_state := OK, ci_data := le_bytes 4 (ck_val t (unat (ci_index i)) (ci_way i))\<rparr>" and "rest = ck_visits t i"
      using c by simp_all
    then have vs: "ck_visits t it' = map (\<lambda>j. j\<lparr>ci_state := OK, ci_data := ci_data it'\<rparr>) rest" by (simp add: ck_visits_data)
    have "set rest \<subseteq> set (ck_visits t it)" using Cons set_dropWhileD by (metis list.set_intros(2) subsetI)
    then have "list_all (\<lambda>i. ci_index i < ck_max_index t) (ck_visits t it')" using "1.prems" by (auto simp: vs list_all_iff)
    then have IH: "ck_results t it' = Done (map (ck_value t) (filter (ck_hit t) (ck_visits t it')))"
      using "1.IH" [OF n] it' by simp
    have "hd (i # rest) = i" "ck_hit t i" using Cons hd_dropWhile [of "\<lambda>i. \<not> ck_hit t i" "ck_visits t it"] by auto
    moreover have "filter (ck_hit t) (ck_visits t it) = filter (ck_hit t) (i # rest)"
      unfolding Cons [symmetric] by (rule filter_dropWhile)
    moreover have "map (ck_value t) (filter (ck_hit t) (ck_visits t it')) = map (ck_value t) (filter (ck_hit t) rest)"
      by (simp add: vs filter_map comp_def)
    moreover have "ci_data it' = ck_value t i" "ci_state it' \<noteq> END" by (simp_all add: it' ck_value_def)
    ultimately show ?thesis using n IH by (simp add: ck_results.simps [of t it])
  qed
qed

text \<open>A search looks at the four slots of the one row and then at those of the other one.\<close>

lemma unat_u32_small: "x < 2 ^ 15 \<Longrightarrow> unat (of_nat x :: u32) = x"
  by (simp add: unat_of_nat)

definition ck_matches :: "cuckoo \<Rightarrow> nat \<Rightarrow> nat \<Rightarrow> u32 list" where
  "ck_matches t i x = map (ck_val t i) (filter (\<lambda>w. ck_valid t i w \<and> ck_tag t i w = x) [0, 1, 2, 3])"

lemma ck_Find_results:
  assumes wf: "ck_wf t" and key: "4 \<le> length key"
  defines "a \<equiv> ck_mod t (ck_keyfrag key 0)" and "b \<equiv> ck_mod t (ck_keyfrag key 1)"
  shows "ck_results t (ck_Find t key) = Done (map (le_bytes 4) (ck_matches t a b @ ck_matches t b a))"
proof -
  have k: "key \<noteq> []" using key by auto
  have lt: "a < unat (ck_max_index t)" "b < unat (ck_max_index t)" unfolding a_def b_def by (rule ck_mod_less [OF wf])+
  then have "a < 2 ^ 15" "b < 2 ^ 15" using wf by (auto simp: ck_wf_def)
  note u = unat_u32_small [OF this(1)] unat_u32_small [OF this(2)]
  let ?it = "\<lambda>n i w. \<lparr>ci_key = key, ci_keyfrag = [a, b], ci_keyfrag_id = n, ci_index = of_nat i, ci_way = w, ci_state = OK, ci_data = []\<rparr>"
  have s: "ck_advance t (?it n i 0) = (True, ?it n i 1)" "ck_advance t (?it n i 1) = (True, ?it n i 2)"
    "ck_advance t (?it n i 2) = (True, ?it n i 3)" "ck_advance t (?it 0 i 3) = (True, ?it 1 b 0)"
    "ck_advance t (ck_Find t key) = (True, ?it 0 a 0)" "fst (ck_advance t (?it 1 i 3)) = False" for n i
    using k by (simp_all add: ck_advance_def ck_Find_def ck_ASSOCIATIVITY_def ck_NUMHASH_def a_def b_def)
  have step: "ck_advance t it = (True, it') \<Longrightarrow> ck_visits t it = it' # ck_visits t it'" for it it'
    by (simp add: ck_visits.simps [of t it])
  have stop: "fst (ck_advance t it) = False \<Longrightarrow> ck_visits t it = []" for it
    by (cases "ck_advance t it") (simp add: ck_visits.simps [of t it])
  have vs: "ck_visits t (ck_Find t key) = [?it 0 a 0, ?it 0 a 1, ?it 0 a 2, ?it 0 a 3, ?it 1 b 0, ?it 1 b 1, ?it 1 b 2, ?it 1 b 3]"
    by (simp only: step [OF s(1)] step [OF s(2)] step [OF s(3)] step [OF s(4)] step [OF s(5)] stop [OF s(6)])
  have "list_all (\<lambda>i. ci_index i < ck_max_index t) (ck_visits t (ck_Find t key))"
    using lt by (simp add: vs word_less_nat_alt u)
  note R = ck_results_visits [OF this]
  have vs2: "ck_visits t (ck_Find t key) = map (?it 0 a) [0, 1, 2, 3] @ map (?it 1 b) [0, 1, 2, 3]" by (simp add: vs)
  have h: "ck_hit t (?it 0 a w) \<longleftrightarrow> ck_valid t a w \<and> ck_tag t a w = b" "ck_hit t (?it 1 b w) \<longleftrightarrow> ck_valid t b w \<and> ck_tag t b w = a" for w
    using k by (simp_all add: ck_hit_def u ck_NUMHASH_def)
  have v: "ck_value t (?it n a w) = le_bytes 4 (ck_val t a w)" "ck_value t (?it n b w) = le_bytes 4 (ck_val t b w)" for n w
    by (simp_all add: ck_value_def u)
  show ?thesis unfolding R vs2 filter_append filter_map map_append map_map ck_matches_def comp_def h v by (rule refl)
qed

text \<open>The entries of two rows that name each other.\<close>

lemma filter_image_sum:
  "image_mset f (filter_mset P (\<Sum>p \<in> A. g p)) = (\<Sum>p \<in> A. image_mset f (filter_mset P (g p)))"
  by (induction A rule: infinite_finite_induct) simp_all

definition row_matches :: "cuckoo \<Rightarrow> nat set \<Rightarrow> nat \<Rightarrow> u32 multiset" where
  "row_matches t S i = (\<Sum>w < 4. image_mset snd (filter_mset (\<lambda>e. fst e = S) (slot_entry t (i, w))))"

lemma bag_matches:
  "image_mset snd (filter_mset (\<lambda>e. fst e = S) (ck_bag t)) = (\<Sum>i < unat (ck_max_index t). row_matches t S i)"
  by (simp add: ck_bag_def filter_image_sum row_matches_def sum.cartesian_product)

lemma slot_matches:
  "image_mset snd (filter_mset (\<lambda>e. fst e = S) (slot_entry t (i, w))) =
    (if ck_valid t i w \<and> {i, ck_tag t i w} = S then {#ck_val t i w#} else {#})"
  by (simp add: slot_entry_def)

lemma mset_filter_four:
  "mset (map f (filter P [0, 1, 2, 3])) = (\<Sum>w < 4. if P w then {#f w#} else {#})" for P :: "nat \<Rightarrow> bool"
proof -
  have four: "{..<4} = {0, 1, 2, 3 :: nat}" by auto
  show ?thesis by (simp add: four)
qed

lemma row_matches_eq:
  assumes "i \<in> {a, b}"
  shows "row_matches t {a, b} i = mset (ck_matches t i (if i = a then b else a))"
proof -
  have "{i, x} = {a, b} \<longleftrightarrow> x = (if i = a then b else a)" for x using assms by (auto simp: doubleton_eq_iff)
  then show ?thesis unfolding row_matches_def slot_matches ck_matches_def mset_filter_four by (simp only:)
qed

lemma row_matches_other: "i \<notin> {a, b} \<Longrightarrow> row_matches t {a, b} i = {#}"
  unfolding row_matches_def slot_matches by (rule sum.neutral) (auto simp: doubleton_eq_iff)

lemma bag_of_rows:
  assumes "a < unat (ck_max_index t)" and "b < unat (ck_max_index t)"
  shows "mset (ck_matches t a b @ ck_matches t b a) =
    repeat_mset (if a = b then 2 else 1) (image_mset snd (filter_mset (\<lambda>e. fst e = {a, b}) (ck_bag t)))"
proof -
  have "(\<Sum>i < unat (ck_max_index t). row_matches t {a, b} i) = (\<Sum>i \<in> {a, b}. row_matches t {a, b} i)"
    by (rule sum.mono_neutral_right) (use assms row_matches_other in auto)
  then show ?thesis unfolding bag_matches
    using row_matches_eq [of a a b t] row_matches_eq [of b a b t] by (cases "a = b") (simp_all add: numeral_2_eq_2)
qed

section \<open>Runs of puts\<close>

fun ck_puts :: "cuckoo \<Rightarrow> ((nat \<Rightarrow> nat) \<times> bytes \<times> bytes) list \<Rightarrow> (FawnDS_Return list \<times> cuckoo) run" where
  "ck_puts t [] = Done ([], t)"
| "ck_puts t ((rnd, key, data) # ops) =
    bind_run (ck_Put rnd t key data) (\<lambda>(r, t). bind_run (ck_puts t ops) (\<lambda>(rs, t). Done (r # rs, t)))"

text \<open>What the puts that succeed enter.\<close>

definition put_entries :: "cuckoo \<Rightarrow> ((nat \<Rightarrow> nat) \<times> bytes \<times> bytes) list \<Rightarrow> FawnDS_Return list \<Rightarrow> (nat set \<times> u32) list" where
  "put_entries t ops rs = map (\<lambda>((rnd, key, data), r). (key_rows t key, as_u32 data 0)) (filter (\<lambda>(x, r). r = OK) (zip ops rs))"

lemma ck_puts_bag:
  assumes "ck_wf t" and "list_all (\<lambda>(rnd, key, data). 4 \<le> length key) ops"
  shows "\<exists>rs t'. ck_puts t ops = Done (rs, t') \<and> length rs = length ops \<and> ck_wf t' \<and> ck_max_index t' = ck_max_index t \<and>
    ck_bag t' = ck_bag t + mset (put_entries t ops rs)"
  using assms
proof (induction t ops rule: ck_puts.induct)
  case (2 t rnd key data ops)
  have key: "4 \<le> length key" using "2.prems" by simp
  obtain r t1 where put: "ck_Put rnd t key data = Done (r, t1)" and t1: "ck_wf t1" "ck_max_index t1 = ck_max_index t"
    "ck_bag t1 = ck_bag t + (if r = OK then {#(key_rows t key, as_u32 data 0)#} else {#})"
    using ck_Put_result [OF "2.prems"(1) key, of rnd data] "2.prems"(1) by auto
  from "2.IH" [OF t1(1)] obtain rs t2 where rs: "ck_puts t1 ops = Done (rs, t2)" "length rs = length ops" "ck_wf t2"
    "ck_max_index t2 = ck_max_index t1" "ck_bag t2 = ck_bag t1 + mset (put_entries t1 ops rs)"
    using "2.prems"(2) by auto
  have "put_entries t1 ops rs = put_entries t ops rs"
    using t1(2) by (simp add: put_entries_def key_rows_def ck_mod_def)
  moreover have "put_entries t ((rnd, key, data) # ops) (r # rs) = (if r = OK then [(key_rows t key, as_u32 data 0)] else []) @ put_entries t ops rs"
    by (simp add: put_entries_def)
  ultimately have "ck_bag t2 = ck_bag t + mset (put_entries t ((rnd, key, data) # ops) (r # rs))" using rs(5) t1(3) by simp
  then show ?case using put rs t1 by simp
qed (simp add: put_entries_def)

lemma ck_Create_wf:
  assumes "4 \<le> hts" and "ck_Create hts True t = (r, t')"
  shows "r = OK" "ck_wf t'" "ck_bag t' = {#}"
proof -
  define n where "n = (if hts < 131072 then word_of_int (hts div 4) else 32768 :: u32)"
  have t': "ck_hash_table t' = Some (replicate (unat n) ck_zero_row)" "ck_max_index t' = n" and r: "r = OK"
    using assms by (auto simp: ck_Create_def n_def ck_KEYFRAGBITS_def ck_ASSOCIATIVITY_def Let_def push_bit_eq_mult)
  have n: "unat n \<le> 2 ^ 15" "n \<noteq> 0"
  proof -
    have "unat n = (if hts < 131072 then nat (hts div 4) else 32768)"
      using assms(1) by (auto simp: n_def unsigned_of_int nat_take_bit_eq take_bit_int_eq_self)
    then show "unat n \<le> 2 ^ 15" "n \<noteq> 0" using assms(1) by (auto simp: unat_eq_zero [symmetric] split: if_splits)
  qed
  have inv: "\<not> ck_valid t' i w" if "i < unat n" "w < 4" for i w
    using that by (simp add: ck_valid_def ck_slot_def t' ck_zero_row_def ck_ASSOCIATIVITY_def)
  show "r = OK" by (rule r)
  show "ck_wf t'" using t' n inv by (auto simp: ck_wf_def ck_zero_row_def ck_ASSOCIATIVITY_def)
  show "ck_bag t' = {#}" unfolding ck_bag_def t'(2) by (rule sum.neutral) (auto simp: slot_entry_def inv)
qed

section \<open>The file\<close>

lemma length_row_bytes:
  "length (tag_vector r) = 4 \<Longrightarrow> length (val_vector r) = 4 \<Longrightarrow> length (row_bytes r) = row_size"
proof -
  have le: "length (concat (map (le_bytes n) xs)) = n * length xs" for n and xs :: "'x::len word list"
    by (induction xs) simp_all
  assume "length (tag_vector r) = 4" "length (val_vector r) = 4"
  then show ?thesis by (simp add: row_bytes_def le row_size_def)
qed

lemma take_concat_words:
  "w < length xs \<Longrightarrow> take n (drop (n * w) (concat (map (le_bytes n) xs) @ ys)) = le_bytes n (xs ! w)" for xs :: "'x::len word list"
proof (induction xs arbitrary: w)
  case (Cons x xs)
  then show ?case by (cases w) simp_all
qed simp

lemma row_roundtrip:
  assumes "length (tag_vector r) = 4" and "length (val_vector r) = 4"
  shows "row_of_bytes (row_bytes r) = r"
proof -
  have le: "length (concat (map (le_bytes n) xs)) = n * length xs" for n and xs :: "'x::len word list"
    by (induction xs) simp_all
  have four: "xs = [xs ! 0, xs ! 1, xs ! 2, xs ! 3]" if "length xs = 4" for xs :: "'y list"
    using that by (auto simp: length_Suc_conv numeral_eq_Suc)
  have tg: "take 2 (drop (2 * w) (row_bytes r)) = le_bytes 2 (tag_vector r ! w)" if "w < 4" for w
    unfolding row_bytes_def by (rule take_concat_words) (use that assms in simp)
  have vl: "take 4 (drop (8 + 4 * w) (row_bytes r)) = le_bytes 4 (val_vector r ! w)" if "w < 4" for w
    unfolding row_bytes_def using take_concat_words [of w "val_vector r" 4 "[]"] that assms by (simp add: le drop_append)
  have "map (\<lambda>w. le_word (take 2 (drop (2 * w) (row_bytes r)))) [0, 1, 2, 3] = tag_vector r"
    "map (\<lambda>w. le_word (take 4 (drop (8 + 4 * w) (row_bytes r)))) [0, 1, 2, 3] = val_vector r"
    using four [OF assms(1)] four [OF assms(2)] tg [of 0] tg [of 1] tg [of 2] tg [of 3] vl [of 0] vl [of 1] vl [of 2] vl [of 3] by simp_all
  then show ?thesis unfolding row_of_bytes_def by (simp only: row_eta)
qed

lemma rows_roundtrip:
  assumes "\<forall>r \<in> set rows. length (tag_vector r) = 4 \<and> length (val_vector r) = 4"
  shows "rows_of_bytes (length rows) (concat (map row_bytes rows)) = rows"
proof -
  have "take row_size (drop (row_size * i) (concat (map row_bytes rows))) = row_bytes (rows ! i)" if "i < length rows" for i
    using that assms
  proof (induction rows arbitrary: i)
    case (Cons r rows)
    then show ?case by (cases i) (simp_all add: length_row_bytes)
  qed simp
  then show ?thesis using assms by (intro nth_equalityI) (auto simp: rows_of_bytes_def row_roundtrip)
qed

lemma length_ck_table_bytes:
  assumes "\<forall>r \<in> set rows. length (tag_vector r) = 4 \<and> length (val_vector r) = 4"
  shows "length (concat (map row_bytes rows)) = row_size * length rows"
  using assms by (induction rows) (simp_all add: length_row_bytes)

lemma pwrite_fits:
  assumes "off + length bs \<le> fcap f"
  obtains f' where "pwrite f bs off = (int (length bs), f')" "fcap f' = fcap f" "pread f' (length bs) off = bs"
    "length (fdata f) \<le> length (fdata f')"
proof -
  obtain w f' where p: "pwrite f bs off = (w, f')" by (cases "pwrite f bs off")
  have "w = int (length bs)" using pwrite_complete_iff [of f bs off] assms p by simp
  with p have p: "pwrite f bs off = (int (length bs), f')" by simp
  show ?thesis by (rule that [OF p pwrite_cap [OF p] pwrite_full [OF p] pwrite_grows [OF p]])
qed

lemma fill_fits:
  "off + nbytes \<le> fcap f \<Longrightarrow> \<exists>f'. fill_file_with_zeros f off nbytes = (True, f') \<and> fcap f' = fcap f"
proof (induction f off nbytes rule: fill_file_with_zeros.induct)
  case (1 f off nbytes)
  show ?case
  proof (cases "nbytes = 0")
    case True
    then show ?thesis by (simp add: fill_file_with_zeros.simps)
  next
    case False
    define n where "n = min nbytes 8192"
    have "off + length (replicate n (0 :: byte)) \<le> fcap f" using "1.prems" by (simp add: n_def)
    then obtain f1 where p: "pwrite f (replicate n 0) off = (int n, f1)" "fcap f1 = fcap f" by (rule pwrite_fits) simp
    then have "fill_file_with_zeros f off nbytes = fill_file_with_zeros f1 (off + n) (nbytes - n)"
      using False by (simp add: fill_file_with_zeros.simps [of f off nbytes] n_def [symmetric])
    moreover have "off + n + (nbytes - n) \<le> fcap f1" using "1.prems" p(2) by (simp add: n_def)
    ultimately show ?thesis
      using "1.IH" [OF False n_def p(1) [symmetric]] p(2) by simp
  qed
qed

lemma ck_write_loop_fits:
  assumes "off + length bs \<le> fcap f" and "bs \<noteq> []"
  obtains f' where "ck_write_loop f bs (length bs) off = f'" "fcap f' = fcap f" "pread f' (length bs) off = bs"
    "\<And>n o'. o' + n \<le> off \<Longrightarrow> o' + n \<le> length (fdata f) \<Longrightarrow> pread f' n o' = pread f n o'"
proof -
  obtain f1 where p: "pwrite f bs off = (int (length bs), f1)" "fcap f1 = fcap f" "pread f1 (length bs) off = bs"
    by (rule pwrite_fits [OF assms(1)])
  have "ck_write_loop f1 bs 0 x = f1" for x by (simp add: ck_write_loop.simps pwrite_def)
  then have "ck_write_loop f bs (length bs) off = f1"
    using p(1) assms(2) by (simp add: ck_write_loop.simps [of f bs "length bs" off])
  with p show ?thesis using pwrite_before [OF p(1)] that by blast
qed

lemma ck_WriteToFile_fits:
  assumes wf: "ck_wf t" and fit: "ck_length t \<le> fcap (ck_file t)"
  obtains f where "ck_WriteToFile t = (True, t\<lparr>ck_file := f\<rparr>)" "pread f 4 0 = le_bytes 4 (ck_current_entries t)"
    "pread f (row_size * unat (ck_max_index t)) 4 = ck_table_bytes t"
proof -
  obtain rows where r: "ck_hash_table t = Some rows" "length rows = unat (ck_max_index t)"
    "\<forall>r \<in> set rows. length (tag_vector r) = 4 \<and> length (val_vector r) = 4" using wf by (auto simp: ck_wf_def)
  let ?n = "row_size * unat (ck_max_index t)"
  have n: "ck_length t = 4 + ?n" using r by (simp add: ck_length_def)
  have l: "length (ck_table_bytes t) = ?n" using length_ck_table_bytes [OF r(3)] r by (simp add: ck_table_bytes_def)
  have "0 < ?n" using wf by (simp add: ck_wf_def row_size_def unat_gt_0)
  then have ne: "ck_table_bytes t \<noteq> []" using l by auto
  obtain f1 where f1: "fill_file_with_zeros (ck_truncate (ck_file t) (ck_length t)) 0 (ck_length t) = (True, f1)" "fcap f1 = fcap (ck_file t)"
    using fill_fits [of 0 "ck_length t" "ck_truncate (ck_file t) (ck_length t)"] fit by (auto simp: ck_truncate_def)
  have "0 + length (le_bytes 4 (ck_current_entries t)) \<le> fcap f1" using fit n f1 by simp
  then obtain f2 where f2: "pwrite f1 (le_bytes 4 (ck_current_entries t)) 0 = (4, f2)" "fcap f2 = fcap f1"
    "pread f2 4 0 = le_bytes 4 (ck_current_entries t)" by (rule pwrite_fits) simp
  have "4 + length (ck_table_bytes t) \<le> fcap f2" using fit n f1 f2 l by simp
  then obtain f3 where f3: "ck_write_loop f2 (ck_table_bytes t) (length (ck_table_bytes t)) 4 = f3"
    "pread f3 (length (ck_table_bytes t)) 4 = ck_table_bytes t"
    "\<And>n o'. o' + n \<le> 4 \<Longrightarrow> o' + n \<le> length (fdata f2) \<Longrightarrow> pread f3 n o' = pread f2 n o'"
    using ne by (rule ck_write_loop_fits) blast
  have "length (pread f2 4 0) = 4" using f2(3) by simp
  then have "4 \<le> length (fdata f2)" by (simp add: pread_length)
  then have "pread f3 4 0 = le_bytes 4 (ck_current_entries t)" using f3(3) [of 0 4] f2(3) by simp
  moreover have "ck_WriteToFile t = (True, t\<lparr>ck_file := f3\<rparr>)"
    using f1(1) f2(1) f3(1) n l by (simp add: ck_WriteToFile_def Let_def)
  ultimately show ?thesis using that f3(2) l by simp
qed

lemma ck_read_loop_all:
  assumes "pread f n off = d" and "length d = n" and "length buf = n"
  shows "ck_read_loop f buf n off = d"
proof (cases "d = []")
  case True
  then show ?thesis using assms by (simp add: ck_read_loop.simps [of f _ 0])
next
  case False
  then show ?thesis using assms by (simp add: ck_read_loop.simps [of f buf n off] ck_read_loop.simps [of f _ 0] pread_def)
qed

lemma ck_Create_index: "ck_max_index (snd (ck_Create hts True t)) = ck_max_index (snd (ck_Create hts True t'))" if "0 < hts"
  using that by (simp add: ck_Create_def Let_def)

lemma ck_Create_file: "ck_hash_table t = None \<Longrightarrow> ck_fpf_table t = None \<Longrightarrow> ck_file (snd (ck_Create hts offsets t)) = ck_file t"
  by (simp add: ck_Create_def ck_closed_def Let_def)

lemma ck_reopen:
  assumes wf: "ck_wf t" and fit: "ck_length t \<le> fcap (ck_file t)" and hts: "4 \<le> hts"
    and idx: "ck_max_index t = ck_max_index (snd (ck_Create hts True t0))"
  shows "fst (ck_Close t) = OK" and "fst (ck_Open hts True (snd (ck_Close t))) = OK"
    and "ck_hash_table (snd (ck_Open hts True (snd (ck_Close t)))) = ck_hash_table t"
    and "ck_current_entries (snd (ck_Open hts True (snd (ck_Close t)))) = ck_current_entries t"
proof -
  obtain f where w: "ck_WriteToFile t = (True, t\<lparr>ck_file := f\<rparr>)" and e: "pread f 4 0 = le_bytes 4 (ck_current_entries t)"
    and tb: "pread f (row_size * unat (ck_max_index t)) 4 = ck_table_bytes t" by (rule ck_WriteToFile_fits [OF wf fit])
  obtain rows where r: "ck_hash_table t = Some rows" "length rows = unat (ck_max_index t)"
    "\<forall>r \<in> set rows. length (tag_vector r) = 4 \<and> length (val_vector r) = 4" using wf by (auto simp: ck_wf_def)
  define t1 where "t1 = t\<lparr>ck_file := f, ck_hash_table := None, ck_fpf_table := None\<rparr>"
  have cl: "ck_Close t = (OK, t1)" using w r by (simp add: ck_Close_def ck_Flush_def t1_def)
  obtain t2 where c: "ck_Create hts True t1 = (OK, t2)" and wf2: "ck_wf t2"
    using ck_Create_wf [OF hts, of t1] by (metis prod.collapse)
  have idx2: "ck_max_index t2 = ck_max_index t" using ck_Create_index [of hts t1 t0] c idx hts by simp
  have f2: "ck_file t2 = f" using ck_Create_file [of t1 hts True] c by (simp add: t1_def)
  obtain rows2 where r2: "ck_hash_table t2 = Some rows2" "length rows2 = unat (ck_max_index t2)"
    "\<forall>r \<in> set rows2. length (tag_vector r) = 4 \<and> length (val_vector r) = 4" using wf2 by (auto simp: ck_wf_def)
  have "length (ck_table_bytes t2) = row_size * unat (ck_max_index t)"
    "length (ck_table_bytes t) = row_size * unat (ck_max_index t)"
    using length_ck_table_bytes [OF r2(3)] length_ck_table_bytes [OF r(3)] r r2 idx2 by (simp_all add: ck_table_bytes_def)
  from ck_read_loop_all [OF tb this(2) this(1)]
  have rd: "ck_read_loop f (ck_table_bytes t2) (row_size * unat (ck_max_index t)) 4 = ck_table_bytes t" .
  have "ck_table_bytes (t2\<lparr>ck_current_entries := x\<rparr>) = ck_table_bytes t2" for x by (simp add: ck_table_bytes_def split: option.split)
  then have rf: "ck_ReadFromFile t2 = (True, t2\<lparr>ck_current_entries := ck_current_entries t, ck_hash_table := Some rows\<rparr>)"
    using e rd r r2 rows_roundtrip [OF r(3)] f2 idx2 by (simp add: ck_ReadFromFile_def Let_def ck_table_bytes_def)
  have "ck_closed t1 = t1" by (simp add: ck_closed_def t1_def)
  then have op: "ck_Open hts True t1 = (OK, t2\<lparr>ck_current_entries := ck_current_entries t, ck_hash_table := Some rows\<rparr>)"
    using c rf by (simp add: ck_Open_def)
  show "fst (ck_Close t) = OK" "fst (ck_Open hts True (snd (ck_Close t))) = OK"
    "ck_hash_table (snd (ck_Open hts True (snd (ck_Close t)))) = ck_hash_table t"
    "ck_current_entries (snd (ck_Open hts True (snd (ck_Close t)))) = ck_current_entries t"
    using cl op r by simp_all
qed

end
