(* ===== verification/Cuckoo_Props.thy ===== *)
theory Cuckoo_Props
  imports Cuckoo_Correct
begin

text \<open>
  The properties of the cuckoo hash table.
\<close>

text \<open>
  Property C7. A cuckoo table is a bag. After any sequence of puts into a new table, whatever the random choices, a search for a key
  sees exactly the values of the successful puts whose keys have the same two rows, each once, or each twice when the two rows of
  the key are one row. No put loses an entry or crashes.
\<close>

theorem cuckoo_finds_puts:
  assumes "4 \<le> hts" and "ck_Create hts True t0 = (r, t)" and "list_all (\<lambda>(rnd, key, data). 4 \<le> length key) ops" and "4 \<le> length key"
  shows "\<exists>rs t' vs. ck_puts t ops = Done (rs, t') \<and> ck_results t' (ck_Find t' key) = Done (map (le_bytes 4) vs) \<and>
    mset vs = repeat_mset (if card (key_rows t key) = 1 then 2 else 1)
      (mset (map snd (filter (\<lambda>e. fst e = key_rows t key) (put_entries t ops rs))))"
proof -
  note C = ck_Create_wf [OF assms(1,2)]
  obtain rs t' where p: "ck_puts t ops = Done (rs, t')" and wf: "ck_wf t'" and m: "ck_max_index t' = ck_max_index t"
    and bag: "ck_bag t' = mset (put_entries t ops rs)"
    using ck_puts_bag [OF C(2) assms(3)] C(3) by auto
  let ?a = "ck_mod t' (ck_keyfrag key 0)" and ?b = "ck_mod t' (ck_keyfrag key 1)"
  have kr: "key_rows t key = {?a, ?b}" using m by (simp add: key_rows_def ck_mod_def)
  have "card {?a, ?b} = 1 \<longleftrightarrow> ?a = ?b" by (simp add: card_insert_if)
  moreover note bag_of_rows [OF ck_mod_less [OF wf] ck_mod_less [OF wf], of "ck_keyfrag key 0" "ck_keyfrag key 1"]
  ultimately have "mset (ck_matches t' ?a ?b @ ck_matches t' ?b ?a) = repeat_mset (if card (key_rows t key) = 1 then 2 else 1)
      (mset (map snd (filter (\<lambda>e. fst e = key_rows t key) (put_entries t ops rs))))"
    unfolding kr bag by simp
  then show ?thesis using p ck_Find_results [OF wf assms(4)] by blast
qed

definition blank_cuckoo :: cuckoo where
  "blank_cuckoo = \<lparr>ck_hash_table = None, ck_fpf_table = None, ck_max_index = 0, ck_max_entries = 0, ck_current_entries = 0,
    ck_file = \<lparr>fdata = [], fcap = 1000\<rparr>\<rparr>"

theorem cuckoo_finds_puts_witness:
  "\<exists>rs t' vs. ck_puts (snd (ck_Create 8 True blank_cuckoo)) [(\<lambda>n. 0, [1, 0, 0, 0], [7]), (\<lambda>n. 1, [0, 0, 0, 0], [9])] = Done (rs, t') \<and>
    ck_results t' (ck_Find t' [1, 0, 0, 0]) = Done (map (le_bytes 4) vs) \<and> mset vs = {#7 :: u32#}"
proof -
  let ?t = "snd (ck_Create 8 True blank_cuckoo)" and ?ops = "[(\<lambda>n. 0, [1, 0, 0, 0], [7]), (\<lambda>n. 1, [0, 0, 0, 0], [9])] :: ((nat \<Rightarrow> nat) \<times> bytes \<times> bytes) list"
  have "list_all (\<lambda>(rnd, key, data). 4 \<le> length key) ?ops" "4 \<le> length ([1, 0, 0, 0] :: bytes)" by simp_all
  from cuckoo_finds_puts [OF _ prod.collapse [symmetric] this, of 8 blank_cuckoo] obtain rs t' vs
    where p: "ck_puts ?t ?ops = Done (rs, t')" "ck_results t' (ck_Find t' [1, 0, 0, 0]) = Done (map (le_bytes 4) vs)"
      and m: "mset vs = repeat_mset (if card (key_rows ?t [1, 0, 0, 0]) = 1 then 2 else 1)
        (mset (map snd (filter (\<lambda>e. fst e = key_rows ?t [1, 0, 0, 0]) (put_entries ?t ?ops rs))))" by auto
  have "case ck_puts ?t ?ops of Done (rs, t') \<Rightarrow> rs = [OK, OK] | _ \<Rightarrow> False" by code_simp
  with p(1) have rs: "rs = [OK, OK]" by (simp del: ck_puts.simps)
  have k: "key_rows ?t [1, 0, 0, 0] = {0, 1}" "key_rows ?t [0, 0, 0, 0] = {0}" "as_u32 [7] 0 = 7" by code_simp+
  have "put_entries ?t ?ops rs = [({0, 1}, 7), ({0}, as_u32 [9] 0)]" by (simp add: rs put_entries_def k)
  then have "mset vs = {#7#}" using m by (simp add: k)
  with p show ?thesis by blast
qed

text \<open>
  Property C39. A put that finds no place moves up to 128 entries and then moves them all back: it answers that the space does not
  suffice and leaves the table bit for bit as it was.
\<close>

theorem cuckoo_full_put_undone:
  assumes "4 \<le> hts" and "ck_Create hts True t0 = (r0, t)" and "list_all (\<lambda>(rnd, key, data). 4 \<le> length key) ops"
    and "ck_puts t ops = Done (rs, t1)" and "4 \<le> length key" and "ck_Put rnd t1 key data = Done (r, t2)" and "r \<noteq> OK"
  shows "r = INSUFFICIENT_SPACE \<and> t2 = t1"
proof -
  have "ck_wf t1" using ck_puts_bag [OF ck_Create_wf(2) [OF assms(1,2)] assms(3)] assms(4) by auto
  from ck_Put_result [OF this assms(5), of rnd data] assms(6,7) show ?thesis by auto
qed

definition four_puts :: "((nat \<Rightarrow> nat) \<times> bytes \<times> bytes) list" where
  "four_puts = map (\<lambda>v. (\<lambda>n. n, [1, 0, 0, 0], [v])) [1, 2, 3, 4]"

lemma ck_bag_size: "size (ck_bag t) \<le> 4 * unat (ck_max_index t)"
proof -
  have "size (\<Sum>p \<in> A. slot_entry t p) \<le> card A" if "finite A" for A
    using that by (induction A) (auto simp: slot_entry_def)
  from this [of "{..<unat (ck_max_index t)} \<times> {..<4}"] show ?thesis by (simp add: ck_bag_def)
qed

theorem cuckoo_full_put_undone_witness:
  "\<exists>rs t1. ck_puts (snd (ck_Create 4 True blank_cuckoo)) four_puts = Done (rs, t1) \<and> rs = [OK, OK, OK, OK] \<and>
    ck_Put (\<lambda>n. n * n) t1 [1, 0, 0, 0] [5] = Done (INSUFFICIENT_SPACE, t1)"
proof -
  let ?t = "snd (ck_Create 4 True blank_cuckoo)"
  have "case ck_puts ?t four_puts of Done (rs, t1) \<Rightarrow> rs = [OK, OK, OK, OK] | _ \<Rightarrow> False" by code_simp
  then obtain t1 where p: "ck_puts ?t four_puts = Done ([OK, OK, OK, OK], t1)" by (auto split: run.splits prod.splits)
  have a: "list_all (\<lambda>(rnd, key, data). 4 \<le> length key) four_puts" "(4 :: int) \<le> 4" "4 \<le> length ([1, 0, 0, 0] :: bytes)"
    by (simp_all add: four_puts_def)
  have m: "ck_max_index ?t = 1" by code_simp
  note C = ck_Create_wf [OF a(2) prod.collapse [symmetric], of blank_cuckoo]
  obtain rs t' where "ck_puts ?t four_puts = Done (rs, t')" "ck_wf t'" "ck_max_index t' = ck_max_index ?t"
    "ck_bag t' = ck_bag ?t + mset (put_entries ?t four_puts rs)" using ck_puts_bag [OF C(2) a(1)] by blast
  with p have t1: "ck_wf t1" "ck_max_index t1 = 1" and "ck_bag t1 = mset (put_entries ?t four_puts [OK, OK, OK, OK])"
    using C(3) m by auto
  then have t1b: "size (ck_bag t1) = 4" by (simp add: put_entries_def four_puts_def)
  obtain r t2 where q: "ck_Put (\<lambda>n. n * n) t1 [1, 0, 0, 0] [5] = Done (r, t2)" and "r \<noteq> OK"
  proof -
    have "size (ck_bag t2) \<le> 4" if "ck_max_index t2 = ck_max_index t1" for t2 using ck_bag_size [of t2] that t1(2) by simp
    then show ?thesis using that ck_Put_result [OF t1(1) a(3), of "\<lambda>n. n * n" "[5]"] t1b by fastforce
  qed
  from cuckoo_full_put_undone [OF a(2) prod.collapse [symmetric] a(1) p a(3) this] p q show ?thesis by blast
qed

text \<open>
  Property C40. A table with offsets that is closed and opened again has the same rows and the same count, as long as its file fits
  on the disk.
\<close>

theorem cuckoo_reopens:
  assumes "4 \<le> hts" and "ck_Create hts True t0 = (r0, t)" and "list_all (\<lambda>(rnd, key, data). 4 \<le> length key) ops"
    and "ck_puts t ops = Done (rs, t1)" and "ck_length t1 \<le> fcap (ck_file t1)"
  shows "fst (ck_Close t1) = OK \<and> (\<exists>t2. ck_Open hts True (snd (ck_Close t1)) = (OK, t2) \<and> ck_hash_table t2 = ck_hash_table t1 \<and>
    ck_current_entries t2 = ck_current_entries t1)"
proof -
  have wf: "ck_wf t1" and m: "ck_max_index t1 = ck_max_index t"
    using ck_puts_bag [OF ck_Create_wf(2) [OF assms(1,2)] assms(3)] assms(4) by auto
  have "ck_max_index t1 = ck_max_index (snd (ck_Create hts True t0))" using m assms(2) by simp
  from ck_reopen [OF wf assms(5,1) this] show ?thesis by (metis prod.collapse)
qed

theorem cuckoo_reopens_witness:
  "\<exists>rs t1 t2. ck_puts (snd (ck_Create 4 True blank_cuckoo)) four_puts = Done (rs, t1) \<and>
    ck_Open 4 True (snd (ck_Close t1)) = (OK, t2) \<and> ck_hash_table t2 = ck_hash_table t1 \<and> ck_current_entries t2 = 4"
proof -
  let ?t = "snd (ck_Create 4 True blank_cuckoo)"
  have "case ck_puts ?t four_puts of Done (rs, t1) \<Rightarrow> ck_length t1 \<le> fcap (ck_file t1) \<and> ck_current_entries t1 = 4 | _ \<Rightarrow> False"
    by code_simp
  then obtain rs t1 where p: "ck_puts ?t four_puts = Done (rs, t1)" and f: "ck_length t1 \<le> fcap (ck_file t1)" "ck_current_entries t1 = 4"
    by (auto split: run.splits prod.splits)
  have a: "list_all (\<lambda>(rnd, key, data). 4 \<le> length key) four_puts" "(4 :: int) \<le> 4" by (simp_all add: four_puts_def)
  from cuckoo_reopens [OF a(2) prod.collapse [symmetric] a(1) p f(1)] p f(2) show ?thesis by auto
qed

text \<open>A table without offsets cannot be opened again.\<close>

lemma cuckoo_without_offsets_lost: "fst (ck_Open hts False t) = ERROR"
  by (auto simp: ck_Open_def ck_Create_def ck_ReadFromFile_def Let_def split: prod.splits FawnDS_Return.splits if_splits)

end
