(* ===== verification/Spec2Isabelle.thy ===== *)
theory Spec2Isabelle
  imports Dbid FawnDS_Props FawnDS_Move_Props HashUtil_Props Manager_Props Index_Props Silt_Props Frontend_Props Backend_Props Cuckoo_Props
begin

text \<open>
  A verification library for FAWN-KV, a replicated key-value store for clusters of small nodes,
  and for SILT, the flash-based store that can replace its storage layer.

  \<^bold>\<open>The program.\<close> Clients send a key to a \<^emph>\<open>front end\<close> (\<^verbatim>\<open>src/fawnkv\<close>). A front end keeps a copy of the
  \<^emph>\<open>ring\<close> of virtual nodes that the \<^emph>\<open>membership manager\<close> maintains; it finds the owner of a key and
  forwards the request along the chain of its replicas. The \<^emph>\<open>back end\<close> nodes keep the data of each
  range in a \<^emph>\<open>FAWN data store\<close> (\<^verbatim>\<open>src/fawnds\<close>): a hash table in memory that points into an
  append-only log. Keys and nodes are placed by 160-bit ring identifiers and by the hash functions of
  \<^verbatim>\<open>src/utils\<close>. \<^verbatim>\<open>src/siltds\<close> holds a second generation of stores; its \<^verbatim>\<open>cindex\<close> directory is the
  compact index of a sorted file of entries.

  \<^bold>\<open>Theories and the code they model.\<close>
  \<^item> \<open>Prelude\<close>: machine types, the result type \<open>res\<close> (\<open>Ret\<close> a value, \<open>Fault\<close> an access outside an
    array), little- and big-endian readings, shared list and word lemmas.
  \<^item> \<open>Dbid\<close>: \<^verbatim>\<open>utils/dbid.h\<close>, \<^verbatim>\<open>utils/dbid.cc\<close>. The byte-wise comparison is the order of the
    big-endian numbers; \<open>between\<close> is membership in a clockwise half-open arc.
  \<^item> \<open>HashUtil\<close>, \<open>HashUtil_Props\<close>: \<^verbatim>\<open>utils/hashutil.cc\<close>, \<^verbatim>\<open>utils/fnv.h\<close>,
    \<^verbatim>\<open>fawnds/hash_functions.cc\<close>. The three read widths of \<open>BobHash\<close> agree, mixing steps are
    bijections, hashes look at the bytes of the key only.
  \<^item> \<open>Net_Id\<close>: the \<^verbatim>\<open>ip:port\<close> identifiers of \<^verbatim>\<open>utils/print.cc\<close> and their round trip.
  \<^item> \<open>Posix_File\<close>, \<open>Flash\<close>: the file below a store and the log records of
    \<^verbatim>\<open>fawnds/fawnds_flash.cc\<close>.
  \<^item> \<open>Open_Addressing\<close>: the abstract hash table with lazy deletion; \<open>FawnDS\<close>: creation,
    \<open>FindHashIndex\<close>, \<open>Insert\<close>, \<open>Delete\<close> and \<open>Get\<close> of \<^verbatim>\<open>fawnds/fawnds.cc\<close>, with the global table of hash
    functions as an argument, and the constructor, which may replace it; \<open>FawnDS_Correct\<close>: a store with at least
    eight slots whose keys have one length, inside which the hash functions stay, refines a map; \<open>Kv_Store\<close>: the contract of a store as a locale with its
    run theorem, interpreted on \<open>FawnDS\<close>; \<open>FawnDS_Props\<close>: the properties.
  \<^item> \<open>FawnDS_Disk\<close>: the header and the table on disk, \<open>WriteHashtableToFile\<close> and \<open>Open_FawnDS\<close>, and a second
    interpretation of the contract that keeps the layout of the file. \<open>FawnDS_Move\<close>, \<open>FawnDS_Move_Correct\<close>,
    \<open>FawnDS_Move_Props\<close>: the streaming split, \<open>Split\<close>, \<open>Merge\<close> and \<open>Rewrite\<close>, which scan a log that may grow
    meanwhile; merging refines an abstract run of the operations in the log.
  \<^item> \<open>Ring_Nodes\<close>, \<open>Ring\<close>, \<open>Ring_Laws\<close>, \<open>Ring_Props\<close>: \<^verbatim>\<open>fawnkv/node.cpp\<close>, \<^verbatim>\<open>virtualnode.cpp\<close>,
    \<^verbatim>\<open>nodehandle.cpp\<close> and \<^verbatim>\<open>ring.cpp\<close>. The searches return the owner of an arc, the neighbours on the
    ring, and as replica group the first distinct nodes clockwise from the owner.
  \<^item> \<open>Outcome\<close>, \<open>Kv_Messages\<close>: how a request handler can end, and the remote calls of the Thrift services.
  \<^item> \<open>Manager\<close>, \<open>Manager_Laws\<close>, \<open>Manager_Props\<close>: every request handler of \<^verbatim>\<open>fawnkv/Manager.cpp\<close>, with
    the mutexes it holds and the messages it sends. The manager is a step relation over requests that are
    handled one after the other; with a replication factor other than one its invariant holds in every reachable
    state and every request returns; with the factor one the aging thread can block itself, and with any factor a
    join and the aging thread can block each other by the order in which they take the two mutexes. A front end that
    applies \<open>UpdateState\<close> has the manager's ring.
  \<^item> \<open>Frontend\<close>, \<open>Frontend_Correct\<close>: \<^verbatim>\<open>fawnkv/fe.cpp\<close>; requests go along the replica chain of the ring the
    manager sent. \<open>Fe_Cache\<close>, \<open>Fe_Cache_Props\<close>: the caches of \<^verbatim>\<open>fe_cache.cpp\<close> and \<^verbatim>\<open>cache.h\<close>.
    \<open>Server_Handler\<close>, \<open>Server_Correct\<close>, \<open>Frontend_Props\<close>: \<^verbatim>\<open>FawnKVServerHandler.cpp\<close>, which numbers the
    requests of its clients and matches the answers to them; a removal, which takes the mutex late, is two events
    with others in between.
  \<^item> \<open>Hex_Text\<close>: the text form of identifiers in \<^verbatim>\<open>utils/print.cc\<close>. \<open>Backend_Db\<close>, \<open>Backend\<close>, \<open>Backend_Join\<close>: the back end,
    \<^verbatim>\<open>fawnkv/node_mgr.h\<close>, \<^verbatim>\<open>node_mgr.cpp\<close>, \<^verbatim>\<open>node_mgr_db.cpp\<close> and \<^verbatim>\<open>FawnKVBackendHandler.cpp\<close>: its ranges
    and their locks, its connections, and every request handler with the messages it sends and the threads it starts.
    A put is in two parts: it gives up the lock of its range before it forwards or answers.
    \<open>Backend_Correct\<close>: what one node does with the parts of a put and with an acknowledgement. \<open>Backend_Chain\<close>: nodes,
    connections and server threads as a step relation, where a step is the first part of a put, taken from a front end or from the
    predecessor, the second part of one, or an acknowledgement. Its invariant relates the histories of neighbouring stores: what one
    accepted is what the next was given, what is on the way, and what its threads have yet to pass on; a weight shows that the chain comes
    to rest. \<open>Backend_Props\<close>: the properties, one of which shows two nodes storing two puts in opposite orders. The SILT store of a node
    is a parameter of which nothing is assumed.
  \<^item> \<open>Bit_Access\<close>, \<open>Bit_Vector\<close>: \<^verbatim>\<open>siltds/cindex/bit_access.hpp\<close>, \<^verbatim>\<open>block_info.hpp\<close>,
    \<^verbatim>\<open>bit_vector.hpp\<close>, \<^verbatim>\<open>bit_vector.cpp\<close>. Arrays of blocks refine lists of booleans.
  \<^item> \<open>Integer_Codes\<close>, \<open>Huffman\<close>: \<^verbatim>\<open>sign_interleave.hpp\<close>, \<^verbatim>\<open>exp_golomb.hpp\<close>, \<^verbatim>\<open>huffman.hpp\<close> and their
    round trips; the Huffman coder with its table of codes and its reverse table.
  \<^item> \<open>Trie\<close>, \<open>Trie_Correct\<close>: \<^verbatim>\<open>trie.hpp\<close>; each key of an encoded group is found at its position.
  \<^item> \<open>Bucketing\<close>: the tables of bucket offsets, the locale \<open>bucketing\<close> of their laws and its two
    interpretations on \<^verbatim>\<open>flat_absoff_bucketing\<close> and \<^verbatim>\<open>twolevel_absoff_bucketing\<close>;
    \<open>Bucketing_Index\<close>, \<open>Index_Correct\<close>, \<open>Index_Props\<close>: \<^verbatim>\<open>bucketing_index.cpp\<close> over any bucketing that
    keeps the laws; an index filled with sorted keys locates each of them.
  \<^item> \<open>Silt_Types\<close>, \<open>File_Io\<close>, \<open>File_Io_Correct\<close>: return codes of the SILT stores and the input and output
    layer of \<^verbatim>\<open>siltds/file_store.cc\<close> with its page cache, dirty chunks and sync tasks; reads see the
    file and a sync makes it durable. \<open>File_Store\<close>, \<open>File_Store_Correct\<close>: the operations of the file
    store, a log of entries; the three sections of its sync task may run between any two operations of one thread, but a
    section inside a write can lose data, as a property shows. \<open>Trie_Store\<close>, \<open>Trie_Store_Correct\<close>: \<^verbatim>\<open>siltds/fawnds_sf_ordered_trie.cc\<close>,
    the sorted store, over any record store with the laws of the locale \<open>record_store\<close>, which is
    interpreted on the file store with its sync task. \<open>Silt_Props\<close>: the properties.
  \<^item> \<open>Cuckoo\<close>, \<open>Cuckoo_Correct\<close>, \<open>Cuckoo_Props\<close>: \<^verbatim>\<open>siltds/hash_table_cuckoo.h\<close> and
    \<^verbatim>\<open>hash_table_cuckoo.cc\<close>, the hash table that SILT keeps over a log. The table is a bag of entries, each a pair of
    rows and a value: moving an entry to its other row keeps the bag, a search finds the entries of its rows, a put that
    does not succeed restores the table, and closing and opening it brings the rows back. Random numbers and
    configuration values are arguments.

  \<^bold>\<open>Bounds and fuel.\<close> Integers whose overflow matters are words of the width of the source; sizes of
  containers and of files are natural numbers. The walk over the ring in the manager has the length
  of the ring as fuel, the aging loop twice the number of nodes; the properties show that both are
  enough. The recursions over a Huffman tree have \<open>2 * n - 1\<close> steps of fuel for \<open>n\<close> symbols,
  which is enough because children are built before their parents; the coder is constructed when no code is longer
  than 30 bits, as for up to 31 symbols. The trie theorems ask for fewer
  than \<open>2 ^ 63\<close> keys, below which the coded differences do not wrap. The file store works on chunks of
  1048576 bytes and caches 128 pages of 512 bytes, as the source does; its theorems ask for logs of at
  most \<open>2 ^ 62\<close> bytes, where offsets do not wrap, and a buffer of \<open>2 ^ 63\<close> bytes or more fails to
  allocate. The scan of \<open>Merge\<close> and \<open>Rewrite\<close> runs over a list of the states in which it finds the scanned store;
  a list that ends with a state without new records is long enough. Chains have fewer than \<open>2 ^ 31\<close> nodes, where hop counts keep their sign. The matching of answers to clients holds for the first \<open>2 ^ 32\<close> requests of a server; a
  property shows what happens after them.

  \<^bold>\<open>Not modelled.\<close> Thrift connections, sockets, XML configuration, thread pools, printing, statistics
  and benchmarks are input and output or calls into libraries. MD5 and SHA-1 are functions of
  OpenSSL. The two \<^verbatim>\<open>reloff\<close> bucketings compute with floating-point slopes. \<open>store_to_file\<close> and \<open>load_from_file\<close> of the index only
  move its fields. Of SILT, the default hash table, the sorter and
  the stores composed from the sorted store and the file store are left out; of these two, deleting the files and
  the sharing of value buffers. The handlers of a back end other than puts run from beginning to end, as do the requests of the manager but for the
  pair above; that concurrent changes of a C++ container outside its lock do no harm is taken for granted. The variants under \<^verbatim>\<open>SPLIT_DB\<close>, which no build
  defines, and \<^verbatim>\<open>cleanup_sockets\<close>, which nothing calls, are left out. Connections between servers are taken to be made and to
  deliver in order; \<^verbatim>\<open>FawnKVFrontendHandler.cpp\<close> is not built and \<^verbatim>\<open>cache.cpp\<close> is a test program.
\<close>

end
